(* ===== verification/Prelude.thy ===== *)
theory Prelude
  imports Main "HOL-Library.Word" "HOL-Library.List_Lexorder" "HOL-Library.Char_ord"
begin

text \<open>
  Shared vocabulary of the development: Go's basic types, errors as values, and the
  parts of Go's standard library the modelled packages call.

  \<^item> A \<^verbatim>\<open>[]byte\<close> is a \<^verbatim>\<open>byte list\<close>, a Go string is a \<^verbatim>\<open>string\<close> (a list of byte-sized
    characters, which is what Go's \<^verbatim>\<open>len\<close>, indexing and comparison see); the two are
    converted by \<^verbatim>\<open>bytes_of\<close> and \<^verbatim>\<open>string_of\<close>, as \<^verbatim>\<open>[]byte(s)\<close> and \<^verbatim>\<open>string(b)\<close> do.
    Both are ordered lexicographically, the order of \<^verbatim>\<open>bytes.Compare\<close> and of \<^verbatim>\<open><\<close> on
    strings.
  \<^item> Machine integers keep their width (\<^verbatim>\<open>u64\<close>); an \<^verbatim>\<open>int64\<close> is the same 64 bits,
    read by \<^verbatim>\<open>sint\<close>.
  \<^item> A function that returns an error is a function into \<^verbatim>\<open>goerr + 'a\<close>. A sentinel
    error, one that callers test with \<^verbatim>\<open>errors.Is\<close>, keeps its identity under
    wrapping; a run-time panic is a value too, so that a theorem can say a panic does
    not happen, or that it does.
\<close>

named_theorems go_defs \<open>definitions of the modelled code unfolded together\<close>
named_theorems codec_simps \<open>what a decoder answers on encoded input\<close>

section \<open>Types\<close>

type_synonym byte = "8 word"
type_synonym u32 = "32 word"
type_synonym u64 = "64 word"
type_synonym i64 = "64 word"

datatype sentinel =
    ErrMalformed \<comment> \<open>object: malformed encoding\<close>
  | ErrUnmaterialized
  | MhMalformed | MhUnknownCode
  | StoreNotFound | StoreCorrupt
  | RefConflict | RefNotExist | RefInvalidName
  | RuMalformed | RuUnknownCritical | RuBadSignature
  | AttUnsigned | AttBadSignature | AttUnknownScheme | AttStrengthKind
  | AttUnknownPrincipal | AttVetoed | AttNotApproved
  | TxnOutOfScope | TxnNotExist
  | SshMalformed | SshUnsupportedType | SshEncrypted

datatype goerr =
    Sentinel sentinel string
  | Plain string
  | Panic string

fun is_err :: "sentinel \<Rightarrow> goerr \<Rightarrow> bool" where
  "is_err s (Sentinel s' _) = (s = s')"
| "is_err s _ = False"

fun is_panic :: "goerr \<Rightarrow> bool" where
  "is_panic (Panic _) = True"
| "is_panic _ = False"

section \<open>Results\<close>

definition rbind :: "'e + 'a \<Rightarrow> ('a \<Rightarrow> 'e + 'b) \<Rightarrow> 'e + 'b" where
  "rbind m f = (case m of Inl e \<Rightarrow> Inl e | Inr x \<Rightarrow> f x)"

lemma rbind_simps [simp]:
  "rbind (Inl e) f = Inl e"
  "rbind (Inr x) f = f x"
  by (simp_all add: rbind_def)

lemma rbind_eq_Inr: "rbind m f = Inr y \<longleftrightarrow> (\<exists>x. m = Inr x \<and> f x = Inr y)"
  by (cases m) auto

lemma rbind_eq_Inl: "rbind m f = Inl e \<longleftrightarrow> m = Inl e \<or> (\<exists>x. m = Inr x \<and> f x = Inl e)"
  by (cases m) auto

lemma rbind_cong [fundef_cong]:
  "m = m' \<Longrightarrow> (\<And>x. m' = Inr x \<Longrightarrow> f x = f' x) \<Longrightarrow> rbind m f = rbind m' f'"
  by (cases m') auto

lemma rbind_assoc: "rbind (rbind m f) g = rbind m (\<lambda>x. rbind (f x) g)"
  by (cases m) simp_all

lemmas result_iffs = rbind_eq_Inr rbind_eq_Inl

text \<open>A guard that returns early.\<close>

lemma guard_eq_Inr [simp]:
  "(if P then Inl e else m) = Inr x \<longleftrightarrow> \<not> P \<and> m = Inr x"
  "(if P then m else Inl e) = Inr x \<longleftrightarrow> P \<and> m = Inr x"
  by simp_all

text \<open>Replacing the error of a failed call, as \<^verbatim>\<open>if err != nil { return ErrX }\<close> does.\<close>

definition map_err :: "('e \<Rightarrow> 'f) \<Rightarrow> 'e + 'a \<Rightarrow> 'f + 'a" where
  "map_err g m = (case m of Inl e \<Rightarrow> Inl (g e) | Inr x \<Rightarrow> Inr x)"

lemma map_err_simps [simp]:
  "map_err g (Inl e) = Inl (g e)"
  "map_err g (Inr x) = Inr x"
  by (simp_all add: map_err_def)

lemma map_err_eq_Inr [simp]: "map_err g m = Inr x \<longleftrightarrow> m = Inr x"
  by (cases m) auto

section \<open>Allocation\<close>

text \<open>
  \<^verbatim>\<open>make([]T, 0, n)\<close> panics when \<^verbatim>\<open>n\<close> elements exceed the address space the run time
  hands out (\<^verbatim>\<open>maxAlloc\<close>, 2 to the 48 bytes on amd64). A request below that bound which
  the machine cannot satisfy aborts the process and is outside the model.
\<close>

definition max_alloc :: nat where
  "max_alloc = 2 ^ 48"

definition make_cap :: "nat \<Rightarrow> u64 \<Rightarrow> goerr + unit" where
  "make_cap elem n =
     (if unat n * elem \<le> max_alloc then Inr () else Inl (Panic ''makeslice: cap out of range''))"

lemma make_cap_ok [simp]: "make_cap elem n = Inr u \<longleftrightarrow> unat n * elem \<le> max_alloc"
  by (simp add: make_cap_def)

section \<open>Strings and bytes\<close>

definition byte_of :: "char \<Rightarrow> byte" where
  "byte_of c = word_of_nat (of_char c)"

definition char_of_byte :: "byte \<Rightarrow> char" where
  "char_of_byte b = char_of (unat b)"

definition bytes_of :: "string \<Rightarrow> byte list" where
  "bytes_of s = map byte_of s"

definition string_of :: "byte list \<Rightarrow> string" where
  "string_of b = map char_of_byte b"

lemma char_byte_inverse [simp]: "char_of_byte (byte_of c) = c"
proof -
  have "(of_char c :: nat) < 256" using nat_of_char_less_256 by simp
  then have "unat (byte_of c) = of_char c"
    by (simp add: byte_of_def unat_of_nat)
  then show ?thesis by (simp add: char_of_byte_def)
qed

lemma byte_char_inverse [simp]: "byte_of (char_of_byte b) = b"
proof -
  have "unat b < 256" using unsigned_less [of b] by simp
  then have "(of_char (char_of_byte b) :: nat) = unat b"
    by (simp add: char_of_byte_def)
  then show ?thesis by (simp add: byte_of_def)
qed

lemma string_of_bytes_of [simp]: "string_of (bytes_of s) = s"
  by (simp add: string_of_def bytes_of_def comp_def)

lemma bytes_of_string_of [simp]: "bytes_of (string_of b) = b"
  by (simp add: string_of_def bytes_of_def comp_def)

lemma length_bytes_of [simp]: "length (bytes_of s) = length s"
  by (simp add: bytes_of_def)

lemma length_string_of [simp]: "length (string_of b) = length b"
  by (simp add: string_of_def)

lemma bytes_of_append [simp]: "bytes_of (s @ t) = bytes_of s @ bytes_of t"
  by (simp add: bytes_of_def)

lemma bytes_of_eq_iff [simp]: "bytes_of s = bytes_of t \<longleftrightarrow> s = t"
  by (metis string_of_bytes_of)

lemma bytes_of_Nil [simp]: "bytes_of s = [] \<longleftrightarrow> s = []" "bytes_of [] = []"
  by (simp_all add: bytes_of_def)

lemma string_of_Nil [simp]: "string_of b = [] \<longleftrightarrow> b = []" "string_of [] = []"
  by (simp_all add: string_of_def)

text \<open>\<^verbatim>\<open>append([]byte(nil), v...)\<close> is nil when \<^verbatim>\<open>v\<close> is empty.\<close>

definition nil_if_empty :: "'a list \<Rightarrow> 'a list option" where
  "nil_if_empty v = (if v = [] then None else Some v)"

definition bytes_or_nil :: "'a list option \<Rightarrow> 'a list" where
  "bytes_or_nil m = (case m of None \<Rightarrow> [] | Some v \<Rightarrow> v)"

lemma nil_if_empty_simps [simp]:
  "nil_if_empty [] = None"
  "v \<noteq> [] \<Longrightarrow> nil_if_empty v = Some v"
  "nil_if_empty v = None \<longleftrightarrow> v = []"
  "nil_if_empty v = Some w \<longleftrightarrow> v = w \<and> v \<noteq> []"
  by (auto simp: nil_if_empty_def)

lemma bytes_or_nil_simps [simp]:
  "bytes_or_nil None = []"
  "bytes_or_nil (Some v) = v"
  by (simp_all add: bytes_or_nil_def)

lemma nil_if_empty_bytes_or_nil [simp]:
  "m \<noteq> Some [] \<Longrightarrow> nil_if_empty (bytes_or_nil m) = m"
  by (cases m) auto

subsection \<open>Package strings\<close>

definition has_prefix :: "string \<Rightarrow> string \<Rightarrow> bool" where
  "has_prefix s p = (take (length p) s = p)"

definition has_suffix :: "string \<Rightarrow> string \<Rightarrow> bool" where
  "has_suffix s p = (length p \<le> length s \<and> drop (length s - length p) s = p)"

lemma has_prefix_append [simp]: "has_prefix (p @ s) p"
  by (simp add: has_prefix_def)

lemma has_prefix_iff: "has_prefix s p \<longleftrightarrow> (\<exists>t. s = p @ t)"
  by (metis append_eq_conv_conj append_take_drop_id has_prefix_def)

lemma has_suffix_iff: "has_suffix s p \<longleftrightarrow> (\<exists>t. s = t @ p)"
proof
  assume "has_suffix s p"
  then show "\<exists>t. s = t @ p"
    unfolding has_suffix_def by (metis append_take_drop_id)
next
  assume "\<exists>t. s = t @ p"
  then show "has_suffix s p" by (auto simp: has_suffix_def)
qed

text \<open>\<^verbatim>\<open>strings.Split(s, string(c))\<close> for a one-byte separator: never empty.\<close>

fun split_on :: "char \<Rightarrow> string \<Rightarrow> string list" where
  "split_on c [] = [[]]"
| "split_on c (x # xs) =
     (if x = c then [] # split_on c xs
      else (case split_on c xs of [] \<Rightarrow> [[x]] | w # ws \<Rightarrow> (x # w) # ws))"

fun join_with :: "string \<Rightarrow> string list \<Rightarrow> string" where
  "join_with sep [] = []"
| "join_with sep [w] = w"
| "join_with sep (w # ws) = w @ sep @ join_with sep ws"

lemma split_on_ne [simp]: "split_on c s \<noteq> []"
  by (cases s) (auto split: list.splits)

lemma join_split [simp]: "join_with [c] (split_on c s) = s"
proof (induction s)
  case Nil
  then show ?case by simp
next
  case (Cons x xs)
  obtain w ws where ws: "split_on c xs = w # ws"
    by (meson neq_Nil_conv split_on_ne)
  with Cons.IH show ?case by (cases ws) auto
qed

lemma split_on_no_sep: "w \<in> set (split_on c s) \<Longrightarrow> c \<notin> set w"
proof (induction s arbitrary: w)
  case Nil
  then show ?case by simp
next
  case (Cons x xs)
  obtain v vs where vs: "split_on c xs = v # vs"
    by (meson neq_Nil_conv split_on_ne)
  show ?case
  proof (cases "x = c")
    case True
    with Cons show ?thesis by auto
  next
    case False
    from Cons.IH vs have "c \<notin> set v" and "\<And>u. u \<in> set vs \<Longrightarrow> c \<notin> set u" by auto
    with Cons.prems vs False show ?thesis by auto
  qed
qed

lemma split_on_single: "c \<notin> set w \<Longrightarrow> split_on c w = [w]"
  by (induction w) auto

lemma split_on_append_sep: "c \<notin> set w \<Longrightarrow> split_on c (w @ c # s) = w # split_on c s"
  by (induction w) auto

lemma split_join:
  "ws \<noteq> [] \<Longrightarrow> \<forall>w \<in> set ws. c \<notin> set w \<Longrightarrow> split_on c (join_with [c] ws) = ws"
  by (induction "[c]" ws rule: join_with.induct) (auto simp: split_on_single split_on_append_sep)

text \<open>\<^verbatim>\<open>strings.TrimSpace\<close>, \<^verbatim>\<open>strings.Fields\<close> and \<^verbatim>\<open>strings.Trim(s, "/")\<close>, on ASCII white space.\<close>

definition is_space :: "char \<Rightarrow> bool" where
  "is_space c = (c \<in> {CHR 0x09, CHR 0x0A, CHR 0x0B, CHR 0x0C, CHR 0x0D, CHR '' ''})"

definition trim_by :: "(char \<Rightarrow> bool) \<Rightarrow> string \<Rightarrow> string" where
  "trim_by P s = rev (dropWhile P (rev (dropWhile P s)))"

definition trim_space :: "string \<Rightarrow> string" where
  "trim_space = trim_by is_space"

definition trim_slash :: "string \<Rightarrow> string" where
  "trim_slash = trim_by (\<lambda>c. c = CHR ''/'')"

fun fields_of :: "string \<Rightarrow> string list" where
  "fields_of [] = []"
| "fields_of (x # xs) =
     (if is_space x then fields_of xs
      else (case xs of
              [] \<Rightarrow> [[x]]
            | y # _ \<Rightarrow> if is_space y then [x] # fields_of xs
                     else (case fields_of xs of [] \<Rightarrow> [[x]] | w # ws \<Rightarrow> (x # w) # ws)))"

text \<open>Words separated by single spaces.\<close>

definition word_ok :: "string \<Rightarrow> bool" where
  "word_ok w \<longleftrightarrow> w \<noteq> [] \<and> (\<forall>c \<in> set w. \<not> is_space c)"

lemma fields_word:
  "word_ok w \<Longrightarrow> fields_of w = [w]"
  "word_ok w \<Longrightarrow> fields_of (w @ CHR '' '' # s) = w # fields_of s"
proof (induction w)
  case (Cons x w)
  { case 1 show ?case using 1 Cons by (cases w) (auto simp: word_ok_def) }
  { case 2 show ?case using 2 Cons by (cases w) (auto simp: word_ok_def is_space_def) }
qed (simp_all add: word_ok_def)

lemma fields_join: "list_all word_ok ws \<Longrightarrow> fields_of (join_with '' '' ws) = ws"
  by (induction "'' ''" ws rule: join_with.induct) (simp_all add: fields_word)

lemma join_ends:
  "ws \<noteq> [] \<Longrightarrow> list_all word_ok ws \<Longrightarrow>
     join_with '' '' ws \<noteq> [] \<and> hd (join_with '' '' ws) = hd (hd ws) \<and>
     \<not> is_space (hd (join_with '' '' ws)) \<and> \<not> is_space (last (join_with '' '' ws))"
  by (induction "'' ''" ws rule: join_with.induct) (auto simp: word_ok_def)

lemma trim_by_id: "s \<noteq> [] \<Longrightarrow> \<not> P (hd s) \<Longrightarrow> \<not> P (last s) \<Longrightarrow> trim_by P s = s"
proof -
  assume s: "s \<noteq> []" "\<not> P (hd s)" "\<not> P (last s)"
  then have "dropWhile P s = s" by (cases s) simp_all
  moreover have "dropWhile P (rev s) = rev s" using s by (cases s rule: rev_cases) simp_all
  ultimately show ?thesis by (simp add: trim_by_def)
qed

lemma trim_space_words: "list_all word_ok ws \<Longrightarrow> trim_space (join_with '' '' ws) = join_with '' '' ws"
proof (cases "ws = []")
  case False
  assume "list_all word_ok ws"
  from join_ends [OF False this] show ?thesis
    unfolding trim_space_def by (elim conjE) (rule trim_by_id)
qed (simp add: trim_space_def trim_by_def)

definition replace_char :: "char \<Rightarrow> char \<Rightarrow> string \<Rightarrow> string" where
  "replace_char a b s = map (\<lambda>c. if c = a then b else c) s"

section \<open>Lists\<close>

lemma sorted_wrt_less_trans: "sorted_wrt (<) (x # xs :: 'a::order list) \<Longrightarrow> y \<in> set xs \<Longrightarrow> x < y"
  by auto

lemma strict_sorted_unique:
  fixes xs ys :: "'a::linorder list"
  assumes "sorted_wrt (<) xs" "sorted_wrt (<) ys" "set xs = set ys"
  shows "xs = ys"
  using assms by (simp add: strict_sorted_equal)

end
