(* ===== verification/Varint.thy ===== *)
theory Varint
  imports Prelude
begin

unbundle bit_operations_syntax

text \<open>
  The base-128 varint and the cursor of \<^verbatim>\<open>internal/object/object.go\<close> (the same code is
  repeated in \<^verbatim>\<open>multihash\<close>, \<^verbatim>\<open>refupdate\<close>, \<^verbatim>\<open>provenance\<close> and \<^verbatim>\<open>wire\<close>), and the interface all
  its record formats share: a count-prefixed run of items, each read by a loop body that
  sees the item before it. A cursor is modelled by what it has not read yet,
  \<^verbatim>\<open>c.b[c.i:]\<close>, the only part of it any operation looks at.
\<close>

section \<open>Varints\<close>

function appendUvarint :: "byte list \<Rightarrow> u64 \<Rightarrow> byte list" where
  "appendUvarint b v =
     (if v \<ge> 0x80 then appendUvarint (b @ [ucast v OR 0x80]) (drop_bit 7 v)
      else b @ [ucast v])"
  by pat_completeness auto
termination
proof (relation "measure (\<lambda>(b, v). unat v)")
  fix b :: "byte list" and v :: u64
  assume "v \<ge> 0x80"
  then have "128 \<le> unat v" by (simp add: word_le_nat_alt)
  then have "unat (drop_bit 7 v) < unat v"
    by (simp add: drop_bit_eq_div unat_div)
  then show "((b @ [ucast v OR 0x80], drop_bit 7 v), b, v) \<in> measure (\<lambda>(b, v). unat v)"
    by (simp only: in_measure prod.case)
qed simp

declare appendUvarint.simps [simp del]

fun readUvarint_from :: "nat \<Rightarrow> u64 \<Rightarrow> nat \<Rightarrow> byte list \<Rightarrow> goerr + (u64 \<times> nat)" where
  "readUvarint_from i x s [] = Inl (Sentinel ErrMalformed ''truncated varint'')"
| "readUvarint_from i x s (ch # b) =
     (if i = 10 then Inl (Sentinel ErrMalformed ''varint overflow'')
      else if ch < 0x80 then
        (if i = 9 \<and> ch > 1 then Inl (Sentinel ErrMalformed ''varint overflow'')
         else if ch = 0 \<and> i \<noteq> 0 then Inl (Sentinel ErrMalformed ''non-minimal varint'')
         else Inr (x OR push_bit s (ucast ch), Suc i))
      else readUvarint_from (Suc i) (x OR push_bit s (ucast (ch AND 0x7f))) (s + 7) b)"

definition readUvarint :: "byte list \<Rightarrow> goerr + (u64 \<times> nat)" where
  "readUvarint b = readUvarint_from 0 0 0 b"

subsection \<open>Reading back what was appended\<close>

lemma appendUvarint_small: "v < 0x80 \<Longrightarrow> appendUvarint b v = b @ [ucast v]"
  by (subst appendUvarint.simps) (simp add: not_le [symmetric])

lemma appendUvarint_large:
  "v \<ge> 0x80 \<Longrightarrow> appendUvarint b v = appendUvarint (b @ [ucast v OR 0x80]) (drop_bit 7 v)"
  by (subst appendUvarint.simps) simp

lemma appendUvarint_acc: "appendUvarint (a @ b) v = a @ appendUvarint b v"
proof (induction b v rule: appendUvarint.induct)
  case (1 b v)
  show ?case
  proof (cases "v \<ge> 0x80")
    case True
    with "1.IH" show ?thesis by (simp add: appendUvarint_large)
  next
    case False
    then show ?thesis by (simp add: appendUvarint_small)
  qed
qed

lemma appendUvarint_append: "appendUvarint b v = b @ appendUvarint [] v"
  using appendUvarint_acc [of b "[]" v] by simp

lemma appendUvarint_Cons:
  "v \<ge> 0x80 \<Longrightarrow> appendUvarint [] v = (ucast v OR 0x80) # appendUvarint [] (drop_bit 7 v)"
  using appendUvarint_acc [of "[ucast v OR 0x80]" "[]" "drop_bit 7 v"]
  by (simp only: appendUvarint_large) simp

lemma appendUvarint_ne [simp]: "appendUvarint [] v \<noteq> []"
  by (cases "v \<ge> 0x80") (simp_all only: appendUvarint_Cons appendUvarint_small not_le, simp_all)

lemma high_bit_iff: "bit (ch :: byte) 7 \<longleftrightarrow> 0x80 \<le> ch"
proof -
  have b: "unat ch < 256" using unsigned_less [of ch] by simp
  have "bit ch 7 \<longleftrightarrow> odd (unat ch div 128)"
    using bit_unsigned_iff [of ch 7, where 'a = nat] by (simp add: bit_iff_odd)
  also have "\<dots> \<longleftrightarrow> 128 \<le> unat ch"
  proof (cases "128 \<le> unat ch")
    case True
    with b have "unat ch div 128 = 1" by (intro div_nat_eqI) auto
    with True show ?thesis by simp
  qed simp
  finally show ?thesis by (simp add: word_le_nat_alt)
qed

lemma low_byte_small:
  assumes "(v :: u64) < 0x80"
  shows "(ucast v :: byte) < 0x80" and "ucast (ucast v :: byte) = v"
proof -
  have v: "unat v < 128" using assms by (simp add: word_less_nat_alt)
  have u: "unat (ucast v :: byte) = unat v"
    using v by (simp add: unsigned_ucast_eq take_bit_eq_mod)
  then show "(ucast v :: byte) < 0x80" using v by (simp add: word_less_nat_alt)
  have "unat (ucast (ucast v :: byte) :: u64) = unat v"
    using v by (simp add: unsigned_ucast_eq take_bit_eq_mod unat_mod)
  then show "ucast (ucast v :: byte) = v" by (simp only: word_unat_eq_iff)
qed

lemma cont_byte_high: "\<not> ((ucast (v :: u64) OR 0x80 :: byte) < 0x80)"
proof -
  have "bit (ucast v OR 0x80 :: byte) 7" by (simp add: bit_simps bit_numeral_rec)
  then show ?thesis by (simp only: high_bit_iff not_less)
qed

lemma bit_127_int: "bit (127 :: int) k \<longleftrightarrow> k < 7"
  using bit_mask_iff [of 7 k, where 'a = int] by (simp add: mask_eq_exp_minus_1)

lemma bit_128_int: "bit (128 :: int) k \<longleftrightarrow> k = 7"
  using bit_exp_iff [of 7 k, where 'a = int] by auto

lemmas varint_bits = bit_simps bit_127_int bit_128_int

lemma cont_byte_low: "(ucast (v :: u64) OR 0x80 :: byte) AND 0x7f = ucast v AND 0x7f"
  by (rule bit_eqI) (auto simp: varint_bits)

lemma assemble:
  "(x OR push_bit s (ucast (ucast (v :: u64) AND 0x7f :: byte))) OR push_bit (s + 7) (drop_bit 7 v)
     = x OR push_bit s v"
proof (rule bit_eqI)
  fix n
  have "n - s < 7 \<or> 7 + (n - (s + 7)) = n - s" by arith
  then show "bit ((x OR push_bit s (ucast (ucast v AND 0x7f :: byte)))
      OR push_bit (s + 7) (drop_bit 7 v)) n = bit (x OR push_bit s v) n"
    by (auto simp: varint_bits)
qed

lemma drop7_less: "(v :: u64) \<ge> 0x80 \<Longrightarrow> unat (drop_bit 7 v) < unat v"
  by (simp add: drop_bit_eq_div unat_div word_le_nat_alt)

lemma unat_drop7: "unat (drop_bit 7 (v :: u64)) = unat v div 128"
  by (simp add: drop_bit_eq_div unat_div)

lemma length_appendUvarint_pow:
  "unat v < 2 ^ (7 * k) \<Longrightarrow> 0 < k \<Longrightarrow> length (appendUvarint [] v) \<le> k"
proof (induction k arbitrary: v)
  case 0
  then show ?case by simp
next
  case (Suc k)
  show ?case
  proof (cases "v \<ge> 0x80")
    case True
    then have v: "128 \<le> unat v" by (simp add: word_le_nat_alt)
    have k: "0 < k" using Suc.prems v by (cases k) simp_all
    have "(2::nat) ^ (7 * Suc k) = 2 ^ (7 * k) * 128" by (simp add: power_add)
    then have "unat (drop_bit 7 v) < 2 ^ (7 * k)"
      using Suc.prems by (simp add: unat_drop7 flip: div_less_iff_less_mult)
    with Suc.IH k True show ?thesis by (simp add: appendUvarint_Cons)
  qed (simp add: appendUvarint_small)
qed

lemma length_appendUvarint: "length (appendUvarint [] v) \<le> 10"
proof (rule length_appendUvarint_pow)
  have "unat v < 2 ^ 64" using unsigned_less [of v] by simp
  also have "(2::nat) ^ 64 < 2 ^ (7 * 10)" by simp
  finally show "unat v < 2 ^ (7 * 10)" .
qed simp

lemma readUvarint_from_append:
  "unat v < 2 ^ (64 - 7 * i) \<Longrightarrow> i \<le> 9 \<Longrightarrow> v \<noteq> 0 \<or> i = 0 \<Longrightarrow>
   readUvarint_from i x (7 * i) (appendUvarint [] v @ r)
     = Inr (x OR push_bit (7 * i) v, i + length (appendUvarint [] v))"
proof (induction "unat v" arbitrary: v i x rule: less_induct)
  case (less v)
  show ?case
  proof (cases "v \<ge> 0x80")
    case False
    then have v: "v < 0x80" by simp
    have "\<not> (i = 9 \<and> (ucast v :: byte) > 1)"
    proof
      assume a: "i = 9 \<and> (ucast v :: byte) > 1"
      then have "unat v < 2" using less.prems(1) by simp
      then have "unat (ucast v :: byte) < 2" by (simp add: unsigned_ucast_eq take_bit_eq_mod)
      with a show False by (simp add: word_less_nat_alt)
    qed
    moreover have "\<not> ((ucast v :: byte) = 0 \<and> i \<noteq> 0)"
      using less.prems(3) low_byte_small(2) [OF v] by auto
    ultimately show ?thesis
      using v low_byte_small [OF v] less.prems(2) by (auto simp: appendUvarint_small)
  next
    case True
    let ?w = "drop_bit 7 v"
    have v: "128 \<le> unat v" using True by (simp add: word_le_nat_alt)
    have i: "i \<le> 8"
    proof (rule ccontr)
      assume "\<not> i \<le> 8"
      with less.prems(2) have "i = 9" by simp
      with less.prems(1) v show False by simp
    qed
    have p: "(2::nat) ^ (64 - 7 * i) = 128 * 2 ^ (64 - 7 * Suc i)"
    proof -
      have "64 - 7 * i = 7 + (64 - 7 * Suc i)" using i by simp
      then show ?thesis by (simp only: power_add) simp
    qed
    have "unat ?w < 2 ^ (64 - 7 * Suc i)"
      using less.prems(1) unfolding p by (simp only: unat_drop7)
    moreover have "?w \<noteq> 0" using v unat_drop7 [of v] by (auto simp: unat_eq_zero)
    ultimately have "readUvarint_from (Suc i) y (7 * Suc i) (appendUvarint [] ?w @ r)
        = Inr (y OR push_bit (7 * Suc i) ?w, Suc i + length (appendUvarint [] ?w))" for y
      using less.hyps [of ?w "Suc i"] drop7_less [OF True] i by simp
    then show ?thesis
      using True i cont_byte_high [of v] assemble [of x "7 * i" v]
      by (simp add: appendUvarint_Cons cont_byte_low add.commute)
  qed
qed

lemma readUvarint_append: "readUvarint (appendUvarint [] v @ r) = Inr (v, length (appendUvarint [] v))"
  using readUvarint_from_append [of v 0 0 r] unsigned_less [of v]
  by (simp add: readUvarint_def)

subsection \<open>Only the canonical bytes are read\<close>

lemma join7:
  fixes v :: u64 and ch :: byte
  assumes v: "unat v < 2 ^ (57 - 7 * i)" "v \<noteq> 0" and i: "i \<le> 8" and ch: "0x80 \<le> ch"
  defines "w \<equiv> ucast (ch AND 0x7f) OR push_bit 7 v"
  shows "drop_bit 7 w = v" and "ucast w OR 0x80 = ch" and "0x80 \<le> w"
    and "unat w < 2 ^ (64 - 7 * i)"
proof -
  have "(2::nat) ^ (57 - 7 * i) \<le> 2 ^ 57" by (rule power_increasing) simp_all
  then have "unat v < 2 ^ 57" using v(1) by (rule less_le_trans [rotated])
  then have hi: "\<not> bit v n" if "57 \<le> n" for n
    using that
    by (metis bit_take_bit_iff bit_unsigned_iff not_le take_bit_nat_eq_self possible_bit_nat)
  show d: "drop_bit 7 w = v"
  proof (rule bit_eqI)
    fix n assume "possible_bit TYPE(u64) n"
    then have "n < 64" by (simp add: possible_bit_word)
    then show "bit (drop_bit 7 w) n = bit v n"
      using hi [of n] by (cases "57 \<le> n") (auto simp: w_def varint_bits)
  qed
  have "bit ch 7" using ch by (simp add: high_bit_iff)
  then show "ucast w OR 0x80 = ch"
  proof (intro bit_eqI)
    fix n assume "bit ch 7" and "possible_bit TYPE(byte) n"
    then have "n = 7 \<or> n < 7" by (auto simp: possible_bit_word)
    then show "bit (ucast w OR 0x80 :: byte) n = bit ch n"
      using \<open>bit ch 7\<close> by (auto simp: w_def varint_bits)
  qed
  have m: "unat w div 128 = unat v" using d unat_drop7 [of w] by simp
  have "0 < unat v" using v(2) by (simp add: unat_gt_0)
  with m show "0x80 \<le> w" by (simp add: word_le_nat_alt div_greater_zero_iff)
  have "(2::nat) ^ (64 - 7 * i) = 2 ^ (57 - 7 * i) * 128"
  proof -
    have "64 - 7 * i = (57 - 7 * i) + 7" using i by simp
    then show ?thesis by (simp only: power_add) simp
  qed
  moreover have "unat w < 2 ^ (57 - 7 * i) * 128"
    using m v(1) by (simp add: dividend_less_times_div flip: div_less_iff_less_mult)
  ultimately show "unat w < 2 ^ (64 - 7 * i)" by simp
qed

lemma readUvarint_from_canonical:
  "readUvarint_from i x (7 * i) b = Inr (y, n) \<Longrightarrow> i \<le> 10 \<Longrightarrow>
   \<exists>v r. y = x OR push_bit (7 * i) v \<and> b = appendUvarint [] v @ r \<and>
       n = i + length (appendUvarint [] v) \<and>
       unat v < 2 ^ (64 - 7 * i) \<and> (v \<noteq> 0 \<or> i = 0) \<and> i \<le> 9"
proof (induction b arbitrary: i x)
  case Nil
  then show ?case by simp
next
  case (Cons ch b)
  have i: "i \<le> 9" using Cons.prems by (cases "i = 10") auto
  show ?case
  proof (cases "ch < 0x80")
    case small: True
    let ?v = "ucast ch :: u64"
    have u: "unat ?v = unat ch" "unat ch < 128"
      using small unsigned_less [of ch]
      by (simp_all add: unsigned_ucast_eq take_bit_eq_mod word_less_nat_alt)
    then have v: "?v < 0x80" by (simp add: word_less_nat_alt)
    have c: "(ucast ?v :: byte) = ch" by (rule bit_eqI) (simp add: bit_simps)
    have lt: "unat ?v < 2 ^ (64 - 7 * i)"
    proof (cases "i = 9")
      case True
      then have "\<not> ch > 1" using Cons.prems small by auto
      then have "unat ch \<le> 1" by (simp add: word_less_nat_alt not_less)
      with True u show ?thesis by simp
    next
      case False
      then have "64 - 7 * i \<ge> 7" using i by simp
      then have "(2::nat) ^ 7 \<le> 2 ^ (64 - 7 * i)" by (rule power_increasing) simp
      with u show ?thesis by simp
    qed
    have z: "?v \<noteq> 0 \<or> i = 0" using Cons.prems small u by (auto simp: unat_eq_zero split: if_splits)
    have "y = x OR push_bit (7 * i) ?v" "n = Suc i"
      using Cons.prems small i by (auto split: if_splits)
    then show ?thesis
      using lt z i c v by (intro exI [of _ ?v] exI [of _ b]) (simp add: appendUvarint_small)
  next
    case False
    then have ch: "0x80 \<le> ch" by simp
    have "readUvarint_from (Suc i) (x OR push_bit (7 * i) (ucast (ch AND 0x7f))) (7 * Suc i) b = Inr (y, n)"
      using Cons.prems False i by (simp add: add.commute)
    from Cons.IH [OF this] i obtain v r where
      y: "y = (x OR push_bit (7 * i) (ucast (ch AND 0x7f))) OR push_bit (7 * Suc i) v" and
      b: "b = appendUvarint [] v @ r" and n: "n = Suc i + length (appendUvarint [] v)" and
      lt: "unat v < 2 ^ (64 - 7 * Suc i)" and nz: "v \<noteq> 0" and i8: "Suc i \<le> 9"
      by auto
    let ?w = "ucast (ch AND 0x7f) OR push_bit 7 v"
    have lt': "unat v < 2 ^ (57 - 7 * i)" using lt by simp
    have i8': "i \<le> 8" using i8 by simp
    note j = join7 [OF lt' nz i8' ch]
    have "appendUvarint [] ?w = ch # appendUvarint [] v"
      using appendUvarint_Cons [OF j(3)] j(1,2) by simp
    moreover have "y = x OR push_bit (7 * i) ?w"
      by (simp add: y or.assoc push_bit_or add.commute)
    moreover have "?w \<noteq> 0" using j(3) by auto
    ultimately show ?thesis
      using b n j(4) i by (intro exI [of _ ?w] exI [of _ r]) simp
  qed
qed

lemma readUvarint_canonical:
  assumes "readUvarint b = Inr (v, n)"
  shows "b = appendUvarint [] v @ drop n b" and "n = length (appendUvarint [] v)"
proof -
  obtain r where "b = appendUvarint [] v @ r" "n = length (appendUvarint [] v)"
    using readUvarint_from_canonical [of 0 0 b v n] assms by (auto simp: readUvarint_def)
  then show "b = appendUvarint [] v @ drop n b" "n = length (appendUvarint [] v)" by auto
qed

section \<open>The cursor\<close>

type_synonym cursor = "byte list"

definition c_uvarint :: "cursor \<Rightarrow> goerr + (u64 \<times> cursor)" where
  "c_uvarint c = rbind (readUvarint c) (\<lambda>(v, n). Inr (v, drop n c))"

definition c_take :: "u64 \<Rightarrow> cursor \<Rightarrow> goerr + (byte list \<times> cursor)" where
  "c_take n c =
     (if unat n > length c then Inl (Sentinel ErrMalformed ''truncated'')
      else Inr (take (unat n) c, drop (unat n) c))"

definition c_empty :: "cursor \<Rightarrow> bool" where
  "c_empty c = (c = [])"

text \<open>A length prefix and the bytes it announces, read by \<^verbatim>\<open>c.uvarint\<close> and then \<^verbatim>\<open>c.take\<close>.\<close>

definition c_bytes :: "cursor \<Rightarrow> goerr + (byte list \<times> cursor)" where
  "c_bytes c = rbind (c_uvarint c) (\<lambda>(n, c). c_take n c)"

definition len64 :: "'a list \<Rightarrow> u64" where
  "len64 xs = word_of_nat (length xs)"

definition fits64 :: "'a list \<Rightarrow> bool" where
  "fits64 xs = (length xs < 2 ^ 64)"

definition put_bytes :: "byte list \<Rightarrow> byte list \<Rightarrow> byte list" where
  "put_bytes b v = appendUvarint b (len64 v) @ v"

lemma unat_len64 [simp]: "fits64 xs \<Longrightarrow> unat (len64 xs) = length xs"
  by (simp add: len64_def fits64_def unat_of_nat)

lemma len64_unique: "length xs = unat n \<Longrightarrow> len64 xs = n \<and> fits64 xs"
  using unsigned_less [of n] by (simp add: len64_def fits64_def)

lemma fits64_simps [simp]: "fits64 []"
  by (simp add: fits64_def)

lemma fits64_map [simp]: "fits64 (map f xs) = fits64 xs" "fits64 (bytes_of s) = fits64 s"
    "fits64 (string_of b) = fits64 b"
  by (simp_all add: fits64_def)

lemma len64_map [simp]: "len64 (map f xs) = len64 xs" "len64 (bytes_of s) = len64 s"
    "len64 (string_of b) = len64 b"
  by (simp_all add: len64_def)

lemma fits64_appendUvarint [simp]: "fits64 (appendUvarint [] v)"
  using length_appendUvarint [of v] by (simp add: fits64_def)

lemma c_uvarint_iff: "c_uvarint c = Inr (v, r) \<longleftrightarrow> c = appendUvarint [] v @ r"
proof
  assume "c_uvarint c = Inr (v, r)"
  then obtain n where "readUvarint c = Inr (v, n)" "r = drop n c"
    by (auto simp: c_uvarint_def result_iffs)
  then show "c = appendUvarint [] v @ r" using readUvarint_canonical by blast
next
  assume "c = appendUvarint [] v @ r"
  then show "c_uvarint c = Inr (v, r)" by (simp add: c_uvarint_def readUvarint_append)
qed

lemma c_take_iff: "c_take n c = Inr (v, r) \<longleftrightarrow> c = v @ r \<and> length v = unat n"
  by (auto simp: c_take_def)

lemma c_bytes_iff: "c_bytes c = Inr (v, r) \<longleftrightarrow> c = put_bytes [] v @ r \<and> fits64 v"
proof -
  have "(\<exists>n. c = appendUvarint [] n @ v @ r \<and> length v = unat n)
      \<longleftrightarrow> c = appendUvarint [] (len64 v) @ v @ r \<and> fits64 v"
    by (auto dest: len64_unique)
  moreover have "c_bytes c = Inr (v, r)
      \<longleftrightarrow> (\<exists>n. c = appendUvarint [] n @ v @ r \<and> length v = unat n)"
    by (auto simp: c_bytes_def result_iffs c_uvarint_iff c_take_iff)
  ultimately show ?thesis by (simp add: put_bytes_def)
qed

lemma c_uvarint_append [simp, codec_simps]: "c_uvarint (appendUvarint [] v @ r) = Inr (v, r)"
  by (simp add: c_uvarint_iff)

lemma c_uvarint_whole [simp, codec_simps]: "c_uvarint (appendUvarint [] v) = Inr (v, [])"
  using c_uvarint_append [of v "[]"] by simp

text \<open>Varints are prefix-free.\<close>

lemma appendUvarint_prefix_free [simp]:
  "appendUvarint [] v @ r = appendUvarint [] w @ r' \<longleftrightarrow> v = w \<and> r = r'"
  using c_uvarint_iff [of "appendUvarint [] v @ r" v r]
    c_uvarint_iff [of "appendUvarint [] v @ r" w r'] by auto

lemma c_bytes_append [simp, codec_simps]: "fits64 v \<Longrightarrow> c_bytes (put_bytes [] v @ r) = Inr (v, r)"
  by (simp add: c_bytes_iff)

lemma put_bytes_append: "put_bytes b v = b @ put_bytes [] v"
  unfolding put_bytes_def using appendUvarint_append [of b "len64 v"] by simp

lemmas cursor_iffs = c_uvarint_iff c_take_iff c_bytes_iff c_empty_def

lemma c_bytes_fold:
  "rbind (c_uvarint c) (\<lambda>(n, c). rbind (c_take n c) f) = rbind (c_bytes c) f"
  by (simp add: c_bytes_def rbind_assoc split_def)

section \<open>Counted runs of items\<close>

text \<open>
  The loop \<^verbatim>\<open>for i := 0; i < n; i++ { ... prev = x }\<close>: the body reads one item and sees
  the previous one, which is absent when \<^verbatim>\<open>i\<close> is 0. The loop stops at the first error.
\<close>

fun read_items ::
  "('a option \<Rightarrow> cursor \<Rightarrow> goerr + ('a \<times> cursor)) \<Rightarrow> nat \<Rightarrow> 'a option \<Rightarrow> cursor
    \<Rightarrow> goerr + ('a list \<times> cursor)" where
  "read_items body 0 prev c = Inr ([], c)"
| "read_items body (Suc n) prev c =
     rbind (body prev c) (\<lambda>(x, c).
     rbind (read_items body n (Some x) c) (\<lambda>(xs, c).
     Inr (x # xs, c)))"

fun chained :: "('a option \<Rightarrow> 'a \<Rightarrow> bool) \<Rightarrow> 'a option \<Rightarrow> 'a list \<Rightarrow> bool" where
  "chained ok prev [] = True"
| "chained ok prev (x # xs) = (ok prev x \<and> chained ok (Some x) xs)"

text \<open>
  An item format: what one item looks like, the loop body that reads it, and which items
  may follow which. A writer law says the body reads back what was written; a format is
  canonical when nothing else is read as that item.
\<close>

locale item_format =
  fixes enc :: "'a \<Rightarrow> byte list"
    and body :: "'a option \<Rightarrow> cursor \<Rightarrow> goerr + ('a \<times> cursor)"
    and ok :: "'a option \<Rightarrow> 'a \<Rightarrow> bool"
  assumes body_enc: "ok prev x \<Longrightarrow> body prev (enc x @ r) = Inr (x, r)"
begin

lemma items_enc:
  "chained ok prev xs \<Longrightarrow>
   read_items body (length xs) prev (concat (map enc xs) @ r) = Inr (xs, r)"
  by (induction xs arbitrary: prev) (simp_all add: body_enc)

end

text \<open>A body that checks what it reads, so that a run holds only permitted items.\<close>

locale checked_format =
  fixes body :: "'a option \<Rightarrow> cursor \<Rightarrow> goerr + ('a \<times> cursor)"
    and ok :: "'a option \<Rightarrow> 'a \<Rightarrow> bool"
  assumes body_ok: "body prev c = Inr (x, r) \<Longrightarrow> ok prev x"
begin

lemma items_ok:
  "read_items body n prev c = Inr (xs, r) \<Longrightarrow> chained ok prev xs \<and> length xs = n"
proof (induction n arbitrary: prev c xs)
  case 0
  then show ?case by simp
next
  case (Suc n)
  then obtain x c' xs' where "body prev c = Inr (x, c')"
    and rest: "read_items body n (Some x) c' = Inr (xs', r)" and xs: "xs = x # xs'"
    by (auto simp: result_iffs)
  with Suc.IH [OF rest] show ?case by (simp add: body_ok)
qed

end

locale canonical_format = item_format +
  assumes enc_body: "body prev c = Inr (x, r) \<Longrightarrow> c = enc x @ r \<and> ok prev x"
begin

lemma items_canonical:
  "read_items body n prev c = Inr (xs, r) \<Longrightarrow>
   c = concat (map enc xs) @ r \<and> chained ok prev xs \<and> length xs = n"
proof (induction n arbitrary: prev c xs)
  case 0
  then show ?case by simp
next
  case (Suc n)
  then obtain x c' xs' where "body prev c = Inr (x, c')"
    and rest: "read_items body n (Some x) c' = Inr (xs', r)" and xs: "xs = x # xs'"
    by (auto simp: result_iffs)
  then have "c = enc x @ c'" "ok prev x" using enc_body by auto
  with Suc.IH [OF rest] xs show ?case by simp
qed

end

sublocale canonical_format \<subseteq> checked_format body ok
  by unfold_locales (simp add: enc_body)

text \<open>Chains of items that carry a strictly increasing key are strictly sorted lists.\<close>

definition key_after :: "('a \<Rightarrow> 'k::linorder) \<Rightarrow> 'a option \<Rightarrow> 'a \<Rightarrow> bool" where
  "key_after key prev x = (case prev of None \<Rightarrow> True | Some p \<Rightarrow> key p < key x)"

lemma key_after_simps [simp]:
  "key_after key None x"
  "key_after key (Some p) x \<longleftrightarrow> key p < key x"
  by (simp_all add: key_after_def)

lemma chained_sorted:
  "chained (\<lambda>prev x. key_after key prev x \<and> P x) prev xs \<longleftrightarrow>
     sorted_wrt (<) (map key xs) \<and> (\<forall>x \<in> set xs. P x) \<and>
     (case prev of None \<Rightarrow> True | Some p \<Rightarrow> \<forall>x \<in> set xs. key p < key x)"
  by (induction xs arbitrary: prev) (auto split: option.splits)

lemma chained_all: "chained (\<lambda>prev x. P x) prev xs \<longleftrightarrow> (\<forall>x \<in> set xs. P x)"
  by (induction xs arbitrary: prev) auto

end
