(* ===== verification/Multihash.thy ===== *)
theory Multihash
  imports Varint
begin

text \<open>
  Self-describing digests, \<^verbatim>\<open>internal/multihash/multihash.go\<close>: the framing of a multihash,
  its registry of algorithms, verification of data against an identity, and the hex text
  used for file and ref names. The digest functions themselves (SHA-256 of the standard
  library, BLAKE3 of a third-party module) are parameters; what is relied on is that both
  return 32 bytes, \<^verbatim>\<open>wf_hashes\<close>.
\<close>

type_synonym multihash = "byte list"
type_synonym code = u64

record hash_funs =
  sha256_sum :: "byte list \<Rightarrow> byte list"
  blake3_sum :: "byte list \<Rightarrow> byte list"

definition wf_hashes :: "hash_funs \<Rightarrow> bool" where
  "wf_hashes h \<longleftrightarrow> (\<forall>b. length (sha256_sum h b) = 32 \<and> length (blake3_sum h b) = 32)"

record algo =
  algo_name :: string
  algo_size :: nat
  algo_sum :: "byte list \<Rightarrow> byte list"

definition SHA2_256 :: code where "SHA2_256 = 0x12"
definition BLAKE3 :: code where "BLAKE3 = 0x1e"
definition Default :: code where "Default = BLAKE3"

definition registry :: "hash_funs \<Rightarrow> code \<Rightarrow> algo option" where
  "registry h c =
     (if c = SHA2_256 then Some \<lparr>algo_name = ''sha2-256'', algo_size = 32, algo_sum = sha256_sum h\<rparr>
      else if c = BLAKE3 then Some \<lparr>algo_name = ''blake3'', algo_size = 32, algo_sum = blake3_sum h\<rparr>
      else None)"

definition Registered :: "hash_funs \<Rightarrow> code \<Rightarrow> bool" where
  "Registered h c = (registry h c \<noteq> None)"

section \<open>Framing\<close>

definition mh_readUvarint :: "byte list \<Rightarrow> goerr + (u64 \<times> nat)" where
  "mh_readUvarint b = map_err (\<lambda>_. Sentinel MhMalformed []) (readUvarint b)"

definition mh_encode :: "code \<Rightarrow> byte list \<Rightarrow> multihash" where
  "mh_encode c digest =
     (let buf = appendUvarint [] c;
          buf = appendUvarint buf (len64 digest)
      in buf @ digest)"

definition mh_decode :: "multihash \<Rightarrow> goerr + (code \<times> byte list)" where
  "mh_decode m =
     (case mh_readUvarint m of
        Inl _ \<Rightarrow> Inl (Sentinel MhMalformed [])
      | Inr (code, n1) \<Rightarrow>
        (case mh_readUvarint (drop n1 m) of
           Inl _ \<Rightarrow> Inl (Sentinel MhMalformed [])
         | Inr (length64, n2) \<Rightarrow>
           (let rest = drop (n1 + n2) m in
            if length rest \<noteq> unat length64 then Inl (Sentinel MhMalformed [])
            else Inr (code, rest))))"

definition Sum :: "hash_funs \<Rightarrow> code \<Rightarrow> byte list \<Rightarrow> goerr + multihash" where
  "Sum h c data =
     (case registry h c of
        None \<Rightarrow> Inl (Sentinel MhUnknownCode [])
      | Some a \<Rightarrow> Inr (mh_encode c (algo_sum a data)))"

definition Verify :: "hash_funs \<Rightarrow> multihash \<Rightarrow> byte list \<Rightarrow> goerr + bool" where
  "Verify h m data =
     rbind (mh_decode m) (\<lambda>(code, digest).
       case registry h code of
         None \<Rightarrow> Inl (Sentinel MhUnknownCode [])
       | Some a \<Rightarrow>
           (let got = algo_sum a data in
            if length got \<noteq> length digest then Inr False
            else Inr (list_all (\<lambda>(g, d). g = d) (zip got digest))))"

definition Digest :: "multihash \<Rightarrow> byte list" where
  "Digest m = (case mh_decode m of Inl _ \<Rightarrow> [] | Inr (_, d) \<Rightarrow> d)"

text \<open>A multihash is \<open>code, length, digest\<close>, in exactly one way.\<close>

lemma mh_decode_iff:
  "mh_decode m = Inr (c, d) \<longleftrightarrow> m = mh_encode c d \<and> fits64 d"
proof
  assume dec: "mh_decode m = Inr (c, d)"
  then obtain n1 n2 l where
    1: "readUvarint m = Inr (c, n1)" and 2: "readUvarint (drop n1 m) = Inr (l, n2)" and
    d: "d = drop (n1 + n2) m" "length d = unat l"
    by (auto simp: mh_decode_def mh_readUvarint_def map_err_def Let_def
        split: sum.splits prod.splits if_splits)
  from readUvarint_canonical [OF 1] have m: "m = appendUvarint [] c @ drop n1 m" by simp
  from readUvarint_canonical [OF 2] have "drop n1 m = appendUvarint [] l @ drop n2 (drop n1 m)"
    by simp
  also have "drop n2 (drop n1 m) = d" using d by (simp add: add.commute)
  finally have "m = appendUvarint [] c @ appendUvarint [] l @ d" using m by simp
  then show "m = mh_encode c d \<and> fits64 d"
    using len64_unique [of d l] d(2) appendUvarint_append [of "appendUvarint [] c" "len64 d"]
    by (simp add: mh_encode_def)
next
  assume "m = mh_encode c d \<and> fits64 d"
  then have m: "m = appendUvarint [] c @ appendUvarint [] (len64 d) @ d" and f: "fits64 d"
    using appendUvarint_append [of "appendUvarint [] c" "len64 d"] by (simp_all add: mh_encode_def)
  have 1: "readUvarint m = Inr (c, length (appendUvarint [] c))"
    unfolding m by (rule readUvarint_append)
  have "drop (length (appendUvarint [] c)) m = appendUvarint [] (len64 d) @ d"
    unfolding m by simp
  then have 2: "readUvarint (drop (length (appendUvarint [] c)) m)
      = Inr (len64 d, length (appendUvarint [] (len64 d)))"
    using readUvarint_append [of "len64 d" d] by simp
  have "drop (length (appendUvarint [] c) + length (appendUvarint [] (len64 d))) m = d"
    unfolding m by simp
  moreover have "length m - (length (appendUvarint [] c) + length (appendUvarint [] (len64 d))) = length d"
    unfolding m by simp
  ultimately show "mh_decode m = Inr (c, d)"
    using 1 2 f by (simp add: mh_decode_def mh_readUvarint_def)
qed

lemma mh_encode_inj:
  "fits64 d \<Longrightarrow> fits64 d' \<Longrightarrow> mh_encode c d = mh_encode c' d' \<Longrightarrow> c = c' \<and> d = d'"
  using mh_decode_iff [of "mh_encode c d" c d] mh_decode_iff [of "mh_encode c' d'" c' d'] by auto

lemma mh_encode_ne [simp]: "mh_encode c d \<noteq> []"
proof -
  have "mh_encode c d = appendUvarint [] c @ appendUvarint [] (len64 d) @ d"
    using appendUvarint_append [of "appendUvarint [] c" "len64 d"] by (simp add: mh_encode_def)
  then show ?thesis by simp
qed

lemma registry_sum_length: "wf_hashes h \<Longrightarrow> registry h c = Some a \<Longrightarrow> length (algo_sum a b) = 32"
  by (auto simp: registry_def wf_hashes_def split: if_splits)

lemma Sum_decode:
  "wf_hashes h \<Longrightarrow> Sum h c data = Inr m \<Longrightarrow>
   \<exists>a. registry h c = Some a \<and> mh_decode m = Inr (c, algo_sum a data)"
  by (auto simp: Sum_def mh_decode_iff fits64_def registry_sum_length split: option.splits)

lemma zip_all_eq:
  "length xs = length ys \<Longrightarrow> list_all (\<lambda>(x, y). x = y) (zip xs ys) \<longleftrightarrow> xs = ys"
  by (induction xs ys rule: list_induct2) auto

lemma Verify_iff:
  assumes "wf_hashes h"
  shows "Verify h m data = Inr True \<longleftrightarrow>
     (\<exists>c a. registry h c = Some a \<and> m = mh_encode c (algo_sum a data))"
proof
  assume "Verify h m data = Inr True"
  then obtain c d a where d: "mh_decode m = Inr (c, d)" and a: "registry h c = Some a"
    and eq: "length (algo_sum a data) = length d"
       "list_all (\<lambda>(x, y). x = y) (zip (algo_sum a data) d)"
    by (auto simp: Verify_def result_iffs Let_def split: option.splits if_splits)
  have "algo_sum a data = d" using zip_all_eq [OF eq(1)] eq(2) by simp
  with d a show "\<exists>c a. registry h c = Some a \<and> m = mh_encode c (algo_sum a data)"
    by (auto simp: mh_decode_iff)
next
  assume "\<exists>c a. registry h c = Some a \<and> m = mh_encode c (algo_sum a data)"
  then obtain c a where a: "registry h c = Some a" and m: "m = mh_encode c (algo_sum a data)" by auto
  have "fits64 (algo_sum a data)"
    using registry_sum_length [OF assms a] by (simp add: fits64_def)
  with m have "mh_decode m = Inr (c, algo_sum a data)" by (simp add: mh_decode_iff)
  with a show "Verify h m data = Inr True"
    by (simp add: Verify_def zip_all_eq)
qed

lemma Sum_Verify:
  assumes "wf_hashes h" "Sum h c data = Inr m"
  shows "Verify h m data = Inr True"
proof -
  from assms(2) obtain a where "registry h c = Some a" "m = mh_encode c (algo_sum a data)"
    by (auto simp: Sum_def split: option.splits)
  then show ?thesis using Verify_iff [OF assms(1)] by blast
qed

lemma mh_decode_err: "mh_decode m = Inl e \<Longrightarrow> is_err MhMalformed e"
  by (auto simp: mh_decode_def result_iffs split: if_splits sum.splits prod.splits)

section \<open>Comparison and text\<close>

definition Equal :: "multihash \<Rightarrow> multihash \<Rightarrow> bool" where
  "Equal m o' =
     (if length m \<noteq> length o' then False
      else list_all (\<lambda>(x, y). x = y) (zip m o'))"

lemma Equal_iff [simp]: "Equal m o' \<longleftrightarrow> m = o'"
  by (auto simp: Equal_def zip_all_eq)

text \<open>\<^verbatim>\<open>encoding/hex\<close>: lower case out, either case in, odd lengths and other characters refused.\<close>

definition hex_digit :: "nat \<Rightarrow> char" where
  "hex_digit n = ''0123456789abcdef'' ! n"

definition hex_val :: "char \<Rightarrow> nat option" where
  "hex_val c =
     (let n = (of_char c :: nat) in
      if 48 \<le> n \<and> n \<le> 57 then Some (n - 48)
      else if 97 \<le> n \<and> n \<le> 102 then Some (n - 87)
      else if 65 \<le> n \<and> n \<le> 70 then Some (n - 55)
      else None)"

fun hex_encode :: "byte list \<Rightarrow> string" where
  "hex_encode [] = []"
| "hex_encode (b # bs) = hex_digit (unat b div 16) # hex_digit (unat b mod 16) # hex_encode bs"

fun hex_decode :: "string \<Rightarrow> goerr + byte list" where
  "hex_decode [] = Inr []"
| "hex_decode [c] = (case hex_val c of None \<Rightarrow> Inl (Plain ''invalid byte'')
                                    | Some _ \<Rightarrow> Inl (Plain ''odd length hex string''))"
| "hex_decode (c # d # s) =
     (case (hex_val c, hex_val d) of
        (Some x, Some y) \<Rightarrow> rbind (hex_decode s) (\<lambda>bs. Inr (word_of_nat (16 * x + y) # bs))
      | _ \<Rightarrow> Inl (Plain ''invalid byte''))"

definition Hex :: "multihash \<Rightarrow> string" where
  "Hex m = hex_encode m"

definition ParseHex :: "string \<Rightarrow> goerr + multihash" where
  "ParseHex s =
     (case hex_decode s of
        Inl _ \<Rightarrow> Inl (Sentinel MhMalformed [])
      | Inr b \<Rightarrow> (case mh_decode b of Inl e \<Rightarrow> Inl e | Inr _ \<Rightarrow> Inr b))"

lemma hex_digits_val: "list_all (\<lambda>n. hex_val (hex_digit n) = Some n) [0..<16]"
  by code_simp

lemma hex_digits_set: "list_all (\<lambda>n. hex_digit n \<in> set ''0123456789abcdef'') [0..<16]"
  by code_simp

lemma hex_val_digit [simp]: "n < 16 \<Longrightarrow> hex_val (hex_digit n) = Some n"
  using hex_digits_val by (simp add: list_all_iff)

lemma hex_digit_in: "n < 16 \<Longrightarrow> hex_digit n \<in> set ''0123456789abcdef''"
  using hex_digits_set by (simp only: list_all_iff set_upt atLeastLessThan_iff Ball_def) blast

lemma hex_decode_encode [simp]: "hex_decode (hex_encode b) = Inr b"
proof (induction b)
  case Nil
  then show ?case by simp
next
  case (Cons x xs)
  have "unat x < 256" using unsigned_less [of x] by simp
  then have "unat x div 16 < 16" "unat x mod 16 < 16" by simp_all
  moreover have "16 * (unat x div 16) + unat x mod 16 = unat x" by simp
  ultimately show ?case using Cons by simp
qed

lemma Hex_inj [simp]: "Hex a = Hex b \<longleftrightarrow> a = b"
proof
  assume "Hex a = Hex b"
  then have "hex_decode (hex_encode a) = hex_decode (hex_encode b)" by (simp only: Hex_def)
  then show "a = b" by (simp only: hex_decode_encode sum.inject)
qed simp

lemma Hex_chars: "c \<in> set (Hex m) \<Longrightarrow> c \<in> set ''0123456789abcdef''"
proof (induction m)
  case Nil
  then show ?case by (simp add: Hex_def)
next
  case (Cons x xs)
  have "unat x < 256" using unsigned_less [of x] by simp
  then have "hex_digit (unat x div 16) \<in> set ''0123456789abcdef''"
    "hex_digit (unat x mod 16) \<in> set ''0123456789abcdef''"
    by (simp_all add: hex_digit_in del: list.set)
  with Cons show ?case unfolding Hex_def hex_encode.simps by (metis set_ConsD)
qed

lemma Hex_not_in: "c \<notin> set ''0123456789abcdef'' \<Longrightarrow> c \<notin> set (Hex m)"
  using Hex_chars by blast

lemma Hex_Nil [simp]: "Hex m = [] \<longleftrightarrow> m = []"
  by (cases m) (simp_all add: Hex_def)

lemma ParseHex_Hex: "mh_decode m = Inr cd \<Longrightarrow> ParseHex (Hex m) = Inr m"
  by (simp add: ParseHex_def Hex_def)

lemma ParseHex_valid: "ParseHex s = Inr m \<Longrightarrow> \<exists>c d. mh_decode m = Inr (c, d)"
  by (auto simp: ParseHex_def split: sum.splits)

end
