(* ===== verification/Strconv.thy ===== *)
theory Strconv
  imports Multihash
begin

text \<open>
  The parts of Go's \<^verbatim>\<open>strconv\<close> and \<^verbatim>\<open>fmt\<close> that ref logs, pin names and denylists rest
  on: integers printed in base 10 or 16 (\<^verbatim>\<open>%d\<close>, \<^verbatim>\<open>%016x\<close>) and parsed back within the
  range of an \<^verbatim>\<open>int64\<close> (\<^verbatim>\<open>strconv.ParseInt\<close>), and a file's lines as \<^verbatim>\<open>bufio.Scanner\<close>
  yields them.
\<close>

section \<open>Integers in text\<close>

function digits_of :: "nat \<Rightarrow> nat \<Rightarrow> string" where
  "digits_of b n = (if n < b \<or> b < 2 then [hex_digit n] else digits_of b (n div b) @ [hex_digit (n mod b)])"
  by pat_completeness auto
termination
  by (relation "measure snd") auto

declare digits_of.simps [simp del]

fun parse_nat :: "nat \<Rightarrow> nat \<Rightarrow> string \<Rightarrow> nat option" where
  "parse_nat b acc [] = Some acc"
| "parse_nat b acc (c # s) =
     (case hex_val c of
        None \<Rightarrow> None
      | Some d \<Rightarrow> if d < b then parse_nat b (acc * b + d) s else None)"

definition FormatInt :: "nat \<Rightarrow> int \<Rightarrow> string" where
  "FormatInt b i = (if i < 0 then CHR ''-'' # digits_of b (nat (- i)) else digits_of b (nat i))"

text \<open>\<^verbatim>\<open>%0<w>x\<close>: zeros fill up after the sign.\<close>

definition FormatPadded :: "nat \<Rightarrow> nat \<Rightarrow> int \<Rightarrow> string" where
  "FormatPadded w b i =
     (let d = digits_of b (nat \<bar>i\<bar>); s = (if i < 0 then ''-'' else [])
      in s @ replicate (w - length s - length d) CHR ''0'' @ d)"

definition ParseInt :: "nat \<Rightarrow> string \<Rightarrow> int option" where
  "ParseInt b s =
     (let neg = (s \<noteq> [] \<and> hd s = CHR ''-'');
          u = (if s \<noteq> [] \<and> (hd s = CHR ''-'' \<or> hd s = CHR ''+'') then tl s else s)
      in if u = [] then None
         else case parse_nat b 0 u of
           None \<Rightarrow> None
         | Some n \<Rightarrow>
             if \<not> neg \<and> n \<ge> 2 ^ 63 then None
             else if neg \<and> n > 2 ^ 63 then None
             else Some (if neg then - int n else int n))"

lemma digits_of_small: "n < b \<Longrightarrow> digits_of b n = [hex_digit n]"
  by (subst digits_of.simps) simp

lemma digits_of_large:
  "b \<le> n \<Longrightarrow> 2 \<le> b \<Longrightarrow> digits_of b n = digits_of b (n div b) @ [hex_digit (n mod b)]"
  by (subst digits_of.simps) simp

lemma digits_of_ne [simp]: "digits_of b n \<noteq> []"
  by (subst digits_of.simps) simp

lemma parse_nat_append: "parse_nat b acc (s @ t) = Option.bind (parse_nat b acc s) (\<lambda>m. parse_nat b m t)"
  by (induction s arbitrary: acc) (auto split: option.splits)

lemma parse_digits:
  assumes "2 \<le> b" "b \<le> 16"
  shows "parse_nat b 0 (digits_of b n) = Some n"
proof (induction n rule: less_induct)
  case (less n)
  show ?case
  proof (cases "n < b")
    case True
    then show ?thesis using assms by (simp add: digits_of_small)
  next
    case False
    then have d: "n div b < n" using assms by simp
    have b: "n mod b < 16" "n mod b < b"
      using assms mod_less_divisor [of b n] by linarith+
    show ?thesis
      using False assms less [OF d] hex_val_digit [OF b(1)] b(2)
      by (simp add: digits_of_large parse_nat_append del: hex_val_digit)
  qed
qed

lemma parse_zeros: "0 < b \<Longrightarrow> parse_nat b 0 (replicate k CHR ''0'' @ s) = parse_nat b 0 s"
  by (induction k) (simp_all add: hex_val_def)

lemma digits_chars: "2 \<le> b \<Longrightarrow> b \<le> 16 \<Longrightarrow> c \<in> set (digits_of b n) \<Longrightarrow> c \<in> set ''0123456789abcdef''"
proof (induction n rule: less_induct)
  case (less n)
  show ?case
  proof (cases "n < b")
    case True
    with less.prems have "c = hex_digit n" "n < 16" by (simp_all add: digits_of_small)
    then show ?thesis using hex_digit_in by blast
  next
    case False
    then have d: "n div b < n" and m: "n mod b < 16"
      using less.prems mod_less_divisor [of b n] by (simp, linarith)
    have "c \<in> set (digits_of b (n div b)) \<or> c = hex_digit (n mod b)"
      using less.prems False by (auto simp: digits_of_large)
    then show ?thesis using less.IH [OF d less.prems(1,2)] hex_digit_in [OF m] by blast
  qed
qed

lemma digits_not_in: "2 \<le> b \<Longrightarrow> b \<le> 16 \<Longrightarrow> c \<notin> set ''0123456789abcdef'' \<Longrightarrow> c \<notin> set (digits_of b n)"
  using digits_chars by blast

lemma FormatInt_chars:
  "2 \<le> b \<Longrightarrow> b \<le> 16 \<Longrightarrow> c \<notin> set ''-0123456789abcdef'' \<Longrightarrow> c \<notin> set (FormatInt b i)"
  using digits_not_in [of b c] by (auto simp: FormatInt_def)

lemma FormatPadded_chars:
  "2 \<le> b \<Longrightarrow> b \<le> 16 \<Longrightarrow> c \<notin> set ''-0123456789abcdef'' \<Longrightarrow> c \<notin> set (FormatPadded w b i)"
  using digits_not_in [of b c] by (auto simp: FormatPadded_def Let_def)

definition int64 :: "int \<Rightarrow> bool" where
  "int64 i \<longleftrightarrow> - (2 ^ 63) \<le> i \<and> i < 2 ^ 63"

lemma sint_int64 [simp]: "int64 (sint (w :: i64))"
  using sint_lt [of w] sint_ge [of w] by (simp add: int64_def)

lemma ParseInt_unsigned:
  assumes "s \<noteq> []" "parse_nat b 0 s = Some n" "n < 2 ^ 63" "hd s \<noteq> CHR ''-''" "hd s \<noteq> CHR ''+''"
  shows "ParseInt b s = Some (int n)"
  using assms by (simp add: ParseInt_def)

lemma ParseInt_negative:
  assumes "s \<noteq> []" "parse_nat b 0 s = Some n" "n \<le> 2 ^ 63"
  shows "ParseInt b (CHR ''-'' # s) = Some (- int n)"
  using assms by (simp add: ParseInt_def)

lemma hd_not_sign:
  assumes "s \<noteq> []" "CHR ''-'' \<notin> set s" "CHR ''+'' \<notin> set s"
  shows "hd s \<noteq> CHR ''-''" "hd s \<noteq> CHR ''+''"
  using assms by (cases s; auto)+

lemma ParseInt_Padded:
  assumes "2 \<le> b" "b \<le> 16" "int64 i"
  shows "ParseInt b (FormatPadded w b i) = Some i"
proof -
  let ?d = "digits_of b (nat \<bar>i\<bar>)"
  have p: "parse_nat b 0 (replicate k CHR ''0'' @ ?d) = Some (nat \<bar>i\<bar>)" for k
    using assms by (simp add: parse_zeros parse_digits)
  have c: "CHR ''-'' \<notin> set (replicate k CHR ''0'' @ ?d)" "CHR ''+'' \<notin> set (replicate k CHR ''0'' @ ?d)" for k
    using assms digits_not_in [of b "CHR ''-''"] digits_not_in [of b "CHR ''+''"] by auto
  show ?thesis
  proof (cases "i < 0")
    case True
    then show ?thesis
      using assms ParseInt_negative [OF _ p, of "w - 1 - length ?d"]
      by (simp add: FormatPadded_def int64_def Let_def)
  next
    case False
    then show ?thesis
      using assms ParseInt_unsigned [OF _ p _ hd_not_sign(1) hd_not_sign(2), of "w - length ?d"] c
      by (simp add: FormatPadded_def int64_def Let_def del: set_append)
  qed
qed

lemma FormatInt_Padded: "FormatInt b i = FormatPadded 0 b i"
  by (simp add: FormatInt_def FormatPadded_def)

lemma ParseInt_FormatInt [simp]: "2 \<le> b \<Longrightarrow> b \<le> 16 \<Longrightarrow> int64 i \<Longrightarrow> ParseInt b (FormatInt b i) = Some i"
  by (simp add: FormatInt_Padded ParseInt_Padded)

section \<open>Lines\<close>

text \<open>
  \<^verbatim>\<open>bufio.ScanLines\<close>: text up to each newline, a trailing carriage return dropped, and no
  empty line after the last newline.
\<close>

abbreviation newline :: char where "newline \<equiv> CHR 0x0A"
abbreviation tab :: char where "tab \<equiv> CHR 0x09"

definition drop_cr :: "string \<Rightarrow> string" where
  "drop_cr s = (if s \<noteq> [] \<and> last s = CHR 0x0D then butlast s else s)"

definition raw_lines :: "string \<Rightarrow> string list" where
  "raw_lines s = (let ls = split_on newline s in if last ls = [] then butlast ls else ls)"

lemma raw_lines_Nil [simp]: "raw_lines [] = []"
  by (simp add: raw_lines_def)

lemma split_on_Cons_sep [simp]: "split_on c (c # s) = [] # split_on c s"
  by simp

lemma last_split_cons: "last (w # split_on c s) = last (split_on c s)"
  by (simp add: last_ConsR)

lemma raw_lines_line:
  "newline \<notin> set l \<Longrightarrow> raw_lines (l @ newline # s) = l # raw_lines s"
  by (simp add: raw_lines_def split_on_append_sep Let_def last_split_cons butlast.simps)

lemma raw_lines_concat:
  "\<forall>l \<in> set ls. newline \<notin> set l \<Longrightarrow> raw_lines (concat (map (\<lambda>l. l @ [newline]) ls) @ s) = ls @ raw_lines s"
  by (induction ls) (simp_all add: raw_lines_line)

end
