(* ===== verification/FileTree.thy ===== *)
theory FileTree
  imports Strconv "HOL-Library.AList"
begin

text \<open>
  The part of the file system the ref store works on: a directory that holds files under
  slash-separated names. A name cannot be both a file and a directory, which is what
  makes \<^verbatim>\<open>os.MkdirAll\<close>, \<^verbatim>\<open>os.ReadFile\<close>, \<^verbatim>\<open>os.Rename\<close> and \<^verbatim>\<open>os.OpenFile\<close> fail on names that
  clash. Directories are never removed by the modelled code. Permissions, full disks and
  other I/O failures are outside the model.
\<close>

datatype oserr = ENOENT | ENOTDIR | EISDIR

record ftree =
  ft_files :: "(string \<times> string) list"
  ft_dirs :: "string set"

definition empty_ftree :: ftree where
  "empty_ftree = \<lparr>ft_files = [], ft_dirs = {}\<rparr>"

definition path_parents :: "string \<Rightarrow> string list" where
  "path_parents p =
     (let segs = split_on CHR ''/'' p
      in map (\<lambda>k. join_with ''/'' (take k segs)) [1..<length segs])"

definition is_file :: "ftree \<Rightarrow> string \<Rightarrow> bool" where
  "is_file t p = (map_of (ft_files t) p \<noteq> None)"

definition fs_read :: "ftree \<Rightarrow> string \<Rightarrow> oserr + string" where
  "fs_read t p =
     (if list_ex (is_file t) (path_parents p) then Inl ENOTDIR
      else if p \<in> ft_dirs t then Inl EISDIR
      else case map_of (ft_files t) p of None \<Rightarrow> Inl ENOENT | Some c \<Rightarrow> Inr c)"

text \<open>\<^verbatim>\<open>os.MkdirAll(filepath.Dir(p))\<close> and then a write to \<^verbatim>\<open>p\<close>.\<close>

definition fs_write :: "ftree \<Rightarrow> string \<Rightarrow> string \<Rightarrow> oserr + ftree" where
  "fs_write t p c =
     (if list_ex (is_file t) (path_parents p) then Inl ENOTDIR
      else if p \<in> ft_dirs t then Inl EISDIR
      else Inr (t\<lparr>ft_files := AList.update p c (ft_files t),
                  ft_dirs := ft_dirs t \<union> set (path_parents p)\<rparr>))"

definition fs_append :: "ftree \<Rightarrow> string \<Rightarrow> string \<Rightarrow> oserr + ftree" where
  "fs_append t p c =
     fs_write t p ((case map_of (ft_files t) p of None \<Rightarrow> [] | Some b \<Rightarrow> b) @ c)"

definition fs_remove :: "ftree \<Rightarrow> string \<Rightarrow> ftree" where
  "fs_remove t p = t\<lparr>ft_files := AList.delete p (ft_files t)\<rparr>"

text \<open>\<^verbatim>\<open>filepath.WalkDir\<close>: directory by directory, each in the order of its entry names.\<close>

definition fs_walk :: "ftree \<Rightarrow> string list" where
  "fs_walk t = sort_key (split_on CHR ''/'') (map fst (ft_files t))"

text \<open>The contents as a map: what a read of a file returns, on a tree without clashes.\<close>

definition contents :: "ftree \<Rightarrow> string \<Rightarrow> string option" where
  "contents t p = (case fs_read t p of Inl _ \<Rightarrow> None | Inr c \<Rightarrow> Some c)"

definition wf_ftree :: "ftree \<Rightarrow> bool" where
  "wf_ftree t \<longleftrightarrow> distinct (map fst (ft_files t)) \<and>
     (\<forall>p. is_file t p \<longrightarrow> set (path_parents p) \<subseteq> ft_dirs t \<and> p \<notin> ft_dirs t)"

lemma wf_empty_ftree [simp]: "wf_ftree empty_ftree"
  by (simp add: wf_ftree_def empty_ftree_def is_file_def)

lemma contents_empty [simp]: "contents empty_ftree p = None"
  by (simp add: contents_def fs_read_def empty_ftree_def)

lemma is_file_iff: "is_file t p \<longleftrightarrow> p \<in> set (map fst (ft_files t))"
  by (simp add: is_file_def map_of_eq_None_iff)

lemma contents_file:
  assumes "wf_ftree t"
  shows "contents t p = map_of (ft_files t) p"
proof (cases "map_of (ft_files t) p")
  case None
  then show ?thesis by (simp add: contents_def fs_read_def)
next
  case (Some c)
  then have f: "is_file t p" by (simp add: is_file_def)
  with assms have d: "set (path_parents p) \<subseteq> ft_dirs t" "p \<notin> ft_dirs t"
    by (auto simp: wf_ftree_def)
  have "\<not> list_ex (is_file t) (path_parents p)"
    using d(1) assms by (auto simp: list_ex_iff wf_ftree_def)
  with Some d(2) show ?thesis by (simp add: contents_def fs_read_def)
qed

lemma fs_read_Inr: "fs_read t p = Inr c \<longleftrightarrow> contents t p = Some c"
  by (simp add: contents_def split: sum.splits)

lemma contents_None: "contents t p = None \<longleftrightarrow> (\<exists>e. fs_read t p = Inl e)"
  by (auto simp: contents_def split: sum.splits)

lemma is_file_update: "is_file (t\<lparr>ft_files := AList.update p c fs, ft_dirs := D\<rparr>) q \<longleftrightarrow>
    q = p \<or> is_file (t\<lparr>ft_files := fs\<rparr>) q"
  by (auto simp: is_file_def update_conv')

lemma wf_fs_write:
  assumes "wf_ftree t" "fs_write t p c = Inr t'"
  shows "wf_ftree t'"
proof -
  from assms(2) have p: "\<not> list_ex (is_file t) (path_parents p)" "p \<notin> ft_dirs t"
    and t': "t' = t\<lparr>ft_files := AList.update p c (ft_files t), ft_dirs := ft_dirs t \<union> set (path_parents p)\<rparr>"
    by (auto simp: fs_write_def split: if_splits)
  have self: "p \<notin> set (path_parents p)"
  proof
    assume "p \<in> set (path_parents p)"
    then obtain k where k: "1 \<le> k" "k < length (split_on CHR ''/'' p)"
      and eq: "p = join_with ''/'' (take k (split_on CHR ''/'' p))"
      by (auto simp: path_parents_def Let_def)
    have "split_on CHR ''/'' (join_with ''/'' (take k (split_on CHR ''/'' p))) = take k (split_on CHR ''/'' p)"
      using k by (intro split_join) (auto dest!: in_set_takeD split_on_no_sep)
    with eq have "length (split_on CHR ''/'' p) = k" using k by (metis length_take min.absorb4)
    with k show False by simp
  qed
  have "is_file t q \<Longrightarrow> q \<notin> set (path_parents p)" for q
    using p(1) by (auto simp: list_ex_iff)
  then show ?thesis
    using assms(1) p(2) self by (auto simp: wf_ftree_def t' is_file_update distinct_update)
qed

lemma contents_fs_write:
  assumes "wf_ftree t" "fs_write t p c = Inr t'"
  shows "contents t' = (contents t)(p \<mapsto> c)"
proof -
  have "ft_files t' = AList.update p c (ft_files t)"
    using assms(2) by (auto simp: fs_write_def split: if_splits)
  then show ?thesis
    using assms wf_fs_write [OF assms] by (auto simp: contents_file update_conv')
qed

lemma fs_write_ok:
  "contents t p = Some b \<Longrightarrow> \<exists>t'. fs_write t p c = Inr t'"
  by (auto simp: contents_def fs_read_def fs_write_def split: if_splits option.splits)

lemma wf_fs_remove: "wf_ftree t \<Longrightarrow> wf_ftree (fs_remove t p)"
  by (auto simp: wf_ftree_def fs_remove_def is_file_def delete_conv' distinct_delete split: if_splits)

lemma contents_fs_remove: "wf_ftree t \<Longrightarrow> contents (fs_remove t p) = (contents t)(p := None)"
proof
  fix q
  assume wf: "wf_ftree t"
  show "contents (fs_remove t p) q = ((contents t)(p := None)) q"
    using contents_file [OF wf_fs_remove [OF wf], of p q] contents_file [OF wf, of q]
    by (simp add: fs_remove_def delete_conv')
qed

lemma wf_fs_append: "wf_ftree t \<Longrightarrow> fs_append t p c = Inr t' \<Longrightarrow> wf_ftree t'"
  unfolding fs_append_def by (rule wf_fs_write)

lemma contents_fs_append:
  assumes "wf_ftree t" "fs_append t p c = Inr t'"
  shows "contents t' = (contents t)(p \<mapsto> (case contents t p of None \<Rightarrow> [] | Some b \<Rightarrow> b) @ c)"
  using contents_fs_write [OF assms(1) assms(2) [unfolded fs_append_def]]
  by (simp add: contents_file [OF assms(1)])

lemma set_fs_walk: "wf_ftree t \<Longrightarrow> set (fs_walk t) = {p. contents t p \<noteq> None}"
  by (auto simp: fs_walk_def contents_file map_of_eq_None_iff)

lemma distinct_fs_walk: "wf_ftree t \<Longrightarrow> distinct (fs_walk t)"
  by (simp add: fs_walk_def wf_ftree_def)

end
