(* ===== verification/Refs.thy ===== *)
theory Refs
  imports FileTree
begin

text \<open>
  \<^verbatim>\<open>internal/refs\<close>: named pointers moved by compare-and-swap, and the append-only log of
  every move. The store is two file trees, the refs and their logs. The lock file makes
  each operation one atomic step, so an operation is a function from the state to a
  result and the state after it; waiting for the lock is not modelled. The clock is an
  argument. A Go hash that may be nil is an option.
\<close>

record refstate =
  rs_refs :: ftree
  rs_logs :: ftree

record log_entry =
  l_old :: "multihash option"
  l_new :: "multihash option"
  l_ns :: i64
  l_actor :: string
  l_message :: string

section \<open>Names\<close>

definition ValidName :: "string \<Rightarrow> goerr + unit" where
  "ValidName name =
     (if name = [] then Inl (Sentinel RefInvalidName ''empty'')
      else if has_prefix name ''/'' \<or> has_suffix name ''/'' then
        Inl (Sentinel RefInvalidName ''leading/trailing slash'')
      else if list_ex (\<lambda>seg. seg = [] \<or> seg = ''.'' \<or> seg = ''..'') (split_on CHR ''/'' name) then
        Inl (Sentinel RefInvalidName ''bad segment'')
      else if list_ex (\<lambda>seg. list_ex (\<lambda>c. c = CHR 0x5C \<or> c = CHR 0x00) seg) (split_on CHR ''/'' name) then
        Inl (Sentinel RefInvalidName ''illegal character'')
      else Inr ())"

section \<open>The log format\<close>

definition hexOrZero :: "multihash option \<Rightarrow> string" where
  "hexOrZero m = (case m of None \<Rightarrow> ''0'' | Some h \<Rightarrow> Hex h)"

definition parseHexOrZero :: "string \<Rightarrow> goerr + multihash option" where
  "parseHexOrZero s = (if s = ''0'' then Inr None else rbind (ParseHex s) (\<lambda>h. Inr (Some h)))"

definition sanitizeActor :: "string \<Rightarrow> string" where
  "sanitizeActor a =
     (let a = replace_char tab CHR '' '' a;
          a = replace_char newline CHR '' '' a
      in if a = [] then ''-'' else a)"

definition sanitizeMessage :: "string \<Rightarrow> string" where
  "sanitizeMessage m = replace_char newline CHR '' '' m"

definition formatLogLine :: "log_entry \<Rightarrow> string" where
  "formatLogLine e =
     hexOrZero (l_old e) @ '' '' @ hexOrZero (l_new e) @ '' '' @ FormatInt 10 (sint (l_ns e)) @ '' ''
       @ sanitizeActor (l_actor e) @ [tab] @ sanitizeMessage (l_message e) @ [newline]"

text \<open>\<^verbatim>\<open>strings.IndexByte\<close> with the two sides of the match, and \<^verbatim>\<open>strings.SplitN\<close>.\<close>

definition cut :: "char \<Rightarrow> string \<Rightarrow> (string \<times> string) option" where
  "cut c s =
     (if c \<in> set s then Some (takeWhile (\<lambda>x. x \<noteq> c) s, tl (dropWhile (\<lambda>x. x \<noteq> c) s)) else None)"

fun splitN :: "char \<Rightarrow> nat \<Rightarrow> string \<Rightarrow> string list" where
  "splitN c 0 s = []"
| "splitN c (Suc 0) s = [s]"
| "splitN c (Suc (Suc n)) s =
     (case cut c s of None \<Rightarrow> [s] | Some (w, r) \<Rightarrow> w # splitN c (Suc n) r)"

definition parseLogLine :: "string \<Rightarrow> goerr + log_entry" where
  "parseLogLine line =
     (case cut tab line of
        None \<Rightarrow> Inl (Plain ''missing message separator'')
      | Some (head, msg) \<Rightarrow>
          (case splitN CHR '' '' 4 head of
             [f0, f1, f2, f3] \<Rightarrow>
               rbind (parseHexOrZero f0) (\<lambda>old.
               rbind (parseHexOrZero f1) (\<lambda>newv.
               case ParseInt 10 f2 of
                 None \<Rightarrow> Inl (Plain ''bad timestamp'')
               | Some ns \<Rightarrow>
                   Inr \<lparr>l_old = old, l_new = newv, l_ns = word_of_int ns, l_actor = f3, l_message = msg\<rparr>))
           | _ \<Rightarrow> Inl (Plain ''expected 4 header fields'')))"

definition max_token :: nat where
  "max_token = 4 * 1024 * 1024"

fun scan_log :: "string list \<Rightarrow> goerr + log_entry list" where
  "scan_log [] = Inr []"
| "scan_log (l # ls) =
     (if length l \<ge> max_token then Inl (Plain ''bufio.Scanner: token too long'')
      else rbind (parseLogLine (drop_cr l)) (\<lambda>e.
           rbind (scan_log ls) (\<lambda>es. Inr (e # es))))"

definition ReadLog :: "refstate \<Rightarrow> string \<Rightarrow> goerr + log_entry list" where
  "ReadLog s name =
     rbind (ValidName name) (\<lambda>_.
     case fs_read (rs_logs s) name of
       Inl ENOENT \<Rightarrow> Inr []
     | Inl _ \<Rightarrow> Inl (Plain ''open log'')
     | Inr text \<Rightarrow> scan_log (raw_lines text))"

section \<open>Reading and moving refs\<close>

definition readRef :: "refstate \<Rightarrow> string \<Rightarrow> goerr + multihash" where
  "readRef s name =
     (case fs_read (rs_refs s) name of
        Inl ENOENT \<Rightarrow> Inl (Sentinel RefNotExist [])
      | Inl _ \<Rightarrow> Inl (Plain ''read ref'')
      | Inr b \<Rightarrow> ParseHex (trim_space b))"

definition Resolve :: "refstate \<Rightarrow> string \<Rightarrow> goerr + multihash" where
  "Resolve s name = rbind (ValidName name) (\<lambda>_. readRef s name)"

definition writeRef :: "refstate \<Rightarrow> string \<Rightarrow> multihash \<Rightarrow> goerr + refstate" where
  "writeRef s name val =
     (case fs_write (rs_refs s) name (Hex val @ [newline]) of
        Inl _ \<Rightarrow> Inl (Plain ''write ref'')
      | Inr t \<Rightarrow> Inr (s\<lparr>rs_refs := t\<rparr>))"

definition appendLog :: "refstate \<Rightarrow> i64 \<Rightarrow> string \<Rightarrow> multihash option \<Rightarrow> multihash option
    \<Rightarrow> string \<Rightarrow> string \<Rightarrow> (goerr + unit) \<times> refstate" where
  "appendLog s now name oldval newval actor msg =
     (let line = formatLogLine \<lparr>l_old = oldval, l_new = newval, l_ns = now, l_actor = actor, l_message = msg\<rparr>
      in case fs_append (rs_logs s) name line of
           Inl _ \<Rightarrow> (Inl (Plain ''append log''), s)
         | Inr t \<Rightarrow> (Inr (), s\<lparr>rs_logs := t\<rparr>))"

definition AppendLog :: "refstate \<Rightarrow> i64 \<Rightarrow> string \<Rightarrow> multihash option \<Rightarrow> multihash option
    \<Rightarrow> string \<Rightarrow> string \<Rightarrow> (goerr + unit) \<times> refstate" where
  "AppendLog s now name old newval actor msg =
     (case ValidName name of
        Inl e \<Rightarrow> (Inl e, s)
      | Inr _ \<Rightarrow> appendLog s now name old newval actor msg)"

definition CompareAndSwap :: "refstate \<Rightarrow> i64 \<Rightarrow> string \<Rightarrow> multihash option \<Rightarrow> multihash option
    \<Rightarrow> string \<Rightarrow> string \<Rightarrow> (goerr + unit) \<times> refstate" where
  "CompareAndSwap s now name oldval newval actor msg =
     (case ValidName name of
        Inl e \<Rightarrow> (Inl e, s)
      | Inr _ \<Rightarrow>
         (let swap =
            (case newval of
               None \<Rightarrow> appendLog (s\<lparr>rs_refs := fs_remove (rs_refs s) name\<rparr>) now name oldval newval actor msg
             | Some nv \<Rightarrow>
                (case mh_decode nv of
                   Inl e \<Rightarrow> (Inl e, s)
                 | Inr _ \<Rightarrow>
                    (case writeRef s name nv of
                       Inl e \<Rightarrow> (Inl e, s)
                     | Inr s' \<Rightarrow> appendLog s' now name oldval newval actor msg)))
          in case readRef s name of
               Inl e \<Rightarrow>
                 if \<not> is_err RefNotExist e then (Inl e, s)
                 else if oldval \<noteq> None then (Inl (Sentinel RefConflict ''found absent''), s)
                 else swap
             | Inr cur \<Rightarrow>
                 (case oldval of
                    None \<Rightarrow> (Inl (Sentinel RefConflict ''expected absent''), s)
                  | Some old \<Rightarrow>
                      if \<not> Equal cur old then (Inl (Sentinel RefConflict ''found other value''), s)
                      else swap)))"

definition Create :: "refstate \<Rightarrow> i64 \<Rightarrow> string \<Rightarrow> multihash \<Rightarrow> string \<Rightarrow> string
    \<Rightarrow> (goerr + unit) \<times> refstate" where
  "Create s now name val actor msg = CompareAndSwap s now name None (Some val) actor msg"

definition Delete :: "refstate \<Rightarrow> i64 \<Rightarrow> string \<Rightarrow> multihash \<Rightarrow> string \<Rightarrow> string
    \<Rightarrow> (goerr + unit) \<times> refstate" where
  "Delete s now name oldval actor msg = CompareAndSwap s now name (Some oldval) None actor msg"

definition List_refs :: "refstate \<Rightarrow> string list" where
  "List_refs s = fs_walk (rs_refs s)"

definition LogNames :: "refstate \<Rightarrow> string list" where
  "LogNames s = fs_walk (rs_logs s)"

section \<open>Expiry\<close>

definition keep_entries :: "int \<Rightarrow> i64 \<Rightarrow> log_entry list \<Rightarrow> log_entry list" where
  "keep_entries keepMax cutoff entries =
     (let n = int (length entries)
      in map snd (filter (\<lambda>(i, e). (keepMax > 0 \<and> int i \<ge> n - keepMax) \<or> sint (l_ns e) \<ge> sint cutoff)
           (enumerate 0 entries)))"

definition ExpireLog :: "refstate \<Rightarrow> string \<Rightarrow> int \<Rightarrow> i64 \<Rightarrow> (goerr + nat) \<times> refstate" where
  "ExpireLog s name keepMax cutoff =
     (case ReadLog s name of
        Inl e \<Rightarrow> (Inl e, s)
      | Inr entries \<Rightarrow>
         (let kept = keep_entries keepMax cutoff entries;
              removed = length entries - length kept
          in if removed = 0 then (Inr 0, s)
             else if length kept = 0 then
               (Inr removed, s\<lparr>rs_logs := fs_remove (rs_logs s) name\<rparr>)
             else
               (case fs_write (rs_logs s) name (concat (map formatLogLine kept)) of
                  Inl _ \<Rightarrow> (Inl (Plain ''rewrite log''), s)
                | Inr t \<Rightarrow> (Inr removed, s\<lparr>rs_logs := t\<rparr>))))"

text \<open>The running total is returned beside the error that stopped the sweep.\<close>

fun expire_names :: "int \<Rightarrow> i64 \<Rightarrow> string list \<Rightarrow> nat \<Rightarrow> refstate \<Rightarrow> (nat \<times> goerr option) \<times> refstate" where
  "expire_names keepMax cutoff [] tot s = ((tot, None), s)"
| "expire_names keepMax cutoff (n # ns) tot s =
     (case ExpireLog s n keepMax cutoff of
        (Inl e, s) \<Rightarrow> ((tot, Some e), s)
      | (Inr removed, s) \<Rightarrow> expire_names keepMax cutoff ns (tot + removed) s)"

definition ExpireAll :: "refstate \<Rightarrow> int \<Rightarrow> i64 \<Rightarrow> (nat \<times> goerr option) \<times> refstate" where
  "ExpireAll s keepMax cutoff = expire_names keepMax cutoff (LogNames s) 0 s"

section \<open>The log format is read back\<close>

definition valid_hash :: "multihash option \<Rightarrow> bool" where
  "valid_hash m = (case m of None \<Rightarrow> True | Some h \<Rightarrow> (\<exists>cd. mh_decode h = Inr cd))"

lemma length_Hex [simp]: "length (Hex h) = 2 * length h"
  by (induction h) (simp_all add: Hex_def)

lemma valid_hash_Nil [simp]: "\<not> valid_hash (Some [])"
  by (simp add: valid_hash_def mh_decode_def mh_readUvarint_def readUvarint_def)

lemma parseHexOrZero_hexOrZero: "valid_hash m \<Longrightarrow> parseHexOrZero (hexOrZero m) = Inr m"
proof (cases m)
  case (Some h)
  assume "valid_hash m"
  with Some obtain cd where "mh_decode h = Inr cd" by (auto simp: valid_hash_def)
  moreover have "Hex h \<noteq> ''0''"
  proof
    assume "Hex h = ''0''"
    then have "2 * length h = 1" using length_Hex [of h] by simp
    then show False by presburger
  qed
  ultimately show ?thesis using Some by (simp add: parseHexOrZero_def hexOrZero_def ParseHex_Hex)
qed (simp add: parseHexOrZero_def hexOrZero_def)

lemma cut_append: "c \<notin> set w \<Longrightarrow> cut c (w @ c # r) = Some (w, r)"
proof -
  assume c: "c \<notin> set w"
  have "takeWhile (\<lambda>x. x \<noteq> c) (w @ c # r) = w"
    using c by (subst takeWhile_append2) auto
  moreover have "dropWhile (\<lambda>x. x \<noteq> c) (w @ c # r) = c # r"
    using c by (subst dropWhile_append2) auto
  ultimately show ?thesis by (simp add: cut_def)
qed

lemma splitN_append: "c \<notin> set w \<Longrightarrow> splitN c (Suc (Suc n)) (w @ c # r) = w # splitN c (Suc n) r"
  by (simp add: cut_append)

lemma replace_char_not_in: "a \<noteq> b \<Longrightarrow> a \<notin> set (replace_char a b s)"
  by (auto simp: replace_char_def split: if_splits)

lemma replace_char_keeps: "c \<notin> set s \<Longrightarrow> c \<noteq> b \<Longrightarrow> c \<notin> set (replace_char a b s)"
  by (auto simp: replace_char_def split: if_splits)

lemma sanitizeActor_chars: "tab \<notin> set (sanitizeActor a)" "newline \<notin> set (sanitizeActor a)"
  by (simp_all add: sanitizeActor_def Let_def replace_char_not_in replace_char_keeps)

lemma sanitizeMessage_chars: "newline \<notin> set (sanitizeMessage m)"
  by (simp add: sanitizeMessage_def replace_char_not_in)

lemma hexOrZero_chars: "c \<notin> set ''0123456789abcdef'' \<Longrightarrow> c \<notin> set (hexOrZero m)"
  using Hex_not_in [of c] by (cases m) (auto simp: hexOrZero_def)

definition log_line :: "log_entry \<Rightarrow> string" where
  "log_line e =
     hexOrZero (l_old e) @ CHR '' '' # hexOrZero (l_new e) @ CHR '' '' # FormatInt 10 (sint (l_ns e)) @
       CHR '' '' # sanitizeActor (l_actor e) @ tab # sanitizeMessage (l_message e)"

lemma formatLogLine_line: "formatLogLine e = log_line e @ [newline]"
  by (simp add: formatLogLine_def log_line_def)

lemma log_line_no_newline: "newline \<notin> set (log_line e)"
  using hexOrZero_chars [of newline] FormatInt_chars [of 10 newline] sanitizeActor_chars sanitizeMessage_chars
  by (simp add: log_line_def)

text \<open>What a reader gets: the fields as they were sanitised, and a message without the
  carriage return the line scanner takes for part of the line ending.\<close>

definition read_entry :: "log_entry \<Rightarrow> log_entry" where
  "read_entry e = e\<lparr>l_actor := sanitizeActor (l_actor e), l_message := drop_cr (sanitizeMessage (l_message e))\<rparr>"

definition wf_log_entry :: "log_entry \<Rightarrow> bool" where
  "wf_log_entry e \<longleftrightarrow> valid_hash (l_old e) \<and> valid_hash (l_new e) \<and> length (log_line e) < max_token"

lemma drop_cr_append: "m \<noteq> [] \<Longrightarrow> drop_cr (a @ m) = a @ drop_cr m"
  by (simp add: drop_cr_def butlast_append)

lemma drop_cr_line:
  "drop_cr (log_line e) =
     (hexOrZero (l_old e) @ CHR '' '' # hexOrZero (l_new e) @ CHR '' '' # FormatInt 10 (sint (l_ns e)) @
       CHR '' '' # sanitizeActor (l_actor e)) @ tab # drop_cr (sanitizeMessage (l_message e))"
proof -
  have "drop_cr (tab # m) = tab # drop_cr m" for m by (simp add: drop_cr_def)
  then show ?thesis
    using drop_cr_append [of "tab # sanitizeMessage (l_message e)"
        "hexOrZero (l_old e) @ CHR '' '' # hexOrZero (l_new e) @ CHR '' '' # FormatInt 10 (sint (l_ns e)) @
       CHR '' '' # sanitizeActor (l_actor e)"]
    by (simp add: log_line_def)
qed

lemma parse_log_line:
  assumes "valid_hash (l_old e)" "valid_hash (l_new e)"
  shows "parseLogLine (drop_cr (log_line e)) = Inr (read_entry e)"
proof -
  let ?o = "hexOrZero (l_old e)" and ?n = "hexOrZero (l_new e)"
    and ?t = "FormatInt 10 (sint (l_ns e))" and ?a = "sanitizeActor (l_actor e)"
  let ?h = "?o @ CHR '' '' # ?n @ CHR '' '' # ?t @ CHR '' '' # ?a"
  have "tab \<notin> set ?h"
    using hexOrZero_chars [of tab] FormatInt_chars [of 10 tab] sanitizeActor_chars by simp
  then have c: "cut tab (drop_cr (log_line e)) = Some (?h, drop_cr (sanitizeMessage (l_message e)))"
    unfolding drop_cr_line by (rule cut_append)
  have "CHR '' '' \<notin> set ?o" "CHR '' '' \<notin> set ?n" "CHR '' '' \<notin> set ?t"
    using hexOrZero_chars [of "CHR '' ''"] FormatInt_chars [of 10 "CHR '' ''"] by simp_all
  then have sp: "splitN CHR '' '' 4 ?h = [?o, ?n, ?t, ?a]"
    by (simp add: numeral_eq_Suc splitN_append del: splitN.simps(3))
  show ?thesis
    using assms by (simp add: parseLogLine_def c sp parseHexOrZero_hexOrZero read_entry_def)
qed

lemma scan_lines:
  "\<forall>e \<in> set es. wf_log_entry e \<Longrightarrow> scan_log (map log_line es) = Inr (map read_entry es)"
  by (induction es) (simp_all add: wf_log_entry_def parse_log_line)

lemma scan_formatted:
  assumes "\<forall>e \<in> set es. wf_log_entry e"
  shows "scan_log (raw_lines (concat (map formatLogLine es))) = Inr (map read_entry es)"
proof -
  have "concat (map formatLogLine es) = concat (map (\<lambda>l. l @ [newline]) (map log_line es)) @ []"
    by (simp add: formatLogLine_line [abs_def] comp_def)
  then have "raw_lines (concat (map formatLogLine es)) = map log_line es"
    using raw_lines_concat [of "map log_line es" "[]"] log_line_no_newline by simp
  with assms show ?thesis by (simp add: scan_lines)
qed

section \<open>The invariant of the store\<close>

definition refs_ok :: "refstate \<Rightarrow> bool" where
  "refs_ok s \<longleftrightarrow>
     wf_ftree (rs_refs s) \<and> wf_ftree (rs_logs s) \<and>
     (\<forall>n b. contents (rs_refs s) n = Some b \<longrightarrow> (\<exists>v. b = Hex v @ [newline] \<and> valid_hash (Some v))) \<and>
     (\<forall>n b. contents (rs_logs s) n = Some b \<longrightarrow>
        (\<exists>es. b = concat (map formatLogLine es) \<and> (\<forall>e \<in> set es. wf_log_entry e)))"

lemma refs_ok_ref:
  assumes "refs_ok s" "contents (rs_refs s) n = Some b"
  obtains v where "b = Hex v @ [newline]" "valid_hash (Some v)"
  using assms unfolding refs_ok_def by blast

lemma refs_ok_log:
  assumes "refs_ok s"
  obtains es where "(case contents (rs_logs s) n of None \<Rightarrow> [] | Some b \<Rightarrow> b) = concat (map formatLogLine es)"
    "\<forall>e \<in> set es. wf_log_entry e"
proof (cases "contents (rs_logs s) n")
  case None
  then show thesis by (intro that [of "[]"]) simp_all
next
  case (Some b)
  then obtain es where "b = concat (map formatLogLine es)" "\<forall>e \<in> set es. wf_log_entry e"
    using assms unfolding refs_ok_def by blast
  with Some show thesis by (intro that [of es]) simp_all
qed

definition current :: "refstate \<Rightarrow> string \<Rightarrow> multihash option" where
  "current s name = (case readRef s name of Inl _ \<Rightarrow> None | Inr v \<Rightarrow> Some v)"

definition log_of :: "refstate \<Rightarrow> string \<Rightarrow> log_entry list" where
  "log_of s name = (case ReadLog s name of Inl _ \<Rightarrow> [] | Inr es \<Rightarrow> es)"

definition empty_refs :: refstate where
  "empty_refs = \<lparr>rs_refs = empty_ftree, rs_logs = empty_ftree\<rparr>"

lemma refs_ok_empty [simp]: "refs_ok empty_refs"
  by (simp add: refs_ok_def empty_refs_def)

lemma hex_not_space: "c \<in> set (Hex v) \<Longrightarrow> \<not> is_space c"
  using Hex_chars [of c v] by (auto simp: is_space_def)

lemma trim_space_Hex: "trim_space (Hex v @ [newline]) = Hex v"
proof -
  have s: "is_space newline" by (simp add: is_space_def)
  have d: "dropWhile is_space w = w" if "\<forall>c \<in> set w. \<not> is_space c" for w
    using that by (cases w) simp_all
  show ?thesis
  proof (cases "v = []")
    case True
    with s show ?thesis by (simp add: Hex_def trim_space_def trim_by_def)
  next
    case False
    then obtain c w where cw: "Hex v = c # w" by (cases "Hex v") simp_all
    have "\<not> is_space c" using hex_not_space [of c v] cw by simp
    then have "dropWhile is_space (Hex v @ [newline]) = Hex v @ [newline]" by (simp add: cw)
    moreover have "dropWhile is_space (rev (Hex v)) = rev (Hex v)"
      by (rule d) (simp add: hex_not_space)
    ultimately show ?thesis using s by (simp add: trim_space_def trim_by_def)
  qed
qed

lemma readRef_iff:
  assumes "refs_ok s"
  shows "readRef s n = Inr v \<longleftrightarrow> contents (rs_refs s) n = Some (Hex v @ [newline]) \<and> valid_hash (Some v)"
proof
  assume "readRef s n = Inr v"
  then obtain b where b: "fs_read (rs_refs s) n = Inr b" "ParseHex (trim_space b) = Inr v"
    by (auto simp: readRef_def split: sum.splits oserr.splits)
  from b(1) assms obtain w where w: "b = Hex w @ [newline]" "valid_hash (Some w)"
    by (auto simp: refs_ok_def fs_read_Inr)
  then have "ParseHex (Hex w) = Inr v" using b(2) by (simp add: trim_space_Hex)
  moreover have "ParseHex (Hex w) = Inr w" using w(2) ParseHex_Hex by (auto simp: valid_hash_def)
  ultimately have "w = v" by simp
  with w b(1) show "contents (rs_refs s) n = Some (Hex v @ [newline]) \<and> valid_hash (Some v)"
    by (simp add: fs_read_Inr)
next
  assume a: "contents (rs_refs s) n = Some (Hex v @ [newline]) \<and> valid_hash (Some v)"
  then have "fs_read (rs_refs s) n = Inr (Hex v @ [newline])" by (simp add: fs_read_Inr)
  then show "readRef s n = Inr v"
    using a by (auto simp: readRef_def trim_space_Hex valid_hash_def ParseHex_Hex)
qed

lemma current_iff:
  "refs_ok s \<Longrightarrow> current s n = Some v \<longleftrightarrow> contents (rs_refs s) n = Some (Hex v @ [newline]) \<and> valid_hash (Some v)"
  by (simp add: readRef_iff [symmetric] current_def split: sum.splits)

lemma current_None: "refs_ok s \<Longrightarrow> current s n = None \<longleftrightarrow> contents (rs_refs s) n = None"
  by (metis current_iff not_None_eq refs_ok_ref)

lemma readRef_current: "readRef s n = Inr v \<Longrightarrow> current s n = Some v"
  by (simp add: current_def)

lemma ReadLog_text:
  assumes "refs_ok s" "ValidName n = Inr ()" "contents (rs_logs s) n = Some (concat (map formatLogLine es))"
    "\<forall>e \<in> set es. wf_log_entry e"
  shows "ReadLog s n = Inr (map read_entry es)"
  using assms by (simp add: ReadLog_def fs_read_Inr [symmetric] scan_formatted)

subsection \<open>Appending to a log\<close>

lemma appendLog_ok:
  assumes ok: "refs_ok s" and v: "ValidName n = Inr ()"
    and e: "wf_log_entry \<lparr>l_old = old, l_new = new, l_ns = now, l_actor = actor, l_message = msg\<rparr>"
    and run: "appendLog s now n old new actor msg = (Inr (), s')"
  shows "refs_ok s'" and "rs_refs s' = rs_refs s"
    and "log_of s' n = log_of s n @ [read_entry \<lparr>l_old = old, l_new = new, l_ns = now, l_actor = actor, l_message = msg\<rparr>]"
    and "m \<noteq> n \<Longrightarrow> contents (rs_logs s') m = contents (rs_logs s) m"
proof -
  let ?e = "\<lparr>l_old = old, l_new = new, l_ns = now, l_actor = actor, l_message = msg\<rparr>"
  from run obtain t where t: "fs_append (rs_logs s) n (formatLogLine ?e) = Inr t"
    and s': "s' = s\<lparr>rs_logs := t\<rparr>"
    by (auto simp: appendLog_def Let_def split: sum.splits)
  have wf: "wf_ftree (rs_logs s)" using ok by (simp add: refs_ok_def)
  note c = contents_fs_append [OF wf t]
  obtain es where es: "(case contents (rs_logs s) n of None \<Rightarrow> [] | Some b \<Rightarrow> b) = concat (map formatLogLine es)"
    "\<forall>e \<in> set es. wf_log_entry e"
    using ok by (rule refs_ok_log)
  have cn: "contents t n = Some (concat (map formatLogLine (es @ [?e])))"
    using es(1) by (simp add: c)
  have all: "\<forall>x \<in> set (es @ [?e]). wf_log_entry x" using es(2) e by simp
  show "rs_refs s' = rs_refs s" by (simp add: s')
  show oth: "m \<noteq> n \<Longrightarrow> contents (rs_logs s') m = contents (rs_logs s) m" for m
    by (simp add: s' c)
  show ok': "refs_ok s'"
    unfolding refs_ok_def
  proof (intro conjI allI impI)
    show "wf_ftree (rs_refs s')" using ok by (simp add: s' refs_ok_def)
    show "wf_ftree (rs_logs s')" using wf_fs_append [OF wf t] by (simp add: s')
    show "\<exists>v. b = Hex v @ [newline] \<and> valid_hash (Some v)" if "contents (rs_refs s') m = Some b" for m b
      using ok that by (simp add: s' refs_ok_def)
    show "\<exists>es. b = concat (map formatLogLine es) \<and> (\<forall>e \<in> set es. wf_log_entry e)"
      if "contents (rs_logs s') m = Some b" for m b
    proof (cases "m = n")
      case True
      with that cn have "b = concat (map formatLogLine (es @ [?e]))" by (simp add: s')
      with all show ?thesis by blast
    next
      case False
      with that oth have "contents (rs_logs s) m = Some b" by simp
      with ok show ?thesis unfolding refs_ok_def by blast
    qed
  qed
  have new: "ReadLog s' n = Inr (map read_entry (es @ [?e]))"
    using cn by (intro ReadLog_text [OF ok' v _ all]) (simp add: s')
  have "log_of s n = map read_entry es"
  proof (cases "contents (rs_logs s) n")
    case None
    with es(1) have "es = []"
      by (cases es) (simp_all add: formatLogLine_line)
    have "\<exists>e. fs_read (rs_logs s) n = Inl e" using None contents_None by blast
    then show ?thesis using v \<open>es = []\<close>
      by (auto simp: log_of_def ReadLog_def split: oserr.splits)
  next
    case (Some b)
    with es ReadLog_text [OF ok v _ es(2)] show ?thesis by (simp add: log_of_def)
  qed
  with new show "log_of s' n = log_of s n @ [read_entry ?e]" by (simp add: log_of_def)
qed

subsection \<open>Moving a ref\<close>

lemma refs_ok_set_refs:
  assumes "refs_ok s" "wf_ftree t"
    "\<And>m b. contents t m = Some b \<Longrightarrow> \<exists>v. b = Hex v @ [newline] \<and> valid_hash (Some v)"
  shows "refs_ok (s\<lparr>rs_refs := t\<rparr>)"
  using assms unfolding refs_ok_def by simp

lemma current_eqI:
  assumes "refs_ok s" "refs_ok s1" "contents (rs_refs s1) m = contents (rs_refs s) m"
  shows "current s1 m = current s m"
  by (metis assms current_None current_iff not_None_eq)

lemma remove_ref:
  fixes n :: string
  assumes "refs_ok s"
  defines "s1 \<equiv> s\<lparr>rs_refs := fs_remove (rs_refs s) n\<rparr>"
  shows "refs_ok s1" and "current s1 = (current s)(n := None)" and "rs_logs s1 = rs_logs s"
proof -
  have wf: "wf_ftree (rs_refs s)" using assms by (simp add: refs_ok_def)
  note c = contents_fs_remove [OF wf, of n]
  show ok: "refs_ok s1" unfolding s1_def
    by (rule refs_ok_set_refs [OF assms(1) wf_fs_remove [OF wf]])
      (auto simp: c split: if_splits elim: refs_ok_ref [OF assms(1)])
  show "current s1 = (current s)(n := None)"
  proof
    fix m
    show "current s1 m = ((current s)(n := None)) m"
      using current_None [OF ok, of m] current_eqI [OF assms(1) ok, of m]
      by (cases "m = n") (simp_all add: s1_def c)
  qed
  show "rs_logs s1 = rs_logs s" by (simp add: s1_def)
qed

lemma writeRef_ok:
  assumes "refs_ok s" "writeRef s n v = Inr s1" "valid_hash (Some v)"
  shows "refs_ok s1" and "current s1 = (current s)(n \<mapsto> v)" and "rs_logs s1 = rs_logs s"
proof -
  from assms(2) obtain t where t: "fs_write (rs_refs s) n (Hex v @ [newline]) = Inr t"
    and s1: "s1 = s\<lparr>rs_refs := t\<rparr>"
    by (auto simp: writeRef_def split: sum.splits)
  have wf: "wf_ftree (rs_refs s)" using assms by (simp add: refs_ok_def)
  note c = contents_fs_write [OF wf t]
  show ok: "refs_ok s1" unfolding s1
    by (rule refs_ok_set_refs [OF assms(1) wf_fs_write [OF wf t]])
      (use assms(3) in \<open>auto simp: c split: if_splits elim: refs_ok_ref [OF assms(1)]\<close>)
  show "current s1 = (current s)(n \<mapsto> v)"
  proof
    fix m
    show "current s1 m = ((current s)(n \<mapsto> v)) m"
      using current_iff [OF ok, of n v] current_eqI [OF assms(1) ok, of m] assms(3)
      by (cases "m = n") (simp_all add: s1 c)
  qed
  show "rs_logs s1 = rs_logs s" by (simp add: s1)
qed

text \<open>The state between the move of the ref and the log entry that records it.\<close>

definition moved :: "refstate \<Rightarrow> string \<Rightarrow> multihash option \<Rightarrow> goerr + refstate" where
  "moved s name newval =
     (case newval of
        None \<Rightarrow> Inr (s\<lparr>rs_refs := fs_remove (rs_refs s) name\<rparr>)
      | Some nv \<Rightarrow> rbind (mh_decode nv) (\<lambda>_. writeRef s name nv))"

lemma moved_ok:
  assumes "refs_ok s" "moved s n newval = Inr s1"
  shows "refs_ok s1" and "current s1 = (current s)(n := newval)" and "rs_logs s1 = rs_logs s"
    and "valid_hash newval"
proof -
  have "refs_ok s1 \<and> current s1 = (current s)(n := newval) \<and> rs_logs s1 = rs_logs s \<and> valid_hash newval"
  proof (cases newval)
    case None
    then show ?thesis using assms remove_ref [OF assms(1), of n] by (auto simp: moved_def valid_hash_def)
  next
    case (Some nv)
    with assms(2) obtain cd where "mh_decode nv = Inr cd" "writeRef s n nv = Inr s1"
      by (auto simp: moved_def result_iffs)
    with Some writeRef_ok [OF assms(1), of n nv s1] show ?thesis by (auto simp: valid_hash_def)
  qed
  then show "refs_ok s1" "current s1 = (current s)(n := newval)" "rs_logs s1 = rs_logs s" "valid_hash newval"
    by simp_all
qed

lemma is_err_RefNotExist: "is_err RefNotExist e \<longleftrightarrow> (\<exists>m. e = Sentinel RefNotExist m)"
  by (cases e) auto

lemma CompareAndSwap_eq:
  "CompareAndSwap s now name oldval newval actor msg =
     (case ValidName name of
        Inl e \<Rightarrow> (Inl e, s)
      | Inr _ \<Rightarrow>
         (case readRef s name of
            Inl e \<Rightarrow> if \<not> is_err RefNotExist e then (Inl e, s)
                     else if oldval \<noteq> None then (Inl (Sentinel RefConflict ''found absent''), s)
                     else (case moved s name newval of Inl e \<Rightarrow> (Inl e, s)
                           | Inr s1 \<Rightarrow> appendLog s1 now name oldval newval actor msg)
          | Inr cur \<Rightarrow>
              (case oldval of
                 None \<Rightarrow> (Inl (Sentinel RefConflict ''expected absent''), s)
               | Some old \<Rightarrow>
                   if cur \<noteq> old then (Inl (Sentinel RefConflict ''found other value''), s)
                   else (case moved s name newval of Inl e \<Rightarrow> (Inl e, s)
                         | Inr s1 \<Rightarrow> appendLog s1 now name oldval newval actor msg))))"
proof -
  have "(case newval of
         None \<Rightarrow> appendLog (s\<lparr>rs_refs := fs_remove (rs_refs s) name\<rparr>) now name oldval newval actor msg
       | Some nv \<Rightarrow>
          (case mh_decode nv of
             Inl e \<Rightarrow> (Inl e, s)
           | Inr _ \<Rightarrow>
              (case writeRef s name nv of
                 Inl e \<Rightarrow> (Inl e, s)
               | Inr s' \<Rightarrow> appendLog s' now name oldval newval actor msg)))
     = (case moved s name newval of Inl e \<Rightarrow> (Inl e, s)
         | Inr s1 \<Rightarrow> appendLog s1 now name oldval newval actor msg)"
    by (simp add: moved_def rbind_def split: option.split sum.split)
  then show ?thesis unfolding CompareAndSwap_def Let_def Equal_iff by (simp only: refl)
qed

text \<open>The request a compare-and-swap acts on, and the entry it logs.\<close>

record cas_op =
  co_name :: string
  co_old :: "multihash option"
  co_new :: "multihash option"
  co_now :: i64
  co_actor :: string
  co_msg :: string

definition cas :: "refstate \<Rightarrow> cas_op \<Rightarrow> (goerr + unit) \<times> refstate" where
  "cas s c = CompareAndSwap s (co_now c) (co_name c) (co_old c) (co_new c) (co_actor c) (co_msg c)"

definition op_entry :: "cas_op \<Rightarrow> log_entry" where
  "op_entry c = \<lparr>l_old = co_old c, l_new = co_new c, l_ns = co_now c, l_actor = co_actor c, l_message = co_msg c\<rparr>"

definition loggable :: "cas_op \<Rightarrow> bool" where
  "loggable c \<longleftrightarrow> length (log_line (op_entry c)) < max_token"

text \<open>No other failure can be mistaken for a conflict.\<close>

lemma not_conflict:
  "ValidName n = Inl e \<Longrightarrow> \<not> is_err RefConflict e"
  "readRef s n = Inl e \<Longrightarrow> \<not> is_err RefConflict e"
  "moved s n v = Inl e \<Longrightarrow> \<not> is_err RefConflict e"
  "appendLog s now n old new actor msg = (Inl e, s') \<Longrightarrow> \<not> is_err RefConflict e"
proof -
  have m: "mh_decode v = Inl e \<Longrightarrow> \<not> is_err RefConflict e" for v
    by (cases e) (auto dest: mh_decode_err)
  have p: "ParseHex t = Inl e \<Longrightarrow> \<not> is_err RefConflict e" for t
    by (auto simp: ParseHex_def split: sum.splits dest: m)
  show "ValidName n = Inl e \<Longrightarrow> \<not> is_err RefConflict e"
    by (auto simp: ValidName_def split: if_splits)
  show "readRef s n = Inl e \<Longrightarrow> \<not> is_err RefConflict e"
    by (auto simp: readRef_def split: sum.splits oserr.splits dest: p)
  show "moved s n v = Inl e \<Longrightarrow> \<not> is_err RefConflict e"
    by (auto simp: moved_def writeRef_def result_iffs split: sum.splits option.splits dest: m)
  show "appendLog s now n old new actor msg = (Inl e, s') \<Longrightarrow> \<not> is_err RefConflict e"
    by (auto simp: appendLog_def Let_def split: sum.splits)
qed

lemma cas_cases:
  assumes "cas s c = (r, s')"
  obtains (kept) e where "s' = s" "r = Inl e"
      "ValidName (co_name c) = Inl e \<or> (readRef s (co_name c) = Inl e \<and> \<not> is_err RefNotExist e)
        \<or> (is_err RefConflict e \<and> current s (co_name c) \<noteq> co_old c) \<or> moved s (co_name c) (co_new c) = Inl e"
    | (moved) s1 where "ValidName (co_name c) = Inr ()" "current s (co_name c) = co_old c"
      "moved s (co_name c) (co_new c) = Inr s1"
      "appendLog s1 (co_now c) (co_name c) (co_old c) (co_new c) (co_actor c) (co_msg c) = (r, s')"
proof (cases "ValidName (co_name c)")
  case (Inl e)
  with assms show ?thesis by (intro kept [of e]) (auto simp: cas_def CompareAndSwap_eq)
next
  case (Inr u)
  with assms kept moved show ?thesis
    by (auto simp: cas_def CompareAndSwap_eq current_def split: sum.splits option.splits if_splits)
qed

lemma valid_current: "refs_ok s \<Longrightarrow> current s n = m \<Longrightarrow> valid_hash m"
  using current_iff [of s n] by (cases m) (auto simp: valid_hash_def)

lemma cas_success:
  assumes ok: "refs_ok s" and l: "loggable c" and run: "cas s c = (Inr (), s')"
  shows "refs_ok s'" "current s (co_name c) = co_old c" "current s' = (current s)(co_name c := co_new c)"
    and "log_of s' (co_name c) = log_of s (co_name c) @ [read_entry (op_entry c)]"
    and "m \<noteq> co_name c \<Longrightarrow> contents (rs_logs s') m = contents (rs_logs s) m"
    and "ValidName (co_name c) = Inr ()"
proof -
  from run obtain s1 where v: "ValidName (co_name c) = Inr ()" and o: "current s (co_name c) = co_old c"
    and m: "moved s (co_name c) (co_new c) = Inr s1"
    and a: "appendLog s1 (co_now c) (co_name c) (co_old c) (co_new c) (co_actor c) (co_msg c) = (Inr (), s')"
    by (rule cas_cases) auto
  note m1 = moved_ok [OF ok m]
  have "wf_log_entry (op_entry c)"
    using l m1(4) valid_current [OF ok o] by (simp add: wf_log_entry_def loggable_def op_entry_def)
  then have "wf_log_entry \<lparr>l_old = co_old c, l_new = co_new c, l_ns = co_now c, l_actor = co_actor c,
      l_message = co_msg c\<rparr>" by (simp add: op_entry_def)
  note a1 = appendLog_ok [OF m1(1) v this a]
  have "log_of s1 (co_name c) = log_of s (co_name c)"
    by (simp add: log_of_def ReadLog_def m1(3))
  with a1 m1 o v show "refs_ok s'" "current s (co_name c) = co_old c"
    "current s' = (current s)(co_name c := co_new c)"
    "log_of s' (co_name c) = log_of s (co_name c) @ [read_entry (op_entry c)]"
    "m \<noteq> co_name c \<Longrightarrow> contents (rs_logs s') m = contents (rs_logs s) m"
    "ValidName (co_name c) = Inr ()"
    by (simp_all add: op_entry_def) (simp_all add: current_def readRef_def fun_eq_iff)
qed

lemma cas_conflict:
  assumes "cas s c = (Inl e, s')" "is_err RefConflict e"
  shows "s' = s" and "current s (co_name c) \<noteq> co_old c"
  using assms by (auto elim!: cas_cases dest: not_conflict)

section \<open>Histories\<close>

text \<open>
  The contract of a logged compare-and-swap register, and what follows from it for any
  sequence of requests by any number of clients, in the order the lock lets them through:
  the swaps that succeed on one key form a chain, each starting at the value the one
  before left, and the log gains exactly their entries in that order.
\<close>

fun run_ops :: "('s \<Rightarrow> 'op \<Rightarrow> (goerr + unit) \<times> 's) \<Rightarrow> 's \<Rightarrow> 'op list \<Rightarrow> ('op \<times> (goerr + unit)) list \<times> 's" where
  "run_ops step s [] = ([], s)"
| "run_ops step s (c # cs) =
     (let (r, s1) = step s c; (rs, s2) = run_ops step s1 cs in ((c, r) # rs, s2))"

definition done_for :: "('op \<Rightarrow> 'k) \<Rightarrow> 'k \<Rightarrow> ('op \<times> (goerr + unit)) list \<Rightarrow> 'op list" where
  "done_for key k rs = map fst (filter (\<lambda>(c, r). r = Inr () \<and> key c = k) rs)"

fun linked :: "('op \<Rightarrow> 'v) \<Rightarrow> ('op \<Rightarrow> 'v) \<Rightarrow> 'v \<Rightarrow> 'op list \<Rightarrow> 'v \<Rightarrow> bool" where
  "linked old new v [] w = (v = w)"
| "linked old new v (c # cs) w = (old c = v \<and> linked old new (new c) cs w)"

lemma done_for_simps [simp]:
  "done_for key k [] = []"
  "done_for key k ((c, r) # rs) = (if r = Inr () \<and> key c = k then c # done_for key k rs else done_for key k rs)"
  by (simp_all add: done_for_def)

locale logged_register =
  fixes inv :: "'s \<Rightarrow> bool"
    and get :: "'s \<Rightarrow> 'k \<Rightarrow> 'v option"
    and log :: "'s \<Rightarrow> 'k \<Rightarrow> 'l list"
    and step :: "'s \<Rightarrow> 'op \<Rightarrow> (goerr + unit) \<times> 's"
    and key :: "'op \<Rightarrow> 'k"
    and old :: "'op \<Rightarrow> 'v option"
    and new :: "'op \<Rightarrow> 'v option"
    and entry :: "'op \<Rightarrow> 'l"
    and ok :: "'op \<Rightarrow> bool"
  assumes step_success: "inv s \<Longrightarrow> ok c \<Longrightarrow> step s c = (Inr (), s') \<Longrightarrow>
      inv s' \<and> get s (key c) = old c \<and> get s' = (get s)(key c := new c) \<and>
      log s' = (log s)(key c := log s (key c) @ [entry c])"
    and step_conflict: "step s c = (Inl e, s') \<Longrightarrow> is_err RefConflict e \<Longrightarrow> s' = s"
begin

lemma history:
  "run_ops step s cs = (rs, s') \<Longrightarrow> inv s \<Longrightarrow> \<forall>c \<in> set cs. ok c \<Longrightarrow>
   \<forall>(c, r) \<in> set rs. r = Inr () \<or> (\<exists>e. r = Inl e \<and> is_err RefConflict e) \<Longrightarrow>
   inv s' \<and> linked old new (get s k) (done_for key k rs) (get s' k) \<and>
   log s' k = log s k @ map entry (done_for key k rs)"
proof (induction cs arbitrary: s rs)
  case Nil
  then show ?case by simp
next
  case (Cons c cs)
  obtain r s1 where st: "step s c = (r, s1)" by (cases "step s c")
  obtain rs' s2 where run: "run_ops step s1 cs = (rs', s2)" by (cases "run_ops step s1 cs")
  from Cons.prems(1) st run have rs: "rs = (c, r) # rs'" and s2: "s2 = s'" by auto
  consider "r = Inr ()" | e where "r = Inl e" "is_err RefConflict e"
    using Cons.prems(4) rs by auto
  then show ?case
  proof cases
    case 1
    from step_success [OF Cons.prems(2) _ st [unfolded 1]] Cons.prems(3)
    have s1: "inv s1" "get s (key c) = old c" "get s1 = (get s)(key c := new c)"
      "log s1 = (log s)(key c := log s (key c) @ [entry c])" by auto
    from Cons.IH [OF run [unfolded s2] s1(1)] Cons.prems(3,4) rs 1 s1 show ?thesis by auto
  next
    case 2
    then have "s1 = s" using step_conflict st by blast
    with Cons.IH [OF run [unfolded s2]] Cons.prems rs 2 show ?thesis by auto
  qed
qed

end

lemma log_of_contents:
  "log_of s n = (case contents (rs_logs s) n of
      Some text \<Rightarrow> if ValidName n = Inr () then (case scan_log (raw_lines text) of Inl _ \<Rightarrow> [] | Inr es \<Rightarrow> es) else []
    | None \<Rightarrow> [])"
  by (auto simp: log_of_def ReadLog_def contents_def rbind_def split: sum.splits oserr.splits)

interpretation refs: logged_register refs_ok current log_of cas co_name co_old co_new
  "\<lambda>c. read_entry (op_entry c)" loggable
proof
  fix s c s'
  assume "refs_ok s" "loggable c" "cas s c = (Inr (), s')"
  note r = cas_success [OF this]
  have "log_of s' m = log_of s m" if "m \<noteq> co_name c" for m
    using r(5) [OF that] by (simp add: log_of_contents)
  with r show "refs_ok s' \<and> current s (co_name c) = co_old c \<and> current s' = (current s)(co_name c := co_new c) \<and>
      log_of s' = (log_of s)(co_name c := log_of s (co_name c) @ [read_entry (op_entry c)])"
    by (auto simp: fun_eq_iff)
qed (rule cas_conflict(1))

section \<open>Expiry\<close>

lemma sanitizeActor_idem [simp]: "sanitizeActor (sanitizeActor a) = sanitizeActor a"
  by (auto simp: sanitizeActor_def replace_char_def comp_def Let_def)

lemma read_entry_wf:
  assumes "wf_log_entry e"
  shows "wf_log_entry (read_entry e)"
proof -
  have m: "length (sanitizeMessage (drop_cr (sanitizeMessage (l_message e)))) \<le> length (sanitizeMessage (l_message e))"
    by (simp add: sanitizeMessage_def replace_char_def drop_cr_def)
  have "length (log_line (read_entry e)) \<le> length (log_line e)"
    using m by (simp add: read_entry_def log_line_def)
  then show ?thesis using assms by (simp add: wf_log_entry_def read_entry_def)
qed

lemma keep_entries_subset: "set (keep_entries keepMax cutoff es) \<subseteq> set es"
  by (auto simp: keep_entries_def Let_def in_set_enumerate_eq)

lemma keep_entries_young:
  assumes "e \<in> set es" "sint cutoff \<le> sint (l_ns e)"
  shows "e \<in> set (keep_entries keepMax cutoff es)"
proof -
  from assms(1) obtain i where "i < length es" "es ! i = e" by (auto simp: in_set_conv_nth)
  then have "(i, e) \<in> set (enumerate 0 es)" by (simp add: in_set_enumerate_eq)
  with assms(2) show ?thesis unfolding keep_entries_def Let_def by force
qed

lemma length_keep_entries: "length (keep_entries keepMax cutoff es) \<le> length es"
  unfolding keep_entries_def Let_def
  by (metis length_enumerate length_filter_le length_map)

text \<open>The newest entries are kept as a block.\<close>

lemma filter_enumerate_all:
  "(\<And>i e. i \<ge> k \<Longrightarrow> P (i, e)) \<Longrightarrow> k \<le> n \<Longrightarrow> map snd (filter P (enumerate n xs)) = xs"
  by (induction xs arbitrary: n) simp_all

lemma keep_entries_suffix:
  assumes "0 < keepMax"
  shows "\<exists>pre. keep_entries keepMax cutoff es = pre @ drop (length es - nat keepMax) es"
proof -
  let ?P = "\<lambda>(i, e). (keepMax > 0 \<and> int i \<ge> int (length es) - keepMax) \<or> sint (l_ns e) \<ge> sint cutoff"
  let ?k = "length es - nat keepMax"
  have "enumerate 0 es = enumerate 0 (take ?k es) @ enumerate ?k (drop ?k es)"
  proof -
    have "enumerate 0 (take ?k es @ drop ?k es)
        = enumerate 0 (take ?k es) @ enumerate (0 + length (take ?k es)) (drop ?k es)"
      by (rule enumerate_append_eq)
    then show ?thesis by simp
  qed
  moreover have "map snd (filter ?P (enumerate ?k (drop ?k es))) = drop ?k es"
    by (rule filter_enumerate_all [of ?k]) (use assms in auto)
  ultimately show ?thesis by (simp add: keep_entries_def)
qed

lemma ReadLog_entries:
  assumes "refs_ok s" "ReadLog s n = Inr es"
  obtains (absent) "es = []" "contents (rs_logs s) n = None"
    | (present) es0 where "es = map read_entry es0" "\<forall>e \<in> set es0. wf_log_entry e"
        "contents (rs_logs s) n = Some (concat (map formatLogLine es0))"
proof (cases "contents (rs_logs s) n")
  case None
  then have "\<exists>e. fs_read (rs_logs s) n = Inl e" by (simp add: contents_None)
  with assms(2) None absent show ?thesis
    by (auto simp: ReadLog_def result_iffs split: oserr.splits)
next
  case (Some b)
  with assms(1) obtain es0 where es0: "b = concat (map formatLogLine es0)" "\<forall>e \<in> set es0. wf_log_entry e"
    unfolding refs_ok_def by blast
  have "ValidName n = Inr ()" using assms(2) by (auto simp: ReadLog_def result_iffs)
  from ReadLog_text [OF assms(1) this _ es0(2)] Some es0 assms(2) present show ?thesis by simp
qed

lemma ExpireLog_ok:
  fixes keepMax :: int and cutoff :: i64
  assumes ok: "refs_ok s" and rd: "ReadLog s n = Inr es"
  defines "kept \<equiv> keep_entries keepMax cutoff es"
  obtains s' where "ExpireLog s n keepMax cutoff = (Inr (length es - length kept), s')"
    "refs_ok s'" "rs_refs s' = rs_refs s"
    "ReadLog s' n = Inr (if length kept = length es then es else map read_entry kept)"
    "\<And>m. m \<noteq> n \<Longrightarrow> contents (rs_logs s') m = contents (rs_logs s) m"
proof (cases "length kept = length es")
  case True
  with rd ok show ?thesis
    by (intro that [of s]) (simp_all add: ExpireLog_def kept_def)
next
  case False
  then have l: "length kept < length es"
    using length_keep_entries [of keepMax cutoff es] by (simp add: kept_def)
  have wf: "wf_ftree (rs_logs s)" using ok by (simp add: refs_ok_def)
  have v: "ValidName n = Inr ()" using rd by (auto simp: ReadLog_def result_iffs)
  from ok rd l obtain es0 where es0: "es = map read_entry es0" "\<forall>e \<in> set es0. wf_log_entry e"
    "contents (rs_logs s) n = Some (concat (map formatLogLine es0))"
    by (cases rule: ReadLog_entries) auto
  have keptwf: "\<forall>e \<in> set kept. wf_log_entry e"
    using keep_entries_subset [of keepMax cutoff es] es0 read_entry_wf by (auto simp: kept_def)
  have keep: "refs_ok (s\<lparr>rs_logs := t\<rparr>)" if "wf_ftree t"
    and other: "\<And>m. m \<noteq> n \<Longrightarrow> contents t m = contents (rs_logs s) m"
    and at_n: "contents t n = None \<or> contents t n = Some (concat (map formatLogLine kept))" for t
    unfolding refs_ok_def
  proof (intro conjI allI impI)
    show "\<exists>es. b = concat (map formatLogLine es) \<and> (\<forall>e \<in> set es. wf_log_entry e)"
      if "contents (rs_logs (s\<lparr>rs_logs := t\<rparr>)) m = Some b" for m b
      using that other at_n keptwf ok
      unfolding refs_ok_def by (cases "m = n") auto
  qed (use ok that in \<open>auto simp: refs_ok_def\<close>)
  show ?thesis
  proof (cases "kept = []")
    case True
    let ?t = "fs_remove (rs_logs s) n"
    have c: "contents ?t = (contents (rs_logs s))(n := None)" by (rule contents_fs_remove [OF wf])
    have "fs_read ?t n = Inl ENOENT"
      using es0(3) by (auto simp: contents_def fs_read_def fs_remove_def is_file_def delete_conv'
          list_ex_iff split: if_splits)
    then show ?thesis
      using True l rd v c keep [OF wf_fs_remove [OF wf]]
      by (intro that [of "s\<lparr>rs_logs := ?t\<rparr>"]) (auto simp: ExpireLog_def kept_def [symmetric] ReadLog_def)
  next
    case False
    obtain t where t: "fs_write (rs_logs s) n (concat (map formatLogLine kept)) = Inr t"
      using fs_write_ok [OF es0(3)] by blast
    note c = contents_fs_write [OF wf t]
    have ok': "refs_ok (s\<lparr>rs_logs := t\<rparr>)"
      by (rule keep [OF wf_fs_write [OF wf t]]) (simp_all add: c)
    have "ReadLog (s\<lparr>rs_logs := t\<rparr>) n = Inr (map read_entry kept)"
      by (rule ReadLog_text [OF ok' v _ keptwf]) (simp add: c)
    then show ?thesis
      using False l rd t c ok'
      by (intro that [of "s\<lparr>rs_logs := t\<rparr>"]) (auto simp: ExpireLog_def kept_def [symmetric] Let_def)
  qed
qed

section \<open>When a swap goes through\<close>

definition clear :: "ftree \<Rightarrow> string \<Rightarrow> bool" where
  "clear t n \<longleftrightarrow> \<not> list_ex (is_file t) (path_parents n) \<and> n \<notin> ft_dirs t"

lemma clear_write: "clear t n \<Longrightarrow> \<exists>t'. fs_write t n c = Inr t'" "clear t n \<Longrightarrow> \<exists>t'. fs_append t n c = Inr t'"
  by (simp_all add: clear_def fs_write_def fs_append_def)

lemma clear_moved:
  assumes "clear (rs_refs s) n" "valid_hash v"
  shows "\<exists>s1. moved s n v = Inr s1"
proof (cases v)
  case None
  then show ?thesis by (simp add: moved_def)
next
  case (Some h)
  obtain t where "fs_write (rs_refs s) n (Hex h @ [newline]) = Inr t"
    using clear_write(1) [OF assms(1)] by blast
  then show ?thesis using assms(2) Some by (auto simp: moved_def writeRef_def valid_hash_def)
qed

lemma clear_readRef:
  assumes "clear (rs_refs s) n" "refs_ok s"
  shows "readRef s n = (case current s n of None \<Rightarrow> Inl (Sentinel RefNotExist []) | Some v \<Rightarrow> Inr v)"
proof (cases "contents (rs_refs s) n")
  case None
  then have "current s n = None" using assms(2) by (simp add: current_None)
  moreover have "fs_read (rs_refs s) n = Inl ENOENT"
    using assms(1) None by (auto simp: clear_def fs_read_def contents_def split: option.splits)
  ultimately show ?thesis by (simp add: readRef_def)
next
  case (Some b)
  then obtain v where "b = Hex v @ [newline]" "valid_hash (Some v)" using refs_ok_ref [OF assms(2)] by blast
  with Some readRef_iff [OF assms(2), of n v] show ?thesis by (simp add: current_def)
qed

lemma cas_complete:
  assumes ok: "refs_ok s" and v: "ValidName (co_name c) = Inr ()" and new: "valid_hash (co_new c)"
    and cl: "clear (rs_refs s) (co_name c)" "clear (rs_logs s) (co_name c)"
  shows "if current s (co_name c) = co_old c then \<exists>s'. cas s c = (Inr (), s')
     else \<exists>e. cas s c = (Inl e, s) \<and> is_err RefConflict e"
proof -
  obtain s1 where m: "moved s (co_name c) (co_new c) = Inr s1"
    using clear_moved [OF cl(1) new] by blast
  have "rs_logs s1 = rs_logs s" using moved_ok(3) [OF ok m] .
  moreover obtain t where "fs_append (rs_logs s) (co_name c) (formatLogLine (op_entry c)) = Inr t"
    using clear_write(2) [OF cl(2)] by blast
  ultimately obtain s' where "appendLog s1 (co_now c) (co_name c) (co_old c) (co_new c) (co_actor c) (co_msg c) = (Inr (), s')"
    by (simp add: appendLog_def Let_def op_entry_def)
  with m v show ?thesis
    by (auto simp: cas_def CompareAndSwap_eq clear_readRef [OF cl(1) ok] split: option.splits)
qed

section \<open>A store with one log\<close>

definition one_log :: "string \<Rightarrow> log_entry list \<Rightarrow> refstate" where
  "one_log n es = \<lparr>rs_refs = empty_ftree,
     rs_logs = \<lparr>ft_files = [(n, concat (map formatLogLine es))], ft_dirs = {}\<rparr>\<rparr>"

lemma one_log_ok:
  assumes "CHR ''/'' \<notin> set n" "\<forall>e \<in> set es. wf_log_entry e"
  shows "refs_ok (one_log n es)"
    and "contents (rs_logs (one_log n es)) m = (if m = n then Some (concat (map formatLogLine es)) else None)"
    and "contents (rs_refs (one_log n es)) m = None"
    and "ValidName n = Inr () \<Longrightarrow> ReadLog (one_log n es) n = Inr (map read_entry es)"
proof -
  let ?l = "\<lparr>ft_files = [(n, concat (map formatLogLine es))], ft_dirs = {}\<rparr>"
  have wl: "wf_ftree ?l"
    using assms(1) by (auto simp: wf_ftree_def is_file_def path_parents_def split_on_single split: if_splits)
  have cl: "contents ?l k = (if k = n then Some (concat (map formatLogLine es)) else None)" for k
    by (subst contents_file [OF wl]) simp
  show c: "contents (rs_logs (one_log n es)) m = (if m = n then Some (concat (map formatLogLine es)) else None)" for m
    unfolding one_log_def refstate.simps by (rule cl)
  show "contents (rs_refs (one_log n es)) m = None" by (simp add: one_log_def)
  show ok: "refs_ok (one_log n es)"
    unfolding refs_ok_def
  proof (intro conjI allI impI)
    show "\<exists>es. b = concat (map formatLogLine es) \<and> (\<forall>e \<in> set es. wf_log_entry e)"
      if "contents (rs_logs (one_log n es)) k = Some b" for k b
      using that assms(2) unfolding c by (auto split: if_splits)
  qed (use wl in \<open>simp_all add: one_log_def\<close>)
  show "ReadLog (one_log n es) n = Inr (map read_entry es)" if "ValidName n = Inr ()"
    using that c assms(2) by (intro ReadLog_text [OF ok]) simp_all
qed

section \<open>Properties\<close>

text \<open>C3. Compare-and-swap decides exactly by the current value: on a consistent store, for a
  valid name that does not clash with another ref or log and a well-formed new value, it
  succeeds if the ref has the expected value (absence included) and otherwise answers
  ErrConflict without touching the store.\<close>

theorem cas_decides:
  fixes c :: cas_op
  assumes "refs_ok s" and "ValidName (co_name c) = Inr ()" and "valid_hash (co_new c)"
    and "clear (rs_refs s) (co_name c)" and "clear (rs_logs s) (co_name c)"
  shows "if current s (co_name c) = co_old c
     then \<exists>s'. CompareAndSwap s (co_now c) (co_name c) (co_old c) (co_new c) (co_actor c) (co_msg c) = (Inr (), s')
     else \<exists>e. CompareAndSwap s (co_now c) (co_name c) (co_old c) (co_new c) (co_actor c) (co_msg c) = (Inl e, s)
       \<and> is_err RefConflict e"
  using cas_complete [OF assms, unfolded cas_def] .

lemma small_hash: "mh_decode [0x12, 1, x] = Inr (0x12, [x])"
  by (simp add: mh_decode_def mh_readUvarint_def readUvarint_def)

theorem cas_decides_witness:
  "\<exists>s'. CompareAndSwap empty_refs 1 ''refs/heads/main'' None (Some [0x12, 1, 5]) ''a'' ''m'' = (Inr (), s')"
proof -
  let ?c = "\<lparr>co_name = ''refs/heads/main'', co_old = None, co_new = Some [0x12, 1, 5], co_now = 1,
     co_actor = ''a'', co_msg = ''m''\<rparr>"
  have "ValidName (co_name ?c) = Inr ()"
    by (simp add: ValidName_def has_prefix_def has_suffix_def)
  moreover have "valid_hash (co_new ?c)" by (simp add: valid_hash_def small_hash)
  moreover have "clear (rs_refs empty_refs) (co_name ?c)" "clear (rs_logs empty_refs) (co_name ?c)"
    by (simp_all add: clear_def empty_refs_def empty_ftree_def is_file_def list_ex_iff)
  moreover have "current empty_refs (co_name ?c) = co_old ?c"
    by (simp add: current_None) (simp add: empty_refs_def)
  ultimately show ?thesis using cas_decides [of empty_refs ?c] by simp
qed

text \<open>C4. The reflog is the history: for any interleaving of compare-and-swap requests whose
  failures are conflicts, the swaps that succeeded on a ref form a chain, each expecting
  the value the one before it left, from the ref's first value to its last, and the
  ref's log has grown by exactly their entries in that order.\<close>

theorem reflog_is_history:
  assumes "run_ops cas s cs = (rs, s')" and "refs_ok s" and "\<forall>c \<in> set cs. loggable c"
    and "\<forall>(c, r) \<in> set rs. r = Inr () \<or> (\<exists>e. r = Inl e \<and> is_err RefConflict e)"
  shows "refs_ok s' \<and>
     linked co_old co_new (current s k) (done_for co_name k rs) (current s' k) \<and>
     log_of s' k = log_of s k @ map (\<lambda>c. read_entry (op_entry c)) (done_for co_name k rs)"
  by (rule refs.history [OF assms])

theorem reflog_is_history_witness:
  "let c = \<lparr>co_name = ''main'', co_old = None, co_new = Some [0x12, 1, 5], co_now = 1,
       co_actor = ''a'', co_msg = ''m''\<rparr>;
     (rs, s') = run_ops cas empty_refs [c]
   in current s' ''main'' = Some [0x12, 1, 5] \<and> log_of s' ''main'' = [op_entry c]"
proof -
  let ?c = "\<lparr>co_name = ''main'', co_old = None, co_new = Some [0x12, 1, 5], co_now = 1,
     co_actor = ''a'', co_msg = ''m''\<rparr>"
  have "ValidName (co_name ?c) = Inr ()" by (simp add: ValidName_def has_prefix_def has_suffix_def)
  moreover have "valid_hash (co_new ?c)" by (simp add: valid_hash_def small_hash)
  moreover have "clear (rs_refs empty_refs) (co_name ?c)" "clear (rs_logs empty_refs) (co_name ?c)"
    by (simp_all add: clear_def empty_refs_def empty_ftree_def is_file_def list_ex_iff)
  moreover have cur: "current empty_refs n = None" for n
    by (simp add: current_None) (simp add: empty_refs_def)
  ultimately obtain s' where run: "cas empty_refs ?c = (Inr (), s')"
    using cas_complete [of empty_refs ?c] by auto
  have "loggable ?c"
    by (simp add: loggable_def log_line_def op_entry_def hexOrZero_def Hex_def sanitizeActor_def
        sanitizeMessage_def replace_char_def FormatInt_def digits_of_small max_token_def)
  then have "\<forall>c \<in> set [?c]. loggable c" by simp
  from reflog_is_history [of empty_refs "[?c]" "[(?c, Inr ())]" s' "''main''", OF _ _ this]
  have "linked co_old co_new None [?c] (current s' ''main'') \<and>
      log_of s' ''main'' = log_of empty_refs ''main'' @ [read_entry (op_entry ?c)]"
    using run cur by simp
  moreover have "log_of empty_refs ''main'' = []"
    by (simp add: log_of_contents) (simp add: empty_refs_def)
  moreover have "read_entry (op_entry ?c) = op_entry ?c"
    by (simp add: read_entry_def op_entry_def sanitizeActor_def sanitizeMessage_def replace_char_def drop_cr_def)
  ultimately show ?thesis using run by simp
qed

text \<open>A move can go unrecorded: when a log of some other ref occupies a parent of the
  name, a swap whose ref write succeeds reports an error although the ref has moved, and
  no log holds the move. The logs of deleted refs stay, so creating and deleting a ref
  \<^verbatim>\<open>a\<close> is enough to make every later creation of \<^verbatim>\<open>a/b\<close> behave so.\<close>

theorem cas_moves_unrecorded:
  assumes "refs_ok s" and "ValidName n = Inr ()" and "mh_decode v = Inr cd"
    and "current s n = None" and "clear (rs_refs s) n"
    and "list_ex (is_file (rs_logs s)) (path_parents n)"
  shows "\<exists>s'. Create s now n v actor msg = (Inl (Plain ''append log''), s') \<and>
     Resolve s' n = Inr v \<and> rs_logs s' = rs_logs s"
proof -
  have "valid_hash (Some v)" using assms(3) by (simp add: valid_hash_def)
  obtain s1 where m: "moved s n (Some v) = Inr s1"
    using clear_moved [OF assms(5) \<open>valid_hash (Some v)\<close>] by blast
  note m1 = moved_ok [OF assms(1) m]
  have "fs_append (rs_logs s) n t = Inl ENOTDIR" for t
    using assms(6) by (simp add: fs_append_def fs_write_def)
  then have "appendLog s1 now n None (Some v) actor msg = (Inl (Plain ''append log''), s1)"
    using m1(3) by (simp add: appendLog_def Let_def)
  then have "Create s now n v actor msg = (Inl (Plain ''append log''), s1)"
    using assms m by (simp add: Create_def CompareAndSwap_eq clear_readRef)
  moreover have "readRef s1 n = Inr v"
    using m1(2) readRef_iff [OF m1(1), of n v] current_iff [OF m1(1), of n v] by simp
  ultimately show ?thesis using assms(2) m1(3) by (simp add: Resolve_def)
qed

theorem cas_moves_unrecorded_witness:
  "\<exists>s'. Create (empty_refs\<lparr>rs_logs := \<lparr>ft_files = [(''a'', [])], ft_dirs = {}\<rparr>\<rparr>) 3 ''a/b'' [0x12, 1, 5] ''x'' ''m''
      = (Inl (Plain ''append log''), s') \<and> Resolve s' ''a/b'' = Inr [0x12, 1, 5] \<and>
     rs_logs s' = \<lparr>ft_files = [(''a'', [])], ft_dirs = {}\<rparr>"
proof -
  let ?l = "\<lparr>ft_files = [(''a'', [])], ft_dirs = {}\<rparr>"
  let ?s = "empty_refs\<lparr>rs_logs := ?l\<rparr>"
  have wl: "wf_ftree ?l" by (auto simp: wf_ftree_def is_file_def path_parents_def split: if_splits)
  have cl: "contents ?l n = (if n = ''a'' then Some [] else None)" for n
    by (simp add: contents_file [OF wl])
  have "refs_ok ?s" using wl
    by (auto simp: refs_ok_def empty_refs_def cl intro: exI [of _ "[]"])
  moreover have "ValidName ''a/b'' = Inr ()" by (simp add: ValidName_def has_prefix_def has_suffix_def)
  moreover have "clear (rs_refs ?s) ''a/b''"
    by (simp add: clear_def empty_refs_def empty_ftree_def is_file_def list_ex_iff)
  moreover have "list_ex (is_file (rs_logs ?s)) (path_parents ''a/b'')"
    by (simp add: path_parents_def is_file_def upt_rec)
  moreover have "current ?s ''a/b'' = None"
    using \<open>refs_ok ?s\<close> by (simp add: current_None) (simp add: empty_refs_def)
  ultimately show ?thesis
    using cas_moves_unrecorded [of ?s "''a/b''" "[0x12, 1, 5]" _ 3 "''x''" "''m''"] small_hash by simp
qed

text \<open>Expiry loses only what the policy lets go: on a readable log it removes exactly the
  entries outside the window, reports how many, leaves refs and other logs alone, and the
  entries that remain include every entry at or after the cutoff and the newest
  \<^verbatim>\<open>keepMax\<close> entries, in their order.\<close>

theorem expire_keeps_window:
  fixes es :: "log_entry list"
  assumes "refs_ok s" and "ReadLog s n = Inr es" and "0 < keepMax"
    and "\<forall>e \<in> set es. read_entry e = e"
  shows "\<exists>s' kept pre. ExpireLog s n keepMax cutoff = (Inr (length es - length kept), s') \<and>
     ReadLog s' n = Inr kept \<and> rs_refs s' = rs_refs s \<and>
     (\<forall>m. m \<noteq> n \<longrightarrow> contents (rs_logs s') m = contents (rs_logs s) m) \<and>
     kept = pre @ drop (length es - nat keepMax) es \<and> set kept \<subseteq> set es \<and>
     (\<forall>e \<in> set es. sint cutoff \<le> sint (l_ns e) \<longrightarrow> e \<in> set kept)"
proof -
  let ?k = "keep_entries keepMax cutoff es"
  obtain s' where e: "ExpireLog s n keepMax cutoff = (Inr (length es - length ?k), s')"
    "rs_refs s' = rs_refs s" "ReadLog s' n = Inr (if length ?k = length es then es else map read_entry ?k)"
    "\<And>m. m \<noteq> n \<Longrightarrow> contents (rs_logs s') m = contents (rs_logs s) m"
    using ExpireLog_ok [OF assms(1,2)] by metis
  have "map read_entry ?k = ?k"
    using assms(4) keep_entries_subset [of keepMax cutoff es] by (intro map_idI) blast
  moreover have "?k = es" if "length ?k = length es"
    using that unfolding keep_entries_def Let_def
    by (metis (no_types, lifting) length_enumerate length_map length_filter_less linorder_neq_iff
        filter_id_conv map_snd_enumerate)
  ultimately have "ReadLog s' n = Inr ?k" using e(3) by (simp split: if_splits)
  with e keep_entries_suffix [OF assms(3), of cutoff es] keep_entries_subset keep_entries_young
  show ?thesis by blast
qed

theorem expire_keeps_window_witness:
  "let e1 = \<lparr>l_old = None, l_new = None, l_ns = 1, l_actor = ''a'', l_message = ''x''\<rparr>;
       e2 = \<lparr>l_old = None, l_new = None, l_ns = 2, l_actor = ''a'', l_message = ''x''\<rparr>
   in \<exists>s' pre. ExpireLog (one_log ''m'' [e1, e2]) ''m'' 1 3 = (Inr (1 - length pre), s') \<and>
        ReadLog s' ''m'' = Inr (pre @ [e2]) \<and> set pre \<subseteq> {e1, e2}"
proof -
  let ?e1 = "\<lparr>l_old = None, l_new = None, l_ns = 1, l_actor = ''a'', l_message = ''x''\<rparr>"
  let ?e2 = "\<lparr>l_old = None, l_new = None, l_ns = 2, l_actor = ''a'', l_message = ''x''\<rparr>"
  have wf: "\<forall>e \<in> set [?e1, ?e2]. wf_log_entry e"
    by (simp add: wf_log_entry_def valid_hash_def log_line_def hexOrZero_def sanitizeActor_def
        sanitizeMessage_def replace_char_def FormatInt_def digits_of_small max_token_def)
  have re: "read_entry ?e1 = ?e1" "read_entry ?e2 = ?e2"
    by (simp_all add: read_entry_def sanitizeActor_def sanitizeMessage_def replace_char_def drop_cr_def)
  note ok = one_log_ok [where n = "''m''", OF _ wf]
  have rd: "ReadLog (one_log ''m'' [?e1, ?e2]) ''m'' = Inr [?e1, ?e2]"
    using ok(4) re by (simp add: ValidName_def has_prefix_def has_suffix_def)
  have "\<forall>e \<in> set [?e1, ?e2]. read_entry e = e" using re by simp
  with expire_keeps_window [OF ok(1) rd _ this, of 1 3] show ?thesis
    by (fastforce simp: Let_def numeral_2_eq_2)
qed

end
