(* ===== verification/Names.thy ===== *)
theory Names
  imports Refs
begin

text \<open>
  Names with a meaning: the reserved ref and note namespaces (\<^verbatim>\<open>internal/reserved\<close>), the
  encoding of retention pins as refs (\<^verbatim>\<open>internal/pin\<close>) and the repository's read
  deny-list (\<^verbatim>\<open>internal/denylist\<close>).
\<close>

section \<open>Reserved namespaces\<close>

definition TicketsPrefix :: string where "TicketsPrefix = ''refs/varvig/tickets/''"
definition PolicyRef :: string where "PolicyRef = ''refs/varvig/policy''"
definition PrincipalsRef :: string where "PrincipalsRef = ''refs/varvig/principals''"
definition PinsPrefix :: string where "PinsPrefix = ''refs/pins/''"
definition FactoryPrefix :: string where "FactoryPrefix = ''refs/factory/''"

definition factoryPrefixes :: "string list" where
  "factoryPrefixes =
     [FactoryPrefix, FactoryPrefix @ ''cells/'', FactoryPrefix @ ''attempts/'', FactoryPrefix @ ''claims/'',
      FactoryPrefix @ ''envelopes/'', FactoryPrefix @ ''leases/'', FactoryPrefix @ ''reservations/'']"

definition replicatedPrefixes :: "string list" where
  "replicatedPrefixes = [TicketsPrefix, FactoryPrefix]"

definition IsReplicatedRef :: "string \<Rightarrow> bool" where
  "IsReplicatedRef name = list_ex (\<lambda>p. has_prefix name p) replicatedPrefixes"

definition NoteAttest :: string where "NoteAttest = ''varvig/attest''"
definition NoteExternal :: string where "NoteExternal = ''varvig/external''"
definition NoteScore :: string where "NoteScore = ''varvig/score''"
definition NoteScope :: string where "NoteScope = ''varvig/scope''"
definition NoteCheck :: string where "NoteCheck = ''varvig/check''"
definition NoteEdge :: string where "NoteEdge = ''varvig/edge''"

definition reservedNoteNamespaces :: "string list" where
  "reservedNoteNamespaces = [NoteAttest, NoteExternal, NoteScore, NoteScope, NoteCheck, NoteEdge]"

definition IsReservedNoteNamespace :: "string \<Rightarrow> bool" where
  "IsReservedNoteNamespace ns = list_ex (\<lambda>r. ns = r \<or> has_prefix ns (r @ ''/'')) reservedNoteNamespaces"

definition IsTicketRef :: "string \<Rightarrow> bool" where
  "IsTicketRef name = has_prefix name TicketsPrefix"

definition IsFactoryRef :: "string \<Rightarrow> bool" where
  "IsFactoryRef name = has_prefix name FactoryPrefix"

definition reserved_IsPinRef :: "string \<Rightarrow> bool" where
  "reserved_IsPinRef name = has_prefix name PinsPrefix"

lemmas reserved_defs = TicketsPrefix_def FactoryPrefix_def PinsPrefix_def PolicyRef_def PrincipalsRef_def

lemma replicated_iff: "IsReplicatedRef name \<longleftrightarrow> IsTicketRef name \<or> IsFactoryRef name"
  by (simp add: IsReplicatedRef_def replicatedPrefixes_def IsTicketRef_def IsFactoryRef_def)

lemma factory_prefixes_replicate: "\<forall>p \<in> set factoryPrefixes. IsFactoryRef (p @ n)"
  by (simp add: factoryPrefixes_def IsFactoryRef_def has_prefix_iff)

section \<open>Pins\<close>

definition encodePeer :: "string \<Rightarrow> string" where
  "encodePeer peerID = hex_encode (bytes_of peerID)"

definition decodePeer :: "string \<Rightarrow> goerr + string" where
  "decodePeer s = rbind (hex_decode s) (\<lambda>b. Inr (string_of b))"

definition pin_RefName :: "string \<Rightarrow> i64 \<Rightarrow> multihash \<Rightarrow> string" where
  "pin_RefName peerID notAfter hash =
     PinsPrefix @ encodePeer peerID @ ''/'' @ FormatPadded 16 16 (sint notAfter) @ ''/'' @ Hex hash"

definition PeerPrefix :: "string \<Rightarrow> string" where
  "PeerPrefix peerID = PinsPrefix @ encodePeer peerID @ ''/''"

definition IsPinRef :: "string \<Rightarrow> bool" where
  "IsPinRef name = has_prefix name PinsPrefix"

definition pin_Parse :: "string \<Rightarrow> (string \<times> i64 \<times> multihash) option" where
  "pin_Parse name =
     (if \<not> has_prefix name PinsPrefix then None
      else case split_on CHR ''/'' (drop (length PinsPrefix) name) of
        [p0, p1, p2] \<Rightarrow>
          (case decodePeer p0 of
             Inl _ \<Rightarrow> None
           | Inr peer \<Rightarrow>
             (case ParseInt 16 p1 of
                None \<Rightarrow> None
              | Some na \<Rightarrow>
                (case ParseHex p2 of
                   Inl _ \<Rightarrow> None
                 | Inr h \<Rightarrow> Some (peer, word_of_int na, h))))
      | _ \<Rightarrow> None)"

lemma encodePeer_chars: "c \<notin> set ''0123456789abcdef'' \<Longrightarrow> c \<notin> set (encodePeer p)"
  using Hex_not_in [of c "bytes_of p"] by (simp add: encodePeer_def Hex_def)

lemma decodePeer_encodePeer [simp]: "decodePeer (encodePeer p) = Inr p"
  by (simp add: decodePeer_def encodePeer_def)

lemma encodePeer_inj [simp]: "encodePeer p = encodePeer q \<longleftrightarrow> p = q"
  by (metis decodePeer_encodePeer sum.inject(2))

lemma split_pin:
  "split_on CHR ''/'' (encodePeer p @ ''/'' @ FormatPadded 16 16 i @ ''/'' @ Hex h)
     = [encodePeer p, FormatPadded 16 16 i, Hex h]"
  using encodePeer_chars [of "CHR ''/''" p] FormatPadded_chars [of 16 "CHR ''/''"] Hex_not_in [of "CHR ''/''" h]
  by (simp add: split_on_append_sep split_on_single)

lemma pin_Parse_RefName:
  "mh_decode h = Inr cd \<Longrightarrow> pin_Parse (pin_RefName p na h) = Some (p, na, h)"
  using split_pin [of p "sint na" h]
  by (simp add: pin_Parse_def pin_RefName_def ParseInt_Padded ParseHex_Hex)

lemma RefName_PeerPrefix: "has_prefix (pin_RefName p na h) (PeerPrefix q) \<longleftrightarrow> p = q"
proof
  assume "has_prefix (pin_RefName p na h) (PeerPrefix q)"
  then obtain t where "encodePeer p @ CHR ''/'' # FormatPadded 16 16 (sint na) @ ''/'' @ Hex h
      = encodePeer q @ CHR ''/'' # t"
    by (auto simp: has_prefix_iff pin_RefName_def PeerPrefix_def)
  then have "cut CHR ''/'' (encodePeer p @ CHR ''/'' # FormatPadded 16 16 (sint na) @ ''/'' @ Hex h)
      = cut CHR ''/'' (encodePeer q @ CHR ''/'' # t)" by simp
  then have "encodePeer p = encodePeer q" by (simp add: cut_append encodePeer_chars)
  then show "p = q" by simp
next
  assume "p = q"
  then show "has_prefix (pin_RefName p na h) (PeerPrefix q)"
    by (simp add: has_prefix_iff pin_RefName_def PeerPrefix_def)
qed

lemma pins_not_replicated: "\<not> IsReplicatedRef (PinsPrefix @ n)"
  by (simp add: IsReplicatedRef_def replicatedPrefixes_def reserved_defs has_prefix_def)

section \<open>Paths under a prefix\<close>

text \<open>The test \<^verbatim>\<open>p == d || strings.HasPrefix(p, d+"/")\<close>, which several packages repeat.\<close>

definition under :: "string \<Rightarrow> string \<Rightarrow> bool" where
  "under d p \<longleftrightarrow> p = d \<or> has_prefix p (d @ ''/'')"

lemma under_iff: "under d p \<longleftrightarrow> p = d \<or> (\<exists>t. p = d @ ''/'' @ t)"
  by (auto simp: under_def has_prefix_iff)

lemma under_refl [simp]: "under p p"
  by (simp add: under_def)

lemma under_child [simp]: "under d (d @ CHR ''/'' # t)"
  by (simp add: under_iff)

lemma under_trans: "under d p \<Longrightarrow> under p q \<Longrightarrow> under d q"
  unfolding under_iff by (elim disjE exE) simp_all

lemma under_antisym: "under d p \<Longrightarrow> under p d \<Longrightarrow> p = d"
  unfolding under_iff by auto

section \<open>The deny-list\<close>

type_synonym denylist = "string list"

definition is_comment :: "string \<Rightarrow> bool" where
  "is_comment line = (line = [] \<or> has_prefix line ''#'')"

definition denylist_Load :: "string option \<Rightarrow> denylist" where
  "denylist_Load file =
     (case file of
        None \<Rightarrow> []
      | Some b \<Rightarrow>
          sort (filter (\<lambda>l. \<not> is_comment l) (map (\<lambda>line. trim_slash (trim_space line)) (split_on newline b))))"

definition denylist_Empty :: "denylist \<Rightarrow> bool" where
  "denylist_Empty l = (length l = 0)"

definition Denied :: "denylist \<Rightarrow> string \<Rightarrow> bool" where
  "Denied l path =
     (let p = trim_slash path in list_ex (\<lambda>d. under d p) l)"

lemma Denied_empty: "denylist_Empty l \<Longrightarrow> \<not> Denied l path"
  by (simp add: denylist_Empty_def Denied_def)

lemma trim_slash_idem: "p \<noteq> [] \<Longrightarrow> hd p \<noteq> CHR ''/'' \<Longrightarrow> last p \<noteq> CHR ''/'' \<Longrightarrow> trim_slash p = p"
proof -
  assume p: "p \<noteq> []" "hd p \<noteq> CHR ''/''" "last p \<noteq> CHR ''/''"
  then have "dropWhile (\<lambda>c. c = CHR ''/'') p = p" by (cases p) simp_all
  moreover have "dropWhile (\<lambda>c. c = CHR ''/'') (rev p) = rev p"
    using p by (cases p rule: rev_cases) simp_all
  ultimately show "trim_slash p = p" by (simp add: trim_slash_def trim_by_def)
qed

text \<open>A denied directory denies everything under it.\<close>

lemma Denied_below:
  assumes "Denied l p" "p \<noteq> []" "hd p \<noteq> CHR ''/''" "last p \<noteq> CHR ''/''" "q \<noteq> []" "last q \<noteq> CHR ''/''"
  shows "Denied l (p @ ''/'' @ q)"
proof -
  have "trim_slash p = p" "trim_slash (p @ ''/'' @ q) = p @ ''/'' @ q"
    using assms trim_slash_idem [of p] trim_slash_idem [of "p @ ''/'' @ q"] by auto
  with assms(1) show ?thesis
    using under_trans [OF _ under_child [of p q]] by (auto simp: Denied_def list_ex_iff)
qed

section \<open>Properties\<close>

text \<open>A pin is its name: whatever the peer id (slashes and all), the expiry and the hash,
  the ref name of a pin parses back to exactly these three, it is found under the prefix
  of its own peer and of no other, and it never replicates between peers by default.\<close>

theorem pin_name_exact:
  assumes "mh_decode h = Inr cd"
  shows "pin_Parse (pin_RefName p na h) = Some (p, na, h) \<and>
     (has_prefix (pin_RefName p na h) (PeerPrefix q) \<longleftrightarrow> p = q) \<and>
     IsPinRef (pin_RefName p na h) \<and> \<not> IsReplicatedRef (pin_RefName p na h)"
  using pin_Parse_RefName [OF assms] RefName_PeerPrefix pins_not_replicated
  by (simp add: IsPinRef_def pin_RefName_def)

theorem pin_name_exact_witness:
  "pin_Parse (pin_RefName ''a/b'' (-1) [0x12, 1, 5]) = Some (''a/b'', -1, [0x12, 1, 5])"
  using pin_name_exact [OF small_hash [of 5], of "''a/b''" "-1" "''a/b''"] by simp

end
