(* ===== verification/Trust.thy ===== *)
theory Trust
  imports Names
begin

text \<open>
  \<^verbatim>\<open>internal/trust\<close>: the trust store, a text table of who may do what where. The file
  keeps every physical line, so it can be written back as it was; authority is looked up
  in the recognised records. Scopes are path prefixes that end at a component boundary.
\<close>

datatype right = RightUnknown | RightRead | RightPropose | RightPromote

definition right_level :: "right \<Rightarrow> nat" where
  "right_level r = (case r of RightUnknown \<Rightarrow> 0 | RightRead \<Rightarrow> 1 | RightPropose \<Rightarrow> 2 | RightPromote \<Rightarrow> 3)"

definition ParseRight :: "string \<Rightarrow> right option" where
  "ParseRight s =
     (if s = ''read'' then Some RightRead
      else if s = ''propose'' then Some RightPropose
      else if s = ''promote'' then Some RightPromote
      else None)"

definition right_String :: "right \<Rightarrow> string" where
  "right_String r =
     (case r of RightRead \<Rightarrow> ''read'' | RightPropose \<Rightarrow> ''propose'' | RightPromote \<Rightarrow> ''promote''
      | RightUnknown \<Rightarrow> ''unknown'')"

definition Allows :: "right \<Rightarrow> right \<Rightarrow> bool" where
  "Allows r want =
     (if r = RightUnknown \<or> want = RightUnknown then False else right_level r \<ge> right_level want)"

section \<open>Scopes\<close>

type_synonym scope = string

definition NormalizeScope :: "string \<Rightarrow> scope" where
  "NormalizeScope s =
     (let s = trim_slash (trim_space s)
      in if s = [] \<or> s = ''.'' then ''/'' else s @ ''/'')"

definition Covers :: "scope \<Rightarrow> string \<Rightarrow> bool" where
  "Covers sc target =
     (if sc = ''/'' then True
      else (let nt = NormalizeScope target
            in if nt = ''/'' then False else has_prefix nt sc))"

section \<open>Records and files\<close>

record trust_record =
  tr_fingerprint :: string
  tr_name :: string
  tr_scope :: scope
  tr_right :: right
  tr_extra :: "string list"

record trust_line =
  tl_raw :: string
  tl_rec :: "trust_record option"
  tl_dirty :: bool
  tl_final :: bool

type_synonym trust_file = "trust_line list"

definition parseRecord :: "string \<Rightarrow> trust_record option" where
  "parseRecord ln =
     (let trimmed = trim_space ln in
      if trimmed = [] \<or> has_prefix trimmed ''#'' then None
      else
        (case fields_of trimmed of
           f0 # f1 # f2 # f3 # extra \<Rightarrow>
             (case ParseRight f3 of
                None \<Rightarrow> None
              | Some right \<Rightarrow>
                  Some \<lparr>tr_fingerprint = f0, tr_name = f1, tr_scope = NormalizeScope f2,
                        tr_right = right, tr_extra = extra\<rparr>)
         | _ \<Rightarrow> None))"

definition mk_line :: "string \<Rightarrow> trust_line" where
  "mk_line ln = \<lparr>tl_raw = ln, tl_rec = parseRecord ln, tl_dirty = False, tl_final = False\<rparr>"

definition set_last_final :: "bool \<Rightarrow> trust_file \<Rightarrow> trust_file" where
  "set_last_final b f = (if f = [] then [] else butlast f @ [(last f)\<lparr>tl_final := b\<rparr>])"

definition trust_Parse :: "string \<Rightarrow> trust_file" where
  "trust_Parse body =
     (if length body = 0 then []
      else
        (let hasFinalNewline = has_suffix body [newline];
             raw = split_on newline body;
             raw = (if hasFinalNewline then butlast raw else raw)
         in set_last_final hasFinalNewline (map mk_line raw)))"

definition render :: "trust_record \<Rightarrow> string" where
  "render r =
     join_with '' '' ([tr_fingerprint r, tr_name r, tr_scope r, right_String (tr_right r)] @ tr_extra r)"

definition line_text :: "trust_line \<Rightarrow> string" where
  "line_text ln =
     (if tl_dirty ln then (case tl_rec ln of None \<Rightarrow> tl_raw ln | Some r \<Rightarrow> render r) else tl_raw ln)"

fun trust_Bytes :: "trust_file \<Rightarrow> string" where
  "trust_Bytes [] = []"
| "trust_Bytes [ln] = line_text ln @ (if tl_final ln then [newline] else [])"
| "trust_Bytes (ln # l # f) = line_text ln @ [newline] @ trust_Bytes (l # f)"

definition Records :: "trust_file \<Rightarrow> trust_record list" where
  "Records f = concat (map (\<lambda>ln. case tl_rec ln of None \<Rightarrow> [] | Some r \<Rightarrow> [r]) f)"

definition Lookup :: "trust_file \<Rightarrow> string \<Rightarrow> trust_record list" where
  "Lookup f fingerprint =
     concat (map (\<lambda>ln. case tl_rec ln of None \<Rightarrow> []
                       | Some r \<Rightarrow> if tr_fingerprint r = fingerprint then [r] else []) f)"

definition Authorized :: "trust_file \<Rightarrow> string \<Rightarrow> right \<Rightarrow> string \<Rightarrow> bool" where
  "Authorized f fingerprint want targetScope =
     list_ex (\<lambda>r. Allows (tr_right r) want \<and> Covers (tr_scope r) targetScope) (Lookup f fingerprint)"

definition trust_Add :: "trust_file \<Rightarrow> trust_record \<Rightarrow> trust_file" where
  "trust_Add f r =
     (let r = (if tr_scope r = [] then r\<lparr>tr_scope := NormalizeScope []\<rparr> else r);
          f = set_last_final True f
      in f @ [\<lparr>tl_raw = [], tl_rec = Some r, tl_dirty = True, tl_final = True\<rparr>])"

definition is_record_of :: "string \<Rightarrow> trust_line \<Rightarrow> bool" where
  "is_record_of fingerprint ln = (case tl_rec ln of None \<Rightarrow> False | Some r \<Rightarrow> tr_fingerprint r = fingerprint)"

definition trust_Remove :: "trust_file \<Rightarrow> string \<Rightarrow> nat \<times> trust_file" where
  "trust_Remove f fingerprint =
     (let kept = filter (\<lambda>ln. \<not> is_record_of fingerprint ln) f;
          removed = length (filter (is_record_of fingerprint) f)
      in (removed, set_last_final True kept))"

section \<open>Scope sets\<close>

definition NewScopeSet :: "string list \<Rightarrow> scope list" where
  "NewScopeSet raw =
     (let parts = filter (\<lambda>p. trim_space p \<noteq> []) (concat (map (split_on CHR '','') raw));
          out = map NormalizeScope parts
      in if ''/'' \<in> set out then [''/'']
         else if out = [] then [''/'']
         else sort (remdups out))"

definition set_Covers :: "scope list \<Rightarrow> string \<Rightarrow> bool" where
  "set_Covers s target = list_ex (\<lambda>sc. Covers sc target) s"

definition set_String :: "scope list \<Rightarrow> string" where
  "set_String s = (if length s = 0 then ''/'' else join_with '','' s)"

definition Primary :: "scope list \<Rightarrow> string" where
  "Primary s = (case s of [] \<Rightarrow> [] | sc # _ \<Rightarrow> trim_slash sc)"

section \<open>The file is written back as it was read\<close>

lemma line_text_mk [simp]: "line_text (mk_line ln) = ln"
  by (simp add: line_text_def mk_line_def)

lemma line_text_final [simp]: "line_text (ln\<lparr>tl_final := b\<rparr>) = line_text ln"
  by (cases ln) (simp add: line_text_def split: option.split)

lemma rec_final [simp]: "tl_rec (ln\<lparr>tl_final := b\<rparr>) = tl_rec ln"
  by (cases ln) simp

lemma Bytes_append: "g \<noteq> [] \<Longrightarrow> trust_Bytes (f @ g) = concat (map (\<lambda>l. line_text l @ [newline]) f) @ trust_Bytes g"
proof (induction f)
  case Nil
  then show ?case by simp
next
  case (Cons l f)
  obtain x xs where "f @ g = x # xs" using Cons.prems by (cases "f @ g") simp_all
  with Cons show ?case by simp
qed

lemma Bytes_set_last_final:
  "f \<noteq> [] \<Longrightarrow> trust_Bytes (set_last_final b f) =
     concat (map (\<lambda>l. line_text l @ [newline]) (butlast f)) @ line_text (last f) @ (if b then [newline] else [])"
  by (simp add: set_last_final_def Bytes_append)

lemma join_snoc:
  "join_with sep (ws @ [w]) = concat (map (\<lambda>x. x @ sep) ws) @ w"
proof (induction ws)
  case Nil
  then show ?case by simp
next
  case (Cons x ws)
  then show ?case by (cases "ws @ [w]") auto
qed

lemma last_split: "last (split_on c s) = [] \<longleftrightarrow> s = [] \<or> last s = c"
proof (induction s)
  case Nil
  then show ?case by simp
next
  case (Cons x s)
  obtain w ws where ws: "split_on c s = w # ws" by (meson neq_Nil_conv split_on_ne)
  show ?case
  proof (cases "ws = []")
    case True
    then have "s = w" using join_split [of c s] ws by simp
    moreover have "c \<notin> set w" using split_on_no_sep [of w c s] ws by simp
    ultimately show ?thesis using ws True Cons by auto
  next
    case False
    with ws Cons show ?thesis by (cases s) auto
  qed
qed

lemma has_suffix_last: "has_suffix s [c] \<longleftrightarrow> s \<noteq> [] \<and> last s = c"
  by (cases s rule: rev_cases) (auto simp: has_suffix_iff)

text \<open>Lines that end in a newline are read back one by one.\<close>

lemma Parse_lines:
  assumes "ls \<noteq> []" "\<forall>l \<in> set ls. newline \<notin> set l"
  shows "trust_Parse (concat (map (\<lambda>l. l @ [newline]) ls)) = set_last_final True (map mk_line ls)"
proof -
  let ?b = "concat (map (\<lambda>l. l @ [newline]) ls)"
  have j: "?b = join_with [newline] (ls @ [[]])" by (simp add: join_snoc)
  have sp: "split_on newline ?b = ls @ [[]]"
    unfolding j using assms(2) by (intro split_join) auto
  have "?b \<noteq> []" using assms(1) by (cases ls) auto
  moreover have "has_suffix ?b [newline]"
    using assms(1) by (cases ls rule: rev_cases) (auto simp: has_suffix_last)
  ultimately show ?thesis by (simp add: trust_Parse_def sp)
qed

lemma Bytes_Parse: "trust_Bytes (trust_Parse body) = body"
proof (cases "body = []")
  case True
  then show ?thesis by (simp add: trust_Parse_def)
next
  case False
  let ?ls = "split_on newline body"
  have j: "body = concat (map (\<lambda>x. x @ [newline]) (butlast ?ls)) @ last ?ls"
    using join_split [of newline body] join_snoc [of "[newline]" "butlast ?ls" "last ?ls"] by simp
  show ?thesis
  proof (cases "has_suffix body [newline]")
    case True
    then have l: "last ?ls = []" by (simp add: last_split has_suffix_last)
    have b: "butlast ?ls \<noteq> []"
      using j l False by auto
    have s: "butlast ?ls = butlast (butlast ?ls) @ [last (butlast ?ls)]" using b by simp
    have "trust_Bytes (trust_Parse body)
        = concat (map (\<lambda>x. x @ [newline]) (butlast (butlast ?ls))) @ last (butlast ?ls) @ [newline]"
      using True False b
      by (simp add: trust_Parse_def Bytes_set_last_final map_butlast [symmetric] last_map comp_def)
    also have "\<dots> = concat (map (\<lambda>x. x @ [newline]) (butlast ?ls))"
      by (subst (3) s) simp
    also have "\<dots> = body" using j l by simp
    finally show ?thesis .
  next
    case f: False
    have "trust_Bytes (trust_Parse body)
        = concat (map (\<lambda>x. x @ [newline]) (butlast ?ls)) @ last ?ls"
      using f False
      by (simp add: trust_Parse_def Bytes_set_last_final map_butlast [symmetric] last_map comp_def)
    with j show ?thesis by simp
  qed
qed

section \<open>Authority is what the records say\<close>

lemma Lookup_Records: "Lookup f fp = filter (\<lambda>r. tr_fingerprint r = fp) (Records f)"
  by (induction f) (auto simp: Lookup_def Records_def split: option.splits)

lemma Authorized_iff:
  "Authorized f fp want sc \<longleftrightarrow>
     (\<exists>r \<in> set (Records f). tr_fingerprint r = fp \<and> Allows (tr_right r) want \<and> Covers (tr_scope r) sc)"
  by (auto simp: Authorized_def Lookup_Records list_ex_iff)

lemma Records_append [simp]: "Records (f @ g) = Records f @ Records g"
  by (simp add: Records_def)

lemma Records_Nil [simp]: "Records [] = []"
  by (simp add: Records_def)

lemma Records_final [simp]: "Records (set_last_final b f) = Records f"
proof (cases f rule: rev_cases)
  case Nil
  then show ?thesis by (simp add: set_last_final_def)
next
  case (snoc g l)
  then show ?thesis by (simp add: set_last_final_def Records_def)
qed

lemma Records_Remove: "Records (snd (trust_Remove f fp)) = filter (\<lambda>r. tr_fingerprint r \<noteq> fp) (Records f)"
  unfolding trust_Remove_def Let_def snd_conv Records_final
  by (induction f) (auto simp: Records_def is_record_of_def split: option.splits)

text \<open>What a line says in memory is what it says on disk.\<close>

definition faithful :: "trust_line \<Rightarrow> bool" where
  "faithful l \<longleftrightarrow> newline \<notin> set (line_text l) \<and> parseRecord (line_text l) = tl_rec l"

lemma faithful_final [simp]: "faithful (l\<lparr>tl_final := b\<rparr>) = faithful l"
  by (simp add: faithful_def)

lemma faithful_mk [simp]: "faithful (mk_line l) \<longleftrightarrow> newline \<notin> set l"
  by (simp add: faithful_def) (simp add: mk_line_def)

lemma set_set_last_final: "l \<in> set (set_last_final b f) \<Longrightarrow> \<exists>k \<in> set f. l = k \<or> l = k\<lparr>tl_final := b\<rparr>"
  by (cases f rule: rev_cases) (auto simp: set_last_final_def)

lemma faithful_set_last: "\<forall>l \<in> set f. faithful l \<Longrightarrow> \<forall>l \<in> set (set_last_final b f). faithful l"
  using set_set_last_final by fastforce

lemma Parse_faithful: "\<forall>l \<in> set (trust_Parse body). faithful l"
proof -
  have "\<forall>l \<in> set (set_last_final b (map mk_line ls)). faithful l"
    if "set ls \<subseteq> set (split_on newline body)" for b ls
    by (rule faithful_set_last) (use that split_on_no_sep in fastforce)
  moreover have "set (butlast (split_on newline body)) \<subseteq> set (split_on newline body)"
    by (meson in_set_butlastD subsetI)
  ultimately show ?thesis
    unfolding trust_Parse_def Let_def by (auto split: if_splits)
qed

lemma map_mk_line_Records:
  "\<forall>l \<in> set f. faithful l \<Longrightarrow> Records (map mk_line (map line_text f)) = Records f"
  by (induction f) (auto simp: Records_def faithful_def mk_line_def)

lemma Records_reparse:
  assumes "\<forall>l \<in> set f. faithful l"
  shows "Records (trust_Parse (trust_Bytes (set_last_final True f))) = Records f"
proof (cases f rule: rev_cases)
  case Nil
  then show ?thesis by (simp add: set_last_final_def trust_Parse_def)
next
  case (snoc g l)
  have "trust_Bytes (set_last_final True f) = concat (map (\<lambda>l. l @ [newline]) (map line_text f))"
    using snoc by (simp add: Bytes_set_last_final comp_def)
  moreover have "\<forall>l \<in> set (map line_text f). newline \<notin> set l"
    using assms by (auto simp: faithful_def)
  moreover have "map line_text f \<noteq> []" using snoc by simp
  ultimately show ?thesis
    using map_mk_line_Records [OF assms] by (simp add: Parse_lines del: map_map)
qed

text \<open>A rendered record with sensible columns reads back as itself.\<close>

definition record_ok :: "trust_record \<Rightarrow> bool" where
  "record_ok r \<longleftrightarrow>
     word_ok (tr_fingerprint r) \<and> hd (tr_fingerprint r) \<noteq> CHR ''#'' \<and> word_ok (tr_name r) \<and>
     word_ok (tr_scope r) \<and> NormalizeScope (tr_scope r) = tr_scope r \<and> tr_right r \<noteq> RightUnknown \<and>
     list_all word_ok (tr_extra r)"

lemma ParseRight_String: "r \<noteq> RightUnknown \<Longrightarrow> ParseRight (right_String r) = Some r"
  by (cases r) (simp_all add: ParseRight_def right_String_def)

lemma word_ok_right: "word_ok (right_String r)"
  by (cases r) (auto simp: right_String_def word_ok_def is_space_def)

lemma parse_render: "record_ok r \<Longrightarrow> parseRecord (render r) = Some r"
proof -
  assume r: "record_ok r"
  let ?ws = "[tr_fingerprint r, tr_name r, tr_scope r, right_String (tr_right r)] @ tr_extra r"
  have ok: "list_all word_ok ?ws" using r by (simp add: record_ok_def word_ok_right)
  have e: "join_with '' '' ?ws \<noteq> []" "hd (join_with '' '' ?ws) = hd (tr_fingerprint r)"
    "\<not> is_space (hd (join_with '' '' ?ws))" "\<not> is_space (last (join_with '' '' ?ws))"
    using join_ends [OF _ ok] by auto
  have "\<not> has_prefix (render r) ''#''"
    using e r by (auto simp: render_def has_prefix_iff record_ok_def)
  with e r fields_join [OF ok] show ?thesis
    by (simp add: parseRecord_def trim_space_def trim_by_id render_def ParseRight_String record_ok_def)
qed

lemma newline_space: "is_space newline"
  by (simp add: is_space_def)

lemma newline_join: "list_all word_ok ws \<Longrightarrow> newline \<notin> set (join_with '' '' ws)"
  by (induction "'' ''" ws rule: join_with.induct) (auto simp: word_ok_def newline_space)

definition added :: "trust_record \<Rightarrow> trust_line" where
  "added r = \<lparr>tl_raw = [], tl_rec = Some r, tl_dirty = True, tl_final = True\<rparr>"

lemma added_simps: "tl_rec (added r) = Some r" "line_text (added r) = render r" "tl_final (added r)"
  by (simp_all add: added_def line_text_def)

lemma newline_render: "record_ok r \<Longrightarrow> newline \<notin> set (render r)"
  unfolding render_def by (rule newline_join) (simp add: record_ok_def word_ok_right)

lemma faithful_added: "record_ok r \<Longrightarrow> faithful (added r)"
  by (simp add: faithful_def added_simps parse_render newline_render)

lemma Add_added: "record_ok r \<Longrightarrow> trust_Add f r = set_last_final True (set_last_final True f @ [added r])"
  by (auto simp: trust_Add_def set_last_final_def added_def record_ok_def word_ok_def Let_def)

section \<open>Scopes end at a component boundary\<close>

definition clean_scope :: "string \<Rightarrow> string" where
  "clean_scope s = trim_slash (trim_space s)"

lemma slash_prefix: "has_prefix (q @ ''/'') (p @ ''/'') \<longleftrightarrow> under p q"
proof
  assume "has_prefix (q @ ''/'') (p @ ''/'')"
  then obtain t where t: "q @ ''/'' = p @ ''/'' @ t" by (auto simp: has_prefix_iff)
  show "under p q"
  proof (cases t rule: rev_cases)
    case Nil
    with t show ?thesis by simp
  next
    case (snoc u c)
    with t have "q = p @ ''/'' @ u" by (metis append_assoc append_same_eq butlast_snoc)
    then show ?thesis by (simp add: under_iff)
  qed
next
  assume "under p q"
  then show "has_prefix (q @ ''/'') (p @ ''/'')" by (auto simp: under_iff has_prefix_iff)
qed

lemma Normalize_root: "NormalizeScope s = ''/'' \<longleftrightarrow> clean_scope s = [] \<or> clean_scope s = ''.''"
  by (auto simp: NormalizeScope_def clean_scope_def Let_def)

lemma Normalize_dir: "NormalizeScope s \<noteq> ''/'' \<Longrightarrow> NormalizeScope s = clean_scope s @ ''/''"
  unfolding Normalize_root by (simp add: NormalizeScope_def clean_scope_def Let_def)

lemma Covers_iff:
  "Covers (NormalizeScope s) target \<longleftrightarrow>
     NormalizeScope s = ''/'' \<or> under (clean_scope s) (clean_scope target)"
proof (cases "NormalizeScope s = ''/''")
  case True
  then show ?thesis by (simp add: Covers_def)
next
  case s: False
  then have n: "NormalizeScope s = clean_scope s @ ''/''" by (rule Normalize_dir)
  show ?thesis
  proof (cases "NormalizeScope target = ''/''")
    case True
    then have "clean_scope target = [] \<or> clean_scope target = ''.''" by (simp add: Normalize_root)
    moreover have "\<not> under (clean_scope s) []" "\<not> under (clean_scope s) ''.''"
      using s by (auto simp: under_iff Normalize_root Cons_eq_append_conv)
    ultimately show ?thesis using s True by (auto simp: Covers_def)
  next
    case False
    then have "NormalizeScope target = clean_scope target @ ''/''" by (rule Normalize_dir)
    with s n False show ?thesis by (simp add: Covers_def slash_prefix [symmetric])
  qed
qed

definition tokens :: "string list \<Rightarrow> string list" where
  "tokens raw = filter (\<lambda>p. trim_space p \<noteq> []) (concat (map (split_on CHR '','') raw))"

lemma NewScopeSet_tokens:
  "NewScopeSet raw =
     (let out = map NormalizeScope (tokens raw)
      in if ''/'' \<in> set out \<or> out = [] then [''/''] else sort (remdups out))"
  by (simp add: NewScopeSet_def tokens_def Let_def)

lemma set_Covers_union:
  "set_Covers (NewScopeSet raw) target \<longleftrightarrow>
     tokens raw = [] \<or> (\<exists>s \<in> set (tokens raw). Covers (NormalizeScope s) target)"
proof -
  have "Covers ''/'' target" by (simp add: Covers_def)
  then show ?thesis
    unfolding NewScopeSet_tokens Let_def by (force simp: set_Covers_def list_ex_iff image_iff)
qed

section \<open>Properties\<close>

text \<open>Editing the trust store changes the authority it was asked to change and nothing
  else, also after the file is written and read again. Whatever the file holds (comments,
  blank lines, lines this build does not understand), removing a fingerprint and storing
  the result leaves that fingerprint without any right anywhere and every other
  fingerprint with exactly the rights it had.\<close>

theorem trust_revocation:
  "Authorized (trust_Parse (trust_Bytes (snd (trust_Remove (trust_Parse body) fp)))) fp' want sc
     \<longleftrightarrow> fp' \<noteq> fp \<and> Authorized (trust_Parse body) fp' want sc"
proof -
  let ?k = "filter (\<lambda>ln. \<not> is_record_of fp ln) (trust_Parse body)"
  have "\<forall>l \<in> set ?k. faithful l" using Parse_faithful by auto
  then have "Records (trust_Parse (trust_Bytes (snd (trust_Remove (trust_Parse body) fp))))
      = Records (snd (trust_Remove (trust_Parse body) fp))"
    by (simp add: trust_Remove_def Let_def Records_reparse)
  then show ?thesis
    by (auto simp: Authorized_iff Records_Remove)
qed

text \<open>Adding a record to any trust file, writing it and reading it again gives the new
  principal exactly the right and scope of the record on top of what the file granted
  before, and an unmodified file is written back byte for byte.\<close>

theorem trust_grant_exact:
  assumes "record_ok r"
  shows "(Authorized (trust_Parse (trust_Bytes (trust_Add (trust_Parse body) r))) fp want sc
           \<longleftrightarrow> Authorized (trust_Parse body) fp want sc \<or>
              (fp = tr_fingerprint r \<and> Allows (tr_right r) want \<and> Covers (tr_scope r) sc)) \<and>
         trust_Bytes (trust_Parse body) = body"
proof -
  let ?f = "set_last_final True (trust_Parse body) @ [added r]"
  have "\<forall>l \<in> set ?f. faithful l"
    using faithful_set_last [OF Parse_faithful] faithful_added [OF assms] by auto
  then have "Records (trust_Parse (trust_Bytes (trust_Add (trust_Parse body) r))) = Records ?f"
    by (simp add: Add_added [OF assms] Records_reparse)
  moreover have "Records [added r] = [r]" by (simp add: Records_def added_simps)
  ultimately have "Records (trust_Parse (trust_Bytes (trust_Add (trust_Parse body) r)))
      = Records (trust_Parse body) @ [r]" by simp
  then show ?thesis by (auto simp: Authorized_iff Bytes_Parse)
qed

theorem trust_grant_exact_witness:
  "Authorized (trust_Parse (trust_Bytes (trust_Add (trust_Parse ''# keys'')
      \<lparr>tr_fingerprint = ''k'', tr_name = ''jan'', tr_scope = ''src/'', tr_right = RightPromote, tr_extra = []\<rparr>)))
     ''k'' RightPropose ''src/web''"
  by (subst conjunct1 [OF trust_grant_exact])
    (simp_all add: record_ok_def word_ok_def is_space_def NormalizeScope_def trim_space_def trim_slash_def
       trim_by_def Allows_def right_level_def Covers_def has_prefix_def)

text \<open>A capability boundary is the union of its declared scopes, each of which covers the
  paths at or below it and no sibling whose name merely starts the same: a target is
  within the set built from some tokens exactly when no scope was declared, one of them
  is the whole repository, or the cleaned target is a cleaned scope or lies under it.\<close>

theorem scope_set_boundary:
  "set_Covers (NewScopeSet raw) target \<longleftrightarrow>
     tokens raw = [] \<or>
     (\<exists>s \<in> set (tokens raw). NormalizeScope s = ''/'' \<or> under (clean_scope s) (clean_scope target))"
  by (simp only: set_Covers_union Covers_iff)

end
