(* ===== verification/Sshkey.thy ===== *)
theory Sshkey
  imports Multihash
begin

text \<open>
  \<^verbatim>\<open>internal/sshkey\<close>: Ed25519 keys in the formats of SSH. The wire encoding of a public key
  and its fingerprint, the \<^verbatim>\<open>authorized_keys\<close> line, the unencrypted OpenSSH private key file,
  and the replies of \<^verbatim>\<open>ssh-agent\<close> (the socket itself is not modelled). Base 64 is Go's
  \<^verbatim>\<open>encoding/base64\<close>. A reader is modelled by what it has not read yet.
\<close>

section \<open>Base 64\<close>

definition b64_alphabet :: string where
  "b64_alphabet = ''ABCDEFGHIJKLMNOPQRSTUVWXYZabcdefghijklmnopqrstuvwxyz0123456789+/''"

definition b64_char :: "nat \<Rightarrow> char" where
  "b64_char n = b64_alphabet ! n"

fun position :: "char \<Rightarrow> string \<Rightarrow> nat option" where
  "position c [] = None"
| "position c (x # xs) = (if x = c then Some 0 else map_option Suc (position c xs))"

definition b64_val :: "char \<Rightarrow> nat option" where
  "b64_val c = position c b64_alphabet"

fun b64_groups :: "nat list \<Rightarrow> bool \<Rightarrow> string" where
  "b64_groups (a # b # c # r) pad =
     [b64_char (a div 4), b64_char ((a mod 4) * 16 + b div 16),
      b64_char ((b mod 16) * 4 + c div 64), b64_char (c mod 64)] @ b64_groups r pad"
| "b64_groups [a, b] pad =
     [b64_char (a div 4), b64_char ((a mod 4) * 16 + b div 16), b64_char ((b mod 16) * 4)]
       @ (if pad then ''='' else [])"
| "b64_groups [a] pad =
     [b64_char (a div 4), b64_char ((a mod 4) * 16)] @ (if pad then ''=='' else [])"
| "b64_groups [] pad = []"

definition StdEncode :: "byte list \<Rightarrow> string" where
  "StdEncode b = b64_groups (map unat b) True"

definition RawStdEncode :: "byte list \<Rightarrow> string" where
  "RawStdEncode b = b64_groups (map unat b) False"

text \<open>Decoding skips line ends, wants full padding and ignores the bits a last group has over.\<close>

fun b64_decode :: "string \<Rightarrow> nat list option" where
  "b64_decode [] = Some []"
| "b64_decode (w # x # y # z # r) =
     (case (b64_val w, b64_val x) of
        (Some a, Some b) \<Rightarrow>
          (case (b64_val y, b64_val z) of
             (Some c, Some d) \<Rightarrow>
               map_option (\<lambda>t. [a * 4 + b div 16, (b mod 16) * 16 + c div 4, (c mod 4) * 64 + d] @ t)
                 (b64_decode r)
           | (Some c, None) \<Rightarrow>
               if z = CHR ''='' \<and> r = [] then Some [a * 4 + b div 16, (b mod 16) * 16 + c div 4] else None
           | (None, _) \<Rightarrow>
               if y = CHR ''='' \<and> z = CHR ''='' \<and> r = [] then Some [a * 4 + b div 16] else None)
      | _ \<Rightarrow> None)"
| "b64_decode _ = None"

definition StdDecode :: "string \<Rightarrow> byte list option" where
  "StdDecode s =
     map_option (map word_of_nat) (b64_decode (filter (\<lambda>c. c \<noteq> CHR 0x0D \<and> c \<noteq> CHR 0x0A) s))"

lemma b64_table: "list_all (\<lambda>n. b64_val (b64_char n) = Some n) [0..<64]"
  by code_simp

lemma b64_val_char [simp]: "n < 64 \<Longrightarrow> b64_val (b64_char n) = Some n"
  using b64_table by (simp add: list_all_iff)

lemma b64_val_pad [simp]: "b64_val CHR ''='' = None"
  by code_simp

lemma b64_parts [simp]:
  "(a::nat) < 256 \<Longrightarrow> a div 4 < 64" "(b::nat) < 256 \<Longrightarrow> b div 16 < 16" "(c::nat) < 256 \<Longrightarrow> c div 64 < 4"
  by (simp_all add: less_mult_imp_div_less)

lemma b64_sextet [simp]:
  "(y::nat) < 16 \<Longrightarrow> (a mod 4) * 16 + y < 64" "(y::nat) < 4 \<Longrightarrow> (b mod 16) * 4 + y < 64"
  "(a mod 4) * 16 < (64::nat)" "(b mod 16) * 4 < (64::nat)"
proof -
  have m: "a mod 4 \<le> 3" "b mod 16 \<le> (15::nat)"
    using mod_less_divisor [of 4 a] mod_less_divisor [of 16 b] by linarith+
  show "y < 16 \<Longrightarrow> (a mod 4) * 16 + y < 64" "y < 4 \<Longrightarrow> (b mod 16) * 4 + y < 64"
    "(a mod 4) * 16 < 64" "(b mod 16) * 4 < 64"
    using m by linarith+
qed

lemma b64_decode_groups:
  "\<forall>x \<in> set xs. x < 256 \<Longrightarrow> b64_decode (b64_groups xs True) = Some xs"
  by (induction xs True rule: b64_groups.induct) simp_all

lemma b64_char_in [simp]: "n < 64 \<Longrightarrow> b64_char n \<in> b64_char ` {..<64}"
  by simp

lemma b64_groups_chars:
  "\<forall>x \<in> set xs. x < 256 \<Longrightarrow> set (b64_groups xs pad) \<subseteq> insert CHR ''='' (b64_char ` {..<64})"
  by (induction xs pad rule: b64_groups.induct) auto

lemma b64_clean: "list_all (\<lambda>n. \<not> is_space (b64_char n)) [0..<64]"
  by code_simp

lemma unat_byte [simp]: "unat (b :: byte) < 256"
  using unsigned_less [of b] by simp

lemma b64_groups_no_space:
  "\<forall>x \<in> set xs. x < 256 \<Longrightarrow> c \<in> set (b64_groups xs pad) \<Longrightarrow> \<not> is_space c"
proof -
  assume "\<forall>x \<in> set xs. x < 256" "c \<in> set (b64_groups xs pad)"
  then have "c \<in> insert CHR ''='' (b64_char ` {..<64})"
    using b64_groups_chars by blast
  moreover have "\<not> is_space (b64_char n)" if "n < 64" for n
    using b64_clean that by (simp add: list_all_iff)
  ultimately show ?thesis by (auto simp: is_space_def)
qed

lemma StdEncode_chars: "c \<in> set (StdEncode b) \<Longrightarrow> \<not> is_space c"
  unfolding StdEncode_def by (rule b64_groups_no_space [of "map unat b"]) auto

lemma StdDecode_Encode [simp]: "StdDecode (StdEncode b) = Some b"
proof -
  have "c \<noteq> CHR 0x0D \<and> c \<noteq> CHR 0x0A" if "c \<in> set (StdEncode b)" for c
    using StdEncode_chars [OF that] by (auto simp: is_space_def)
  then have "filter (\<lambda>c. c \<noteq> CHR 0x0D \<and> c \<noteq> CHR 0x0A) (StdEncode b) = StdEncode b"
    by (simp add: filter_id_conv)
  moreover have "b64_decode (StdEncode b) = Some (map unat b)"
    by (auto simp: StdEncode_def intro!: b64_decode_groups)
  ultimately show ?thesis by (simp add: StdDecode_def comp_def)
qed

lemma StdEncode_Nil [simp]: "StdEncode b = [] \<longleftrightarrow> b = []"
  by (metis StdDecode_Encode StdEncode_def b64_groups.simps(4) list.simps(8) option.inject)

section \<open>Wire strings\<close>

definition ssh_malformed :: "string \<Rightarrow> goerr" where
  "ssh_malformed m = Sentinel SshMalformed m"

definition BigEndian_Put :: "u32 \<Rightarrow> byte list" where
  "BigEndian_Put v = [ucast (drop_bit 24 v), ucast (drop_bit 16 v), ucast (drop_bit 8 v), ucast v]"

definition BigEndian_Get :: "byte list \<Rightarrow> u32" where
  "BigEndian_Get b =
     push_bit 24 (ucast (b ! 0)) OR push_bit 16 (ucast (b ! 1)) OR push_bit 8 (ucast (b ! 2)) OR ucast (b ! 3)"

definition appendUint32 :: "byte list \<Rightarrow> u32 \<Rightarrow> byte list" where
  "appendUint32 b v = b @ [ucast (drop_bit 24 v), ucast (drop_bit 16 v), ucast (drop_bit 8 v), ucast v]"

definition appendString :: "byte list \<Rightarrow> byte list \<Rightarrow> byte list" where
  "appendString b s = (let b = b @ BigEndian_Put (word_of_nat (length s)) in b @ s)"

definition r_uint32 :: "byte list \<Rightarrow> goerr + (u32 \<times> byte list)" where
  "r_uint32 r =
     (if length r < 4 then Inl (ssh_malformed ''truncated uint32'')
      else Inr (BigEndian_Get r, drop 4 r))"

definition r_string :: "byte list \<Rightarrow> goerr + (byte list \<times> byte list)" where
  "r_string r =
     rbind (r_uint32 r) (\<lambda>(n, r).
       if unat n > length r then Inl (ssh_malformed ''truncated string'')
       else Inr (take (unat n) r, drop (unat n) r))"

definition r_empty :: "byte list \<Rightarrow> bool" where
  "r_empty r = (length r = 0)"

lemma bit_byte_high [simp]: "8 \<le> n \<Longrightarrow> \<not> bit (b :: byte) n"
  using bit_imp_le_length [of b n] by auto

lemma BigEndian_Get_Put [simp]: "BigEndian_Get (BigEndian_Put v @ r) = v"
proof -
  have "bit (BigEndian_Get (BigEndian_Put v @ r)) k = bit v k" if "k < 32" for k
  proof -
    consider "k < 8" | "8 \<le> k \<and> k < 16" | "16 \<le> k \<and> k < 24" | "24 \<le> k" by linarith
    then show ?thesis
      using that by cases (auto simp: BigEndian_Get_def BigEndian_Put_def bit_simps)
  qed
  then show ?thesis by (intro bit_word_eqI) simp
qed

lemma BigEndian_Put_Get: "BigEndian_Put (BigEndian_Get [a, b, c, d]) = [a, b, c, d]"
  by (auto simp: BigEndian_Get_def BigEndian_Put_def bit_simps intro!: bit_word_eqI dest: bit_imp_le_length)

lemma length_Put [simp]: "length (BigEndian_Put v) = 4"
  by (simp add: BigEndian_Put_def)

lemma r_uint32_iff: "r_uint32 r = Inr (v, r') \<longleftrightarrow> r = BigEndian_Put v @ r'"
proof
  assume a: "r_uint32 r = Inr (v, r')"
  then obtain a b c d t where "r = a # b # c # d # t"
    by (auto simp: r_uint32_def Suc_le_length_iff not_less numeral_eq_Suc split: if_splits)
  with a show "r = BigEndian_Put v @ r'"
    using BigEndian_Put_Get [of a b c d] by (auto simp: r_uint32_def BigEndian_Get_def)
qed (simp add: r_uint32_def)

definition fits32 :: "'a list \<Rightarrow> bool" where
  "fits32 xs \<longleftrightarrow> length xs < 2 ^ 32"

definition ssh_str :: "byte list \<Rightarrow> byte list" where
  "ssh_str s = BigEndian_Put (word_of_nat (length s)) @ s"

lemma appendString_eq: "appendString b s = b @ ssh_str s"
  by (simp add: appendString_def ssh_str_def)

lemma r_string_iff: "r_string r = Inr (s, r') \<longleftrightarrow> r = ssh_str s @ r' \<and> fits32 s"
proof
  assume "r_string r = Inr (s, r')"
  then obtain n t where n: "r = BigEndian_Put n @ t" "unat n \<le> length t"
    "s = take (unat n) t" "r' = drop (unat n) t"
    by (auto simp: r_string_def result_iffs r_uint32_iff not_less)
  then have l: "length s = unat n" by simp
  then have "word_of_nat (length s) = n" by simp
  moreover have "unat n < 2 ^ 32" using unsigned_less [of n] by simp
  ultimately show "r = ssh_str s @ r' \<and> fits32 s"
    using n l by (simp add: ssh_str_def fits32_def)
next
  assume "r = ssh_str s @ r' \<and> fits32 s"
  then have "r_uint32 r = Inr (word_of_nat (length s), s @ r')" "unat (word_of_nat (length s) :: u32) = length s"
    by (simp_all add: r_uint32_iff ssh_str_def fits32_def unat_of_nat)
  then show "r_string r = Inr (s, r')" by (simp add: r_string_def)
qed

lemma r_string_append [simp]: "fits32 s \<Longrightarrow> r_string (ssh_str s @ r) = Inr (s, r)"
  by (simp add: r_string_iff)

lemma r_string_whole [simp]: "fits32 s \<Longrightarrow> r_string (ssh_str s) = Inr (s, [])"
  using r_string_append [of s "[]"] by simp

section \<open>Public keys\<close>

definition KeyTypeEd25519 :: string where "KeyTypeEd25519 = ''ssh-ed25519''"
definition PublicKeySize :: nat where "PublicKeySize = 32"
definition PrivateKeySize :: nat where "PrivateKeySize = 64"
definition SignatureSize :: nat where "SignatureSize = 64"

record public_key =
  pk_key :: "byte list"
  pk_comment :: string

definition Blob :: "public_key \<Rightarrow> byte list" where
  "Blob p = (let b = appendString [] (bytes_of KeyTypeEd25519) in appendString b (pk_key p))"

definition FingerprintBlob :: "hash_funs \<Rightarrow> byte list \<Rightarrow> string" where
  "FingerprintBlob h blob = ''SHA256:'' @ RawStdEncode (sha256_sum h blob)"

definition Fingerprint :: "hash_funs \<Rightarrow> public_key \<Rightarrow> string" where
  "Fingerprint h p = FingerprintBlob h (Blob p)"

definition ParsePublicBlob :: "byte list \<Rightarrow> goerr + public_key" where
  "ParsePublicBlob blob =
     rbind (r_string blob) (\<lambda>(typ, r).
     if string_of typ \<noteq> KeyTypeEd25519 then Inl (Sentinel SshUnsupportedType [])
     else rbind (r_string r) (\<lambda>(key, r).
       if length key \<noteq> PublicKeySize then Inl (ssh_malformed ''ed25519 public key must be 32 bytes'')
       else if \<not> r_empty r then Inl (ssh_malformed ''trailing bytes after public key'')
       else Inr \<lparr>pk_key = key, pk_comment = []\<rparr>))"

definition ParseAuthorizedKey :: "string \<Rightarrow> goerr + public_key" where
  "ParseAuthorizedKey line =
     (case fields_of (trim_space line) of
        f0 # f1 # rest \<Rightarrow>
          if f0 \<noteq> KeyTypeEd25519 then Inl (Sentinel SshUnsupportedType [])
          else
            (case StdDecode f1 of
               None \<Rightarrow> Inl (ssh_malformed ''bad base64'')
             | Some blob \<Rightarrow>
                 rbind (ParsePublicBlob blob) (\<lambda>pk.
                 Inr (if rest \<noteq> [] then pk\<lparr>pk_comment := join_with '' '' rest\<rparr> else pk)))
      | _ \<Rightarrow> Inl (ssh_malformed ''expected ssh-ed25519 <base64> [comment]''))"

definition AuthorizedLine :: "public_key \<Rightarrow> string" where
  "AuthorizedLine p =
     (let line = KeyTypeEd25519 @ '' '' @ StdEncode (Blob p)
      in if pk_comment p \<noteq> [] then line @ '' '' @ pk_comment p else line)"

section \<open>OpenSSH private keys\<close>

definition opensshMagic :: string where
  "opensshMagic = ''openssh-key-v1'' @ [CHR 0x00]"

fun str_index :: "string \<Rightarrow> string \<Rightarrow> nat option" where
  "str_index [] p = (if p = [] then Some 0 else None)"
| "str_index (c # s) p = (if has_prefix (c # s) p then Some 0 else map_option Suc (str_index s p))"

definition decodePEM :: "byte list \<Rightarrow> string \<Rightarrow> goerr + byte list" where
  "decodePEM pem typ =
     (let begin' = ''-----BEGIN '' @ typ @ ''-----'';
          end' = ''-----END '' @ typ @ ''-----'';
          s = string_of pem
      in case str_index s begin' of
           None \<Rightarrow> Inl (ssh_malformed ''missing begin'')
         | Some i \<Rightarrow>
             (let s = drop (i + length begin') s
              in case str_index s end' of
                   None \<Rightarrow> Inl (ssh_malformed ''missing end'')
                 | Some j \<Rightarrow>
                     (case StdDecode (concat (map trim_space (split_on CHR 0x0A (take j s)))) of
                        None \<Rightarrow> Inl (ssh_malformed ''bad base64 in PEM body'')
                      | Some raw \<Rightarrow> Inr raw)))"

definition private_section :: "public_key \<Rightarrow> byte list \<Rightarrow> goerr + (byte list \<times> public_key)" where
  "private_section pub pr =
     rbind (r_uint32 pr) (\<lambda>(c1, pr).
     rbind (r_uint32 pr) (\<lambda>(c2, pr).
     if c1 \<noteq> c2 then Inl (ssh_malformed ''private-key check bytes differ'')
     else rbind (r_string pr) (\<lambda>(ktype, pr).
       if string_of ktype \<noteq> KeyTypeEd25519 then Inl (Sentinel SshUnsupportedType [])
       else rbind (r_string pr) (\<lambda>(_, pr).
         rbind (r_string pr) (\<lambda>(privKey, pr).
         if length privKey \<noteq> PrivateKeySize then Inl (ssh_malformed ''ed25519 private key must be 64 bytes'')
         else rbind (r_string pr) (\<lambda>(comment, pr).
           let pub = pub\<lparr>pk_comment := string_of comment\<rparr>;
               derived = drop PublicKeySize privKey
           in if derived \<noteq> pk_key pub then Inl (ssh_malformed ''private key does not match its public key'')
              else Inr (privKey, pub)))))))"

definition ParseOpenSSHPrivateKey :: "byte list \<Rightarrow> goerr + (byte list \<times> public_key)" where
  "ParseOpenSSHPrivateKey pem =
     rbind (decodePEM pem ''OPENSSH PRIVATE KEY'') (\<lambda>body.
     if length body < length opensshMagic \<or> string_of (take (length opensshMagic) body) \<noteq> opensshMagic
     then Inl (ssh_malformed ''not an openssh-key-v1 blob'')
     else
       let r = drop (length opensshMagic) body in
       rbind (r_string r) (\<lambda>(cipher, r).
       rbind (r_string r) (\<lambda>(kdf, r).
       rbind (r_string r) (\<lambda>(_, r).
       if string_of cipher \<noteq> ''none'' \<or> string_of kdf \<noteq> ''none'' then Inl (Sentinel SshEncrypted [])
       else rbind (r_uint32 r) (\<lambda>(nkeys, r).
         if nkeys \<noteq> 1 then Inl (ssh_malformed ''expected exactly one key'')
         else rbind (r_string r) (\<lambda>(pubBlob, r).
           rbind (ParsePublicBlob pubBlob) (\<lambda>pub.
           rbind (r_string r) (\<lambda>(priv, r).
           if \<not> r_empty r then Inl (ssh_malformed ''trailing bytes after private section'')
           else private_section pub priv))))))))"

section \<open>The agent\<close>

record agent_identity =
  ai_public :: public_key
  ai_blob :: "byte list"
  ai_comment :: string

fun read_identities :: "nat \<Rightarrow> byte list \<Rightarrow> goerr + agent_identity list" where
  "read_identities 0 r = Inr []"
| "read_identities (Suc n) r =
     rbind (r_string r) (\<lambda>(blob, r).
     rbind (r_string r) (\<lambda>(comment, r).
     case ParsePublicBlob blob of
       Inl _ \<Rightarrow> read_identities n r
     | Inr pk \<Rightarrow>
         rbind (read_identities n r) (\<lambda>rest.
         Inr (\<lparr>ai_public = pk\<lparr>pk_comment := string_of comment\<rparr>, ai_blob = blob,
               ai_comment = string_of comment\<rparr> # rest))))"

definition identities_reply :: "byte list \<Rightarrow> goerr + agent_identity list" where
  "identities_reply resp =
     (if length resp = 0 \<or> hd resp \<noteq> 12 then Inl (Plain ''sshkey: unexpected agent reply'')
      else rbind (r_uint32 (tl resp)) (\<lambda>(n, r). read_identities (unat n) r))"

definition sign_request :: "byte list \<Rightarrow> byte list \<Rightarrow> byte list" where
  "sign_request keyBlob data =
     (let req = [13];
          req = appendString req keyBlob;
          req = appendString req data
      in appendUint32 req 0)"

definition sign_reply :: "byte list \<Rightarrow> goerr + byte list" where
  "sign_reply resp =
     (if length resp = 0 \<or> hd resp = 5 then Inl (Plain ''sshkey: ssh-agent refused to sign'')
      else if hd resp \<noteq> 14 then Inl (Plain ''sshkey: unexpected agent sign reply'')
      else rbind (r_string (tl resp)) (\<lambda>(env, _).
           rbind (r_string env) (\<lambda>(format, er).
           if string_of format \<noteq> KeyTypeEd25519 then Inl (Sentinel SshUnsupportedType [])
           else rbind (r_string er) (\<lambda>(sig, _).
             if length sig \<noteq> SignatureSize then Inl (ssh_malformed ''signature length'')
             else Inr sig))))"

definition agent_frame :: "byte list \<Rightarrow> byte list" where
  "agent_frame payload = appendUint32 [] (word_of_nat (length payload)) @ payload"

section \<open>What is accepted\<close>

lemma fits32_type [simp]: "fits32 (bytes_of KeyTypeEd25519)"
  by (simp add: fits32_def KeyTypeEd25519_def)

lemma fits32_key [simp]: "length k = 32 \<Longrightarrow> fits32 k"
  by (simp add: fits32_def)

lemma ParsePublicBlob_iff:
  "ParsePublicBlob blob = Inr p \<longleftrightarrow> blob = Blob p \<and> length (pk_key p) = 32 \<and> pk_comment p = []"
proof
  assume "ParsePublicBlob blob = Inr p"
  then obtain ty key where t: "blob = ssh_str ty @ ssh_str key" "string_of ty = KeyTypeEd25519"
    "length key = 32" "p = \<lparr>pk_key = key, pk_comment = []\<rparr>"
    by (auto simp: ParsePublicBlob_def result_iffs r_string_iff r_empty_def PublicKeySize_def)
  from t(2) have "ty = bytes_of KeyTypeEd25519" by (metis bytes_of_string_of)
  with t show "blob = Blob p \<and> length (pk_key p) = 32 \<and> pk_comment p = []"
    by (simp add: Blob_def appendString_eq)
next
  assume "blob = Blob p \<and> length (pk_key p) = 32 \<and> pk_comment p = []"
  then show "ParsePublicBlob blob = Inr p"
    by (cases p) (simp add: ParsePublicBlob_def Blob_def appendString_eq r_empty_def PublicKeySize_def)
qed

lemma Blob_inj: "length (pk_key p) = 32 \<Longrightarrow> length (pk_key q) = 32 \<Longrightarrow> Blob p = Blob q \<Longrightarrow> pk_key p = pk_key q"
  by (simp add: Blob_def appendString_eq ssh_str_def)

lemma Blob_comment [simp]: "Blob (p\<lparr>pk_comment := c\<rparr>) = Blob p"
  by (simp add: Blob_def)

text \<open>A comment in the form a parsed line gives it: words separated by single spaces.\<close>

definition comment_ok :: "string \<Rightarrow> bool" where
  "comment_ok c \<longleftrightarrow> c = join_with '' '' (fields_of c) \<and> list_all word_ok (fields_of c)"

lemma word_ok_Encode: "b \<noteq> [] \<Longrightarrow> word_ok (StdEncode b)"
  using StdEncode_chars by (auto simp: word_ok_def)

lemma word_ok_type: "word_ok KeyTypeEd25519"
  by (auto simp: word_ok_def KeyTypeEd25519_def is_space_def)

lemma Blob_ne [simp]: "Blob p \<noteq> []"
  by (simp add: Blob_def appendString_eq ssh_str_def BigEndian_Put_def)

lemma AuthorizedLine_words:
  assumes "comment_ok (pk_comment p)"
  shows "AuthorizedLine p = join_with '' '' (KeyTypeEd25519 # StdEncode (Blob p) # fields_of (pk_comment p))"
proof (cases "fields_of (pk_comment p)")
  case Nil
  then have "pk_comment p = []" using assms by (simp add: comment_ok_def)
  then show ?thesis by (simp add: AuthorizedLine_def)
next
  case (Cons w ws)
  then have "pk_comment p \<noteq> []" by auto
  with Cons show ?thesis using assms by (auto simp: AuthorizedLine_def comment_ok_def)
qed

lemma ParseAuthorizedKey_Line:
  assumes "length (pk_key p) = 32" "comment_ok (pk_comment p)"
  shows "ParseAuthorizedKey (AuthorizedLine p) = Inr p"
proof -
  let ?ws = "KeyTypeEd25519 # StdEncode (Blob p) # fields_of (pk_comment p)"
  have ok: "list_all word_ok ?ws" using assms by (simp add: word_ok_Encode word_ok_type comment_ok_def)
  have "trim_space (join_with '' '' ?ws) = join_with '' '' ?ws"
    using ok by (rule trim_space_words)
  then have f: "fields_of (trim_space (AuthorizedLine p)) = ?ws"
    using fields_join [OF ok] AuthorizedLine_words [OF assms(2)] by simp
  have b: "ParsePublicBlob (Blob p) = Inr (p\<lparr>pk_comment := []\<rparr>)"
    using assms by (simp add: ParsePublicBlob_iff)
  show ?thesis
  proof (cases "fields_of (pk_comment p) = []")
    case True
    then have "pk_comment p = []" using assms by (simp add: comment_ok_def)
    with f b show ?thesis by (simp add: ParseAuthorizedKey_def)
  next
    case False
    then show ?thesis using f b assms by (simp add: ParseAuthorizedKey_def comment_ok_def [symmetric])
      (simp add: comment_ok_def)
  qed
qed

lemma private_section_ok:
  "private_section pub pr = Inr (sk, p) \<Longrightarrow>
     length sk = 64 \<and> drop 32 sk = pk_key p \<and> pk_key p = pk_key pub"
  by (auto simp: private_section_def result_iffs PrivateKeySize_def PublicKeySize_def Let_def)

lemma read_identities_ok:
  "read_identities n r = Inr ais \<Longrightarrow> ai \<in> set ais \<Longrightarrow>
     ai_blob ai = Blob (ai_public ai) \<and> length (pk_key (ai_public ai)) = 32"
proof (induction n arbitrary: r ais)
  case (Suc n)
  then obtain blob c r' where b: "r_string r = Inr (blob, r')" and c: "\<exists>t. r_string r' = Inr (c, t)"
    by (auto simp: result_iffs)
  show ?case
  proof (cases "ParsePublicBlob blob")
    case (Inl e)
    with b c Suc show ?thesis by auto
  next
    case (Inr pk)
    with b c Suc show ?thesis by (auto simp: result_iffs) (simp_all add: ParsePublicBlob_iff)
  qed
qed simp

section \<open>Properties\<close>

text \<open>The SSH wire form of a public key is exact (a blob is accepted exactly when it is the
  encoding of a 32-byte Ed25519 key, with nothing before, between or after), so two keys
  with one blob are one key; and the authorized-keys line of a key reads back as that key
  with its comment.\<close>

theorem ssh_public_key_exact:
  assumes "length (pk_key p) = 32" and "comment_ok (pk_comment p)"
  shows "ParseAuthorizedKey (AuthorizedLine p) = Inr p \<and>
     (ParsePublicBlob blob = Inr (p\<lparr>pk_comment := []\<rparr>) \<longleftrightarrow> blob = Blob p)"
  using assms by (simp add: ParseAuthorizedKey_Line ParsePublicBlob_iff)

theorem ssh_public_key_exact_witness:
  "ParseAuthorizedKey (AuthorizedLine \<lparr>pk_key = replicate 32 7, pk_comment = ''jan home''\<rparr>)
     = Inr \<lparr>pk_key = replicate 32 7, pk_comment = ''jan home''\<rparr>"
  using ssh_public_key_exact [of "\<lparr>pk_key = replicate 32 7, pk_comment = ''jan home''\<rparr>"]
  by (simp add: comment_ok_def word_ok_def is_space_def)

text \<open>No key the program takes from SSH is inconsistent: a private key file that is accepted
  holds a 64-byte key whose public half is the public key returned, and every identity an
  agent reply yields carries the very blob that encodes its 32-byte key, so that a later
  sign request names the key the agent advertised.\<close>

theorem ssh_keys_consistent:
  "(case ParseOpenSSHPrivateKey pem of
      Inl _ \<Rightarrow> True
    | Inr (sk, pub) \<Rightarrow> length sk = 64 \<and> drop 32 sk = pk_key pub \<and> length (pk_key pub) = 32) \<and>
   (case identities_reply resp of
      Inl _ \<Rightarrow> True
    | Inr ais \<Rightarrow> list_all (\<lambda>ai. ai_blob ai = Blob (ai_public ai) \<and> length (pk_key (ai_public ai)) = 32) ais)"
proof
  show "case ParseOpenSSHPrivateKey pem of
      Inl _ \<Rightarrow> True
    | Inr (sk, pub) \<Rightarrow> length sk = 64 \<and> drop 32 sk = pk_key pub \<and> length (pk_key pub) = 32"
  proof (cases "ParseOpenSSHPrivateKey pem")
    case (Inr kp)
    then obtain pubBlob pub priv where "ParsePublicBlob pubBlob = Inr pub"
      "private_section pub priv = Inr (fst kp, snd kp)"
      by (auto simp: ParseOpenSSHPrivateKey_def result_iffs Let_def)
    then show ?thesis
      using Inr private_section_ok by (fastforce simp: ParsePublicBlob_iff split: prod.splits)
  qed simp
  show "case identities_reply resp of
      Inl _ \<Rightarrow> True
    | Inr ais \<Rightarrow> list_all (\<lambda>ai. ai_blob ai = Blob (ai_public ai) \<and> length (pk_key (ai_public ai)) = 32) ais"
    using read_identities_ok
    by (fastforce simp: identities_reply_def result_iffs list_all_iff split: sum.splits)
qed

end
