(* ===== verification/ObjectCore.thy ===== *)
theory ObjectCore
  imports Multihash
begin

text \<open>
  The object model of \<^verbatim>\<open>internal/object/object.go\<close>: a type tag and a list of tagged
  fields, sorted by tag with no duplicates; the canonical VVG1 encoding and the strict
  decoder; the bytes a signature covers. The invariant \<^verbatim>\<open>wf_obj\<close> is the comment on
  \<^verbatim>\<open>Object.fields\<close> together with what memory can hold.
\<close>

type_synonym fields = "(u64 \<times> byte list) list"

record obj =
  otyp :: u64
  ofields :: fields

definition TypeBlob :: u64 where "TypeBlob = 1"
definition TypeTree :: u64 where "TypeTree = 2"
definition TypeChange :: u64 where "TypeChange = 3"
definition TypeProvenance :: u64 where "TypeProvenance = 4"
definition TypeNote :: u64 where "TypeNote = 5"
definition TypeHookConfig :: u64 where "TypeHookConfig = 6"
definition TypeAttestation :: u64 where "TypeAttestation = 7"
definition TypePrincipal :: u64 where "TypePrincipal = 8"
definition TypeArtifactRef :: u64 where "TypeArtifactRef = 9"
definition TypeEnvironment :: u64 where "TypeEnvironment = 10"

lemmas type_defs = TypeBlob_def TypeTree_def TypeChange_def TypeProvenance_def TypeNote_def
  TypeHookConfig_def TypeAttestation_def TypePrincipal_def TypeArtifactRef_def TypeEnvironment_def

definition Magic :: "byte list" where
  "Magic = [0x56, 0x56, 0x47, 0x31]"

definition tagChangeSignature :: u64 where "tagChangeSignature = 7"

section \<open>Fields\<close>

fun index_from :: "nat \<Rightarrow> fields \<Rightarrow> u64 \<Rightarrow> int" where
  "index_from i [] tag = -1"
| "index_from i ((t, _) # fs) tag = (if t = tag then int i else index_from (Suc i) fs tag)"

definition index :: "obj \<Rightarrow> u64 \<Rightarrow> int" where
  "index o' tag = index_from 0 (ofields o') tag"

definition Field :: "obj \<Rightarrow> u64 \<Rightarrow> byte list option" where
  "Field o' tag =
     (let i = index o' tag in
      if i < 0 then None else Some (snd (ofields o' ! nat i)))"

definition SetField :: "obj \<Rightarrow> u64 \<Rightarrow> byte list \<Rightarrow> obj" where
  "SetField o' tag val =
     (let i = index o' tag in
      if i \<ge> 0 then o'\<lparr>ofields := (ofields o')[nat i := (tag, val)]\<rparr>
      else o'\<lparr>ofields := sort_key fst (ofields o' @ [(tag, val)])\<rparr>)"

definition DeleteField :: "obj \<Rightarrow> u64 \<Rightarrow> obj" where
  "DeleteField o' tag =
     (let i = index o' tag in
      if i < 0 then o'
      else o'\<lparr>ofields := take (nat i) (ofields o') @ drop (nat i + 1) (ofields o')\<rparr>)"

section \<open>Encoding\<close>

definition put_field :: "byte list \<Rightarrow> u64 \<times> byte list \<Rightarrow> byte list" where
  "put_field buf f =
     (case f of (tag, val) \<Rightarrow>
        let buf = appendUvarint buf tag;
            buf = appendUvarint buf (len64 val)
        in buf @ val)"

definition Encode :: "obj \<Rightarrow> byte list" where
  "Encode o' =
     (let buf = [] @ Magic;
          buf = appendUvarint buf (otyp o');
          buf = appendUvarint buf (len64 (ofields o'))
      in foldl put_field buf (ofields o'))"

definition encodeWithout :: "obj \<Rightarrow> u64 \<Rightarrow> byte list" where
  "encodeWithout o' skip =
     (let buf = [] @ Magic;
          buf = appendUvarint buf (otyp o');
          n = foldl (\<lambda>n f. if fst f \<noteq> skip then n + 1 else n) 0 (ofields o');
          buf = appendUvarint buf (word_of_nat n)
      in foldl (\<lambda>buf f. if fst f = skip then buf else put_field buf f) buf (ofields o'))"

definition SignableBytes :: "obj \<Rightarrow> byte list" where
  "SignableBytes o' = encodeWithout o' tagChangeSignature"

definition SetSignature :: "obj \<Rightarrow> byte list \<Rightarrow> obj" where
  "SetSignature o' blob = SetField o' tagChangeSignature blob"

definition RawSignature :: "obj \<Rightarrow> byte list option" where
  "RawSignature o' = Field o' tagChangeSignature"

definition ID :: "hash_funs \<Rightarrow> obj \<Rightarrow> code \<Rightarrow> goerr + multihash" where
  "ID h o' c = Sum h c (Encode o')"

section \<open>Construction and decoding\<close>

definition newObject :: "u64 \<Rightarrow> fields \<Rightarrow> goerr + obj" where
  "newObject typ fs =
     (let fs = sort_key fst fs in
      if list_ex (\<lambda>i. fst (fs ! i) = fst (fs ! (i - 1))) [1..<length fs]
      then Inl (Panic ''object: duplicate field tag'')
      else Inr \<lparr>otyp = typ, ofields = fs\<rparr>)"

definition field_body :: "(u64 \<times> byte list) option \<Rightarrow> cursor \<Rightarrow> goerr + ((u64 \<times> byte list) \<times> cursor)" where
  "field_body prev c =
     rbind (c_uvarint c) (\<lambda>(tag, c).
       if (case prev of None \<Rightarrow> False | Some (p, _) \<Rightarrow> tag \<le> p)
       then Inl (Sentinel ErrMalformed ''fields not sorted/unique by tag'')
       else rbind (c_uvarint c) (\<lambda>(n, c).
            rbind (c_take n c) (\<lambda>(val, c).
            Inr ((tag, val), c))))"

definition Decode :: "byte list \<Rightarrow> goerr + obj" where
  "Decode b =
     (case c_take 4 b of
        Inl _ \<Rightarrow> Inl (Sentinel ErrMalformed ''bad magic'')
      | Inr (magic, c) \<Rightarrow>
          if magic \<noteq> Magic then Inl (Sentinel ErrMalformed ''bad magic'')
          else
            rbind (c_uvarint c) (\<lambda>(typ, c).
            rbind (c_uvarint c) (\<lambda>(n, c).
            rbind (make_cap 32 n) (\<lambda>_.
            rbind (read_items field_body (unat n) None c) (\<lambda>(fs, c).
            if \<not> c_empty c then Inl (Sentinel ErrMalformed ''trailing bytes'')
            else Inr \<lparr>otyp = typ, ofields = fs\<rparr>)))))"

section \<open>The invariant\<close>

definition sorted_fields :: "fields \<Rightarrow> bool" where
  "sorted_fields fs \<longleftrightarrow> sorted_wrt (<) (map fst fs) \<and> (\<forall>f \<in> set fs. fits64 (snd f))"

definition wf_fields :: "fields \<Rightarrow> bool" where
  "wf_fields fs \<longleftrightarrow> sorted_fields fs \<and> length fs * 32 \<le> max_alloc"

definition wf_obj :: "obj \<Rightarrow> bool" where
  "wf_obj o' = wf_fields (ofields o')"

subsection \<open>Encoding, as a concatenation\<close>

definition enc_field :: "u64 \<times> byte list \<Rightarrow> byte list" where
  "enc_field f = put_field [] f"

lemma enc_field_eq: "enc_field (t, v) = appendUvarint [] t @ put_bytes [] v"
  using appendUvarint_append [of "appendUvarint [] t" "len64 v"]
  by (simp add: enc_field_def put_field_def put_bytes_def)

lemma put_field_append: "put_field buf f = buf @ enc_field f"
proof (cases f)
  case (Pair t v)
  have "put_field buf (t, v) = appendUvarint (appendUvarint buf t) (len64 v) @ v"
    by (simp add: put_field_def)
  also have "\<dots> = buf @ enc_field (t, v)"
    using appendUvarint_append [of buf t] appendUvarint_append [of "buf @ appendUvarint [] t" "len64 v"]
    by (simp add: enc_field_eq put_bytes_def)
  finally show ?thesis using Pair by simp
qed

lemma foldl_put_field: "foldl put_field buf fs = buf @ concat (map enc_field fs)"
  by (induction fs arbitrary: buf) (simp_all add: put_field_append)

definition enc_counted :: "u64 \<Rightarrow> fields \<Rightarrow> byte list" where
  "enc_counted typ fs =
     Magic @ appendUvarint [] typ @ appendUvarint [] (len64 fs) @ concat (map enc_field fs)"

lemma Encode_eq: "Encode o' = enc_counted (otyp o') (ofields o')"
proof -
  have "Encode o' = appendUvarint (appendUvarint Magic (otyp o')) (len64 (ofields o'))
      @ concat (map enc_field (ofields o'))"
    by (simp add: Encode_def foldl_put_field)
  then show ?thesis
    using appendUvarint_append [of Magic "otyp o'"]
      appendUvarint_append [of "Magic @ appendUvarint [] (otyp o')" "len64 (ofields o')"]
    by (simp add: enc_counted_def)
qed

lemma foldl_count:
  "foldl (\<lambda>n f. if fst f \<noteq> t then n + 1 else n) m fs = m + length (filter (\<lambda>f. fst f \<noteq> t) fs)"
  for m :: nat
  by (induction fs arbitrary: m) simp_all

lemma foldl_skip:
  "foldl (\<lambda>buf f. if fst f = t then buf else put_field buf f) buf fs
     = buf @ concat (map enc_field (filter (\<lambda>f. fst f \<noteq> t) fs))"
  by (induction fs arbitrary: buf) (simp_all add: put_field_append)

lemma encodeWithout_eq:
  "encodeWithout o' t = enc_counted (otyp o') (filter (\<lambda>f. fst f \<noteq> t) (ofields o'))"
proof -
  let ?fs = "filter (\<lambda>f. fst f \<noteq> t) (ofields o')"
  have "encodeWithout o' t = appendUvarint (appendUvarint Magic (otyp o')) (len64 ?fs)
      @ concat (map enc_field ?fs)"
    by (simp add: encodeWithout_def foldl_count foldl_skip len64_def)
  then show ?thesis
    using appendUvarint_append [of Magic "otyp o'"]
      appendUvarint_append [of "Magic @ appendUvarint [] (otyp o')" "len64 ?fs"]
    by (simp add: enc_counted_def)
qed

subsection \<open>The field format is canonical\<close>

definition field_ok :: "(u64 \<times> byte list) option \<Rightarrow> u64 \<times> byte list \<Rightarrow> bool" where
  "field_ok prev f \<longleftrightarrow> key_after fst prev f \<and> fits64 (snd f)"

lemma field_body_iff:
  "field_body prev c = Inr (f, r) \<longleftrightarrow> c = enc_field f @ r \<and> field_ok prev f"
proof (cases f)
  case (Pair t v)
  have "field_body prev c = Inr ((t, v), r) \<longleftrightarrow>
      (\<exists>c'. c = appendUvarint [] t @ c' \<and> c_bytes c' = Inr (v, r)) \<and> key_after fst prev (t, v)"
    by (cases prev) (auto simp: field_body_def c_bytes_def result_iffs c_uvarint_iff not_le)
  then show ?thesis
    using Pair by (auto simp: enc_field_eq field_ok_def c_bytes_iff)
qed

interpretation object_fields: canonical_format enc_field field_body field_ok
  by unfold_locales (simp_all add: field_body_iff)

lemma chained_field_ok:
  "chained field_ok None fs \<longleftrightarrow> sorted_fields fs"
  using chained_sorted [where key = fst and P = "\<lambda>f. fits64 (snd f)" and prev = None and xs = fs]
  by (simp add: field_ok_def [abs_def] sorted_fields_def)

lemma wf_fields_len: "wf_fields fs \<Longrightarrow> fits64 fs"
  by (simp add: wf_fields_def fits64_def max_alloc_def)

lemma Magic_length [simp]: "length Magic = 4"
  by (simp add: Magic_def)

lemma Decode_iff: "Decode b = Inr o' \<longleftrightarrow> b = Encode o' \<and> wf_obj o'"
proof -
  have unfold: "Decode b = Inr o' \<longleftrightarrow>
      (\<exists>n c. b = Magic @ appendUvarint [] (otyp o') @ appendUvarint [] n @ c \<and>
           unat n * 32 \<le> max_alloc \<and> read_items field_body (unat n) None c = Inr (ofields o', []))"
    (is "_ \<longleftrightarrow> ?R")
  proof
    assume "Decode b = Inr o'"
    then show ?R
      by (auto simp: Decode_def result_iffs cursor_iffs split: sum.splits prod.splits if_splits)
  next
    assume ?R
    then obtain n c where b: "b = Magic @ appendUvarint [] (otyp o') @ appendUvarint [] n @ c"
      and n: "unat n * 32 \<le> max_alloc"
      and rd: "read_items field_body (unat n) None c = Inr (ofields o', [])" by blast
    have "c_take 4 b = Inr (Magic, appendUvarint [] (otyp o') @ appendUvarint [] n @ c)"
      unfolding b c_take_iff by simp
    with n rd show "Decode b = Inr o'"
      by (simp add: Decode_def c_empty_def make_cap_def)
  qed
  show ?thesis
  proof
    assume "Decode b = Inr o'"
    then obtain n c where b: "b = Magic @ appendUvarint [] (otyp o') @ appendUvarint [] n @ c"
      and n: "unat n * 32 \<le> max_alloc"
      and rd: "read_items field_body (unat n) None c = Inr (ofields o', [])"
      unfolding unfold by blast
    from object_fields.items_canonical [OF rd]
    have c: "c = concat (map enc_field (ofields o'))" "chained field_ok None (ofields o')"
      and len: "length (ofields o') = unat n" by auto
    then show "b = Encode o' \<and> wf_obj o'"
      using b n len64_unique [OF len]
      by (simp add: Encode_eq enc_counted_def wf_obj_def wf_fields_def chained_field_ok)
  next
    assume wf: "b = Encode o' \<and> wf_obj o'"
    then have ch: "chained field_ok None (ofields o')" and f: "fits64 (ofields o')"
      and n: "length (ofields o') * 32 \<le> max_alloc"
      using wf_fields_len by (auto simp: wf_obj_def wf_fields_def chained_field_ok)
    have "read_items field_body (length (ofields o')) None
        (concat (map enc_field (ofields o')) @ []) = Inr (ofields o', [])"
      by (rule object_fields.items_enc [OF ch])
    with wf f n show "Decode b = Inr o'"
      unfolding unfold
      by (intro exI [of _ "len64 (ofields o')"] exI [of _ "concat (map enc_field (ofields o'))"])
        (simp add: Encode_eq enc_counted_def)
  qed
qed

lemma Decode_Encode [simp, codec_simps]: "wf_obj o' \<Longrightarrow> Decode (Encode o') = Inr o'"
  by (simp add: Decode_iff)

lemma Encode_inj: "wf_obj o1 \<Longrightarrow> wf_obj o2 \<Longrightarrow> Encode o1 = Encode o2 \<Longrightarrow> o1 = o2"
  by (metis Decode_Encode Inr_inject)

section \<open>Fields as a map\<close>

lemma index_from_spec:
  "index_from i fs t = (case map_of fs t of
     None \<Rightarrow> -1 | Some v \<Rightarrow> index_from i fs t)"
  "map_of fs t = Some v \<Longrightarrow>
     \<exists>k < length fs. index_from i fs t = int (i + k) \<and> fs ! k = (t, v) \<and> (\<forall>j < k. fst (fs ! j) \<noteq> t)"
proof -
  show "index_from i fs t = (case map_of fs t of
     None \<Rightarrow> -1 | Some v \<Rightarrow> index_from i fs t)"
    by (induction fs arbitrary: i) (auto split: option.splits)
  show "map_of fs t = Some v \<Longrightarrow>
     \<exists>k < length fs. index_from i fs t = int (i + k) \<and> fs ! k = (t, v) \<and> (\<forall>j < k. fst (fs ! j) \<noteq> t)"
  proof (induction fs arbitrary: i)
    case Nil
    then show ?case by simp
  next
    case (Cons f fs)
    show ?case
    proof (cases "fst f = t")
      case True
      with Cons.prems show ?thesis by (intro exI [of _ 0]) (cases f, simp)
    next
      case False
      with Cons.prems have "map_of fs t = Some v" by (cases f) simp
      from Cons.IH [OF this, of "Suc i"] obtain k where
        "k < length fs" "index_from (Suc i) fs t = int (Suc i + k)" "fs ! k = (t, v)"
        "\<forall>j < k. fst (fs ! j) \<noteq> t" by blast
      with False show ?thesis
        by (intro exI [of _ "Suc k"]) (cases f, auto simp: nth_Cons split: nat.splits)
    qed
  qed
qed

lemma index_None: "map_of (ofields o') t = None \<Longrightarrow> index o' t = -1"
  using index_from_spec(1) [of 0 "ofields o'" t] by (simp add: index_def)

lemma index_Some:
  assumes "map_of (ofields o') t = Some v"
  obtains k where "k < length (ofields o')" "index o' t = int k" "ofields o' ! k = (t, v)"
    "\<forall>j < k. fst (ofields o' ! j) \<noteq> t"
  using index_from_spec(2) [OF assms, of 0] by (auto simp: index_def)

lemma Field_eq: "Field o' t = map_of (ofields o') t"
proof (cases "map_of (ofields o') t")
  case None
  then show ?thesis by (simp add: Field_def index_None)
next
  case (Some v)
  then obtain k where "index o' t = int k" "ofields o' ! k = (t, v)"
    by (rule index_Some)
  with Some show ?thesis by (simp add: Field_def)
qed

lemma sorted_fields_distinct: "sorted_fields fs \<Longrightarrow> distinct (map fst fs)"
  by (simp add: sorted_fields_def strict_sorted_iff)

lemma map_of_sort_key: "distinct (map fst fs) \<Longrightarrow> map_of (sort_key fst fs) = map_of fs"
proof -
  assume d: "distinct (map fst fs)"
  have "set (sort_key fst fs) = set fs" by simp
  moreover have "distinct (map fst (sort_key fst fs))"
    using d by (simp add: distinct_map)
  ultimately show ?thesis using d by (intro map_of_inject_set [THEN iffD2]) auto
qed

lemma sort_key_sorted_fields:
  "distinct (map fst fs) \<Longrightarrow> \<forall>f \<in> set fs. fits64 (snd f) \<Longrightarrow> sorted_fields (sort_key fst fs)"
proof -
  assume d: "distinct (map fst fs)" and f: "\<forall>f \<in> set fs. fits64 (snd f)"
  have "distinct (map fst (sort_key fst fs))"
    using d by (simp add: distinct_map)
  with f show ?thesis by (simp add: sorted_fields_def strict_sorted_iff)
qed

lemma SetField_absent:
  "map_of (ofields o') t = None \<Longrightarrow>
   ofields (SetField o' t v) = sort_key fst (ofields o' @ [(t, v)])"
  by (simp add: SetField_def index_None)

lemma SetField_present:
  assumes "map_of (ofields o') t = Some w"
  obtains k where "k < length (ofields o')" "ofields o' ! k = (t, w)"
    "ofields (SetField o' t v) = (ofields o')[k := (t, v)]"
  using assms by (rule index_Some) (auto simp: SetField_def)

lemma otyp_SetField [simp]: "otyp (SetField o' t v) = otyp o'"
  by (simp add: SetField_def Let_def)

lemma SetField_sorted:
  assumes "sorted_fields (ofields o')" "fits64 v"
  shows "sorted_fields (ofields (SetField o' t v))"
proof (cases "map_of (ofields o') t")
  case None
  then have "distinct (map fst (ofields o' @ [(t, v)]))"
    using sorted_fields_distinct [OF assms(1)] by (simp add: map_of_eq_None_iff)
  then show ?thesis
    unfolding SetField_absent [OF None]
    by (rule sort_key_sorted_fields) (use assms in \<open>auto simp: sorted_fields_def\<close>)
next
  case (Some w)
  then obtain k where k: "k < length (ofields o')" "ofields o' ! k = (t, w)"
    "ofields (SetField o' t v) = (ofields o')[k := (t, v)]" by (rule SetField_present)
  then have "map fst ((ofields o')[k := (t, v)]) = map fst (ofields o')"
    by (simp add: map_update) (metis list_update_id fst_conv nth_map)
  then show ?thesis
    using assms k set_update_subset_insert [of "ofields o'" k "(t, v)"]
    by (auto simp: sorted_fields_def simp del: map_update)
qed

lemma Field_SetField:
  assumes "sorted_fields (ofields o')"
  shows "Field (SetField o' t v) t' = (if t' = t then Some v else Field o' t')"
proof (cases "map_of (ofields o') t")
  case None
  then have "distinct (map fst (ofields o' @ [(t, v)]))"
    using sorted_fields_distinct [OF assms(1)] by (simp add: map_of_eq_None_iff)
  from map_of_sort_key [OF this] None show ?thesis
    by (auto simp: Field_eq SetField_absent map_add_def split: option.splits)
next
  case (Some w)
  then obtain k where k: "k < length (ofields o')" "ofields o' ! k = (t, w)"
    "ofields (SetField o' t v) = (ofields o')[k := (t, v)]" by (rule SetField_present)
  have split: "ofields o' = take k (ofields o') @ (t, w) # drop (Suc k) (ofields o')"
    using k id_take_nth_drop by metis
  have upd: "(ofields o')[k := (t, v)] = take k (ofields o') @ (t, v) # drop (Suc k) (ofields o')"
    using k by (simp add: upd_conv_take_nth_drop)
  have "distinct (map fst (take k (ofields o') @ (t, w) # drop (Suc k) (ofields o')))"
    using sorted_fields_distinct [OF assms(1)] split by simp
  then have "map_of (take k (ofields o')) t = None"
    by (auto simp: map_of_eq_None_iff)
  then have "map_of ((ofields o')[k := (t, v)]) = (map_of (ofields o'))(t \<mapsto> v)"
    unfolding upd by (subst (2) split) (auto simp: map_add_def fun_eq_iff split: option.splits)
  then show ?thesis using k(3) by (simp add: Field_eq)
qed

lemma filter_key_absent: "map_of fs t = None \<Longrightarrow> filter (\<lambda>f. fst f \<noteq> t) fs = fs"
  by (simp add: map_of_eq_None_iff filter_id_conv image_iff) (metis fst_conv)

lemma DeleteField_eq:
  assumes "sorted_fields (ofields o')"
  shows "ofields (DeleteField o' t) = filter (\<lambda>f. fst f \<noteq> t) (ofields o')"
proof (cases "map_of (ofields o') t")
  case None
  then show ?thesis by (simp add: DeleteField_def index_None filter_key_absent)
next
  case (Some v)
  then obtain k where k: "k < length (ofields o')" "index o' t = int k" "ofields o' ! k = (t, v)"
    by (rule index_Some)
  let ?a = "take k (ofields o')" and ?b = "drop (Suc k) (ofields o')"
  have split: "ofields o' = ?a @ (t, v) # ?b"
    using k id_take_nth_drop by metis
  have "distinct (map fst (?a @ (t, v) # ?b))"
    using sorted_fields_distinct [OF assms] split by simp
  then have "filter (\<lambda>f. fst f \<noteq> t) ?a = ?a" "filter (\<lambda>f. fst f \<noteq> t) ?b = ?b"
    by (auto simp: filter_id_conv)
  then have "filter (\<lambda>f. fst f \<noteq> t) (?a @ (t, v) # ?b) = ?a @ ?b" by simp
  with k split show ?thesis by (simp add: DeleteField_def)
qed

lemma otyp_DeleteField [simp]: "otyp (DeleteField o' t) = otyp o'"
  by (simp add: DeleteField_def Let_def)

lemma sorted_fields_filter: "sorted_fields fs \<Longrightarrow> sorted_fields (filter P fs)"
  unfolding sorted_fields_def by (induction fs) auto

lemma wf_DeleteField: "wf_obj o' \<Longrightarrow> wf_obj (DeleteField o' t)"
proof -
  assume wf: "wf_obj o'"
  have "length (filter (\<lambda>f. fst f \<noteq> t) (ofields o')) * 32 \<le> length (ofields o') * 32" by simp
  also have "\<dots> \<le> max_alloc" using wf by (simp add: wf_obj_def wf_fields_def)
  finally show ?thesis using wf
    by (simp add: wf_obj_def wf_fields_def DeleteField_eq sorted_fields_filter)
qed

lemma Field_DeleteField:
  "sorted_fields (ofields o') \<Longrightarrow>
   Field (DeleteField o' t) t' = (if t' = t then None else Field o' t')"
proof -
  have "map_of (filter (\<lambda>f. fst f \<noteq> t) fs) t' = (if t' = t then None else map_of fs t')"
    for fs :: fields
    by (induction fs) auto
  then show "sorted_fields (ofields o') \<Longrightarrow> ?thesis"
    by (simp add: Field_eq DeleteField_eq)
qed

lemma filter_SetField:
  assumes "sorted_fields (ofields o')"
  shows "filter (\<lambda>f. fst f \<noteq> t) (ofields (SetField o' t v)) = filter (\<lambda>f. fst f \<noteq> t) (ofields o')"
proof (cases "map_of (ofields o') t")
  case None
  have "sort_key fst (filter (\<lambda>f. fst f \<noteq> t) (ofields o')) = filter (\<lambda>f. fst f \<noteq> t) (ofields o')"
    using sorted_fields_filter [OF assms, of "\<lambda>f. fst f \<noteq> t"]
    by (intro sort_key_id_if_sorted) (simp add: sorted_fields_def strict_sorted_iff)
  then show ?thesis by (simp add: SetField_absent [OF None] filter_sort)
next
  case (Some w)
  then obtain k where k: "k < length (ofields o')" "ofields o' ! k = (t, w)"
    "ofields (SetField o' t v) = (ofields o')[k := (t, v)]" by (rule SetField_present)
  let ?a = "take k (ofields o')" and ?b = "drop (Suc k) (ofields o')"
  have "ofields o' = ?a @ (t, w) # ?b" using k id_take_nth_drop by metis
  moreover have "(ofields o')[k := (t, v)] = ?a @ (t, v) # ?b"
    using k by (simp add: upd_conv_take_nth_drop)
  moreover have "filter (\<lambda>f. fst f \<noteq> t) (?a @ (t, v) # ?b) = filter (\<lambda>f. fst f \<noteq> t) (?a @ (t, w) # ?b)"
    by simp
  ultimately show ?thesis using k(3) by simp
qed

section \<open>What a signature covers\<close>

lemma obj_eq_iff: "o1 = o2 \<longleftrightarrow> otyp o1 = otyp o2 \<and> ofields o1 = ofields o2" for o1 o2 :: obj
  by (cases o1; cases o2) simp

lemma SignableBytes_eq: "sorted_fields (ofields o') \<Longrightarrow>
    SignableBytes o' = Encode (DeleteField o' tagChangeSignature)"
  by (simp add: SignableBytes_def encodeWithout_eq Encode_eq DeleteField_eq)

lemma SignableBytes_SetField:
  "sorted_fields (ofields o') \<Longrightarrow>
   SignableBytes (SetField o' tagChangeSignature s) = SignableBytes o'"
  by (simp add: SignableBytes_def encodeWithout_eq filter_SetField)

lemma SignableBytes_inj:
  assumes "wf_obj o1" "wf_obj o2" "SignableBytes o1 = SignableBytes o2"
  shows "otyp o1 = otyp o2" and "t \<noteq> tagChangeSignature \<Longrightarrow> Field o1 t = Field o2 t"
proof -
  have s: "sorted_fields (ofields o1)" "sorted_fields (ofields o2)"
    using assms by (simp_all add: wf_obj_def wf_fields_def)
  have "DeleteField o1 tagChangeSignature = DeleteField o2 tagChangeSignature"
    using assms s by (intro Encode_inj) (simp_all add: wf_DeleteField SignableBytes_eq)
  then have "otyp (DeleteField o1 tagChangeSignature) = otyp (DeleteField o2 tagChangeSignature)"
    and "Field (DeleteField o1 tagChangeSignature) t = Field (DeleteField o2 tagChangeSignature) t"
    by simp_all
  then show "otyp o1 = otyp o2" "t \<noteq> tagChangeSignature \<Longrightarrow> Field o1 t = Field o2 t"
    using s by (simp_all add: Field_DeleteField)
qed

section \<open>Objects built from field lists\<close>

definition mkobj :: "u64 \<Rightarrow> fields \<Rightarrow> obj" where
  "mkobj typ fs = \<lparr>otyp = typ, ofields = sort_key fst fs\<rparr>"

lemma no_adjacent_distinct:
  fixes xs :: "'a::linorder list"
  assumes "sorted xs"
  shows "list_ex (\<lambda>i. xs ! i = xs ! (i - 1)) [1..<length xs] \<longleftrightarrow> \<not> distinct xs"
proof
  assume "list_ex (\<lambda>i. xs ! i = xs ! (i - 1)) [1..<length xs]"
  then obtain i where "1 \<le> i" "i < length xs" "xs ! i = xs ! (i - 1)" by (auto simp: list_ex_iff)
  then have "i \<noteq> i - 1" "i - 1 < length xs" by simp_all
  with \<open>i < length xs\<close> \<open>xs ! i = xs ! (i - 1)\<close> show "\<not> distinct xs"
    unfolding distinct_conv_nth by blast
next
  assume d: "\<not> distinct xs"
  have "\<not> sorted_wrt (<) xs" using d strict_sorted_iff by blast
  then obtain i where i: "Suc i < length xs" "\<not> xs ! i < xs ! Suc i"
    by (auto simp: sorted_wrt_iff_nth_Suc_transp)
  with assms have "xs ! i = xs ! Suc i"
    by (meson antisym_conv2 lessI less_imp_le sorted_nth_mono)
  with i show "list_ex (\<lambda>i. xs ! i = xs ! (i - 1)) [1..<length xs]"
    by (auto simp: list_ex_iff intro!: bexI [of _ "Suc i"])
qed

lemma no_adjacent_key_distinct:
  fixes key :: "'a \<Rightarrow> 'k::linorder"
  shows "list_ex (\<lambda>i. key (sort_key key xs ! i) = key (sort_key key xs ! (i - 1)))
      [1..<length (sort_key key xs)] \<longleftrightarrow> \<not> distinct (map key xs)"
proof -
  let ?s = "sort_key key xs"
  have "list_ex (\<lambda>i. key (?s ! i) = key (?s ! (i - 1))) [1..<length ?s] \<longleftrightarrow>
      list_ex (\<lambda>i. map key ?s ! i = map key ?s ! (i - 1)) [1..<length (map key ?s)]"
    unfolding list_ex_iff by (intro bex_cong) (auto simp: less_imp_diff_less)
  also have "\<dots> \<longleftrightarrow> \<not> distinct (map key ?s)"
    by (rule no_adjacent_distinct) simp
  also have "\<dots> \<longleftrightarrow> \<not> distinct (map key xs)" by (simp add: distinct_map)
  finally show ?thesis .
qed

lemma newObject_eq:
  "newObject typ fs =
     (if distinct (map fst fs) then Inr (mkobj typ fs)
      else Inl (Panic ''object: duplicate field tag''))"
  by (simp only: newObject_def mkobj_def Let_def no_adjacent_key_distinct if_not_P if_P cong: if_cong)
    simp

lemma newObject_distinct: "distinct (map fst fs) \<Longrightarrow> newObject typ fs = Inr (mkobj typ fs)"
  by (simp add: newObject_eq)

lemma otyp_mkobj [simp]: "otyp (mkobj typ fs) = typ"
  by (simp add: mkobj_def)

lemma Field_mkobj: "distinct (map fst fs) \<Longrightarrow> Field (mkobj typ fs) t = map_of fs t"
  by (simp add: Field_eq mkobj_def map_of_sort_key)

lemma wf_mkobj:
  "distinct (map fst fs) \<Longrightarrow> \<forall>f \<in> set fs. fits64 (snd f) \<Longrightarrow> length fs * 32 \<le> max_alloc \<Longrightarrow>
   wf_obj (mkobj typ fs)"
  by (simp add: wf_obj_def wf_fields_def mkobj_def sort_key_sorted_fields)

section \<open>Pieces the typed views share\<close>

text \<open>\<^verbatim>\<open>if v != nil { fields = append(fields, field{tag, v}) }\<close>, and the same for a non-empty string.\<close>

definition opt_field :: "u64 \<Rightarrow> byte list option \<Rightarrow> fields" where
  "opt_field t m = (case m of None \<Rightarrow> [] | Some v \<Rightarrow> [(t, v)])"

definition str_field :: "u64 \<Rightarrow> string \<Rightarrow> fields" where
  "str_field t s = (if s \<noteq> [] then [(t, bytes_of s)] else [])"

text \<open>\<^verbatim>\<open>if v, ok := o.Field(tag); ok { x = string(v) }\<close>, and for a hash copied with \<^verbatim>\<open>append\<close>.\<close>

definition str_of_field :: "obj \<Rightarrow> u64 \<Rightarrow> string" where
  "str_of_field o' t = (case Field o' t of None \<Rightarrow> [] | Some v \<Rightarrow> string_of v)"

definition hash_of_field :: "obj \<Rightarrow> u64 \<Rightarrow> multihash option" where
  "hash_of_field o' t = (case Field o' t of None \<Rightarrow> None | Some v \<Rightarrow> nil_if_empty v)"

text \<open>\<^verbatim>\<open>x, n, err := readUvarint(v); if err != nil || n != len(v)\<close>.\<close>

definition readWhole :: "goerr \<Rightarrow> byte list \<Rightarrow> goerr + u64" where
  "readWhole e v =
     (case readUvarint v of
        Inl _ \<Rightarrow> Inl e
      | Inr (x, n) \<Rightarrow> if n \<noteq> length v then Inl e else Inr x)"

lemma readWhole_append [simp, codec_simps]: "readWhole e (appendUvarint [] x) = Inr x"
  using readUvarint_append [of x "[]"] by (simp add: readWhole_def)

lemma readWhole_iff: "readWhole e v = Inr x \<longleftrightarrow> v = appendUvarint [] x"
proof
  assume "readWhole e v = Inr x"
  then obtain n where "readUvarint v = Inr (x, n)" "n = length v"
    by (auto simp: readWhole_def split: sum.splits if_splits)
  then show "v = appendUvarint [] x" using readUvarint_canonical(1) by fastforce
qed simp

lemma dom_opt_field [simp]: "fst ` set (opt_field t m) = (if m = None then {} else {t})"
  by (auto simp: opt_field_def split: option.splits)

lemma dom_str_field [simp]: "fst ` set (str_field t s) = (if s = [] then {} else {t})"
  by (auto simp: str_field_def)

lemma distinct_opt_field [simp]: "distinct (map fst (opt_field t m))"
  by (auto simp: opt_field_def split: option.splits)

lemma distinct_str_field [simp]: "distinct (map fst (str_field t s))"
  by (auto simp: str_field_def)

lemma map_of_opt_field [simp]: "map_of (opt_field t m) t' = (if t' = t then m else None)"
  by (auto simp: opt_field_def split: option.splits)

lemma map_of_str_field [simp]:
  "map_of (str_field t s) t' = (if t' = t \<and> s \<noteq> [] then Some (bytes_of s) else None)"
  by (auto simp: str_field_def)

lemma length_opt_field: "length (opt_field t m) \<le> 1"
  by (auto simp: opt_field_def split: option.splits)

lemma length_str_field: "length (str_field t s) \<le> 1"
  by (auto simp: str_field_def)

section \<open>Lists of hashes, strings and signatures of a field value\<close>

definition encodeHashList :: "multihash list \<Rightarrow> byte list" where
  "encodeHashList ids =
     foldl (\<lambda>b id'. appendUvarint b (len64 id') @ id')
       (appendUvarint [] (len64 ids)) ids"

definition hash_body :: "goerr \<Rightarrow> multihash option \<Rightarrow> cursor \<Rightarrow> goerr + (multihash \<times> cursor)" where
  "hash_body e prev c =
     rbind (c_uvarint c) (\<lambda>(idLen, c).
     rbind (c_take idLen c) (\<lambda>(id', c).
     if (case prev of None \<Rightarrow> False | Some p \<Rightarrow> id' \<le> p) then Inl e
     else Inr (id', c)))"

definition decodeHashRun :: "goerr \<Rightarrow> goerr \<Rightarrow> byte list \<Rightarrow> goerr + multihash list" where
  "decodeHashRun unsorted trailing b =
     rbind (c_uvarint b) (\<lambda>(n, c).
     rbind (read_items (hash_body unsorted) (unat n) None c) (\<lambda>(out, c).
     if \<not> c_empty c then Inl trailing else Inr out))"

definition sortedUniqueHashes :: "multihash list \<Rightarrow> multihash list" where
  "sortedUniqueHashes ids = (if ids = [] then [] else remdups_adj (sort ids))"

definition hash_ok :: "multihash option \<Rightarrow> multihash \<Rightarrow> bool" where
  "hash_ok prev h \<longleftrightarrow> key_after id prev h \<and> fits64 h"

lemma foldl_put_bytes: "foldl (\<lambda>b v. appendUvarint b (len64 v) @ v) b vs
    = b @ concat (map (put_bytes []) vs)"
proof (induction vs arbitrary: b)
  case Nil
  then show ?case by simp
next
  case (Cons v vs)
  have "appendUvarint b (len64 v) @ v = b @ put_bytes [] v"
    using put_bytes_append [of b v] by (simp add: put_bytes_def)
  with Cons show ?case by simp
qed

lemma encodeHashList_eq:
  "encodeHashList ids = appendUvarint [] (len64 ids) @ concat (map (put_bytes []) ids)"
  by (simp add: encodeHashList_def foldl_put_bytes)

lemma hash_body_iff:
  "hash_body e prev c = Inr (h, r) \<longleftrightarrow> c = put_bytes [] h @ r \<and> hash_ok prev h"
  by (cases prev) (auto simp: hash_body_def c_bytes_fold result_iffs cursor_iffs hash_ok_def not_le)

interpretation hash_list: canonical_format "put_bytes []" "hash_body e" hash_ok for e
  by unfold_locales (simp_all add: hash_body_iff)

lemma chained_hash_ok: "chained hash_ok None hs \<longleftrightarrow> sorted_wrt (<) hs \<and> (\<forall>h \<in> set hs. fits64 h)"
  using chained_sorted [where key = id and P = fits64 and prev = None and xs = hs]
  by (simp add: hash_ok_def [abs_def])

definition wf_hash_list :: "multihash list \<Rightarrow> bool" where
  "wf_hash_list hs \<longleftrightarrow> fits64 hs \<and> (\<forall>h \<in> set hs. fits64 h)"

lemma decodeHashRun_iff:
  "decodeHashRun e1 e2 b = Inr hs \<longleftrightarrow>
     b = encodeHashList hs \<and> sorted_wrt (<) hs \<and> wf_hash_list hs"
proof
  assume "decodeHashRun e1 e2 b = Inr hs"
  then obtain n c where b: "b = appendUvarint [] n @ c"
    and rd: "read_items (hash_body e1) (unat n) None c = Inr (hs, [])"
    by (auto simp: decodeHashRun_def result_iffs cursor_iffs)
  from hash_list.items_canonical [OF rd] b len64_unique [of hs n]
  show "b = encodeHashList hs \<and> sorted_wrt (<) hs \<and> wf_hash_list hs"
    by (simp add: encodeHashList_eq chained_hash_ok wf_hash_list_def)
next
  assume a: "b = encodeHashList hs \<and> sorted_wrt (<) hs \<and> wf_hash_list hs"
  then have "chained hash_ok None hs" by (simp add: chained_hash_ok wf_hash_list_def)
  from hash_list.items_enc [OF this, of e1 "[]"]
  have "read_items (hash_body e1) (length hs) None (concat (map (put_bytes []) hs)) = Inr (hs, [])"
    by simp
  with a show "decodeHashRun e1 e2 b = Inr hs"
    by (simp add: decodeHashRun_def encodeHashList_eq wf_hash_list_def c_empty_def)
qed

lemma sorted_remdups_adj_strict:
  fixes xs :: "'a::linorder list"
  shows "sorted xs \<Longrightarrow> sorted_wrt (<) (remdups_adj xs)"
  by (induction xs rule: remdups_adj.induct) (auto simp: less_le)

lemma sortedUniqueHashes_eq: "sortedUniqueHashes ids = remdups_adj (sort ids)"
  by (simp add: sortedUniqueHashes_def)

lemma sortedUniqueHashes_Nil [simp]: "sortedUniqueHashes ids = [] \<longleftrightarrow> ids = []" "sortedUniqueHashes [] = []"
proof -
  have "sort ids = [] \<longleftrightarrow> ids = []" by (metis set_empty set_sort)
  then show "sortedUniqueHashes ids = [] \<longleftrightarrow> ids = []" by (simp add: sortedUniqueHashes_eq)
qed (simp add: sortedUniqueHashes_def)

lemma sortedUniqueHashes_strict: "sorted_wrt (<) (sortedUniqueHashes ids)"
  by (simp add: sortedUniqueHashes_eq sorted_remdups_adj_strict)

lemma set_sortedUniqueHashes [simp]: "set (sortedUniqueHashes ids) = set ids"
  by (simp add: sortedUniqueHashes_eq)

lemma wf_sortedUniqueHashes: "wf_hash_list ids \<Longrightarrow> wf_hash_list (sortedUniqueHashes ids)"
  using remdups_adj_length [of "sort ids"]
  by (auto simp: wf_hash_list_def sortedUniqueHashes_eq fits64_def)

text \<open>Canonical lists are the fixed points, so the order and multiplicity of the input are lost.\<close>

lemma sortedUniqueHashes_cong:
  "set ids = set ids' \<Longrightarrow> sortedUniqueHashes ids = sortedUniqueHashes ids'"
  by (rule strict_sorted_unique) (simp_all add: sortedUniqueHashes_strict)

lemma sortedUniqueHashes_id: "sorted_wrt (<) ids \<Longrightarrow> sortedUniqueHashes ids = ids"
  by (rule strict_sorted_unique) (simp_all add: sortedUniqueHashes_strict)

section \<open>Properties\<close>

text \<open>C1. The VVG1 encoding is exact: the decoder accepts a byte string if and only if it
  is the encoding of a well-formed object, and then returns that object. In particular
  every object that fits in memory is read back unchanged, unknown fields included, and
  no two byte strings decode to the same object.\<close>

theorem vvg1_exact:
  "Decode b = Inr o' \<longleftrightarrow> b = Encode o' \<and> wf_obj o'"
  by (rule Decode_iff)



text \<open>The decoder can be made to panic: after the magic and the type, a field count
  whose allocation exceeds the address space is not refused as malformed, because the
  field list is allocated from the announced count before any field is read. A dozen
  bytes are enough.\<close>

theorem decode_count_panics:
  assumes "unat n * 32 > max_alloc"
  shows "Decode (Magic @ appendUvarint [] typ @ appendUvarint [] n @ rest)
     = Inl (Panic ''makeslice: cap out of range'')"
proof -
  have "c_take 4 (Magic @ appendUvarint [] typ @ appendUvarint [] n @ rest)
      = Inr (Magic, appendUvarint [] typ @ appendUvarint [] n @ rest)"
    unfolding c_take_iff by simp
  then show ?thesis using assms by (simp add: Decode_def make_cap_def)
qed

theorem decode_count_panics_witness:
  "Decode (Magic @ appendUvarint [] 1 @ appendUvarint [] 0x1000000000000000 @ [])
     = Inl (Panic ''makeslice: cap out of range'')"
  by (rule decode_count_panics) (simp add: max_alloc_def)

end
