(* ===== verification/RefUpdate.thy ===== *)
theory RefUpdate
  imports Trust Sshkey ObjectCore
begin

text \<open>
  \<^verbatim>\<open>internal/refupdate\<close>, the assertion: \<^verbatim>\<open>refupdate.go\<close>, \<^verbatim>\<open>codec.go\<close> and \<^verbatim>\<open>sign.go\<close>. A ref
  update is a canonical payload (a compare-and-swap request with its signer, scope, nonce
  and expiry) and a detached Ed25519 signature over the payload's bytes. The varint and the
  cursor are the ones of theory \<^verbatim>\<open>Varint\<close>, whose code \<^verbatim>\<open>codec.go\<close> repeats with its own
  error. Ed25519 itself is a parameter: the function that verifies, and a signer.
\<close>

section \<open>The codec\<close>

fun ru_err :: "goerr \<Rightarrow> goerr" where
  "ru_err (Sentinel ErrMalformed m) = Sentinel RuMalformed m"
| "ru_err e = e"

definition ru_malformed :: "string \<Rightarrow> goerr" where
  "ru_malformed m = Sentinel RuMalformed m"

definition ru_readUvarint :: "byte list \<Rightarrow> goerr + (u64 \<times> nat)" where
  "ru_readUvarint b = map_err ru_err (readUvarint b)"

definition ru_uvarint :: "cursor \<Rightarrow> goerr + (u64 \<times> cursor)" where
  "ru_uvarint c = rbind (ru_readUvarint c) (\<lambda>(v, n). Inr (v, drop n c))"

definition ru_take :: "u64 \<Rightarrow> cursor \<Rightarrow> goerr + (byte list \<times> cursor)" where
  "ru_take n c =
     (if unat n > length c then Inl (ru_malformed ''truncated'')
      else Inr (take (unat n) c, drop (unat n) c))"

definition ru_takeBytes :: "cursor \<Rightarrow> goerr + (byte list \<times> cursor)" where
  "ru_takeBytes c = rbind (ru_uvarint c) (\<lambda>(n, c). ru_take n c)"

definition ru_empty :: "cursor \<Rightarrow> bool" where
  "ru_empty c = (length c = 0)"

definition appendBytes :: "byte list \<Rightarrow> byte list \<Rightarrow> byte list" where
  "appendBytes b v = (let b = appendUvarint b (len64 v) in b @ v)"

section \<open>Payloads\<close>

definition ru_magic :: "byte list" where "ru_magic = bytes_of ''VRU1''"
definition signedMagic :: "byte list" where "signedMagic = bytes_of ''VRS1''"
definition CriticalMax :: u64 where "CriticalMax = 64"
definition tagRef :: u64 where "tagRef = 1"
definition tagExpectedOld :: u64 where "tagExpectedOld = 2"
definition tagNew :: u64 where "tagNew = 3"
definition tagScope :: u64 where "tagScope = 4"
definition tagSigner :: u64 where "tagSigner = 5"
definition tagNonce :: u64 where "tagNonce = 6"
definition tagNotAfter :: u64 where "tagNotAfter = 7"
definition tagEvidence :: u64 where "tagEvidence = 8"
definition NonceLen :: nat where "NonceLen = 16"

lemmas ru_tags = tagRef_def tagExpectedOld_def tagNew_def tagScope_def tagSigner_def tagNonce_def
  tagNotAfter_def tagEvidence_def

record ru_params =
  rp_ref :: string
  rp_old :: "multihash option"
  rp_new :: "multihash option"
  rp_scope :: string
  rp_signer :: "byte list"
  rp_nonce :: "byte list"
  rp_not_after :: i64
  rp_evidence :: "multihash list"

record payload =
  pl_fields :: fields

definition encodeEvidence :: "multihash list \<Rightarrow> byte list" where
  "encodeEvidence ids = encodeHashList (sortedUniqueHashes ids)"

definition decodeEvidence :: "byte list \<Rightarrow> goerr + multihash list" where
  "decodeEvidence v =
     map_err ru_err
       (decodeHashRun (ru_malformed ''evidence not sorted/unique'') (ru_malformed ''trailing bytes in evidence'') v)"

definition ru_New :: "ru_params \<Rightarrow> goerr + payload" where
  "ru_New p =
     (if rp_ref p = [] then Inl (ru_malformed ''empty ref'')
      else if length (rp_signer p) \<noteq> PublicKeySize then Inl (ru_malformed ''signer key must be 32 bytes'')
      else if length (rp_nonce p) \<noteq> NonceLen then Inl (ru_malformed ''nonce must be 16 bytes'')
      else
        let scope = (if rp_scope p = [] then ''/'' else rp_scope p);
            fs = [(tagRef, bytes_of (rp_ref p)),
                  (tagExpectedOld, bytes_or_nil (rp_old p)),
                  (tagNew, bytes_or_nil (rp_new p)),
                  (tagScope, bytes_of scope),
                  (tagSigner, rp_signer p),
                  (tagNonce, rp_nonce p),
                  (tagNotAfter, appendUvarint [] (rp_not_after p))];
            fs = (if length (rp_evidence p) > 0 then fs @ [(tagEvidence, encodeEvidence (rp_evidence p))] else fs)
        in Inr \<lparr>pl_fields = sort_key fst fs\<rparr>)"

definition pl_get :: "payload \<Rightarrow> u64 \<Rightarrow> byte list option" where
  "pl_get p tag = map_of (pl_fields p) tag"

definition pl_Ref :: "payload \<Rightarrow> string" where
  "pl_Ref p = string_of (bytes_or_nil (pl_get p tagRef))"

definition pl_Scope :: "payload \<Rightarrow> string" where
  "pl_Scope p = string_of (bytes_or_nil (pl_get p tagScope))"

definition pl_ExpectedOld :: "payload \<Rightarrow> multihash option" where
  "pl_ExpectedOld p = nil_if_empty (bytes_or_nil (pl_get p tagExpectedOld))"

definition pl_New :: "payload \<Rightarrow> multihash option" where
  "pl_New p = nil_if_empty (bytes_or_nil (pl_get p tagNew))"

definition pl_SignerKey :: "payload \<Rightarrow> byte list" where
  "pl_SignerKey p = bytes_or_nil (pl_get p tagSigner)"

definition pl_Fingerprint :: "hash_funs \<Rightarrow> payload \<Rightarrow> string" where
  "pl_Fingerprint h p = Fingerprint h \<lparr>pk_key = pl_SignerKey p, pk_comment = []\<rparr>"

definition pl_Nonce :: "payload \<Rightarrow> byte list" where
  "pl_Nonce p = bytes_or_nil (pl_get p tagNonce)"

definition pl_NotAfter :: "payload \<Rightarrow> i64" where
  "pl_NotAfter p =
     (case pl_get p tagNotAfter of
        None \<Rightarrow> 0
      | Some v \<Rightarrow> (case ru_readUvarint v of Inl _ \<Rightarrow> 0 | Inr (n, _) \<Rightarrow> n))"

definition pl_Evidence :: "payload \<Rightarrow> goerr + multihash list" where
  "pl_Evidence p =
     (case pl_get p tagEvidence of None \<Rightarrow> Inr [] | Some v \<Rightarrow> decodeEvidence v)"

definition CanonicalBytes :: "payload \<Rightarrow> byte list" where
  "CanonicalBytes p =
     (let buf = [] @ ru_magic;
          buf = appendUvarint buf (len64 (pl_fields p))
      in foldl put_field buf (pl_fields p))"

definition ru_known :: "u64 \<Rightarrow> bool" where
  "ru_known tag \<longleftrightarrow>
     tag \<in> {tagRef, tagExpectedOld, tagNew, tagScope, tagSigner, tagNonce, tagNotAfter, tagEvidence}"

definition ru_validate :: "payload \<Rightarrow> goerr + unit" where
  "ru_validate p =
     (if \<not> list_all (\<lambda>tag. pl_get p tag \<noteq> None)
           [tagRef, tagExpectedOld, tagNew, tagScope, tagSigner, tagNonce, tagNotAfter]
      then Inl (ru_malformed ''missing required field'')
      else if length (pl_SignerKey p) \<noteq> PublicKeySize then Inl (ru_malformed ''bad signer key length'')
      else if length (pl_Nonce p) \<noteq> NonceLen then Inl (ru_malformed ''bad nonce length'')
      else rbind (pl_Evidence p) (\<lambda>_. Inr ()))"

definition ru_field :: "(u64 \<times> byte list) option \<Rightarrow> cursor \<Rightarrow> goerr + ((u64 \<times> byte list) \<times> cursor)" where
  "ru_field prev c =
     rbind (ru_uvarint c) (\<lambda>(tag, c).
       if (case prev of None \<Rightarrow> False | Some (p, _) \<Rightarrow> tag \<le> p)
       then Inl (ru_malformed ''fields not sorted/unique'')
       else rbind (ru_uvarint c) (\<lambda>(n, c).
            rbind (ru_take n c) (\<lambda>(val, c).
            if tag < CriticalMax \<and> \<not> ru_known tag then Inl (Sentinel RuUnknownCritical [])
            else Inr ((tag, val), c))))"

definition ru_Decode :: "byte list \<Rightarrow> goerr + payload" where
  "ru_Decode b =
     (case ru_take 4 b of
        Inl _ \<Rightarrow> Inl (ru_malformed ''bad magic'')
      | Inr (m, c) \<Rightarrow>
          if m \<noteq> ru_magic then Inl (ru_malformed ''bad magic'')
          else
            rbind (ru_uvarint c) (\<lambda>(n, c).
            rbind (make_cap 32 n) (\<lambda>_.
            rbind (read_items ru_field (unat n) None c) (\<lambda>(fs, c).
            if \<not> ru_empty c then Inl (ru_malformed ''trailing bytes'')
            else rbind (ru_validate \<lparr>pl_fields = fs\<rparr>) (\<lambda>_. Inr \<lparr>pl_fields = fs\<rparr>)))))"

section \<open>Signed updates\<close>

record signed_update =
  su_payload :: payload
  su_sig :: "byte list"

text \<open>A signer: its public key and what it answers to a request.\<close>

record signer =
  sg_public :: "byte list"
  sg_sign :: "byte list \<Rightarrow> goerr + byte list"

type_synonym ed25519_verify = "byte list \<Rightarrow> byte list \<Rightarrow> byte list \<Rightarrow> bool"

definition ru_Sign :: "signer option \<Rightarrow> ru_params \<Rightarrow> goerr + signed_update" where
  "ru_Sign signer p =
     (case signer of
        None \<Rightarrow> Inl (Plain ''refupdate: nil signer'')
      | Some sg \<Rightarrow>
          (let p = p\<lparr>rp_signer := sg_public sg\<rparr> in
           rbind (ru_New p) (\<lambda>payload.
           rbind (sg_sign sg (CanonicalBytes payload)) (\<lambda>sig.
           if length sig \<noteq> SignatureSize then Inl (Plain ''refupdate: signature length'')
           else Inr \<lparr>su_payload = payload, su_sig = sig\<rparr>))))"

definition VerifySignature :: "ed25519_verify \<Rightarrow> signed_update \<Rightarrow> goerr + unit" where
  "VerifySignature verify su =
     (let pub = pl_SignerKey (su_payload su) in
      if length pub \<noteq> PublicKeySize then Inl (Sentinel RuBadSignature ''bad public key'')
      else if \<not> verify pub (CanonicalBytes (su_payload su)) (su_sig su) then Inl (Sentinel RuBadSignature [])
      else Inr ())"

definition su_Encode :: "signed_update \<Rightarrow> byte list" where
  "su_Encode su =
     (let b = [] @ signedMagic;
          b = appendBytes b (CanonicalBytes (su_payload su))
      in appendBytes b (su_sig su))"

definition DecodeSigned :: "byte list \<Rightarrow> goerr + signed_update" where
  "DecodeSigned b =
     (case ru_take 4 b of
        Inl _ \<Rightarrow> Inl (ru_malformed ''bad signed-update magic'')
      | Inr (m, c) \<Rightarrow>
          if m \<noteq> signedMagic then Inl (ru_malformed ''bad signed-update magic'')
          else
            rbind (ru_takeBytes c) (\<lambda>(payloadBytes, c).
            rbind (ru_takeBytes c) (\<lambda>(sig, c).
            if \<not> ru_empty c then Inl (ru_malformed ''trailing bytes after signed update'')
            else rbind (ru_Decode payloadBytes) (\<lambda>payload.
                 Inr \<lparr>su_payload = payload, su_sig = sig\<rparr>))))"

section \<open>The encodings are exact\<close>

lemma map_err_cong_Inr: "map_err g m = Inr x \<longleftrightarrow> m = Inr x"
  by simp

lemma ru_uvarint_iff: "ru_uvarint c = Inr (v, r) \<longleftrightarrow> c = appendUvarint [] v @ r"
proof -
  have "ru_uvarint c = map_err ru_err (c_uvarint c)"
    by (simp add: ru_uvarint_def c_uvarint_def ru_readUvarint_def) (cases "readUvarint c", auto)
  then show ?thesis by (simp add: c_uvarint_iff)
qed

lemma ru_take_iff: "ru_take n c = Inr (v, r) \<longleftrightarrow> c = v @ r \<and> length v = unat n"
  using c_take_iff [of n c v r] by (auto simp: ru_take_def c_take_def split: if_splits)

lemma ru_takeBytes_iff: "ru_takeBytes c = Inr (v, r) \<longleftrightarrow> c = put_bytes [] v @ r \<and> fits64 v"
proof -
  have "ru_takeBytes c = Inr (v, r) \<longleftrightarrow> c_bytes c = Inr (v, r)"
    by (auto simp: ru_takeBytes_def c_bytes_def result_iffs ru_uvarint_iff ru_take_iff c_uvarint_iff c_take_iff)
  then show ?thesis by (simp add: c_bytes_iff)
qed

lemma ru_empty_iff [simp]: "ru_empty c \<longleftrightarrow> c = []"
  by (simp add: ru_empty_def)

lemmas ru_iffs = ru_uvarint_iff ru_take_iff ru_takeBytes_iff

definition ru_field_ok :: "(u64 \<times> byte list) option \<Rightarrow> u64 \<times> byte list \<Rightarrow> bool" where
  "ru_field_ok prev f \<longleftrightarrow> key_after fst prev f \<and> fits64 (snd f) \<and> (fst f < CriticalMax \<longrightarrow> ru_known (fst f))"

lemma ru_field_iff: "ru_field prev c = Inr (f, r) \<longleftrightarrow> c = enc_field f @ r \<and> ru_field_ok prev f"
proof (cases f)
  case (Pair t v)
  have "ru_field prev c = Inr ((t, v), r) \<longleftrightarrow>
      (\<exists>c'. c = appendUvarint [] t @ c' \<and> c_bytes c' = Inr (v, r)) \<and> key_after fst prev (t, v) \<and>
      (t < CriticalMax \<longrightarrow> ru_known t)"
    by (cases prev)
      (auto simp: ru_field_def c_bytes_def result_iffs ru_iffs c_uvarint_iff c_take_iff not_le)
  then show ?thesis
    using Pair by (auto simp: enc_field_eq ru_field_ok_def c_bytes_iff)
qed

interpretation update_fields: canonical_format enc_field ru_field ru_field_ok
  by unfold_locales (simp_all add: ru_field_iff)

definition wf_payload :: "payload \<Rightarrow> bool" where
  "wf_payload p \<longleftrightarrow>
     wf_fields (pl_fields p) \<and> (\<forall>f \<in> set (pl_fields p). fst f < CriticalMax \<longrightarrow> ru_known (fst f)) \<and>
     ru_validate p = Inr ()"

lemma chained_ru_field_ok:
  "chained ru_field_ok None fs \<longleftrightarrow>
     sorted_fields fs \<and> (\<forall>f \<in> set fs. fst f < CriticalMax \<longrightarrow> ru_known (fst f))"
  using chained_sorted [where key = fst and prev = None and xs = fs
      and P = "\<lambda>f. fits64 (snd f) \<and> (fst f < CriticalMax \<longrightarrow> ru_known (fst f))"]
  by (auto simp: ru_field_ok_def [abs_def] sorted_fields_def)

lemma CanonicalBytes_eq:
  "CanonicalBytes p = ru_magic @ appendUvarint [] (len64 (pl_fields p)) @ concat (map enc_field (pl_fields p))"
  using appendUvarint_append [of ru_magic "len64 (pl_fields p)"]
  by (simp add: CanonicalBytes_def foldl_put_field)

lemma ru_magic_length [simp]: "length ru_magic = 4" "length signedMagic = 4"
  by (simp_all add: ru_magic_def signedMagic_def)

lemma ru_Decode_iff: "ru_Decode b = Inr p \<longleftrightarrow> b = CanonicalBytes p \<and> wf_payload p"
proof -
  have unfold: "ru_Decode b = Inr p \<longleftrightarrow>
      (\<exists>n c. b = ru_magic @ appendUvarint [] n @ c \<and> unat n * 32 \<le> max_alloc \<and>
         read_items ru_field (unat n) None c = Inr (pl_fields p, []) \<and> ru_validate p = Inr ())" (is "_ \<longleftrightarrow> ?R")
  proof
    assume "ru_Decode b = Inr p"
    then show ?R
      by (auto simp: ru_Decode_def result_iffs ru_iffs split: sum.splits prod.splits if_splits)
  next
    assume ?R
    then obtain n c where b: "b = ru_magic @ appendUvarint [] n @ c" "unat n * 32 \<le> max_alloc"
      "read_items ru_field (unat n) None c = Inr (pl_fields p, [])" "ru_validate p = Inr ()" by blast
    have "ru_take 4 b = Inr (ru_magic, appendUvarint [] n @ c)"
      "ru_uvarint (appendUvarint [] n @ c) = Inr (n, c)"
      unfolding b ru_iffs by simp_all
    with b show "ru_Decode b = Inr p" by (cases p) (simp add: ru_Decode_def make_cap_def)
  qed
  show ?thesis
  proof
    assume "ru_Decode b = Inr p"
    then obtain n c where b: "b = ru_magic @ appendUvarint [] n @ c" "unat n * 32 \<le> max_alloc"
      and rd: "read_items ru_field (unat n) None c = Inr (pl_fields p, [])" and v: "ru_validate p = Inr ()"
      unfolding unfold by blast
    from update_fields.items_canonical [OF rd]
    have c: "c = concat (map enc_field (pl_fields p))" "chained ru_field_ok None (pl_fields p)"
      and len: "length (pl_fields p) = unat n" by auto
    with b v len64_unique [OF len] show "b = CanonicalBytes p \<and> wf_payload p"
      by (simp add: CanonicalBytes_eq wf_payload_def wf_fields_def chained_ru_field_ok)
  next
    assume wf: "b = CanonicalBytes p \<and> wf_payload p"
    then have ch: "chained ru_field_ok None (pl_fields p)" and f: "fits64 (pl_fields p)"
      and n: "length (pl_fields p) * 32 \<le> max_alloc"
      using wf_fields_len by (auto simp: wf_payload_def wf_fields_def chained_ru_field_ok)
    have "read_items ru_field (length (pl_fields p)) None
        (concat (map enc_field (pl_fields p)) @ []) = Inr (pl_fields p, [])"
      by (rule update_fields.items_enc [OF ch])
    with wf f n show "ru_Decode b = Inr p"
      unfolding unfold
      by (intro exI [of _ "len64 (pl_fields p)"] exI [of _ "concat (map enc_field (pl_fields p))"])
        (simp add: CanonicalBytes_eq wf_payload_def)
  qed
qed

definition wf_signed :: "signed_update \<Rightarrow> bool" where
  "wf_signed su \<longleftrightarrow>
     wf_payload (su_payload su) \<and> fits64 (CanonicalBytes (su_payload su)) \<and> fits64 (su_sig su)"

lemma appendBytes_eq: "appendBytes b v = b @ put_bytes [] v"
  using put_bytes_append [of b v] by (simp add: appendBytes_def put_bytes_def)

lemma su_Encode_eq: "su_Encode su = signedMagic @ put_bytes [] (CanonicalBytes (su_payload su)) @ put_bytes [] (su_sig su)"
  by (simp add: su_Encode_def appendBytes_eq)

lemma DecodeSigned_iff: "DecodeSigned b = Inr su \<longleftrightarrow> b = su_Encode su \<and> wf_signed su"
proof
  assume "DecodeSigned b = Inr su"
  then show "b = su_Encode su \<and> wf_signed su"
    by (auto simp: DecodeSigned_def result_iffs ru_iffs ru_Decode_iff su_Encode_eq wf_signed_def
        split: sum.splits prod.splits if_splits)
next
  assume a: "b = su_Encode su \<and> wf_signed su"
  let ?p = "CanonicalBytes (su_payload su)"
  have "ru_take 4 b = Inr (signedMagic, put_bytes [] ?p @ put_bytes [] (su_sig su))"
    "ru_takeBytes (put_bytes [] ?p @ put_bytes [] (su_sig su)) = Inr (?p, put_bytes [] (su_sig su))"
    "ru_takeBytes (put_bytes [] (su_sig su)) = Inr (su_sig su, [])"
    using a unfolding ru_iffs by (simp_all add: su_Encode_eq wf_signed_def)
  moreover have "ru_Decode ?p = Inr (su_payload su)" using a by (simp add: ru_Decode_iff wf_signed_def)
  ultimately show "DecodeSigned b = Inr su" by (cases su) (simp add: DecodeSigned_def)
qed

section \<open>Requests and their bytes\<close>

definition small :: "'a list \<Rightarrow> bool" where
  "small xs \<longleftrightarrow> length xs < 2 ^ 32"

definition wf_params :: "ru_params \<Rightarrow> bool" where
  "wf_params p \<longleftrightarrow>
     rp_ref p \<noteq> [] \<and> length (rp_signer p) = 32 \<and> length (rp_nonce p) = 16 \<and>
     rp_old p \<noteq> Some [] \<and> rp_new p \<noteq> Some [] \<and> small (rp_ref p) \<and> small (rp_scope p) \<and>
     small (bytes_or_nil (rp_old p)) \<and> small (bytes_or_nil (rp_new p)) \<and>
     wf_hash_list (rp_evidence p) \<and> small (encodeEvidence (rp_evidence p))"

text \<open>The request a payload stands for: an empty scope means the whole repository, and the
  evidence is a set.\<close>

definition request :: "ru_params \<Rightarrow> ru_params" where
  "request p = p\<lparr>rp_scope := (if rp_scope p = [] then ''/'' else rp_scope p),
                 rp_evidence := sortedUniqueHashes (rp_evidence p)\<rparr>"

definition param_fields :: "ru_params \<Rightarrow> fields" where
  "param_fields p =
     [(tagRef, bytes_of (rp_ref p)), (tagExpectedOld, bytes_or_nil (rp_old p)),
      (tagNew, bytes_or_nil (rp_new p)), (tagScope, bytes_of (if rp_scope p = [] then ''/'' else rp_scope p)),
      (tagSigner, rp_signer p), (tagNonce, rp_nonce p), (tagNotAfter, appendUvarint [] (rp_not_after p))] @
     (if rp_evidence p = [] then [] else [(tagEvidence, encodeEvidence (rp_evidence p))])"

lemma sorted_param_fields: "sorted_wrt (<) (map fst (param_fields p))"
  by (simp add: param_fields_def ru_tags)

lemma sort_key_sorted: "sorted_wrt (<) (map fst fs) \<Longrightarrow> sort_key fst fs = fs"
  for fs :: fields
  by (simp add: sort_key_id_if_sorted strict_sorted_imp_sorted)

lemma ru_New_params: "wf_params p \<Longrightarrow> ru_New p = Inr \<lparr>pl_fields = param_fields p\<rparr>"
proof -
  assume "wf_params p"
  then have g: "\<not> rp_ref p = []" "\<not> length (rp_signer p) \<noteq> PublicKeySize" "\<not> length (rp_nonce p) \<noteq> NonceLen"
    by (simp_all add: wf_params_def PublicKeySize_def NonceLen_def)
  have "ru_New p = Inr \<lparr>pl_fields = sort_key fst (param_fields p)\<rparr>"
    unfolding ru_New_def g [THEN if_not_P] Let_def param_fields_def
    by (rule arg_cong [of _ _ "\<lambda>fs. Inr \<lparr>pl_fields = sort_key fst fs\<rparr>"]) simp
  then show ?thesis by (simp only: sort_key_sorted [OF sorted_param_fields])
qed

lemma get_params:
  "pl_get \<lparr>pl_fields = param_fields p\<rparr> t =
     (if t = tagRef then Some (bytes_of (rp_ref p)) else if t = tagExpectedOld then Some (bytes_or_nil (rp_old p))
      else if t = tagNew then Some (bytes_or_nil (rp_new p))
      else if t = tagScope then Some (bytes_of (if rp_scope p = [] then ''/'' else rp_scope p))
      else if t = tagSigner then Some (rp_signer p) else if t = tagNonce then Some (rp_nonce p)
      else if t = tagNotAfter then Some (appendUvarint [] (rp_not_after p))
      else if t = tagEvidence \<and> rp_evidence p \<noteq> [] then Some (encodeEvidence (rp_evidence p)) else None)"
  by (simp add: pl_get_def param_fields_def)

lemma ru_readUvarint_append [simp]: "ru_readUvarint (appendUvarint [] v) = Inr (v, length (appendUvarint [] v))"
  using readUvarint_append [of v "[]"] by (simp add: ru_readUvarint_def)

lemma decodeEvidence_encode:
  "wf_hash_list ids \<Longrightarrow> decodeEvidence (encodeEvidence ids) = Inr (sortedUniqueHashes ids)"
  by (simp add: decodeEvidence_def encodeEvidence_def decodeHashRun_iff sortedUniqueHashes_strict
      wf_sortedUniqueHashes)

definition asks :: "payload \<Rightarrow> ru_params \<Rightarrow> bool" where
  "asks pl p \<longleftrightarrow>
     pl_Ref pl = rp_ref p \<and> pl_ExpectedOld pl = rp_old p \<and> pl_New pl = rp_new p \<and> pl_Scope pl = rp_scope p \<and>
     pl_SignerKey pl = rp_signer p \<and> pl_Nonce pl = rp_nonce p \<and> pl_NotAfter pl = rp_not_after p \<and>
     pl_Evidence pl = Inr (rp_evidence p)"

lemma asks_request:
  assumes "wf_params p"
  shows "asks \<lparr>pl_fields = param_fields p\<rparr> (request p)"
  using assms unfolding asks_def request_def pl_Ref_def pl_ExpectedOld_def pl_New_def pl_Scope_def
    pl_SignerKey_def pl_Nonce_def pl_NotAfter_def pl_Evidence_def get_params wf_params_def
  by (simp add: ru_tags decodeEvidence_encode)

lemma asks_inj: "asks pl p \<Longrightarrow> asks pl q \<Longrightarrow> p = q"
  by (cases p, cases q) (simp add: asks_def)

lemma length_put_bytes: "length (put_bytes [] v) \<le> 10 + length v"
  using length_appendUvarint [of "len64 v"] by (simp add: put_bytes_def)

lemma length_enc_field: "length (enc_field f) \<le> 20 + length (snd f)"
  using length_appendUvarint [of "fst f"] length_put_bytes [of "snd f"] by (cases f) (simp add: enc_field_eq)

lemma length_fields:
  "\<forall>f \<in> set fs. length (snd f) < 2 ^ 32 \<Longrightarrow> length (concat (map enc_field fs)) \<le> length fs * (20 + 2 ^ 32)"
proof (induction fs)
  case (Cons f fs)
  then show ?case using length_enc_field [of f] by auto
qed simp

lemma small_param_fields: "wf_params p \<Longrightarrow> \<forall>f \<in> set (param_fields p). length (snd f) < 2 ^ 32"
  using length_appendUvarint [of "rp_not_after p"]
  by (auto simp: wf_params_def param_fields_def small_def)

lemma wf_param_payload:
  assumes "wf_params p"
  shows "wf_payload \<lparr>pl_fields = param_fields p\<rparr>" and "fits64 (CanonicalBytes \<lparr>pl_fields = param_fields p\<rparr>)"
proof -
  let ?pl = "\<lparr>pl_fields = param_fields p\<rparr>"
  note sm = small_param_fields [OF assms]
  have l: "length (param_fields p) \<le> 8" by (simp add: param_fields_def)
  have v: "ru_validate ?pl = Inr ()"
    using asks_request [OF assms] assms
    by (simp add: ru_validate_def asks_def request_def wf_params_def PublicKeySize_def NonceLen_def)
      (simp add: get_params)
  have "\<forall>f \<in> set (param_fields p). ru_known (fst f)"
    by (auto simp: param_fields_def ru_known_def)
  moreover have "\<forall>f \<in> set (param_fields p). fits64 (snd f)"
    using sm by (fastforce simp: fits64_def)
  ultimately show "wf_payload ?pl"
    using v l by (simp add: wf_payload_def wf_fields_def sorted_fields_def sorted_param_fields max_alloc_def)
  have "length (concat (map enc_field (param_fields p))) \<le> 8 * (20 + 2 ^ 32)"
    using length_fields [OF sm] l by (meson le_trans mult_le_mono1)
  then show "fits64 (CanonicalBytes ?pl)"
    using length_appendUvarint [of "len64 (param_fields p)"]
    by (simp add: CanonicalBytes_eq fits64_def)
qed

lemma CanonicalBytes_inj: "wf_payload p \<Longrightarrow> wf_payload q \<Longrightarrow> CanonicalBytes p = CanonicalBytes q \<Longrightarrow> p = q"
  by (metis ru_Decode_iff Inr_inject)

section \<open>Properties\<close>

text \<open>C14. What is verified is what was sent: transport bytes are accepted as a signed update if
  and only if they are its encoding, around a payload that is canonical (fields sorted and
  unique, every critical tag known, all required fields present and well sized) and whose
  canonical bytes are the embedded ones. So a relay can change nothing that decoding hides,
  and unknown non-critical fields stay under the signature.\<close>

theorem signed_update_exact:
  "DecodeSigned b = Inr su \<longleftrightarrow> b = su_Encode su \<and> wf_signed su"
  by (rule DecodeSigned_iff)

text \<open>Signing is sound and complete towards verification: with a signer whose signatures the
  verification function accepts, an update built from a request verifies, survives
  transport byte for byte, and asks exactly what was requested (an empty scope standing
  for the whole repository, evidence for its set).\<close>

theorem sign_verify_roundtrip:
  assumes "wf_params (p\<lparr>rp_signer := sg_public sg\<rparr>)"
    and "\<And>m s. sg_sign sg m = Inr s \<Longrightarrow> verify (sg_public sg) m s"
    and "ru_Sign (Some sg) p = Inr su"
  shows "VerifySignature verify su = Inr () \<and> DecodeSigned (su_Encode su) = Inr su \<and>
     asks (su_payload su) (request (p\<lparr>rp_signer := sg_public sg\<rparr>))"
proof -
  let ?p = "p\<lparr>rp_signer := sg_public sg\<rparr>"
  obtain sig where sig: "sg_sign sg (CanonicalBytes \<lparr>pl_fields = param_fields ?p\<rparr>) = Inr sig"
    "length sig = 64" and su: "su = \<lparr>su_payload = \<lparr>pl_fields = param_fields ?p\<rparr>, su_sig = sig\<rparr>"
    using assms(3) ru_New_params [OF assms(1)] by (auto simp: ru_Sign_def result_iffs SignatureSize_def)
  note a = asks_request [OF assms(1)]
  then have "pl_SignerKey \<lparr>pl_fields = param_fields ?p\<rparr> = sg_public sg"
    by (simp add: asks_def request_def)
  moreover have "length (sg_public sg) = 32" using assms(1) by (simp add: wf_params_def)
  ultimately have "VerifySignature verify su = Inr ()"
    using assms(2) [OF sig(1)] su by (simp add: VerifySignature_def PublicKeySize_def)
  moreover have "wf_signed su"
    using wf_param_payload [OF assms(1)] sig(2) su by (simp add: wf_signed_def fits64_def)
  ultimately show ?thesis using a su by (simp add: DecodeSigned_iff)
qed

definition demo_signer :: signer where
  "demo_signer = \<lparr>sg_public = replicate 32 9, sg_sign = (\<lambda>m. Inr (take 64 (m @ replicate 64 0)))\<rparr>"

definition demo_params :: ru_params where
  "demo_params = \<lparr>rp_ref = ''refs/heads/main'', rp_old = None, rp_new = Some [0x12, 1, 5], rp_scope = [],
     rp_signer = [], rp_nonce = replicate 16 3, rp_not_after = 100, rp_evidence = []\<rparr>"

lemma demo_wf: "wf_params (demo_params\<lparr>rp_signer := sg_public demo_signer\<rparr>)"
  using length_appendUvarint [of "len64 ([] :: multihash list)"]
  by (simp add: demo_params_def demo_signer_def wf_params_def small_def wf_hash_list_def encodeEvidence_def
      encodeHashList_def)

theorem sign_verify_roundtrip_witness:
  "\<exists>su. ru_Sign (Some demo_signer) demo_params = Inr su \<and>
     VerifySignature (\<lambda>pub m s. s = take 64 (m @ replicate 64 0)) su = Inr ()"
proof -
  have v: "\<And>m s. sg_sign demo_signer m = Inr s \<Longrightarrow> s = take 64 (m @ replicate 64 0)"
    by (simp add: demo_signer_def)
  have l: "\<exists>s. sg_sign demo_signer m = Inr s \<and> length s = SignatureSize" for m
    by (simp add: demo_signer_def SignatureSize_def)
  obtain su where "ru_Sign (Some demo_signer) demo_params = Inr su"
    using ru_New_params [OF demo_wf] l [of "CanonicalBytes \<lparr>pl_fields =
      param_fields (demo_params\<lparr>rp_signer := sg_public demo_signer\<rparr>)\<rparr>"]
    by (auto simp: ru_Sign_def)
  with sign_verify_roundtrip [where verify = "\<lambda>pub m s. s = take 64 (m @ replicate 64 0)", OF demo_wf v]
  show ?thesis by blast
qed

text \<open>The signed bytes bind the whole request: two requests have the same canonical bytes
  exactly when they agree on ref, expected and new value, scope, signer, nonce, expiry and
  set of evidence.\<close>

theorem update_bytes_bind:
  assumes "wf_params p" and "wf_params q"
  shows "rbind (ru_New p) (\<lambda>pl. Inr (CanonicalBytes pl)) = rbind (ru_New q) (\<lambda>pl. Inr (CanonicalBytes pl))
     \<longleftrightarrow> request p = request q"
proof -
  let ?f = "\<lambda>p. \<lparr>pl_fields = param_fields p\<rparr>"
  have "CanonicalBytes (?f p) = CanonicalBytes (?f q) \<longleftrightarrow> request p = request q"
  proof
    assume "CanonicalBytes (?f p) = CanonicalBytes (?f q)"
    then have "?f p = ?f q"
      by (intro CanonicalBytes_inj wf_param_payload assms) 
    then show "request p = request q"
      using asks_request [OF assms(1)] asks_request [OF assms(2)] asks_inj by metis
  next
    assume r: "request p = request q"
    have "param_fields r = param_fields (request r)" for r
      by (cases r) (simp add: param_fields_def request_def encodeEvidence_def sortedUniqueHashes_id
          sortedUniqueHashes_strict)
    with r have "param_fields p = param_fields q" by metis
    then show "CanonicalBytes (?f p) = CanonicalBytes (?f q)" by simp
  qed
  then show ?thesis using assms by (simp add: ru_New_params)
qed

theorem update_bytes_bind_witness:
  "\<exists>b. rbind (ru_New (demo_params\<lparr>rp_signer := sg_public demo_signer\<rparr>)) (\<lambda>pl. Inr (CanonicalBytes pl)) = Inr b \<and>
     rbind (ru_New (demo_params\<lparr>rp_signer := sg_public demo_signer, rp_not_after := 0\<rparr>)) (\<lambda>pl. Inr (CanonicalBytes pl)) \<noteq> Inr b"
proof -
  let ?p = "demo_params\<lparr>rp_signer := sg_public demo_signer\<rparr>"
  let ?q = "demo_params\<lparr>rp_signer := sg_public demo_signer, rp_not_after := 0\<rparr>"
  have q: "wf_params ?q" using demo_wf by (simp add: wf_params_def)
  have "request ?p \<noteq> request ?q" by (simp add: request_def demo_params_def)
  with update_bytes_bind [OF demo_wf q] ru_New_params [OF demo_wf] show ?thesis by force
qed

end
