(* ===== verification/Replay.thy ===== *)
theory Replay
  imports Refs RefUpdate
begin

text \<open>
  \<^verbatim>\<open>internal/refupdate/replay.go\<close>: guards that remember nonces. Both guards meet one
  contract, the locale \<^verbatim>\<open>replay_guard\<close>: what they record stays refused until its expiry
  passes. The file guard's lock makes a check one atomic step; its file is replaced by
  rename, so a check either stores the whole new file or leaves the old one.
\<close>

section \<open>The guards\<close>

definition replayKey :: "string \<Rightarrow> string \<Rightarrow> byte list \<Rightarrow> string" where
  "replayKey signerFP ref nonce = signerFP @ '' '' @ ref @ '' '' @ hex_encode nonce"

type_synonym 'g checker =
  "'g \<Rightarrow> string \<Rightarrow> string \<Rightarrow> byte list \<Rightarrow> i64 \<Rightarrow> i64 \<Rightarrow> (goerr + bool) \<times> 'g"

type_synonym memory_guard = "string \<Rightarrow> i64 option"

definition NewMemoryGuard :: memory_guard where
  "NewMemoryGuard = (\<lambda>_. None)"

definition memory_Check :: "memory_guard checker" where
  "memory_Check g signerFP ref nonce notAfter now =
     (let g = (\<lambda>k. case g k of None \<Rightarrow> None | Some na \<Rightarrow> if sint na < sint now then None else Some na);
          key = replayKey signerFP ref nonce
      in case g key of
           Some _ \<Rightarrow> (Inr True, g)
         | None \<Rightarrow> (Inr False, g(key := Some notAfter)))"

text \<open>The state of a file guard is the content of its file, if it exists.\<close>

type_synonym file_guard = "string option"

definition parse_entry :: "string \<Rightarrow> (string \<times> i64) option" where
  "parse_entry line =
     (case fields_of line of
        [f0, f1, f2, f3] \<Rightarrow>
          (case ParseInt 10 f3 of None \<Rightarrow> None
           | Some na \<Rightarrow> Some (f0 @ '' '' @ f1 @ '' '' @ f2, word_of_int na))
      | _ \<Rightarrow> None)"

fun scan_entries :: "string list \<Rightarrow> goerr + (string \<times> i64) list" where
  "scan_entries [] = Inr []"
| "scan_entries (l # ls) =
     (if length l \<ge> max_token then Inl (Plain ''bufio.Scanner: token too long'')
      else rbind (scan_entries ls) (\<lambda>es.
        case parse_entry (drop_cr l) of None \<Rightarrow> Inr es | Some e \<Rightarrow> Inr (e # es)))"

definition guard_load :: "file_guard \<Rightarrow> goerr + (string \<times> i64) list" where
  "guard_load g = (case g of None \<Rightarrow> Inr [] | Some content \<Rightarrow> scan_entries (raw_lines content))"

definition guard_store :: "(string \<times> i64) list \<Rightarrow> file_guard" where
  "guard_store entries =
     Some (concat (map (\<lambda>(key, na). key @ '' '' @ FormatInt 10 (sint na) @ [newline]) entries))"

fun keep_until_seen :: "string \<Rightarrow> i64 \<Rightarrow> (string \<times> i64) list \<Rightarrow> (string \<times> i64) list option" where
  "keep_until_seen key now [] = Some []"
| "keep_until_seen key now ((k, na) # es) =
     (if sint na < sint now then keep_until_seen key now es
      else if k = key then None
      else map_option (\<lambda>kept. (k, na) # kept) (keep_until_seen key now es))"

definition file_Check :: "file_guard checker" where
  "file_Check g signerFP ref nonce notAfter now =
     (case guard_load g of
        Inl e \<Rightarrow> (Inl e, g)
      | Inr entries \<Rightarrow>
         (let key = replayKey signerFP ref nonce
          in case keep_until_seen key now entries of
               None \<Rightarrow> (Inr True, g)
             | Some kept \<Rightarrow> (Inr False, guard_store (kept @ [(key, notAfter)]))))"

section \<open>The contract\<close>

record check_req =
  cr_fp :: string
  cr_ref :: string
  cr_nonce :: "byte list"
  cr_not_after :: i64
  cr_now :: i64

fun run_checks :: "'g checker \<Rightarrow> 'g \<Rightarrow> check_req list \<Rightarrow> 'g" where
  "run_checks check g [] = g"
| "run_checks check g (c # cs) =
     run_checks check (snd (check g (cr_fp c) (cr_ref c) (cr_nonce c) (cr_not_after c) (cr_now c))) cs"

locale replay_guard =
  fixes check :: "'g checker"
    and trackable :: "string \<Rightarrow> string \<Rightarrow> byte list \<Rightarrow> bool"
    and remembers :: "'g \<Rightarrow> string \<Rightarrow> string \<Rightarrow> byte list \<Rightarrow> i64 \<Rightarrow> bool"
  assumes recorded: "trackable fp ref n \<Longrightarrow> check g fp ref n na now = (Inr False, g') \<Longrightarrow>
      remembers g' fp ref n na"
    and kept: "remembers g fp ref n na \<Longrightarrow> sint now \<le> sint na \<Longrightarrow>
      check g fp' ref' n' na' now = (r, g') \<Longrightarrow> remembers g' fp ref n na"
    and refused: "remembers g fp ref n na \<Longrightarrow> sint now \<le> sint na \<Longrightarrow>
      fst (check g fp ref n na' now) \<noteq> Inr False"
begin

lemma run_kept:
  "remembers g fp ref n na \<Longrightarrow> \<forall>c \<in> set cs. sint (cr_now c) \<le> sint na \<Longrightarrow>
   remembers (run_checks check g cs) fp ref n na"
proof (induction cs arbitrary: g)
  case (Cons c cs)
  let ?r = "check g (cr_fp c) (cr_ref c) (cr_nonce c) (cr_not_after c) (cr_now c)"
  have "remembers (snd ?r) fp ref n na"
    using kept [OF Cons.prems(1), of "cr_now c" _ _ _ _ "fst ?r" "snd ?r"] Cons.prems(2) by simp
  with Cons show ?case by simp
qed simp

lemma no_second_use:
  assumes "trackable fp ref n" "check g fp ref n na now = (Inr False, g')"
    "\<forall>c \<in> set cs. sint (cr_now c) \<le> sint na" "sint later \<le> sint na"
  shows "fst (check (run_checks check g' cs) fp ref n na later) \<noteq> Inr False"
  by (rule refused [OF run_kept [OF recorded [OF assms(1,2)] assms(3)] assms(4)])

end

subsection \<open>The memory guard meets it\<close>

interpretation nonce_memory: replay_guard memory_Check "\<lambda>_ _ _. True"
  "\<lambda>g fp ref n na. g (replayKey fp ref n) = Some na"
  by unfold_locales (auto simp: memory_Check_def Let_def split: option.splits if_splits)

subsection \<open>The file guard meets it for names without white space\<close>

definition entry_line :: "string \<times> i64 \<Rightarrow> string" where
  "entry_line e = fst e @ '' '' @ FormatInt 10 (sint (snd e))"

lemma guard_store_lines: "guard_store es = Some (concat (map (\<lambda>l. l @ [newline]) (map entry_line es)))"
  by (simp add: guard_store_def entry_line_def comp_def case_prod_unfold)

text \<open>A key of three words, which is what a line that was read yields.\<close>

definition key_ok :: "string \<Rightarrow> bool" where
  "key_ok k \<longleftrightarrow> (\<exists>a b c. word_ok a \<and> word_ok b \<and> word_ok c \<and> k = a @ '' '' @ b @ '' '' @ c)"

lemma fields_of_words: "list_all word_ok (fields_of s)"
proof (induction s)
  case (Cons x xs)
  consider "is_space x" | "\<not> is_space x" "xs = []"
    | y ys where "\<not> is_space x" "xs = y # ys" "is_space y"
    | y ys where "\<not> is_space x" "xs = y # ys" "\<not> is_space y"
    by (cases xs) auto
  then show ?case
  proof cases
    case 4
    then show ?thesis using Cons by (cases "fields_of xs") (auto simp: word_ok_def)
  qed (use Cons in \<open>simp_all add: word_ok_def\<close>)
qed simp

lemma parse_entry_ok: "parse_entry l = Some (k, na) \<Longrightarrow> key_ok k"
proof -
  assume "parse_entry l = Some (k, na)"
  then obtain a b c d where f: "fields_of l = [a, b, c, d]" "k = a @ '' '' @ b @ '' '' @ c"
    by (auto simp: parse_entry_def split: list.splits option.splits)
  then have "word_ok a" "word_ok b" "word_ok c" using fields_of_words [of l] by simp_all
  with f show "key_ok k" unfolding key_ok_def by blast
qed

lemma word_ok_digits: "word_ok (FormatInt 10 i)"
proof -
  have "\<not> is_space c" if "c \<in> set (FormatInt 10 i)" for c
    using that FormatInt_chars [of 10 c i] by (auto simp: is_space_def)
  moreover have "FormatInt 10 i \<noteq> []" by (simp add: FormatInt_def)
  ultimately show ?thesis unfolding word_ok_def by blast
qed

lemma parse_entry_line:
  assumes "key_ok k"
  shows "parse_entry (drop_cr (entry_line (k, na))) = Some (k, na)"
proof -
  obtain a b c where k: "word_ok a" "word_ok b" "word_ok c" "k = a @ '' '' @ b @ '' '' @ c"
    using assms unfolding key_ok_def by blast
  let ?ws = "[a, b, c, FormatInt 10 (sint na)]"
  have ws: "list_all word_ok ?ws" using k word_ok_digits by simp
  have l: "entry_line (k, na) = join_with '' '' ?ws" using k by (simp add: entry_line_def)
  have "\<not> is_space (last (join_with '' '' ?ws))" using join_ends [OF _ ws] by simp
  then have "drop_cr (entry_line (k, na)) = join_with '' '' ?ws"
    unfolding l drop_cr_def by (auto simp: is_space_def)
  then show ?thesis using fields_join [OF ws] k by (simp add: parse_entry_def)
qed

lemma word_no_newline: "word_ok w \<Longrightarrow> newline \<notin> set w"
  using newline_space by (auto simp: word_ok_def)

lemma newline_entry: "key_ok k \<Longrightarrow> newline \<notin> set (entry_line (k, na))"
  using FormatInt_chars [of 10 newline] by (auto simp: key_ok_def entry_line_def dest: word_no_newline)

lemma scan_keys: "scan_entries ls = Inr es \<Longrightarrow> (k, na) \<in> set es \<Longrightarrow> key_ok k"
proof (induction ls arbitrary: es)
  case (Cons l ls)
  then show ?case
    using parse_entry_ok [of "drop_cr l" k na] by (auto simp: result_iffs split: if_splits option.splits)
qed simp

lemma scan_contains:
  "scan_entries (map entry_line es @ ls) = Inr out \<Longrightarrow> \<forall>e \<in> set es. key_ok (fst e) \<Longrightarrow> set es \<subseteq> set out"
proof (induction es arbitrary: out)
  case (Cons e es)
  then show ?case
    by (cases e) (auto simp: result_iffs parse_entry_line split: if_splits)
qed simp

lemma load_store:
  assumes "guard_load (guard_store (es @ es')) = Inr out" "\<forall>e \<in> set es. key_ok (fst e)"
  shows "set es \<subseteq> set out"
proof -
  have "raw_lines (concat (map (\<lambda>l. l @ [newline]) (map entry_line es)) @ s) = map entry_line es @ raw_lines s" for s
    using assms(2) newline_entry by (intro raw_lines_concat) fastforce
  then show ?thesis
    using assms scan_contains [of es _ out] by (simp add: guard_load_def guard_store_lines)
qed

lemma keep_spec:
  "keep_until_seen key now es = Some kept \<Longrightarrow> (k, na) \<in> set es \<Longrightarrow> sint now \<le> sint na \<Longrightarrow> (k, na) \<in> set kept \<and> k \<noteq> key"
  by (induction key now es arbitrary: kept rule: keep_until_seen.induct) (auto split: if_splits)

lemma keep_refuses:
  "(key, na) \<in> set es \<Longrightarrow> sint now \<le> sint na \<Longrightarrow> keep_until_seen key now es = None"
  using keep_spec [of key now es] by (cases "keep_until_seen key now es") blast+

lemma keep_subset: "keep_until_seen key now es = Some kept \<Longrightarrow> set kept \<subseteq> set es"
  by (induction key now es arbitrary: kept rule: keep_until_seen.induct) (auto split: if_splits)

definition file_trackable :: "string \<Rightarrow> string \<Rightarrow> byte list \<Rightarrow> bool" where
  "file_trackable fp ref n \<longleftrightarrow> word_ok fp \<and> word_ok ref \<and> n \<noteq> []"

definition file_remembers :: "file_guard \<Rightarrow> string \<Rightarrow> string \<Rightarrow> byte list \<Rightarrow> i64 \<Rightarrow> bool" where
  "file_remembers g fp ref n na \<longleftrightarrow>
     (case guard_load g of Inl _ \<Rightarrow> True | Inr es \<Rightarrow> (replayKey fp ref n, na) \<in> set es)"

lemma key_ok_trackable: "file_trackable fp ref n \<Longrightarrow> key_ok (replayKey fp ref n)"
proof -
  assume t: "file_trackable fp ref n"
  have "word_ok (hex_encode n)"
    using t hex_not_space [of _ n] unfolding Hex_def word_ok_def file_trackable_def by (cases n) auto
  with t show ?thesis unfolding file_trackable_def key_ok_def replayKey_def by blast
qed

lemma file_check_kept:
  assumes g: "file_remembers g fp ref n na" and t: "sint now \<le> sint na"
    and run: "file_Check g fp' ref' n' na' now = (r, g')"
  shows "file_remembers g' fp ref n na"
proof (cases "guard_load g")
  case (Inl e)
  with g run show ?thesis by (simp add: file_Check_def)
next
  case (Inr es)
  let ?k = "replayKey fp ref n"
  have e: "(?k, na) \<in> set es" using g Inr by (simp add: file_remembers_def)
  show ?thesis
  proof (cases "keep_until_seen (replayKey fp' ref' n') now es")
    case None
    with g run Inr show ?thesis by (simp add: file_Check_def)
  next
    case (Some kept)
    then have g': "g' = guard_store (kept @ [(replayKey fp' ref' n', na')])"
      using run Inr by (simp add: file_Check_def)
    have "\<forall>x \<in> set es. key_ok (fst x)"
      using Inr scan_keys by (auto simp: guard_load_def split: option.splits)
    then have "\<forall>x \<in> set kept. key_ok (fst x)" using keep_subset [OF Some] by blast
    with keep_spec [OF Some e t] show ?thesis
      using load_store [of kept] by (auto simp: file_remembers_def g' split: sum.splits)
  qed
qed

interpretation nonce_file: replay_guard file_Check file_trackable file_remembers
proof
  fix fp ref n g na now g'
  assume t: "file_trackable fp ref n" and run: "file_Check g fp ref n na now = (Inr False, g')"
  then obtain es kept where es: "guard_load g = Inr es"
    and kept: "keep_until_seen (replayKey fp ref n) now es = Some kept"
    and g': "g' = guard_store (kept @ [(replayKey fp ref n, na)])"
    by (auto simp: file_Check_def Let_def split: sum.splits option.splits)
  have "\<forall>x \<in> set es. key_ok (fst x)"
    using es scan_keys by (auto simp: guard_load_def split: option.splits)
  then have "\<forall>x \<in> set (kept @ [(replayKey fp ref n, na)]). key_ok (fst x)"
    using keep_subset [OF kept] key_ok_trackable [OF t] by auto
  then show "file_remembers g' fp ref n na"
    using load_store [of "kept @ [(replayKey fp ref n, na)]" "[]"]
    by (auto simp: file_remembers_def g' split: sum.splits)
next
  fix g fp ref n na now fp' ref' n' na' r g'
  assume "file_remembers g fp ref n na" "sint now \<le> sint na" "file_Check g fp' ref' n' na' now = (r, g')"
  then show "file_remembers g' fp ref n na" by (rule file_check_kept)
next
  fix g :: file_guard and fp ref n and na now na' :: i64
  assume "file_remembers g fp ref n na" "sint now \<le> sint na"
  then show "fst (file_Check g fp ref n na' now) \<noteq> Inr False"
    by (auto simp: file_Check_def file_remembers_def Let_def keep_refuses split: sum.splits)
qed

section \<open>Properties\<close>

text \<open>A nonce works once: after the file guard has let a (signer, ref, nonce) through, it
  lets it through no more until the update's expiry has passed, whatever other checks run
  in between, with whatever nonces and expiries, and however often the guard is reloaded
  from its file. (The names must be free of white space.)\<close>

theorem nonce_single_use:
  assumes "word_ok fp" and "word_ok ref" and "n \<noteq> []"
    and "file_Check g fp ref n na now = (Inr False, g')"
    and "\<forall>c \<in> set cs. sint (cr_now c) \<le> sint na" and "sint later \<le> sint na"
  shows "fst (file_Check (run_checks file_Check g' cs) fp ref n na' later) \<noteq> Inr False"
proof (rule nonce_file.refused [OF nonce_file.run_kept [OF nonce_file.recorded]])
  show "file_trackable fp ref n" using assms(1,2,3) by (simp add: file_trackable_def)
qed (use assms in auto)

theorem nonce_single_use_witness:
  "fst (file_Check (snd (file_Check None ''k'' ''main'' [1] 9 5)) ''k'' ''main'' [1] 9 7) \<noteq> Inr False"
proof -
  have "file_Check None ''k'' ''main'' [1] 9 5 = (Inr False, guard_store [(replayKey ''k'' ''main'' [1], 9)])"
    by (simp add: file_Check_def guard_load_def)
  with nonce_single_use [of "''k''" "''main''" "[1]" None 9 5 _ "[]" 7 9] show ?thesis
    by (simp add: word_ok_def is_space_def)
qed

text \<open>The guard has a hole: a ref name may contain a space (the ref store accepts it), but
  the line the guard writes for such a ref has a column too many and is skipped when it is
  read back. The same nonce passes again at once, well within its window.\<close>

theorem nonce_forgotten_for_spaced_ref:
  assumes "word_ok fp" and "word_ok a" and "word_ok b" and "n \<noteq> []"
    and "length (entry_line (replayKey fp (a @ '' '' @ b) n, na)) < max_token"
  shows "\<exists>g. file_Check None fp (a @ '' '' @ b) n na now = (Inr False, g) \<and>
     fst (file_Check g fp (a @ '' '' @ b) n na now) = Inr False"
proof -
  let ?key = "replayKey fp (a @ '' '' @ b) n"
  let ?ws = "[fp, a, b, hex_encode n, FormatInt 10 (sint na)]"
  have "word_ok (hex_encode n)"
    using assms(4) hex_not_space [of _ n] unfolding Hex_def word_ok_def by (cases n) auto
  then have ws: "list_all word_ok ?ws" using assms word_ok_digits by simp
  have l: "entry_line (?key, na) = join_with '' '' ?ws" by (simp add: entry_line_def replayKey_def)
  have nl: "newline \<notin> set (entry_line (?key, na))" unfolding l by (rule newline_join [OF ws])
  have "\<not> is_space (last (join_with '' '' ?ws))" using join_ends [OF _ ws] by simp
  then have dc: "drop_cr (entry_line (?key, na)) = join_with '' '' ?ws"
    unfolding l drop_cr_def by (auto simp: is_space_def)
  have p: "parse_entry (drop_cr (entry_line (?key, na))) = None"
    unfolding dc parse_entry_def fields_join [OF ws] by simp
  have "raw_lines (entry_line (?key, na) @ [newline]) = [entry_line (?key, na)]"
    using raw_lines_line [OF nl, of "[]"] by simp
  then have "guard_load (guard_store [(?key, na)]) = Inr []"
    using p assms(5) by (simp add: guard_load_def guard_store_lines)
  then show ?thesis by (simp add: file_Check_def) (simp add: guard_load_def)
qed

theorem nonce_forgotten_for_spaced_ref_witness:
  "\<exists>g. ValidName ''my branch'' = Inr () \<and> file_Check None ''k'' ''my branch'' [1] 9 5 = (Inr False, g) \<and>
     fst (file_Check g ''k'' ''my branch'' [1] 9 5) = Inr False"
proof -
  have v: "ValidName ''my branch'' = Inr ()" by (simp add: ValidName_def has_prefix_def has_suffix_def)
  have "length (entry_line (replayKey ''k'' (''my'' @ '' '' @ ''branch'') [1], 9)) < max_token"
    by (simp add: entry_line_def replayKey_def FormatInt_def digits_of_small max_token_def)
  with nonce_forgotten_for_spaced_ref [of "''k''" "''my''" "''branch''" "[1]" 9 5] v show ?thesis
    by (simp add: word_ok_def is_space_def)
qed

end
