(* ===== verification/Verify.thy ===== *)
theory Verify
  imports Replay
begin

text \<open>
  \<^verbatim>\<open>internal/refupdate/verify.go\<close>: the pipeline that decides about a signed ref update and
  performs it. It is run against the trust file, the presence of objects, a replay guard
  and the ref store; an infrastructure failure is an error, every policy outcome a result.
  The skew is given in whole seconds, and the clock of the ref log is an argument.
\<close>

record 'g verifier =
  vf_trust :: trust_file
  vf_has :: "multihash \<Rightarrow> bool"
  vf_check :: "'g checker"
  vf_now :: i64
  vf_skew :: i64
  vf_ed25519 :: ed25519_verify
  vf_hash :: hash_funs
  vf_clock :: i64

record verify_result =
  vr_accepted :: bool
  vr_reason :: string
  vr_current :: "multihash option"

definition DefaultSkew :: i64 where "DefaultSkew = 300"

definition rejected :: "string \<Rightarrow> verify_result" where
  "rejected reason = \<lparr>vr_accepted = False, vr_reason = reason, vr_current = None\<rparr>"

definition accepted :: verify_result where
  "accepted = \<lparr>vr_accepted = True, vr_reason = [], vr_current = None\<rparr>"

definition resolved :: "refstate \<Rightarrow> string \<Rightarrow> multihash option" where
  "resolved s ref = (case Resolve s ref of Inl _ \<Rightarrow> None | Inr h \<Rightarrow> Some h)"

definition audit :: "'g verifier \<Rightarrow> signed_update \<Rightarrow> string \<Rightarrow> refstate \<Rightarrow> refstate" where
  "audit v su reason s =
     (let ref = pl_Ref (su_payload su);
          fp = pl_Fingerprint (vf_hash v) (su_payload su);
          cur = resolved s ref
      in snd (AppendLog s (vf_clock v) ref cur cur fp (''refupdate rejected: '' @ reason)))"

definition expired :: "'g verifier \<Rightarrow> i64 \<Rightarrow> bool" where
  "expired v na =
     (let skew = (if vf_skew v = 0 then DefaultSkew else vf_skew v)
      in na \<noteq> 0 \<and> sint (vf_now v) > sint (na + skew))"

definition ru_Verify ::
  "'g verifier \<Rightarrow> signed_update \<Rightarrow> refstate \<Rightarrow> 'g \<Rightarrow> (goerr + verify_result) \<times> refstate \<times> 'g" where
  "ru_Verify v su s g =
     (let p = su_payload su;
          fp = pl_Fingerprint (vf_hash v) p;
          ref = pl_Ref p
      in case VerifySignature (vf_ed25519 v) su of
           Inl _ \<Rightarrow> (Inr (rejected ''signature does not verify''), s, g)
         | Inr _ \<Rightarrow>
          if expired v (pl_NotAfter p) then
            (Inr (rejected ''expired''), audit v su ''expired'' s, g)
          else if \<not> Authorized (vf_trust v) fp RightPromote (pl_Scope p) then
            (Inr (rejected (''signer lacks promote at scope '' @ pl_Scope p)),
             audit v su (''not authorized to promote at scope '' @ pl_Scope p) s, g)
          else if (case pl_New p of None \<Rightarrow> False | Some newv \<Rightarrow> \<not> vf_has v newv) then
            (Inr (rejected ''new object not present''), audit v su ''missing new object'' s, g)
          else
            (case pl_Evidence p of
               Inl e \<Rightarrow> (Inl e, s, g)
             | Inr evidence \<Rightarrow>
                if list_ex (\<lambda>e. \<not> vf_has v e) evidence then
                  (Inr (rejected ''evidence object not present''), audit v su ''missing evidence object'' s, g)
                else
                  (case vf_check v g fp ref (pl_Nonce p) (pl_NotAfter p) (vf_now v) of
                     (Inl e, g) \<Rightarrow> (Inl e, s, g)
                   | (Inr seen, g) \<Rightarrow>
                      if seen then
                        (Inr (rejected ''nonce already used for this signer and ref''), audit v su ''nonce replay'' s, g)
                      else
                        (case CompareAndSwap s (vf_clock v) ref (pl_ExpectedOld p) (pl_New p) fp (''promote by '' @ fp) of
                           (Inl _, s) \<Rightarrow>
                             (Inr \<lparr>vr_accepted = False, vr_reason = ''compare-and-swap conflict'',
                                   vr_current = resolved s ref\<rparr>,
                              audit v su ''CAS conflict'' s, g)
                         | (Inr _, s) \<Rightarrow> (Inr accepted, s, g)))))"

section \<open>What the steps change\<close>

lemma audit_refs [simp]: "rs_refs (audit v su reason s) = rs_refs s"
  by (auto simp: audit_def Let_def AppendLog_def appendLog_def split: sum.splits)

lemma current_refs: "rs_refs s = rs_refs s' \<Longrightarrow> current s = current s'"
  by (simp add: fun_eq_iff current_def readRef_def)

lemma accepted_simps [simp]: "vr_accepted accepted" "\<not> vr_accepted (rejected r)"
  by (simp_all add: accepted_def rejected_def)

lemma cas_refs:
  assumes "refs_ok s" "cas s c = (Inr (), s')"
  shows "current s (co_name c) = co_old c" "current s' = (current s)(co_name c := co_new c)"
proof -
  obtain s1 where m: "current s (co_name c) = co_old c" "moved s (co_name c) (co_new c) = Inr s1"
    and a: "appendLog s1 (co_now c) (co_name c) (co_old c) (co_new c) (co_actor c) (co_msg c) = (Inr (), s')"
    using assms(2) by (rule cas_cases) auto
  have "rs_refs s' = rs_refs s1" using a by (auto simp: appendLog_def Let_def split: sum.splits)
  then show "current s (co_name c) = co_old c" "current s' = (current s)(co_name c := co_new c)"
    using m(1) moved_ok(2) [OF assms(1) m(2)] current_refs [of s' s1] by simp_all
qed

text \<open>What a verifier wants of an update before it looks at nonces and at the ref.\<close>

definition admissible :: "'g verifier \<Rightarrow> signed_update \<Rightarrow> bool" where
  "admissible v su \<longleftrightarrow>
     (let p = su_payload su
      in VerifySignature (vf_ed25519 v) su = Inr () \<and> \<not> expired v (pl_NotAfter p) \<and>
         Authorized (vf_trust v) (pl_Fingerprint (vf_hash v) p) RightPromote (pl_Scope p) \<and>
         (case pl_New p of None \<Rightarrow> True | Some newv \<Rightarrow> vf_has v newv) \<and>
         (case pl_Evidence p of Inl _ \<Rightarrow> False | Inr ev \<Rightarrow> list_all (vf_has v) ev))"

definition swap_of :: "'g verifier \<Rightarrow> signed_update \<Rightarrow> cas_op" where
  "swap_of v su =
     (let p = su_payload su; fp = pl_Fingerprint (vf_hash v) p
      in \<lparr>co_name = pl_Ref p, co_old = pl_ExpectedOld p, co_new = pl_New p, co_now = vf_clock v,
          co_actor = fp, co_msg = ''promote by '' @ fp\<rparr>)"

definition guard_says :: "'g verifier \<Rightarrow> signed_update \<Rightarrow> 'g \<Rightarrow> (goerr + bool) \<times> 'g" where
  "guard_says v su g =
     (let p = su_payload su
      in vf_check v g (pl_Fingerprint (vf_hash v) p) (pl_Ref p) (pl_Nonce p) (pl_NotAfter p) (vf_now v))"

lemma Verify_admissible:
  assumes "admissible v su"
  shows "ru_Verify v su s g =
     (case guard_says v su g of
        (Inl e, g) \<Rightarrow> (Inl e, s, g)
      | (Inr seen, g) \<Rightarrow>
          if seen then
            (Inr (rejected ''nonce already used for this signer and ref''), audit v su ''nonce replay'' s, g)
          else (case cas s (swap_of v su) of
                  (Inl _, s) \<Rightarrow>
                    (Inr \<lparr>vr_accepted = False, vr_reason = ''compare-and-swap conflict'',
                          vr_current = resolved s (pl_Ref (su_payload su))\<rparr>, audit v su ''CAS conflict'' s, g)
                | (Inr _, s) \<Rightarrow> (Inr accepted, s, g)))"
proof -
  obtain ev where "pl_Evidence (su_payload su) = Inr ev" "list_all (vf_has v) ev"
    using assms by (auto simp: admissible_def Let_def split: sum.splits)
  moreover have "\<not> list_ex (\<lambda>e. \<not> vf_has v e) ev"
    using calculation(2) by (auto simp: list_all_iff list_ex_iff)
  moreover have c: "\<And>s. cas s (swap_of v su) =
      CompareAndSwap s (vf_clock v) (pl_Ref (su_payload su)) (pl_ExpectedOld (su_payload su)) (pl_New (su_payload su))
        (pl_Fingerprint (vf_hash v) (su_payload su)) (''promote by '' @ pl_Fingerprint (vf_hash v) (su_payload su))"
    by (simp add: cas_def swap_of_def Let_def)
  ultimately show ?thesis
    using assms unfolding c
    by (simp add: ru_Verify_def admissible_def guard_says_def Let_def split: option.splits)
qed

lemma Verify_inadmissible:
  assumes "\<not> admissible v su" "pl_Evidence (su_payload su) = Inr ev"
  shows "\<exists>res s'. ru_Verify v su s g = (Inr res, s', g) \<and> \<not> vr_accepted res \<and> rs_refs s' = rs_refs s"
proof -
  have "list_ex (\<lambda>e. \<not> vf_has v e) ev \<longleftrightarrow> \<not> list_all (vf_has v) ev"
    by (auto simp: list_all_iff list_ex_iff)
  with assms show ?thesis
    by (auto simp: ru_Verify_def admissible_def Let_def split: sum.splits option.splits)
qed

lemma accepted_admissible:
  assumes "ru_Verify v su s g = (Inr res, s', g')" "vr_accepted res"
  shows "admissible v su" "guard_says v su g = (Inr False, g')" "cas s (swap_of v su) = (Inr (), s')"
proof -
  show a: "admissible v su"
  proof (rule ccontr)
    assume n: "\<not> admissible v su"
    show False
    proof (cases "pl_Evidence (su_payload su)")
      case (Inl e)
      with assms show False by (auto simp: ru_Verify_def Let_def split: sum.splits if_splits option.splits)
    next
      case (Inr ev)
      from Verify_inadmissible [OF n Inr, of s g] assms show False by auto
    qed
  qed
  show "guard_says v su g = (Inr False, g')" "cas s (swap_of v su) = (Inr (), s')"
    using assms unfolding Verify_admissible [OF a]
    by (auto split: prod.splits sum.splits if_splits)
qed

lemma swap_of_simps [simp]:
  "co_name (swap_of v su) = pl_Ref (su_payload su)"
  "co_old (swap_of v su) = pl_ExpectedOld (su_payload su)"
  "co_new (swap_of v su) = pl_New (su_payload su)"
  by (simp_all add: swap_of_def Let_def)

lemma verify_accepts:
  assumes "admissible v su" "guard_says v su g = (Inr False, g1)" "refs_ok s"
    "ValidName (pl_Ref (su_payload su)) = Inr ()" "valid_hash (pl_New (su_payload su))"
    "clear (rs_refs s) (pl_Ref (su_payload su))" "clear (rs_logs s) (pl_Ref (su_payload su))"
    "current s (pl_Ref (su_payload su)) = pl_ExpectedOld (su_payload su)"
  shows "\<exists>s'. ru_Verify v su s g = (Inr accepted, s', g1)"
proof -
  have "if current s (co_name (swap_of v su)) = co_old (swap_of v su) then \<exists>s'. cas s (swap_of v su) = (Inr (), s')
      else \<exists>e. cas s (swap_of v su) = (Inl e, s) \<and> is_err RefConflict e"
    by (rule cas_complete) (use assms in simp_all)
  with assms show ?thesis by (auto simp: Verify_admissible)
qed

lemma word_ok_append: "word_ok a \<Longrightarrow> \<forall>c \<in> set b. \<not> is_space c \<Longrightarrow> word_ok (a @ b)"
  by (auto simp: word_ok_def)

lemma RawStdEncode_chars: "c \<in> set (RawStdEncode b) \<Longrightarrow> \<not> is_space c"
  unfolding RawStdEncode_def by (rule b64_groups_no_space [of "map unat b"]) auto

lemma word_ok_fingerprint: "word_ok (pl_Fingerprint h p)"
proof -
  have "word_ok ''SHA256:''" by (simp add: word_ok_def is_space_def)
  then show ?thesis
    unfolding pl_Fingerprint_def Fingerprint_def FingerprintBlob_def
    by (rule word_ok_append) (simp add: RawStdEncode_chars)
qed

lemma resolved_current: "ValidName n = Inr () \<Longrightarrow> resolved s n = current s n"
  by (simp add: resolved_def Resolve_def current_def)

lemma unloggable: "list_ex (is_file (rs_logs s)) (path_parents n) \<Longrightarrow>
    appendLog s now n old new actor msg = (Inl (Plain ''append log''), s)"
  by (simp add: appendLog_def fs_append_def fs_write_def Let_def)

lemma audit_unloggable:
  "list_ex (is_file (rs_logs s)) (path_parents (pl_Ref (su_payload su))) \<Longrightarrow> audit v su r s = s"
  by (auto simp: audit_def AppendLog_def unloggable Let_def split: sum.splits)

section \<open>Properties\<close>

text \<open>C6. The decision about a signed update: for a valid ref name that clashes with no other,
  a well-formed new value and readable evidence, and a guard that answers, the verifier
  accepts exactly if the signature verifies, the update has not expired, the signer may
  promote at its scope, every object it names is present, its nonce is new and the ref
  still has the expected value. Accepting moves this one ref to the new value; in every
  other case no ref changes.\<close>

theorem verify_decides:
  assumes "refs_ok s" and "ValidName (pl_Ref (su_payload su)) = Inr ()"
    and "clear (rs_refs s) (pl_Ref (su_payload su))" and "clear (rs_logs s) (pl_Ref (su_payload su))"
    and "valid_hash (pl_New (su_payload su))" and "pl_Evidence (su_payload su) = Inr ev"
    and "guard_says v su g = (Inr seen, g1)"
  shows "\<exists>res s' g'. ru_Verify v su s g = (Inr res, s', g') \<and>
     (vr_accepted res \<longleftrightarrow>
        admissible v su \<and> \<not> seen \<and> current s (pl_Ref (su_payload su)) = pl_ExpectedOld (su_payload su)) \<and>
     current s' = (if vr_accepted res then (current s)(pl_Ref (su_payload su) := pl_New (su_payload su)) else current s)"
proof (cases "admissible v su")
  case False
  obtain res s' where r: "ru_Verify v su s g = (Inr res, s', g)" "\<not> vr_accepted res" "rs_refs s' = rs_refs s"
    using Verify_inadmissible [OF False assms(6), of s g] by blast
  with False current_refs [OF r(3)] show ?thesis by simp
next
  case adm: True
  show ?thesis
  proof (cases seen)
    case True
    then show ?thesis
      using adm assms(7) current_refs [OF audit_refs] by (simp add: Verify_admissible)
  next
    case False
    let ?c = "swap_of v su"
    have cc: "if current s (co_name ?c) = co_old ?c then \<exists>s'. cas s ?c = (Inr (), s')
        else \<exists>e. cas s ?c = (Inl e, s) \<and> is_err RefConflict e"
      by (rule cas_complete) (use assms in simp_all)
    show ?thesis
    proof (cases "current s (co_name ?c) = co_old ?c")
      case True
      with cc obtain s' where c: "cas s ?c = (Inr (), s')" by auto
      show ?thesis
        using adm False assms(7) c cas_refs [OF assms(1) c] by (simp add: Verify_admissible)
    next
      case ne: False
      with cc obtain e where "cas s ?c = (Inl e, s)" by auto
      with ne show ?thesis
        using adm False assms(7) current_refs [OF audit_refs] by (simp add: Verify_admissible)
    qed
  qed
qed

definition demo_update :: signed_update where
  "demo_update = \<lparr>su_payload = \<lparr>pl_fields = param_fields (demo_params\<lparr>rp_signer := sg_public demo_signer\<rparr>)\<rparr>,
                  su_sig = replicate 64 0\<rparr>"

definition demo_hash :: hash_funs where
  "demo_hash = \<lparr>sha256_sum = (\<lambda>_. replicate 32 0), blake3_sum = (\<lambda>_. replicate 32 0)\<rparr>"

definition demo_trust :: trust_file where
  "demo_trust = trust_Add []
     \<lparr>tr_fingerprint = pl_Fingerprint demo_hash (su_payload demo_update), tr_name = ''jan'', tr_scope = ''/'',
      tr_right = RightPromote, tr_extra = []\<rparr>"

definition demo_verifier :: "i64 \<Rightarrow> 'g checker \<Rightarrow> 'g verifier" where
  "demo_verifier now check =
     \<lparr>vf_trust = demo_trust, vf_has = (\<lambda>_. True), vf_check = check, vf_now = now, vf_skew = 0,
      vf_ed25519 = (\<lambda>_ _ _. True), vf_hash = demo_hash, vf_clock = 7\<rparr>"

lemma demo_asks: "asks (su_payload demo_update) (request (demo_params\<lparr>rp_signer := sg_public demo_signer\<rparr>))"
  unfolding demo_update_def signed_update.simps by (rule asks_request [OF demo_wf])

lemma demo_fields:
  "pl_Ref (su_payload demo_update) = ''refs/heads/main''"
  "pl_ExpectedOld (su_payload demo_update) = None"
  "pl_New (su_payload demo_update) = Some [0x12, 1, 5]"
  "pl_Scope (su_payload demo_update) = ''/''"
  "pl_Nonce (su_payload demo_update) = replicate 16 3"
  "pl_NotAfter (su_payload demo_update) = 100"
  "pl_SignerKey (su_payload demo_update) = replicate 32 9"
  "pl_Evidence (su_payload demo_update) = Inr []"
  using demo_asks by (simp_all add: asks_def request_def demo_params_def demo_signer_def)

lemma demo_store:
  "ValidName ''refs/heads/main'' = Inr ()" "clear (rs_refs empty_refs) n" "clear (rs_logs empty_refs) n"
  "valid_hash (Some [0x12, 1, 5])" "current empty_refs n = None"
  by (simp add: ValidName_def has_prefix_def has_suffix_def)
    (simp_all add: clear_def empty_refs_def empty_ftree_def is_file_def list_ex_iff valid_hash_def small_hash
      current_def readRef_def fs_read_def)

lemma demo_admissible: "sint now \<le> 400 \<Longrightarrow> admissible (demo_verifier now check) demo_update"
proof -
  have "Authorized demo_trust (pl_Fingerprint demo_hash (su_payload demo_update)) RightPromote ''/''"
    by (simp add: demo_trust_def trust_Add_def set_last_final_def Authorized_def Lookup_def Allows_def
        right_level_def Covers_def Let_def)
  moreover assume "sint now \<le> 400"
  ultimately show ?thesis
    by (simp add: admissible_def demo_verifier_def demo_fields expired_def VerifySignature_def PublicKeySize_def
        DefaultSkew_def Let_def)
qed

lemma demo_guard:
  "\<exists>g1. guard_says (demo_verifier now memory_Check) demo_update NewMemoryGuard = (Inr False, g1)"
  "\<exists>g1. guard_says (demo_verifier now file_Check) demo_update None = (Inr False, g1)"
  by (simp_all add: guard_says_def demo_verifier_def memory_Check_def NewMemoryGuard_def file_Check_def
      guard_load_def Let_def)

theorem verify_decides_witness:
  "\<exists>res s' g'. ru_Verify (demo_verifier 50 memory_Check) demo_update empty_refs NewMemoryGuard = (Inr res, s', g') \<and>
     vr_accepted res \<and> current s' ''refs/heads/main'' = Some [0x12, 1, 5]"
proof -
  obtain g1 where "guard_says (demo_verifier 50 memory_Check) demo_update NewMemoryGuard = (Inr False, g1)"
    using demo_guard(1) by blast
  note d = verify_decides [OF _ _ _ _ _ demo_fields(8) this, of empty_refs]
  have "admissible (demo_verifier 50 memory_Check) demo_update" by (rule demo_admissible) simp
  with d show ?thesis by (fastforce simp: demo_fields demo_store)
qed

lemma demo_wf_signed: "wf_signed demo_update"
  using wf_param_payload [OF demo_wf] by (simp add: wf_signed_def demo_update_def fits64_def)

lemma demo_accepted:
  assumes "sint now \<le> 400" "guard_says (demo_verifier now check) demo_update g = (Inr False, g1)"
  shows "\<exists>s'. ru_Verify (demo_verifier now check) demo_update empty_refs g = (Inr accepted, s', g1)"
  by (rule verify_accepts [OF demo_admissible [OF assms(1)] assms(2)]) (simp_all add: demo_fields demo_store)



lemma length_groups: "length (b64_groups xs pad) \<le> 4 * length xs"
  by (induction xs pad rule: b64_groups.induct) auto

text \<open>The protection ends too early: the guard forgets a nonce once its expiry has passed,
  but the verifier goes on accepting the update for the length of the skew, and for ever if
  it carries no expiry (zero). Such an update, once accepted, is accepted again as soon as
  the ref is back at the value it expects.\<close>

theorem replay_past_expiry:
  assumes "ru_Verify v su s None = (Inr res, s1, g1)" and "vr_accepted res"
    and "vf_check v = file_Check" and "word_ok (pl_Ref (su_payload su))" and "pl_Nonce (su_payload su) \<noteq> []"
    and "length (entry_line (replayKey (pl_Fingerprint (vf_hash v) (su_payload su)) (pl_Ref (su_payload su))
           (pl_Nonce (su_payload su)), pl_NotAfter (su_payload su))) < max_token"
    and "sint (pl_NotAfter (su_payload su)) < sint later"
    and "\<not> expired (v\<lparr>vf_now := later\<rparr>) (pl_NotAfter (su_payload su))"
    and "refs_ok s2" and "ValidName (pl_Ref (su_payload su)) = Inr ()" and "valid_hash (pl_New (su_payload su))"
    and "clear (rs_refs s2) (pl_Ref (su_payload su))" and "clear (rs_logs s2) (pl_Ref (su_payload su))"
    and "current s2 (pl_Ref (su_payload su)) = pl_ExpectedOld (su_payload su)"
  shows "\<exists>s3 g3. ru_Verify (v\<lparr>vf_now := later\<rparr>) su s2 g1 = (Inr accepted, s3, g3)"
proof -
  let ?p = "su_payload su" and ?w = "v\<lparr>vf_now := later\<rparr>"
  let ?key = "replayKey (pl_Fingerprint (vf_hash v) ?p) (pl_Ref ?p) (pl_Nonce ?p)"
  have adm: "admissible ?w su"
    using accepted_admissible(1) [OF assms(1,2)] assms(8)
    by (simp add: admissible_def Let_def split: option.splits sum.splits)
  have "key_ok ?key"
    using assms(4,5) word_ok_fingerprint by (intro key_ok_trackable) (simp add: file_trackable_def)
  then have "newline \<notin> set (entry_line (?key, pl_NotAfter ?p))"
    and p: "parse_entry (drop_cr (entry_line (?key, pl_NotAfter ?p))) = Some (?key, pl_NotAfter ?p)"
    by (rule newline_entry, rule parse_entry_line)
  then have "guard_load (guard_store [(?key, pl_NotAfter ?p)]) = Inr [(?key, pl_NotAfter ?p)]"
    using raw_lines_line [of "entry_line (?key, pl_NotAfter ?p)" "[]"] assms(6)
    by (simp add: guard_load_def guard_store_lines)
  moreover have "g1 = guard_store [(?key, pl_NotAfter ?p)]"
    using accepted_admissible(2) [OF assms(1,2)] assms(3)
    by (simp add: guard_says_def file_Check_def Let_def) (simp add: guard_load_def)
  ultimately have "\<exists>g3. guard_says ?w su g1 = (Inr False, g3)"
    using assms(3,7) by (simp add: guard_says_def file_Check_def Let_def)
  then obtain g3 where "guard_says ?w su g1 = (Inr False, g3)" by blast
  from verify_accepts [OF adm this assms(9,10,11,12,13,14)] show ?thesis by blast
qed

theorem replay_past_expiry_witness:
  "\<exists>s1 g1 s3 g3. ru_Verify (demo_verifier 50 file_Check) demo_update empty_refs None = (Inr accepted, s1, g1) \<and>
     ru_Verify ((demo_verifier 50 file_Check)\<lparr>vf_now := 300\<rparr>) demo_update empty_refs g1 = (Inr accepted, s3, g3)"
proof -
  obtain g1 where g: "guard_says (demo_verifier 50 file_Check) demo_update None = (Inr False, g1)"
    using demo_guard(2) by blast
  obtain s1 where r: "ru_Verify (demo_verifier 50 file_Check) demo_update empty_refs None = (Inr accepted, s1, g1)"
    using demo_accepted [OF _ g] by auto
  have "length (RawStdEncode (replicate 32 0)) \<le> 4 * 32"
    using length_groups [of "map unat (replicate 32 0 :: byte list)" False] by (simp add: RawStdEncode_def)
  then have fp: "length (pl_Fingerprint (vf_hash (demo_verifier 50 file_Check)) (su_payload demo_update)) < 1000"
    by (simp add: demo_verifier_def pl_Fingerprint_def Fingerprint_def FingerprintBlob_def demo_hash_def)
  have "length (entry_line (replayKey (pl_Fingerprint (vf_hash (demo_verifier 50 file_Check)) (su_payload demo_update))
      ''refs/heads/main'' (replicate 16 3), 100)) < max_token"
    using fp by (simp add: entry_line_def replayKey_def max_token_def FormatInt_def digits_of_large digits_of_small
        Hex_def [symmetric])
  moreover have "\<not> expired ((demo_verifier 50 file_Check)\<lparr>vf_now := 300\<rparr>) 100"
    by (simp add: expired_def demo_verifier_def DefaultSkew_def Let_def)
  ultimately show ?thesis
    using replay_past_expiry [OF r, of 300 empty_refs] r
    by (simp add: demo_fields demo_store word_ok_def is_space_def) (simp add: demo_verifier_def)
qed

text \<open>A refusal does not mean that nothing happened: where the log of another ref occupies
  a parent of the name, an update that passes every check moves the ref and is reported as
  a compare-and-swap conflict whose current value is the very value it asked for. Neither
  the move nor the refusal is in any log.\<close>

theorem refused_yet_moved:
  assumes "admissible v su" and "guard_says v su g = (Inr False, g1)" and "refs_ok s"
    and "ValidName (pl_Ref (su_payload su)) = Inr ()" and "valid_hash (pl_New (su_payload su))"
    and "clear (rs_refs s) (pl_Ref (su_payload su))"
    and "current s (pl_Ref (su_payload su)) = pl_ExpectedOld (su_payload su)"
    and "list_ex (is_file (rs_logs s)) (path_parents (pl_Ref (su_payload su)))"
  shows "\<exists>s'. ru_Verify v su s g =
       (Inr \<lparr>vr_accepted = False, vr_reason = ''compare-and-swap conflict'', vr_current = pl_New (su_payload su)\<rparr>, s', g1) \<and>
     current s' = (current s)(pl_Ref (su_payload su) := pl_New (su_payload su)) \<and> rs_logs s' = rs_logs s"
proof -
  let ?c = "swap_of v su"
  obtain s1 where m: "moved s (co_name ?c) (co_new ?c) = Inr s1"
    using clear_moved [OF assms(6,5)] by auto
  note m1 = moved_ok [OF assms(3) m]
  have u: "list_ex (is_file (rs_logs s1)) (path_parents (pl_Ref (su_payload su)))"
    using assms(8) m1(3) by simp
  then have "cas s ?c = (Inl (Plain ''append log''), s1)"
    using m assms(4,7) unloggable [OF u]
    by (simp add: cas_def CompareAndSwap_eq clear_readRef [OF assms(6,3)] split: option.splits)
  moreover have "audit v su r s1 = s1" for r by (rule audit_unloggable [OF u])
  moreover have "resolved s1 (pl_Ref (su_payload su)) = pl_New (su_payload su)"
    using m1(2) by (simp add: resolved_current [OF assms(4)])
  ultimately show ?thesis using assms(1,2) m1(2,3) by (simp add: Verify_admissible)
qed

theorem refused_yet_moved_witness:
  "\<exists>s g1 s'. ru_Verify (demo_verifier 50 memory_Check) demo_update s NewMemoryGuard =
       (Inr \<lparr>vr_accepted = False, vr_reason = ''compare-and-swap conflict'', vr_current = Some [0x12, 1, 5]\<rparr>, s', g1) \<and>
     current s' ''refs/heads/main'' = Some [0x12, 1, 5]"
proof -
  let ?l = "\<lparr>ft_files = [(''refs'', [])], ft_dirs = {}\<rparr>"
  let ?s = "empty_refs\<lparr>rs_logs := ?l\<rparr>"
  have wl: "wf_ftree ?l" by (auto simp: wf_ftree_def is_file_def path_parents_def split: if_splits)
  have cl: "contents ?l n = (if n = ''refs'' then Some [] else None)" for n
    by (simp add: contents_file [OF wl])
  have ok: "refs_ok ?s" using wl
    by (auto simp: refs_ok_def empty_refs_def cl intro: exI [of _ "[]"])
  obtain g1 where g: "guard_says (demo_verifier 50 memory_Check) demo_update NewMemoryGuard = (Inr False, g1)"
    using demo_guard(1) by blast
  have "current ?s n = None" for n
    using demo_store(5) [of n] by (simp add: current_def readRef_def)
  moreover have "list_ex (is_file (rs_logs ?s)) (path_parents ''refs/heads/main'')"
    by (simp add: path_parents_def is_file_def upt_rec)
  ultimately show ?thesis
    using refused_yet_moved [OF demo_admissible g ok] demo_store(2)
    by (fastforce simp: demo_fields demo_store)
qed

end
