(* ===== verification/ObjTree.thy ===== *)
theory ObjTree
  imports ObjectCore
begin

text \<open>
  Blobs, trees and changes: \<^verbatim>\<open>blob.go\<close>, \<^verbatim>\<open>tree.go\<close> and \<^verbatim>\<open>change.go\<close> of
  \<^verbatim>\<open>internal/object\<close>. Each kind has its builder and its typed reader; the lemmas say
  what the reader makes of what the builder wrote, on which input the builder panics,
  and which encodings the reader refuses.
\<close>

section \<open>Blobs\<close>

definition tagBlobContent :: u64 where "tagBlobContent = 1"

definition NewBlob :: "byte list \<Rightarrow> goerr + obj" where
  "NewBlob content = newObject TypeBlob [(tagBlobContent, content)]"

definition BlobContent :: "obj \<Rightarrow> byte list option" where
  "BlobContent o' = (if otyp o' \<noteq> TypeBlob then None else Field o' tagBlobContent)"

definition blob_obj :: "byte list \<Rightarrow> obj" where
  "blob_obj content = mkobj TypeBlob [(tagBlobContent, content)]"

lemma NewBlob_eq: "NewBlob content = Inr (blob_obj content)"
  by (simp add: NewBlob_def newObject_distinct blob_obj_def)

lemma BlobContent_blob [simp]: "BlobContent (blob_obj content) = Some content"
  by (simp add: BlobContent_def blob_obj_def Field_mkobj)

lemma otyp_blob [simp]: "otyp (blob_obj content) = TypeBlob"
  by (simp add: blob_obj_def)

lemma wf_blob: "fits64 content \<Longrightarrow> wf_obj (blob_obj content)"
  unfolding blob_obj_def by (rule wf_mkobj) (simp_all add: max_alloc_def)

section \<open>Trees\<close>

record entry =
  ename :: string
  emode :: u32
  ekind :: u64
  eid :: multihash

definition tagTreeEntries :: u64 where "tagTreeEntries = 1"

definition put_entry :: "byte list \<Rightarrow> entry \<Rightarrow> byte list" where
  "put_entry val e =
     (let val = appendUvarint val (len64 (ename e));
          val = val @ bytes_of (ename e);
          val = appendUvarint val (ucast (emode e));
          val = appendUvarint val (ekind e);
          val = appendUvarint val (len64 (eid e))
      in val @ eid e)"

definition NewTree :: "entry list \<Rightarrow> goerr + obj" where
  "NewTree entries =
     (let es = sort_key ename entries in
      if list_ex (\<lambda>i. ename (es ! i) = ename (es ! (i - 1))) [1..<length es]
      then Inl (Panic ''object: duplicate tree entry name'')
      else
        (let val = appendUvarint [] (len64 es)
         in newObject TypeTree [(tagTreeEntries, foldl put_entry val es)]))"

definition entry_body :: "entry option \<Rightarrow> cursor \<Rightarrow> goerr + (entry \<times> cursor)" where
  "entry_body prev c =
     rbind (c_uvarint c) (\<lambda>(nameLen, c).
     rbind (c_take nameLen c) (\<lambda>(name, c).
     rbind (c_uvarint c) (\<lambda>(mode, c).
     rbind (c_uvarint c) (\<lambda>(kind, c).
     rbind (c_uvarint c) (\<lambda>(idLen, c).
     rbind (c_take idLen c) (\<lambda>(id', c).
     let nm = string_of name in
     if (case prev of None \<Rightarrow> False | Some p \<Rightarrow> nm \<le> ename p)
     then Inl (Sentinel ErrMalformed ''tree entries not sorted/unique by name'')
     else Inr (\<lparr>ename = nm, emode = ucast mode, ekind = kind, eid = id'\<rparr>, c)))))))"

definition TreeEntries :: "obj \<Rightarrow> goerr + entry list" where
  "TreeEntries o' =
     (if otyp o' \<noteq> TypeTree then Inl (Plain ''object: not a tree'')
      else case Field o' tagTreeEntries of
        None \<Rightarrow> Inl (Sentinel ErrMalformed ''tree missing entries field'')
      | Some val \<Rightarrow>
          rbind (c_uvarint val) (\<lambda>(n, c).
          rbind (make_cap 56 n) (\<lambda>_.
          rbind (read_items entry_body (unat n) None c) (\<lambda>(entries, c).
          if \<not> c_empty c then Inl (Sentinel ErrMalformed ''trailing bytes in tree entries'')
          else Inr entries))))"

subsection \<open>The entry format\<close>

definition enc_entry_mode :: "entry \<Rightarrow> u64 \<Rightarrow> byte list" where
  "enc_entry_mode e m =
     put_bytes [] (bytes_of (ename e)) @ appendUvarint [] m @ appendUvarint [] (ekind e)
       @ put_bytes [] (eid e)"

definition enc_entry :: "entry \<Rightarrow> byte list" where
  "enc_entry e = enc_entry_mode e (ucast (emode e))"

definition wf_entry :: "entry \<Rightarrow> bool" where
  "wf_entry e \<longleftrightarrow> fits64 (ename e) \<and> fits64 (eid e)"

definition entry_ok :: "entry option \<Rightarrow> entry \<Rightarrow> bool" where
  "entry_ok prev e \<longleftrightarrow> key_after ename prev e \<and> wf_entry e"

lemma put_entry_append: "put_entry val e = val @ enc_entry e"
proof -
  have "put_entry val e = put_bytes (appendUvarint (appendUvarint
      (put_bytes val (bytes_of (ename e))) (ucast (emode e))) (ekind e)) (eid e)"
    by (simp add: put_entry_def put_bytes_def Let_def)
  also have "\<dots> = val @ enc_entry e"
    using put_bytes_append [of val] put_bytes_append [of "appendUvarint (appendUvarint
        (put_bytes val (bytes_of (ename e))) (ucast (emode e))) (ekind e)"]
      appendUvarint_append [of "appendUvarint (put_bytes val (bytes_of (ename e))) (ucast (emode e))"]
      appendUvarint_append [of "put_bytes val (bytes_of (ename e))"]
    by (simp add: enc_entry_def enc_entry_mode_def)
  finally show ?thesis .
qed

lemma foldl_put_entry: "foldl put_entry val es = val @ concat (map enc_entry es)"
  by (induction es arbitrary: val) (simp_all add: put_entry_append)

text \<open>
  The reader stores the 64-bit mode it reads in 32 bits, so it accepts every encoding of
  an entry whose mode agrees in the low half.
\<close>

lemma entry_body_eq:
  "entry_body prev c =
     rbind (c_bytes c) (\<lambda>(name, c).
     rbind (c_uvarint c) (\<lambda>(mode, c).
     rbind (c_uvarint c) (\<lambda>(kind, c).
     rbind (c_bytes c) (\<lambda>(id', c).
     if \<not> key_after ename prev \<lparr>ename = string_of name, emode = ucast mode, ekind = kind, eid = id'\<rparr>
     then Inl (Sentinel ErrMalformed ''tree entries not sorted/unique by name'')
     else Inr (\<lparr>ename = string_of name, emode = ucast mode, ekind = kind, eid = id'\<rparr>, c)))))"
  by (cases prev) (simp_all add: entry_body_def c_bytes_fold Let_def not_less)

lemma entry_body_iff:
  "entry_body prev c = Inr (e, r) \<longleftrightarrow>
     (\<exists>m. c = enc_entry_mode e m @ r \<and> emode e = ucast m) \<and> entry_ok prev e"
proof
  assume "entry_body prev c = Inr (e, r)"
  then show "(\<exists>m. c = enc_entry_mode e m @ r \<and> emode e = ucast m) \<and> entry_ok prev e"
    by (auto simp: entry_body_eq result_iffs cursor_iffs entry_ok_def wf_entry_def enc_entry_mode_def)
next
  assume "(\<exists>m. c = enc_entry_mode e m @ r \<and> emode e = ucast m) \<and> entry_ok prev e"
  then show "entry_body prev c = Inr (e, r)"
    by (cases e) (auto simp: entry_body_eq entry_ok_def wf_entry_def enc_entry_mode_def)
qed

lemma ucast_mode [simp]: "ucast (ucast (m :: u32) :: u64) = m"
  by (rule bit_eqI) (simp add: bit_simps)

interpretation tree_entries: item_format enc_entry entry_body entry_ok
  by unfold_locales (auto simp: entry_body_iff enc_entry_def intro!: exI)

interpretation tree_entries: checked_format entry_body entry_ok
  by unfold_locales (simp add: entry_body_iff)

subsection \<open>Tree objects\<close>

definition enc_entries :: "entry list \<Rightarrow> byte list" where
  "enc_entries es = appendUvarint [] (len64 es) @ concat (map enc_entry es)"

definition tree_obj :: "entry list \<Rightarrow> obj" where
  "tree_obj es = mkobj TypeTree [(tagTreeEntries, enc_entries es)]"

definition wf_entries :: "entry list \<Rightarrow> bool" where
  "wf_entries es \<longleftrightarrow>
     sorted_wrt (<) (map ename es) \<and> (\<forall>e \<in> set es. wf_entry e) \<and> length es * 56 \<le> max_alloc"

lemma NewTree_eq:
  "NewTree es = (if distinct (map ename es) then Inr (tree_obj (sort_key ename es))
     else Inl (Panic ''object: duplicate tree entry name''))"
  unfolding NewTree_def Let_def no_adjacent_key_distinct
  by (simp add: newObject_distinct tree_obj_def enc_entries_def foldl_put_entry)

lemma chained_entry_ok:
  "chained entry_ok None es \<longleftrightarrow> sorted_wrt (<) (map ename es) \<and> (\<forall>e \<in> set es. wf_entry e)"
  using chained_sorted [where key = ename and P = wf_entry and prev = None and xs = es]
  by (simp add: entry_ok_def [abs_def])

lemma otyp_tree [simp]: "otyp (tree_obj es) = TypeTree"
  by (simp add: tree_obj_def)

lemma Field_tree [simp]: "Field (tree_obj es) tagTreeEntries = Some (enc_entries es)"
  by (simp add: tree_obj_def Field_mkobj)

lemma TreeEntries_tree: "wf_entries es \<Longrightarrow> TreeEntries (tree_obj es) = Inr es"
proof -
  assume wf: "wf_entries es"
  then have "chained entry_ok None es" by (simp add: wf_entries_def chained_entry_ok)
  from tree_entries.items_enc [OF this, of "[]"]
  have "read_items entry_body (length es) None (concat (map enc_entry es)) = Inr (es, [])" by simp
  moreover have "fits64 es" using wf by (simp add: wf_entries_def fits64_def max_alloc_def)
  ultimately show ?thesis using wf
    by (simp add: TreeEntries_def enc_entries_def make_cap_def wf_entries_def c_empty_def)
qed

lemma TreeEntries_wf: "TreeEntries o' = Inr es \<Longrightarrow> wf_entries es"
  by (auto simp: TreeEntries_def result_iffs wf_entries_def chained_entry_ok
      dest!: tree_entries.items_ok split: option.splits)

lemma sort_wf_entries:
  "distinct (map ename es) \<Longrightarrow> \<forall>e \<in> set es. wf_entry e \<Longrightarrow> length es * 56 \<le> max_alloc \<Longrightarrow>
   wf_entries (sort_key ename es)"
  by (simp add: wf_entries_def strict_sorted_iff distinct_map)

lemma TreeEntries_mode:
  assumes "wf_entry e" "emode e = ucast m"
  shows "TreeEntries (mkobj TypeTree [(tagTreeEntries, appendUvarint [] 1 @ enc_entry_mode e m)]) = Inr [e]"
proof -
  have "entry_body None (enc_entry_mode e m @ []) = Inr (e, [])"
    using assms entry_body_iff [of None "enc_entry_mode e m @ []" e "[]"] by (auto simp: entry_ok_def)
  then show ?thesis
    by (simp add: TreeEntries_def Field_mkobj make_cap_def max_alloc_def c_empty_def)
qed

section \<open>Changes\<close>

record change =
  c_tree :: "multihash option"
  c_parents :: "multihash list"
  c_message :: string
  c_timestamp :: i64
  c_author :: string
  c_provenance :: "multihash option"
  c_artifacts :: "multihash list"
  c_fulfills :: "multihash option"

definition tagChangeTree :: u64 where "tagChangeTree = 1"
definition tagChangeParents :: u64 where "tagChangeParents = 2"
definition tagChangeMessage :: u64 where "tagChangeMessage = 3"
definition tagChangeTimestamp :: u64 where "tagChangeTimestamp = 4"
definition tagChangeAuthor :: u64 where "tagChangeAuthor = 5"
definition tagChangeProvenance :: u64 where "tagChangeProvenance = 6"
definition tagChangeArtifacts :: u64 where "tagChangeArtifacts = 8"
definition tagChangeFulfills :: u64 where "tagChangeFulfills = 9"

lemmas change_tags = tagChangeTree_def tagChangeParents_def tagChangeMessage_def
  tagChangeTimestamp_def tagChangeAuthor_def tagChangeProvenance_def tagChangeArtifacts_def
  tagChangeFulfills_def tagChangeSignature_def

definition Materialized :: "change \<Rightarrow> bool" where
  "Materialized c = (c_tree c \<noteq> None)"

definition change_fields :: "change \<Rightarrow> fields" where
  "change_fields c =
     (let parents = remdups_adj (sort (c_parents c));
          pv = foldl (\<lambda>b p. appendUvarint b (len64 p) @ p) (appendUvarint [] (len64 parents)) parents;
          fields =
            [(tagChangeParents, pv),
             (tagChangeMessage, bytes_of (c_message c)),
             (tagChangeTimestamp, appendUvarint [] (c_timestamp c)),
             (tagChangeAuthor, bytes_of (c_author c))];
          fields = fields @ opt_field tagChangeTree (c_tree c);
          fields = fields @ opt_field tagChangeProvenance (c_provenance c);
          arts = sortedUniqueHashes (c_artifacts c);
          fields = fields @ (if length arts > 0 then [(tagChangeArtifacts, encodeHashList arts)] else []);
          fields = fields @ opt_field tagChangeFulfills (c_fulfills c)
      in fields)"

definition NewChange :: "change \<Rightarrow> goerr + obj" where
  "NewChange c = newObject TypeChange (change_fields c)"

definition AsChange :: "obj \<Rightarrow> goerr + change" where
  "AsChange o' =
     (if otyp o' \<noteq> TypeChange then Inl (Plain ''object: not a change'')
      else
        rbind (case Field o' tagChangeTimestamp of
                 None \<Rightarrow> Inr 0
               | Some v \<Rightarrow> readWhole (Sentinel ErrMalformed ''bad change timestamp'') v) (\<lambda>ts.
        rbind (case Field o' tagChangeParents of
                 None \<Rightarrow> Inr []
               | Some v \<Rightarrow> decodeHashRun
                   (Sentinel ErrMalformed ''change parents not sorted/unique'')
                   (Sentinel ErrMalformed ''trailing bytes in change parents'') v) (\<lambda>parents.
        rbind (case Field o' tagChangeArtifacts of
                 None \<Rightarrow> Inr []
               | Some v \<Rightarrow> map_err (\<lambda>_. Sentinel ErrMalformed ''bad change artifacts'')
                   (decodeHashRun (Plain ''hash list not sorted/unique'')
                      (Plain ''trailing bytes in hash list'') v)) (\<lambda>arts.
        Inr \<lparr>c_tree = Field o' tagChangeTree,
             c_parents = parents,
             c_message = str_of_field o' tagChangeMessage,
             c_timestamp = ts,
             c_author = str_of_field o' tagChangeAuthor,
             c_provenance = hash_of_field o' tagChangeProvenance,
             c_artifacts = arts,
             c_fulfills = hash_of_field o' tagChangeFulfills\<rparr>))))"

text \<open>What a change becomes by being stored and read: the canonical form of its lists.\<close>

definition canonical_change :: "change \<Rightarrow> change" where
  "canonical_change c =
     c\<lparr>c_parents := sortedUniqueHashes (c_parents c),
       c_artifacts := sortedUniqueHashes (c_artifacts c),
       c_provenance := (if c_provenance c = Some [] then None else c_provenance c),
       c_fulfills := (if c_fulfills c = Some [] then None else c_fulfills c)\<rparr>"

definition change_obj :: "change \<Rightarrow> obj" where
  "change_obj c = mkobj TypeChange (change_fields c)"

lemma change_fields_distinct [simp]: "distinct (map fst (change_fields c))"
  by (simp add: change_fields_def change_tags Let_def)

lemma NewChange_eq: "NewChange c = Inr (change_obj c)"
  by (simp add: NewChange_def newObject_distinct change_obj_def)

lemma otyp_change [simp]: "otyp (change_obj c) = TypeChange"
  by (simp add: change_obj_def)

lemma Field_change:
  "Field (change_obj c) tagChangeTree = c_tree c"
  "Field (change_obj c) tagChangeParents = Some (encodeHashList (sortedUniqueHashes (c_parents c)))"
  "Field (change_obj c) tagChangeMessage = Some (bytes_of (c_message c))"
  "Field (change_obj c) tagChangeTimestamp = Some (appendUvarint [] (c_timestamp c))"
  "Field (change_obj c) tagChangeAuthor = Some (bytes_of (c_author c))"
  "Field (change_obj c) tagChangeProvenance = c_provenance c"
  "Field (change_obj c) tagChangeSignature = None"
  "Field (change_obj c) tagChangeArtifacts =
     (if c_artifacts c = [] then None
      else Some (encodeHashList (sortedUniqueHashes (c_artifacts c))))"
  "Field (change_obj c) tagChangeFulfills = c_fulfills c"
  unfolding change_obj_def Field_mkobj [OF change_fields_distinct]
  by (auto simp: change_fields_def change_tags Let_def map_add_def sortedUniqueHashes_eq [symmetric]
      encodeHashList_def split: option.splits)

definition wf_change :: "change \<Rightarrow> bool" where
  "wf_change c \<longleftrightarrow> wf_hash_list (c_parents c) \<and> wf_hash_list (c_artifacts c)"

lemma AsChange_change:
  assumes "wf_change c"
  shows "AsChange (change_obj c) = Inr (canonical_change c)"
proof -
  have d: "decodeHashRun e1 e2 (encodeHashList (sortedUniqueHashes hs)) = Inr (sortedUniqueHashes hs)"
    if "wf_hash_list hs" for e1 e2 hs
    using that by (simp add: decodeHashRun_iff sortedUniqueHashes_strict wf_sortedUniqueHashes)
  have "wf_hash_list (c_parents c)" "wf_hash_list (c_artifacts c)"
    using assms by (simp_all add: wf_change_def)
  then show ?thesis
    by (cases c) (auto simp: AsChange_def Field_change d str_of_field_def hash_of_field_def
        canonical_change_def split: option.splits)
qed

lemma canonical_change_Materialized: "Materialized (canonical_change c) = Materialized c"
  by (simp add: canonical_change_def Materialized_def)

lemma AsChange_Materialized: "AsChange o' = Inr c \<Longrightarrow> Materialized c \<longleftrightarrow> Field o' tagChangeTree \<noteq> None"
  by (auto simp: AsChange_def result_iffs Materialized_def)

lemma AsChange_sorted: "AsChange o' = Inr c \<Longrightarrow> sorted_wrt (<) (c_parents c) \<and> sorted_wrt (<) (c_artifacts c)"
  by (auto simp: AsChange_def result_iffs decodeHashRun_iff split: option.splits)

section \<open>Properties\<close>

text \<open>A tree is a canonical function of its set of entries: building it sorts the
  entries by name, reading it back gives exactly the sorted entries, and two entries
  with one name make the builder panic.\<close>

theorem tree_roundtrip:
  assumes "\<forall>e \<in> set es. wf_entry e" and "length es * 56 \<le> max_alloc"
  shows "rbind (NewTree es) TreeEntries =
     (if distinct (map ename es) then Inr (sort_key ename es)
      else Inl (Panic ''object: duplicate tree entry name''))"
  using assms by (simp add: NewTree_eq TreeEntries_tree sort_wf_entries)

theorem tree_roundtrip_witness:
  "rbind (NewTree [\<lparr>ename = ''b'', emode = 1, ekind = 1, eid = [2]\<rparr>,
                   \<lparr>ename = ''a'', emode = 0, ekind = 1, eid = [3]\<rparr>]) TreeEntries
     = Inr [\<lparr>ename = ''a'', emode = 0, ekind = 1, eid = [3]\<rparr>,
            \<lparr>ename = ''b'', emode = 1, ekind = 1, eid = [2]\<rparr>]"
  using tree_roundtrip [of "[\<lparr>ename = ''b'', emode = 1, ekind = 1, eid = [2]\<rparr>,
                   \<lparr>ename = ''a'', emode = 0, ekind = 1, eid = [3]\<rparr>]"]
  by (simp add: wf_entry_def fits64_def max_alloc_def less_list_code)

text \<open>A change survives being stored: reading back what \<^verbatim>\<open>NewChange\<close> built gives the
  same change with its parents and artifacts sorted and free of duplicates (and an empty
  provenance or fulfils hash read as absent); nothing else is lost, and the change is
  materialized afterwards exactly when it was before.\<close>

theorem change_roundtrip:
  assumes "wf_change c"
  shows "rbind (NewChange c) AsChange = Inr (canonical_change c) \<and>
     Materialized (canonical_change c) = Materialized c"
  using assms by (simp_all add: NewChange_eq AsChange_change canonical_change_Materialized)

theorem change_roundtrip_witness:
  "rbind (NewChange \<lparr>c_tree = Some [9], c_parents = [[2], [1], [2]], c_message = ''m'',
      c_timestamp = 0, c_author = ''x'', c_provenance = None, c_artifacts = [], c_fulfills = None\<rparr>) AsChange
   = Inr \<lparr>c_tree = Some [9], c_parents = [[1], [2]], c_message = ''m'',
      c_timestamp = 0, c_author = ''x'', c_provenance = None, c_artifacts = [], c_fulfills = None\<rparr>"
proof -
  let ?c = "\<lparr>c_tree = Some [9], c_parents = [[2], [1], [2]], c_message = ''m'',
      c_timestamp = 0, c_author = ''x'', c_provenance = None, c_artifacts = [], c_fulfills = None\<rparr>"
  have "wf_change ?c" by (simp add: wf_change_def wf_hash_list_def fits64_def)
  from change_roundtrip [OF this] show ?thesis
    by (simp add: canonical_change_def sortedUniqueHashes_def less_list_code)
qed

text \<open>Tree objects are not canonical: the reader truncates an entry's mode to 32 bits, so
  every mode that agrees in the low half is accepted and read as the same entry, although
  the bytes (and so the tree's id) differ.\<close>

theorem tree_mode_not_canonical:
  assumes "wf_entry e" and "ucast m = emode e"
  shows "TreeEntries \<lparr>otyp = TypeTree,
     ofields = [(tagTreeEntries, appendUvarint [] 1 @ enc_entry_mode e m)]\<rparr> = Inr [e]"
  using TreeEntries_mode [of e m] assms by (simp add: mkobj_def)

theorem tree_mode_not_canonical_witness:
  "TreeEntries \<lparr>otyp = TypeTree, ofields = [(tagTreeEntries, appendUvarint [] 1 @
      enc_entry_mode \<lparr>ename = ''a'', emode = 1, ekind = 1, eid = [3]\<rparr> 0x100000001)]\<rparr>
    = Inr [\<lparr>ename = ''a'', emode = 1, ekind = 1, eid = [3]\<rparr>]"
  by (rule tree_mode_not_canonical) (simp_all add: wf_entry_def fits64_def)

end
