(* ===== verification/ObjRecords.thy ===== *)
theory ObjRecords
  imports ObjTree
begin

text \<open>
  The remaining object kinds of \<^verbatim>\<open>internal/object\<close>: \<^verbatim>\<open>provenance.go\<close>, \<^verbatim>\<open>note.go\<close>,
  \<^verbatim>\<open>attestation.go\<close>, \<^verbatim>\<open>principal.go\<close>, \<^verbatim>\<open>environment.go\<close>, \<^verbatim>\<open>hookconfig.go\<close> and
  \<^verbatim>\<open>artifactref.go\<close>, and the links of an object (\<^verbatim>\<open>links.go\<close>). A hash that may be nil is
  an option; the reader's \<^verbatim>\<open>append([]byte(nil), v...)\<close> turns an empty value into nil, so
  what a builder writes is read back in a canonical form, stated for each kind.
\<close>

definition canonical_hash :: "multihash option \<Rightarrow> multihash option" where
  "canonical_hash m = (if m = Some [] then None else m)"

lemma nil_if_empty_bytes_or_nil_canonical [simp]:
  "nil_if_empty (bytes_or_nil m) = canonical_hash m"
  by (cases m) (auto simp: canonical_hash_def nil_if_empty_def)

lemma opt_canonical [simp]:
  "(case m of None \<Rightarrow> None | Some v \<Rightarrow> nil_if_empty v) = canonical_hash m"
  by (cases m) (auto simp: canonical_hash_def nil_if_empty_def)

lemma hash_of_field_canonical: "hash_of_field o' t = canonical_hash (Field o' t)"
  by (simp add: hash_of_field_def)

lemma canonical_hash_idem [simp]: "canonical_hash (canonical_hash m) = canonical_hash m"
  by (simp add: canonical_hash_def)

lemma canonical_hash_ne [simp]: "canonical_hash m \<noteq> Some []"
  by (simp add: canonical_hash_def)

lemma str_of_field_Some: "Field o' t = (if s = [] then None else Some (bytes_of s)) \<Longrightarrow> str_of_field o' t = s"
  by (simp add: str_of_field_def split: if_splits)

section \<open>String lists\<close>

definition encodeStringList :: "string list \<Rightarrow> byte list" where
  "encodeStringList ss =
     foldl (\<lambda>b s. appendUvarint b (len64 s) @ bytes_of s) (appendUvarint [] (len64 ss)) ss"

definition string_body :: "string option \<Rightarrow> cursor \<Rightarrow> goerr + (string \<times> cursor)" where
  "string_body prev c =
     rbind (c_uvarint c) (\<lambda>(l, c).
     rbind (c_take l c) (\<lambda>(v, c).
     Inr (string_of v, c)))"

definition decodeStringList :: "byte list \<Rightarrow> goerr + string list" where
  "decodeStringList b =
     rbind (c_uvarint b) (\<lambda>(n, c).
     rbind (make_cap 16 n) (\<lambda>_.
     rbind (read_items string_body (unat n) None c) (\<lambda>(out, c).
     if \<not> c_empty c then Inl (Sentinel ErrMalformed ''trailing bytes in string list'')
     else Inr out)))"

lemma put_string: "appendUvarint b (len64 s) @ bytes_of s = put_bytes b (bytes_of s)"
  by (simp add: put_bytes_def)

lemma encodeStringList_eq:
  "encodeStringList ss = appendUvarint [] (len64 ss) @ concat (map (\<lambda>s. put_bytes [] (bytes_of s)) ss)"
proof -
  have "foldl (\<lambda>b s. appendUvarint b (len64 s) @ bytes_of s) b ss
      = b @ concat (map (\<lambda>s. put_bytes [] (bytes_of s)) ss)" for b
  proof (induction ss arbitrary: b)
    case Nil
    then show ?case by simp
  next
    case (Cons s ss)
    then show ?case using put_bytes_append [of b "bytes_of s"] by (simp add: put_string)
  qed
  then show ?thesis by (simp add: encodeStringList_def)
qed

lemma string_body_iff:
  "string_body prev c = Inr (s, r) \<longleftrightarrow> c = put_bytes [] (bytes_of s) @ r \<and> fits64 s"
  by (auto simp: string_body_def c_bytes_fold result_iffs cursor_iffs)

interpretation string_list: canonical_format
  "\<lambda>s. put_bytes [] (bytes_of s)" string_body "\<lambda>_. fits64"
  by unfold_locales (simp_all add: string_body_iff)

definition wf_strings :: "string list \<Rightarrow> bool" where
  "wf_strings ss \<longleftrightarrow> (\<forall>s \<in> set ss. fits64 s) \<and> length ss * 16 \<le> max_alloc"

lemma decodeStringList_iff: "decodeStringList b = Inr ss \<longleftrightarrow> b = encodeStringList ss \<and> wf_strings ss"
proof
  assume "decodeStringList b = Inr ss"
  then obtain n c where b: "b = appendUvarint [] n @ c" and n: "unat n * 16 \<le> max_alloc"
    and rd: "read_items string_body (unat n) None c = Inr (ss, [])"
    by (auto simp: decodeStringList_def result_iffs cursor_iffs)
  from string_list.items_canonical [OF rd] b n len64_unique [of ss n]
  show "b = encodeStringList ss \<and> wf_strings ss"
    by (simp add: encodeStringList_eq chained_all wf_strings_def)
next
  assume a: "b = encodeStringList ss \<and> wf_strings ss"
  then have "chained (\<lambda>_. fits64) None ss" and f: "fits64 ss"
    by (simp_all add: chained_all wf_strings_def fits64_def max_alloc_def)
  from string_list.items_enc [OF this(1), of "[]"] a f
  show "decodeStringList b = Inr ss"
    by (simp add: decodeStringList_def encodeStringList_eq make_cap_def wf_strings_def c_empty_def)
qed

section \<open>Provenance\<close>

record provenance =
  pv_authority :: string
  pv_model :: string
  pv_modelVersion :: string
  pv_sampling :: string
  pv_toolPermissions :: "string list"
  pv_toolHash :: "multihash option"
  pv_taskSpec :: string
  pv_contextRead :: string
  pv_reasoning :: string
  pv_environment :: "multihash option"
  pv_scope :: string

abbreviation tagProvAuthority :: u64 where "tagProvAuthority \<equiv> 1"
abbreviation tagProvModel :: u64 where "tagProvModel \<equiv> 2"
abbreviation tagProvModelVersion :: u64 where "tagProvModelVersion \<equiv> 3"
abbreviation tagProvSampling :: u64 where "tagProvSampling \<equiv> 4"
abbreviation tagProvToolPerms :: u64 where "tagProvToolPerms \<equiv> 5"
abbreviation tagProvToolHash :: u64 where "tagProvToolHash \<equiv> 6"
abbreviation tagProvTaskSpec :: u64 where "tagProvTaskSpec \<equiv> 7"
abbreviation tagProvContextRead :: u64 where "tagProvContextRead \<equiv> 8"
abbreviation tagProvReasoning :: u64 where "tagProvReasoning \<equiv> 9"
abbreviation tagProvEnvironment :: u64 where "tagProvEnvironment \<equiv> 10"
abbreviation tagProvScope :: u64 where "tagProvScope \<equiv> 11"

definition prov_fields :: "provenance \<Rightarrow> fields" where
  "prov_fields p =
     str_field tagProvAuthority (pv_authority p)
     @ str_field tagProvModel (pv_model p)
     @ str_field tagProvModelVersion (pv_modelVersion p)
     @ str_field tagProvSampling (pv_sampling p)
     @ (if length (pv_toolPermissions p) > 0
        then [(tagProvToolPerms, encodeStringList (pv_toolPermissions p))] else [])
     @ opt_field tagProvToolHash (pv_toolHash p)
     @ str_field tagProvTaskSpec (pv_taskSpec p)
     @ str_field tagProvContextRead (pv_contextRead p)
     @ str_field tagProvReasoning (pv_reasoning p)
     @ opt_field tagProvEnvironment (pv_environment p)
     @ str_field tagProvScope (pv_scope p)"

definition NewProvenance :: "provenance \<Rightarrow> goerr + obj" where
  "NewProvenance p = newObject TypeProvenance (prov_fields p)"

definition AsProvenance :: "obj \<Rightarrow> goerr + provenance" where
  "AsProvenance o' =
     (if otyp o' \<noteq> TypeProvenance then Inl (Plain ''object: not provenance'')
      else
        rbind (case Field o' tagProvToolPerms of None \<Rightarrow> Inr [] | Some v \<Rightarrow> decodeStringList v) (\<lambda>perms.
        Inr \<lparr>pv_authority = str_of_field o' tagProvAuthority,
             pv_model = str_of_field o' tagProvModel,
             pv_modelVersion = str_of_field o' tagProvModelVersion,
             pv_sampling = str_of_field o' tagProvSampling,
             pv_toolPermissions = perms,
             pv_toolHash = hash_of_field o' tagProvToolHash,
             pv_taskSpec = str_of_field o' tagProvTaskSpec,
             pv_contextRead = str_of_field o' tagProvContextRead,
             pv_reasoning = str_of_field o' tagProvReasoning,
             pv_environment = hash_of_field o' tagProvEnvironment,
             pv_scope = str_of_field o' tagProvScope\<rparr>))"

definition prov_obj :: "provenance \<Rightarrow> obj" where
  "prov_obj p = mkobj TypeProvenance (prov_fields p)"

definition canonical_prov :: "provenance \<Rightarrow> provenance" where
  "canonical_prov p = p\<lparr>pv_toolHash := canonical_hash (pv_toolHash p),
     pv_environment := canonical_hash (pv_environment p)\<rparr>"

lemma prov_fields_distinct [simp]: "distinct (map fst (prov_fields p))"
  by (simp add: prov_fields_def)

lemma NewProvenance_eq: "NewProvenance p = Inr (prov_obj p)"
  by (simp add: NewProvenance_def newObject_distinct prov_obj_def)

lemma Field_prov:
  "Field (prov_obj p) t =
    (if t = tagProvToolPerms \<and> pv_toolPermissions p \<noteq> [] then Some (encodeStringList (pv_toolPermissions p))
     else if t = tagProvToolHash then pv_toolHash p
     else if t = tagProvEnvironment then pv_environment p
     else map_of (str_field tagProvAuthority (pv_authority p) @ str_field tagProvModel (pv_model p)
       @ str_field tagProvModelVersion (pv_modelVersion p) @ str_field tagProvSampling (pv_sampling p)
       @ str_field tagProvTaskSpec (pv_taskSpec p) @ str_field tagProvContextRead (pv_contextRead p)
       @ str_field tagProvReasoning (pv_reasoning p) @ str_field tagProvScope (pv_scope p)) t)"
  unfolding prov_obj_def Field_mkobj [OF prov_fields_distinct]
  by (auto simp: prov_fields_def map_add_def split: option.splits)

lemma AsProvenance_prov:
  assumes "wf_strings (pv_toolPermissions p)"
  shows "AsProvenance (prov_obj p) = Inr (canonical_prov p)"
proof -
  have "decodeStringList (encodeStringList (pv_toolPermissions p)) = Inr (pv_toolPermissions p)"
    using assms by (simp add: decodeStringList_iff)
  moreover have "otyp (prov_obj p) = TypeProvenance" by (simp add: prov_obj_def)
  ultimately show ?thesis
    by (cases p) (auto simp: AsProvenance_def Field_prov str_of_field_def hash_of_field_def
        canonical_prov_def map_add_def)
qed

definition EnvironmentClass :: "provenance \<Rightarrow> multihash option" where
  "EnvironmentClass p = (case pv_environment p of None \<Rightarrow> None | Some e \<Rightarrow> Some e)"

text \<open>The pair is (same, comparable).\<close>

definition SameEnvironmentClass :: "provenance \<Rightarrow> provenance \<Rightarrow> bool \<times> bool" where
  "SameEnvironmentClass a b =
     (case (EnvironmentClass a, EnvironmentClass b) of
        (Some ca, Some cb) \<Rightarrow> (Equal ca cb, True)
      | _ \<Rightarrow> (False, False))"

section \<open>Notes\<close>

record note_rec =
  n_target :: "multihash option"
  n_namespace :: string
  n_payload :: "byte list"
  n_parent :: "multihash option"
  n_timestamp :: i64
  n_author :: string

abbreviation tagNoteTarget :: u64 where "tagNoteTarget \<equiv> 1"
abbreviation tagNoteNamespace :: u64 where "tagNoteNamespace \<equiv> 2"
abbreviation tagNotePayload :: u64 where "tagNotePayload \<equiv> 3"
abbreviation tagNoteParent :: u64 where "tagNoteParent \<equiv> 4"
abbreviation tagNoteTimestamp :: u64 where "tagNoteTimestamp \<equiv> 5"
abbreviation tagNoteAuthor :: u64 where "tagNoteAuthor \<equiv> 6"

definition note_fields :: "note_rec \<Rightarrow> fields" where
  "note_fields n =
     [(tagNoteTarget, bytes_or_nil (n_target n)),
      (tagNoteNamespace, bytes_of (n_namespace n)),
      (tagNotePayload, n_payload n),
      (tagNoteTimestamp, appendUvarint [] (n_timestamp n)),
      (tagNoteAuthor, bytes_of (n_author n))]
     @ opt_field tagNoteParent (n_parent n)"

definition NewNote :: "note_rec \<Rightarrow> goerr + obj" where
  "NewNote n = newObject TypeNote (note_fields n)"

definition AsNote :: "obj \<Rightarrow> goerr + note_rec" where
  "AsNote o' =
     (if otyp o' \<noteq> TypeNote then Inl (Plain ''object: not a note'')
      else
        rbind (case Field o' tagNoteTimestamp of None \<Rightarrow> Inr 0
               | Some v \<Rightarrow> readWhole (Sentinel ErrMalformed ''bad note timestamp'') v) (\<lambda>ts.
        Inr \<lparr>n_target = hash_of_field o' tagNoteTarget,
             n_namespace = str_of_field o' tagNoteNamespace,
             n_payload = bytes_or_nil (Field o' tagNotePayload),
             n_parent = hash_of_field o' tagNoteParent,
             n_timestamp = ts,
             n_author = str_of_field o' tagNoteAuthor\<rparr>))"

definition note_obj :: "note_rec \<Rightarrow> obj" where
  "note_obj n = mkobj TypeNote (note_fields n)"

definition canonical_note :: "note_rec \<Rightarrow> note_rec" where
  "canonical_note n = n\<lparr>n_target := canonical_hash (n_target n), n_parent := canonical_hash (n_parent n)\<rparr>"

lemma note_fields_distinct [simp]: "distinct (map fst (note_fields n))"
  by (simp add: note_fields_def)

lemma NewNote_eq: "NewNote n = Inr (note_obj n)"
  by (simp add: NewNote_def newObject_distinct note_obj_def)

lemma Field_note:
  "Field (note_obj n) t =
    (if t = tagNoteTarget then Some (bytes_or_nil (n_target n))
     else if t = tagNoteNamespace then Some (bytes_of (n_namespace n))
     else if t = tagNotePayload then Some (n_payload n)
     else if t = tagNoteTimestamp then Some (appendUvarint [] (n_timestamp n))
     else if t = tagNoteAuthor then Some (bytes_of (n_author n))
     else if t = tagNoteParent then n_parent n else None)"
  unfolding note_obj_def Field_mkobj [OF note_fields_distinct]
  by (auto simp: note_fields_def)

lemma otyp_note [simp]: "otyp (note_obj n) = TypeNote"
  by (simp add: note_obj_def)

lemma AsNote_note: "AsNote (note_obj n) = Inr (canonical_note n)"
  by (cases n) (simp add: AsNote_def Field_note str_of_field_def hash_of_field_def canonical_note_def)

section \<open>Principals and attestations\<close>

definition readUvarintField :: "obj \<Rightarrow> u64 \<Rightarrow> goerr + u64" where
  "readUvarintField o' tag =
     (case Field o' tag of
        None \<Rightarrow> Inl (Sentinel ErrMalformed ''missing field'')
      | Some v \<Rightarrow>
          rbind (readUvarint v) (\<lambda>(n, k).
          if k \<noteq> length v then Inl (Sentinel ErrMalformed ''trailing bytes in field'')
          else Inr n))"

lemma readUvarintField_iff:
  "readUvarintField o' tag = Inr n \<longleftrightarrow> Field o' tag = Some (appendUvarint [] n)"
proof -
  have "rbind (readUvarint v) (\<lambda>(n, k).
          if k \<noteq> length v then Inl (Sentinel ErrMalformed ''trailing bytes in field'') else Inr n) = Inr n
        \<longleftrightarrow> v = appendUvarint [] n" for v
    using readWhole_iff [of "Plain []" v n]
    by (auto simp: readWhole_def result_iffs split: sum.splits if_splits prod.splits)
  then show ?thesis by (auto simp: readUvarintField_def split: option.splits)
qed

abbreviation KindUnknown :: u64 where "KindUnknown \<equiv> 0"
abbreviation KindHuman :: u64 where "KindHuman \<equiv> 1"
abbreviation KindAgent :: u64 where "KindAgent \<equiv> 2"
abbreviation KindBridge :: u64 where "KindBridge \<equiv> 3"

record principal =
  p_key :: "byte list"
  p_name :: string
  p_kind :: u64

abbreviation tagPrincipalKey :: u64 where "tagPrincipalKey \<equiv> 1"
abbreviation tagPrincipalName :: u64 where "tagPrincipalName \<equiv> 2"
abbreviation tagPrincipalKind :: u64 where "tagPrincipalKind \<equiv> 3"

definition principal_fields :: "principal \<Rightarrow> fields" where
  "principal_fields p =
     [(tagPrincipalKey, p_key p), (tagPrincipalName, bytes_of (p_name p)),
      (tagPrincipalKind, appendUvarint [] (p_kind p))]"

definition NewPrincipal :: "principal \<Rightarrow> goerr + obj" where
  "NewPrincipal p = newObject TypePrincipal (principal_fields p)"

definition AsPrincipal :: "obj \<Rightarrow> goerr + principal" where
  "AsPrincipal o' =
     (if otyp o' \<noteq> TypePrincipal then Inl (Plain ''object: not a principal'')
      else
        rbind (map_err (\<lambda>_. Sentinel ErrMalformed ''bad principal kind'')
                 (readUvarintField o' tagPrincipalKind)) (\<lambda>k.
        Inr \<lparr>p_key = bytes_or_nil (Field o' tagPrincipalKey),
             p_name = str_of_field o' tagPrincipalName, p_kind = k\<rparr>))"

definition principal_obj :: "principal \<Rightarrow> obj" where
  "principal_obj p = mkobj TypePrincipal (principal_fields p)"

lemma principal_fields_distinct [simp]: "distinct (map fst (principal_fields p))"
  by (simp add: principal_fields_def)

lemma NewPrincipal_eq: "NewPrincipal p = Inr (principal_obj p)"
  by (simp add: NewPrincipal_def newObject_distinct principal_obj_def)

lemma AsPrincipal_principal: "AsPrincipal (principal_obj p) = Inr p"
proof -
  have f: "Field (principal_obj p) t = map_of (principal_fields p) t" for t
    by (simp add: principal_obj_def Field_mkobj)
  have "readUvarintField (principal_obj p) tagPrincipalKind = Inr (p_kind p)"
    unfolding readUvarintField_iff by (simp add: f principal_fields_def)
  then show ?thesis
    by (cases p) (simp add: AsPrincipal_def f [unfolded principal_obj_def] principal_fields_def
        str_of_field_def principal_obj_def Field_mkobj)
qed

abbreviation DecisionApprove :: u64 where "DecisionApprove \<equiv> 1"
abbreviation DecisionVeto :: u64 where "DecisionVeto \<equiv> 2"
abbreviation DecisionDelegate :: u64 where "DecisionDelegate \<equiv> 3"
abbreviation DecisionRequestChange :: u64 where "DecisionRequestChange \<equiv> 4"
abbreviation StrengthUnknown :: u64 where "StrengthUnknown \<equiv> 0"
abbreviation StrengthWeak :: u64 where "StrengthWeak \<equiv> 1"
abbreviation StrengthDelegated :: u64 where "StrengthDelegated \<equiv> 2"
abbreviation StrengthStrong :: u64 where "StrengthStrong \<equiv> 3"

definition Satisfies :: "u64 \<Rightarrow> u64 \<Rightarrow> bool" where
  "Satisfies s required =
     (if s = StrengthUnknown \<or> required = StrengthUnknown then False else s \<ge> required)"

record attestation =
  a_target :: "multihash option"
  a_decision :: u64
  a_strength :: u64
  a_timestamp :: i64
  a_rationale :: string
  a_policy :: "multihash option"

abbreviation tagAttestTarget :: u64 where "tagAttestTarget \<equiv> 1"
abbreviation tagAttestDecision :: u64 where "tagAttestDecision \<equiv> 2"
abbreviation tagAttestStrength :: u64 where "tagAttestStrength \<equiv> 3"
abbreviation tagAttestTimestamp :: u64 where "tagAttestTimestamp \<equiv> 4"
abbreviation tagAttestRationale :: u64 where "tagAttestRationale \<equiv> 5"
abbreviation tagAttestPolicy :: u64 where "tagAttestPolicy \<equiv> 6"

definition attest_fields :: "attestation \<Rightarrow> fields" where
  "attest_fields a =
     [(tagAttestTarget, bytes_or_nil (a_target a)),
      (tagAttestDecision, appendUvarint [] (a_decision a)),
      (tagAttestStrength, appendUvarint [] (a_strength a)),
      (tagAttestTimestamp, appendUvarint [] (a_timestamp a))]
     @ str_field tagAttestRationale (a_rationale a)
     @ opt_field tagAttestPolicy (a_policy a)"

definition NewAttestation :: "attestation \<Rightarrow> goerr + obj" where
  "NewAttestation a = newObject TypeAttestation (attest_fields a)"

definition AsAttestation :: "obj \<Rightarrow> goerr + attestation" where
  "AsAttestation o' =
     (if otyp o' \<noteq> TypeAttestation then Inl (Plain ''object: not an attestation'')
      else
        rbind (map_err (\<lambda>_. Sentinel ErrMalformed ''bad attestation decision'')
                 (readUvarintField o' tagAttestDecision)) (\<lambda>dec.
        rbind (map_err (\<lambda>_. Sentinel ErrMalformed ''bad attestation strength'')
                 (readUvarintField o' tagAttestStrength)) (\<lambda>str.
        rbind (map_err (\<lambda>_. Sentinel ErrMalformed ''bad attestation timestamp'')
                 (readUvarintField o' tagAttestTimestamp)) (\<lambda>ts.
        Inr \<lparr>a_target = hash_of_field o' tagAttestTarget,
             a_decision = dec, a_strength = str, a_timestamp = ts,
             a_rationale = str_of_field o' tagAttestRationale,
             a_policy = hash_of_field o' tagAttestPolicy\<rparr>))))"

definition attest_obj :: "attestation \<Rightarrow> obj" where
  "attest_obj a = mkobj TypeAttestation (attest_fields a)"

definition canonical_attest :: "attestation \<Rightarrow> attestation" where
  "canonical_attest a = a\<lparr>a_target := canonical_hash (a_target a), a_policy := canonical_hash (a_policy a)\<rparr>"

lemma attest_fields_distinct [simp]: "distinct (map fst (attest_fields a))"
  by (simp add: attest_fields_def)

lemma NewAttestation_eq: "NewAttestation a = Inr (attest_obj a)"
  by (simp add: NewAttestation_def newObject_distinct attest_obj_def)

lemma otyp_attest [simp]: "otyp (attest_obj a) = TypeAttestation"
  by (simp add: attest_obj_def)

lemma Field_attest:
  "Field (attest_obj a) t =
    (if t = tagAttestTarget then Some (bytes_or_nil (a_target a))
     else if t = tagAttestDecision then Some (appendUvarint [] (a_decision a))
     else if t = tagAttestStrength then Some (appendUvarint [] (a_strength a))
     else if t = tagAttestTimestamp then Some (appendUvarint [] (a_timestamp a))
     else if t = tagAttestRationale \<and> a_rationale a \<noteq> [] then Some (bytes_of (a_rationale a))
     else if t = tagAttestPolicy then a_policy a else None)"
  unfolding attest_obj_def Field_mkobj [OF attest_fields_distinct]
  by (auto simp: attest_fields_def map_add_def split: option.splits)

text \<open>A signature does not disturb the typed view.\<close>

lemma AsAttestation_cong:
  assumes "otyp o' = TypeAttestation" "\<And>t. t \<noteq> tagChangeSignature \<Longrightarrow> Field o' t = Field (attest_obj a) t"
  shows "AsAttestation o' = Inr (canonical_attest a)"
proof -
  have f: "Field o' t = Field (attest_obj a) t" if "t \<in> {1, 2, 3, 4, 5, 6}" for t
    using that by (intro assms(2)) (auto simp: tagChangeSignature_def)
  have "readUvarintField o' tagAttestDecision = Inr (a_decision a)"
    "readUvarintField o' tagAttestStrength = Inr (a_strength a)"
    "readUvarintField o' tagAttestTimestamp = Inr (a_timestamp a)"
    unfolding readUvarintField_iff by (simp_all add: f Field_attest)
  then show ?thesis using assms(1)
    by (cases a) (simp add: AsAttestation_def f Field_attest str_of_field_def hash_of_field_def canonical_attest_def)
qed

lemma AsAttestation_attest: "AsAttestation (attest_obj a) = Inr (canonical_attest a)"
  by (rule AsAttestation_cong) simp_all

lemma AsAttestation_fields:
  "AsAttestation o' = Inr a \<Longrightarrow>
     otyp o' = TypeAttestation \<and> Field o' tagAttestDecision = Some (appendUvarint [] (a_decision a)) \<and>
     Field o' tagAttestStrength = Some (appendUvarint [] (a_strength a)) \<and>
     a_target a = hash_of_field o' tagAttestTarget"
  by (auto simp: AsAttestation_def result_iffs readUvarintField_iff split: if_splits)

section \<open>Environments\<close>

text \<open>
  A Go map is an association list with distinct keys, in the order some iteration visits
  it; the map itself is its \<^const>\<open>map_of\<close>.
\<close>

type_synonym gomap = "(string \<times> string) list"

definition gomap_ok :: "gomap \<Rightarrow> bool" where
  "gomap_ok m \<longleftrightarrow> distinct (map fst m) \<and> fits64 m \<and> (\<forall>(k, v) \<in> set m. fits64 k \<and> fits64 v)"

record envmodel =
  em_id :: string
  em_version :: string
  em_params :: string

record environment =
  en_platform :: string
  en_toolchains :: gomap
  en_flags :: gomap
  en_container :: "multihash option"
  en_model :: "envmodel option"

abbreviation tagEnvPlatform :: u64 where "tagEnvPlatform \<equiv> 1"
abbreviation tagEnvToolchains :: u64 where "tagEnvToolchains \<equiv> 2"
abbreviation tagEnvFlags :: u64 where "tagEnvFlags \<equiv> 3"
abbreviation tagEnvContainer :: u64 where "tagEnvContainer \<equiv> 4"
abbreviation tagEnvModelID :: u64 where "tagEnvModelID \<equiv> 5"
abbreviation tagEnvModelVersion :: u64 where "tagEnvModelVersion \<equiv> 6"
abbreviation tagEnvModelParams :: u64 where "tagEnvModelParams \<equiv> 7"

definition put_pair :: "byte list \<Rightarrow> byte list \<times> byte list \<Rightarrow> byte list" where
  "put_pair b kv = appendUvarint (appendUvarint b (len64 (fst kv)) @ fst kv) (len64 (snd kv)) @ snd kv"

definition encodeStringMap :: "gomap \<Rightarrow> byte list" where
  "encodeStringMap m =
     (let keys = sort (map fst m)
      in foldl (\<lambda>b k. put_pair b (bytes_of k, bytes_of (the (map_of m k))))
           (appendUvarint [] (len64 keys)) keys)"

definition map_body :: "(string \<times> string) option \<Rightarrow> cursor \<Rightarrow> goerr + ((string \<times> string) \<times> cursor)" where
  "map_body prev c =
     rbind (c_uvarint c) (\<lambda>(kl, c).
     rbind (c_take kl c) (\<lambda>(kb, c).
     rbind (c_uvarint c) (\<lambda>(vl, c).
     rbind (c_take vl c) (\<lambda>(vb, c).
     let k = string_of kb in
     if (case prev of None \<Rightarrow> False | Some (p, _) \<Rightarrow> k \<le> p)
     then Inl (Sentinel ErrMalformed ''environment map keys not sorted/unique'')
     else Inr ((k, string_of vb), c)))))"

definition decodeStringMap :: "byte list \<Rightarrow> goerr + gomap" where
  "decodeStringMap b =
     rbind (c_uvarint b) (\<lambda>(n, c).
     rbind (read_items map_body (unat n) None c) (\<lambda>(out, c).
     if \<not> c_empty c then Inl (Sentinel ErrMalformed ''trailing bytes in environment map'')
     else Inr out))"

definition model_fields :: "envmodel \<Rightarrow> fields" where
  "model_fields m =
     str_field tagEnvModelID (em_id m) @ str_field tagEnvModelVersion (em_version m)
       @ str_field tagEnvModelParams (em_params m)"

definition environment_fields :: "environment \<Rightarrow> fields" where
  "environment_fields e =
     str_field tagEnvPlatform (en_platform e)
     @ (if length (en_toolchains e) > 0 then [(tagEnvToolchains, encodeStringMap (en_toolchains e))] else [])
     @ (if length (en_flags e) > 0 then [(tagEnvFlags, encodeStringMap (en_flags e))] else [])
     @ opt_field tagEnvContainer (en_container e)
     @ (case en_model e of None \<Rightarrow> [] | Some m \<Rightarrow> model_fields m)"

definition NewEnvironment :: "environment \<Rightarrow> goerr + obj" where
  "NewEnvironment e = newObject TypeEnvironment (environment_fields e)"

definition AsEnvironment :: "obj \<Rightarrow> goerr + environment" where
  "AsEnvironment o' =
     (if otyp o' \<noteq> TypeEnvironment then Inl (Plain ''object: not an environment'')
      else
        rbind (case Field o' tagEnvToolchains of None \<Rightarrow> Inr [] | Some v \<Rightarrow> decodeStringMap v) (\<lambda>tools.
        rbind (case Field o' tagEnvFlags of None \<Rightarrow> Inr [] | Some v \<Rightarrow> decodeStringMap v) (\<lambda>flags.
        let m = \<lparr>em_id = str_of_field o' tagEnvModelID, em_version = str_of_field o' tagEnvModelVersion,
                 em_params = str_of_field o' tagEnvModelParams\<rparr>
        in Inr \<lparr>en_platform = str_of_field o' tagEnvPlatform,
                en_toolchains = tools, en_flags = flags,
                en_container = hash_of_field o' tagEnvContainer,
                en_model = (if m \<noteq> \<lparr>em_id = [], em_version = [], em_params = []\<rparr> then Some m else None)\<rparr>)))"

subsection \<open>The pair format\<close>

definition enc_pair :: "byte list \<times> byte list \<Rightarrow> byte list" where
  "enc_pair kv = put_bytes [] (fst kv) @ put_bytes [] (snd kv)"

lemma put_pair_append: "put_pair b kv = b @ enc_pair kv"
proof -
  have "put_pair b kv = put_bytes (put_bytes b (fst kv)) (snd kv)"
    by (simp add: put_pair_def put_bytes_def)
  then show ?thesis
    using put_bytes_append [of b "fst kv"] put_bytes_append [of "b @ put_bytes [] (fst kv)" "snd kv"]
    by (simp add: enc_pair_def)
qed

lemma foldl_put_pair: "foldl (\<lambda>b x. put_pair b (f x)) b xs = b @ concat (map (\<lambda>x. enc_pair (f x)) xs)"
  by (induction xs arbitrary: b) (simp_all add: put_pair_append)

definition enc_str_pair :: "string \<times> string \<Rightarrow> byte list" where
  "enc_str_pair kv = enc_pair (bytes_of (fst kv), bytes_of (snd kv))"

definition str_pair_ok :: "(string \<times> string) option \<Rightarrow> string \<times> string \<Rightarrow> bool" where
  "str_pair_ok prev kv \<longleftrightarrow> key_after fst prev kv \<and> fits64 (fst kv) \<and> fits64 (snd kv)"

lemma map_body_eq:
  "map_body prev c =
     rbind (c_bytes c) (\<lambda>(kb, c).
     rbind (c_bytes c) (\<lambda>(vb, c).
     if \<not> key_after fst prev (string_of kb, string_of vb)
     then Inl (Sentinel ErrMalformed ''environment map keys not sorted/unique'')
     else Inr ((string_of kb, string_of vb), c)))"
  by (cases prev) (simp_all add: map_body_def c_bytes_fold Let_def not_less case_prod_beta)

lemma map_body_iff:
  "map_body prev c = Inr (kv, r) \<longleftrightarrow> c = enc_str_pair kv @ r \<and> str_pair_ok prev kv"
proof
  assume "map_body prev c = Inr (kv, r)"
  then show "c = enc_str_pair kv @ r \<and> str_pair_ok prev kv"
    by (auto simp: map_body_eq result_iffs cursor_iffs enc_str_pair_def enc_pair_def str_pair_ok_def)
next
  assume "c = enc_str_pair kv @ r \<and> str_pair_ok prev kv"
  then show "map_body prev c = Inr (kv, r)"
    by (cases kv) (simp add: map_body_eq enc_str_pair_def enc_pair_def str_pair_ok_def)
qed

interpretation string_map: canonical_format enc_str_pair map_body str_pair_ok
  by unfold_locales (simp_all add: map_body_iff)

lemma chained_str_pair_ok:
  "chained str_pair_ok None m \<longleftrightarrow>
     sorted_wrt (<) (map fst m) \<and> (\<forall>kv \<in> set m. fits64 (fst kv) \<and> fits64 (snd kv))"
  using chained_sorted [where key = fst and P = "\<lambda>kv. fits64 (fst kv) \<and> fits64 (snd kv)"
      and prev = None and xs = m]
  by (simp add: str_pair_ok_def [abs_def])

definition canonical_map :: "gomap \<Rightarrow> gomap" where
  "canonical_map m = map (\<lambda>k. (k, the (map_of m k))) (sort (map fst m))"

lemma encodeStringMap_eq:
  "encodeStringMap m = appendUvarint [] (len64 m) @ concat (map enc_str_pair (canonical_map m))"
  by (simp add: encodeStringMap_def foldl_put_pair canonical_map_def enc_str_pair_def comp_def len64_def)

lemma canonical_map_sorted: "distinct (map fst m) \<Longrightarrow> sorted_wrt (<) (map fst (canonical_map m))"
  by (simp add: canonical_map_def comp_def strict_sorted_iff)

lemma map_of_canonical_map: "map_of (canonical_map m) = map_of m"
proof
  fix k
  show "map_of (canonical_map m) k = map_of m k"
    using map_of_eq_None_iff [of m k]
    by (cases "map_of m k") (auto simp: canonical_map_def map_of_map_restrict restrict_map_def)
qed

lemma length_canonical_map [simp]: "length (canonical_map m) = length m"
  by (simp add: canonical_map_def)

text \<open>The order in which a Go map is iterated leaves no trace.\<close>

lemma canonical_map_cong:
  assumes "distinct (map fst m)" "distinct (map fst m')" "map_of m = map_of m'"
  shows "canonical_map m = canonical_map m'"
proof -
  have "fst ` set m = fst ` set m'"
    by (metis assms(3) dom_map_of_conv_image_fst)
  then have "sort (map fst m) = sort (map fst m')"
    using assms(1,2) by (intro strict_sorted_unique) (simp_all add: strict_sorted_iff)
  with assms(3) show ?thesis by (simp add: canonical_map_def)
qed

lemma set_canonical_map: "distinct (map fst m) \<Longrightarrow> set (canonical_map m) = set m"
  by (simp add: canonical_map_def image_comp comp_def) (force simp: image_iff)

lemma decodeStringMap_encode:
  assumes "gomap_ok m"
  shows "decodeStringMap (encodeStringMap m) = Inr (canonical_map m)"
proof -
  have d: "distinct (map fst m)" and f: "fits64 m" using assms by (simp_all add: gomap_ok_def)
  have "\<forall>kv \<in> set (canonical_map m). fits64 (fst kv) \<and> fits64 (snd kv)"
    using assms set_canonical_map [OF d] by (auto simp: gomap_ok_def)
  then have "chained str_pair_ok None (canonical_map m)"
    by (simp add: chained_str_pair_ok canonical_map_sorted [OF d])
  from string_map.items_enc [OF this, of "[]"] f show ?thesis
    by (simp add: decodeStringMap_def encodeStringMap_eq c_empty_def)
qed

lemma decodeStringMap_sorted: "decodeStringMap b = Inr m \<Longrightarrow> sorted_wrt (<) (map fst m)"
  by (auto simp: decodeStringMap_def result_iffs chained_str_pair_ok dest!: string_map.items_ok)

subsection \<open>Environment objects\<close>

definition environment_obj :: "environment \<Rightarrow> obj" where
  "environment_obj e = mkobj TypeEnvironment (environment_fields e)"

definition canonical_env :: "environment \<Rightarrow> environment" where
  "canonical_env e = e\<lparr>en_toolchains := canonical_map (en_toolchains e),
     en_flags := canonical_map (en_flags e), en_container := canonical_hash (en_container e),
     en_model := (if en_model e = Some \<lparr>em_id = [], em_version = [], em_params = []\<rparr> then None else en_model e)\<rparr>"

lemma model_fields_simps [simp]:
  "distinct (map fst (model_fields m))"
  "fst ` set (model_fields m) = (if em_id m = [] then {} else {tagEnvModelID})
     \<union> (if em_version m = [] then {} else {tagEnvModelVersion})
     \<union> (if em_params m = [] then {} else {tagEnvModelParams})"
  "map_of (model_fields m) t =
     (if t = tagEnvModelID \<and> em_id m \<noteq> [] then Some (bytes_of (em_id m))
      else if t = tagEnvModelVersion \<and> em_version m \<noteq> [] then Some (bytes_of (em_version m))
      else if t = tagEnvModelParams \<and> em_params m \<noteq> [] then Some (bytes_of (em_params m)) else None)"
  by (auto simp: model_fields_def image_Un map_add_def split: option.splits)

lemma environment_fields_distinct [simp]: "distinct (map fst (environment_fields e))"
  by (simp add: environment_fields_def split: option.split)

lemma NewEnvironment_eq: "NewEnvironment e = Inr (environment_obj e)"
  by (simp add: NewEnvironment_def newObject_distinct environment_obj_def)

lemma Field_environment:
  "Field (environment_obj e) t =
    (if t = tagEnvPlatform \<and> en_platform e \<noteq> [] then Some (bytes_of (en_platform e))
     else if t = tagEnvToolchains \<and> en_toolchains e \<noteq> [] then Some (encodeStringMap (en_toolchains e))
     else if t = tagEnvFlags \<and> en_flags e \<noteq> [] then Some (encodeStringMap (en_flags e))
     else if t = tagEnvContainer then en_container e
     else case en_model e of None \<Rightarrow> None | Some m \<Rightarrow> map_of (model_fields m) t)"
  unfolding environment_obj_def Field_mkobj [OF environment_fields_distinct]
  by (auto simp: environment_fields_def map_add_def split: option.splits)

lemma canonical_map_Nil [simp]: "canonical_map [] = []"
  by (simp add: canonical_map_def)

lemma AsEnvironment_environment:
  assumes "gomap_ok (en_toolchains e)" "gomap_ok (en_flags e)"
  shows "AsEnvironment (environment_obj e) = Inr (canonical_env e)"
proof -
  have t: "otyp (environment_obj e) = TypeEnvironment" by (simp add: environment_obj_def)
  obtain pl tc fl co mo where e: "e = \<lparr>en_platform = pl, en_toolchains = tc, en_flags = fl,
      en_container = co, en_model = mo\<rparr>" by (cases e) auto
  show ?thesis
  proof (cases mo)
    case None
    with e t assms show ?thesis
      by (auto simp: AsEnvironment_def Field_environment str_of_field_def hash_of_field_def
          canonical_env_def decodeStringMap_encode Let_def)
  next
    case (Some m)
    obtain i v pa where "m = \<lparr>em_id = i, em_version = v, em_params = pa\<rparr>" by (cases m) auto
    with Some e t assms show ?thesis
      by (auto simp: AsEnvironment_def Field_environment str_of_field_def hash_of_field_def
          canonical_env_def decodeStringMap_encode Let_def map_add_def)
  qed
qed

section \<open>Hook manifests\<close>

record hook_entry =
  h_event :: string
  h_module :: multihash

definition put_hook :: "byte list \<Rightarrow> hook_entry \<Rightarrow> byte list" where
  "put_hook val e =
     appendUvarint (appendUvarint val (len64 (h_event e)) @ bytes_of (h_event e)) (len64 (h_module e))
       @ h_module e"

definition NewHookConfig :: "hook_entry list \<Rightarrow> goerr + obj" where
  "NewHookConfig entries =
     newObject TypeHookConfig [(1, foldl put_hook (appendUvarint [] (len64 entries)) entries)]"

definition hook_body :: "hook_entry option \<Rightarrow> cursor \<Rightarrow> goerr + (hook_entry \<times> cursor)" where
  "hook_body prev c =
     rbind (c_uvarint c) (\<lambda>(el, c).
     rbind (c_take el c) (\<lambda>(event, c).
     rbind (c_uvarint c) (\<lambda>(ml, c).
     rbind (c_take ml c) (\<lambda>(mod', c).
     Inr (\<lparr>h_event = string_of event, h_module = mod'\<rparr>, c)))))"

definition AsHookConfig :: "obj \<Rightarrow> goerr + hook_entry list" where
  "AsHookConfig o' =
     (if otyp o' \<noteq> TypeHookConfig then Inl (Plain ''object: not a hook config'')
      else case Field o' 1 of
        None \<Rightarrow> Inr []
      | Some val \<Rightarrow>
          rbind (c_uvarint val) (\<lambda>(n, c).
          rbind (read_items hook_body (unat n) None c) (\<lambda>(entries, c).
          if \<not> c_empty c then Inl (Sentinel ErrMalformed ''trailing bytes in hook config'')
          else Inr entries)))"

definition enc_hook :: "hook_entry \<Rightarrow> byte list" where
  "enc_hook e = enc_pair (bytes_of (h_event e), h_module e)"

definition wf_hook :: "hook_entry \<Rightarrow> bool" where
  "wf_hook e \<longleftrightarrow> fits64 (h_event e) \<and> fits64 (h_module e)"

lemma hook_body_iff: "hook_body prev c = Inr (e, r) \<longleftrightarrow> c = enc_hook e @ r \<and> wf_hook e"
proof -
  have "hook_body prev c = rbind (c_bytes c) (\<lambda>(event, c). rbind (c_bytes c) (\<lambda>(mod', c).
      Inr (\<lparr>h_event = string_of event, h_module = mod'\<rparr>, c)))"
    by (simp add: hook_body_def c_bytes_fold)
  then show ?thesis
    by (cases e) (auto simp: result_iffs cursor_iffs enc_hook_def enc_pair_def wf_hook_def)
qed

interpretation hook_entries: canonical_format enc_hook hook_body "\<lambda>_. wf_hook"
  by unfold_locales (simp_all add: hook_body_iff)

lemma put_hook_append: "put_hook val e = val @ enc_hook e"
  using put_pair_append [of val "(bytes_of (h_event e), h_module e)"]
  by (simp add: put_hook_def put_pair_def enc_hook_def)

lemma foldl_put_hook: "foldl put_hook val es = val @ concat (map enc_hook es)"
  by (induction es arbitrary: val) (simp_all add: put_hook_append)

lemma AsHookConfig_NewHookConfig:
  assumes "fits64 es" "\<forall>e \<in> set es. wf_hook e"
  shows "rbind (NewHookConfig es) AsHookConfig = Inr es"
proof -
  have "chained (\<lambda>_. wf_hook) None es" using assms(2) by (simp add: chained_all)
  from hook_entries.items_enc [OF this, of "[]"] assms(1) show ?thesis
    by (simp add: NewHookConfig_def AsHookConfig_def newObject_distinct Field_mkobj foldl_put_hook c_empty_def)
qed

section \<open>Artifact references\<close>

record artifactref =
  ar_contentHash :: "multihash option"
  ar_mediaType :: string
  ar_size :: u64
  ar_locators :: "string list"
  ar_producedBy :: "multihash option"

abbreviation tagArtifactContentHash :: u64 where "tagArtifactContentHash \<equiv> 1"
abbreviation tagArtifactMediaType :: u64 where "tagArtifactMediaType \<equiv> 2"
abbreviation tagArtifactSize :: u64 where "tagArtifactSize \<equiv> 3"
abbreviation tagArtifactLocators :: u64 where "tagArtifactLocators \<equiv> 4"
abbreviation tagArtifactProducedBy :: u64 where "tagArtifactProducedBy \<equiv> 5"

definition dedupeStrings :: "string list \<Rightarrow> string list" where
  "dedupeStrings ss = (if length ss < 2 then ss else remdups_adj ss)"

definition artifact_fields :: "artifactref \<Rightarrow> fields" where
  "artifact_fields a =
     (let locs = dedupeStrings (sort (ar_locators a)) in
      [(tagArtifactContentHash, bytes_or_nil (ar_contentHash a))]
      @ str_field tagArtifactMediaType (ar_mediaType a)
      @ (if ar_size a \<noteq> 0 then [(tagArtifactSize, appendUvarint [] (ar_size a))] else [])
      @ (if length locs > 0 then [(tagArtifactLocators, encodeStringList locs)] else [])
      @ opt_field tagArtifactProducedBy (ar_producedBy a))"

definition NewArtifactRef :: "artifactref \<Rightarrow> goerr + obj" where
  "NewArtifactRef a = newObject TypeArtifactRef (artifact_fields a)"

definition AsArtifactRef :: "obj \<Rightarrow> goerr + artifactref" where
  "AsArtifactRef o' =
     (if otyp o' \<noteq> TypeArtifactRef then Inl (Plain ''object: not an artifact-ref'')
      else
        rbind (case Field o' tagArtifactSize of None \<Rightarrow> Inr 0
               | Some v \<Rightarrow> readWhole (Sentinel ErrMalformed ''bad artifact-ref size'') v) (\<lambda>n.
        rbind (case Field o' tagArtifactLocators of None \<Rightarrow> Inr [] | Some v \<Rightarrow> decodeStringList v) (\<lambda>locs.
        Inr \<lparr>ar_contentHash = hash_of_field o' tagArtifactContentHash,
             ar_mediaType = str_of_field o' tagArtifactMediaType,
             ar_size = n, ar_locators = locs,
             ar_producedBy = hash_of_field o' tagArtifactProducedBy\<rparr>)))"

definition artifact_obj :: "artifactref \<Rightarrow> obj" where
  "artifact_obj a = mkobj TypeArtifactRef (artifact_fields a)"

definition canonical_artifact :: "artifactref \<Rightarrow> artifactref" where
  "canonical_artifact a = a\<lparr>ar_contentHash := canonical_hash (ar_contentHash a),
     ar_locators := remdups_adj (sort (ar_locators a)), ar_producedBy := canonical_hash (ar_producedBy a)\<rparr>"

lemma dedupeStrings_eq [simp]: "dedupeStrings ss = remdups_adj ss"
  by (cases ss rule: remdups_adj.cases) (auto simp: dedupeStrings_def)

lemma sort_eq_Nil [simp]: "sort xs = [] \<longleftrightarrow> xs = []"
  by (metis set_empty set_sort)

lemma artifact_fields_distinct [simp]: "distinct (map fst (artifact_fields a))"
  by (simp add: artifact_fields_def Let_def)

lemma NewArtifactRef_eq: "NewArtifactRef a = Inr (artifact_obj a)"
  by (simp add: NewArtifactRef_def newObject_distinct artifact_obj_def)

lemma Field_artifact:
  "Field (artifact_obj a) t =
    (if t = tagArtifactContentHash then Some (bytes_or_nil (ar_contentHash a))
     else if t = tagArtifactMediaType \<and> ar_mediaType a \<noteq> [] then Some (bytes_of (ar_mediaType a))
     else if t = tagArtifactSize \<and> ar_size a \<noteq> 0 then Some (appendUvarint [] (ar_size a))
     else if t = tagArtifactLocators \<and> ar_locators a \<noteq> []
       then Some (encodeStringList (remdups_adj (sort (ar_locators a))))
     else if t = tagArtifactProducedBy then ar_producedBy a else None)"
  unfolding artifact_obj_def Field_mkobj [OF artifact_fields_distinct]
  by (auto simp: artifact_fields_def Let_def map_add_def split: option.splits)

lemma AsArtifactRef_artifact:
  assumes "wf_strings (ar_locators a)"
  shows "AsArtifactRef (artifact_obj a) = Inr (canonical_artifact a)"
proof -
  have "length (remdups_adj (sort (ar_locators a))) \<le> length (ar_locators a)"
    using remdups_adj_length [of "sort (ar_locators a)"] by simp
  then have "wf_strings (remdups_adj (sort (ar_locators a)))"
    using assms by (auto simp: wf_strings_def)
  then have "decodeStringList (encodeStringList (remdups_adj (sort (ar_locators a))))
      = Inr (remdups_adj (sort (ar_locators a)))" by (simp add: decodeStringList_iff)
  moreover have "otyp (artifact_obj a) = TypeArtifactRef" by (simp add: artifact_obj_def)
  ultimately show ?thesis
    by (cases a) (auto simp: AsArtifactRef_def Field_artifact str_of_field_def hash_of_field_def canonical_artifact_def)
qed

section \<open>Links\<close>

definition opt_list :: "'a option \<Rightarrow> 'a list" where
  "opt_list m = (case m of None \<Rightarrow> [] | Some x \<Rightarrow> [x])"

lemma opt_list_simps [simp]: "opt_list None = []" "opt_list (Some x) = [x]"
  "set (opt_list m) = set_option m"
  by (auto simp: opt_list_def split: option.splits)

definition Links :: "obj \<Rightarrow> goerr + multihash list" where
  "Links o' =
     (if otyp o' = TypeBlob then Inr []
      else if otyp o' = TypeTree then
        rbind (TreeEntries o') (\<lambda>entries. Inr (map eid entries))
      else if otyp o' = TypeChange then
        rbind (AsChange o') (\<lambda>c.
        Inr (opt_list (c_tree c) @ c_parents c @ opt_list (c_provenance c) @ c_artifacts c
               @ opt_list (c_fulfills c)))
      else if otyp o' = TypeProvenance then Inr []
      else if otyp o' = TypeNote then
        rbind (AsNote o') (\<lambda>n. Inr (opt_list (n_target n) @ opt_list (n_parent n)))
      else if otyp o' = TypeHookConfig then
        rbind (AsHookConfig o') (\<lambda>es. Inr (map h_module es))
      else if otyp o' = TypeAttestation then
        rbind (AsAttestation o') (\<lambda>a. Inr (opt_list (a_target a) @ opt_list (a_policy a)))
      else if otyp o' = TypePrincipal then Inr []
      else if otyp o' = TypeArtifactRef then
        rbind (AsArtifactRef o') (\<lambda>a. Inr (opt_list (ar_producedBy a)))
      else if otyp o' = TypeEnvironment then
        rbind (AsEnvironment o') (\<lambda>e. Inr (opt_list (en_container e)))
      else Inr [])"

lemma Links_tree: "wf_entries es \<Longrightarrow> Links (tree_obj es) = Inr (map eid es)"
  by (simp add: Links_def TreeEntries_tree type_defs)

lemma Links_blob [simp]: "Links (blob_obj content) = Inr []"
  by (simp add: Links_def)

lemma Links_change:
  "wf_change c \<Longrightarrow> Links (change_obj c) = Inr (opt_list (c_tree c) @ sortedUniqueHashes (c_parents c)
     @ opt_list (canonical_hash (c_provenance c)) @ sortedUniqueHashes (c_artifacts c)
     @ opt_list (canonical_hash (c_fulfills c)))"
  by (simp add: Links_def AsChange_change type_defs canonical_change_def canonical_hash_def)

section \<open>Properties\<close>

text \<open>Every typed record survives being stored: provenance, notes, attestations,
  principals, environments and artifact references are read back as they were built, up
  to the canonical form each builder documents (an empty optional hash is absent, maps
  are in key order, locators are sorted and free of duplicates).\<close>

theorem typed_records_roundtrip:
  assumes "wf_strings (pv_toolPermissions p)" and "wf_strings (ar_locators r)"
    and "gomap_ok (en_toolchains e)" and "gomap_ok (en_flags e)"
  shows "rbind (NewProvenance p) AsProvenance = Inr (canonical_prov p) \<and>
     rbind (NewNote n) AsNote = Inr (canonical_note n) \<and>
     rbind (NewAttestation a) AsAttestation = Inr (canonical_attest a) \<and>
     rbind (NewPrincipal k) AsPrincipal = Inr k \<and>
     rbind (NewEnvironment e) AsEnvironment = Inr (canonical_env e) \<and>
     rbind (NewArtifactRef r) AsArtifactRef = Inr (canonical_artifact r)"
  using assms
  by (simp add: NewProvenance_eq NewNote_eq NewAttestation_eq NewPrincipal_eq NewEnvironment_eq
      NewArtifactRef_eq AsProvenance_prov AsNote_note AsAttestation_attest AsPrincipal_principal
      AsEnvironment_environment AsArtifactRef_artifact)

theorem typed_records_roundtrip_witness:
  "let p = \<lparr>pv_authority = ''a'', pv_model = [], pv_modelVersion = [], pv_sampling = [],
         pv_toolPermissions = [''x'', ''y''], pv_toolHash = Some [], pv_taskSpec = [], pv_contextRead = [],
         pv_reasoning = [], pv_environment = Some [1], pv_scope = []\<rparr>
   in rbind (NewProvenance p) AsProvenance = Inr (p\<lparr>pv_toolHash := None\<rparr>)"
proof -
  let ?p = "\<lparr>pv_authority = ''a'', pv_model = [], pv_modelVersion = [], pv_sampling = [],
         pv_toolPermissions = [''x'', ''y''], pv_toolHash = Some [], pv_taskSpec = [], pv_contextRead = [],
         pv_reasoning = [], pv_environment = Some [1], pv_scope = []\<rparr>"
  let ?r = "\<lparr>ar_contentHash = None, ar_mediaType = [], ar_size = 0, ar_locators = [], ar_producedBy = None\<rparr>"
  let ?e = "\<lparr>en_platform = [], en_toolchains = [], en_flags = [], en_container = None, en_model = None\<rparr>"
  have "wf_strings (pv_toolPermissions ?p)" "wf_strings (ar_locators ?r)"
    "gomap_ok (en_toolchains ?e)" "gomap_ok (en_flags ?e)"
    by (simp_all add: wf_strings_def gomap_ok_def fits64_def max_alloc_def)
  from typed_records_roundtrip [OF this] show ?thesis
    by (simp add: canonical_prov_def canonical_hash_def Let_def)
qed

text \<open>Identical environments hash identically: two environments that agree on every
  scalar component and hold the same maps encode to the same object, whatever order Go
  iterates the two maps in.\<close>

theorem environment_order_irrelevant:
  assumes "distinct (map fst (en_toolchains e))" and "distinct (map fst (en_flags e))"
    and "distinct (map fst tc)" and "distinct (map fst fl)"
    and "map_of tc = map_of (en_toolchains e)" and "map_of fl = map_of (en_flags e)"
  shows "NewEnvironment (e\<lparr>en_toolchains := tc, en_flags := fl\<rparr>) = NewEnvironment e"
proof -
  have same: "encodeStringMap m = encodeStringMap m' \<and> (m = [] \<longleftrightarrow> m' = [])"
    if "distinct (map fst m)" "distinct (map fst m')" "map_of m = map_of m'" for m m' :: gomap
  proof -
    have c: "canonical_map m = canonical_map m'" using that by (rule canonical_map_cong)
    then have "length m = length m'" by (metis length_canonical_map)
    with c show ?thesis by (auto simp: encodeStringMap_eq len64_def)
  qed
  from same [OF assms(3,1,5)] same [OF assms(4,2,6)]
  show ?thesis by (simp add: NewEnvironment_def environment_fields_def)
qed

theorem environment_order_irrelevant_witness:
  "let e = \<lparr>en_platform = ''p'', en_toolchains = [(''go'', ''1''), (''cc'', ''2'')], en_flags = [],
       en_container = None, en_model = None\<rparr>
   in NewEnvironment (e\<lparr>en_toolchains := [(''cc'', ''2''), (''go'', ''1'')], en_flags := []\<rparr>) = NewEnvironment e"
  unfolding Let_def by (rule environment_order_irrelevant) (auto simp: fun_eq_iff)

end
