(* ===== verification/Attest.thy ===== *)
theory Attest
  imports RefUpdate ObjRecords
begin

text \<open>
  Signed objects: the signature blob that changes (\<^verbatim>\<open>internal/provenance\<close>) and attestations
  (\<^verbatim>\<open>internal/attest/attest.go\<close>) carry, signing and verification, and the rule that ties an
  attestation's strength to the kind of its signer. Ed25519 is a parameter: a signer answers
  a request with a signature, and \<^verbatim>\<open>verify\<close> accepts or refuses one.
\<close>

section \<open>The signature blob\<close>

definition schemeEd25519 :: u64 where "schemeEd25519 = 1"

definition encodeSig :: "u64 \<Rightarrow> byte list \<Rightarrow> byte list \<Rightarrow> byte list" where
  "encodeSig scheme pub sig =
     (let b = appendUvarint [] scheme;
          b = appendBytes b pub
      in appendBytes b sig)"

text \<open>The two packages read the blob with the same code, over their own varint readers.\<close>

definition takeBytes_by :: "(byte list \<Rightarrow> goerr + (u64 \<times> nat)) \<Rightarrow> byte list \<Rightarrow> goerr + (byte list \<times> byte list)" where
  "takeBytes_by rd b =
     rbind (rd b) (\<lambda>(n, k).
     let b = drop k b in
     if unat n > length b then Inl (Plain ''truncated field'')
     else Inr (take (unat n) b, drop (unat n) b))"

definition decodeSig_by :: "(byte list \<Rightarrow> goerr + (u64 \<times> nat)) \<Rightarrow> byte list
    \<Rightarrow> goerr + (u64 \<times> byte list \<times> byte list)" where
  "decodeSig_by rd b =
     rbind (rd b) (\<lambda>(scheme, n).
     let b = drop n b in
     rbind (takeBytes_by rd b) (\<lambda>(pub, b).
     rbind (takeBytes_by rd b) (\<lambda>(sig, _).
     Inr (scheme, pub, sig))))"

locale varint_reader =
  fixes rd :: "byte list \<Rightarrow> goerr + (u64 \<times> nat)"
  assumes rd_appended: "rd (appendUvarint [] v @ r) = Inr (v, length (appendUvarint [] v))"
begin

lemma take_put: "fits64 v \<Longrightarrow> takeBytes_by rd (put_bytes [] v @ r) = Inr (v, r)"
  by (simp add: takeBytes_by_def put_bytes_def rd_appended)

text \<open>What was written is read back, and nothing after it is looked at.\<close>

lemma decode_encode: "fits64 pub \<Longrightarrow> fits64 sig \<Longrightarrow> decodeSig_by rd (encodeSig s pub sig @ junk) = Inr (s, pub, sig)"
proof -
  assume f: "fits64 pub" "fits64 sig"
  have "encodeSig s pub sig @ junk = appendUvarint [] s @ put_bytes [] pub @ put_bytes [] sig @ junk"
    by (simp add: encodeSig_def appendBytes_def Let_def put_bytes_def appendUvarint_append [of "appendUvarint [] s"]
        appendUvarint_append [of "appendUvarint [] s @ appendUvarint [] (len64 pub) @ pub"])
  then show ?thesis
    using f take_put [of pub "put_bytes [] sig @ junk"] take_put [of sig junk]
    by (simp add: decodeSig_by_def rd_appended)
qed

end

subsection \<open>The reader of provenance refuses overlong varints, the one of attest does not\<close>

definition pv_readUvarint :: "byte list \<Rightarrow> goerr + (u64 \<times> nat)" where
  "pv_readUvarint b = map_err (\<lambda>_. Plain ''provenance: bad varint'') (readUvarint b)"

fun att_readUvarint_from :: "nat \<Rightarrow> u64 \<Rightarrow> nat \<Rightarrow> byte list \<Rightarrow> goerr + (u64 \<times> nat)" where
  "att_readUvarint_from i x s [] = Inl (Plain ''attest: truncated varint'')"
| "att_readUvarint_from i x s (ch # b) =
     (if i = 10 then Inl (Plain ''attest: varint overflow'')
      else if ch < 0x80 then
        (if i = 9 \<and> ch > 1 then Inl (Plain ''attest: varint overflow'')
         else Inr (x OR push_bit s (ucast ch), Suc i))
      else att_readUvarint_from (Suc i) (x OR push_bit s (ucast (ch AND 0x7f))) (s + 7) b)"

definition att_readUvarint :: "byte list \<Rightarrow> goerr + (u64 \<times> nat)" where
  "att_readUvarint b = att_readUvarint_from 0 0 0 b"

lemma att_reads_more: "readUvarint_from i x s b = Inr r \<Longrightarrow> att_readUvarint_from i x s b = Inr r"
  by (induction i x s b rule: readUvarint_from.induct) (auto split: if_splits)

interpretation pv: varint_reader pv_readUvarint
  by unfold_locales (simp add: pv_readUvarint_def readUvarint_append)

interpretation att: varint_reader att_readUvarint
  using readUvarint_append by unfold_locales (auto simp: att_readUvarint_def readUvarint_def intro: att_reads_more)

definition pv_decodeSig :: "byte list \<Rightarrow> goerr + (u64 \<times> byte list \<times> byte list)" where
  "pv_decodeSig = decodeSig_by pv_readUvarint"

definition att_decodeSig :: "byte list \<Rightarrow> goerr + (u64 \<times> byte list \<times> byte list)" where
  "att_decodeSig = decodeSig_by att_readUvarint"

section \<open>Signed changes\<close>

definition SignWith :: "obj \<Rightarrow> signer \<Rightarrow> goerr + obj" where
  "SignWith change s =
     (if otyp change \<noteq> TypeChange then Inl (Plain ''provenance: cannot sign this object'')
      else
        let pub = sg_public s in
        if length pub \<noteq> PublicKeySize then Inl (Plain ''provenance: signer has no valid public key'')
        else rbind (sg_sign s (SignableBytes change)) (\<lambda>sig.
          if length sig \<noteq> SignatureSize then Inl (Plain ''provenance: signature length'')
          else Inr (SetSignature change (encodeSig schemeEd25519 pub sig))))"

definition pv_Verify :: "ed25519_verify \<Rightarrow> obj \<Rightarrow> goerr + byte list" where
  "pv_Verify verify change =
     (case RawSignature change of
        None \<Rightarrow> Inl (Plain ''provenance: change is not signed'')
      | Some blob \<Rightarrow>
          rbind (pv_decodeSig blob) (\<lambda>(scheme, pub, sig).
          if scheme \<noteq> schemeEd25519 then Inl (Plain ''provenance: unknown signature scheme'')
          else if length pub \<noteq> PublicKeySize then Inl (Plain ''provenance: signature does not verify'')
          else if \<not> verify pub (SignableBytes change) sig then Inl (Plain ''provenance: signature does not verify'')
          else Inr pub))"

section \<open>Signed attestations\<close>

definition att_Sign :: "signer option \<Rightarrow> attestation \<Rightarrow> goerr + obj" where
  "att_Sign signer a =
     (case signer of
        None \<Rightarrow> Inl (Plain ''attest: nil signer (identity cannot sign; try ssh-agent)'')
      | Some s \<Rightarrow>
          if a_target a = None then Inl (Plain ''attest: attestation has no target'')
          else if a_strength a = StrengthUnknown \<or> a_decision a = 0 then
            Inl (Plain ''attest: decision and strength are required'')
          else
            rbind (NewAttestation a) (\<lambda>obj.
            rbind (sg_sign s (SignableBytes obj)) (\<lambda>sig.
            if length sig \<noteq> SignatureSize then Inl (Plain ''attest: signature length'')
            else Inr (SetSignature obj (encodeSig schemeEd25519 (sg_public s) sig)))))"

definition SignDecision :: "signer option \<Rightarrow> multihash option \<Rightarrow> u64 \<Rightarrow> u64 \<Rightarrow> string \<Rightarrow> i64 \<Rightarrow> goerr + obj" where
  "SignDecision signer target d s rationale now =
     att_Sign signer \<lparr>a_target = target, a_decision = d, a_strength = s, a_timestamp = now,
       a_rationale = rationale, a_policy = None\<rparr>"

definition att_Verify :: "ed25519_verify \<Rightarrow> obj \<Rightarrow> goerr + (byte list \<times> attestation)" where
  "att_Verify verify obj =
     rbind (AsAttestation obj) (\<lambda>a.
     case RawSignature obj of
       None \<Rightarrow> Inl (Sentinel AttUnsigned [])
     | Some blob \<Rightarrow>
         rbind (att_decodeSig blob) (\<lambda>(scheme, pub, sig).
         if scheme \<noteq> schemeEd25519 then Inl (Sentinel AttUnknownScheme [])
         else if length pub \<noteq> PublicKeySize then Inl (Sentinel AttBadSignature [])
         else if \<not> verify pub (SignableBytes obj) sig then Inl (Sentinel AttBadSignature [])
         else Inr (pub, a)))"

type_synonym kind_resolver = "string \<Rightarrow> u64 option"

definition att_Fingerprint :: "hash_funs \<Rightarrow> byte list \<Rightarrow> string" where
  "att_Fingerprint h pub = Fingerprint h \<lparr>pk_key = pub, pk_comment = []\<rparr>"

definition CheckStrengthKind :: "u64 \<Rightarrow> u64 \<Rightarrow> goerr + unit" where
  "CheckStrengthKind s k =
     (if k = KindBridge then
        (if s \<noteq> StrengthWeak then Inl (Sentinel AttStrengthKind ''bridge may only produce weak'') else Inr ())
      else if k = KindHuman \<or> k = KindAgent then
        (if s = StrengthWeak then Inl (Sentinel AttStrengthKind ''keyholder may not produce weak'') else Inr ())
      else Inl (Sentinel AttStrengthKind ''unknown principal kind''))"

definition VerifyWithPrincipal :: "hash_funs \<Rightarrow> ed25519_verify \<Rightarrow> obj \<Rightarrow> kind_resolver
    \<Rightarrow> goerr + (string \<times> attestation)" where
  "VerifyWithPrincipal h verify obj r =
     rbind (att_Verify verify obj) (\<lambda>(pub, a).
     let fp = att_Fingerprint h pub in
     case r fp of
       None \<Rightarrow> Inl (Sentinel AttUnknownPrincipal [])
     | Some kind \<Rightarrow>
         rbind (CheckStrengthKind (a_strength a) kind) (\<lambda>_. Inr (fp, a)))"

definition PrincipalSet_Add :: "hash_funs \<Rightarrow> (string \<rightharpoonup> u64) \<Rightarrow> principal \<Rightarrow> (string \<rightharpoonup> u64)" where
  "PrincipalSet_Add h ps p = ps(att_Fingerprint h (p_key p) \<mapsto> p_kind p)"

definition PrincipalSet_KindOf :: "(string \<rightharpoonup> u64) \<Rightarrow> kind_resolver" where
  "PrincipalSet_KindOf ps fp = ps fp"

section \<open>Signing is undone by verifying\<close>

definition wf_attest :: "attestation \<Rightarrow> bool" where
  "wf_attest a \<longleftrightarrow> fits64 (bytes_or_nil (a_target a)) \<and> fits64 (a_rationale a) \<and> list_all fits64 (opt_list (a_policy a))"

lemma wf_attest_obj: "wf_attest a \<Longrightarrow> wf_obj (attest_obj a)"
  unfolding attest_obj_def
  by (intro wf_mkobj)
    (auto simp: wf_attest_def opt_list_def attest_fields_def opt_field_def str_field_def max_alloc_def split: option.splits)

lemma length_SetField: "length (ofields (SetField o' t v)) \<le> Suc (length (ofields o'))"
  by (simp add: SetField_def Let_def)

lemma length_mkobj [simp]: "length (ofields (mkobj t fs)) = length fs"
  by (simp add: mkobj_def)

lemma wf_signed: "wf_obj o' \<Longrightarrow> length (ofields o') \<le> 100 \<Longrightarrow> fits64 s \<Longrightarrow> wf_obj (SetSignature o' s)"
  using length_SetField [of o' tagChangeSignature s]
  by (auto simp: wf_obj_def wf_fields_def SetSignature_def max_alloc_def intro: SetField_sorted)

lemma signed_fields:
  assumes "wf_obj o'"
  shows "RawSignature (SetSignature o' s) = Some s"
    and "t \<noteq> tagChangeSignature \<Longrightarrow> Field (SetSignature o' s) t = Field o' t"
    and "SignableBytes (SetSignature o' s) = SignableBytes o'" and "otyp (SetSignature o' s) = otyp o'"
  using assms SignableBytes_SetField [of o' s]
  by (simp_all add: RawSignature_def SetSignature_def Field_SetField wf_obj_def wf_fields_def)

lemma AsAttestation_signed: "wf_attest a \<Longrightarrow> AsAttestation (SetSignature (attest_obj a) s) = Inr (canonical_attest a)"
  using signed_fields [OF wf_attest_obj] by (intro AsAttestation_cong) simp_all

text \<open>A signer whose signatures verify under the key it shows.\<close>

definition honest_signer :: "ed25519_verify \<Rightarrow> signer \<Rightarrow> bool" where
  "honest_signer verify s \<longleftrightarrow>
     length (sg_public s) = PublicKeySize \<and> (\<forall>m sig. sg_sign s m = Inr sig \<longrightarrow> verify (sg_public s) m sig)"

lemma encodeSig_fits: "length pub \<le> 100 \<Longrightarrow> length sig \<le> 100 \<Longrightarrow> fits64 (encodeSig c pub sig)"
  using length_appendUvarint [of c] length_appendUvarint [of "len64 pub"] length_appendUvarint [of "len64 sig"]
  by (simp add: encodeSig_def appendBytes_def Let_def fits64_def appendUvarint_append [of "appendUvarint [] c"]
      appendUvarint_append [of "appendUvarint [] c @ appendUvarint [] (len64 pub) @ pub"])

lemma decode_blob:
  "length pub \<le> 100 \<Longrightarrow> length sig \<le> 100 \<Longrightarrow> att_decodeSig (encodeSig c pub sig) = Inr (c, pub, sig)"
  "length pub \<le> 100 \<Longrightarrow> length sig \<le> 100 \<Longrightarrow> pv_decodeSig (encodeSig c pub sig) = Inr (c, pub, sig)"
  using att.decode_encode [of pub sig c "[]"] pv.decode_encode [of pub sig c "[]"]
  by (simp_all add: att_decodeSig_def pv_decodeSig_def fits64_def)

text \<open>What verification has established.\<close>

lemma att_Verify_cases:
  assumes "att_Verify verify obj = Inr (pub, a)"
  obtains blob sig where "AsAttestation obj = Inr a" "RawSignature obj = Some blob"
    "att_decodeSig blob = Inr (schemeEd25519, pub, sig)" "length pub = 32" "verify pub (SignableBytes obj) sig"
  using assms by (auto simp: att_Verify_def result_iffs PublicKeySize_def split: option.splits if_splits prod.splits)

lemma same_signable:
  assumes "wf_obj obj" "wf_attest a'" "SignableBytes obj = SignableBytes (attest_obj a')"
  shows "AsAttestation obj = Inr (canonical_attest a')"
  using SignableBytes_inj [OF assms(1) wf_attest_obj [OF assms(2)] assms(3)]
  by (intro AsAttestation_cong) simp_all

lemma sign_verifies:
  assumes "honest_signer verify s" "wf_attest a" "att_Sign (Some s) a = Inr obj"
  shows "wf_obj obj" and "att_Verify verify obj = Inr (sg_public s, canonical_attest a)"
proof -
  obtain sig where sig: "sg_sign s (SignableBytes (attest_obj a)) = Inr sig" "length sig = 64"
    and obj: "obj = SetSignature (attest_obj a) (encodeSig schemeEd25519 (sg_public s) sig)"
    using assms(3) by (auto simp: att_Sign_def NewAttestation_eq result_iffs SignatureSize_def split: if_splits)
  have pub: "length (sg_public s) = 32" using assms(1) by (simp add: honest_signer_def PublicKeySize_def)
  have w: "wf_obj (attest_obj a)" using assms(2) by (rule wf_attest_obj)
  have "length (ofields (attest_obj a)) \<le> 100"
    by (simp add: attest_obj_def attest_fields_def opt_field_def str_field_def split: option.split)
  then show "wf_obj obj" unfolding obj using w pub sig(2) by (intro wf_signed encodeSig_fits) simp_all
  show "att_Verify verify obj = Inr (sg_public s, canonical_attest a)"
    using assms(1) sig pub signed_fields [OF w] AsAttestation_signed [OF assms(2)]
    by (simp add: att_Verify_def obj decode_blob honest_signer_def PublicKeySize_def)
qed

text \<open>A decision to try the properties on.\<close>

definition demo_attest :: attestation where
  "demo_attest = \<lparr>a_target = Some [1], a_decision = DecisionApprove, a_strength = StrengthStrong,
      a_timestamp = 5, a_rationale = ''ok'', a_policy = None\<rparr>"

lemma demo_attest_facts:
  "wf_attest demo_attest" "canonical_attest demo_attest = demo_attest"
  "honest_signer (\<lambda>pub m sig. m = SignableBytes (attest_obj demo_attest)) (demo_signer\<lparr>sg_sign := \<lambda>m.
     if m = SignableBytes (attest_obj demo_attest) then Inr (replicate 64 0) else Inl (Plain [])\<rparr>)"
  "\<exists>obj. att_Sign (Some (demo_signer\<lparr>sg_sign := \<lambda>m.
     if m = SignableBytes (attest_obj demo_attest) then Inr (replicate 64 0) else Inl (Plain [])\<rparr>)) demo_attest = Inr obj"
  by (simp_all add: wf_attest_def fits64_def demo_attest_def canonical_attest_def canonical_hash_def
      honest_signer_def demo_signer_def PublicKeySize_def att_Sign_def NewAttestation_eq SignatureSize_def)

section \<open>Properties\<close>

text \<open>What is signed verifies, after a trip through the store too: the object \<^verbatim>\<open>Sign\<close>
  returns decodes from its encoding and verifies under the signer's key, giving back the
  decision that was signed (an empty policy reference reads as none).\<close>

theorem attest_roundtrip:
  assumes "honest_signer verify s" "wf_attest a" "att_Sign (Some s) a = Inr obj"
  shows "rbind (Decode (Encode obj)) (att_Verify verify) = Inr (sg_public s, canonical_attest a)"
  using sign_verifies [OF assms] by simp

theorem attest_roundtrip_witness:
  "\<exists>s obj. att_Sign (Some s) demo_attest = Inr obj \<and>
     rbind (Decode (Encode obj)) (att_Verify (\<lambda>pub m sig. m = SignableBytes (attest_obj demo_attest)))
       = Inr (replicate 32 9, demo_attest)"
proof -
  obtain obj where "att_Sign (Some (demo_signer\<lparr>sg_sign := \<lambda>m.
      if m = SignableBytes (attest_obj demo_attest) then Inr (replicate 64 0) else Inl (Plain [])\<rparr>)) demo_attest = Inr obj"
    using demo_attest_facts(4) ..
  with attest_roundtrip [OF demo_attest_facts(3,1) this] show ?thesis
    by (auto simp: demo_attest_facts(2)) (auto simp: demo_signer_def)
qed

text \<open>No decision can be altered or invented: if the only messages that verify under a key
  are the ones its holder signed as attestations, then whatever verifies under that key is
  one of those attestations, whatever bytes the object carries otherwise.\<close>

theorem attest_tamper_evident:
  assumes "wf_obj obj" "att_Verify verify obj = Inr (pub, a)" "\<forall>a \<in> made. wf_attest a"
    and "\<And>m sig. verify pub m sig \<Longrightarrow> \<exists>a \<in> made. m = SignableBytes (attest_obj a)"
  shows "a \<in> canonical_attest ` made"
proof -
  obtain blob sig where v: "AsAttestation obj = Inr a" "verify pub (SignableBytes obj) sig"
    using att_Verify_cases [OF assms(2)] by metis
  then obtain a' where a': "a' \<in> made" "SignableBytes obj = SignableBytes (attest_obj a')"
    using assms(4) by blast
  then have "AsAttestation obj = Inr (canonical_attest a')"
    using assms(1,3) by (intro same_signable) auto
  with v(1) a'(1) show ?thesis by auto
qed

theorem attest_tamper_evident_witness:
  "\<exists>obj pub a. att_Verify (\<lambda>pub m sig. m = SignableBytes (attest_obj demo_attest)) obj = Inr (pub, a) \<and>
     a \<in> canonical_attest ` {demo_attest}"
proof -
  let ?v = "\<lambda>pub m (sig :: byte list). m = SignableBytes (attest_obj demo_attest)"
  obtain obj where o: "att_Sign (Some (demo_signer\<lparr>sg_sign := \<lambda>m.
      if m = SignableBytes (attest_obj demo_attest) then Inr (replicate 64 0) else Inl (Plain [])\<rparr>)) demo_attest = Inr obj"
    using demo_attest_facts(4) ..
  note v = sign_verifies [OF demo_attest_facts(3,1) o]
  have "canonical_attest demo_attest \<in> canonical_attest ` {demo_attest}"
    by (rule attest_tamper_evident [OF v]) (simp_all add: demo_attest_facts)
  with v(2) show ?thesis by blast
qed

text \<open>The signer's kind, not the payload, decides what a signature is worth: an attestation
  that passes \<^verbatim>\<open>VerifyWithPrincipal\<close> was made by a registered principal, is weak exactly when
  that principal is a bridge, and is returned unchanged, so no bridge can mint a strong
  approval and no unknown key can mint any.\<close>

theorem strength_follows_kind:
  assumes "VerifyWithPrincipal h verify obj r = Inr (fp, a)"
  shows "\<exists>pub kind. att_Verify verify obj = Inr (pub, a) \<and> fp = att_Fingerprint h pub \<and> r fp = Some kind \<and>
     kind \<in> {KindHuman, KindAgent, KindBridge} \<and> (a_strength a = StrengthWeak \<longleftrightarrow> kind = KindBridge)"
  using assms by (auto simp: VerifyWithPrincipal_def CheckStrengthKind_def Let_def result_iffs
      split: option.splits if_splits)

theorem strength_follows_kind_witness:
  "\<exists>obj fp a. VerifyWithPrincipal \<lparr>sha256_sum = (\<lambda>_. []), blake3_sum = (\<lambda>_. [])\<rparr>
       (\<lambda>pub m sig. m = SignableBytes (attest_obj demo_attest)) obj (\<lambda>_. Some KindHuman) = Inr (fp, a) \<and>
     a_strength a \<noteq> StrengthWeak"
proof -
  obtain obj where o: "att_Sign (Some (demo_signer\<lparr>sg_sign := \<lambda>m.
      if m = SignableBytes (attest_obj demo_attest) then Inr (replicate 64 0) else Inl (Plain [])\<rparr>)) demo_attest = Inr obj"
    using demo_attest_facts(4) ..
  note v = sign_verifies(2) [OF demo_attest_facts(3,1) o]
  let ?h = "\<lparr>sha256_sum = (\<lambda>_. []), blake3_sum = (\<lambda>_. [])\<rparr>"
  let ?p = "sg_public demo_signer"
  have "VerifyWithPrincipal ?h (\<lambda>pub m sig. m = SignableBytes (attest_obj demo_attest)) obj (\<lambda>_. Some KindHuman)
      = Inr (att_Fingerprint ?h ?p, demo_attest)"
    using v by (simp add: VerifyWithPrincipal_def CheckStrengthKind_def demo_attest_facts(2))
      (simp add: demo_attest_def)
  with strength_follows_kind [OF this] show ?thesis by fastforce
qed

end
