(* ===== verification/ObjStore.thy ===== *)
theory ObjStore
  imports ObjRecords Strconv "HOL-Library.AList"
begin

text \<open>
  \<^verbatim>\<open>internal/store\<close>: the content-addressed object store. Its directory is an association
  list from a path (shard directory, file name) to the bytes of the file; writes are atomic
  (temporary file and rename), so an operation is one step on it. The hash functions are
  the parameter \<^verbatim>\<open>h\<close>. I/O failures other than a missing file are outside the model.
\<close>

type_synonym obj_path = "string \<times> string"

record objstore =
  os_files :: "(obj_path \<times> byte list) list"
  os_algo :: code

definition Open_store :: objstore where
  "Open_store = \<lparr>os_files = [], os_algo = Default\<rparr>"

definition store_path :: "multihash \<Rightarrow> goerr + obj_path" where
  "store_path id' =
     rbind (mh_decode id') (\<lambda>_.
     let digest = Digest id' in
     if length digest = 0 then Inl (Sentinel MhMalformed [])
     else Inr (hex_encode [hd digest], Hex id'))"

definition PutRaw :: "hash_funs \<Rightarrow> objstore \<Rightarrow> byte list \<Rightarrow> (goerr + multihash) \<times> objstore" where
  "PutRaw h s b =
     (case Sum h (os_algo s) b of
        Inl e \<Rightarrow> (Inl e, s)
      | Inr id' \<Rightarrow>
         (case store_path id' of
            Inl e \<Rightarrow> (Inl e, s)
          | Inr full \<Rightarrow>
              if map_of (os_files s) full \<noteq> None then (Inr id', s)
              else (Inr id', s\<lparr>os_files := AList.update full b (os_files s)\<rparr>)))"

definition Put :: "hash_funs \<Rightarrow> objstore \<Rightarrow> obj \<Rightarrow> (goerr + multihash) \<times> objstore" where
  "Put h s o' = PutRaw h s (Encode o')"

definition PutVerified :: "hash_funs \<Rightarrow> objstore \<Rightarrow> multihash \<Rightarrow> byte list \<Rightarrow> (goerr + unit) \<times> objstore" where
  "PutVerified h s id' b =
     (case Verify h id' b of
        Inl e \<Rightarrow> (Inl e, s)
      | Inr ok \<Rightarrow>
          if \<not> ok then (Inl (Sentinel StoreCorrupt []), s)
          else
            (case store_path id' of
               Inl e \<Rightarrow> (Inl e, s)
             | Inr full \<Rightarrow>
                 if map_of (os_files s) full \<noteq> None then (Inr (), s)
                 else (Inr (), s\<lparr>os_files := AList.update full b (os_files s)\<rparr>)))"

definition Has :: "objstore \<Rightarrow> multihash \<Rightarrow> bool" where
  "Has s id' = (case store_path id' of Inl _ \<Rightarrow> False | Inr full \<Rightarrow> map_of (os_files s) full \<noteq> None)"

definition GetRaw :: "hash_funs \<Rightarrow> objstore \<Rightarrow> multihash \<Rightarrow> goerr + byte list" where
  "GetRaw h s id' =
     rbind (store_path id') (\<lambda>full.
     case map_of (os_files s) full of
       None \<Rightarrow> Inl (Sentinel StoreNotFound [])
     | Some b \<Rightarrow>
         rbind (Verify h id' b) (\<lambda>ok.
         if \<not> ok then Inl (Sentinel StoreCorrupt []) else Inr b))"

definition Get :: "hash_funs \<Rightarrow> objstore \<Rightarrow> multihash \<Rightarrow> goerr + obj" where
  "Get h s id' = rbind (GetRaw h s id') Decode"

text \<open>\<^verbatim>\<open>Walk\<close> visits the shards, and the files of a shard, in the order of their names.\<close>

definition Walk_ids :: "objstore \<Rightarrow> multihash list" where
  "Walk_ids s =
     concat (map (\<lambda>(shard, name).
         if has_prefix name ''.tmp-'' then []
         else (case ParseHex name of Inl _ \<Rightarrow> [] | Inr id' \<Rightarrow> [id']))
       (sort_key (\<lambda>(shard, name). [shard, name]) (map fst (os_files s))))"

definition Delete_obj :: "objstore \<Rightarrow> multihash \<Rightarrow> goerr + objstore" where
  "Delete_obj s id' =
     rbind (store_path id') (\<lambda>full.
     Inr (s\<lparr>os_files := AList.delete full (os_files s)\<rparr>))"

section \<open>The invariant\<close>

text \<open>Every file lies at the path of an identity that its bytes hash to.\<close>

definition store_ok :: "hash_funs \<Rightarrow> objstore \<Rightarrow> bool" where
  "store_ok h s \<longleftrightarrow>
     distinct (map fst (os_files s)) \<and>
     (\<forall>(p, b) \<in> set (os_files s). \<exists>id'. store_path id' = Inr p \<and> Verify h id' b = Inr True)"

lemma store_path_valid: "store_path i = Inr p \<Longrightarrow> \<exists>cd. mh_decode i = Inr cd"
  by (auto simp: store_path_def result_iffs)

lemma store_path_name: "store_path i = Inr p \<Longrightarrow> snd p = Hex i"
  by (auto simp: store_path_def result_iffs Let_def split: if_splits)

lemma store_path_inj: "store_path i = Inr p \<Longrightarrow> store_path j = Inr p \<Longrightarrow> i = j"
  by (metis Hex_inj store_path_name)

lemma store_path_mh:
  assumes "wf_hashes h" "Verify h i b = Inr True"
  obtains p where "store_path i = Inr p"
proof -
  from assms obtain c a where a: "registry h c = Some a" and i: "i = mh_encode c (algo_sum a b)"
    by (auto simp: Verify_iff)
  have l: "length (algo_sum a b) = 32" using registry_sum_length [OF assms(1) a] .
  then have "fits64 (algo_sum a b)" by (simp add: fits64_def)
  with i have d: "mh_decode i = Inr (c, algo_sum a b)" by (simp add: mh_decode_iff)
  have "algo_sum a b \<noteq> []" using l by auto
  with d show thesis by (intro that) (simp add: store_path_def Digest_def Let_def)
qed

lemma store_ok_empty [simp]: "store_ok h Open_store"
  by (simp add: store_ok_def Open_store_def)

lemma store_ok_file:
  assumes "store_ok h s" "map_of (os_files s) p = Some b"
  obtains i where "store_path i = Inr p" "Verify h i b = Inr True"
  using assms map_of_SomeD [OF assms(2)] unfolding store_ok_def by fastforce

lemma store_ok_update:
  assumes "store_ok h s" "store_path i = Inr p" "Verify h i b = Inr True"
  shows "store_ok h (s\<lparr>os_files := AList.update p b (os_files s)\<rparr>)"
  unfolding store_ok_def
proof (intro conjI ballI)
  show "distinct (map fst (os_files (s\<lparr>os_files := AList.update p b (os_files s)\<rparr>)))"
    using assms(1) by (simp add: store_ok_def distinct_update)
  fix q assume q: "q \<in> set (os_files (s\<lparr>os_files := AList.update p b (os_files s)\<rparr>))"
  obtain p' b' where q': "q = (p', b')" by (cases q)
  have "distinct (map fst (AList.update p b (os_files s)))"
    using assms(1) by (simp add: store_ok_def distinct_update)
  with q q' have "map_of (AList.update p b (os_files s)) p' = Some b'" by simp
  then consider "p' = p" "b' = b" | "map_of (os_files s) p' = Some b'"
    by (cases "p' = p") (simp_all add: update_conv')
  then show "case q of (p, b) \<Rightarrow> \<exists>id'. store_path id' = Inr p \<and> Verify h id' b = Inr True"
  proof cases
    case 1
    with assms(2,3) q' show ?thesis by auto
  next
    case 2
    obtain j where "store_path j = Inr p'" "Verify h j b' = Inr True"
      using store_ok_file [OF assms(1) 2] .
    with q' show ?thesis by auto
  qed
qed

lemma GetRaw_iff:
  "GetRaw h s i = Inr b \<longleftrightarrow>
     (\<exists>p. store_path i = Inr p \<and> map_of (os_files s) p = Some b \<and> Verify h i b = Inr True)"
proof (cases "store_path i")
  case (Inr p)
  then show ?thesis
    by (cases "map_of (os_files s) p") (auto simp: GetRaw_def result_iffs)
qed (simp add: GetRaw_def)

lemma GetRaw_verified: "GetRaw h s i = Inr b \<Longrightarrow> Verify h i b = Inr True"
  by (auto simp: GetRaw_iff)

lemma Has_GetRaw: "store_ok h s \<Longrightarrow> Has s i \<longleftrightarrow> (\<exists>b. GetRaw h s i = Inr b)"
  by (auto simp: Has_def GetRaw_iff split: sum.splits) (metis store_ok_file store_path_inj)

lemma GetRaw_NotFound: "store_path i = Inr p \<Longrightarrow> \<not> Has s i \<Longrightarrow> GetRaw h s i = Inl (Sentinel StoreNotFound [])"
  by (simp add: Has_def GetRaw_def)

subsection \<open>Every operation keeps it\<close>

lemma PutRaw_cases:
  assumes "wf_hashes h" "PutRaw h s b = (Inr i, s')"
  obtains p where "store_path i = Inr p" "Verify h i b = Inr True" "Sum h (os_algo s) b = Inr i"
    "s' = (if map_of (os_files s) p = None then s\<lparr>os_files := AList.update p b (os_files s)\<rparr> else s)"
proof -
  have "Sum h (os_algo s) b = Inr i"
    using assms(2) by (auto simp: PutRaw_def split: sum.splits if_splits)
  with that Sum_Verify [OF assms(1) this] assms(2) show thesis
    by (auto simp: PutRaw_def split: sum.splits if_splits)
qed

lemma PutRaw_ok:
  assumes "wf_hashes h" "store_ok h s" "PutRaw h s b = (Inr i, s')"
  shows "store_ok h s'" and "Verify h i b = Inr True" and "os_algo s' = os_algo s"
    and "GetRaw h s' i = (if Has s i then GetRaw h s i else Inr b)"
    and "j \<noteq> i \<Longrightarrow> GetRaw h s' j = GetRaw h s j"
proof -
  obtain p where p: "store_path i = Inr p" and v: "Verify h i b = Inr True"
    and s': "s' = (if map_of (os_files s) p = None then s\<lparr>os_files := AList.update p b (os_files s)\<rparr> else s)"
    using assms by (elim PutRaw_cases)
  show "Verify h i b = Inr True" by fact
  show "store_ok h s'" using store_ok_update [OF assms(2) p v] assms(2) by (simp add: s')
  show "os_algo s' = os_algo s" by (simp add: s')
  show "GetRaw h s' i = (if Has s i then GetRaw h s i else Inr b)"
    using p v by (auto simp: s' Has_def GetRaw_def update_conv')
  show "GetRaw h s' j = GetRaw h s j" if "j \<noteq> i"
  proof (cases "store_path j")
    case (Inr q)
    then have "q \<noteq> p" using that p store_path_inj by blast
    then show ?thesis by (simp add: GetRaw_def Inr s' update_conv')
  qed (simp add: GetRaw_def)
qed

lemma PutRaw_error: "PutRaw h s b = (Inl e, s') \<Longrightarrow> s' = s"
  by (auto simp: PutRaw_def split: sum.splits if_splits)

lemma PutRaw_total:
  assumes "wf_hashes h" "os_algo s = Default"
  obtains i s' where "PutRaw h s b = (Inr i, s')"
proof -
  obtain i where i: "Sum h (os_algo s) b = Inr i"
    using assms(2) by (auto simp: Sum_def registry_def Default_def BLAKE3_def SHA2_256_def)
  obtain p where "store_path i = Inr p" using store_path_mh [OF assms(1) Sum_Verify [OF assms(1) i]] .
  with i that show thesis by (cases "map_of (os_files s) p") (auto simp: PutRaw_def)
qed

lemma PutVerified_ok:
  assumes "wf_hashes h" "store_ok h s" "PutVerified h s i b = (r, s')"
  shows "store_ok h s'" and "r = Inr () \<Longrightarrow> Has s' i \<and> Verify h i b = Inr True"
    and "j \<noteq> i \<Longrightarrow> GetRaw h s' j = GetRaw h s j"
proof -
  consider "s' = s" "r \<noteq> Inr ()"
    | p where "Verify h i b = Inr True" "store_path i = Inr p" "r = Inr ()"
        "s' = (if map_of (os_files s) p = None then s\<lparr>os_files := AList.update p b (os_files s)\<rparr> else s)"
    using assms(3) by (auto simp: PutVerified_def split: sum.splits if_splits)
  then have "store_ok h s' \<and> (r = Inr () \<longrightarrow> Has s' i \<and> Verify h i b = Inr True) \<and>
      (j \<noteq> i \<longrightarrow> GetRaw h s' j = GetRaw h s j)" for j
  proof cases
    case 1
    with assms(2) show ?thesis by simp
  next
    case (2 p)
    have "GetRaw h s' j = GetRaw h s j" if "j \<noteq> i"
    proof (cases "store_path j")
      case (Inr q)
      then have "q \<noteq> p" using that 2(2) store_path_inj by blast
      then show ?thesis by (simp add: GetRaw_def Inr 2(4) update_conv')
    qed (simp add: GetRaw_def)
    with 2 store_ok_update [OF assms(2) 2(2,1)] assms(2) show ?thesis
      by (auto simp: Has_def update_conv')
  qed
  then show "store_ok h s'" "r = Inr () \<Longrightarrow> Has s' i \<and> Verify h i b = Inr True"
    "j \<noteq> i \<Longrightarrow> GetRaw h s' j = GetRaw h s j" by simp_all
qed

lemma Delete_obj_ok:
  assumes "store_ok h s" "Delete_obj s i = Inr s'"
  shows "store_ok h s'" and "\<not> Has s' i" and "j \<noteq> i \<Longrightarrow> GetRaw h s' j = GetRaw h s j"
    and "j \<noteq> i \<Longrightarrow> Has s' j = Has s j"
proof -
  obtain p where p: "store_path i = Inr p" and s': "s' = s\<lparr>os_files := AList.delete p (os_files s)\<rparr>"
    using assms(2) by (auto simp: Delete_obj_def result_iffs)
  show "store_ok h s'"
    using assms(1) by (auto simp: store_ok_def s' distinct_delete) (auto simp: AList.delete_eq)
  show "\<not> Has s' i" by (simp add: Has_def p s' delete_conv')
  show "GetRaw h s' j = GetRaw h s j" "Has s' j = Has s j" if "j \<noteq> i"
  proof -
    have "q \<noteq> p" if "store_path j = Inr q" for q
      using that \<open>j \<noteq> i\<close> p store_path_inj by blast
    then show "GetRaw h s' j = GetRaw h s j" "Has s' j = Has s j"
      by (cases "store_path j"; simp add: GetRaw_def Has_def s' delete_conv')+
  qed
qed

lemma Has_file: "Has s i \<Longrightarrow> \<exists>p. store_path i = Inr p \<and> p \<in> fst ` set (os_files s)"
  by (auto simp: Has_def map_of_eq_None_iff split: sum.splits)

lemma Hex_no_tmp: "\<not> has_prefix (Hex i) ''.tmp-''"
proof
  assume "has_prefix (Hex i) ''.tmp-''"
  then have "CHR ''.'' \<in> set (Hex i)" by (auto simp: has_prefix_iff)
  then show False using Hex_not_in [of "CHR ''.''" i] by simp
qed

lemma set_Walk_ids:
  assumes "store_ok h s"
  shows "set (Walk_ids s) = {i. Has s i}"
proof -
  have "i \<in> set (Walk_ids s) \<longleftrightarrow> Has s i" for i
  proof
    assume "i \<in> set (Walk_ids s)"
    then obtain sh n b where f: "((sh, n), b) \<in> set (os_files s)" and n: "ParseHex n = Inr i"
      by (auto simp: Walk_ids_def split: if_splits sum.splits)
    from assms f obtain j where j: "store_path j = Inr (sh, n)" unfolding store_ok_def by auto
    then have "n = Hex j" using store_path_name [OF j] by simp
    moreover obtain cd where "mh_decode j = Inr cd" using store_path_valid [OF j] by blast
    ultimately have "i = j" using n ParseHex_Hex by auto
    moreover have "map_of (os_files s) (sh, n) \<noteq> None"
      using weak_map_of_SomeI [OF f] by simp
    ultimately show "Has s i" using j by (simp add: Has_def)
  next
    assume hs: "Has s i"
    then obtain p where p: "store_path i = Inr p" "p \<in> fst ` set (os_files s)" using Has_file by blast
    obtain sh n where pn: "p = (sh, n)" by (cases p)
    have n: "n = Hex i" using store_path_name [OF p(1)] pn by simp
    obtain cd where "mh_decode i = Inr cd" using store_path_valid [OF p(1)] by blast
    then have "ParseHex n = Inr i" using n ParseHex_Hex by simp
    moreover have "\<not> has_prefix n ''.tmp-''" using n Hex_no_tmp by simp
    ultimately show "i \<in> set (Walk_ids s)"
      using p(2) pn by (force simp: Walk_ids_def)
  qed
  then show ?thesis by blast
qed

section \<open>The interface of a content-addressed store\<close>

text \<open>
  What its clients rely on: a stored object stays readable under its identity, whatever
  is stored afterwards, and a read returns bytes of that identity or fails.
\<close>

fun put_all :: "('s \<Rightarrow> 'b \<Rightarrow> (goerr + 'i) \<times> 's) \<Rightarrow> 's \<Rightarrow> 'b list \<Rightarrow> (goerr + 'i) list \<times> 's" where
  "put_all put s [] = ([], s)"
| "put_all put s (b # bs) =
     (let (r, s1) = put s b; (rs, s2) = put_all put s1 bs in (r # rs, s2))"

locale content_store =
  fixes inv :: "'s \<Rightarrow> bool"
    and put :: "'s \<Rightarrow> 'b \<Rightarrow> (goerr + 'i) \<times> 's"
    and get :: "'s \<Rightarrow> 'i \<Rightarrow> goerr + 'b"
    and matches :: "'i \<Rightarrow> 'b \<Rightarrow> bool"
  assumes put_inv: "inv s \<Longrightarrow> put s b = (r, s') \<Longrightarrow> inv s'"
    and put_stored: "inv s \<Longrightarrow> put s b = (Inr i, s') \<Longrightarrow> matches i b \<and> (\<exists>b'. get s' i = Inr b')"
    and put_keeps: "inv s \<Longrightarrow> put s b = (r, s') \<Longrightarrow> get s j = Inr b' \<Longrightarrow> get s' j = Inr b'"
    and get_matches: "get s i = Inr b \<Longrightarrow> matches i b"
begin

lemma put_all_keeps:
  "put_all put s bs = (rs, s') \<Longrightarrow> inv s \<Longrightarrow> inv s' \<and> (\<forall>j b. get s j = Inr b \<longrightarrow> get s' j = Inr b)"
proof (induction bs arbitrary: s rs)
  case Nil
  then show ?case by simp
next
  case (Cons b bs)
  obtain r s1 where p: "put s b = (r, s1)" by (cases "put s b")
  obtain rs' s2 where q: "put_all put s1 bs = (rs', s2)" by (cases "put_all put s1 bs")
  have "s2 = s'" using Cons.prems(1) p q by simp
  with Cons.IH [OF q [unfolded \<open>s2 = s'\<close>]] put_inv [OF Cons.prems(2) p] put_keeps [OF Cons.prems(2) p] show ?case by simp
qed

text \<open>Every identity handed out is readable at the end, and its bytes match it, as the
  bytes stored under it do.\<close>

lemma put_all_stored:
  "put_all put s bs = (rs, s') \<Longrightarrow> inv s \<Longrightarrow> k < length bs \<Longrightarrow> rs ! k = Inr i \<Longrightarrow>
   matches i (bs ! k) \<and> (\<exists>b. get s' i = Inr b \<and> matches i b)"
proof (induction bs arbitrary: s rs k)
  case Nil
  then show ?case by simp
next
  case (Cons b bs)
  obtain r s1 where p: "put s b = (r, s1)" by (cases "put s b")
  obtain rs' s2 where q: "put_all put s1 bs = (rs', s2)" by (cases "put_all put s1 bs")
  have s2: "s2 = s'" and rs: "rs = r # rs'" using Cons.prems(1) p q by simp_all
  note inv1 = put_inv [OF Cons.prems(2) p]
  show ?case
  proof (cases k)
    case 0
    with Cons.prems(4) rs have "put s b = (Inr i, s1)" using p by simp
    from put_stored [OF Cons.prems(2) this] obtain b' where "matches i b" "get s1 i = Inr b'" by auto
    with put_all_keeps [OF q inv1] s2 0 get_matches show ?thesis by auto
  next
    case (Suc m)
    with Cons.IH [OF q [unfolded s2] inv1, of m] Cons.prems rs show ?thesis by simp
  qed
qed

end

lemma PutRaw_keeps:
  "wf_hashes h \<Longrightarrow> store_ok h s \<Longrightarrow> PutRaw h s b = (r, s') \<Longrightarrow> GetRaw h s j = Inr b' \<Longrightarrow> GetRaw h s' j = Inr b'"
proof (cases r)
  case (Inr i)
  assume a: "wf_hashes h" "store_ok h s" "PutRaw h s b = (r, s')" "GetRaw h s j = Inr b'"
  note p = PutRaw_ok [OF a(1,2) a(3) [unfolded Inr]]
  show ?thesis
  proof (cases "j = i")
    case True
    with a Has_GetRaw [OF a(2)] p(4) show ?thesis by auto
  next
    case False
    with p(5) a(4) show ?thesis by simp
  qed
qed (auto dest: PutRaw_error)

interpretation disk: content_store "\<lambda>s. wf_hashes h \<and> store_ok h s" "PutRaw h" "GetRaw h"
  "\<lambda>i b. Verify h i b = Inr True" for h
proof
  fix s b r s'
  assume "wf_hashes h \<and> store_ok h s" "PutRaw h s b = (r, s')"
  then show "wf_hashes h \<and> store_ok h s'"
    using PutRaw_ok(1) [of h s b _ s'] PutRaw_error [of h s b _ s'] by (cases r) auto
next
  fix s b i s'
  assume a: "wf_hashes h \<and> store_ok h s" "PutRaw h s b = (Inr i, s')"
  then have "Verify h i b = Inr True" "GetRaw h s' i = (if Has s i then GetRaw h s i else Inr b)"
    using PutRaw_ok [of h s b i s'] by auto
  then show "Verify h i b = Inr True \<and> (\<exists>b'. GetRaw h s' i = Inr b')"
    using a Has_GetRaw [of h s i] by auto
qed (auto intro: PutRaw_keeps GetRaw_verified)

text \<open>C40. The store is well typed: every operation keeps each file at the path of an identity its bytes
  hash to, a deleted object is gone and every other one stays readable as it was, and whatever is
  read verifies under the identity it was asked for and is the encoding of a well-formed object
  when it decodes.\<close>

theorem store_well_typed:
  assumes "wf_hashes h" "store_ok h s"
  shows "store_ok h (snd (PutRaw h s b)) \<and> store_ok h (snd (PutVerified h s i b)) \<and>
    (case Delete_obj s i of
       Inl e \<Rightarrow> \<not> Has s i
     | Inr s' \<Rightarrow> store_ok h s' \<and> \<not> Has s' i \<and> (\<forall>j. j = i \<or> GetRaw h s' j = GetRaw h s j)) \<and>
    (case Get h s i of
       Inl e \<Rightarrow> True
     | Inr obj \<Rightarrow> wf_obj obj \<and> GetRaw h s i = Inr (Encode obj) \<and> Verify h i (Encode obj) = Inr True)"
proof (intro conjI)
  show "store_ok h (snd (PutRaw h s b))"
    using disk.put_inv [OF conjI [OF assms]] by (metis prod.collapse)
  show "store_ok h (snd (PutVerified h s i b))"
    using PutVerified_ok(1) [OF assms] by (metis prod.collapse)
  show "case Delete_obj s i of Inl e \<Rightarrow> \<not> Has s i
      | Inr s' \<Rightarrow> store_ok h s' \<and> \<not> Has s' i \<and> (\<forall>j. j = i \<or> GetRaw h s' j = GetRaw h s j)"
  proof (cases "Delete_obj s i")
    case (Inl e)
    then show ?thesis by (auto simp: Delete_obj_def Has_def rbind_eq_Inl)
  next
    case (Inr s')
    then show ?thesis using Delete_obj_ok(1-3) [OF assms(2) Inr] by auto
  qed
  show "case Get h s i of Inl e \<Rightarrow> True
      | Inr obj \<Rightarrow> wf_obj obj \<and> GetRaw h s i = Inr (Encode obj) \<and> Verify h i (Encode obj) = Inr True"
    using GetRaw_verified by (auto simp: Get_def rbind_eq_Inr Decode_iff split: sum.split)
qed

definition zero_hash :: hash_funs where
  "zero_hash = \<lparr>sha256_sum = (\<lambda>_. replicate 32 0), blake3_sum = (\<lambda>_. replicate 32 0)\<rparr>"

theorem store_well_typed_witness: "store_ok zero_hash (snd (PutRaw zero_hash Open_store [1, 2, 3]))"
proof -
  have "wf_hashes zero_hash" by (simp add: wf_hashes_def zero_hash_def)
  from store_well_typed [OF this store_ok_empty] show ?thesis by blast
qed

end
