(* ===== verification/Gc.thy ===== *)
theory Gc
  imports ObjStore Names
begin

text \<open>
  \<^verbatim>\<open>internal/gc\<close>: mark-and-sweep over the object store from the refs, the reflogs and the
  speculation pool. The recursive marking is written with its stack of pending
  identities explicit; it visits the same identities in the same order, and stops at the
  first unreadable object. The pool's candidates (\<^verbatim>\<open>spec.Pool.AllChanges\<close>) and the clock are
  parameters.
\<close>

record external_artifact =
  ea_contentHash :: "multihash option"
  ea_mediaType :: string
  ea_locators :: "string list"

record report =
  rp_roots :: nat
  rp_scanned :: nat
  rp_kept :: nat
  rp_deleted :: nat
  rp_deletedIDs :: "multihash list"
  rp_external :: "external_artifact list"

definition empty_report :: report where
  "empty_report = \<lparr>rp_roots = 0, rp_scanned = 0, rp_kept = 0, rp_deleted = 0, rp_deletedIDs = [], rp_external = []\<rparr>"

section \<open>Roots\<close>

definition ref_root :: "refstate \<Rightarrow> i64 \<Rightarrow> string \<Rightarrow> multihash list" where
  "ref_root rs now n =
     (if IsPinRef n \<and> (case pin_Parse n of None \<Rightarrow> False | Some (_, notAfter, _) \<Rightarrow> sint notAfter \<le> sint now)
      then []
      else case Resolve rs n of Inl _ \<Rightarrow> [] | Inr id' \<Rightarrow> [id'])"

definition entry_roots :: "log_entry \<Rightarrow> multihash list" where
  "entry_roots e = opt_list (l_old e) @ opt_list (l_new e)"

fun log_roots :: "refstate \<Rightarrow> string list \<Rightarrow> goerr + multihash list" where
  "log_roots rs [] = Inr []"
| "log_roots rs (n # ns) =
     rbind (ReadLog rs n) (\<lambda>entries.
     rbind (log_roots rs ns) (\<lambda>rest.
     Inr (concat (map entry_roots entries) @ rest)))"

definition Roots :: "refstate \<Rightarrow> i64 \<Rightarrow> (goerr + multihash list) option \<Rightarrow> goerr + multihash list" where
  "Roots rs now pool =
     (let roots = concat (map (ref_root rs now) (List_refs rs))
      in rbind (log_roots rs (LogNames rs)) (\<lambda>logged.
         case pool of
           None \<Rightarrow> Inr (roots @ logged)
         | Some changes \<Rightarrow> rbind changes (\<lambda>cs. Inr (roots @ logged @ cs))))"

section \<open>Mark\<close>

lemma Has_key: "Has s i \<Longrightarrow> Hex i \<in> set (map (snd \<circ> fst) (os_files s))"
  using Has_file [of s i] store_path_name [of i] by force

function mark_all :: "hash_funs \<Rightarrow> objstore \<Rightarrow> multihash list \<Rightarrow> string set \<Rightarrow> goerr + string set" where
  "mark_all h s [] live = Inr live"
| "mark_all h s (id' # stack) live =
     (if Hex id' \<in> live then mark_all h s stack live
      else if \<not> Has s id' then mark_all h s stack live
      else
        rbind (Get h s id') (\<lambda>obj.
        rbind (Links obj) (\<lambda>links.
        mark_all h s (links @ stack) (insert (Hex id') live))))"
  by pat_completeness auto
termination
proof (relation "measures [\<lambda>(h, s, stack, live). card (set (map (snd \<circ> fst) (os_files s)) - live),
    \<lambda>(h, s, stack, live). length stack]", goal_cases)
  case (4 h s id' stack live obj links)
  let ?K = "set (map (snd \<circ> fst) (os_files s))"
  have "Hex id' \<in> ?K - live" using 4 Has_key by blast
  then have "card (?K - insert (Hex id') live) < card (?K - live)"
    by (intro psubset_card_mono) auto
  then show ?case by simp
qed auto

section \<open>Sweep\<close>

definition classify :: "hash_funs \<Rightarrow> objstore \<Rightarrow> multihash \<Rightarrow> external_artifact list" where
  "classify h s id' =
     (case Get h s id' of
        Inl _ \<Rightarrow> []
      | Inr obj \<Rightarrow>
          if otyp obj \<noteq> TypeArtifactRef then []
          else (case AsArtifactRef obj of
                  Inl _ \<Rightarrow> []
                | Inr a \<Rightarrow> [\<lparr>ea_contentHash = ar_contentHash a, ea_mediaType = ar_mediaType a,
                            ea_locators = ar_locators a\<rparr>]))"

fun sweep :: "hash_funs \<Rightarrow> bool \<Rightarrow> multihash list \<Rightarrow> report \<Rightarrow> objstore \<Rightarrow> (report \<times> goerr option) \<times> objstore" where
  "sweep h dryRun [] rep s = ((rep, None), s)"
| "sweep h dryRun (id' # doomed) rep s =
     (let rep = rep\<lparr>rp_external := rp_external rep @ classify h s id'\<rparr>;
          rep' = rep\<lparr>rp_deleted := rp_deleted rep + 1, rp_deletedIDs := rp_deletedIDs rep @ [id']\<rparr>
      in if dryRun then sweep h dryRun doomed rep' s
         else (case Delete_obj s id' of
                 Inl e \<Rightarrow> ((rep, Some e), s)
               | Inr s' \<Rightarrow> sweep h dryRun doomed rep' s'))"

definition Collect_gc :: "hash_funs \<Rightarrow> refstate \<Rightarrow> i64 \<Rightarrow> (goerr + multihash list) option \<Rightarrow> bool \<Rightarrow> objstore
    \<Rightarrow> (report \<times> goerr option) \<times> objstore" where
  "Collect_gc h rs now pool dryRun s =
     (case Roots rs now pool of
        Inl e \<Rightarrow> ((empty_report, Some e), s)
      | Inr roots \<Rightarrow>
         (case mark_all h s roots {} of
            Inl e \<Rightarrow> ((empty_report, Some e), s)
          | Inr live \<Rightarrow>
             (let ids = Walk_ids s;
                  doomed = filter (\<lambda>id'. Hex id' \<notin> live) ids;
                  rep = empty_report\<lparr>rp_roots := length roots, rp_kept := card live, rp_scanned := length ids\<rparr>
              in sweep h dryRun doomed rep s)))"

section \<open>What marking reaches\<close>

inductive reachable :: "hash_funs \<Rightarrow> objstore \<Rightarrow> multihash set \<Rightarrow> multihash \<Rightarrow> bool"
  for h :: hash_funs and s :: objstore and R :: "multihash set" where
  root: "r \<in> R \<Longrightarrow> Has s r \<Longrightarrow> reachable h s R r"
| link: "reachable h s R x \<Longrightarrow> Get h s x = Inr obj \<Longrightarrow> Links obj = Inr ls \<Longrightarrow> y \<in> set ls \<Longrightarrow> Has s y
    \<Longrightarrow> reachable h s R y"

text \<open>Everything marked has its present links marked or pending.\<close>

definition traced :: "hash_funs \<Rightarrow> objstore \<Rightarrow> string set \<Rightarrow> multihash set \<Rightarrow> bool" where
  "traced h s live pending \<longleftrightarrow>
     (\<forall>x obj ls y. Hex x \<in> live \<longrightarrow> Get h s x = Inr obj \<longrightarrow> Links obj = Inr ls \<longrightarrow> y \<in> set ls \<longrightarrow> Has s y
        \<longrightarrow> Hex y \<in> live \<or> y \<in> pending)"

lemma mark_all_closed:
  "mark_all h s stack live = Inr live' \<Longrightarrow> traced h s live (set stack) \<Longrightarrow>
   live \<subseteq> live' \<and> (\<forall>i \<in> set stack. Has s i \<longrightarrow> Hex i \<in> live') \<and> traced h s live' {}"
proof (induction h s stack live rule: mark_all.induct)
  case (1 h s live)
  then show ?case by simp
next
  case (2 h s i stack live)
  show ?case
  proof (cases "Hex i \<in> live \<or> \<not> Has s i")
    case True
    have "traced h s live (set stack)"
      using 2(5) True unfolding traced_def by (metis Hex_inj set_ConsD)
    with True 2 show ?thesis by (auto split: if_splits)
  next
    case False
    then have "Hex i \<notin> live" "Has s i" by simp_all
    with 2(4) obtain obj ls where g: "Get h s i = Inr obj" "Links obj = Inr ls"
      and m: "mark_all h s (ls @ stack) (insert (Hex i) live) = Inr live'"
      by (auto simp: result_iffs)
    have "traced h s (insert (Hex i) live) (set (ls @ stack))"
      using 2(5) g unfolding traced_def by auto
    with 2(3) [OF _ _ g m] False show ?thesis by auto
  qed
qed

lemma mark_all_sound:
  "mark_all h s stack live = Inr live' \<Longrightarrow> (\<forall>i \<in> set stack. Has s i \<longrightarrow> reachable h s R i) \<Longrightarrow>
   \<forall>k \<in> live. \<exists>i. k = Hex i \<and> reachable h s R i \<Longrightarrow>
   \<forall>k \<in> live'. \<exists>i. k = Hex i \<and> reachable h s R i"
proof (induction h s stack live rule: mark_all.induct)
  case (1 h s live)
  then show ?case by simp
next
  case (2 h s i stack live)
  show ?case
  proof (cases "Hex i \<in> live \<or> \<not> Has s i")
    case True
    with 2 show ?thesis by (auto split: if_splits)
  next
    case False
    then have "Hex i \<notin> live" "Has s i" by simp_all
    with 2(4) obtain obj ls where g: "Get h s i = Inr obj" "Links obj = Inr ls"
      and m: "mark_all h s (ls @ stack) (insert (Hex i) live) = Inr live'"
      by (auto simp: result_iffs)
    have r: "reachable h s R i" using 2(5) \<open>Has s i\<close> by simp
    then have "\<forall>j \<in> set (ls @ stack). Has s j \<longrightarrow> reachable h s R j"
      using 2(5) reachable.link [OF r g] by auto
    moreover have "\<forall>k \<in> insert (Hex i) live. \<exists>j. k = Hex j \<and> reachable h s R j"
      using 2(6) r by auto
    ultimately show ?thesis using 2(3) [OF _ _ g m] False by blast
  qed
qed

lemma mark_all_reachable:
  assumes "mark_all h s roots {} = Inr live"
  shows "Hex i \<in> live \<longleftrightarrow> reachable h s (set roots) i"
proof
  assume "reachable h s (set roots) i"
  moreover have c: "\<forall>i \<in> set roots. Has s i \<longrightarrow> Hex i \<in> live" "traced h s live {}"
    using mark_all_closed [OF assms] by (simp_all add: traced_def)
  ultimately show "Hex i \<in> live"
  proof induction
    case (root r)
    then show ?case by simp
  next
    case (link x obj ls y)
    then show ?case unfolding traced_def by blast
  qed
next
  assume "Hex i \<in> live"
  have "\<forall>i \<in> set roots. Has s i \<longrightarrow> reachable h s (set roots) i" by (auto intro: reachable.root)
  from mark_all_sound [OF assms this] \<open>Hex i \<in> live\<close> show "reachable h s (set roots) i" by auto
qed

lemma reachable_Has: "reachable h s R i \<Longrightarrow> Has s i"
  by (induction rule: reachable.induct)

section \<open>What sweeping removes\<close>

lemma sweep_ok:
  "store_ok h s \<Longrightarrow> \<forall>i \<in> set doomed. Has s i \<Longrightarrow> distinct doomed \<Longrightarrow>
   sweep h False doomed rep s = ((rep', e), s') \<Longrightarrow>
   e = None \<and> store_ok h s' \<and> (\<forall>i. Has s' i \<longleftrightarrow> Has s i \<and> i \<notin> set doomed) \<and>
   (\<forall>i. i \<notin> set doomed \<longrightarrow> GetRaw h s' i = GetRaw h s i) \<and>
   rp_deletedIDs rep' = rp_deletedIDs rep @ doomed \<and> rp_deleted rep' = rp_deleted rep + length doomed \<and>
   rp_scanned rep' = rp_scanned rep \<and> rp_kept rep' = rp_kept rep"
proof (induction doomed arbitrary: rep s)
  case Nil
  then show ?case by simp
next
  case (Cons i doomed)
  have "Has s i" using Cons.prems by simp
  then obtain p where "store_path i = Inr p" using Has_file by blast
  then obtain s1 where d: "Delete_obj s i = Inr s1" by (simp add: Delete_obj_def)
  note d1 = Delete_obj_ok [OF Cons.prems(1) d]
  have "\<forall>j \<in> set doomed. Has s1 j"
  proof
    fix j assume j: "j \<in> set doomed"
    with Cons.prems(3) have "j \<noteq> i" by auto
    with d1(4) Cons.prems(2) j show "Has s1 j" by simp
  qed
  with Cons.IH [OF d1(1)] Cons.prems d d1 show ?case by (fastforce simp: Let_def)
qed

lemma sweep_dry: "sweep h True doomed rep s = ((rep', e), s') \<Longrightarrow> s' = s \<and> e = None \<and>
    rp_deletedIDs rep' = rp_deletedIDs rep @ doomed"
  by (induction doomed arbitrary: rep) (simp_all add: Let_def)

lemma distinct_Walk_ids:
  assumes "store_ok h s"
  shows "distinct (Walk_ids s)"
proof -
  let ?ks = "sort_key (\<lambda>(shard, name). [shard, name]) (map fst (os_files s))"
  let ?f = "\<lambda>(shard, name). if has_prefix name ''.tmp-'' then []
      else (case ParseHex name of Inl _ \<Rightarrow> [] | Inr id' \<Rightarrow> [id'])"
  have f: "?f k = [hd (?f k)] \<and> store_path (hd (?f k)) = Inr k" if "k \<in> set ?ks" for k
  proof -
    obtain sh n where k: "k = (sh, n)" by (cases k)
    from that k obtain b where "((sh, n), b) \<in> set (os_files s)" by auto
    then obtain i where i: "store_path i = Inr (sh, n)" using assms unfolding store_ok_def by blast
    have n: "n = Hex i" using store_path_name [OF i] by simp
    obtain cd where "mh_decode i = Inr cd" using store_path_valid [OF i] by blast
    then have "ParseHex n = Inr i" using n ParseHex_Hex by simp
    moreover have "\<not> has_prefix n ''.tmp-''" using n Hex_no_tmp by simp
    ultimately show ?thesis using k i by simp
  qed
  have "map ?f ?ks = map (\<lambda>k. [hd (?f k)]) ?ks"
    by (rule map_cong [OF refl]) (use f in blast)
  then have "Walk_ids s = concat (map (\<lambda>k. [hd (?f k)]) ?ks)" by (simp only: Walk_ids_def)
  then have w: "Walk_ids s = map (\<lambda>k. hd (?f k)) ?ks" by simp
  have "inj_on (\<lambda>k. hd (?f k)) (set ?ks)"
    using f by (intro inj_onI) (metis (no_types, lifting) Inr_inject)
  moreover have "distinct ?ks" using assms by (simp add: store_ok_def)
  ultimately show ?thesis unfolding w by (simp only: distinct_map)
qed

section \<open>Collection\<close>

lemma log_roots_member:
  "log_roots rs ns = Inr ids \<Longrightarrow> n \<in> set ns \<Longrightarrow> ReadLog rs n = Inr es \<Longrightarrow> e \<in> set es \<Longrightarrow>
   set (entry_roots e) \<subseteq> set ids"
  by (induction ns arbitrary: ids) (auto simp: result_iffs)

lemma entry_roots_set: "set (entry_roots e) = set_option (l_old e) \<union> set_option (l_new e)"
  by (simp add: entry_roots_def)

lemma Roots_logged:
  assumes "refs_ok rs" "Roots rs now pool = Inr roots" "e \<in> set (log_of rs n)"
  shows "set_option (l_old e) \<union> set_option (l_new e) \<subseteq> set roots"
proof -
  obtain es where es: "ReadLog rs n = Inr es" "e \<in> set es"
    using assms(3) by (cases "ReadLog rs n") (auto simp: log_of_def)
  have "contents (rs_logs rs) n \<noteq> None"
    using assms(1) es by (cases rule: ReadLog_entries [OF assms(1) es(1)]) auto
  then have n: "n \<in> set (LogNames rs)"
    using assms(1) by (simp add: LogNames_def set_fs_walk refs_ok_def)
  obtain logged where l: "log_roots rs (LogNames rs) = Inr logged"
    using assms(2) by (auto simp: Roots_def Let_def result_iffs)
  then have "set logged \<subseteq> set roots"
    using assms(2) by (cases pool) (auto simp: Roots_def Let_def result_iffs)
  with log_roots_member [OF l n es] show ?thesis unfolding entry_roots_set by blast
qed

lemma Collect_exact:
  assumes ok: "store_ok h s" and run: "Collect_gc h rs now pool False s = ((rep, None), s')"
  shows "\<exists>roots. Roots rs now pool = Inr roots \<and> store_ok h s' \<and>
    (\<forall>i. Has s' i \<longleftrightarrow> reachable h s (set roots) i) \<and>
    (\<forall>i. Has s' i \<longrightarrow> GetRaw h s' i = GetRaw h s i) \<and>
    set (rp_deletedIDs rep) = {i. Has s i \<and> \<not> reachable h s (set roots) i} \<and>
    rp_scanned rep = rp_kept rep + rp_deleted rep"
proof -
  from run obtain roots live where r: "Roots rs now pool = Inr roots" and m: "mark_all h s roots {} = Inr live"
    and sw: "sweep h False (filter (\<lambda>i. Hex i \<notin> live) (Walk_ids s))
      (empty_report\<lparr>rp_roots := length roots, rp_kept := card live, rp_scanned := length (Walk_ids s)\<rparr>) s
        = ((rep, None), s')"
    by (auto simp: Collect_gc_def Let_def split: sum.splits)
  let ?doomed = "filter (\<lambda>i. Hex i \<notin> live) (Walk_ids s)"
  note reach = mark_all_reachable [OF m]
  have doomed: "set ?doomed = {i. Has s i \<and> \<not> reachable h s (set roots) i}"
    using set_Walk_ids [OF ok] reach by auto
  have dist: "distinct (Walk_ids s)" by (rule distinct_Walk_ids [OF ok])
  then have "\<forall>i \<in> set ?doomed. Has s i" "distinct ?doomed" using doomed by auto
  note w = sweep_ok [OF ok this sw]
  have live: "live = Hex ` {i. reachable h s (set roots) i}"
    using mark_all_sound [OF m, of "set roots"] reach by (auto intro: reachable.root)
  have "card live = card {i. reachable h s (set roots) i}"
    unfolding live by (rule card_image) (auto intro: inj_onI)
  also have "\<dots> = length (filter (\<lambda>i. Hex i \<in> live) (Walk_ids s))"
  proof -
    have "set (filter (\<lambda>i. Hex i \<in> live) (Walk_ids s)) = {i. reachable h s (set roots) i}"
      using set_Walk_ids [OF ok] reach reachable_Has by auto
    with distinct_card [of "filter (\<lambda>i. Hex i \<in> live) (Walk_ids s)"] dist show ?thesis by simp
  qed
  finally have "length (Walk_ids s) = card live + length ?doomed"
    using sum_length_filter_compl [of "\<lambda>i. Hex i \<in> live" "Walk_ids s"] by simp
  then show ?thesis
    using r w doomed reachable_Has [of h s "set roots"]
    by (intro exI [of _ roots]) (auto simp: empty_report_def)
qed

lemma Collect_success:
  assumes "store_ok h s" "Roots rs now pool = Inr roots" "mark_all h s roots {} = Inr live"
    "Collect_gc h rs now pool False s = ((rep, err), s')"
  shows "err = None"
proof -
  let ?doomed = "filter (\<lambda>i. Hex i \<notin> live) (Walk_ids s)"
  have "\<forall>i \<in> set ?doomed. Has s i" "distinct ?doomed"
    using set_Walk_ids [OF assms(1)] distinct_Walk_ids [OF assms(1)] by auto
  from sweep_ok [OF assms(1) this] assms(2-4) show ?thesis
    by (auto simp: Collect_gc_def Let_def)
qed

lemma Collect_error:
  assumes "store_ok h s" "Collect_gc h rs now pool dryRun s = ((rep, Some e), s')"
  shows "s' = s"
proof (cases dryRun)
  case True
  with assms(2) show ?thesis by (auto simp: Collect_gc_def Let_def split: sum.splits dest: sweep_dry)
next
  case False
  have "s' = s" if "sweep h False (filter (\<lambda>i. Hex i \<notin> live) (Walk_ids s)) rep0 s = ((rep, Some e), s')" for live rep0
    using sweep_ok [OF assms(1) _ _ that] set_Walk_ids [OF assms(1)] distinct_Walk_ids [OF assms(1)] by simp
  with assms(2) False show ?thesis by (auto simp: Collect_gc_def Let_def split: sum.splits)
qed

section \<open>Properties\<close>


definition zero_hash :: hash_funs where
  "zero_hash = \<lparr>sha256_sum = \<lambda>_. replicate 32 0, blake3_sum = \<lambda>_. replicate 32 0\<rparr>"

lemma Roots_empty [simp]: "Roots empty_refs now None = Inr []"
  by (simp add: Roots_def List_refs_def LogNames_def empty_refs_def empty_ftree_def fs_walk_def)


text \<open>Undo survives collection: every value recorded in a reflog, old or new, that is in
  the store when a collection runs is in the store afterwards, with the same bytes.\<close>

theorem gc_keeps_reflog:
  assumes "store_ok h s" and "refs_ok rs" and "Collect_gc h rs now pool dryRun s = ((rep, err), s')"
    and "e \<in> set (log_of rs n)" and "l_old e = Some v \<or> l_new e = Some v" and "Has s v"
  shows "Has s' v \<and> GetRaw h s' v = GetRaw h s v"
proof (cases "err = None \<and> \<not> dryRun")
  case True
  with assms(3) have "Collect_gc h rs now pool False s = ((rep, None), s')" by simp
  from Collect_exact [OF assms(1) this] obtain roots where r: "Roots rs now pool = Inr roots"
    "\<And>i. Has s' i \<longleftrightarrow> reachable h s (set roots) i" "\<And>i. Has s' i \<Longrightarrow> GetRaw h s' i = GetRaw h s i"
    by metis
  have "v \<in> set roots" using Roots_logged [OF assms(2) r(1) assms(4)] assms(5) by auto
  then have "reachable h s (set roots) v" using assms(6) by (rule reachable.root)
  with r show ?thesis by simp
next
  case False
  then have "s' = s"
    using assms(3) Collect_error [OF assms(1), of rs now pool dryRun]
    by (cases err) (auto simp: Collect_gc_def Let_def split: sum.splits dest: sweep_dry)
  with assms(6) show ?thesis by simp
qed

theorem gc_keeps_reflog_witness:
  "\<exists>i s e. Put zero_hash Open_store (blob_obj [1]) = (Inr i, s) \<and> l_old e = Some i \<and>
     Has (snd (Collect_gc zero_hash (one_log ''m'' [e]) 0 None False s)) i"
proof -
  have wf: "wf_hashes zero_hash" by (simp add: wf_hashes_def zero_hash_def)
  obtain i s where p: "PutRaw zero_hash Open_store (Encode (blob_obj [1])) = (Inr i, s)"
    by (rule PutRaw_total [OF wf, of Open_store "Encode (blob_obj [1])"]) (simp add: Open_store_def)
  note p1 = PutRaw_ok [OF wf store_ok_empty p]
  have "\<not> Has Open_store i" by (simp add: Has_def Open_store_def split: sum.split)
  then have has: "Has s i" using p1(4) Has_GetRaw [OF p1(1)] by auto
  let ?e = "\<lparr>l_old = Some i, l_new = None, l_ns = 1, l_actor = ''a'', l_message = ''x''\<rparr>"
  have i: "i = mh_encode Default (replicate 32 0)"
    using PutRaw_cases [OF wf p] by (auto simp: Sum_def registry_def zero_hash_def Open_store_def
        Default_def BLAKE3_def SHA2_256_def)
  have "mh_decode i = Inr (Default, replicate 32 0)" by (simp add: mh_decode_iff i fits64_def)
  moreover have "length i = 34"
    by (simp add: i mh_encode_def appendUvarint_small Default_def BLAKE3_def len64_def)
  ultimately have e: "\<forall>e \<in> set [?e]. wf_log_entry e"
    by (simp add: wf_log_entry_def valid_hash_def log_line_def hexOrZero_def sanitizeActor_def
        sanitizeMessage_def replace_char_def FormatInt_def digits_of_small max_token_def)
  note ok = one_log_ok [where n = "''m''", OF _ e]
  have "read_entry ?e = ?e"
    by (simp add: read_entry_def sanitizeActor_def sanitizeMessage_def replace_char_def drop_cr_def)
  then have "ReadLog (one_log ''m'' [?e]) ''m'' = Inr [?e]"
    using ok(4) by (simp add: ValidName_def has_prefix_def has_suffix_def)
  then have logged: "?e \<in> set (log_of (one_log ''m'' [?e]) ''m'')" by (simp add: log_of_def)
  obtain rep err s' where "Collect_gc zero_hash (one_log ''m'' [?e]) 0 None False s = ((rep, err), s')"
    by (metis prod.exhaust)
  from gc_keeps_reflog [OF p1(1) _ this logged _ has] ok(1) this
  have "Has (snd (Collect_gc zero_hash (one_log ''m'' [?e]) 0 None False s)) i" by simp
  with p show ?thesis by (intro exI [of _ i] exI [of _ s] exI [of _ ?e]) (simp add: Put_def)
qed

text \<open>Collection loses environments of live evidence: the links of a provenance record
  leave out the environment it was produced in, so an environment descriptor that only
  provenance records name is deleted although the records, and their environment class,
  remain.\<close>

theorem gc_drops_environment:
  assumes "store_ok h s" and "Collect_gc h rs now pool False s = ((rep, None), s')"
    and "Roots rs now pool = Inr roots" and "env \<notin> set roots"
    and "\<forall>x obj ls. Get h s x = Inr obj \<longrightarrow> Links obj = Inr ls \<longrightarrow> otyp obj = TypeProvenance \<or> env \<notin> set ls"
  shows "\<not> Has s' env \<and>
     (\<forall>x obj. reachable h s (set roots) x \<longrightarrow> Get h s x = Inr obj \<longrightarrow> Get h s' x = Inr obj)"
proof -
  obtain roots' where r: "Roots rs now pool = Inr roots'"
    "\<And>i. Has s' i \<longleftrightarrow> reachable h s (set roots') i" "\<And>i. Has s' i \<Longrightarrow> GetRaw h s' i = GetRaw h s i"
    using Collect_exact [OF assms(1,2)] by metis
  have same: "roots' = roots" using r(1) assms(3) by simp
  have "x \<noteq> env" if "reachable h s (set roots) x" for x
    using that
  proof induction
    case (root y)
    with assms(4) show ?case by blast
  next
    case (link x obj ls y)
    have "Links obj = Inr []" if "otyp obj = TypeProvenance"
      using that by (simp add: Links_def type_defs)
    with link assms(5) show ?case by fastforce
  qed
  with r same show ?thesis by (auto simp: Get_def)
qed

definition two_hash :: "byte list \<Rightarrow> hash_funs" where
  "two_hash x = \<lparr>sha256_sum = \<lambda>_. replicate 32 0,
     blake3_sum = \<lambda>b. if b = x then replicate 32 1 else replicate 32 0\<rparr>"

lemma wf_two_hash [simp]: "wf_hashes (two_hash x)"
  by (simp add: wf_hashes_def two_hash_def)

lemma Sum_two_hash: "Sum (two_hash x) Default b = Inr (mh_encode Default (if b = x then replicate 32 1 else replicate 32 0))"
  by (simp add: Sum_def registry_def two_hash_def Default_def BLAKE3_def SHA2_256_def)

lemma mh_encode_32_ne: "mh_encode c (replicate 32 (1 :: byte)) \<noteq> mh_encode c (replicate 32 0)"
  using mh_encode_inj [of "replicate 32 1" "replicate 32 0" c c] by (auto simp: fits64_def)

text \<open>Two objects under two different identities.\<close>

lemma two_objects:
  assumes "y \<noteq> x"
  defines "ix \<equiv> mh_encode Default (replicate 32 1)" and "iy \<equiv> mh_encode Default (replicate 32 0)"
  obtains s where "store_ok (two_hash x) s"
    "GetRaw (two_hash x) s ix = Inr x" "GetRaw (two_hash x) s iy = Inr y"
    "\<And>j b. GetRaw (two_hash x) s j = Inr b \<Longrightarrow> j = ix \<or> j = iy"
proof -
  let ?h = "two_hash x"
  have ne: "ix \<noteq> iy" unfolding ix_def iy_def by (rule mh_encode_32_ne)
  have a0: "os_algo Open_store = Default" by (simp add: Open_store_def)
  have none: "\<not> Has Open_store j" "GetRaw ?h Open_store j \<noteq> Inr b" for j b
    by (auto simp: Has_def GetRaw_iff Open_store_def split: sum.split)
  obtain i s1 where p: "PutRaw ?h Open_store x = (Inr i, s1)"
    using PutRaw_total [OF wf_two_hash a0] by metis
  then have i: "i = ix" using PutRaw_cases [OF wf_two_hash p] by (auto simp: a0 Sum_two_hash ix_def)
  note p1 = PutRaw_ok [OF wf_two_hash store_ok_empty p, unfolded i]
  have a1: "os_algo s1 = Default" using p1(3) a0 by simp
  obtain k s2 where q: "PutRaw ?h s1 y = (Inr k, s2)"
    using PutRaw_total [OF wf_two_hash a1] by metis
  then have k: "k = iy" using PutRaw_cases [OF wf_two_hash q] assms(1) by (auto simp: a1 Sum_two_hash iy_def)
  note q1 = PutRaw_ok [OF wf_two_hash p1(1) q, unfolded k]
  have "\<not> Has s1 iy" using p1(5) [of iy] ne none Has_GetRaw [OF p1(1)] by metis
  show thesis
  proof (rule that [of s2])
    show "store_ok ?h s2" by (rule q1(1))
    show "GetRaw ?h s2 ix = Inr x" using q1(5) [OF ne] p1(4) none by simp
    show "GetRaw ?h s2 iy = Inr y" using q1(4) \<open>\<not> Has s1 iy\<close> by simp
    show "j = ix \<or> j = iy" if "GetRaw ?h s2 j = Inr b" for j b
      using that q1(5) [of j] p1(5) [of j] none by metis
  qed
qed

theorem gc_drops_environment_witness:
  "\<exists>h s env pid p rep s'. Get h s pid = Inr (prov_obj p) \<and> pv_environment p = Some env \<and> Has s env \<and>
     Collect_gc h empty_refs 0 (Some (Inr [pid])) False s = ((rep, None), s') \<and>
     Get h s' pid = Inr (prov_obj p) \<and> \<not> Has s' env"
proof -
  let ?e = "\<lparr>en_platform = ''linux'', en_toolchains = [], en_flags = [], en_container = None, en_model = None\<rparr>"
  let ?E = "Encode (environment_obj ?e)"
  let ?h = "two_hash ?E"
  let ?env = "mh_encode Default (replicate 32 1)" and ?pid = "mh_encode Default (replicate 32 0)"
  let ?p = "\<lparr>pv_authority = [], pv_model = [], pv_modelVersion = [], pv_sampling = [],
      pv_toolPermissions = [], pv_toolHash = None, pv_taskSpec = [], pv_contextRead = [],
      pv_reasoning = [], pv_environment = Some ?env, pv_scope = []\<rparr>"
  have lenv: "length ?env = 34"
    by (simp add: mh_encode_def appendUvarint_small Default_def BLAKE3_def len64_def)
  have wfo: "wf_obj (prov_obj ?p)" "wf_obj (environment_obj ?e)"
    unfolding prov_obj_def environment_obj_def
    by (rule wf_mkobj; simp add: prov_fields_def environment_fields_def opt_field_def str_field_def
        fits64_def max_alloc_def lenv)+
  have "prov_obj ?p \<noteq> environment_obj ?e"
    by (auto dest: arg_cong [where f = otyp] simp: prov_obj_def environment_obj_def type_defs)
  then have "Encode (prov_obj ?p) \<noteq> ?E" using Encode_inj [OF wfo] by blast
  then obtain s where ok: "store_ok ?h s" and ge: "GetRaw ?h s ?env = Inr ?E"
    and gp: "GetRaw ?h s ?pid = Inr (Encode (prov_obj ?p))"
    and only: "\<And>j b. GetRaw ?h s j = Inr b \<Longrightarrow> j = ?env \<or> j = ?pid"
    using two_objects by blast
  have get: "Get ?h s ?pid = Inr (prov_obj ?p)" "Get ?h s ?env = Inr (environment_obj ?e)"
    using ge gp wfo by (simp_all add: Get_def)
  have has: "Has s ?env" "Has s ?pid" using ge gp Has_GetRaw [OF ok] by auto
  have lp: "Links (prov_obj ?p) = Inr []" by (simp add: Links_def prov_obj_def type_defs)
  have "AsEnvironment (environment_obj ?e) = Inr (canonical_env ?e)"
    by (rule AsEnvironment_environment) (simp_all add: gomap_ok_def)
  then have le: "Links (environment_obj ?e) = Inr []"
    by (simp add: Links_def canonical_env_def canonical_hash_def)
      (simp add: environment_obj_def type_defs)
  have roots: "Roots empty_refs 0 (Some (Inr [?pid])) = Inr [?pid]"
    by (simp add: Roots_def List_refs_def LogNames_def empty_refs_def empty_ftree_def fs_walk_def)
  have "mark_all ?h s [?pid] {} = Inr {Hex ?pid}"
    using has get lp by simp
  moreover obtain rep err s' where c: "Collect_gc ?h empty_refs 0 (Some (Inr [?pid])) False s = ((rep, err), s')"
    by (metis prod.exhaust)
  ultimately have "err = None" by (rule Collect_success [OF ok roots])
  have 1: "?env \<notin> set [?pid]" using mh_encode_32_ne by simp
  have 2: "\<forall>x obj ls. Get ?h s x = Inr obj \<longrightarrow> Links obj = Inr ls \<longrightarrow> otyp obj = TypeProvenance \<or> ?env \<notin> set ls"
  proof (intro allI impI)
    fix x obj ls
    assume "Get ?h s x = Inr obj" "Links obj = Inr ls"
    then have "x = ?env \<or> x = ?pid" using only by (auto simp: Get_def result_iffs)
    with \<open>Get ?h s x = Inr obj\<close> get \<open>Links obj = Inr ls\<close> le lp
    show "otyp obj = TypeProvenance \<or> ?env \<notin> set ls" by auto
  qed
  have "reachable ?h s (set [?pid]) ?pid" using has(2) by (intro reachable.root) simp
  with gc_drops_environment [OF ok c [unfolded \<open>err = None\<close>] roots 1 2] get(1)
  have "\<not> Has s' ?env" "Get ?h s' ?pid = Inr (prov_obj ?p)" by blast+
  moreover have "pv_environment ?p = Some ?env" by simp
  ultimately show ?thesis using get(1) has(1) c \<open>err = None\<close> by blast
qed

end
