(* ===== verification/Notes.thy ===== *)
theory Notes
  imports Gc
begin

text \<open>
  \<^verbatim>\<open>internal/notes\<close>: metadata attached to an object without touching it. A note is an object
  that points at the note before it, and a ref per (namespace, target) holds the newest.
  The repository is the pair of its object store and its ref store. Following a chain of
  parents may in principle not end, so \<^verbatim>\<open>List\<close> is a partial function whose value \<open>None\<close> is
  a loop that does not return.
\<close>

record repo =
  r_objects :: objstore
  r_refs :: refstate

definition validNamespace :: "string \<Rightarrow> goerr + unit" where
  "validNamespace namespace =
     (if namespace = [] then Inl (Plain ''notes: invalid namespace: empty'')
      else if has_prefix namespace ''/'' \<or> has_suffix namespace ''/'' then
        Inl (Plain ''notes: invalid namespace: leading/trailing slash'')
      else if list_ex (\<lambda>seg. seg = [] \<or> seg = ''.'' \<or> seg = ''..'') (split_on CHR ''/'' namespace) then
        Inl (Plain ''notes: invalid namespace: bad segment'')
      else if list_ex (list_ex (\<lambda>c. c = CHR 0x5C \<or> c = CHR '' '' \<or> c = tab \<or> c = CHR 0x00))
                (split_on CHR ''/'' namespace) then
        Inl (Plain ''notes: invalid namespace: illegal character'')
      else Inr ())"

definition note_refName :: "string \<Rightarrow> multihash \<Rightarrow> goerr + string" where
  "note_refName namespace target =
     rbind (validNamespace namespace) (\<lambda>_.
     Inr (''refs/notes/'' @ namespace @ ''/'' @ Hex target))"

definition Add_note :: "hash_funs \<Rightarrow> repo \<Rightarrow> i64 \<Rightarrow> string \<Rightarrow> multihash \<Rightarrow> byte list \<Rightarrow> string \<Rightarrow> i64
    \<Rightarrow> (goerr + multihash) \<times> repo" where
  "Add_note h r clock namespace target payload author now =
     (case note_refName namespace target of
        Inl e \<Rightarrow> (Inl e, r)
      | Inr name \<Rightarrow>
         (let parent = (case Resolve (r_refs r) name of Inl _ \<Rightarrow> None | Inr cur \<Rightarrow> Some cur)
          in case NewNote \<lparr>n_target = nil_if_empty target, n_namespace = namespace, n_payload = payload,
                           n_parent = parent, n_timestamp = now, n_author = author\<rparr> of
               Inl e \<Rightarrow> (Inl e, r)
             | Inr obj \<Rightarrow>
                 (case Put h (r_objects r) obj of
                    (Inl e, os) \<Rightarrow> (Inl e, r\<lparr>r_objects := os\<rparr>)
                  | (Inr id', os) \<Rightarrow>
                      (case CompareAndSwap (r_refs r) clock name parent (Some id') author (''note:'' @ namespace) of
                         (Inl e, rs) \<Rightarrow> (Inl e, r\<lparr>r_objects := os, r_refs := rs\<rparr>)
                       | (Inr _, rs) \<Rightarrow> (Inr id', r\<lparr>r_objects := os, r_refs := rs\<rparr>)))))"

partial_function (option) note_chain ::
  "hash_funs \<Rightarrow> objstore \<Rightarrow> multihash option \<Rightarrow> (goerr + (multihash \<times> note_rec) list) option" where
  "note_chain h s m =
     (case m of
        None \<Rightarrow> Some (Inr [])
      | Some id' \<Rightarrow>
         (case rbind (Get h s id') AsNote of
            Inl e \<Rightarrow> Some (Inl e)
          | Inr n \<Rightarrow>
              Option.bind (note_chain h s (n_parent n)) (\<lambda>rest.
              Some (rbind rest (\<lambda>out. Inr ((id', n) # out))))))"

definition List_notes :: "hash_funs \<Rightarrow> repo \<Rightarrow> string \<Rightarrow> multihash
    \<Rightarrow> (goerr + (multihash \<times> note_rec) list) option" where
  "List_notes h r namespace target =
     (case note_refName namespace target of
        Inl e \<Rightarrow> Some (Inl e)
      | Inr name \<Rightarrow>
         (case Resolve (r_refs r) name of
            Inl _ \<Rightarrow> Some (Inr [])
          | Inr head \<Rightarrow> note_chain h (r_objects r) (Some head)))"

definition Namespaces :: "repo \<Rightarrow> multihash \<Rightarrow> string list" where
  "Namespaces r target =
     (let suffix = ''/'' @ Hex target; prefix = ''refs/notes/''
      in map (\<lambda>n. let t = drop (length prefix) n in take (length t - length suffix) t)
           (filter (\<lambda>n. has_prefix n prefix \<and> has_suffix n suffix) (List_refs (r_refs r))))"

lemmas note_chain_simps [simp] = note_chain.simps [of _ _ None, simplified]

lemma note_chain_Some:
  "note_chain h s (Some i) =
     (case rbind (Get h s i) AsNote of
        Inl e \<Rightarrow> Some (Inl e)
      | Inr n \<Rightarrow> Option.bind (note_chain h s (n_parent n)) (\<lambda>rest. Some (rbind rest (\<lambda>out. Inr ((i, n) # out)))))"
  by (subst note_chain.simps) simp

text \<open>A chain that was read once is read the same in any store that has kept its objects.\<close>

lemma note_chain_mono:
  assumes keep: "\<And>i b. GetRaw h s i = Inr b \<Longrightarrow> GetRaw h s' i = Inr b"
  shows "note_chain h s m = Some (Inr out) \<Longrightarrow> note_chain h s' m = Some (Inr out)"
proof (induction out arbitrary: m)
  case Nil
  then show ?case
    by (cases m) (auto simp: note_chain_Some rbind_def split: sum.splits Option.bind_splits)
next
  case (Cons p out)
  obtain i n where m: "m = Some i" and g: "rbind (Get h s i) AsNote = Inr n"
    and c: "note_chain h s (n_parent n) = Some (Inr out)" and p: "p = (i, n)"
    using Cons.prems
    by (cases m) (auto simp: note_chain_Some rbind_def split: sum.splits Option.bind_splits)
  from g obtain b where "GetRaw h s i = Inr b" "rbind (Decode b) AsNote = Inr n"
    by (auto simp: Get_def result_iffs)
  with keep have "rbind (Get h s' i) AsNote = Inr n" by (auto simp: Get_def)
  with Cons.IH [OF c] m p show ?case by (simp add: note_chain_Some)
qed

text \<open>A swap that succeeded leaves the new value in the ref.\<close>

lemma cas_stored:
  assumes "refs_ok s" "CompareAndSwap s now n old (Some v) actor msg = (Inr u, s')"
  shows "current s n = old" and "Resolve s' n = Inr v"
proof -
  let ?c = "\<lparr>co_name = n, co_old = old, co_new = Some v, co_now = now, co_actor = actor, co_msg = msg\<rparr>"
  have "cas s ?c = (Inr (), s')" using assms(2) by (simp add: cas_def)
  then obtain s1 where v: "ValidName n = Inr ()" and o: "current s n = old" and m: "moved s n (Some v) = Inr s1"
    and a: "appendLog s1 now n old (Some v) actor msg = (Inr (), s')"
    by (rule cas_cases) auto
  note m1 = moved_ok [OF assms(1) m]
  show "current s n = old" by (rule o)
  have "rs_refs s' = rs_refs s1" using a by (auto simp: appendLog_def Let_def split: sum.splits)
  then have "readRef s' n = readRef s1 n" by (simp add: readRef_def)
  moreover have "readRef s1 n = Inr v"
    using m1(2) readRef_iff [OF m1(1), of n v] current_iff [OF m1(1), of n v] by simp
  ultimately show "Resolve s' n = Inr v" using v by (simp add: Resolve_def)
qed

lemma Add_note_cases:
  assumes "Add_note h r clock namespace target payload author now = (Inr i, r')"
  obtains name parent os u where "note_refName namespace target = Inr name"
    "parent = (case Resolve (r_refs r) name of Inl _ \<Rightarrow> None | Inr cur \<Rightarrow> Some cur)"
    "PutRaw h (r_objects r) (Encode (note_obj \<lparr>n_target = nil_if_empty target, n_namespace = namespace,
        n_payload = payload, n_parent = parent, n_timestamp = now, n_author = author\<rparr>)) = (Inr i, os)"
    "CompareAndSwap (r_refs r) clock name parent (Some i) author (''note:'' @ namespace) = (Inr u, r_refs r')"
    "r_objects r' = os"
  using assms
  by (auto simp: Add_note_def NewNote_eq Put_def Let_def split: sum.splits prod.splits)

text \<open>Adding a note puts it in front of the notes there were.\<close>

lemma note_added:
  assumes "wf_hashes h" and "store_ok h (r_objects r)" and "refs_ok (r_refs r)"
    and "List_notes h r namespace target = Some (Inr out)"
    and "Add_note h r clock namespace target payload author now = (Inr i, r')"
    and "\<not> Has (r_objects r) i" and "\<forall>(j, n) \<in> set out. fits64 j"
    and "fits64 target" and "fits64 namespace" and "fits64 payload" and "fits64 author"
  shows "\<exists>n. List_notes h r' namespace target = Some (Inr ((i, n) # out)) \<and>
     n_payload n = payload \<and> n_author n = author \<and> n_target n = nil_if_empty target \<and>
     (\<forall>j b. GetRaw h (r_objects r) j = Inr b \<longrightarrow> GetRaw h (r_objects r') j = Inr b)"
proof -
  obtain name parent os u where name: "note_refName namespace target = Inr name"
    and parent: "parent = (case Resolve (r_refs r) name of Inl _ \<Rightarrow> None | Inr cur \<Rightarrow> Some cur)"
    and put: "PutRaw h (r_objects r) (Encode (note_obj \<lparr>n_target = nil_if_empty target, n_namespace = namespace,
        n_payload = payload, n_parent = parent, n_timestamp = now, n_author = author\<rparr>)) = (Inr i, os)"
    and cas: "CompareAndSwap (r_refs r) clock name parent (Some i) author (''note:'' @ namespace) = (Inr u, r_refs r')"
    and os: "r_objects r' = os"
    using Add_note_cases [OF assms(5)] .
  let ?n = "\<lparr>n_target = nil_if_empty target, n_namespace = namespace,
        n_payload = payload, n_parent = parent, n_timestamp = now, n_author = author\<rparr>"
  have keep: "GetRaw h os j = Inr b" if "GetRaw h (r_objects r) j = Inr b" for j b
    using PutRaw_keeps [OF assms(1,2) put that] .
  have chain: "note_chain h (r_objects r) parent = Some (Inr out)"
    using assms(4) name parent by (auto simp: List_notes_def split: sum.splits)
  have pf: "fits64 (bytes_or_nil parent)"
  proof (cases parent)
    case (Some v)
    with chain obtain n rest where "out = (v, n) # rest"
      by (auto simp: note_chain_Some rbind_def split: sum.splits Option.bind_splits)
    with Some assms(7) show ?thesis by simp
  qed simp
  have "wf_obj (note_obj ?n)"
    unfolding note_obj_def
    by (rule wf_mkobj) (use pf assms(8-11) in \<open>auto simp: note_fields_def opt_field_def max_alloc_def
        nil_if_empty_def fits64_appendUvarint split: option.splits\<close>)
  moreover have "GetRaw h os i = Inr (Encode (note_obj ?n))"
    using PutRaw_ok(4) [OF assms(1,2) put] assms(6) by simp
  ultimately have get: "Get h os i = Inr (note_obj ?n)" by (simp add: Get_def)
  have "canonical_hash parent = parent"
    using parent readRef_iff [OF assms(3), of name "[]"]
    by (auto simp: canonical_hash_def Resolve_def result_iffs split: sum.splits)
  then have can: "canonical_note ?n = ?n"
    by (simp add: canonical_note_def) (simp add: canonical_hash_def nil_if_empty_def)
  have "note_chain h os (Some i) = Some (Inr ((i, ?n) # out))"
    using get note_chain_mono [OF keep chain] by (simp add: note_chain_Some AsNote_note can)
  moreover have "Resolve (r_refs r') name = Inr i" using cas_stored [OF assms(3) cas] by simp
  ultimately have "List_notes h r' namespace target = Some (Inr ((i, ?n) # out))"
    using name os by (simp add: List_notes_def)
  then show ?thesis using keep os by (intro exI [of _ ?n]) simp
qed

lemma first_note:
  assumes wf: "wf_hashes h" and name: "note_refName namespace target = Inr name" and valid: "ValidName name = Inr ()"
    and fits: "fits64 target" "fits64 namespace" "fits64 payload" "fits64 author"
    and cl: "clear (rs_refs empty_refs) name" "clear (rs_logs empty_refs) name"
  shows "\<exists>i r' n. Add_note h \<lparr>r_objects = Open_store, r_refs = empty_refs\<rparr> clock namespace target payload author now = (Inr i, r') \<and>
    List_notes h r' namespace target = Some (Inr [(i, n)]) \<and> n_payload n = payload \<and>
    r_objects r' = snd (PutRaw h Open_store (Encode (note_obj \<lparr>n_target = nil_if_empty target, n_namespace = namespace,
      n_payload = payload, n_parent = None, n_timestamp = now, n_author = author\<rparr>)))"
proof -
  let ?r = "\<lparr>r_objects = Open_store, r_refs = empty_refs\<rparr>"
  let ?n = "\<lparr>n_target = nil_if_empty target, n_namespace = namespace, n_payload = payload,
      n_parent = None, n_timestamp = now, n_author = author\<rparr>"
  have cur: "current empty_refs n = None" for n
    by (simp add: current_None) (simp add: empty_refs_def)
  have res: "Resolve empty_refs name = Inl (Sentinel RefNotExist [])"
    using valid clear_readRef [OF cl(1)] cur by (simp add: Resolve_def)
  obtain i os where p: "PutRaw h Open_store (Encode (note_obj ?n)) = (Inr i, os)"
    by (rule PutRaw_total [OF wf, of Open_store "Encode (note_obj ?n)"]) (simp add: Open_store_def)
  note p1 = PutRaw_ok [OF wf store_ok_empty p]
  have no: "\<not> Has Open_store i" by (simp add: Has_def Open_store_def split: sum.split)
  have "Has os i" using p1(4) Has_GetRaw [OF p1(1)] no by auto
  then obtain q where "store_path i = Inr q" using Has_file by blast
  then have "valid_hash (Some i)" using store_path_valid by (auto simp: valid_hash_def)
  then obtain rs where "CompareAndSwap empty_refs clock name None (Some i) author (''note:'' @ namespace) = (Inr (), rs)"
    using cas_complete [of empty_refs "\<lparr>co_name = name, co_old = None, co_new = Some i, co_now = clock,
        co_actor = author, co_msg = ''note:'' @ namespace\<rparr>"] valid cl cur by (auto simp: cas_def)
  with p name res have add: "Add_note h ?r clock namespace target payload author now
      = (Inr i, \<lparr>r_objects = os, r_refs = rs\<rparr>)"
    by (simp add: Add_note_def NewNote_eq Put_def)
  have "List_notes h ?r namespace target = Some (Inr [])"
    using name res by (simp add: List_notes_def)
  from note_added [OF wf _ _ this add] no fits obtain n where
    "List_notes h \<lparr>r_objects = os, r_refs = rs\<rparr> namespace target = Some (Inr [(i, n)])" "n_payload n = payload"
    by auto
  with add p show ?thesis by auto
qed

section \<open>Properties\<close>

text \<open>Notes are a stack that only grows: after a note has been added, listing the notes
  of its namespace and target gives the new note first, followed by exactly the notes
  listed before, and every object of the store reads as it did. The new note's identity
  must not already name an object.\<close>

theorem note_add_list:
  assumes "wf_hashes h" and "store_ok h (r_objects r)" and "refs_ok (r_refs r)"
    and "List_notes h r namespace target = Some (Inr out)"
    and "Add_note h r clock namespace target payload author now = (Inr i, r')"
    and "\<not> Has (r_objects r) i" and "\<forall>(j, n) \<in> set out. fits64 j"
    and "fits64 target" and "fits64 namespace" and "fits64 payload" and "fits64 author"
  shows "\<exists>n. List_notes h r' namespace target = Some (Inr ((i, n) # out)) \<and>
     n_payload n = payload \<and> n_author n = author \<and> n_target n = nil_if_empty target \<and>
     (\<forall>j b. GetRaw h (r_objects r) j = Inr b \<longrightarrow> GetRaw h (r_objects r') j = Inr b)"
  using assms by (rule note_added)

theorem note_add_list_witness:
  "\<exists>i r' n. Add_note zero_hash \<lparr>r_objects = Open_store, r_refs = empty_refs\<rparr> 1 ''review'' [0x12, 1, 5] [7] ''a'' 2
      = (Inr i, r') \<and>
     List_notes zero_hash r' ''review'' [0x12, 1, 5] = Some (Inr [(i, n)]) \<and> n_payload n = [7]"
proof -
  let ?r = "\<lparr>r_objects = Open_store, r_refs = empty_refs\<rparr>" and ?t = "[0x12, 1, 5] :: multihash"
  let ?name = "''refs/notes/review/120105''"
  have wf: "wf_hashes zero_hash" by (simp add: wf_hashes_def zero_hash_def)
  have name: "note_refName ''review'' ?t = Inr ?name"
    by (simp add: note_refName_def validNamespace_def has_prefix_def has_suffix_def Hex_def hex_digit_def)
  have valid: "ValidName ?name = Inr ()" by (simp add: ValidName_def has_prefix_def has_suffix_def)
  have cl: "clear (rs_refs empty_refs) ?name" "clear (rs_logs empty_refs) ?name"
    by (simp_all add: clear_def empty_refs_def empty_ftree_def is_file_def list_ex_iff)
  have cur: "current empty_refs n = None" for n
    by (simp add: current_None) (simp add: empty_refs_def)
  have "List_notes zero_hash ?r ''review'' ?t = Some (Inr [])"
    using name valid clear_readRef [OF cl(1)] cur by (simp add: List_notes_def Resolve_def)
  moreover obtain i r' where add: "Add_note zero_hash ?r 1 ''review'' ?t [7] ''a'' 2 = (Inr i, r')"
    using first_note [OF wf name valid _ _ _ _ cl, where clock = 1 and payload = "[7]" and author = "''a''" and now = 2]
    by (auto simp: fits64_def)
  moreover have "\<not> Has Open_store i" by (simp add: Has_def Open_store_def split: sum.split)
  ultimately show ?thesis using note_add_list [OF wf _ _ _ add, of "[]"] by (auto simp: fits64_def)
qed

end
