(* ===== verification/MergeBase.thy ===== *)
theory MergeBase
  imports ObjStore
begin

text \<open>
  The history side of \<^verbatim>\<open>internal/merge/merge.go\<close>: a change's parents, its ancestors and the
  best common ancestors of two changes. The sets the code keeps as Go maps are lists in the
  order of insertion; a recursive walk is a worklist, which visits in the same order. A nil
  hash is the empty one, or \<^verbatim>\<open>None\<close> where a caller passes it.
\<close>

definition parents :: "hash_funs \<Rightarrow> objstore \<Rightarrow> multihash \<Rightarrow> multihash list" where
  "parents h s id' =
     (case Get h s id' of
        Inl _ \<Rightarrow> []
      | Inr obj \<Rightarrow>
          if otyp obj \<noteq> TypeChange then []
          else (case AsChange obj of Inl _ \<Rightarrow> [] | Inr c \<Rightarrow> c_parents c))"

lemma parents_key: "parents h s i \<noteq> [] \<Longrightarrow> Hex i \<in> set (map (snd \<circ> fst) (os_files s))"
proof -
  assume "parents h s i \<noteq> []"
  then obtain b where "GetRaw h s i = Inr b"
    by (auto simp: parents_def Get_def result_iffs split: sum.splits)
  then obtain p where p: "store_path i = Inr p" "map_of (os_files s) p \<noteq> None"
    by (auto simp: GetRaw_def result_iffs split: option.splits)
  then have "p \<in> fst ` set (os_files s)" by (simp add: map_of_eq_None_iff)
  then show ?thesis using store_path_name [OF p(1)] by force
qed

function collectAncestors :: "hash_funs \<Rightarrow> objstore \<Rightarrow> multihash list \<Rightarrow> string list \<Rightarrow> string list" where
  "collectAncestors h s [] visited = visited"
| "collectAncestors h s (id' # work) visited =
     (if id' = [] \<or> Hex id' \<in> set visited then collectAncestors h s work visited
      else collectAncestors h s (parents h s id' @ work) (visited @ [Hex id']))"
  by pat_completeness auto
termination
proof (relation "measures [\<lambda>(h, s, work, visited). card (set (map (snd \<circ> fst) (os_files s)) - set visited),
    \<lambda>(h, s, work, visited). length work]", goal_cases)
  case (3 h s i work visited)
  let ?K = "set (map (snd \<circ> fst) (os_files s))"
  show ?case
  proof (cases "parents h s i = []")
    case True
    have "card (?K - set (visited @ [Hex i])) \<le> card (?K - set visited)"
      by (intro card_mono) auto
    with True show ?thesis by auto
  next
    case False
    then have "Hex i \<in> ?K - set visited" using 3 parents_key by blast
    then have "card (?K - set (visited @ [Hex i])) < card (?K - set visited)"
      by (intro psubset_card_mono) auto
    then show ?thesis by simp
  qed
qed auto

function collectAncestorIDs :: "hash_funs \<Rightarrow> objstore \<Rightarrow> multihash list \<Rightarrow> (string \<times> multihash) list
    \<Rightarrow> (string \<times> multihash) list" where
  "collectAncestorIDs h s [] out = out"
| "collectAncestorIDs h s (id' # work) out =
     (if id' = [] \<or> map_of out (Hex id') \<noteq> None then collectAncestorIDs h s work out
      else collectAncestorIDs h s (parents h s id' @ work) (out @ [(Hex id', id')]))"
  by pat_completeness auto
termination
proof (relation "measures [\<lambda>(h, s, work, out). card (set (map (snd \<circ> fst) (os_files s)) - fst ` set out),
    \<lambda>(h, s, work, out). length work]", goal_cases)
  case (3 h s i work out)
  let ?K = "set (map (snd \<circ> fst) (os_files s))"
  show ?case
  proof (cases "parents h s i = []")
    case True
    have "card (?K - fst ` set (out @ [(Hex i, i)])) \<le> card (?K - fst ` set out)"
      by (intro card_mono) auto
    with True show ?thesis by auto
  next
    case False
    then have "Hex i \<in> ?K - fst ` set out" using 3 parents_key by (auto simp: map_of_eq_None_iff)
    then have "card (?K - fst ` set (out @ [(Hex i, i)])) < card (?K - fst ` set out)"
      by (intro psubset_card_mono) auto
    then show ?thesis by simp
  qed
qed auto

definition mark_dominated :: "hash_funs \<Rightarrow> objstore \<Rightarrow> (string \<times> multihash) list \<Rightarrow> string list \<Rightarrow> string list" where
  "mark_dominated h s idOf common =
     foldl (\<lambda>marked hexID. case map_of idOf hexID of
              None \<Rightarrow> marked
            | Some id' \<Rightarrow> foldl (\<lambda>marked p. collectAncestors h s [p] marked) marked (parents h s id')) [] common"

definition MergeBases :: "hash_funs \<Rightarrow> objstore \<Rightarrow> multihash option \<Rightarrow> multihash option \<Rightarrow> multihash list" where
  "MergeBases h s a b =
     (case (a, b) of
        (Some a, Some b) \<Rightarrow>
          (let ancA = collectAncestors h s [a] [];
               ancB = collectAncestors h s [b] [];
               common = filter (\<lambda>hexID. hexID \<in> set ancB) ancA;
               idOf = collectAncestorIDs h s [a] [];
               dominated = mark_dominated h s idOf common;
               out = concat (map (\<lambda>hexID.
                       if hexID \<in> set dominated then []
                       else (case map_of idOf hexID of None \<Rightarrow> [] | Some id' \<Rightarrow> [id'])) common)
           in sort out)
      | _ \<Rightarrow> [])"

definition MergeBase :: "hash_funs \<Rightarrow> objstore \<Rightarrow> multihash option \<Rightarrow> multihash option \<Rightarrow> multihash option" where
  "MergeBase h s a b =
     (let bs = MergeBases h s a b in if length bs = 0 then None else Some (hd bs))"

section \<open>Ancestors\<close>

text \<open>The reflexive ancestors of a change; nil is no change.\<close>

inductive ancestor :: "hash_funs \<Rightarrow> objstore \<Rightarrow> multihash \<Rightarrow> multihash \<Rightarrow> bool"
  for h :: hash_funs and s :: objstore where
  self: "x \<noteq> [] \<Longrightarrow> ancestor h s x x"
| parent: "ancestor h s x y \<Longrightarrow> p \<in> set (parents h s y) \<Longrightarrow> p \<noteq> [] \<Longrightarrow> ancestor h s x p"

inductive_cases ancestor_nil: "ancestor h s x []"

lemma ancestor_trans: "ancestor h s y z \<Longrightarrow> ancestor h s x y \<Longrightarrow> ancestor h s x z"
  by (induction rule: ancestor.induct) (auto intro: ancestor.parent)

text \<open>The worklist invariant: everything visited has its parents visited or pending.\<close>

definition walked :: "hash_funs \<Rightarrow> objstore \<Rightarrow> string set \<Rightarrow> multihash set \<Rightarrow> bool" where
  "walked h s V pending \<longleftrightarrow>
     (\<forall>x p. Hex x \<in> V \<longrightarrow> p \<in> set (parents h s x) \<longrightarrow> p \<noteq> [] \<longrightarrow> Hex p \<in> V \<or> p \<in> pending)"

lemma collect_closed:
  "walked h s (set V) (set work) \<Longrightarrow>
   set V \<subseteq> set (collectAncestors h s work V) \<and> walked h s (set (collectAncestors h s work V)) {} \<and>
   (\<forall>i \<in> set work. i \<noteq> [] \<longrightarrow> Hex i \<in> set (collectAncestors h s work V))"
proof (induction h s work V rule: collectAncestors.induct)
  case (2 h s i work V)
  show ?case
  proof (cases "i = [] \<or> Hex i \<in> set V")
    case True
    have "walked h s (set V) (set work)"
      using 2(3) True unfolding walked_def by (metis Hex_inj set_ConsD)
    with True 2(1) show ?thesis by auto
  next
    case False
    have "walked h s (set (V @ [Hex i])) (set (parents h s i @ work))"
      using 2(3) unfolding walked_def by auto
    with False 2(2) show ?thesis by auto
  qed
qed simp

lemma collect_sound:
  "k \<in> set (collectAncestors h s work V) \<Longrightarrow> k \<in> set V \<or> (\<exists>i \<in> set work. \<exists>y. ancestor h s i y \<and> k = Hex y)"
proof (induction h s work V rule: collectAncestors.induct)
  case (2 h s i work V)
  show ?case
  proof (cases "i = [] \<or> Hex i \<in> set V")
    case True
    with 2 show ?thesis by auto
  next
    case False
    then have "k \<in> set (V @ [Hex i]) \<or> (\<exists>j \<in> set (parents h s i @ work). \<exists>y. ancestor h s j y \<and> k = Hex y)"
      using 2 by simp
    moreover have "ancestor h s i i" using False by (simp add: ancestor.self)
    moreover have "ancestor h s i y" if "j \<in> set (parents h s i)" "ancestor h s j y" for j y
    proof -
      have "j \<noteq> []" using that(2) by (induction) auto
      then show ?thesis using ancestor_trans [OF that(2) ancestor.parent] \<open>ancestor h s i i\<close> that(1) by blast
    qed
    ultimately show ?thesis by auto
  qed
qed simp

lemma walked_ancestor: "walked h s V {} \<Longrightarrow> ancestor h s x y \<Longrightarrow> Hex x \<in> V \<Longrightarrow> Hex y \<in> V"
  by (rotate_tac 1, induction rule: ancestor.induct) (auto simp: walked_def)

lemma collect_iff:
  assumes "walked h s (set V) {}"
  shows "Hex y \<in> set (collectAncestors h s [i] V) \<longleftrightarrow> Hex y \<in> set V \<or> ancestor h s i y"
    and "walked h s (set (collectAncestors h s [i] V)) {}"
proof -
  have "walked h s (set V) (set [i])" using assms by (auto simp: walked_def)
  note c = collect_closed [OF this]
  show "walked h s (set (collectAncestors h s [i] V)) {}" using c by blast
  have "i \<noteq> []" if "ancestor h s i y" using that by induction auto
  then show "Hex y \<in> set (collectAncestors h s [i] V) \<longleftrightarrow> Hex y \<in> set V \<or> ancestor h s i y"
    using c collect_sound [of "Hex y" h s "[i]" V] walked_ancestor [of h s _ i y] by auto
qed

lemma collect_distinct: "distinct V \<Longrightarrow> distinct (collectAncestors h s work V)"
  by (induction h s work V rule: collectAncestors.induct) simp_all

lemma collect_names: "\<forall>k \<in> set V. \<exists>y. k = Hex y \<Longrightarrow> k \<in> set (collectAncestors h s work V) \<Longrightarrow> \<exists>y. k = Hex y"
  using collect_sound by blast

text \<open>The second walk visits the same changes.\<close>

lemma collectIDs_collect:
  "(\<forall>(k, i) \<in> set out. k = Hex i) \<Longrightarrow>
   map fst (collectAncestorIDs h s work out) = collectAncestors h s work (map fst out) \<and>
   (\<forall>(k, i) \<in> set (collectAncestorIDs h s work out). k = Hex i)"
proof (induction h s work out rule: collectAncestorIDs.induct)
  case (2 h s i work out)
  have m: "map_of out (Hex i) \<noteq> None \<longleftrightarrow> Hex i \<in> set (map fst out)" by (simp add: map_of_eq_None_iff)
  show ?case
  proof (cases "i = [] \<or> map_of out (Hex i) \<noteq> None")
    case True
    with 2 m show ?thesis by auto
  next
    case False
    with 2 m show ?thesis by auto
  qed
qed simp

lemma idOf_iff: "map_of (collectAncestorIDs h s [a] []) k = Some i \<longleftrightarrow> k = Hex i \<and> ancestor h s a i"
proof -
  have c: "map fst (collectAncestorIDs h s [a] []) = collectAncestors h s [a] []"
    "\<forall>(k, i) \<in> set (collectAncestorIDs h s [a] []). k = Hex i"
    using collectIDs_collect [of "[]" h s "[a]"] by simp_all
  have w: "walked h s (set []) {}" by (simp add: walked_def)
  have iff: "Hex i \<in> set (map fst (collectAncestorIDs h s [a] [])) \<longleftrightarrow> ancestor h s a i"
    using collect_iff(1) [OF w, of i a] unfolding c by simp
  show ?thesis
  proof
    assume "map_of (collectAncestorIDs h s [a] []) k = Some i"
    then have ki: "(k, i) \<in> set (collectAncestorIDs h s [a] [])" by (rule map_of_SomeD)
    then have "k = Hex i" using c by blast
    moreover have "k \<in> set (map fst (collectAncestorIDs h s [a] []))"
      using ki by (metis fst_conv image_eqI set_map)
    ultimately show "k = Hex i \<and> ancestor h s a i" using iff by blast
  next
    assume a: "k = Hex i \<and> ancestor h s a i"
    then obtain j where j: "map_of (collectAncestorIDs h s [a] []) k = Some j"
      using iff by (metis map_of_eq_None_iff not_None_eq set_map)
    then have "(k, j) \<in> set (collectAncestorIDs h s [a] [])" by (rule map_of_SomeD)
    then have "k = Hex j" using c by blast
    with a j show "map_of (collectAncestorIDs h s [a] []) k = Some i" by simp
  qed
qed

text \<open>What is dominated: the ancestors of the parents of a common ancestor.\<close>

lemma fold_parents:
  "walked h s (set marked) {} \<Longrightarrow>
   walked h s (set (foldl (\<lambda>marked p. collectAncestors h s [p] marked) marked ps)) {} \<and>
   (Hex y \<in> set (foldl (\<lambda>marked p. collectAncestors h s [p] marked) marked ps)
     \<longleftrightarrow> Hex y \<in> set marked \<or> (\<exists>p \<in> set ps. ancestor h s p y))"
proof (induction ps arbitrary: marked)
  case (Cons p ps)
  have c: "walked h s (set (collectAncestors h s [p] marked)) {}" by (rule collect_iff(2) [OF Cons.prems])
  from Cons.IH [OF c] collect_iff(1) [OF Cons.prems, of y p] show ?case by (auto simp del: collectAncestors.simps)
qed simp

lemma mark_dominated_iff:
  assumes "\<And>k i. map_of idOf k = Some i \<longleftrightarrow> k = Hex i \<and> ancestor h s a i"
  shows "Hex y \<in> set (mark_dominated h s idOf ks) \<longleftrightarrow>
     (\<exists>d p. Hex d \<in> set ks \<and> ancestor h s a d \<and> p \<in> set (parents h s d) \<and> ancestor h s p y)"
proof -
  let ?f = "\<lambda>marked hexID. case map_of idOf hexID of None \<Rightarrow> marked
      | Some id' \<Rightarrow> foldl (\<lambda>marked p. collectAncestors h s [p] marked) marked (parents h s id')"
  have "walked h s (set marked) {} \<Longrightarrow> walked h s (set (foldl ?f marked ks)) {} \<and>
     (Hex y \<in> set (foldl ?f marked ks) \<longleftrightarrow> Hex y \<in> set marked \<or>
       (\<exists>d p. Hex d \<in> set ks \<and> ancestor h s a d \<and> p \<in> set (parents h s d) \<and> ancestor h s p y))" for marked
  proof (induction ks arbitrary: marked)
    case (Cons k ks)
    show ?case
    proof (cases "map_of idOf k")
      case None
      then have "\<not> (k = Hex d \<and> ancestor h s a d)" for d using assms [of k d] by simp
      with Cons None show ?thesis by fastforce
    next
      case (Some i)
      then have k: "k = Hex i" "ancestor h s a i" using assms by auto
      note f = fold_parents [OF Cons.prems, of "parents h s i" y]
      from Cons.IH [OF conjunct1 [OF f]] f k Some show ?thesis by auto
    qed
  qed simp
  moreover have "walked h s (set []) {}" by (simp add: walked_def)
  ultimately show ?thesis unfolding mark_dominated_def by fastforce
qed

section \<open>Merge bases\<close>

definition common_ancestor :: "hash_funs \<Rightarrow> objstore \<Rightarrow> multihash \<Rightarrow> multihash \<Rightarrow> multihash \<Rightarrow> bool" where
  "common_ancestor h s a b c \<longleftrightarrow> ancestor h s a c \<and> ancestor h s b c"

text \<open>\<^verbatim>\<open>c\<close> is a strict ancestor of \<^verbatim>\<open>d\<close>, reached through one of its parents.\<close>

definition below :: "hash_funs \<Rightarrow> objstore \<Rightarrow> multihash \<Rightarrow> multihash \<Rightarrow> bool" where
  "below h s d c \<longleftrightarrow> (\<exists>p \<in> set (parents h s d). ancestor h s p c)"

definition best_base :: "hash_funs \<Rightarrow> objstore \<Rightarrow> multihash \<Rightarrow> multihash \<Rightarrow> multihash \<Rightarrow> bool" where
  "best_base h s a b c \<longleftrightarrow>
     common_ancestor h s a b c \<and> \<not> (\<exists>d. common_ancestor h s a b d \<and> below h s d c)"

lemma concat_distinct:
  "distinct ks \<Longrightarrow> \<forall>k \<in> set ks. f k = [] \<or> (\<exists>i. f k = [i] \<and> g i = k) \<Longrightarrow> distinct (concat (map f ks))"
proof (induction ks)
  case (Cons k ks)
  have "g i = k" if "i \<in> set (f k)" for i using Cons.prems(2) that by auto
  moreover have "g i \<in> set ks" if "i \<in> set (concat (map f ks))" for i using Cons.prems(2) that by fastforce
  ultimately have "set (f k) \<inter> set (concat (map f ks)) = {}" using Cons.prems(1) by fastforce
  moreover have "distinct (f k)" using Cons.prems(2) by auto
  ultimately show ?case using Cons by simp
qed simp

lemma MergeBases_spec:
  "set (MergeBases h s (Some a) (Some b)) = {c. best_base h s a b c}"
  "sorted_wrt (<) (MergeBases h s (Some a) (Some b))"
proof -
  define ancA ancB where d1: "ancA = collectAncestors h s [a] []" "ancB = collectAncestors h s [b] []"
  define common idOf where d2: "common = filter (\<lambda>k. k \<in> set ancB) ancA" "idOf = collectAncestorIDs h s [a] []"
  define f where d3: "f = (\<lambda>k. if k \<in> set (mark_dominated h s idOf common) then []
      else (case map_of idOf k of None \<Rightarrow> [] | Some i \<Rightarrow> [i]))"
  have w: "walked h s (set []) {}" by (simp add: walked_def)
  have anc: "Hex i \<in> set ancA \<longleftrightarrow> ancestor h s a i" "Hex i \<in> set ancB \<longleftrightarrow> ancestor h s b i" for i
    using collect_iff(1) [OF w] by (simp_all add: d1)
  have com: "Hex i \<in> set common \<longleftrightarrow> common_ancestor h s a b i" for i
    by (simp add: d2 anc common_ancestor_def)
  have ids: "map_of idOf k = Some i \<longleftrightarrow> k = Hex i \<and> ancestor h s a i" for k i
    unfolding d2 by (rule idOf_iff)
  have marked: "Hex i \<in> set (mark_dominated h s idOf common)
      \<longleftrightarrow> (\<exists>d. common_ancestor h s a b d \<and> below h s d i)" for i
    by (subst mark_dominated_iff [OF ids]) (auto simp: com below_def common_ancestor_def)
  have eq: "MergeBases h s (Some a) (Some b) = sort (concat (map f common))"
    unfolding MergeBases_def d1 d2 d3 Let_def by simp
  have f: "i \<in> set (f k) \<longleftrightarrow> k = Hex i \<and> ancestor h s a i \<and> \<not> (\<exists>d. common_ancestor h s a b d \<and> below h s d i)" for i k
    using ids [of k i] marked [of i] unfolding d3 by (auto split: option.splits)
  show "set (MergeBases h s (Some a) (Some b)) = {c. best_base h s a b c}"
    using com f by (auto simp: eq best_base_def common_ancestor_def)
  have "\<forall>k \<in> set common. f k = [] \<or> (\<exists>i. f k = [i] \<and> Hex i = k)"
    using ids by (auto simp: d3 split: option.splits)
  moreover have "distinct common" by (simp add: d1 d2 collect_distinct)
  ultimately have "distinct (concat (map f common))" by (intro concat_distinct [where g = Hex])
  then show "sorted_wrt (<) (MergeBases h s (Some a) (Some b))"
    by (simp add: eq strict_sorted_iff)
qed

section \<open>Properties\<close>

text \<open>C29. The merge bases of two changes are exactly their best common ancestors, each once and
  in the order of their ids: the common ancestors that are not reached from a parent of
  another common ancestor. (Nothing is assumed about the history: it may be partly missing
  from the store.)\<close>

theorem merge_bases_exact:
  "set (MergeBases h s (Some a) (Some b)) = {c. best_base h s a b c} \<and>
   sorted_wrt (<) (MergeBases h s (Some a) (Some b)) \<and>
   MergeBases h s (Some b) (Some a) = MergeBases h s (Some a) (Some b)"
proof -
  have "best_base h s b a = best_base h s a b"
    by (auto simp: fun_eq_iff best_base_def common_ancestor_def)
  then have "MergeBases h s (Some b) (Some a) = MergeBases h s (Some a) (Some b)"
    by (intro strict_sorted_unique) (simp_all add: MergeBases_spec)
  then show ?thesis using MergeBases_spec by simp
qed

end
