(* ===== verification/TreeFiles.thy ===== *)
theory TreeFiles
  imports ObjStore "HOL-Library.Multiset"
begin

text \<open>
  Trees as flat maps of files: \<^verbatim>\<open>internal/merge/tree.go\<close>, of which
  \<^verbatim>\<open>internal/txn/tree.go\<close> has a copy. \<^verbatim>\<open>flatten\<close> reads a tree into a map from slash paths,
  \<^verbatim>\<open>buildTree\<close> stores the nested tree objects of such a map. A Go map is an association list
  with distinct keys; its order stands for the order of the \<^verbatim>\<open>range\<close> loops. The recursion of
  \<^verbatim>\<open>flattenInto\<close> is bounded by the stack, whose depth is the parameter \<^verbatim>\<open>stk\<close>.
\<close>

record file_ent =
  fe_id :: multihash
  fe_mode :: u32

lemma file_ent_id [simp]: "\<lparr>fe_id = fe_id fe, fe_mode = fe_mode fe\<rparr> = fe"
  by simp

type_synonym files = "(string \<times> file_ent) list"

definition modeFile :: u32 where "modeFile = 33188"
definition modeTree :: u32 where "modeTree = 16384"

section \<open>Reading a tree\<close>

definition entry_path :: "string \<Rightarrow> string \<Rightarrow> string" where
  "entry_path prefix name = (if prefix \<noteq> [] then prefix @ ''/'' @ name else name)"

fun flattenInto :: "nat \<Rightarrow> hash_funs \<Rightarrow> objstore \<Rightarrow> multihash \<Rightarrow> string \<Rightarrow> files \<Rightarrow> goerr + files" where
  "flattenInto 0 h s treeID prefix out = Inl (Panic ''stack overflow'')"
| "flattenInto (Suc stk) h s treeID prefix out =
     rbind (Get h s treeID) (\<lambda>obj.
     rbind (TreeEntries obj) (\<lambda>entries.
     foldl (\<lambda>r e. rbind r (\<lambda>out.
         let p = entry_path prefix (ename e) in
         if ekind e = TypeTree then flattenInto stk h s (eid e) p out
         else Inr (AList.update p \<lparr>fe_id = eid e, fe_mode = emode e\<rparr> out)))
       (Inr out) entries))"

definition flatten :: "nat \<Rightarrow> hash_funs \<Rightarrow> objstore \<Rightarrow> multihash option \<Rightarrow> goerr + files" where
  "flatten stk h s treeID =
     (case treeID of None \<Rightarrow> Inr [] | Some t \<Rightarrow> flattenInto stk h s t [] [])"

section \<open>Building a tree\<close>

text \<open>\<^verbatim>\<open>seg, rest := p[:i], p[i+1:]\<close> at the first slash.\<close>

definition seg_of :: "string \<Rightarrow> string" where
  "seg_of p = takeWhile (\<lambda>c. c \<noteq> CHR ''/'') p"

definition rest_of :: "string \<Rightarrow> string" where
  "rest_of p = tl (dropWhile (\<lambda>c. c \<noteq> CHR ''/'') p)"

definition nested :: "string \<times> file_ent \<Rightarrow> bool" where
  "nested f = (CHR ''/'' \<in> set (fst f))"

definition blob_entries :: "files \<Rightarrow> entry list" where
  "blob_entries files =
     map (\<lambda>(p, fe). \<lparr>ename = p, emode = fe_mode fe, ekind = TypeBlob, eid = fe_id fe\<rparr>)
       (filter (\<lambda>f. \<not> nested f) files)"

definition sub_files :: "string \<Rightarrow> files \<Rightarrow> files" where
  "sub_files seg files =
     map (\<lambda>(p, fe). (rest_of p, fe)) (filter (\<lambda>f. seg_of (fst f) = seg) (filter nested files))"

definition subdirs :: "files \<Rightarrow> (string \<times> files) list" where
  "subdirs files =
     map (\<lambda>seg. (seg, sub_files seg files)) (remdups (map (seg_of \<circ> fst) (filter nested files)))"

definition dir_entry :: "string \<Rightarrow> multihash \<Rightarrow> entry" where
  "dir_entry seg i = \<lparr>ename = seg, emode = modeTree, ekind = TypeTree, eid = i\<rparr>"

subsection \<open>Every level has less to place\<close>

definition path_weight :: "files \<Rightarrow> nat" where
  "path_weight files = sum_list (map (\<lambda>(p, fe). length p + 1) files)"

definition dirs_weight :: "(string \<times> files) list \<Rightarrow> nat" where
  "dirs_weight subs = sum_list (map (\<lambda>(seg, sub). 2 * path_weight sub + 2) subs)"

lemma sum_groups:
  "finite K \<Longrightarrow> key ` set xs \<subseteq> K \<Longrightarrow>
   (\<Sum>k\<in>K. sum_list (map g (filter (\<lambda>x. key x = k) xs))) = (sum_list (map g xs) :: nat)"
proof (induction xs)
  case (Cons x xs)
  have "(\<Sum>k\<in>K. sum_list (map g (filter (\<lambda>x. key x = k) (x # xs))))
      = (\<Sum>k\<in>K. (if key x = k then g x else 0) + sum_list (map g (filter (\<lambda>x. key x = k) xs)))"
    by (rule sum.cong) auto
  also have "\<dots> = g x + sum_list (map g xs)"
    using Cons by (simp add: sum.distrib sum.delta)
  finally show ?case by simp
qed simp

lemma sum_list_groups:
  "sum_list (map (\<lambda>k. sum_list (map g (filter (\<lambda>x. key x = k) xs))) (remdups (map key xs)))
   = (sum_list (map g xs) :: nat)"
  using sum_groups [of "key ` set xs" key xs g] by (simp add: sum_list_distinct_conv_sum_set)

lemma rest_of_length: "nested (p, fe) \<Longrightarrow> length (rest_of p) + 1 + length (seg_of p) = length p"
proof -
  assume "nested (p, fe)"
  then have "dropWhile (\<lambda>c. c \<noteq> CHR ''/'') p \<noteq> []" by (auto simp: nested_def dropWhile_eq_Nil_conv)
  moreover have "length p = length (seg_of p) + length (dropWhile (\<lambda>c. c \<noteq> CHR ''/'') p)"
    unfolding seg_of_def by (metis length_append takeWhile_dropWhile_id)
  ultimately show ?thesis by (cases "dropWhile (\<lambda>c. c \<noteq> CHR ''/'') p") (simp_all add: rest_of_def)
qed

text \<open>What holds for each directory, when it does for the files under it.\<close>

lemma subdirs_sum:
  assumes g: "\<And>seg fs. fs \<noteq> [] \<Longrightarrow> \<forall>f \<in> set fs. nested f \<and> seg_of (fst f) = seg \<Longrightarrow>
     F seg (map (\<lambda>(p, fe). (rest_of p, fe)) fs) \<le> (sum_list (map g fs) :: nat)"
  shows "sum_list (map (\<lambda>(seg, sub). F seg sub) (subdirs files)) \<le> sum_list (map g (filter nested files))"
proof -
  let ?N = "filter nested files"
  have "sum_list (map (\<lambda>(seg, sub). F seg sub) (subdirs files))
     = sum_list (map (\<lambda>seg. F seg (sub_files seg files)) (remdups (map (seg_of \<circ> fst) ?N)))"
    by (simp add: subdirs_def comp_def)
  also have "\<dots> \<le> sum_list (map (\<lambda>seg. sum_list (map g (filter (\<lambda>f. (seg_of \<circ> fst) f = seg) ?N)))
      (remdups (map (seg_of \<circ> fst) ?N)))"
  proof (rule sum_list_mono)
    fix seg assume "seg \<in> set (remdups (map (seg_of \<circ> fst) ?N))"
    then have "filter (\<lambda>f. (seg_of \<circ> fst) f = seg) ?N \<noteq> []" by (auto simp: filter_empty_conv)
    then show "F seg (sub_files seg files) \<le> sum_list (map g (filter (\<lambda>f. (seg_of \<circ> fst) f = seg) ?N))"
      unfolding sub_files_def comp_def by (intro g) auto
  qed
  also have "\<dots> = sum_list (map g ?N)" by (rule sum_list_groups)
  finally show ?thesis .
qed

lemma subdirs_weight: "dirs_weight (subdirs files) \<le> 2 * path_weight files"
proof -
  let ?g = "\<lambda>(p, fe). 2 * (length p + 1) :: nat"
  have le: "2 * path_weight (map (\<lambda>(p, fe). (rest_of p, fe)) fs) + 2 \<le> sum_list (map ?g fs)"
    if "fs \<noteq> []" "\<forall>f \<in> set fs. nested f \<and> seg_of (fst f) = seg" for seg fs
  proof -
    have "\<forall>f \<in> set fs. nested f \<Longrightarrow>
        2 * path_weight (map (\<lambda>(p, fe). (rest_of p, fe)) fs) + 2 * length fs \<le> sum_list (map ?g fs)" for fs
    proof (induction fs)
      case (Cons f fs)
      obtain p fe where "f = (p, fe)" by (cases f)
      with Cons rest_of_length [of p fe] show ?case by (simp add: path_weight_def)
    qed (simp add: path_weight_def)
    from this [of fs] that show ?thesis by (cases fs) auto
  qed
  have "dirs_weight (subdirs files) \<le> sum_list (map ?g (filter nested files))"
    unfolding dirs_weight_def by (rule subdirs_sum) (rule le)
  also have "\<dots> \<le> sum_list (map ?g files)" by (induction files) auto
  also have "\<dots> = 2 * path_weight files" by (induction files) (auto simp: path_weight_def)
  finally show ?thesis .
qed

function buildTree :: "hash_funs \<Rightarrow> objstore \<Rightarrow> files \<Rightarrow> (goerr + multihash) \<times> objstore"
  and build_subs :: "hash_funs \<Rightarrow> objstore \<Rightarrow> (string \<times> files) list \<Rightarrow> (goerr + entry list) \<times> objstore" where
  "buildTree h s files =
     (case build_subs h s (subdirs files) of
        (Inl e, s) \<Rightarrow> (Inl e, s)
      | (Inr es, s) \<Rightarrow>
          (case NewTree (blob_entries files @ es) of
             Inl e \<Rightarrow> (Inl e, s)
           | Inr obj \<Rightarrow> Put h s obj))"
| "build_subs h s [] = (Inr [], s)"
| "build_subs h s ((seg, sub) # subs) =
     (case buildTree h s sub of
        (Inl e, s) \<Rightarrow> (Inl e, s)
      | (Inr subID, s) \<Rightarrow>
          (case build_subs h s subs of
             (Inl e, s) \<Rightarrow> (Inl e, s)
           | (Inr es, s) \<Rightarrow> (Inr (dir_entry seg subID # es), s)))"
  by pat_completeness auto
termination
  by (relation "measure (\<lambda>x. case x of
        Inl (h, s, files) \<Rightarrow> 2 * path_weight files + 1
      | Inr (h, s, subs) \<Rightarrow> dirs_weight subs)")
    (use subdirs_weight in \<open>auto simp: dirs_weight_def less_Suc_eq_le\<close>)

declare buildTree.simps [simp del]

section \<open>The tree of a map, without a store\<close>

text \<open>The identity of the tree and the encodings of the objects it consists of, subtrees first.\<close>

function tree_of :: "hash_funs \<Rightarrow> code \<Rightarrow> files \<Rightarrow> goerr + (multihash \<times> byte list list)"
  and subs_of :: "hash_funs \<Rightarrow> code \<Rightarrow> (string \<times> files) list \<Rightarrow> goerr + (entry list \<times> byte list list)" where
  "tree_of h c files =
     rbind (subs_of h c (subdirs files)) (\<lambda>(es, bs).
     rbind (NewTree (blob_entries files @ es)) (\<lambda>obj.
     rbind (Sum h c (Encode obj)) (\<lambda>i.
     Inr (i, bs @ [Encode obj]))))"
| "subs_of h c [] = Inr ([], [])"
| "subs_of h c ((seg, sub) # subs) =
     rbind (tree_of h c sub) (\<lambda>(i, bs).
     rbind (subs_of h c subs) (\<lambda>(es, bs').
     Inr (dir_entry seg i # es, bs @ bs')))"
  by pat_completeness auto
termination
  by (relation "measure (\<lambda>x. case x of
        Inl (h, c, files) \<Rightarrow> 2 * path_weight files + 1
      | Inr (h, c, subs) \<Rightarrow> dirs_weight subs)")
    (use subdirs_weight in \<open>auto simp: dirs_weight_def less_Suc_eq_le\<close>)

declare tree_of.simps [simp del]

definition put_raws :: "hash_funs \<Rightarrow> objstore \<Rightarrow> byte list list \<Rightarrow> objstore" where
  "put_raws h s bs = snd (put_all (PutRaw h) s bs)"

lemma put_raws_simps [simp]:
  "put_raws h s [] = s"
  "put_raws h s (b # bs) = put_raws h (snd (PutRaw h s b)) bs"
  by (simp_all add: put_raws_def split: prod.splits)

lemma put_raws_append: "put_raws h s (bs @ bs') = put_raws h (put_raws h s bs) bs'"
  by (induction bs arbitrary: s) simp_all

lemma PutRaw_algo [simp]: "os_algo (snd (PutRaw h s b)) = os_algo s"
  by (simp add: PutRaw_def split: sum.split)

lemma put_raws_algo [simp]: "os_algo (put_raws h s bs) = os_algo s"
  by (induction bs arbitrary: s) simp_all

lemma fst_PutRaw: "wf_hashes h \<Longrightarrow> fst (PutRaw h s b) = Sum h (os_algo s) b"
proof (cases "Sum h (os_algo s) b")
  case (Inr i)
  assume "wf_hashes h"
  then obtain p where "store_path i = Inr p" using store_path_mh Sum_Verify [OF _ Inr] by blast
  with Inr show ?thesis by (simp add: PutRaw_def)
qed (simp add: PutRaw_def)

text \<open>What \<^verbatim>\<open>buildTree\<close> does to the store is to put the objects of the tree.\<close>

lemma build_tree_of:
  "wf_hashes h \<Longrightarrow> (case tree_of h (os_algo s) files of
     Inl e \<Rightarrow> fst (buildTree h s files) = Inl e
   | Inr (i, bs) \<Rightarrow> buildTree h s files = (Inr i, put_raws h s bs))"
  "wf_hashes h \<Longrightarrow> (case subs_of h (os_algo s) subs of
     Inl e \<Rightarrow> fst (build_subs h s subs) = Inl e
   | Inr (es, bs) \<Rightarrow> build_subs h s subs = (Inr es, put_raws h s bs))"
proof (induction h s files and h s subs rule: buildTree_build_subs.induct)
  case (1 h s files)
  show ?case
  proof (cases "subs_of h (os_algo s) (subdirs files)")
    case (Inl e)
    with 1 show ?thesis
      by (auto simp: tree_of.simps buildTree.simps split: prod.splits sum.splits)
  next
    case (Inr r)
    obtain es bs where r: "r = (es, bs)" by (cases r)
    with 1 Inr have b: "build_subs h s (subdirs files) = (Inr es, put_raws h s bs)" by simp
    show ?thesis
    proof (cases "NewTree (blob_entries files @ es)")
      case (Inl e)
      with b Inr r show ?thesis by (simp add: tree_of.simps buildTree.simps)
    next
      case (Inr obj)
      obtain x s' where x: "PutRaw h (put_raws h s bs) (Encode obj) = (x, s')" by fastforce
      then have "Sum h (os_algo s) (Encode obj) = x"
        using fst_PutRaw [OF 1(2), of "put_raws h s bs" "Encode obj"] by simp
      then show ?thesis
        using b Inr r x \<open>subs_of h _ _ = _\<close>
        by (cases x) (simp_all add: tree_of.simps buildTree.simps Put_def put_raws_append)
    qed
  qed
next
  case (3 h s seg sub subs)
  show ?case
  proof (cases "tree_of h (os_algo s) sub")
    case (Inl e)
    with 3 show ?thesis by (auto split: prod.splits sum.splits)
  next
    case (Inr r)
    obtain i bs where r: "r = (i, bs)" by (cases r)
    with 3(1,3) Inr have b: "buildTree h s sub = (Inr i, put_raws h s bs)" by simp
    have "case subs_of h (os_algo s) subs of
        Inl e \<Rightarrow> fst (build_subs h (put_raws h s bs) subs) = Inl e
      | Inr (es, bs') \<Rightarrow> build_subs h (put_raws h s bs) subs = (Inr es, put_raws h (put_raws h s bs) bs')"
      using 3(2) [OF b [symmetric] refl 3(3)] by simp
    with b Inr r show ?thesis
      by (auto simp: put_raws_append split: prod.splits sum.splits)
  qed
qed simp

section \<open>Sizes\<close>

text \<open>Maps that fit the address space: no length then overflows on the way.\<close>

definition file_weight :: "string \<times> file_ent \<Rightarrow> nat" where
  "file_weight f = length (fst f) + length (fe_id (snd f)) + 120"

definition files_ok :: "files \<Rightarrow> bool" where
  "files_ok files \<longleftrightarrow> distinct (map fst files) \<and> sum_list (map file_weight files) \<le> max_alloc"

definition entry_weight :: "entry \<Rightarrow> nat" where
  "entry_weight e = length (ename e) + length (eid e) + 56"

lemma enc_entry_length: "length (enc_entry e) \<le> entry_weight e"
  using length_appendUvarint [of "len64 (bytes_of (ename e))"] length_appendUvarint [of "ucast (emode e)"]
    length_appendUvarint [of "ekind e"] length_appendUvarint [of "len64 (eid e)"]
  by (simp add: enc_entry_def enc_entry_mode_def put_bytes_def entry_weight_def)

lemma weigh_entries:
  assumes "sum_list (map entry_weight es) \<le> max_alloc"
  shows "length es * 56 \<le> max_alloc" and "\<forall>e \<in> set es. wf_entry e" and "fits64 (enc_entries es)"
proof -
  have "length es * 56 \<le> sum_list (map entry_weight es)"
    by (induction es) (auto simp: entry_weight_def)
  with assms show "length es * 56 \<le> max_alloc" by simp
  have "e \<in> set es \<Longrightarrow> entry_weight e \<le> sum_list (map entry_weight es)" for e
    by (rule member_le_sum_list) simp_all
  with assms show "\<forall>e \<in> set es. wf_entry e"
    by (force simp: wf_entry_def fits64_def entry_weight_def max_alloc_def)
  have "length (concat (map enc_entry es)) \<le> sum_list (map entry_weight es)"
  proof (induction es)
    case (Cons e es)
    with enc_entry_length [of e] show ?case by simp
  qed simp
  with assms length_appendUvarint [of "len64 es"] show "fits64 (enc_entries es)"
    by (simp add: enc_entries_def fits64_def max_alloc_def)
qed

lemma readable_tree:
  assumes "distinct (map ename es)" "sum_list (map entry_weight es) \<le> max_alloc"
  shows "wf_obj (tree_obj (sort_key ename es))" and "TreeEntries (tree_obj (sort_key ename es)) = Inr (sort_key ename es)"
proof -
  have "mset (map entry_weight (sort_key ename es)) = mset (map entry_weight es)" by simp
  then have "sum_list (map entry_weight (sort_key ename es)) = sum_list (map entry_weight es)"
    by (metis sum_mset_sum_list)
  with assms(2) have w: "sum_list (map entry_weight (sort_key ename es)) \<le> max_alloc" by simp
  show "wf_obj (tree_obj (sort_key ename es))"
    unfolding tree_obj_def using weigh_entries(3) [OF w] by (intro wf_mkobj) (simp_all add: max_alloc_def)
  show "TreeEntries (tree_obj (sort_key ename es)) = Inr (sort_key ename es)"
    using sort_wf_entries [OF assms(1) weigh_entries(2,1) [OF assms(2)]] by (rule TreeEntries_tree)
qed

lemma Sum_length: "wf_hashes h \<Longrightarrow> Sum h c b = Inr i \<Longrightarrow> length i \<le> 52"
  using length_appendUvarint [of c] length_appendUvarint [of "len64 (algo_sum (the (registry h c)) b)"]
  by (auto simp: Sum_def mh_encode_def Let_def registry_sum_length appendUvarint_append [of "appendUvarint [] c"]
      split: option.splits)

lemma tree_of_length: "wf_hashes h \<Longrightarrow> tree_of h c files = Inr (i, bs) \<Longrightarrow> length i \<le> 52"
  by (auto simp: tree_of.simps result_iffs intro: Sum_length)

lemma list_all2_right: "list_all2 P xs ys \<Longrightarrow> y \<in> set ys \<Longrightarrow> \<exists>x \<in> set xs. P x y"
  by (induction rule: list_all2_induct) auto

lemma subs_of_entries:
  "subs_of h c subs = Inr (es, bs) \<Longrightarrow>
   list_all2 (\<lambda>(seg, sub) e. \<exists>i bs'. tree_of h c sub = Inr (i, bs') \<and> e = dir_entry seg i \<and> set bs' \<subseteq> set bs) subs es"
proof (induction subs arbitrary: es bs)
  case (Cons x subs)
  obtain seg sub where x: "x = (seg, sub)" by (cases x)
  from Cons.prems obtain i b1 es' b2 where
    t: "tree_of h c sub = Inr (i, b1)" "subs_of h c subs = Inr (es', b2)" "es = dir_entry seg i # es'" "bs = b1 @ b2"
    by (auto simp: x result_iffs)
  from Cons.IH [OF t(2)] have "list_all2 (\<lambda>(seg, sub) e. \<exists>i bs'. tree_of h c sub = Inr (i, bs') \<and>
      e = dir_entry seg i \<and> set bs' \<subseteq> set bs) subs es'"
    by (rule list_all2_mono) (auto simp: t(4))
  with t show ?case by (auto simp: x)
qed simp

section \<open>Reading back what was built\<close>

text \<open>\<^verbatim>\<open>out'\<close> is \<^verbatim>\<open>out\<close> with the pairs of \<^verbatim>\<open>P\<close> set.\<close>

definition extends :: "files \<Rightarrow> (string \<times> file_ent) set \<Rightarrow> files \<Rightarrow> bool" where
  "extends out P out' \<longleftrightarrow>
     (\<forall>q fe. map_of out' q = Some fe \<longleftrightarrow> (q, fe) \<in> P \<or> q \<notin> fst ` P \<and> map_of out q = Some fe)"

lemma extends_empty: "extends out {} out" by (simp add: extends_def)

lemma extends_one: "extends out {(q, fe)} (AList.update q fe out)"
  by (auto simp: extends_def update_conv')

lemma extends_join:
  "extends a P b \<Longrightarrow> extends b Q c \<Longrightarrow> fst ` P \<inter> fst ` Q = {} \<Longrightarrow> extends a (P \<union> Q) c"
  unfolding extends_def by (simp add: image_Un) (metis fst_conv image_eqI disjoint_iff)

lemma fold_extends:
  assumes "\<And>e out. e \<in> set es \<Longrightarrow> \<exists>out'. step out e = Inr out' \<and> extends out (K e) out'"
    and "\<And>d e. d \<in> set es \<Longrightarrow> e \<in> set es \<Longrightarrow> ename d \<noteq> ename e \<Longrightarrow> fst ` K d \<inter> fst ` K e = {}"
    and "distinct (map ename es)"
  shows "\<exists>out'. foldl (\<lambda>r e. rbind r (\<lambda>out. step out e)) (Inr out) es = Inr out' \<and>
    extends out (\<Union>e \<in> set es. K e) out'"
  using assms
proof (induction es rule: rev_induct)
  case Nil
  then show ?case by (simp add: extends_empty)
next
  case (snoc e es)
  obtain a where a: "foldl (\<lambda>r e. rbind r (\<lambda>out. step out e)) (Inr out) es = Inr a"
    "extends out (\<Union>e \<in> set es. K e) a"
    using snoc.IH snoc.prems by auto
  obtain b where b: "step a e = Inr b" "extends a (K e) b" using snoc.prems(1) [of e] by auto
  have "fst ` K d \<inter> fst ` K e = {}" if "d \<in> set es" for d
    using snoc.prems(3) that by (intro snoc.prems(2)) (auto, metis imageI)
  then have "fst ` (\<Union>e \<in> set es. K e) \<inter> fst ` K e = {}" by blast
  with extends_join [OF a(2) b(2)] a(1) b(1) show ?case by (simp add: Un_commute)
qed

definition under :: "string \<Rightarrow> files \<Rightarrow> (string \<times> file_ent) set" where
  "under prefix files = (\<lambda>(p, fe). (entry_path prefix p, fe)) ` set files"

lemma mem_under: "(q, fe) \<in> under prefix files \<longleftrightarrow> (\<exists>p. (p, fe) \<in> set files \<and> q = entry_path prefix p)"
  by (force simp: under_def)

lemma entry_path_inj [simp]: "entry_path prefix p = entry_path prefix q \<longleftrightarrow> p = q"
  by (simp add: entry_path_def)

lemma under_apart: "m \<noteq> n \<Longrightarrow>
    fst ` under prefix (filter (\<lambda>f. seg_of (fst f) = m) files) \<inter>
    fst ` under prefix (filter (\<lambda>f. seg_of (fst f) = n) files) = {}"
  by (auto simp: under_def)

lemma not_nested_seg: "\<not> nested (p, fe) \<Longrightarrow> seg_of p = p"
  by (auto simp: nested_def seg_of_def)

lemma nested_split: "nested (p, fe) \<Longrightarrow> p = seg_of p @ ''/'' @ rest_of p"
proof -
  assume "nested (p, fe)"
  then obtain t where "dropWhile (\<lambda>c. c \<noteq> CHR ''/'') p = CHR ''/'' # t"
    by (cases "dropWhile (\<lambda>c. c \<noteq> CHR ''/'') p")
      (auto simp: nested_def dropWhile_eq_Nil_conv dropWhile_eq_Cons_conv)
  then show ?thesis unfolding seg_of_def rest_of_def
    using takeWhile_dropWhile_id [of "\<lambda>c. c \<noteq> CHR ''/''" p] by simp
qed

lemma seg_rest_inj: "nested (p, fe) \<Longrightarrow> nested (q, fe') \<Longrightarrow> seg_of p = seg_of q \<Longrightarrow> rest_of p = rest_of q \<Longrightarrow> p = q"
  using nested_split by metis

lemma entry_path_nested: "nested (p, fe) \<Longrightarrow> entry_path prefix (seg_of p) \<noteq> [] \<Longrightarrow>
    entry_path (entry_path prefix (seg_of p)) (rest_of p) = entry_path prefix p"
  using nested_split [of p fe] by (auto simp: entry_path_def)

lemma distinct_sub: "distinct (map fst files) \<Longrightarrow> distinct (map fst (sub_files seg files))"
proof -
  assume d: "distinct (map fst files)"
  let ?F = "filter (\<lambda>f. seg_of (fst f) = seg) (filter nested files)"
  have "inj_on (\<lambda>f. rest_of (fst f)) (set ?F)"
    using d seg_rest_inj unfolding inj_on_def by (fastforce intro: eq_key_imp_eq_value)
  moreover have "distinct ?F" using d by (auto simp: distinct_map)
  ultimately show ?thesis
    by (simp add: sub_files_def comp_def case_prod_unfold distinct_map)
qed

lemma files_ok_sub: "files_ok files \<Longrightarrow> files_ok (sub_files seg files)"
proof -
  assume ok: "files_ok files"
  let ?F = "filter (\<lambda>f. seg_of (fst f) = seg) (filter nested files)"
  have "sum_list (map file_weight (map (\<lambda>(p, fe). (rest_of p, fe)) fs)) \<le> sum_list (map file_weight fs)"
    if "\<forall>f \<in> set fs. nested f" for fs
    using that
  proof (induction fs)
    case (Cons f fs)
    obtain p fe where "f = (p, fe)" by (cases f)
    with Cons rest_of_length [of p fe] show ?case by (auto simp: file_weight_def)
  qed simp
  from this [of ?F] have "sum_list (map file_weight (sub_files seg files)) \<le> sum_list (map file_weight ?F)"
    by (simp add: sub_files_def)
  also have "\<dots> \<le> sum_list (map file_weight files)"
    by (induction files) auto
  finally have "sum_list (map file_weight (sub_files seg files)) \<le> max_alloc"
    using ok by (simp add: files_ok_def)
  moreover have "distinct (map fst (sub_files seg files))"
    using ok by (intro distinct_sub) (simp add: files_ok_def)
  ultimately show ?thesis by (simp add: files_ok_def)
qed

text \<open>The directories and the depth of a map.\<close>

definition shallow :: "nat \<Rightarrow> files \<Rightarrow> bool" where
  "shallow stk files \<longleftrightarrow> 0 < stk \<and> (\<forall>(p, fe) \<in> set files. count_list p (CHR ''/'') < stk)"

definition placed :: "string \<Rightarrow> files \<Rightarrow> bool" where
  "placed prefix files \<longleftrightarrow> prefix \<noteq> [] \<or> (\<forall>(p, fe) \<in> set files. \<not> has_prefix p ''/'')"

lemma shallow_sub:
  assumes "shallow (Suc stk) files" "(seg, sub) \<in> set (subdirs files)"
  shows "shallow stk sub"
proof -
  have c: "count_list p (CHR ''/'') = Suc (count_list (rest_of p) (CHR ''/''))" if "nested (p, fe)" for p fe
  proof -
    have "CHR ''/'' \<notin> set (seg_of p)" by (auto simp: seg_of_def dest: set_takeWhileD)
    then have "count_list (seg_of p) (CHR ''/'') = 0" by (simp add: count_list_0_iff)
    then show ?thesis
      by (subst nested_split [OF that]) simp
  qed
  have "\<forall>(p, fe) \<in> set sub. count_list p (CHR ''/'') < stk"
    using assms c by (fastforce simp: shallow_def subdirs_def sub_files_def)
  moreover have "sub \<noteq> []" using assms(2) by (force simp: subdirs_def sub_files_def filter_empty_conv)
  ultimately show ?thesis unfolding shallow_def by (cases sub) auto
qed

lemma placed_path: "placed prefix files \<Longrightarrow> (p, fe) \<in> set files \<Longrightarrow> nested (p, fe) \<Longrightarrow> entry_path prefix (seg_of p) \<noteq> []"
  unfolding placed_def entry_path_def has_prefix_iff
  using nested_split [of p fe] by (cases "seg_of p") auto

lemma under_sub:
  assumes "(seg, sub) \<in> set (subdirs files)" "placed prefix files"
  shows "under (entry_path prefix seg) sub = under prefix (filter (\<lambda>f. seg_of (fst f) = seg) (filter nested files))"
proof -
  have sub: "sub = map (\<lambda>(p, fe). (rest_of p, fe)) (filter (\<lambda>f. seg_of (fst f) = seg) (filter nested files))"
    using assms(1) by (auto simp: subdirs_def sub_files_def)
  have "entry_path (entry_path prefix seg) (rest_of p) = entry_path prefix p"
    if "(p, fe) \<in> set files" "nested (p, fe)" "seg_of p = seg" for p fe
    using entry_path_nested [OF that(2)] placed_path [OF assms(2) that(1,2)] that(3) by simp
  then show ?thesis unfolding under_def sub set_map image_image by (intro image_cong) auto
qed

lemma entries_weight:
  assumes "wf_hashes h" "subs_of h c (subdirs files) = Inr (es, bs)"
  shows "sum_list (map entry_weight (blob_entries files @ es)) \<le> sum_list (map file_weight files)"
    and "map ename es = map fst (subdirs files)"
proof -
  note l = subs_of_entries [OF assms(2)]
  have "list_all2 (\<lambda>(seg, sub) e. ename e = seg \<and> entry_weight e \<le> length seg + 108) (subdirs files) es"
    using l by (rule list_all2_mono)
      (auto simp: dir_entry_def entry_weight_def dest!: tree_of_length [OF assms(1)])
  then have both: "map ename es = map fst (subdirs files) \<and>
      sum_list (map entry_weight es) \<le> sum_list (map (\<lambda>(seg, sub). length seg + 108) (subdirs files))"
    by (induction rule: list_all2_induct) auto
  then show "map ename es = map fst (subdirs files)" ..
  have e: "sum_list (map entry_weight es) \<le> sum_list (map (\<lambda>(seg, sub). length seg + 108) (subdirs files))"
    using both ..
  have "sum_list (map (\<lambda>(seg, sub). length seg + 108) (subdirs files)) \<le> sum_list (map file_weight (filter nested files))"
  proof (rule subdirs_sum)
    fix seg and fs :: files
    assume a: "fs \<noteq> []" "\<forall>f \<in> set fs. nested f \<and> seg_of (fst f) = seg"
    obtain p fe fs' where fs: "fs = (p, fe) # fs'" using a(1) by (metis neq_Nil_conv surj_pair)
    with a rest_of_length [of p fe] show "length seg + 108 \<le> sum_list (map file_weight fs)"
      by (auto simp: file_weight_def)
  qed
  moreover have "sum_list (map entry_weight (blob_entries files)) + sum_list (map file_weight (filter nested files))
      \<le> sum_list (map file_weight files)"
    by (induction files) (auto simp: blob_entries_def entry_weight_def file_weight_def)
  ultimately show "sum_list (map entry_weight (blob_entries files @ es)) \<le> sum_list (map file_weight files)"
    using e by simp
qed

definition readable :: "hash_funs \<Rightarrow> code \<Rightarrow> objstore \<Rightarrow> byte list list \<Rightarrow> bool" where
  "readable h c s bs \<longleftrightarrow> (\<forall>b \<in> set bs. \<forall>i. Sum h c b = Inr i \<longrightarrow> GetRaw h s i = Inr b)"

lemma flatten_tree:
  assumes "wf_hashes h"
  shows "tree_of h c files = Inr (i, bs) \<Longrightarrow> readable h c s bs \<Longrightarrow> files_ok files \<Longrightarrow> shallow stk files \<Longrightarrow>
    placed prefix files \<Longrightarrow> \<exists>out'. flattenInto stk h s i prefix out = Inr out' \<and> extends out (under prefix files) out'"
proof (induction stk arbitrary: files i bs prefix out)
  case 0
  then show ?case by (simp add: shallow_def)
next
  case (Suc stk)
  from Suc.prems(1) obtain es bs1 obj where t: "subs_of h c (subdirs files) = Inr (es, bs1)"
    "NewTree (blob_entries files @ es) = Inr obj" "Sum h c (Encode obj) = Inr i" "bs = bs1 @ [Encode obj]"
    by (auto simp: tree_of.simps result_iffs)
  let ?E = "blob_entries files @ es"
  have d: "distinct (map ename ?E)" and obj: "obj = tree_obj (sort_key ename ?E)"
    using t(2) by (auto simp: NewTree_eq split: if_splits)
  have w: "sum_list (map entry_weight ?E) \<le> max_alloc"
    using entries_weight(1) [OF assms t(1)] Suc.prems(3) by (simp add: files_ok_def)
  note r = readable_tree [OF d w]
  have get: "Get h s i = Inr obj"
    using Suc.prems(2) t r(1) by (simp add: readable_def Get_def obj)
  let ?K = "\<lambda>e. under prefix (filter (\<lambda>f. seg_of (fst f) = ename e) files)"
  let ?step = "\<lambda>out e. let p = entry_path prefix (ename e) in
      if ekind e = TypeTree then flattenInto stk h s (eid e) p out
      else Inr (AList.update p \<lparr>fe_id = eid e, fe_mode = emode e\<rparr> out)"
  have segs: "nested (p, fe) \<Longrightarrow> (p, fe) \<in> set files \<Longrightarrow> seg_of p \<in> ename ` set es" for p fe
    using entries_weight(2) [OF assms t(1)] unfolding set_map [symmetric]
    by (force simp: subdirs_def)
  have step: "\<exists>out'. ?step out e = Inr out' \<and> extends out (?K e) out'" if e: "e \<in> set (sort_key ename ?E)" for e out
  proof (cases "e \<in> set es")
    case True
    with subs_of_entries [OF t(1)] obtain seg sub i' bs' where s: "(seg, sub) \<in> set (subdirs files)"
      "tree_of h c sub = Inr (i', bs')" "e = dir_entry seg i'" "set bs' \<subseteq> set bs1"
      by (auto dest!: list_all2_right [OF _ True])
    have nested: "nested (p, fe)" if "(p, fe) \<in> set files" "seg_of p = seg" for p fe
      using d True that s(3) not_nested_seg [of p fe]
      by (force simp: blob_entries_def dir_entry_def)
    have "filter (\<lambda>f. seg_of (fst f) = ename e) files = filter (\<lambda>f. seg_of (fst f) = seg) (filter nested files)"
      using nested s(3) unfolding filter_filter by (intro filter_cong) (auto simp: dir_entry_def)
    then have "?K e = under (entry_path prefix seg) sub"
      using under_sub [OF s(1) Suc.prems(5)] by simp
    moreover have "entry_path prefix seg \<noteq> []"
      using s(1) placed_path [OF Suc.prems(5)] by (fastforce simp: subdirs_def)
    moreover have "files_ok sub" using s(1) files_ok_sub [OF Suc.prems(3)] by (auto simp: subdirs_def)
    moreover have "readable h c s bs'" using Suc.prems(2) s(4) t(4) by (auto simp: readable_def)
    ultimately show ?thesis
      using Suc.IH [OF s(2) _ _ shallow_sub [OF Suc.prems(4) s(1)], of "entry_path prefix seg" out] s(3)
      by (simp add: dir_entry_def placed_def)
  next
    case False
    with e obtain p fe where b: "(p, fe) \<in> set files" "\<not> nested (p, fe)"
      "e = \<lparr>ename = p, emode = fe_mode fe, ekind = TypeBlob, eid = fe_id fe\<rparr>"
      by (auto simp: blob_entries_def)
    have "q = p \<and> fe' = fe" if q: "(q, fe') \<in> set files" "seg_of q = p" for q fe'
    proof -
      have "\<not> nested (q, fe')" using segs [OF _ q(1)] q(2) d b by (force simp: blob_entries_def)
      then have "q = p" using not_nested_seg [of q fe'] q(2) by simp
      with q(1) b(1) Suc.prems(3) show ?thesis
        by (auto simp: files_ok_def dest: eq_key_imp_eq_value)
    qed
    then have "f \<in> set files \<and> seg_of (fst f) = p \<longleftrightarrow> f = (p, fe)" for f
      using b(1) not_nested_seg [OF b(2)] by (metis prod.collapse fst_conv)
    then have "set (filter (\<lambda>f. seg_of (fst f) = p) files) = {(p, fe)}" by auto
    then have "?K e = {(entry_path prefix p, fe)}" using b(3) by (simp add: under_def del: set_filter)
    then show ?thesis
      using b(3) extends_one [of out "entry_path prefix p" fe] by (simp add: TypeBlob_def TypeTree_def)
  qed
  have "\<exists>out'. foldl (\<lambda>r e. rbind r (\<lambda>out. ?step out e)) (Inr out) (sort_key ename ?E) = Inr out' \<and>
      extends out (\<Union>e \<in> set (sort_key ename ?E). ?K e) out'"
  proof (rule fold_extends [OF step])
    have "mset (map ename (sort_key ename ?E)) = mset (map ename ?E)" by simp
    with d show "distinct (map ename (sort_key ename ?E))" using mset_eq_imp_distinct_iff by blast
  qed (use under_apart in auto)
  moreover have "(\<Union>e \<in> set (sort_key ename ?E). ?K e) = under prefix files"
  proof -
    have "\<exists>e \<in> set ?E. seg_of p = ename e" if "(p, fe) \<in> set files" for p fe
      using segs [OF _ that] that not_nested_seg [of p fe] by (cases "nested (p, fe)") (force simp: blob_entries_def)+
    then show ?thesis by (fastforce simp: mem_under)
  qed
  ultimately show ?case using get r(2) obj by simp
qed

section \<open>When a map is a tree\<close>

text \<open>No file lies where another one needs a directory.\<close>

definition no_clash :: "files \<Rightarrow> bool" where
  "no_clash files = list_all (\<lambda>p. list_all (\<lambda>q. \<not> has_prefix q (p @ ''/'')) (map fst files)) (map fst files)"

lemma no_clash_iff: "no_clash files \<longleftrightarrow> (\<forall>p \<in> fst ` set files. \<forall>q \<in> fst ` set files. \<not> has_prefix q (p @ ''/''))"
  by (simp add: no_clash_def list_all_iff)

lemma prefix_blob: "\<not> nested (p, fe) \<Longrightarrow> has_prefix q (p @ ''/'') \<longleftrightarrow> nested (q, fe') \<and> seg_of q = p"
proof
  assume "\<not> nested (p, fe)" "has_prefix q (p @ ''/'')"
  then show "nested (q, fe') \<and> seg_of q = p"
    by (auto simp: has_prefix_iff nested_def seg_of_def takeWhile_append)
next
  assume "nested (q, fe') \<and> seg_of q = p"
  then show "has_prefix q (p @ ''/'')" using nested_split [of q fe'] by (auto simp: has_prefix_iff)
qed

lemma prefix_nested: "nested (p, fe) \<Longrightarrow> has_prefix q (p @ ''/'') \<longleftrightarrow>
    nested (q, fe') \<and> seg_of q = seg_of p \<and> has_prefix (rest_of q) (rest_of p @ ''/'')"
proof
  assume n: "nested (p, fe)" "has_prefix q (p @ ''/'')"
  from n(2) obtain t where "q = p @ ''/'' @ t" by (auto simp: has_prefix_iff)
  also have "p = seg_of p @ ''/'' @ rest_of p" by (rule nested_split [OF n(1)])
  finally have q: "q = seg_of p @ ''/'' @ rest_of p @ ''/'' @ t" by simp
  have "CHR ''/'' \<notin> set (seg_of p)" by (auto simp: seg_of_def dest: set_takeWhileD)
  then have "seg_of q = seg_of p" "rest_of q = rest_of p @ ''/'' @ t"
    unfolding q by (auto simp: seg_of_def rest_of_def takeWhile_append dropWhile_append)
  then show "nested (q, fe') \<and> seg_of q = seg_of p \<and> has_prefix (rest_of q) (rest_of p @ ''/'')"
    using q by (auto simp: has_prefix_iff nested_def)
next
  assume n: "nested (p, fe)" "nested (q, fe') \<and> seg_of q = seg_of p \<and> has_prefix (rest_of q) (rest_of p @ ''/'')"
  then obtain t where t: "rest_of q = rest_of p @ ''/'' @ t" by (auto simp: has_prefix_iff)
  have "q = seg_of p @ ''/'' @ rest_of q" using nested_split [of q fe'] n(2) by simp
  also have "\<dots> = (seg_of p @ ''/'' @ rest_of p) @ ''/'' @ t" using t by simp
  also have "seg_of p @ ''/'' @ rest_of p = p" by (rule nested_split [OF n(1), symmetric])
  finally show "has_prefix q (p @ ''/'')" by (auto simp: has_prefix_iff)
qed

lemma no_clash_split:
  "no_clash files \<longleftrightarrow> fst ` set (filter (\<lambda>f. \<not> nested f) files) \<inter> fst ` set (subdirs files) = {} \<and>
     (\<forall>(seg, sub) \<in> set (subdirs files). no_clash sub)" (is "_ \<longleftrightarrow> ?B \<and> ?S")
proof -
  have "?B \<longleftrightarrow> (\<forall>f \<in> set files. \<not> nested f \<longrightarrow> (\<forall>g \<in> set files. \<not> (nested g \<and> seg_of (fst g) = fst f)))"
  proof -
    have "fst ` set (subdirs files) = (\<lambda>g. seg_of (fst g)) ` {g \<in> set files. nested g}"
      by (simp add: subdirs_def image_image)
    then show ?thesis by (simp add: disjoint_iff) blast
  qed
  also have "\<dots> \<longleftrightarrow> (\<forall>f \<in> set files. \<not> nested f \<longrightarrow> (\<forall>g \<in> set files. \<not> has_prefix (fst g) (fst f @ ''/'')))"
    by (intro ball_cong refl imp_cong) (metis prefix_blob prod.collapse)
  finally have b: "?B \<longleftrightarrow> \<dots>" .
  have paths: "fst ` set (sub_files seg files) = {rest_of (fst f) | f. f \<in> set files \<and> nested f \<and> seg_of (fst f) = seg}" for seg
    by (force simp: sub_files_def)
  have "?S \<longleftrightarrow> (\<forall>f \<in> set files. nested f \<longrightarrow> no_clash (sub_files (seg_of (fst f)) files))"
    by (auto simp: subdirs_def)
  also have "\<dots> \<longleftrightarrow> (\<forall>f \<in> set files. nested f \<longrightarrow> (\<forall>g \<in> set files.
      \<not> (nested g \<and> seg_of (fst g) = seg_of (fst f) \<and> has_prefix (rest_of (fst g)) (rest_of (fst f) @ ''/''))))"
  proof (intro iffI ballI impI)
    fix f g assume L: "\<forall>f \<in> set files. nested f \<longrightarrow> no_clash (sub_files (seg_of (fst f)) files)"
      and f: "f \<in> set files" "nested f" and g: "g \<in> set files"
    from L f have "no_clash (sub_files (seg_of (fst f)) files)" by blast
    moreover have "rest_of (fst f) \<in> fst ` set (sub_files (seg_of (fst f)) files)"
      unfolding paths using f by blast
    moreover have "nested g \<and> seg_of (fst g) = seg_of (fst f) \<longrightarrow> rest_of (fst g) \<in> fst ` set (sub_files (seg_of (fst f)) files)"
      unfolding paths using g by blast
    ultimately show "\<not> (nested g \<and> seg_of (fst g) = seg_of (fst f) \<and> has_prefix (rest_of (fst g)) (rest_of (fst f) @ ''/''))"
      unfolding no_clash_iff by blast
  next
    fix f assume R: "\<forall>f \<in> set files. nested f \<longrightarrow> (\<forall>g \<in> set files.
      \<not> (nested g \<and> seg_of (fst g) = seg_of (fst f) \<and> has_prefix (rest_of (fst g)) (rest_of (fst f) @ ''/'')))"
    show "no_clash (sub_files (seg_of (fst f)) files)"
      unfolding no_clash_iff paths
    proof (intro ballI)
      fix p q assume "p \<in> {rest_of (fst f') | f'. f' \<in> set files \<and> nested f' \<and> seg_of (fst f') = seg_of (fst f)}"
        "q \<in> {rest_of (fst f') | f'. f' \<in> set files \<and> nested f' \<and> seg_of (fst f') = seg_of (fst f)}"
      then obtain f1 f2 where "p = rest_of (fst f1)" "f1 \<in> set files" "nested f1" "seg_of (fst f1) = seg_of (fst f)"
        "q = rest_of (fst f2)" "f2 \<in> set files" "nested f2" "seg_of (fst f2) = seg_of (fst f)"
        by (elim CollectE exE conjE) (rule that)
      with R show "\<not> has_prefix q (p @ ''/'')" by (metis (no_types))
    qed
  qed
  also have "\<dots> \<longleftrightarrow> (\<forall>f \<in> set files. nested f \<longrightarrow> (\<forall>g \<in> set files. \<not> has_prefix (fst g) (fst f @ ''/'')))"
    by (intro ball_cong refl imp_cong) (metis prefix_nested prod.collapse)
  finally have s: "?S \<longleftrightarrow> \<dots>" .
  have "no_clash files \<longleftrightarrow> (\<forall>f \<in> set files. \<forall>g \<in> set files. \<not> has_prefix (fst g) (fst f @ ''/''))"
    by (simp add: no_clash_iff)
  then show ?thesis unfolding b s by blast
qed

lemma tree_of_decides:
  "registry h c \<noteq> None \<Longrightarrow> distinct (map fst files) \<Longrightarrow>
   if no_clash files then \<exists>r. tree_of h c files = Inr r
   else tree_of h c files = Inl (Panic ''object: duplicate tree entry name'')"
  "registry h c \<noteq> None \<Longrightarrow> \<forall>(seg, sub) \<in> set subs. distinct (map fst sub) \<Longrightarrow>
   if \<forall>(seg, sub) \<in> set subs. no_clash sub
   then \<exists>es bs. subs_of h c subs = Inr (es, bs) \<and> map ename es = map fst subs
   else subs_of h c subs = Inl (Panic ''object: duplicate tree entry name'')"
proof (induction h c files and h c subs rule: tree_of_subs_of.induct)
  case (1 h c files)
  have "\<forall>(seg, sub) \<in> set (subdirs files). distinct (map fst sub)"
    using distinct_sub [OF 1(3)] by (auto simp: subdirs_def)
  note IH = 1(1) [OF 1(2) this]
  show ?case
  proof (cases "\<forall>(seg, sub) \<in> set (subdirs files). no_clash sub")
    case True
    with IH obtain es bs where es: "subs_of h c (subdirs files) = Inr (es, bs)" "map ename es = map fst (subdirs files)"
      by auto
    have "ename ` set (blob_entries files) = fst ` set (filter (\<lambda>f. \<not> nested f) files)"
      by (force simp: blob_entries_def)
    moreover have "map ename (blob_entries files) = map fst (filter (\<lambda>f. \<not> nested f) files)"
      by (simp add: blob_entries_def comp_def case_prod_unfold)
    then have "distinct (map ename (blob_entries files))" using 1(3) by (simp add: distinct_map_filter)
    moreover have "distinct (map ename es)" "ename ` set es = fst ` set (subdirs files)"
      using es(2) unfolding set_map [symmetric] by (simp_all add: subdirs_def comp_def)
    ultimately have "distinct (map ename (blob_entries files @ es)) \<longleftrightarrow> no_clash files"
      using True no_clash_split [of files] by auto
    moreover obtain i where "Sum h c b = Inr (i b)" for b
      using 1(2) by (auto simp: Sum_def)
    ultimately show ?thesis
      using es(1) by (simp add: tree_of.simps NewTree_eq)
  next
    case False
    with IH no_clash_split [of files] show ?thesis by (auto simp: tree_of.simps)
  qed
next
  case (3 h c seg sub subs)
  show ?case
  proof (cases "no_clash sub")
    case True
    with 3 obtain i bs where t: "tree_of h c sub = Inr (i, bs)" by auto
    note IH = 3(2) [OF t refl 3(3)]
    show ?thesis
    proof (cases "\<forall>(seg, sub) \<in> set subs. no_clash sub")
      case True
      with IH 3(4) obtain es bs' where "subs_of h c subs = Inr (es, bs')" "map ename es = map fst subs" by auto
      with t True \<open>no_clash sub\<close> show ?thesis by (simp add: dir_entry_def)
    next
      case False
      with IH 3(4) t show ?thesis by auto
    qed
  next
    case False
    with 3 show ?thesis by simp
  qed
qed simp

section \<open>The store after a build\<close>

lemma set_update_subset: "set (AList.update k v al) \<subseteq> insert (k, v) (set al)"
  by (induction al) auto

lemma PutRaw_files: "snd ` set (os_files (snd (PutRaw h s b))) \<subseteq> insert b (snd ` set (os_files s))"
  by (auto simp: PutRaw_def dest!: set_update_subset [THEN subsetD] split: sum.splits if_splits)

lemma put_raws_files: "snd ` set (os_files (put_raws h s bs)) \<subseteq> set bs \<union> snd ` set (os_files s)"
proof (induction bs arbitrary: s)
  case (Cons b bs)
  from Cons [of "snd (PutRaw h s b)"] PutRaw_files [of h s b] show ?case by auto
qed simp

lemma put_raws_keeps:
  assumes "wf_hashes h" "store_ok h s"
  shows "store_ok h (put_raws h s bs)" and "GetRaw h s j = Inr b \<Longrightarrow> GetRaw h (put_raws h s bs) j = Inr b"
  using disk.put_all_keeps [of h s bs "fst (put_all (PutRaw h) s bs)" "put_raws h s bs"] assms
  by (simp_all add: put_raws_def)

lemma put_raws_stored:
  "wf_hashes h \<Longrightarrow> store_ok h s \<Longrightarrow> b \<in> set bs \<Longrightarrow> Sum h (os_algo s) b = Inr i \<Longrightarrow>
   \<exists>b'. GetRaw h (put_raws h s bs) i = Inr b'"
proof (induction bs arbitrary: s)
  case (Cons a bs)
  obtain r s1 where p: "PutRaw h s a = (r, s1)" by (cases "PutRaw h s a")
  have ok: "store_ok h s1" using disk.put_inv [OF conjI [OF Cons.prems(1,2)] p] by simp
  have alg: "os_algo s1 = os_algo s" using PutRaw_algo [of h s a] p by simp
  show ?case
  proof (cases "b = a")
    case True
    then have "r = Inr i" using fst_PutRaw [OF Cons.prems(1), of s a] p Cons.prems(4) by simp
    then obtain b' where "GetRaw h s1 i = Inr b'"
      using disk.put_stored [OF conjI [OF Cons.prems(1,2)]] p by blast
    with put_raws_keeps(2) [OF Cons.prems(1) ok] p show ?thesis by auto
  next
    case False
    with Cons.IH [OF Cons.prems(1) ok] Cons.prems(3,4) alg p show ?thesis by simp
  qed
qed simp

text \<open>Without a collision among the objects concerned, every object reads back as it was stored.\<close>

lemma put_raws_readable:
  assumes "wf_hashes h" "store_ok h s" "inj_on (Sum h (os_algo s)) (set bs \<union> snd ` set (os_files s))"
  shows "readable h (os_algo s) (put_raws h s bs) bs"
  unfolding readable_def
proof (intro ballI allI impI)
  fix b i assume b: "b \<in> set bs" "Sum h (os_algo s) b = Inr i"
  obtain b' where g: "GetRaw h (put_raws h s bs) i = Inr b'" using put_raws_stored [OF assms(1,2) b] ..
  then have "b' \<in> snd ` set (os_files (put_raws h s bs))"
    by (force simp: GetRaw_def result_iffs dest: map_of_SomeD split: option.splits)
  then have in': "b' \<in> set bs \<union> snd ` set (os_files s)" using put_raws_files by blast
  have "Verify h i b' = Inr True" using g by (rule GetRaw_verified)
  then have "Sum h (os_algo s) b' = Inr i"
    using Sum_decode [OF assms(1) b(2)] unfolding Verify_iff [OF assms(1)]
    by (auto simp: Sum_def mh_decode_iff fits64_def registry_sum_length [OF assms(1)] dest!: mh_encode_inj [rotated 2])
  then have "b' = b" using b in' assms(3) by (auto simp: inj_on_def)
  with g show "GetRaw h (put_raws h s bs) i = Inr b" by simp
qed

lemma build_then_flatten:
  assumes "wf_hashes h" "store_ok h s" "tree_of h (os_algo s) files = Inr (i, bs)"
    and "inj_on (Sum h (os_algo s)) (set bs \<union> snd ` set (os_files s))"
    and "files_ok files" "shallow stk files" "placed [] files"
  shows "\<exists>s' out. buildTree h s files = (Inr i, s') \<and> store_ok h s' \<and>
    flatten stk h s' (Some i) = Inr out \<and> map_of out = map_of files"
proof -
  let ?s = "put_raws h s bs"
  have "buildTree h s files = (Inr i, ?s)" using build_tree_of(1) [OF assms(1), of s files] assms(3) by simp
  moreover obtain out where o: "flattenInto stk h ?s i [] [] = Inr out" "extends [] (under [] files) out"
    using flatten_tree [OF assms(1,3) put_raws_readable [OF assms(1,2,4)] assms(5-7)] by blast
  have "map_of out q = Some fe \<longleftrightarrow> map_of files q = Some fe" for q fe
    using o(2) assms(5) by (auto simp: extends_def mem_under entry_path_def files_ok_def)
  then have "map_of out = map_of files" by (intro ext) (metis option.exhaust)
  ultimately show ?thesis
    using o(1) put_raws_keeps(1) [OF assms(1,2)] by (auto simp: flatten_def)
qed

section \<open>Properties\<close>

definition demo_files :: files where
  "demo_files = [(''a/b'', \<lparr>fe_id = [1], fe_mode = modeFile\<rparr>), (''c'', \<lparr>fe_id = [2], fe_mode = 33261\<rparr>)]"

definition ends_hash :: hash_funs where
  "ends_hash = \<lparr>sha256_sum = (\<lambda>b. take 32 (rev b @ replicate 32 0)), blake3_sum = (\<lambda>b. take 32 (rev b @ replicate 32 0))\<rparr>"

lemma ends_hash_ok: "wf_hashes ends_hash" and ends_hash_registered [simp]: "registry ends_hash (os_algo Open_store) \<noteq> None"
  by (simp_all add: wf_hashes_def ends_hash_def registry_def Open_store_def Default_def min_def)

text \<open>Writing a file map as a tree succeeds exactly when no file's path is needed as a
  directory by another file; when one is, \<^verbatim>\<open>NewTree\<close> panics on the duplicate name. (The merge
  and the transactions build such maps from independent edits and do not check for this.)\<close>

theorem build_tree_decides:
  assumes "wf_hashes h" "registry h (os_algo s) \<noteq> None" "distinct (map fst files)"
  shows "if no_clash files then \<exists>i bs. buildTree h s files = (Inr i, put_raws h s bs)
         else fst (buildTree h s files) = Inl (Panic ''object: duplicate tree entry name'')"
  using tree_of_decides(1) [OF assms(2,3)] build_tree_of(1) [OF assms(1), of s files]
  by (auto split: if_splits)

theorem build_tree_decides_witness:
  "fst (buildTree ends_hash Open_store ((''a'', \<lparr>fe_id = [3], fe_mode = modeFile\<rparr>) # demo_files))
    = Inl (Panic ''object: duplicate tree entry name'')"
proof -
  have "\<not> no_clash ((''a'', \<lparr>fe_id = [3], fe_mode = modeFile\<rparr>) # demo_files)"
    "distinct (map fst ((''a'', \<lparr>fe_id = [3], fe_mode = modeFile\<rparr>) # demo_files))"
    by (simp_all add: no_clash_def demo_files_def has_prefix_def)
  with build_tree_decides [OF ends_hash_ok, of Open_store "(''a'', \<lparr>fe_id = [3], fe_mode = modeFile\<rparr>) # demo_files"]
  show ?thesis by simp
qed

text \<open>A map of files written as a tree reads back as the same map, whatever the nesting:
  \<^verbatim>\<open>flatten\<close> inverts \<^verbatim>\<open>buildTree\<close>, with a recursion depth one more than the slashes of the
  longest path, provided that no path begins with a slash, that the map fits memory, and
  that the hash tells the objects concerned apart.\<close>

theorem tree_files_roundtrip:
  assumes "wf_hashes h" "store_ok h s" "tree_of h (os_algo s) files = Inr (i, bs)"
    and "inj_on (Sum h (os_algo s)) (set bs \<union> snd ` set (os_files s))"
    and "files_ok files" "shallow stk files" "placed [] files"
  shows "\<exists>s' out. buildTree h s files = (Inr i, s') \<and> store_ok h s' \<and>
    flatten stk h s' (Some i) = Inr out \<and> map_of out = map_of files"
  using build_then_flatten [OF assms] .

theorem tree_files_roundtrip_witness:
  "\<exists>i s' out. buildTree ends_hash Open_store demo_files = (Inr i, s') \<and> flatten 2 ends_hash s' (Some i) = Inr out \<and>
     map_of out ''a/b'' = Some \<lparr>fe_id = [1], fe_mode = modeFile\<rparr>"
proof -
  have "case tree_of ends_hash Default demo_files of Inl _ \<Rightarrow> False
      | Inr (i, bs) \<Rightarrow> distinct (map (Sum ends_hash Default) bs)" by code_simp
  then obtain i bs where t: "tree_of ends_hash Default demo_files = Inr (i, bs)" "distinct (map (Sum ends_hash Default) bs)"
    by (auto split: sum.splits)
  have "files_ok demo_files" "shallow 2 demo_files" "placed [] demo_files"
    by (simp_all add: files_ok_def shallow_def placed_def demo_files_def file_weight_def max_alloc_def has_prefix_def)
  with tree_files_roundtrip [OF ends_hash_ok store_ok_empty, of demo_files i bs 2] t
  obtain s' out where "buildTree ends_hash Open_store demo_files = (Inr i, s')" "flatten 2 ends_hash s' (Some i) = Inr out"
    "map_of out = map_of demo_files"
    by (auto simp: Open_store_def distinct_map)
  then show ?thesis by (auto simp: demo_files_def)
qed

end
