(* ===== verification/Governance.thy ===== *)
theory Governance
  imports Attest Notes MergeBase TreeFiles
begin

text \<open>
  Governance derived from attestations: \<^verbatim>\<open>internal/attest/status.go\<close>, \<^verbatim>\<open>gate.go\<close> and
  \<^verbatim>\<open>policy.go\<close>. Reading notes may not return (a chain of notes need not end), so what reads
  them has an option as its result; \<^verbatim>\<open>None\<close> is a read that does not return. The policy
  module runs in a sandbox outside the program: it is a parameter, from the input the host
  computes (which the code passes as JSON) to what the run reported.
\<close>

section \<open>Status\<close>

datatype status = StatusPending | StatusApproved | StatusVetoed

fun status_String :: "status \<Rightarrow> string" where
  "status_String StatusApproved = ''approved''"
| "status_String StatusVetoed = ''vetoed''"
| "status_String StatusPending = ''pending''"

fun derive_loop :: "attestation list \<Rightarrow> u64 \<Rightarrow> bool \<Rightarrow> status" where
  "derive_loop [] required approved = (if approved then StatusApproved else StatusPending)"
| "derive_loop (a # as) required approved =
     (if a_decision a = DecisionVeto then StatusVetoed
      else if a_decision a = DecisionApprove \<and> Satisfies (a_strength a) required then derive_loop as required True
      else derive_loop as required approved)"

definition Derive :: "attestation list \<Rightarrow> u64 \<Rightarrow> status" where
  "Derive attestations required = derive_loop attestations required False"

section \<open>Attestations as notes\<close>

definition Attach :: "hash_funs \<Rightarrow> ed25519_verify \<Rightarrow> repo \<Rightarrow> i64 \<Rightarrow> obj \<Rightarrow> string \<Rightarrow> i64 \<Rightarrow> (goerr + multihash) \<times> repo" where
  "Attach h verify r clock obj author now =
     (case att_Verify verify obj of
        Inl e \<Rightarrow> (Inl e, r)
      | Inr _ \<Rightarrow>
          (case AsAttestation obj of
             Inl e \<Rightarrow> (Inl e, r)
           | Inr a \<Rightarrow> Add_note h r clock NoteAttest (bytes_or_nil (a_target a)) (Encode obj) author now))"

record att_entry =
  ae_Attestation :: attestation
  ae_SignerKey :: "byte list"

definition att_List :: "hash_funs \<Rightarrow> ed25519_verify \<Rightarrow> repo \<Rightarrow> multihash \<Rightarrow> (goerr + att_entry list) option" where
  "att_List h verify r intent =
     Option.bind (List_notes h r NoteAttest intent) (\<lambda>chain.
     Some (rbind chain (\<lambda>chain.
       Inr (concat (map (\<lambda>(i, n).
              case rbind (Decode (n_payload n)) (att_Verify verify) of
                Inl _ \<Rightarrow> []
              | Inr (pub, a) \<Rightarrow> [\<lparr>ae_Attestation = a, ae_SignerKey = pub\<rparr>]) chain)))))"

definition Attestations :: "hash_funs \<Rightarrow> ed25519_verify \<Rightarrow> repo \<Rightarrow> multihash \<Rightarrow> (goerr + attestation list) option" where
  "Attestations h verify r intent =
     Option.bind (att_List h verify r intent) (\<lambda>entries.
     Some (rbind entries (\<lambda>entries. Inr (map ae_Attestation entries))))"

section \<open>The veto over the history\<close>

text \<open>The stack of the code, its top first; \<^verbatim>\<open>seen\<close> in the order of insertion.\<close>

function blocked_loop :: "hash_funs \<Rightarrow> ed25519_verify \<Rightarrow> repo \<Rightarrow> string list \<Rightarrow> multihash list
    \<Rightarrow> (goerr + (bool \<times> multihash option)) option" where
  "blocked_loop h verify r seen [] = Some (Inr (False, None))"
| "blocked_loop h verify r seen (id' # stack) =
     (let key = Hex id' in
      if key \<in> set seen then blocked_loop h verify r seen stack
      else
        (case Attestations h verify r id' of
           None \<Rightarrow> None
         | Some (Inl e) \<Rightarrow> Some (Inl e)
         | Some (Inr atts) \<Rightarrow>
             if list_ex (\<lambda>a. a_decision a = DecisionVeto) atts then Some (Inr (True, Some id'))
             else
               (case Get h (r_objects r) id' of
                  Inl _ \<Rightarrow> blocked_loop h verify r (seen @ [key]) stack
                | Inr obj \<Rightarrow>
                    if otyp obj \<noteq> TypeChange then blocked_loop h verify r (seen @ [key]) stack
                    else
                      (case AsChange obj of
                         Inl e \<Rightarrow> Some (Inl e)
                       | Inr c \<Rightarrow> blocked_loop h verify r (seen @ [key]) (rev (c_parents c) @ stack)))))"
  by pat_completeness auto
termination
proof (relation "measures [\<lambda>(h, v, r, seen, stack). card (set (map (snd \<circ> fst) (os_files (r_objects r))) - set seen),
    \<lambda>(h, v, r, seen, stack). length stack]", goal_cases)
  case (3 h v r seen i stack)
  then show ?case by (auto intro!: le_neq_implies_less card_mono)
next
  case (4 h v r seen i stack)
  then show ?case by (auto intro!: le_neq_implies_less card_mono)
next
  case (5 h v r seen i stack key x2 atts obj c)
  let ?K = "set (map (snd \<circ> fst) (os_files (r_objects r)))"
  have "card (?K - set (seen @ [key])) \<le> card (?K - set seen)" by (intro card_mono) auto
  moreover have "card (?K - set (seen @ [key])) < card (?K - set seen)" if "c_parents c \<noteq> []"
  proof -
    have "parents h (r_objects r) i = c_parents c" using 5 by (simp add: parents_def)
    with that parents_key [of h "r_objects r" i] 5 have "key \<in> ?K - set seen" by simp
    then show ?thesis by (intro psubset_card_mono) auto
  qed
  ultimately show ?case by (cases "c_parents c = []") auto
qed auto

definition PromotionBlocked :: "hash_funs \<Rightarrow> ed25519_verify \<Rightarrow> repo \<Rightarrow> multihash
    \<Rightarrow> (goerr + (bool \<times> multihash option)) option" where
  "PromotionBlocked h verify r change = blocked_loop h verify r [] [change]"

section \<open>Gates and policies\<close>

type_synonym policy = "repo \<Rightarrow> multihash \<Rightarrow> (goerr + unit) option"

definition VetoGate_Admit :: "hash_funs \<Rightarrow> ed25519_verify \<Rightarrow> policy" where
  "VetoGate_Admit h verify r change =
     Option.bind (PromotionBlocked h verify r change) (\<lambda>res.
     Some (rbind res (\<lambda>(blocked, at).
       if blocked then Inl (Sentinel AttVetoed (''ancestor '' @ Hex (bytes_or_nil at))) else Inr ())))"

definition ApprovalGate_Admit :: "hash_funs \<Rightarrow> ed25519_verify \<Rightarrow> u64 \<Rightarrow> policy" where
  "ApprovalGate_Admit h verify required r change =
     Option.bind (VetoGate_Admit h verify r change) (\<lambda>veto.
     case veto of
       Inl e \<Rightarrow> Some (Inl e)
     | Inr _ \<Rightarrow>
         if required = StrengthUnknown then Some (Inr ())
         else
           Option.bind (Attestations h verify r change) (\<lambda>atts.
           Some (rbind atts (\<lambda>atts.
             if Derive atts required \<noteq> StatusApproved then Inl (Sentinel AttNotApproved []) else Inr ()))))"

fun AllOf_Admit :: "policy option list \<Rightarrow> policy" where
  "AllOf_Admit [] r change = Some (Inr ())"
| "AllOf_Admit (p # ps) r change =
     (case p of
        None \<Rightarrow> AllOf_Admit ps r change
      | Some p \<Rightarrow>
          (case p r change of
             None \<Rightarrow> None
           | Some (Inl e) \<Rightarrow> Some (Inl e)
           | Some (Inr _) \<Rightarrow> AllOf_Admit ps r change))"

definition Decision_String :: "u64 \<Rightarrow> string" where
  "Decision_String d =
     (if d = DecisionApprove then ''approve''
      else if d = DecisionVeto then ''veto''
      else if d = DecisionDelegate then ''delegate''
      else if d = DecisionRequestChange then ''request-change''
      else ''decision-'' @ FormatInt 10 (int (unat d)))"

definition Strength_String :: "u64 \<Rightarrow> string" where
  "Strength_String s =
     (if s = StrengthWeak then ''weak''
      else if s = StrengthDelegated then ''delegated''
      else if s = StrengthStrong then ''strong''
      else ''strength-'' @ FormatInt 10 (int (unat s)))"

record policy_att_info =
  pa_Decision :: string
  pa_Strength :: string
  pa_Signer :: string

record policy_input =
  pi_Change :: string
  pi_Materialized :: bool
  pi_Author :: string
  pi_Message :: string
  pi_Vetoed :: bool
  pi_VetoedAt :: string
  pi_Attestations :: "policy_att_info list"

definition BuildPolicyInput :: "hash_funs \<Rightarrow> ed25519_verify \<Rightarrow> repo \<Rightarrow> multihash \<Rightarrow> (goerr + policy_input) option" where
  "BuildPolicyInput h verify r change =
     (let inp = \<lparr>pi_Change = Hex change, pi_Materialized = False, pi_Author = [], pi_Message = [],
                pi_Vetoed = False, pi_VetoedAt = [], pi_Attestations = []\<rparr>;
          inp = (case Get h (r_objects r) change of
                   Inl _ \<Rightarrow> inp
                 | Inr obj \<Rightarrow>
                     if otyp obj = TypeChange then
                       (case AsChange obj of
                          Inl _ \<Rightarrow> inp
                        | Inr c \<Rightarrow> inp\<lparr>pi_Materialized := Materialized c, pi_Author := c_author c,
                                      pi_Message := c_message c\<rparr>)
                     else inp)
      in Option.bind (PromotionBlocked h verify r change) (\<lambda>res.
         case res of
           Inl e \<Rightarrow> Some (Inl e)
         | Inr (blocked, at) \<Rightarrow>
             (let inp = inp\<lparr>pi_Vetoed := blocked,
                           pi_VetoedAt := (if blocked \<and> at \<noteq> None then Hex (the at) else [])\<rparr>
              in Option.bind (att_List h verify r change) (\<lambda>entries.
                 Some (rbind entries (\<lambda>entries.
                   Inr (inp\<lparr>pi_Attestations := map (\<lambda>e.
                          \<lparr>pa_Decision = Decision_String (a_decision (ae_Attestation e)),
                           pa_Strength = Strength_String (a_strength (ae_Attestation e)),
                           pa_Signer = att_Fingerprint h (ae_SignerKey e)\<rparr>) entries\<rparr>)))))))"

text \<open>What a run of a module reports.\<close>

record run_result =
  hr_ExitCode :: int
  hr_Stdout :: "byte list"
  hr_Stderr :: "byte list"

definition Allowed :: "run_result \<Rightarrow> bool" where
  "Allowed res = (hr_ExitCode res = 0)"

type_synonym policy_runner = "byte list \<Rightarrow> policy_input \<Rightarrow> goerr + run_result"

definition WasmPolicy_Admit :: "hash_funs \<Rightarrow> ed25519_verify \<Rightarrow> policy_runner \<Rightarrow> byte list \<Rightarrow> policy" where
  "WasmPolicy_Admit h verify run module r change =
     Option.bind (BuildPolicyInput h verify r change) (\<lambda>inp.
     Some (rbind inp (\<lambda>inp.
       case run module inp of
         Inl e \<Rightarrow> Inl (Plain ''attest: policy module failed to run'')
       | Inr res \<Rightarrow>
           if Allowed res then Inr ()
           else
             (let reason = trim_space (string_of (hr_Stderr res));
                  reason = (if reason = [] then trim_space (string_of (hr_Stdout res)) else reason);
                  reason = (if reason = [] then ''exit '' @ FormatInt 10 (hr_ExitCode res) else reason)
              in Inl (Plain (''attest: promotion refused by policy module: '' @ reason))))))"

definition LoadPolicy :: "hash_funs \<Rightarrow> repo \<Rightarrow> goerr + byte list option" where
  "LoadPolicy h r =
     (case Resolve (r_refs r) PolicyRef of
        Inl _ \<Rightarrow> Inr None
      | Inr id' \<Rightarrow>
          rbind (Get h (r_objects r) id') (\<lambda>obj.
          case BlobContent obj of
            None \<Rightarrow> Inl (Plain ''attest: policy ref is not a blob'')
          | Some module \<Rightarrow> Inr (Some module)))"

section \<open>What the decisions amount to\<close>

definition is_veto :: "attestation \<Rightarrow> bool" where
  "is_veto a = (a_decision a = DecisionVeto)"

definition approves :: "u64 \<Rightarrow> attestation \<Rightarrow> bool" where
  "approves required a = (a_decision a = DecisionApprove \<and> Satisfies (a_strength a) required)"

lemma derive_loop_iff:
  "derive_loop as required ok =
     (if \<exists>a \<in> set as. is_veto a then StatusVetoed
      else if ok \<or> (\<exists>a \<in> set as. approves required a) then StatusApproved else StatusPending)"
  by (induction as required ok rule: derive_loop.induct) (auto simp: is_veto_def approves_def)

lemma Derive_iff:
  "Derive as required =
     (if \<exists>a \<in> set as. is_veto a then StatusVetoed
      else if \<exists>a \<in> set as. approves required a then StatusApproved else StatusPending)"
  by (simp add: Derive_def derive_loop_iff)

lemma AllOf_iff: "AllOf_Admit ps r change = Some (Inr ()) \<longleftrightarrow> (\<forall>p. Some p \<in> set ps \<longrightarrow> p r change = Some (Inr ()))"
  by (induction ps r change rule: AllOf_Admit.induct) (auto split: option.splits sum.splits)

section \<open>The walk for vetoes\<close>

definition history :: "hash_funs \<Rightarrow> objstore \<Rightarrow> (multihash \<times> multihash) set" where
  "history h s = {(x, p). p \<in> set (parents h s x)}"

definition vetoed :: "hash_funs \<Rightarrow> ed25519_verify \<Rightarrow> repo \<Rightarrow> multihash \<Rightarrow> bool" where
  "vetoed h verify r x \<longleftrightarrow> (\<exists>atts. Attestations h verify r x = Some (Inr atts) \<and> (\<exists>a \<in> set atts. is_veto a))"

text \<open>Names whose changes are free of vetoes, and whose parents are names of the set or pending.\<close>

definition cleared :: "hash_funs \<Rightarrow> ed25519_verify \<Rightarrow> repo \<Rightarrow> string set \<Rightarrow> multihash set \<Rightarrow> bool" where
  "cleared h verify r V pending \<longleftrightarrow>
     (\<forall>x. Hex x \<in> V \<longrightarrow> \<not> vetoed h verify r x \<and>
        (\<forall>p \<in> set (parents h (r_objects r) x). Hex p \<in> V \<or> p \<in> pending))"

lemma blocked_loop_ok:
  "blocked_loop h verify r seen stack = Some (Inr (b, at)) \<Longrightarrow>
   (b \<longrightarrow> (\<exists>x y. at = Some x \<and> vetoed h verify r x \<and> y \<in> set stack \<and> (y, x) \<in> (history h (r_objects r))\<^sup>*)) \<and>
   (\<not> b \<longrightarrow> at = None \<and> (cleared h verify r (set seen) (set stack) \<longrightarrow>
      (\<exists>V. set seen \<subseteq> V \<and> Hex ` set stack \<subseteq> V \<and> cleared h verify r V {})))"
proof (induction h verify r seen stack rule: blocked_loop.induct)
  case (1 h v r seen)
  then show ?case by auto
next
  case (2 h v r seen i stack)
  let ?s = "r_objects r"
  show ?case
  proof (cases "Hex i \<in> set seen")
    case True
    then have "cleared h v r (set seen) (set (i # stack)) \<Longrightarrow> cleared h v r (set seen) (set stack)"
      by (auto simp: cleared_def)
    with 2(1) [OF refl True] 2(5) True show ?thesis by (auto 4 4)
  next
    case False
    then obtain atts where atts: "Attestations h v r i = Some (Inr atts)"
      using 2(5) by (auto simp: Let_def split: option.splits sum.splits)
    show ?thesis
    proof (cases "list_ex (\<lambda>a. a_decision a = DecisionVeto) atts")
      case True
      then have "vetoed h v r i" using atts by (auto simp: vetoed_def is_veto_def list_ex_iff)
      with True False atts 2(5) show ?thesis by auto
    next
      case veto: False
      have nv: "\<not> vetoed h v r i" using veto atts by (auto simp: vetoed_def is_veto_def list_ex_iff)
      let ?ps = "parents h ?s i"
      have rec: "blocked_loop h v r (seen @ [Hex i]) (rev ?ps @ stack) = Some (Inr (b, at))"
        using 2(5) False atts veto
        by (auto simp: parents_def Let_def split: sum.splits if_splits)
      have IH: "(b \<longrightarrow> (\<exists>x y. at = Some x \<and> vetoed h v r x \<and> y \<in> set (rev ?ps @ stack) \<and> (y, x) \<in> (history h ?s)\<^sup>*)) \<and>
         (\<not> b \<longrightarrow> at = None \<and> (cleared h v r (set (seen @ [Hex i])) (set (rev ?ps @ stack)) \<longrightarrow>
            (\<exists>V. set (seen @ [Hex i]) \<subseteq> V \<and> Hex ` set (rev ?ps @ stack) \<subseteq> V \<and> cleared h v r V {})))"
      proof (cases "Get h ?s i")
        case (Inl e)
        then have "?ps = []" by (simp add: parents_def)
        with 2(2) [OF refl False atts refl veto Inl] rec show ?thesis by simp
      next
        case (Inr obj)
        show ?thesis
        proof (cases "otyp obj \<noteq> TypeChange")
          case True
          then have "?ps = []" using Inr by (simp add: parents_def)
          with 2(3) [OF refl False atts refl veto Inr True] rec show ?thesis by simp
        next
          case c: False
          then obtain c where ch: "AsChange obj = Inr c"
            using 2(5) False atts veto Inr by (auto simp: Let_def split: sum.splits)
          then have "?ps = c_parents c" using Inr c by (simp add: parents_def)
          with 2(4) [OF refl False atts refl veto Inr c ch] rec show ?thesis by simp
        qed
      qed
      have up: "(y, x) \<in> (history h ?s)\<^sup>* \<Longrightarrow> y \<in> set ?ps \<Longrightarrow> (i, x) \<in> (history h ?s)\<^sup>*" for x y
        by (rule converse_rtrancl_into_rtrancl [of i y]) (simp_all add: history_def)
      have cl: "cleared h v r (set (seen @ [Hex i])) (set (rev ?ps @ stack))"
        if "cleared h v r (set seen) (set (i # stack))"
        using that nv unfolding cleared_def by auto
      show ?thesis
      proof (cases b)
        case True
        with IH obtain x y where "at = Some x" "vetoed h v r x" "y \<in> set (rev ?ps @ stack)" "(y, x) \<in> (history h ?s)\<^sup>*"
          by blast
        with True up show ?thesis by auto
      next
        case False
        have "\<exists>V. set seen \<subseteq> V \<and> Hex ` set (i # stack) \<subseteq> V \<and> cleared h v r V {}"
          if c0: "cleared h v r (set seen) (set (i # stack))"
        proof -
          obtain V where "set (seen @ [Hex i]) \<subseteq> V" "Hex ` set (rev ?ps @ stack) \<subseteq> V" "cleared h v r V {}"
            using IH False cl [OF c0] by blast
          then show ?thesis by (intro exI [of _ V]) auto
        qed
        with IH False show ?thesis by blast
      qed
    qed
  qed
qed

lemma PromotionBlocked_ok:
  assumes "PromotionBlocked h verify r change = Some (Inr (b, at))"
  shows "if b then \<exists>x. at = Some x \<and> (change, x) \<in> (history h (r_objects r))\<^sup>* \<and> vetoed h verify r x
         else at = None \<and> (\<forall>x. (change, x) \<in> (history h (r_objects r))\<^sup>* \<longrightarrow> \<not> vetoed h verify r x)"
proof (cases b)
  case True
  with blocked_loop_ok [OF assms [unfolded PromotionBlocked_def]] show ?thesis by auto
next
  case False
  have "cleared h verify r (set []) (set [change])" by (simp add: cleared_def)
  with False blocked_loop_ok [OF assms [unfolded PromotionBlocked_def]]
  obtain V where V: "at = None" "Hex change \<in> V" "cleared h verify r V {}" by auto
  have "Hex x \<in> V" if "(change, x) \<in> (history h (r_objects r))\<^sup>*" for x
    using that by (induction rule: rtrancl_induct) (use V in \<open>auto simp: cleared_def history_def\<close>)
  with False V show ?thesis by (auto simp: cleared_def)
qed

lemma concat_one: "(i, n) \<in> set xs \<Longrightarrow> f i n = [x] \<Longrightarrow> x \<in> set (concat (map (\<lambda>(i, n). f i n) xs))"
  by force

lemma Attestations_total: "List_notes h r NoteAttest x \<noteq> None \<Longrightarrow> Attestations h verify r x \<noteq> None"
  by (auto simp: Attestations_def att_List_def)

lemma blocked_loop_returns:
  "\<forall>x. List_notes h r NoteAttest x \<noteq> None \<Longrightarrow> blocked_loop h verify r seen stack \<noteq> None"
proof (induction h verify r seen stack rule: blocked_loop.induct)
  case (2 h v r seen i stack)
  note t = 2(5)
  then obtain res where res: "Attestations h v r i = Some res" using Attestations_total by blast
  show ?case
  proof (cases "Hex i \<in> set seen")
    case True
    with 2(1) [OF refl True t] show ?thesis by simp
  next
    case False
    note IH = 2(2-4) [OF refl False res _ _ _]
    show ?thesis
    proof (cases res)
      case (Inr atts)
      with IH [OF Inr] False res t show ?thesis by (simp add: Let_def split: sum.split)
    qed (simp add: False res Let_def)
  qed
qed simp

lemma Attestations_of:
  "List_notes h r NoteAttest x = Some (Inr chain) \<Longrightarrow>
   Attestations h verify r x = Some (Inr (concat (map (\<lambda>(i, n).
     case rbind (Decode (n_payload n)) (att_Verify verify) of Inl _ \<Rightarrow> [] | Inr (pub, a) \<Rightarrow> [a]) chain)))"
proof -
  assume l: "List_notes h r NoteAttest x = Some (Inr chain)"
  have "map ae_Attestation (concat (map (\<lambda>(i, n). case rbind (Decode (n_payload n)) (att_Verify verify) of
        Inl _ \<Rightarrow> [] | Inr (pub, a) \<Rightarrow> [\<lparr>ae_Attestation = a, ae_SignerKey = pub\<rparr>]) ch))
      = concat (map (\<lambda>(i, n). case rbind (Decode (n_payload n)) (att_Verify verify) of
        Inl _ \<Rightarrow> [] | Inr (pub, a) \<Rightarrow> [a]) ch)" for ch :: "(multihash \<times> note_rec) list"
    by (induction ch) (auto split: sum.split prod.split)
  with l show ?thesis by (simp add: Attestations_def att_List_def)
qed

text \<open>A repository with one attestation, of revision \<^verbatim>\<open>[1]\<close>, filed under \<^verbatim>\<open>demo_rev\<close>.\<close>

definition demo_rev :: multihash where "demo_rev = [0x12, 1, 5]"

definition demo_decision :: "u64 \<Rightarrow> attestation" where
  "demo_decision d = \<lparr>a_target = Some [1], a_decision = d, a_strength = StrengthStrong, a_timestamp = 5,
     a_rationale = [], a_policy = None\<rparr>"

definition demo_filed :: "u64 \<Rightarrow> obj" where
  "demo_filed d = SetSignature (attest_obj (demo_decision d)) (encodeSig schemeEd25519 (replicate 32 9) (replicate 64 0))"

lemma demo_filed_verifies:
  "rbind (Decode (Encode (demo_filed d))) (att_Verify (\<lambda>_ _ _. True)) = Inr (replicate 32 9, demo_decision d)"
proof -
  have w: "wf_attest (demo_decision d)" by (simp add: wf_attest_def demo_decision_def fits64_def)
  have "length (ofields (attest_obj (demo_decision d))) \<le> 100"
    by (simp add: attest_obj_def attest_fields_def opt_field_def str_field_def demo_decision_def)
  then have "wf_obj (demo_filed d)"
    unfolding demo_filed_def by (intro wf_signed wf_attest_obj w encodeSig_fits) simp_all
  moreover have "att_Verify (\<lambda>_ _ _. True) (demo_filed d) = Inr (replicate 32 9, demo_decision d)"
    using signed_fields(1) [OF wf_attest_obj [OF w]] AsAttestation_signed [OF w]
    by (simp add: att_Verify_def demo_filed_def decode_blob PublicKeySize_def)
      (simp add: canonical_attest_def canonical_hash_def demo_decision_def)
  ultimately show ?thesis by simp
qed

lemma demo_filed_length: "length (Encode (demo_filed DecisionApprove)) < 1000 \<and> length (Encode (demo_filed DecisionVeto)) < 1000"
  by code_simp

lemma demo_repo:
  assumes "length (Encode (demo_filed d)) < 1000"
  shows "\<exists>r i n s. List_notes zero_hash r NoteAttest demo_rev = Some (Inr [(i, n)]) \<and>
    n_payload n = Encode (demo_filed d) \<and> r_objects r = snd (PutRaw zero_hash Open_store s)"
proof -
  let ?name = "''refs/notes/varvig/attest/120105''"
  have wf: "wf_hashes zero_hash" by (simp add: wf_hashes_def zero_hash_def)
  have name: "note_refName NoteAttest demo_rev = Inr ?name"
    by (simp add: note_refName_def validNamespace_def has_prefix_def has_suffix_def Hex_def hex_digit_def NoteAttest_def demo_rev_def)
  have valid: "ValidName ?name = Inr ()" by (simp add: ValidName_def has_prefix_def has_suffix_def)
  have cl: "clear (rs_refs empty_refs) ?name" "clear (rs_logs empty_refs) ?name"
    by (simp_all add: clear_def empty_refs_def empty_ftree_def is_file_def list_ex_iff)
  have f: "fits64 demo_rev" "fits64 NoteAttest" "fits64 (Encode (demo_filed d))" "fits64 ''a''"
    using assms by (simp_all add: fits64_def demo_rev_def NoteAttest_def)
  show ?thesis using first_note [OF wf name valid f cl] by blast
qed

lemma demo_rev_decodes: "mh_decode demo_rev = Inr (0x12, [5])"
  by code_simp

lemma absent: "Get zero_hash (snd (PutRaw zero_hash Open_store s)) demo_rev = Inl (Sentinel StoreNotFound [])"
proof -
  have wf: "wf_hashes zero_hash" by (simp add: wf_hashes_def zero_hash_def)
  obtain i os where p: "PutRaw zero_hash Open_store s = (Inr i, os)"
    by (rule PutRaw_total [OF wf, of Open_store s]) (simp add: Open_store_def)
  have "Sum zero_hash Default s = Inr i" using fst_PutRaw [OF wf, of Open_store s] p by (simp add: Open_store_def)
  then have "i \<noteq> demo_rev" using Sum_decode [OF wf, of Default s i]
    by (auto simp: demo_rev_decodes Default_def BLAKE3_def)
  then have "GetRaw zero_hash os demo_rev = GetRaw zero_hash Open_store demo_rev"
    by (intro PutRaw_ok(5) [OF wf store_ok_empty p]) simp
  also have "\<dots> = Inl (Sentinel StoreNotFound [])"
    by (simp add: GetRaw_def Open_store_def store_path_def demo_rev_decodes Digest_def)
  finally show ?thesis by (simp add: p Get_def)
qed

lemma demo_approved:
  "\<exists>r i n. List_notes zero_hash r NoteAttest demo_rev = Some (Inr [(i, n)]) \<and> n_payload n = Encode (demo_filed DecisionApprove) \<and>
     Attestations zero_hash (\<lambda>_ _ _. True) r demo_rev = Some (Inr [demo_decision DecisionApprove]) \<and>
     PromotionBlocked zero_hash (\<lambda>_ _ _. True) r demo_rev = Some (Inr (False, None))"
proof -
  obtain r i n s where r: "List_notes zero_hash r NoteAttest demo_rev = Some (Inr [(i, n)])"
    "n_payload n = Encode (demo_filed DecisionApprove)" "r_objects r = snd (PutRaw zero_hash Open_store s)"
    using demo_repo demo_filed_length by blast
  have a: "Attestations zero_hash (\<lambda>_ _ _. True) r demo_rev = Some (Inr [demo_decision DecisionApprove])"
    using Attestations_of [OF r(1)] by (simp add: r(2) demo_filed_verifies)
  then have "PromotionBlocked zero_hash (\<lambda>_ _ _. True) r demo_rev = Some (Inr (False, None))"
    by (simp add: PromotionBlocked_def demo_decision_def r(3) absent)
  with a r show ?thesis by blast
qed

lemma demo_admitted: "\<exists>r. ApprovalGate_Admit zero_hash (\<lambda>_ _ _. True) StrengthDelegated r demo_rev = Some (Inr ())"
proof -
  obtain r where "Attestations zero_hash (\<lambda>_ _ _. True) r demo_rev = Some (Inr [demo_decision DecisionApprove])"
    "PromotionBlocked zero_hash (\<lambda>_ _ _. True) r demo_rev = Some (Inr (False, None))"
    using demo_approved by blast
  then show ?thesis
    by (intro exI [of _ r])
      (simp add: ApprovalGate_Admit_def VetoGate_Admit_def Derive_def demo_decision_def Satisfies_def)
qed

section \<open>Properties\<close>

text \<open>C33. A veto reaches every descendant: when the promotion check returns, it reports a block
  exactly if the change or one of its ancestors (through the parents that can be read)
  carries a verified veto, and names a vetoed one.\<close>

theorem veto_blocks_descendants:
  assumes "PromotionBlocked h verify r change = Some (Inr (b, at))"
  shows "if b then \<exists>x. at = Some x \<and> (change, x) \<in> (history h (r_objects r))\<^sup>* \<and> vetoed h verify r x
         else at = None \<and> (\<forall>x. (change, x) \<in> (history h (r_objects r))\<^sup>* \<longrightarrow> \<not> vetoed h verify r x)"
  using assms by (rule PromotionBlocked_ok)

theorem veto_blocks_descendants_witness:
  "\<exists>r. PromotionBlocked zero_hash (\<lambda>_ _ _. True) r demo_rev = Some (Inr (True, Some demo_rev)) \<and>
     vetoed zero_hash (\<lambda>_ _ _. True) r demo_rev"
proof -
  obtain r i n where r: "List_notes zero_hash r NoteAttest demo_rev = Some (Inr [(i, n)])"
    "n_payload n = Encode (demo_filed DecisionVeto)"
    using demo_repo demo_filed_length by blast
  have "Attestations zero_hash (\<lambda>_ _ _. True) r demo_rev = Some (Inr [demo_decision DecisionVeto])"
    using Attestations_of [OF r(1)] by (simp add: r(2) demo_filed_verifies)
  then have p: "PromotionBlocked zero_hash (\<lambda>_ _ _. True) r demo_rev = Some (Inr (True, Some demo_rev))"
    by (simp add: PromotionBlocked_def demo_decision_def)
  with veto_blocks_descendants [OF p] show ?thesis by auto
qed

text \<open>The promotion check always returns when reading notes does: the walk over the history
  visits no change twice, whatever the parents say.\<close>

theorem promotion_check_returns:
  assumes "\<forall>x. List_notes h r NoteAttest x \<noteq> None"
  shows "\<exists>res. ApprovalGate_Admit h verify required r change = Some res"
proof -
  obtain res where "PromotionBlocked h verify r change = Some res"
    using blocked_loop_returns [OF assms, of verify "[]" "[change]"] unfolding PromotionBlocked_def by blast
  moreover obtain atts where "Attestations h verify r change = Some atts"
    using Attestations_total assms by blast
  ultimately show ?thesis by (auto simp: ApprovalGate_Admit_def VetoGate_Admit_def split: sum.split)
qed

theorem promotion_check_returns_witness:
  "\<exists>res. ApprovalGate_Admit zero_hash (\<lambda>_ _ _. True) StrengthStrong \<lparr>r_objects = Open_store, r_refs = empty_refs\<rparr> demo_rev
     = Some res"
proof (rule promotion_check_returns, intro allI)
  fix x
  have "\<exists>e. Resolve empty_refs name = Inl e" for name
  proof -
    have "current empty_refs name = None" by (simp add: current_None) (simp add: empty_refs_def)
    then show ?thesis by (auto simp: current_def Resolve_def rbind_def split: sum.splits)
  qed
  then show "List_notes zero_hash \<lparr>r_objects = Open_store, r_refs = empty_refs\<rparr> NoteAttest x \<noteq> None"
    by (metis (no_types, lifting) List_notes_def repo.select_convs(2) sum.case_eq_if option.distinct(1) isl_def)
qed

text \<open>C34. What the approval gate admits is free of vetoes in its whole history and, where a
  strength is required, has an approval of at least that strength and no veto of its own;
  weak approvals never meet a stronger requirement.\<close>

theorem approval_gate_sound:
  assumes "ApprovalGate_Admit h verify required r change = Some (Inr ())"
  shows "(\<forall>x. (change, x) \<in> (history h (r_objects r))\<^sup>* \<longrightarrow> \<not> vetoed h verify r x) \<and>
    (required \<noteq> StrengthUnknown \<longrightarrow> (\<exists>atts. Attestations h verify r change = Some (Inr atts) \<and>
       (\<exists>a \<in> set atts. a_decision a = DecisionApprove \<and> a_strength a \<noteq> StrengthUnknown \<and> required \<le> a_strength a) \<and>
       (\<forall>a \<in> set atts. a_decision a \<noteq> DecisionVeto)))"
proof -
  obtain b at where p: "PromotionBlocked h verify r change = Some (Inr (b, at))" "\<not> b"
    using assms by (auto simp: ApprovalGate_Admit_def VetoGate_Admit_def rbind_def
        split: Option.bind_splits sum.splits if_splits)
  have "\<exists>atts. Attestations h verify r change = Some (Inr atts) \<and> Derive atts required = StatusApproved"
    if "required \<noteq> StrengthUnknown"
    using assms that by (auto simp: ApprovalGate_Admit_def VetoGate_Admit_def rbind_def
        split: Option.bind_splits sum.splits if_splits)
  moreover have "(\<exists>a \<in> set atts. a_decision a = DecisionApprove \<and> a_strength a \<noteq> StrengthUnknown \<and> required \<le> a_strength a) \<and>
      (\<forall>a \<in> set atts. a_decision a \<noteq> DecisionVeto)" if "Derive atts required = StatusApproved" for atts
    using that by (auto simp: Derive_iff is_veto_def approves_def Satisfies_def split: if_splits)
  moreover have "\<forall>x. (change, x) \<in> (history h (r_objects r))\<^sup>* \<longrightarrow> \<not> vetoed h verify r x"
    using PromotionBlocked_ok [OF p(1)] p(2) by simp
  ultimately show ?thesis by blast
qed

theorem approval_gate_sound_witness:
  "\<exists>r atts. ApprovalGate_Admit zero_hash (\<lambda>_ _ _. True) StrengthDelegated r demo_rev = Some (Inr ()) \<and>
     Attestations zero_hash (\<lambda>_ _ _. True) r demo_rev = Some (Inr atts) \<and> (\<exists>a \<in> set atts. a_decision a = DecisionApprove)"
proof -
  obtain r where "ApprovalGate_Admit zero_hash (\<lambda>_ _ _. True) StrengthDelegated r demo_rev = Some (Inr ())"
    using demo_admitted by blast
  with approval_gate_sound [OF this] show ?thesis by auto
qed

text \<open>The status of a revision is a function of the set of its attestations: a veto decides
  whatever else there is, otherwise one approval of sufficient strength does, and the order
  and number of the attestations never matter.\<close>

theorem derive_decides:
  "Derive atts required =
     (if \<exists>a \<in> set atts. a_decision a = DecisionVeto then StatusVetoed
      else if \<exists>a \<in> set atts. a_decision a = DecisionApprove \<and> Satisfies (a_strength a) required then StatusApproved
      else StatusPending)"
  by (simp add: Derive_iff is_veto_def approves_def)

text \<open>C32. The gates do not check what an approval was given for: an attestation that verifies
  counts for the revision its note is filed under, even when its signed target is another
  one, and whoever signed it. (The package promises that an approval stays attached to the
  bytes that were signed, and that a principal registry decides what a signer may assert.)\<close>

theorem approval_transplanted:
  assumes "List_notes h r NoteAttest change = Some (Inr chain)" "(i, n) \<in> set chain"
    and "rbind (Decode (n_payload n)) (att_Verify verify) = Inr (pub, a)" "a_target a \<noteq> Some change"
    and "a_decision a = DecisionApprove" "Satisfies (a_strength a) required"
    and "PromotionBlocked h verify r change = Some (Inr (False, None))"
  shows "ApprovalGate_Admit h verify required r change = Some (Inr ())"
proof -
  obtain atts where atts: "Attestations h verify r change = Some (Inr atts)" "a \<in> set atts"
  proof -
    have "a \<in> set (concat (map (\<lambda>(i, n). case rbind (Decode (n_payload n)) (att_Verify verify) of
        Inl _ \<Rightarrow> [] | Inr (pub, a) \<Rightarrow> [a]) chain))"
      by (rule concat_one [OF assms(2)]) (simp add: assms(3))
    with Attestations_of [OF assms(1), of verify] that show thesis by blast
  qed
  have "\<not> vetoed h verify r change" using PromotionBlocked_ok [OF assms(7)] by auto
  then have "Derive atts required = StatusApproved"
    using atts assms(5,6) by (auto simp: Derive_iff vetoed_def approves_def)
  then show ?thesis using atts assms(7) by (simp add: ApprovalGate_Admit_def VetoGate_Admit_def)
qed

theorem approval_transplanted_witness:
  "\<exists>r. ApprovalGate_Admit zero_hash (\<lambda>_ _ _. True) StrengthStrong r demo_rev = Some (Inr ()) \<and>
     Attestations zero_hash (\<lambda>_ _ _. True) r demo_rev = Some (Inr [demo_decision DecisionApprove]) \<and>
     a_target (demo_decision DecisionApprove) = Some [1]"
proof -
  obtain r i n where r: "List_notes zero_hash r NoteAttest demo_rev = Some (Inr [(i, n)])"
    "n_payload n = Encode (demo_filed DecisionApprove)"
    "Attestations zero_hash (\<lambda>_ _ _. True) r demo_rev = Some (Inr [demo_decision DecisionApprove])"
    "PromotionBlocked zero_hash (\<lambda>_ _ _. True) r demo_rev = Some (Inr (False, None))"
    using demo_approved by blast
  have "ApprovalGate_Admit zero_hash (\<lambda>_ _ _. True) StrengthStrong r demo_rev = Some (Inr ())"
    by (rule approval_transplanted [OF r(1), of i n _ "replicate 32 9" "demo_decision DecisionApprove"])
      (simp_all add: r(2,4) demo_filed_verifies, simp_all add: demo_decision_def demo_rev_def Satisfies_def)
  with r(3) show ?thesis by (auto simp: demo_decision_def)
qed

end
