(* ===== verification/TxnSets.thy ===== *)
theory TxnSets
  imports Multihash "HOL-Library.Multiset"
begin

text \<open>
  Declared read and write sets: \<^verbatim>\<open>internal/txn/lock.go\<close>, \<^verbatim>\<open>internal/txn/overlap.go\<close> and
  \<^verbatim>\<open>internal/txn/ordering.go\<close>. A declared path prefix stands for itself and everything
  below it; the conflict test on prefixes is shown to be the intersection test on the sets of
  paths they stand for, which is what the scheduler, the overlap reports and the ticket
  dependencies rely on. The lock manager is a list of held claims.
\<close>

section \<open>Claims and conflicts\<close>

record claim =
  cl_reads :: "string list"
  cl_writes :: "string list"

definition pathCovers :: "string \<Rightarrow> string \<Rightarrow> bool" where
  "pathCovers a b = (if a = [] then True else a = b \<or> has_prefix b (a @ ''/''))"

definition overlap :: "string \<Rightarrow> string \<Rightarrow> bool" where
  "overlap a b = (pathCovers a b \<or> pathCovers b a)"

definition setsOverlap :: "string list \<Rightarrow> string list \<Rightarrow> bool" where
  "setsOverlap as bs = list_ex (\<lambda>a. list_ex (\<lambda>b. overlap a b) bs) as"

definition conflicts :: "claim \<Rightarrow> claim \<Rightarrow> bool" where
  "conflicts x y =
     (setsOverlap (cl_writes x) (cl_writes y) \<or>
      setsOverlap (cl_writes x) (cl_reads y) \<or>
      setsOverlap (cl_reads x) (cl_writes y))"

text \<open>The first of equal paths is kept; the result is sorted.\<close>

fun dedupe :: "string list \<Rightarrow> string list \<Rightarrow> string list" where
  "dedupe seen [] = []"
| "dedupe seen (p # ps) = (if p \<in> set seen then dedupe seen ps else p # dedupe (p # seen) ps)"

definition normalize_paths :: "string list \<Rightarrow> string list" where
  "normalize_paths paths = sort (dedupe [] (map (\<lambda>p. trim_slash (trim_space p)) paths))"

definition Conflict :: "string list \<Rightarrow> string list \<Rightarrow> string list \<Rightarrow> string list \<Rightarrow> bool" where
  "Conflict reads1 writes1 reads2 writes2 =
     conflicts \<lparr>cl_reads = normalize_paths reads1, cl_writes = normalize_paths writes1\<rparr>
       \<lparr>cl_reads = normalize_paths reads2, cl_writes = normalize_paths writes2\<rparr>"

text \<open>From \<^verbatim>\<open>workspace.go\<close>: the paths a set of prefixes gives access to.\<close>

definition inScope :: "string \<Rightarrow> string list \<Rightarrow> bool" where
  "inScope path prefixes = list_ex (\<lambda>p. pathCovers p path) prefixes"

subsection \<open>Prefixes as sets of paths\<close>

lemma pathCovers_refl [simp]: "pathCovers a a"
  by (simp add: pathCovers_def)

lemma pathCovers_iff: "pathCovers a b \<longleftrightarrow> a = [] \<or> a = b \<or> (\<exists>t. b = a @ CHR ''/'' # t)"
  by (auto simp: pathCovers_def has_prefix_iff)

lemma pathCovers_trans: "pathCovers a b \<Longrightarrow> pathCovers b c \<Longrightarrow> pathCovers a c"
  by (auto simp: pathCovers_iff)

lemma pathCovers_chain:
  assumes "pathCovers a p" "pathCovers b p"
  shows "overlap a b"
proof (cases "a = [] \<or> b = [] \<or> a = p \<or> b = p")
  case True
  with assms show ?thesis by (auto simp: overlap_def pathCovers_def)
next
  case False
  with assms obtain s where a: "p = a @ CHR ''/'' # s" by (auto simp: pathCovers_iff)
  from False assms obtain t where "p = b @ CHR ''/'' # t" by (auto simp: pathCovers_iff)
  with a have "a @ CHR ''/'' # s = b @ CHR ''/'' # t" by simp
  then obtain us where "a = b @ us \<and> us @ CHR ''/'' # s = CHR ''/'' # t \<or>
      a @ us = b \<and> CHR ''/'' # s = us @ CHR ''/'' # t"
    by (auto simp: append_eq_append_conv2)
  then show ?thesis
    by (cases us) (auto simp: overlap_def pathCovers_iff)
qed

lemma overlap_exact: "overlap a b \<longleftrightarrow> (\<exists>p. pathCovers a p \<and> pathCovers b p)"
proof
  assume "overlap a b"
  with pathCovers_refl show "\<exists>p. pathCovers a p \<and> pathCovers b p" unfolding overlap_def by metis
qed (use pathCovers_chain in blast)

lemma overlap_sym: "overlap a b = overlap b a"
  by (auto simp: overlap_def)

lemma inScope_iff: "inScope p ps \<longleftrightarrow> (\<exists>a \<in> set ps. pathCovers a p)"
  by (auto simp: inScope_def list_ex_iff)

lemma setsOverlap_exact: "setsOverlap as bs \<longleftrightarrow> (\<exists>p. inScope p as \<and> inScope p bs)"
  by (auto simp: setsOverlap_def list_ex_iff overlap_exact inScope_iff)

lemma conflicts_exact:
  "conflicts x y \<longleftrightarrow> (\<exists>p.
     inScope p (cl_writes x) \<and> (inScope p (cl_reads y) \<or> inScope p (cl_writes y)) \<or>
     inScope p (cl_writes y) \<and> (inScope p (cl_reads x) \<or> inScope p (cl_writes x)))"
  by (auto simp: conflicts_def setsOverlap_exact)

lemma conflicts_sym: "conflicts x y = conflicts y x"
  by (auto simp: conflicts_exact)

lemma set_dedupe [simp]: "set (dedupe seen ps) = set ps - set seen"
  by (induction seen ps rule: dedupe.induct) auto

lemma distinct_dedupe [simp]: "distinct (dedupe seen ps)"
  by (induction seen ps rule: dedupe.induct) auto

lemma set_normalize: "set (normalize_paths ps) = (\<lambda>p. trim_slash (trim_space p)) ` set ps"
  by (simp add: normalize_paths_def)

lemma normalize_sorted: "sorted (normalize_paths ps) \<and> distinct (normalize_paths ps)"
  by (simp add: normalize_paths_def)

lemma normalize_set_eq:
  "normalize_paths ps = normalize_paths qs \<longleftrightarrow>
     (\<lambda>p. trim_slash (trim_space p)) ` set ps = (\<lambda>p. trim_slash (trim_space p)) ` set qs"
  using normalize_sorted set_normalize
  by (metis sorted_distinct_set_unique)

text \<open>The conflict test on declared sets is exact: two units of work conflict if and only if
  there is a path that one may write and the other may read or write. It is symmetric, and
  depends on the declared sets only as sets of trimmed paths.\<close>

theorem conflict_exact:
  "(Conflict reads1 writes1 reads2 writes2 \<longleftrightarrow>
     (\<exists>p. inScope p (normalize_paths writes1) \<and> inScope p (normalize_paths reads2 @ normalize_paths writes2) \<or>
          inScope p (normalize_paths writes2) \<and> inScope p (normalize_paths reads1 @ normalize_paths writes1))) \<and>
   Conflict reads1 writes1 reads2 writes2 = Conflict reads2 writes2 reads1 writes1 \<and>
   set (normalize_paths reads1) = (\<lambda>p. trim_slash (trim_space p)) ` set reads1"
  by (auto simp: Conflict_def conflicts_exact set_normalize inScope_iff)

section \<open>The lock manager\<close>

definition anyConflict :: "claim list \<Rightarrow> claim \<Rightarrow> bool" where
  "anyConflict held c = list_ex (\<lambda>h. conflicts h c) held"

text \<open>One pass of the loop of \<^verbatim>\<open>acquire\<close> after the test of the context: the claim is recorded, or
  the caller waits (\<^verbatim>\<open>None\<close>).\<close>

definition acquire :: "claim list \<Rightarrow> claim \<Rightarrow> claim list option" where
  "acquire held c = (if \<not> anyConflict held c then Some (held @ [c]) else None)"

definition nul :: string where "nul = [CHR 0x00]"

definition sameClaim :: "claim \<Rightarrow> claim \<Rightarrow> bool" where
  "sameClaim a b =
     (join_with nul (cl_reads a) = join_with nul (cl_reads b) \<and>
      join_with nul (cl_writes a) = join_with nul (cl_writes b))"

fun release :: "claim list \<Rightarrow> claim \<Rightarrow> claim list" where
  "release [] c = []"
| "release (h # held) c = (if sameClaim h c then held else h # release held c)"

definition claim_key :: "claim \<Rightarrow> string \<times> string" where
  "claim_key c = (join_with nul (cl_reads c), join_with nul (cl_writes c))"

lemma sameClaim_key: "sameClaim a b \<longleftrightarrow> claim_key a = claim_key b"
  by (simp add: sameClaim_def claim_key_def)

lemma release_keys: "mset (map claim_key (release held c)) = mset (map claim_key held) - {#claim_key c#}"
  by (induction held) (auto simp: sameClaim_key)

lemma release_exact:
  "\<forall>h \<in> set held. sameClaim h c \<longrightarrow> h = c \<Longrightarrow> mset (release held c) = mset held - {#c#}"
proof (induction held)
  case (Cons h held)
  then show ?case by (cases "h = c") (auto simp: sameClaim_key)
qed simp

lemma release_subset: "set (release held c) \<subseteq> set held"
  by (induction held) auto

definition compatible :: "claim list \<Rightarrow> bool" where
  "compatible held = sorted_wrt (\<lambda>a b. \<not> conflicts a b) held"

lemma compatible_release: "compatible held \<Longrightarrow> compatible (release held c)"
  using release_subset by (induction held) (fastforce simp: compatible_def)+

lemma compatible_acquire: "compatible held \<Longrightarrow> acquire held c = Some held' \<Longrightarrow> compatible held'"
  by (auto simp: compatible_def acquire_def anyConflict_def list_ex_iff sorted_wrt_append split: if_splits)

section \<open>Admission orders\<close>

record 'a txn =
  tx_Name :: string
  tx_Reads :: "string list"
  tx_Writes :: "string list"
  tx_Apply :: 'a
  tx_Priority :: i64

text \<open>The scorer of \<^verbatim>\<open>ScoreOrder\<close> is a parameter; its scores are in a linear order (no NaN).\<close>

datatype ('a, 's) ordering = InputOrder | PriorityOrder | ScoreOrder "'a txn \<Rightarrow> 's"

text \<open>\<^verbatim>\<open>sort.SliceStable\<close> by insertion: the next element moves left past those it is less than.\<close>

fun move_left :: "('a \<Rightarrow> 'a \<Rightarrow> bool) \<Rightarrow> 'a \<Rightarrow> 'a list \<Rightarrow> 'a list" where
  "move_left lt x [] = [x]"
| "move_left lt x (y # ys) = (if lt x y then y # move_left lt x ys else x # y # ys)"

definition SliceStable :: "('a \<Rightarrow> 'a \<Rightarrow> bool) \<Rightarrow> 'a list \<Rightarrow> 'a list" where
  "SliceStable lt xs = rev (foldl (\<lambda>acc x. move_left lt x acc) [] xs)"

definition index_less :: "'a txn list \<Rightarrow> ('a txn \<Rightarrow> 'a txn \<Rightarrow> bool) \<Rightarrow> nat \<Rightarrow> nat \<Rightarrow> bool" where
  "index_less txns lt x y =
     (let a = txns ! x; b = txns ! y
      in if lt a b then True else if lt b a then False else x < y)"

definition sortedIndices :: "'a txn list \<Rightarrow> ('a txn \<Rightarrow> 'a txn \<Rightarrow> bool) \<Rightarrow> nat list" where
  "sortedIndices txns lt = SliceStable (index_less txns lt) [0..<length txns]"

definition priority_less :: "'a txn \<Rightarrow> 'a txn \<Rightarrow> bool" where
  "priority_less a b =
     (if tx_Priority a \<noteq> tx_Priority b then sint (tx_Priority a) > sint (tx_Priority b)
      else tx_Name a < tx_Name b)"

definition score_less :: "('a txn \<Rightarrow> 's::linorder) \<Rightarrow> 'a txn \<Rightarrow> 'a txn \<Rightarrow> bool" where
  "score_less score a b =
     (let sa = score a; sb = score b
      in if sa \<noteq> sb then sa > sb else tx_Name a < tx_Name b)"

fun Order :: "('a, 's::linorder) ordering \<Rightarrow> 'a txn list \<Rightarrow> nat list" where
  "Order InputOrder txns = [0..<length txns]"
| "Order PriorityOrder txns = sortedIndices txns priority_less"
| "Order (ScoreOrder score) txns = sortedIndices txns (score_less score)"

fun ranked :: "('a, 's::linorder) ordering \<Rightarrow> 'a txn \<Rightarrow> 'a txn \<Rightarrow> bool" where
  "ranked InputOrder a b = False"
| "ranked PriorityOrder a b = priority_less a b"
| "ranked (ScoreOrder score) a b = score_less score a b"

lemma mset_move_left [simp]: "mset (move_left lt x ys) = add_mset x (mset ys)"
  by (induction ys) auto

lemma set_move_left [simp]: "set (move_left lt x ys) = insert x (set ys)"
  by (induction ys) auto

lemma distinct_move_left: "distinct (move_left lt x ys) \<longleftrightarrow> x \<notin> set ys \<and> distinct ys"
  by (induction ys) auto

lemma mset_SliceStable [simp]: "mset (SliceStable lt xs) = mset xs"
proof -
  have "mset (foldl (\<lambda>acc x. move_left lt x acc) acc xs) = mset xs + mset acc" for acc
    by (induction xs arbitrary: acc) auto
  then show ?thesis by (simp add: SliceStable_def)
qed

lemma move_left_sorted:
  assumes "sorted_wrt (\<lambda>a b. lt b a) ys" "transp lt" "\<forall>y \<in> set ys. lt x y \<or> lt y x"
  shows "sorted_wrt (\<lambda>a b. lt b a) (move_left lt x ys)"
  using assms by (induction ys) (auto dest: transpD)

lemma SliceStable_sorted:
  assumes t: "transp lt" and l: "\<And>x y. x \<in> set xs \<Longrightarrow> y \<in> set xs \<Longrightarrow> x \<noteq> y \<Longrightarrow> lt x y \<or> lt y x"
    and d: "distinct xs"
  shows "sorted_wrt lt (SliceStable lt xs)"
proof -
  have "sorted_wrt (\<lambda>a b. lt b a) (foldl (\<lambda>acc x. move_left lt x acc) acc xs)"
    if "sorted_wrt (\<lambda>a b. lt b a) acc" "distinct (acc @ xs)"
      "\<And>x y. x \<in> set (acc @ xs) \<Longrightarrow> y \<in> set (acc @ xs) \<Longrightarrow> x \<noteq> y \<Longrightarrow> lt x y \<or> lt y x" for acc
    using that
  proof (induction xs arbitrary: acc)
    case (Cons x xs)
    have "\<forall>y \<in> set acc. lt x y \<or> lt y x"
    proof
      fix y assume y: "y \<in> set acc"
      with Cons.prems(2) have "x \<noteq> y" by auto
      with y Cons.prems(3) [of x y] show "lt x y \<or> lt y x" by simp
    qed
    then have "sorted_wrt (\<lambda>a b. lt b a) (move_left lt x acc)"
      by (rule move_left_sorted [OF Cons.prems(1) t])
    moreover have "distinct (move_left lt x acc @ xs)"
      using Cons.prems(2) by (auto simp: distinct_move_left)
    moreover have "set (move_left lt x acc @ xs) = set (acc @ x # xs)" by auto
    ultimately show ?case using Cons.IH [of "move_left lt x acc"] Cons.prems(3) by (simp del: set_append)
  qed simp
  from this [of "[]"] l d show ?thesis by (simp add: SliceStable_def sorted_wrt_rev)
qed

lemma lex_trans:
  fixes f1 :: "'a::linorder" and n1 :: "'b::linorder" and i1 :: "'c::linorder"
  shows "f2 < f1 \<or> f1 = f2 \<and> (n1 < n2 \<or> n1 = n2 \<and> i1 < i2) \<Longrightarrow>
    f3 < f2 \<or> f2 = f3 \<and> (n2 < n3 \<or> n2 = n3 \<and> i2 < i3) \<Longrightarrow>
    f3 < f1 \<or> f1 = f3 \<and> (n1 < n3 \<or> n1 = n3 \<and> i1 < i3)"
  by auto

lemma index_less_total:
  fixes f :: "'a txn \<Rightarrow> 's::linorder"
  assumes "\<And>a b. lt a b \<longleftrightarrow> f a > f b \<or> f a = f b \<and> tx_Name a < tx_Name b"
  shows "transp (index_less txns lt)" and "x \<noteq> y \<Longrightarrow> index_less txns lt x y \<or> index_less txns lt y x"
proof -
  have lex: "index_less txns lt x y \<longleftrightarrow> f (txns ! y) < f (txns ! x) \<or> f (txns ! x) = f (txns ! y) \<and>
      (tx_Name (txns ! x) < tx_Name (txns ! y) \<or> tx_Name (txns ! x) = tx_Name (txns ! y) \<and> x < y)" for x y
    using less_linear [of "f (txns ! x)" "f (txns ! y)"] less_linear [of "tx_Name (txns ! x)" "tx_Name (txns ! y)"]
    unfolding index_less_def Let_def assms by (elim disjE) (simp_all add: less_not_sym)
  show "transp (index_less txns lt)" by (rule transpI) (unfold lex, erule lex_trans)
  show "x \<noteq> y \<Longrightarrow> index_less txns lt x y \<or> index_less txns lt y x"
    unfolding lex by (metis linorder_neqE)
qed

lemma sortedIndices_exact:
  fixes f :: "'a txn \<Rightarrow> 's::linorder"
  assumes lt: "\<And>a b. lt a b \<longleftrightarrow> f a > f b \<or> f a = f b \<and> tx_Name a < tx_Name b"
  shows "mset (sortedIndices txns lt) = mset [0..<length txns] \<and>
    sorted_wrt (\<lambda>i j. lt (txns ! i) (txns ! j) \<or> \<not> lt (txns ! j) (txns ! i) \<and> i < j) (sortedIndices txns lt)"
proof -
  have "index_less txns lt = (\<lambda>i j. lt (txns ! i) (txns ! j) \<or> \<not> lt (txns ! j) (txns ! i) \<and> i < j)"
    by (auto simp: index_less_def Let_def fun_eq_iff)
  moreover have "sorted_wrt (index_less txns lt) (sortedIndices txns lt)"
    unfolding sortedIndices_def
    by (rule SliceStable_sorted [OF index_less_total(1) index_less_total(2)]) (use lt in auto)
  ultimately show ?thesis by (simp add: sortedIndices_def)
qed

lemma priority_less_iff:
  "priority_less a b \<longleftrightarrow> sint (tx_Priority a) > sint (tx_Priority b) \<or>
     sint (tx_Priority a) = sint (tx_Priority b) \<and> tx_Name a < tx_Name b"
  by (auto simp: priority_less_def signed_word_eqI)

lemma score_less_iff:
  "score_less score a b \<longleftrightarrow> score a > score b \<or> score a = score b \<and> tx_Name a < tx_Name b"
  by (auto simp: score_less_def Let_def)

lemma Order_permutation: "mset (Order ord txns) = mset [0..<length txns]"
proof (cases ord)
  case (ScoreOrder score)
  then show ?thesis using sortedIndices_exact [OF score_less_iff [of score]] by simp
qed (use sortedIndices_exact [OF priority_less_iff] in auto)

text \<open>Every admission order is a permutation of the batch, and the one its ranking determines:
  of two transactions the higher ranked comes first, and of two that rank equally the one given
  first.\<close>

theorem order_exact:
  "mset (Order ord txns) = mset [0..<length txns] \<and>
   sorted_wrt (\<lambda>i j. ranked ord (txns ! i) (txns ! j) \<or> \<not> ranked ord (txns ! j) (txns ! i) \<and> i < j)
     (Order ord txns)"
proof (cases ord)
  case (ScoreOrder score)
  then show ?thesis using sortedIndices_exact [OF score_less_iff [of score]] by simp
qed (use sortedIndices_exact [OF priority_less_iff] in \<open>auto simp: strict_sorted_iff\<close>)

section \<open>Overlap and drift\<close>

record overlap_report =
  ov_A :: string
  ov_B :: string
  ov_Paths :: "string list"

record txn_result =
  res_Name :: string
  res_Change :: "multihash option"
  res_Attempts :: nat
  res_NoOp :: bool
  res_Writes :: "string list"
  res_Err :: "goerr option"

record scope_drift =
  sd_Name :: string
  sd_WroteUndeclared :: "string list"
  sd_DeclaredUnused :: "string list"

definition moreSpecific :: "string \<Rightarrow> string \<Rightarrow> string" where
  "moreSpecific a b = (if pathCovers a b then b else a)"

text \<open>A set of strings is a list of its elements; \<^verbatim>\<open>sortedKeys\<close> sorts them, each once.\<close>

definition sortedKeys :: "string list \<Rightarrow> string list" where
  "sortedKeys ks = sort (remdups ks)"

definition prefixIntersection :: "string list \<Rightarrow> string list \<Rightarrow> string list" where
  "prefixIntersection as bs =
     sortedKeys (concat (map (\<lambda>a. map (moreSpecific a) (filter (overlap a) bs)) as))"

definition exactIntersection :: "string list \<Rightarrow> string list \<Rightarrow> string list" where
  "exactIntersection as bs = sortedKeys (filter (\<lambda>a. a \<in> set bs) as)"

definition index_pairs :: "nat \<Rightarrow> (nat \<times> nat) list" where
  "index_pairs n = concat (map (\<lambda>i. map (Pair i) [i + 1..<n]) [0..<n])"

definition DeclaredOverlaps :: "'a txn list \<Rightarrow> overlap_report list" where
  "DeclaredOverlaps txns =
     (let writes = map (\<lambda>t. normalize_paths (tx_Writes t)) txns
      in concat (map (\<lambda>(i, j).
           let paths = prefixIntersection (writes ! i) (writes ! j)
           in if length paths > 0
              then [\<lparr>ov_A = tx_Name (txns ! i), ov_B = tx_Name (txns ! j), ov_Paths = paths\<rparr>] else [])
         (index_pairs (length txns))))"

definition ObservedOverlaps :: "txn_result list \<Rightarrow> overlap_report list" where
  "ObservedOverlaps results =
     concat (map (\<lambda>(i, j).
       let paths = exactIntersection (res_Writes (results ! i)) (res_Writes (results ! j))
       in if length paths > 0
          then [\<lparr>ov_A = res_Name (results ! i), ov_B = res_Name (results ! j), ov_Paths = paths\<rparr>] else [])
     (index_pairs (length results)))"

definition drift_Empty :: "scope_drift \<Rightarrow> bool" where
  "drift_Empty d = (length (sd_WroteUndeclared d) = 0 \<and> length (sd_DeclaredUnused d) = 0)"

definition Drift :: "string \<Rightarrow> string list \<Rightarrow> string list \<Rightarrow> scope_drift" where
  "Drift name declaredWrites observed =
     (let declared = normalize_paths declaredWrites; obs = normalize_paths observed
      in \<lparr>sd_Name = name,
          sd_WroteUndeclared = filter (\<lambda>p. \<not> inScope p declared) obs,
          sd_DeclaredUnused = filter (\<lambda>pref. \<not> list_ex (pathCovers pref) obs) declared\<rparr>)"

definition Reconcile :: "'a txn list \<Rightarrow> txn_result list \<Rightarrow> scope_drift list" where
  "Reconcile txns results =
     concat (map (\<lambda>i.
       if res_Err (results ! i) \<noteq> None then []
       else let d = Drift (tx_Name (txns ! i)) (tx_Writes (txns ! i)) (res_Writes (results ! i))
            in if \<not> drift_Empty d then [d] else [])
     [0..<min (length txns) (length results)])"

subsection \<open>The reports are exact\<close>

lemma set_sortedKeys [simp]: "set (sortedKeys ks) = set ks"
  by (simp add: sortedKeys_def)

lemma sortedKeys_Nil [simp]: "sortedKeys ks = [] \<longleftrightarrow> ks = []"
  by (metis set_empty set_sortedKeys)

lemma set_index_pairs: "set (index_pairs n) = {(i, j). i < j \<and> j < n}"
  by (force simp: index_pairs_def)

lemma pair_reports:
  "set (concat (map (\<lambda>(i, j). let paths = F i j in if length paths > 0 then [R i j paths] else [])
     (index_pairs n))) = {R i j (F i j) | i j. i < j \<and> j < n \<and> F i j \<noteq> []}"
  by (auto simp: set_index_pairs Let_def)

lemma prefix_intersection_exact:
  "inScope p (prefixIntersection as bs) \<longleftrightarrow> inScope p as \<and> inScope p bs"
proof
  assume "inScope p (prefixIntersection as bs)"
  then obtain a b where ab: "a \<in> set as" "b \<in> set bs" "overlap a b" "pathCovers (moreSpecific a b) p"
    by (auto simp: inScope_iff prefixIntersection_def)
  then have "pathCovers a p \<and> pathCovers b p"
    using pathCovers_trans [of a b p] pathCovers_trans [of b a p]
    by (auto simp: moreSpecific_def overlap_def split: if_splits)
  with ab show "inScope p as \<and> inScope p bs" by (auto simp: inScope_iff)
next
  assume "inScope p as \<and> inScope p bs"
  then obtain a b where ab: "a \<in> set as" "b \<in> set bs" "pathCovers a p" "pathCovers b p"
    by (auto simp: inScope_iff)
  then have "overlap a b" by (auto intro: pathCovers_chain)
  moreover from ab have "pathCovers (moreSpecific a b) p" by (simp add: moreSpecific_def)
  ultimately show "inScope p (prefixIntersection as bs)"
    using ab unfolding inScope_iff prefixIntersection_def set_sortedKeys by force
qed

lemma prefix_intersection_Nil: "prefixIntersection as bs = [] \<longleftrightarrow> \<not> setsOverlap as bs"
  by (auto simp: prefixIntersection_def setsOverlap_def list_ex_iff filter_empty_conv)

text \<open>The declared overlaps are exact: a pair of transactions is reported if and only if there is
  a path both declare to write, and the paths of its report stand for exactly those. An
  overlap reported between two transactions always makes them conflict.\<close>

theorem declared_overlaps_exact:
  "set (DeclaredOverlaps txns) =
     {\<lparr>ov_A = tx_Name (txns ! i), ov_B = tx_Name (txns ! j),
       ov_Paths = prefixIntersection (normalize_paths (tx_Writes (txns ! i))) (normalize_paths (tx_Writes (txns ! j)))\<rparr> | i j.
       i < j \<and> j < length txns \<and>
       (\<exists>p. inScope p (normalize_paths (tx_Writes (txns ! i))) \<and> inScope p (normalize_paths (tx_Writes (txns ! j))))} \<and>
   (\<forall>p as bs. inScope p (prefixIntersection as bs) = (inScope p as \<and> inScope p bs)) \<and>
   (\<forall>r1 w1 r2 w2. \<not> Conflict r1 w1 r2 w2 = (prefixIntersection (normalize_paths w1) (normalize_paths w2) = [] \<and>
      prefixIntersection (normalize_paths w1) (normalize_paths r2) = [] \<and>
      prefixIntersection (normalize_paths r1) (normalize_paths w2) = []))"
proof (intro conjI allI)
  have "set (DeclaredOverlaps txns) =
     {\<lparr>ov_A = tx_Name (txns ! i), ov_B = tx_Name (txns ! j),
       ov_Paths = prefixIntersection (map (\<lambda>t. normalize_paths (tx_Writes t)) txns ! i)
         (map (\<lambda>t. normalize_paths (tx_Writes t)) txns ! j)\<rparr> | i j.
       i < j \<and> j < length txns \<and>
       prefixIntersection (map (\<lambda>t. normalize_paths (tx_Writes t)) txns ! i)
         (map (\<lambda>t. normalize_paths (tx_Writes t)) txns ! j) \<noteq> []}"
    unfolding DeclaredOverlaps_def Let_def by (rule pair_reports [unfolded Let_def])
  also have "\<dots> = {\<lparr>ov_A = tx_Name (txns ! i), ov_B = tx_Name (txns ! j),
       ov_Paths = prefixIntersection (normalize_paths (tx_Writes (txns ! i))) (normalize_paths (tx_Writes (txns ! j)))\<rparr> | i j.
       i < j \<and> j < length txns \<and>
       (\<exists>p. inScope p (normalize_paths (tx_Writes (txns ! i))) \<and> inScope p (normalize_paths (tx_Writes (txns ! j))))}"
    by (rule Collect_cong, rule ex_cong1, rule ex_cong1)
      (use prefix_intersection_Nil setsOverlap_exact in auto)
  finally show "set (DeclaredOverlaps txns) = \<dots>" .
qed (auto simp: prefix_intersection_exact prefix_intersection_Nil Conflict_def conflicts_def)

lemma drift_empty_iff:
  "drift_Empty (Drift name declared observed) \<longleftrightarrow>
     (\<forall>p \<in> set (normalize_paths observed). inScope p (normalize_paths declared)) \<and>
     (\<forall>a \<in> set (normalize_paths declared). \<exists>p \<in> set (normalize_paths observed). pathCovers a p)"
  by (auto simp: drift_Empty_def Drift_def Let_def filter_empty_conv list_ex_iff)

end
