(* ===== verification/TxnRun.thy ===== *)
theory TxnRun
  imports TxnSets
begin

text \<open>
  The scheduler's concurrency: \<^verbatim>\<open>Scheduler.Run\<close> of \<^verbatim>\<open>internal/txn/txn.go\<close> and the blocking of
  \<^verbatim>\<open>internal/txn/lock.go\<close>. Several calls of \<^verbatim>\<open>Run\<close> may share one scheduler, hence one lock
  manager; each has its own context, its own semaphore and its own admission order. A
  goroutine is the pair of its batch and its index in it; its state is the place it has
  reached. What a transaction does while it holds its claim is one step here (it is the
  theory \<^verbatim>\<open>Txn\<close>); every step that touches the lock manager is atomic, as its mutex makes it.
\<close>

section \<open>Ranks and predecessors\<close>

definition claims_of :: "'a txn list \<Rightarrow> claim list" where
  "claims_of txns =
     map (\<lambda>t. \<lparr>cl_reads = normalize_paths (tx_Reads t), cl_writes = normalize_paths (tx_Writes t)\<rparr>) txns"

fun ranks_from :: "nat \<Rightarrow> nat list \<Rightarrow> nat list \<Rightarrow> goerr + nat list" where
  "ranks_from pos [] rank = Inr rank"
| "ranks_from pos (idx # order) rank =
     (if idx < length rank then ranks_from (Suc pos) order (rank[idx := pos])
      else Inl (Panic ''index out of range''))"

definition ranks :: "'a txn list \<Rightarrow> nat list \<Rightarrow> goerr + nat list" where
  "ranks txns order = ranks_from 0 order (replicate (length txns) 0)"

definition preds_of :: "claim list \<Rightarrow> nat list \<Rightarrow> nat \<Rightarrow> nat list" where
  "preds_of claims rank i =
     filter (\<lambda>j. if i = j then False else rank ! j < rank ! i \<and> conflicts (claims ! i) (claims ! j))
       [0..<length claims]"

lemma ranks_from_spec:
  "distinct order \<Longrightarrow> set order \<subseteq> {..<length rank} \<Longrightarrow>
   \<exists>r. ranks_from pos order rank = Inr r \<and> length r = length rank \<and>
     (\<forall>k < length order. r ! (order ! k) = pos + k) \<and> (\<forall>i. i \<notin> set order \<longrightarrow> r ! i = rank ! i)"
proof (induction order arbitrary: pos rank)
  case (Cons idx order)
  then obtain r where r: "ranks_from (Suc pos) order (rank[idx := pos]) = Inr r" "length r = length rank"
      "\<forall>k < length order. r ! (order ! k) = Suc pos + k" "\<forall>i. i \<notin> set order \<longrightarrow> r ! i = rank[idx := pos] ! i"
    using Cons.IH [of "rank[idx := pos]" "Suc pos"] by auto
  have "r ! ((idx # order) ! k) = pos + k" if "k < length (idx # order)" for k
    using r Cons.prems that by (cases k) auto
  with r Cons.prems show ?case by auto
qed simp

lemma ranks_permutation:
  assumes "mset order = mset [0..<length txns]"
  obtains r where "ranks txns order = Inr r" "length r = length txns" "inj_on ((!) r) {..<length txns}"
proof -
  have s: "set order = {..<length txns}" using mset_eq_setD [OF assms] by (simp add: atLeast_upt)
  have d: "distinct order" using mset_eq_imp_distinct_iff [OF assms] by simp
  obtain r where r: "ranks txns order = Inr r" "length r = length txns"
      "\<forall>k < length order. r ! (order ! k) = k"
    using ranks_from_spec [OF d, of "replicate (length txns) 0" 0] s by (auto simp: ranks_def)
  have "inj_on ((!) r) {..<length txns}"
  proof (rule inj_onI)
    fix i j assume "i \<in> {..<length txns}" "j \<in> {..<length txns}" "r ! i = r ! j"
    then obtain k l where "k < length order" "order ! k = i" "l < length order" "order ! l = j"
      using s by (metis in_set_conv_nth)
    with r \<open>r ! i = r ! j\<close> show "i = j" by auto
  qed
  with r show ?thesis using that by blast
qed

section \<open>Goroutines\<close>

text \<open>
  \<^verbatim>\<open>Gate k\<close>: waiting for the predecessors from the \<^verbatim>\<open>k\<close>-th on, then for a slot of the semaphore.
  \<^verbatim>\<open>Locking\<close>: in the loop of \<^verbatim>\<open>acquire\<close>; \<^verbatim>\<open>Blocked\<close>: in its \<^verbatim>\<open>cond.Wait\<close>. \<^verbatim>\<open>Working\<close>: holding the
  claim. \<^verbatim>\<open>Leaving\<close>, \<^verbatim>\<open>Closing\<close>: the slot, then \<^verbatim>\<open>done\<close>, are still to be given up; the flag says
  whether the transaction ran, or only the context ended.
\<close>

type_synonym gid = "nat \<times> nat"

datatype phase = Gate nat | Locking | Blocked | Working | Leaving bool | Closing bool | Finished bool

record sched =
  sc_phase :: "gid \<Rightarrow> phase"
  sc_slots :: "nat \<Rightarrow> nat"
  sc_held :: "claim list"
  sc_ctx :: "nat \<Rightarrow> bool"

definition goto :: "sched \<Rightarrow> gid \<Rightarrow> phase \<Rightarrow> sched" where
  "goto s g p = s\<lparr>sc_phase := (sc_phase s)(g := p)\<rparr>"

text \<open>\<^verbatim>\<open>cond.Broadcast\<close>.\<close>

definition wake :: "phase \<Rightarrow> phase" where
  "wake p = (if p = Blocked then Locking else p)"

definition after_release :: "sched \<Rightarrow> claim \<Rightarrow> sched" where
  "after_release s c = s\<lparr>sc_held := release (sc_held s) c, sc_phase := (\<lambda>g. wake (sc_phase s g))\<rparr>"

text \<open>The batches of a scheduler: the claims of each and the ranks its ordering gives.\<close>

type_synonym batches = "(claim list \<times> nat list) list"

definition goroutines :: "batches \<Rightarrow> gid set" where
  "goroutines bs = Sigma {..<length bs} (\<lambda>b. {..<length (fst (bs ! b))})"

definition claim_at :: "batches \<Rightarrow> gid \<Rightarrow> claim" where
  "claim_at bs g = fst (bs ! fst g) ! snd g"

definition preds_at :: "batches \<Rightarrow> gid \<Rightarrow> gid list" where
  "preds_at bs g = map (Pair (fst g)) (preds_of (fst (bs ! fst g)) (snd (bs ! fst g)) (snd g))"

definition sched_init :: sched where
  "sched_init = \<lparr>sc_phase = (\<lambda>_. Gate 0), sc_slots = (\<lambda>_. 0), sc_held = [], sc_ctx = (\<lambda>_. False)\<rparr>"

inductive sched_step :: "nat \<Rightarrow> batches \<Rightarrow> sched \<Rightarrow> sched \<Rightarrow> bool" for conc bs where
  ctx_done: "b < length bs \<Longrightarrow> \<not> sc_ctx s b \<Longrightarrow>
     sched_step conc bs s (s\<lparr>sc_ctx := (sc_ctx s)(b := True)\<rparr>)"
| pred_done: "g \<in> goroutines bs \<Longrightarrow> sc_phase s g = Gate k \<Longrightarrow> k < length (preds_at bs g) \<Longrightarrow>
     sc_phase s (preds_at bs g ! k) = Finished w \<Longrightarrow> sched_step conc bs s (goto s g (Gate (Suc k)))"
| gate_ctx: "g \<in> goroutines bs \<Longrightarrow> sc_phase s g = Gate k \<Longrightarrow> sc_ctx s (fst g) \<Longrightarrow>
     sched_step conc bs s (goto s g (Closing False))"
| slot: "g \<in> goroutines bs \<Longrightarrow> sc_phase s g = Gate (length (preds_at bs g)) \<Longrightarrow> sc_slots s (fst g) < conc \<Longrightarrow>
     sched_step conc bs s
       (goto (s\<lparr>sc_slots := (sc_slots s)(fst g := sc_slots s (fst g) + 1)\<rparr>) g Locking)"
| lock_ctx: "g \<in> goroutines bs \<Longrightarrow> sc_phase s g = Locking \<Longrightarrow> sc_ctx s (fst g) \<Longrightarrow>
     sched_step conc bs s (goto s g (Leaving False))"
| lock: "g \<in> goroutines bs \<Longrightarrow> sc_phase s g = Locking \<Longrightarrow> \<not> sc_ctx s (fst g) \<Longrightarrow>
     acquire (sc_held s) (claim_at bs g) = Some held \<Longrightarrow>
     sched_step conc bs s (goto (s\<lparr>sc_held := held\<rparr>) g Working)"
| block: "g \<in> goroutines bs \<Longrightarrow> sc_phase s g = Locking \<Longrightarrow> \<not> sc_ctx s (fst g) \<Longrightarrow>
     acquire (sc_held s) (claim_at bs g) = None \<Longrightarrow> sched_step conc bs s (goto s g Blocked)"
| work: "g \<in> goroutines bs \<Longrightarrow> sc_phase s g = Working \<Longrightarrow>
     sched_step conc bs s (goto (after_release s (claim_at bs g)) g (Leaving True))"
| leave: "g \<in> goroutines bs \<Longrightarrow> sc_phase s g = Leaving w \<Longrightarrow>
     sched_step conc bs s
       (goto (s\<lparr>sc_slots := (sc_slots s)(fst g := sc_slots s (fst g) - 1)\<rparr>) g (Closing w))"
| close: "g \<in> goroutines bs \<Longrightarrow> sc_phase s g = Closing w \<Longrightarrow> sched_step conc bs s (goto s g (Finished w))"

definition reachable :: "nat \<Rightarrow> batches \<Rightarrow> sched \<Rightarrow> bool" where
  "reachable conc bs = (sched_step conc bs)\<^sup>*\<^sup>* sched_init"

inductive_cases sched_stepE: "sched_step conc bs s s'"

section \<open>Invariants\<close>

fun holds :: "phase \<Rightarrow> bool" where
  "holds Locking = True"
| "holds Blocked = True"
| "holds Working = True"
| "holds (Leaving _) = True"
| "holds _ = False"

fun finished :: "phase \<Rightarrow> bool" where
  "finished (Finished _) = True"
| "finished _ = False"

fun gave_up :: "phase \<Rightarrow> bool" where
  "gave_up (Leaving w) = (\<not> w)"
| "gave_up (Closing w) = (\<not> w)"
| "gave_up (Finished w) = (\<not> w)"
| "gave_up _ = False"

lemma wake_simps [simp]:
  "holds (wake p) = holds p" "finished (wake p) = finished p" "gave_up (wake p) = gave_up p"
  "wake p = Working \<longleftrightarrow> p = Working" "wake p = Gate k \<longleftrightarrow> p = Gate k" "wake p \<noteq> Blocked"
  by (cases p; simp add: wake_def)+

lemma goto_simps [simp]:
  "sc_phase (goto s g p) = (sc_phase s)(g := p)" "sc_slots (goto s g p) = sc_slots s"
  "sc_held (goto s g p) = sc_held s" "sc_ctx (goto s g p) = sc_ctx s"
  by (simp_all add: goto_def)

lemma after_release_simps [simp]:
  "sc_phase (after_release s c) = (\<lambda>g. wake (sc_phase s g))" "sc_slots (after_release s c) = sc_slots s"
  "sc_held (after_release s c) = release (sc_held s) c" "sc_ctx (after_release s c) = sc_ctx s"
  by (simp_all add: after_release_def)

lemma finite_goroutines [simp]: "finite (goroutines bs)"
  by (simp add: goroutines_def)

lemma preds_goroutines: "g \<in> goroutines bs \<Longrightarrow> p \<in> set (preds_at bs g) \<Longrightarrow>
    p \<in> goroutines bs \<and> fst p = fst g \<and> snd (bs ! fst g) ! snd p < snd (bs ! fst g) ! snd g \<and>
    conflicts (claim_at bs g) (claim_at bs p)"
  by (auto simp: goroutines_def preds_at_def preds_of_def claim_at_def split: if_splits)

lemma finished_stays: "sched_step conc bs s s' \<Longrightarrow> finished (sc_phase s p) \<Longrightarrow> finished (sc_phase s' p)"
  by (erule sched_stepE) auto

definition gates_ok :: "batches \<Rightarrow> sched \<Rightarrow> bool" where
  "gates_ok bs s \<longleftrightarrow> (\<forall>g \<in> goroutines bs.
     (\<forall>k. sc_phase s g = Gate k \<longrightarrow> k \<le> length (preds_at bs g) \<and>
        (\<forall>m < k. finished (sc_phase s (preds_at bs g ! m)))) \<and>
     (holds (sc_phase s g) \<longrightarrow> (\<forall>p \<in> set (preds_at bs g). finished (sc_phase s p))))"

lemma gates_step:
  assumes ok: "gates_ok bs s" and step: "sched_step conc bs s s'"
  shows "gates_ok bs s'"
  unfolding gates_ok_def
proof (intro ballI conjI allI impI)
  fix g k assume g: "g \<in> goroutines bs" and k: "sc_phase s' g = Gate k"
  have "sc_phase s g = Gate k \<or> (\<exists>m w. k = Suc m \<and> sc_phase s g = Gate m \<and> m < length (preds_at bs g) \<and>
      sc_phase s (preds_at bs g ! m) = Finished w)"
    using step k by (cases rule: sched_step.cases) (auto split: if_splits)
  then show "k \<le> length (preds_at bs g)" using ok g unfolding gates_ok_def by auto
  fix m assume "m < k"
  with \<open>sc_phase s g = Gate k \<or> _\<close> have "finished (sc_phase s (preds_at bs g ! m))"
    using ok g unfolding gates_ok_def by (auto simp: less_Suc_eq)
  then show "finished (sc_phase s' (preds_at bs g ! m))" by (rule finished_stays [OF step])
next
  fix g p assume g: "g \<in> goroutines bs" and h: "holds (sc_phase s' g)" and p: "p \<in> set (preds_at bs g)"
  have "holds (sc_phase s g) \<or> sc_phase s g = Gate (length (preds_at bs g))"
    using step h by (cases rule: sched_step.cases) (auto split: if_splits)
  then have "finished (sc_phase s p)"
    using ok g p unfolding gates_ok_def by (metis in_set_conv_nth)
  then show "finished (sc_phase s' p)" by (rule finished_stays [OF step])
qed

definition busy :: "batches \<Rightarrow> (gid \<Rightarrow> phase) \<Rightarrow> nat \<Rightarrow> gid set" where
  "busy bs ph b = {g \<in> goroutines bs. fst g = b \<and> holds (ph g)}"

definition workers :: "batches \<Rightarrow> (gid \<Rightarrow> phase) \<Rightarrow> gid set" where
  "workers bs ph = {g \<in> goroutines bs. ph g = Working}"

lemma finite_selected [simp]: "finite (busy bs ph b)" "finite (workers bs ph)"
  by (simp_all add: busy_def workers_def)

lemma selected_upd [simp]:
  "g \<in> goroutines bs \<Longrightarrow> busy bs (ph(g := p)) b =
     (if fst g = b \<and> holds p then insert g (busy bs ph b) else busy bs ph b - {g})"
  "g \<in> goroutines bs \<Longrightarrow> workers bs (ph(g := p)) =
     (if p = Working then insert g (workers bs ph) else workers bs ph - {g})"
  "busy bs (\<lambda>g. wake (ph g)) b = busy bs ph b"
  "workers bs (\<lambda>g. wake (ph g)) = workers bs ph"
  by (auto simp: busy_def workers_def)

lemma selected_iff:
  "g \<in> busy bs ph b \<longleftrightarrow> g \<in> goroutines bs \<and> fst g = b \<and> holds (ph g)"
  "g \<in> workers bs ph \<longleftrightarrow> g \<in> goroutines bs \<and> ph g = Working"
  by (auto simp: busy_def workers_def)

definition slots_ok :: "batches \<Rightarrow> sched \<Rightarrow> bool" where
  "slots_ok bs s \<longleftrightarrow> (\<forall>b. sc_slots s b = card (busy bs (sc_phase s) b))"

lemma slots_step:
  assumes ok: "slots_ok bs s" and step: "sched_step conc bs s s'"
  shows "slots_ok bs s'"
  using step ok unfolding slots_ok_def
  by (cases rule: sched_step.cases) (auto simp: card_insert_if selected_iff)

definition held_ok :: "batches \<Rightarrow> sched \<Rightarrow> bool" where
  "held_ok bs s \<longleftrightarrow> compatible (sc_held s) \<and>
     mset (map claim_key (sc_held s)) =
       image_mset (\<lambda>g. claim_key (claim_at bs g)) (mset_set (workers bs (sc_phase s)))"

lemma mset_set_Diff_single:
  "finite A \<Longrightarrow> x \<in> A \<Longrightarrow> image_mset f (mset_set (A - {x})) = image_mset f (mset_set A) - {#f x#}"
  by (simp add: mset_set_Diff image_mset_Diff)

lemma held_step:
  assumes ok: "held_ok bs s" and step: "sched_step conc bs s s'"
  shows "held_ok bs s'"
  using step
proof (cases rule: sched_step.cases)
  case (lock g held)
  have h: "held = sc_held s @ [claim_at bs g]" using lock by (simp add: acquire_def split: if_splits)
  moreover have "compatible held" using compatible_acquire [OF _ lock(5)] ok by (simp add: held_ok_def)
  ultimately show ?thesis using lock ok by (simp add: held_ok_def selected_iff)
next
  case (work g)
  then have "g \<in> workers bs (sc_phase s)" by (simp add: selected_iff)
  with work ok show ?thesis
    by (simp add: held_ok_def compatible_release release_keys [unfolded mset_map] mset_set_Diff_single)
qed (use ok in \<open>auto simp: held_ok_def selected_iff\<close>)

definition blocked_ok :: "batches \<Rightarrow> sched \<Rightarrow> bool" where
  "blocked_ok bs s \<longleftrightarrow>
     (\<forall>g \<in> goroutines bs. sc_phase s g = Blocked \<longrightarrow> anyConflict (sc_held s) (claim_at bs g)) \<and>
     (\<forall>g \<in> goroutines bs. gave_up (sc_phase s g) \<longrightarrow> sc_ctx s (fst g))"

lemma blocked_step:
  assumes ok: "blocked_ok bs s" and step: "sched_step conc bs s s'"
  shows "blocked_ok bs s'"
  using step ok
  by (cases rule: sched_step.cases)
    (auto simp: blocked_ok_def acquire_def anyConflict_def split: if_splits)

definition sched_ok :: "batches \<Rightarrow> sched \<Rightarrow> bool" where
  "sched_ok bs s \<longleftrightarrow> gates_ok bs s \<and> slots_ok bs s \<and> held_ok bs s \<and> blocked_ok bs s"

lemma sched_invariant: "reachable conc bs s \<Longrightarrow> sched_ok bs s"
  unfolding reachable_def
proof (induction rule: rtranclp_induct)
  case base
  show ?case
    by (auto simp: sched_ok_def sched_init_def gates_ok_def slots_ok_def held_ok_def blocked_ok_def
        compatible_def busy_def workers_def)
next
  case (step s s')
  then show ?case using gates_step slots_step held_step blocked_step by (auto simp: sched_ok_def)
qed

section \<open>Mutual exclusion\<close>

definition Run_batch :: "('a, 's::linorder) ordering \<Rightarrow> 'a txn list \<Rightarrow> goerr + (claim list \<times> nat list)" where
  "Run_batch ord txns = rbind (ranks txns (Order ord txns)) (\<lambda>rank. Inr (claims_of txns, rank))"

definition Runs :: "(('a, 's::linorder) ordering \<times> 'a txn list) list \<Rightarrow> batches \<Rightarrow> bool" where
  "Runs runs bs = list_all2 (\<lambda>r b. Run_batch (fst r) (snd r) = Inr b) runs bs"

lemma Runs_inj:
  assumes "Runs runs bs" "b < length bs"
  shows "inj_on ((!) (snd (bs ! b))) {..<length (fst (bs ! b))}"
proof -
  have b: "Run_batch (fst (runs ! b)) (snd (runs ! b)) = Inr (bs ! b)"
    using assms by (simp add: Runs_def list_all2_conv_all_nth)
  obtain r where "ranks (snd (runs ! b)) (Order (fst (runs ! b)) (snd (runs ! b))) = Inr r"
      "inj_on ((!) r) {..<length (snd (runs ! b))}"
    by (rule ranks_permutation [OF Order_permutation])
  with b have "bs ! b = (claims_of (snd (runs ! b)), r)" "inj_on ((!) r) {..<length (snd (runs ! b))}"
    by (auto simp: Run_batch_def)
  then show ?thesis by (simp add: claims_of_def)
qed

lemma Run_batch_exists: "\<exists>b. Run_batch ord txns = Inr b"
  by (rule ranks_permutation [OF Order_permutation [of ord txns]]) (simp add: Run_batch_def)

lemma pred_of_conflict:
  assumes "Runs runs bs" "g \<in> goroutines bs" "g' \<in> goroutines bs" "g \<noteq> g'" "fst g = fst g'"
    "conflicts (claim_at bs g) (claim_at bs g')"
  shows "g' \<in> set (preds_at bs g) \<or> g \<in> set (preds_at bs g')"
proof -
  obtain b i j where g: "g = (b, i)" "g' = (b, j)" using assms(5) by (cases g, cases g') simp
  with assms have ij: "i \<noteq> j" "b < length bs" "i < length (fst (bs ! b))" "j < length (fst (bs ! b))"
    by (auto simp: goroutines_def)
  then have "snd (bs ! b) ! i \<noteq> snd (bs ! b) ! j"
    using Runs_inj [OF assms(1) ij(2)] by (auto dest: inj_onD)
  moreover have "conflicts (claim_at bs g') (claim_at bs g)" using assms(6) conflicts_sym by metis
  ultimately show ?thesis
    using g ij assms(6) by (fastforce simp: preds_at_def preds_of_def claim_at_def)
qed

text \<open>Where equal keys mean equal claims, what is held is exactly what the workers claimed.\<close>

definition claims_distinct :: "batches \<Rightarrow> bool" where
  "claims_distinct bs \<longleftrightarrow> (\<forall>x \<in> goroutines bs. \<forall>y \<in> goroutines bs.
     sameClaim (claim_at bs x) (claim_at bs y) \<longrightarrow> claim_at bs x = claim_at bs y)"

definition held_exact :: "batches \<Rightarrow> sched \<Rightarrow> bool" where
  "held_exact bs s \<longleftrightarrow> mset (sc_held s) = image_mset (claim_at bs) (mset_set (workers bs (sc_phase s)))"

lemma held_exact_step:
  assumes ok: "held_exact bs s" and d: "claims_distinct bs" and step: "sched_step conc bs s s'"
  shows "held_exact bs s'"
  using step
proof (cases rule: sched_step.cases)
  case (lock g held)
  then have "held = sc_held s @ [claim_at bs g]" by (simp add: acquire_def split: if_splits)
  with lock ok show ?thesis by (simp add: held_exact_def selected_iff)
next
  case (work g)
  then have g: "g \<in> workers bs (sc_phase s)" by (simp add: selected_iff)
  have "set (sc_held s) = claim_at bs ` workers bs (sc_phase s)"
    using ok unfolding held_exact_def by (metis finite_selected(2) finite_set_mset_mset_set set_image_mset set_mset_mset)
  then have "\<forall>h \<in> set (sc_held s). sameClaim h (claim_at bs g) \<longrightarrow> h = claim_at bs g"
    using d work by (auto simp: claims_distinct_def selected_iff)
  then show ?thesis using work g ok by (simp add: held_exact_def release_exact mset_set_Diff_single)
qed (use ok in \<open>auto simp: held_exact_def selected_iff\<close>)

lemma held_exact_invariant: "reachable conc bs s \<Longrightarrow> claims_distinct bs \<Longrightarrow> held_exact bs s"
  unfolding reachable_def
proof (induction rule: rtranclp_induct)
  case base
  show ?case by (simp add: held_exact_def sched_init_def workers_def)
qed (use held_exact_step in blast)

lemma compatible_pair: "compatible held \<Longrightarrow> {#a, b#} \<subseteq># mset held \<Longrightarrow> \<not> conflicts a b"
proof (induction held)
  case (Cons h held)
  consider "a = h" "b \<in> set held" | "b = h" "a \<in> set held" | "{#a, b#} \<subseteq># mset held"
    using Cons.prems(2)
    by (cases "a = h"; cases "b = h") (auto simp: insert_subset_eq_iff add_mset_commute dest: in_diffD)
  then show ?case
    using Cons conflicts_sym [of a b] by cases (auto simp: compatible_def)
qed simp

lemma preds_finished:
  "reachable conc bs s \<Longrightarrow> g \<in> workers bs (sc_phase s) \<Longrightarrow> p \<in> set (preds_at bs g) \<Longrightarrow> finished (sc_phase s p)"
  using sched_invariant unfolding sched_ok_def gates_ok_def selected_iff by fastforce

lemma workers_exclude:
  assumes runs: "Runs runs bs" and r: "reachable conc bs s" and w: "g \<in> workers bs (sc_phase s)"
    "g' \<in> workers bs (sc_phase s)" "g \<noteq> g'" and d: "fst g = fst g' \<or> claims_distinct bs"
  shows "\<not> conflicts (claim_at bs g) (claim_at bs g')"
  using d
proof
  assume "fst g = fst g'"
  show ?thesis
  proof
    assume "conflicts (claim_at bs g) (claim_at bs g')"
    then have p: "g' \<in> set (preds_at bs g) \<or> g \<in> set (preds_at bs g')"
      using pred_of_conflict [OF runs] w \<open>fst g = fst g'\<close> by (simp add: selected_iff)
    have "\<not> finished (sc_phase s g)" "\<not> finished (sc_phase s g')" using w by (auto simp: selected_iff)
    with p show False using preds_finished [OF r w(1)] preds_finished [OF r w(2)] by blast
  qed
next
  assume d: "claims_distinct bs"
  have "mset_set {g, g'} \<subseteq># mset_set (workers bs (sc_phase s))"
    by (rule subset_imp_msubset_mset_set) (use w in auto)
  then have "image_mset (claim_at bs) (mset_set {g, g'}) \<subseteq># mset (sc_held s)"
    using held_exact_invariant [OF r d] unfolding held_exact_def by (metis image_mset_subseteq_mono)
  then have "{#claim_at bs g, claim_at bs g'#} \<subseteq># mset (sc_held s)" using w(3) by simp
  moreover have "compatible (sc_held s)" using sched_invariant [OF r] by (simp add: sched_ok_def held_ok_def)
  ultimately show ?thesis by (rule compatible_pair [rotated])
qed

section \<open>Progress\<close>

text \<open>Steps a goroutine can still make; a release may send every waiter back to try again.\<close>

fun steps_left :: "nat \<Rightarrow> nat \<Rightarrow> phase \<Rightarrow> nat" where
  "steps_left n preds (Gate k) = n + 6 + (preds - k)"
| "steps_left n preds Locking = n + 5"
| "steps_left n preds Blocked = n + 4"
| "steps_left n preds Working = n + 3"
| "steps_left n preds (Leaving _) = 2"
| "steps_left n preds (Closing _) = 1"
| "steps_left n preds (Finished _) = 0"

definition run_left :: "batches \<Rightarrow> sched \<Rightarrow> nat" where
  "run_left bs s =
     (\<Sum>g \<in> goroutines bs. steps_left (card (goroutines bs)) (length (preds_at bs g)) (sc_phase s g)) +
     card {b \<in> {..<length bs}. \<not> sc_ctx s b}"

lemma steps_left_wake: "steps_left n k (wake p) \<le> steps_left n k p + 1"
  by (cases p) (simp_all add: wake_def)

lemma run_left_upd:
  assumes "g \<in> goroutines bs"
  shows "(\<Sum>x \<in> goroutines bs. F x ((f(g := p)) x)) + F g (f g) = (\<Sum>x \<in> goroutines bs. F x (f x)) + (F g p :: nat)"
proof -
  have "(\<Sum>x \<in> goroutines bs. F x ((f(g := p)) x)) = F g p + (\<Sum>x \<in> goroutines bs - {g}. F x ((f(g := p)) x))"
    using assms by (simp add: sum.remove)
  also have "(\<Sum>x \<in> goroutines bs - {g}. F x ((f(g := p)) x)) = (\<Sum>x \<in> goroutines bs - {g}. F x (f x))"
    by (rule sum.cong) auto
  finally show ?thesis using assms by (simp add: sum.remove)
qed

lemma run_left_step:
  assumes "sched_step conc bs s s'"
  shows "run_left bs s' < run_left bs s"
proof -
  let ?n = "card (goroutines bs)"
  let ?F = "\<lambda>g. steps_left ?n (length (preds_at bs g))"
  let ?S = "\<lambda>f. \<Sum>x \<in> goroutines bs. ?F x (f x)"
  note upd = run_left_upd [where F = ?F]
  have move: "run_left bs (goto t g p) < run_left bs s"
    if "g \<in> goroutines bs" "?F g p < ?F g (sc_phase s g)" "sc_phase t = sc_phase s" "sc_ctx t = sc_ctx s" for t g p
    using upd [OF that(1), of "sc_phase s" p] that(2-4) by (simp add: run_left_def)
  show ?thesis
    using assms
  proof (cases rule: sched_step.cases)
    case (ctx_done b)
    have "{x \<in> {..<length bs}. \<not> ((sc_ctx s)(b := True)) x} = {x \<in> {..<length bs}. \<not> sc_ctx s x} - {b}" by auto
    moreover have "card ({x \<in> {..<length bs}. \<not> sc_ctx s x} - {b}) < card {x \<in> {..<length bs}. \<not> sc_ctx s x}"
      by (rule card_Diff1_less) (use ctx_done in auto)
    ultimately show ?thesis using ctx_done by (simp add: run_left_def)
  next
    case (work g)
    let ?w = "\<lambda>x. wake (sc_phase s x)"
    have "?S ?w \<le> (\<Sum>x \<in> goroutines bs. ?F x (sc_phase s x) + 1)" by (rule sum_mono) (rule steps_left_wake)
    also have "\<dots> = ?S (sc_phase s) + (\<Sum>x \<in> goroutines bs. 1)" by (rule sum.distrib)
    also have "(\<Sum>x \<in> goroutines bs. 1) = ?n" by simp
    finally show ?thesis
      using upd [OF work(2), of ?w "Leaving True"] work by (simp add: run_left_def wake_def)
  qed (auto intro!: move)
qed

lemma sched_progress:
  assumes ok: "sched_ok bs s" and conc: "0 < conc" and g: "g \<in> goroutines bs" "\<not> finished (sc_phase s g)"
  shows "\<exists>s'. sched_step conc bs s s' \<and> sc_ctx s' = sc_ctx s"
proof (cases "\<exists>g \<in> goroutines bs. sc_phase s g \<in> {Locking, Working} \<union> range Leaving \<union> range Closing")
  case True
  then obtain x w where x: "x \<in> goroutines bs"
      "sc_phase s x = Locking \<or> sc_phase s x = Working \<or> sc_phase s x = Leaving w \<or> sc_phase s x = Closing w"
    by auto
  have "\<exists>s'. sched_step conc bs s s' \<and> sc_ctx s' = sc_ctx s" if "sc_phase s x = Locking"
    using sched_step.lock_ctx [OF x(1) that] sched_step.lock [OF x(1) that] sched_step.block [OF x(1) that]
    by (cases "sc_ctx s (fst x)"; cases "acquire (sc_held s) (claim_at bs x)") fastforce+
  moreover have "sc_ctx (goto (after_release s c) x p) = sc_ctx s" for c p by simp
  ultimately show ?thesis
    using x sched_step.work [OF x(1)] sched_step.leave [OF x(1)] sched_step.close [OF x(1)] by fastforce
next
  case False
  then have no: "workers bs (sc_phase s) = {}" by (auto simp: workers_def)
  then have "sc_held s = []" using ok by (simp add: sched_ok_def held_ok_def)
  then have b: "sc_phase s x \<noteq> Blocked" if "x \<in> goroutines bs" for x
    using ok that by (auto simp: sched_ok_def blocked_ok_def anyConflict_def)
  have idle: "(\<exists>k. sc_phase s x = Gate k) \<or> finished (sc_phase s x)" if "x \<in> goroutines bs" for x
    using False b [OF that] that by (cases "sc_phase s x") auto
  have "\<not> holds (sc_phase s x)" if "x \<in> goroutines bs" for x
    using idle [OF that] by (cases "sc_phase s x") auto
  then have "busy bs (sc_phase s) c = {}" for c by (auto simp: busy_def)
  then have slots: "sc_slots s c = 0" for c using ok by (simp add: sched_ok_def slots_ok_def)
  let ?rank = "\<lambda>x. snd (bs ! fst x) ! snd x"
  obtain x where x: "x \<in> goroutines bs" "\<not> finished (sc_phase s x)"
      and least: "\<And>y. y \<in> goroutines bs \<Longrightarrow> ?rank y < ?rank x \<Longrightarrow> finished (sc_phase s y)"
    using ex_has_least_nat [of "\<lambda>x. x \<in> goroutines bs \<and> \<not> finished (sc_phase s x)" g ?rank] g
    by (metis not_less)
  then obtain k where k: "sc_phase s x = Gate k" using idle by blast
  then have "k \<le> length (preds_at bs x)" using ok x by (simp add: sched_ok_def gates_ok_def)
  then consider "k = length (preds_at bs x)" | "k < length (preds_at bs x)" by linarith
  then show ?thesis
  proof cases
    case 1
    let ?t = "goto (s\<lparr>sc_slots := (sc_slots s)(fst x := sc_slots s (fst x) + 1)\<rparr>) x Locking"
    from 1 have "sched_step conc bs s ?t"
      using k slots conc by (intro sched_step.slot [OF x(1)]) auto
    moreover have "sc_ctx ?t = sc_ctx s" by simp
    ultimately show ?thesis by blast
  next
    case 2
    then have "preds_at bs x ! k \<in> set (preds_at bs x)" by simp
    from preds_goroutines [OF x(1) this] have "finished (sc_phase s (preds_at bs x ! k))"
      by (intro least) auto
    then obtain w where "sc_phase s (preds_at bs x ! k) = Finished w"
      by (cases "sc_phase s (preds_at bs x ! k)") auto
    then have "sched_step conc bs s (goto s x (Gate (Suc k)))" by (rule sched_step.pred_done [OF x(1) k 2])
    moreover have "sc_ctx (goto s x (Gate (Suc k))) = sc_ctx s" by simp
    ultimately show ?thesis by blast
  qed
qed

lemma run_left_runs: "(sched_step conc bs ^^ k) s s' \<Longrightarrow> k + run_left bs s' \<le> run_left bs s"
proof (induction k arbitrary: s')
  case (Suc k)
  then obtain t where "(sched_step conc bs ^^ k) s t" "sched_step conc bs t s'" by auto
  with Suc.IH [of t] run_left_step [of conc bs t s'] show ?case by simp
qed simp

lemma sched_completes:
  assumes "reachable conc bs s" "0 < conc"
  shows "\<exists>s'. (sched_step conc bs)\<^sup>*\<^sup>* s s' \<and> (\<forall>g \<in> goroutines bs. finished (sc_phase s' g)) \<and> sc_ctx s' = sc_ctx s"
  using assms(1)
proof (induction "run_left bs s" arbitrary: s rule: less_induct)
  case less
  show ?case
  proof (cases "\<forall>g \<in> goroutines bs. finished (sc_phase s g)")
    case False
    then obtain t where t: "sched_step conc bs s t" "sc_ctx t = sc_ctx s"
      using sched_progress [OF sched_invariant [OF less.prems] assms(2)] by blast
    moreover have "reachable conc bs t"
      using less.prems t(1) unfolding reachable_def by (rule rtranclp.rtrancl_into_rtrancl)
    ultimately show ?thesis
      using less.hyps [OF run_left_step [OF t(1)]] converse_rtranclp_into_rtranclp [of "sched_step conc bs"]
      by metis
  qed auto
qed

lemma reachable_step: "reachable conc bs s \<Longrightarrow> sched_step conc bs s s' \<Longrightarrow> reachable conc bs s'"
  unfolding reachable_def by (rule rtranclp.rtrancl_into_rtrancl)

lemma slots_bound: "reachable conc bs s \<Longrightarrow> sc_slots s b \<le> conc"
  unfolding reachable_def
proof (induction rule: rtranclp_induct)
  case base
  show ?case by (simp add: sched_init_def)
next
  case (step s s')
  from step(2) step(3) show ?case by (cases rule: sched_step.cases) auto
qed

text \<open>A goroutine nobody stands in the way of takes its slot and its claim.\<close>

definition entered :: "batches \<Rightarrow> sched \<Rightarrow> gid \<Rightarrow> sched" where
  "entered bs s g =
     s\<lparr>sc_phase := (sc_phase s)(g := Working), sc_slots := (sc_slots s)(fst g := sc_slots s (fst g) + 1),
       sc_held := sc_held s @ [claim_at bs g]\<rparr>"

lemma enter:
  assumes "reachable conc bs s" "g \<in> goroutines bs" "preds_at bs g = []" "sc_phase s g = Gate 0"
    "sc_slots s (fst g) < conc" "\<not> sc_ctx s (fst g)" "\<not> anyConflict (sc_held s) (claim_at bs g)"
  shows "reachable conc bs (entered bs s g)"
proof -
  let ?t = "goto (s\<lparr>sc_slots := (sc_slots s)(fst g := sc_slots s (fst g) + 1)\<rparr>) g Locking"
  have "reachable conc bs ?t"
    using sched_step.slot [OF assms(2), of s conc] assms(3-5) reachable_step [OF assms(1)] by simp
  moreover have "sched_step conc bs ?t (goto (?t\<lparr>sc_held := sc_held ?t @ [claim_at bs g]\<rparr>) g Working)"
    using assms(6,7) by (intro sched_step.lock [OF assms(2)]) (simp_all add: acquire_def)
  moreover have "goto (?t\<lparr>sc_held := sc_held ?t @ [claim_at bs g]\<rparr>) g Working = entered bs s g"
    by (simp add: goto_def entered_def)
  ultimately show ?thesis using reachable_step by metis
qed

section \<open>What the scheduler guarantees\<close>

text \<open>C35. In whatever order the goroutines of any number of \<^verbatim>\<open>Run\<close>s on one scheduler move and
  contexts end: transactions of one \<^verbatim>\<open>Run\<close> that conflict never hold their claims together, one
  that works has had every conflicting transaction admitted before it finish, and no more than
  \<^verbatim>\<open>concurrency\<close> of a \<^verbatim>\<open>Run\<close> are past its semaphore. Across \<^verbatim>\<open>Run\<close>s conflicting transactions exclude
  each other when \<^verbatim>\<open>sameClaim\<close> tells their claims apart.\<close>

theorem scheduler_excludes:
  assumes "Runs runs bs" "reachable conc bs s" "g \<in> workers bs (sc_phase s)"
  shows "(\<forall>g' \<in> workers bs (sc_phase s) - {g}. fst g = fst g' \<or> claims_distinct bs \<longrightarrow>
      \<not> conflicts (claim_at bs g) (claim_at bs g')) \<and>
    (\<forall>p \<in> set (preds_at bs g). finished (sc_phase s p)) \<and>
    card (busy bs (sc_phase s) (fst g)) \<le> conc"
proof (intro conjI)
  have "slots_ok bs s" using sched_invariant [OF assms(2)] by (simp add: sched_ok_def)
  then show "card (busy bs (sc_phase s) (fst g)) \<le> conc"
    using slots_bound [OF assms(2), of "fst g"] by (simp add: slots_ok_def)
qed (use workers_exclude [OF assms] preds_finished [OF assms(2,3)] in blast)+

definition demo_txn :: "string list \<Rightarrow> string list \<Rightarrow> unit txn" where
  "demo_txn rs ws = \<lparr>tx_Name = ''t'', tx_Reads = rs, tx_Writes = ws, tx_Apply = (), tx_Priority = 0\<rparr>"

definition demo_runs :: "((unit, nat) ordering \<times> unit txn list) list" where
  "demo_runs = [(InputOrder, [demo_txn [] []]), (InputOrder, [demo_txn [''/''] []]),
     (InputOrder, [demo_txn [] [''x'']])]"

definition demo_batches :: batches where
  "demo_batches = [([\<lparr>cl_reads = [], cl_writes = []\<rparr>], [0]), ([\<lparr>cl_reads = [[]], cl_writes = []\<rparr>], [0]),
     ([\<lparr>cl_reads = [], cl_writes = [''x'']\<rparr>], [0])]"

lemma demo_Runs: "Runs demo_runs demo_batches"
  by code_simp

lemma demo_goroutines: "goroutines demo_batches = {(0, 0), (1, 0), (2, 0)}"
  by (auto simp: goroutines_def demo_batches_def less_Suc_eq numeral_2_eq_2)

lemma demo_preds: "preds_at demo_batches (0, 0) = []" "preds_at demo_batches (Suc 0, 0) = []"
  "preds_at demo_batches (2, 0) = []"
  by code_simp+

definition demo_working :: sched where
  "demo_working = entered demo_batches (entered demo_batches sched_init (1, 0)) (0, 0)"

lemma demo_reachable: "reachable 16 demo_batches demo_working"
  unfolding demo_working_def
proof (rule enter, rule enter)
  show "reachable 16 demo_batches sched_init" by (simp add: reachable_def)
qed (simp_all add: demo_goroutines demo_preds sched_init_def entered_def,
  simp_all add: demo_batches_def claim_at_def anyConflict_def conflicts_def setsOverlap_def)

theorem scheduler_excludes_witness:
  "card (busy demo_batches (sc_phase demo_working) 1) \<le> 16"
proof -
  have "(1, 0) \<in> workers demo_batches (sc_phase demo_working)"
    by (simp add: selected_iff demo_goroutines demo_working_def entered_def)
  from scheduler_excludes [OF demo_Runs demo_reachable this] show ?thesis by simp
qed

text \<open>C36. Every transaction finishes: from any state that can be reached the goroutines have only
  finitely many steps left, and as long as one has not finished some goroutine can move, without
  a context ending. A transaction whose context does not end has then run.\<close>

theorem scheduler_completes:
  assumes "reachable conc bs s" "0 < conc"
  shows "(\<forall>k s'. (sched_step conc bs ^^ k) s s' \<longrightarrow> k \<le> run_left bs s) \<and>
    ((\<exists>g \<in> goroutines bs. \<not> finished (sc_phase s g)) \<longrightarrow>
       (\<exists>s'. sched_step conc bs s s' \<and> sc_ctx s' = sc_ctx s)) \<and>
    (\<exists>s'. (sched_step conc bs)\<^sup>*\<^sup>* s s' \<and>
       (\<forall>g \<in> goroutines bs. if sc_ctx s (fst g) then finished (sc_phase s' g) else sc_phase s' g = Finished True))"
proof (intro conjI allI impI)
  show "k \<le> run_left bs s" if "(sched_step conc bs ^^ k) s s'" for k s' using run_left_runs [OF that] by simp
next
  assume "\<exists>g \<in> goroutines bs. \<not> finished (sc_phase s g)"
  then show "\<exists>s'. sched_step conc bs s s' \<and> sc_ctx s' = sc_ctx s"
    using sched_progress [OF sched_invariant [OF assms(1)] assms(2)] by blast
next
  obtain s' where s': "(sched_step conc bs)\<^sup>*\<^sup>* s s'" "\<forall>g \<in> goroutines bs. finished (sc_phase s' g)"
      "sc_ctx s' = sc_ctx s"
    using sched_completes [OF assms] by blast
  then have "blocked_ok bs s'"
    using sched_invariant [of conc bs s'] assms(1) rtranclp_trans [of _ sched_init s s']
    by (simp add: reachable_def sched_ok_def)
  then have "if sc_ctx s (fst g) then finished (sc_phase s' g) else sc_phase s' g = Finished True"
    if "g \<in> goroutines bs" for g
    using s'(2,3) that by (cases "sc_phase s' g") (auto simp: blocked_ok_def)
  with s'(1) show "\<exists>s'. (sched_step conc bs)\<^sup>*\<^sup>* s s' \<and>
      (\<forall>g \<in> goroutines bs. if sc_ctx s (fst g) then finished (sc_phase s' g) else sc_phase s' g = Finished True)"
    by blast
qed

theorem scheduler_completes_witness:
  "\<exists>s'. (sched_step 16 demo_batches)\<^sup>*\<^sup>* demo_working s' \<and> sc_phase s' (2, 0) = Finished True"
proof -
  obtain s' where "(sched_step 16 demo_batches)\<^sup>*\<^sup>* demo_working s'" and
      f: "\<forall>g \<in> goroutines demo_batches. if sc_ctx demo_working (fst g) then finished (sc_phase s' g)
        else sc_phase s' g = Finished True"
    using scheduler_completes [OF demo_reachable] by auto
  moreover have "sc_phase s' (2, 0) = Finished True"
    using bspec [OF f, of "(2, 0)"] by (simp add: demo_goroutines demo_working_def entered_def sched_init_def)
  ultimately show ?thesis by blast
qed

text \<open>\<^verbatim>\<open>sameClaim\<close> does not tell an empty set from the set of the empty prefix, which is the whole
  repository. So the end of a transaction that declares nothing can release the claim of one
  that reads everything, and a writer of another \<^verbatim>\<open>Run\<close> is admitted beside that reader although
  the two conflict.\<close>

theorem release_frees_other_claim:
  "\<exists>runs bs s g g'. Runs (runs :: ((unit, nat) ordering \<times> unit txn list) list) bs \<and> reachable 16 bs s \<and>
     g \<in> workers bs (sc_phase s) \<and> g' \<in> workers bs (sc_phase s) \<and>
     conflicts (claim_at bs g) (claim_at bs g') \<and> claim_at bs g \<notin> set (sc_held s)"
proof -
  let ?t = "goto (after_release demo_working (claim_at demo_batches (0, 0))) (0, 0) (Leaving True)"
  have "reachable 16 demo_batches ?t"
    by (rule reachable_step [OF demo_reachable], rule sched_step.work)
      (simp_all add: demo_goroutines demo_working_def entered_def)
  moreover have held: "sc_held ?t = [claim_at demo_batches (0, 0)]"
    by (simp add: demo_working_def entered_def sched_init_def) code_simp
  moreover have "\<not> anyConflict [claim_at demo_batches (0, 0)] (claim_at demo_batches (2, 0))" by code_simp
  ultimately have "reachable 16 demo_batches (entered demo_batches ?t (2, 0))"
    by (intro enter) (simp_all add: demo_goroutines demo_preds, simp_all add: demo_working_def entered_def
        sched_init_def wake_def)
  moreover have "(1, 0) \<in> workers demo_batches (sc_phase (entered demo_batches ?t (2, 0)))"
    "(2, 0) \<in> workers demo_batches (sc_phase (entered demo_batches ?t (2, 0)))"
    by (simp_all add: selected_iff demo_goroutines demo_working_def entered_def wake_def)
  moreover have "conflicts (claim_at demo_batches (1, 0)) (claim_at demo_batches (2, 0))" by code_simp
  moreover have "claim_at demo_batches (1, 0) \<notin> set (sc_held (entered demo_batches ?t (2, 0)))"
    using held by (simp add: entered_def) code_simp
  ultimately show ?thesis using demo_Runs by blast
qed

end
