(* ===== verification/Diff3.thy ===== *)
theory Diff3
  imports Prelude
begin

text \<open>
  \<^verbatim>\<open>internal/merge/diff3.go\<close>: the line-level three-way merge. A longest common subsequence of
  the ancestor with each side gives the lines both sides left alone; between two such
  anchors the region of one side is taken when the other side did not change it, and
  marked as a conflict when both did.
\<close>

section \<open>Longest common subsequences\<close>

text \<open>Row \<^verbatim>\<open>i\<close> of the table from row \<^verbatim>\<open>i+1\<close>, from right to left, and the table from its last row up.\<close>

fun lcs_row :: "string \<Rightarrow> string list \<Rightarrow> nat list \<Rightarrow> nat list" where
  "lcs_row x (y # ys) (down # below) =
     (let rest = lcs_row x ys below
      in (if x = y then hd below + 1
          else if down \<ge> hd rest then down
          else hd rest) # rest)"
| "lcs_row x _ _ = [0]"

fun dp_table :: "string list \<Rightarrow> string list \<Rightarrow> nat list list" where
  "dp_table [] b = [replicate (length b + 1) 0]"
| "dp_table (x # a) b = (let t = dp_table a b in lcs_row x b (hd t) # t)"

function lcs_walk :: "nat list list \<Rightarrow> string list \<Rightarrow> string list \<Rightarrow> nat \<Rightarrow> nat \<Rightarrow> (nat \<times> nat) list" where
  "lcs_walk dp a b i j =
     (if i < length a \<and> j < length b then
        (if a ! i = b ! j then (i, j) # lcs_walk dp a b (i + 1) (j + 1)
         else if dp ! (i + 1) ! j \<ge> dp ! i ! (j + 1) then lcs_walk dp a b (i + 1) j
         else lcs_walk dp a b i (j + 1))
      else [])"
  by pat_completeness auto
termination
  by (relation "measure (\<lambda>(dp, a, b, i, j). (length a - i) + (length b - j))") auto

declare lcs_walk.simps [simp del]

definition lcsPairs :: "string list \<Rightarrow> string list \<Rightarrow> (nat \<times> nat) list" where
  "lcsPairs a b = lcs_walk (dp_table a b) a b 0 0"

section \<open>The merge\<close>

definition markerOurs :: string where "markerOurs = ''<<<<<<< ours'' @ [CHR 0x0A]"
definition markerMid :: string where "markerMid = ''======='' @ [CHR 0x0A]"
definition markerThrs :: string where "markerThrs = ''>>>>>>> theirs'' @ [CHR 0x0A]"

definition equalLines :: "string list \<Rightarrow> string list \<Rightarrow> bool" where
  "equalLines x y = (length x = length y \<and> list_all (\<lambda>i. x ! i = y ! i) [0..<length x])"

type_synonym anchor = "nat \<times> nat \<times> nat"

definition anchors_of :: "string list \<Rightarrow> string list \<Rightarrow> string list \<Rightarrow> anchor list" where
  "anchors_of ol a b =
     (let matchA = map_of (lcsPairs ol a); matchB = map_of (lcsPairs ol b)
      in concat (map (\<lambda>oi. case (matchA oi, matchB oi) of
                             (Some ai, Some bi) \<Rightarrow> [(oi, ai, bi)]
                           | _ \<Rightarrow> []) [0..<length ol])
         @ [(length ol, length a, length b)])"

definition slice :: "'a list \<Rightarrow> nat \<Rightarrow> nat \<Rightarrow> 'a list" where
  "slice xs s e = take (e - s) (drop s xs)"

definition merge_region :: "string list \<Rightarrow> string list \<Rightarrow> string list \<Rightarrow> string list \<times> bool" where
  "merge_region oReg aReg bReg =
     (if equalLines aReg bReg then (aReg, False)
      else if equalLines oReg aReg then (bReg, False)
      else if equalLines oReg bReg then (aReg, False)
      else ([markerOurs] @ aReg @ [markerMid] @ bReg @ [markerThrs], True))"

text \<open>The loop over the anchors; the start indices are the code's \<^verbatim>\<open>prevO+1\<close> and so on.\<close>

fun merge_loop :: "string list \<Rightarrow> string list \<Rightarrow> string list \<Rightarrow> nat \<Rightarrow> nat \<Rightarrow> nat \<Rightarrow> anchor list
    \<Rightarrow> string list \<times> bool" where
  "merge_loop ol a b so sa sb [] = ([], False)"
| "merge_loop ol a b so sa sb ((ao, aa, ab) # ans) =
     (let (reg, conflict) = merge_region (slice ol so ao) (slice a sa aa) (slice b sb ab);
          line = (if ao < length ol then [a ! aa] else []);
          (rest, conflict') = merge_loop ol a b (ao + 1) (aa + 1) (ab + 1) ans
      in (reg @ line @ rest, conflict \<or> conflict'))"

definition merge3 :: "string list \<Rightarrow> string list \<Rightarrow> string list \<Rightarrow> string list \<times> bool" where
  "merge3 ol a b = merge_loop ol a b 0 0 0 (anchors_of ol a b)"

section \<open>The table holds the lengths\<close>

fun lcs_len :: "string list \<Rightarrow> string list \<Rightarrow> nat" where
  "lcs_len (x # a) (y # b) =
     (if x = y then lcs_len a b + 1 else max (lcs_len a (y # b)) (lcs_len (x # a) b))"
| "lcs_len _ _ = 0"

lemma lcs_len_Nil [simp]: "lcs_len a [] = 0"
  by (cases a) simp_all

definition lens :: "string list \<Rightarrow> string list \<Rightarrow> nat list" where
  "lens a b = map (\<lambda>j. lcs_len a (drop j b)) [0..<length b + 1]"

lemma lens_Cons: "lens a (y # b) = lcs_len a (y # b) # lens a b"
proof -
  have "[0..<length (y # b) + 1] = 0 # map Suc [0..<length b + 1]"
    by (simp add: map_Suc_upt upt_conv_Cons del: upt_Suc)
  then show ?thesis by (simp add: lens_def comp_def del: upt_Suc)
qed

lemma lens_Nil [simp]: "lens a [] = [0]"
  by (simp add: lens_def)

lemma hd_lens [simp]: "hd (lens a b) = lcs_len a b"
  by (cases b) (simp_all add: lens_Cons)

lemma lens_ne [simp]: "lens a b \<noteq> []"
  by (simp add: lens_def)

lemma lens_empty: "lens [] b = replicate (length b + 1) 0"
  by (simp add: lens_def map_replicate_const)

lemma lcs_row_lens: "lcs_row x b (lens a b) = lens (x # a) b"
proof (induction b)
  case (Cons y b)
  then show ?case by (simp add: lens_Cons Let_def max_def)
qed simp

lemma dp_table_lens: "i \<le> length a \<Longrightarrow> dp_table a b ! i = lens (drop i a) b"
proof (induction a arbitrary: i)
  case Nil
  then show ?case by (simp add: lens_empty)
next
  case (Cons x a)
  have h: "hd (dp_table a b) = lens a b"
    using Cons.IH [of 0] by (cases "dp_table a b"; cases a) (auto simp: Let_def)
  with Cons show ?case by (cases i) (simp_all add: Let_def lcs_row_lens)
qed

lemma dp_entry: "i \<le> length a \<Longrightarrow> j \<le> length b \<Longrightarrow> dp_table a b ! i ! j = lcs_len (drop i a) (drop j b)"
  by (simp add: dp_table_lens lens_def del: upt_Suc)

section \<open>The walk finds an optimal alignment\<close>

text \<open>Pairs of equal elements in strictly increasing positions at or after a start.\<close>

fun aligned :: "string list \<Rightarrow> string list \<Rightarrow> nat \<Rightarrow> nat \<Rightarrow> (nat \<times> nat) list \<Rightarrow> bool" where
  "aligned a b i j [] = True"
| "aligned a b i j ((x, y) # ps) =
     (i \<le> x \<and> j \<le> y \<and> x < length a \<and> y < length b \<and> a ! x = b ! y \<and> aligned a b (x + 1) (y + 1) ps)"

lemma aligned_mono: "aligned a b i j ps \<Longrightarrow> i' \<le> i \<Longrightarrow> j' \<le> j \<Longrightarrow> aligned a b i' j' ps"
  by (cases ps) auto

lemma walk_aligned: "aligned a b i j (lcs_walk dp a b i j)"
proof (induction dp a b i j rule: lcs_walk.induct)
  case (1 dp a b i j)
  then show ?case
    by (subst lcs_walk.simps) (auto intro: aligned_mono)
qed

lemma drop_step: "i < length a \<Longrightarrow> drop i a = a ! i # drop (i + 1) a"
  by (simp add: Cons_nth_drop_Suc)

lemma walk_length: "length (lcs_walk (dp_table a b) a b i j) = lcs_len (drop i a) (drop j b)"
proof (induction "dp_table a b" a b i j rule: lcs_walk.induct)
  case (1 a b i j)
  show ?case
  proof (cases "i < length a \<and> j < length b")
    case True
    then have d: "drop i a = a ! i # drop (i + 1) a" "drop j b = b ! j # drop (j + 1) b"
      by (simp_all only: drop_step)
    have e: "dp_table a b ! (i + 1) ! j = lcs_len (drop (i + 1) a) (drop j b)"
      "dp_table a b ! i ! (j + 1) = lcs_len (drop i a) (drop (j + 1) b)"
      using True by (simp_all add: dp_entry)
    show ?thesis
    proof (cases "a ! i = b ! j")
      case eq: True
      then have "length (lcs_walk (dp_table a b) a b i j) = 1 + length (lcs_walk (dp_table a b) a b (i + 1) (j + 1))"
        using True by (subst lcs_walk.simps) simp
      with 1(1) True eq show ?thesis by (simp add: d del: lcs_walk.simps)
    next
      case ne: False
      have "lcs_len (drop i a) (drop j b) = max (lcs_len (drop (i + 1) a) (drop j b)) (lcs_len (drop i a) (drop (j + 1) b))"
        using ne by (simp add: d)
      moreover have "length (lcs_walk (dp_table a b) a b i j) =
          (if dp_table a b ! (i + 1) ! j \<ge> dp_table a b ! i ! (j + 1)
           then length (lcs_walk (dp_table a b) a b (i + 1) j) else length (lcs_walk (dp_table a b) a b i (j + 1)))"
        using True ne by (subst lcs_walk.simps) simp
      ultimately show ?thesis using 1(2,3) True ne e by (simp add: max_def)
    qed
  next
    case False
    then show ?thesis by (subst lcs_walk.simps) auto
  qed
qed

lemma lcs_len_bound: "aligned a b i j ps \<Longrightarrow> length ps \<le> lcs_len (drop i a) (drop j b)"
proof (induction "length a + length b - i - j" arbitrary: i j ps rule: less_induct)
  case less
  show ?case
  proof (cases ps)
    case (Cons p qs)
    obtain x y where p: "p = (x, y)" by (cases p)
    with less.prems Cons have b: "i \<le> x" "j \<le> y" "x < length a" "y < length b" "a ! x = b ! y"
      "aligned a b (x + 1) (y + 1) qs" by auto
    then have d: "drop i a = a ! i # drop (i + 1) a" "drop j b = b ! j # drop (j + 1) b"
      by (simp_all only: drop_step)
    have m: "length a + length b - (i + 1) - j < length a + length b - i - j"
      "length a + length b - i - (j + 1) < length a + length b - i - j"
      "length a + length b - (i + 1) - (j + 1) < length a + length b - i - j" using b by linarith+
    show ?thesis
    proof (cases "a ! i = b ! j")
      case True
      have "aligned a b (i + 1) (j + 1) qs" using b by (intro aligned_mono [OF b(6)]) simp_all
      from less.hyps [OF m(3) this] show ?thesis by (simp add: d True Cons)
    next
      case False
      then consider "i < x" | "j < y" using b by (metis le_neq_implies_less)
      then show ?thesis
      proof cases
        case 1
        then have "aligned a b (i + 1) j ps" using b p Cons by simp
        from less.hyps [OF m(1) this] show ?thesis by (simp add: d False)
      next
        case 2
        then have "aligned a b i (j + 1) ps" using b p Cons by simp
        from less.hyps [OF m(2) this] show ?thesis by (simp add: d False)
      qed
    qed
  qed simp
qed

section \<open>The anchors cut all three versions in order\<close>

fun anchored :: "string list \<Rightarrow> string list \<Rightarrow> string list \<Rightarrow> nat \<Rightarrow> nat \<Rightarrow> nat \<Rightarrow> anchor list \<Rightarrow> bool" where
  "anchored ol a b so sa sb [] = False"
| "anchored ol a b so sa sb [(x, y, z)] =
     (x = length ol \<and> y = length a \<and> z = length b \<and> so \<le> x \<and> sa \<le> y \<and> sb \<le> z)"
| "anchored ol a b so sa sb ((x, y, z) # an # ans) =
     (so \<le> x \<and> sa \<le> y \<and> sb \<le> z \<and> x < length ol \<and> y < length a \<and> z < length b \<and> a ! y = ol ! x \<and> b ! z = ol ! x \<and>
      anchored ol a b (x + 1) (y + 1) (z + 1) (an # ans))"

text \<open>What the two matches of the ancestor with a side are.\<close>

definition matching :: "string list \<Rightarrow> string list \<Rightarrow> (nat \<Rightarrow> nat option) \<Rightarrow> bool" where
  "matching ol a m \<longleftrightarrow>
     (\<forall>x y. m x = Some y \<longrightarrow> y < length a \<and> a ! y = ol ! x) \<and>
     (\<forall>x y x' y'. m x = Some y \<longrightarrow> m x' = Some y' \<longrightarrow> x < x' \<longrightarrow> y < y')"

lemma aligned_range: "aligned a b i j ps \<Longrightarrow> (x, y) \<in> set ps \<Longrightarrow> i \<le> x \<and> j \<le> y \<and> y < length b \<and> b ! y = a ! x"
  by (induction ps arbitrary: i j) fastforce+

lemma aligned_order:
  "aligned a b i j ps \<Longrightarrow> (x, y) \<in> set ps \<Longrightarrow> (x', y') \<in> set ps \<Longrightarrow> x < x' \<Longrightarrow> y < y'"
proof (induction ps arbitrary: i j)
  case (Cons p ps)
  obtain u v where p: "p = (u, v)" by (cases p)
  then have al: "aligned a b (u + 1) (v + 1) ps" using Cons.prems by simp
  note r = aligned_range [OF al]
  consider "(x, y) \<in> set ps" "(x', y') \<in> set ps" | "(x, y) = p" "(x', y') \<in> set ps" | "(x', y') = p"
    using Cons.prems by auto
  then show ?case
  proof cases
    case 1
    then show ?thesis using Cons.IH [OF al] Cons.prems by blast
  next
    case 2
    then show ?thesis using r [of x' y'] p by auto
  next
    case 3
    then show ?thesis using r [of x y] p Cons.prems by auto
  qed
qed simp

lemma matching_pairs: "matching ol a (map_of (lcsPairs ol a))"
proof -
  have al: "aligned ol a 0 0 (lcsPairs ol a)" by (simp add: lcsPairs_def walk_aligned)
  show ?thesis
    unfolding matching_def
    by (meson al aligned_order aligned_range map_of_SomeD)
qed

lemma anchored_from:
  assumes m: "matching ol a mA" "matching ol b mB"
  shows "so \<le> k \<Longrightarrow> k \<le> length ol \<Longrightarrow> sa \<le> length a \<Longrightarrow> sb \<le> length b \<Longrightarrow>
    (\<forall>x y. k \<le> x \<longrightarrow> mA x = Some y \<longrightarrow> sa \<le> y) \<Longrightarrow> (\<forall>x y. k \<le> x \<longrightarrow> mB x = Some y \<longrightarrow> sb \<le> y) \<Longrightarrow>
    anchored ol a b so sa sb
      (concat (map (\<lambda>oi. case (mA oi, mB oi) of (Some ai, Some bi) \<Rightarrow> [(oi, ai, bi)] | _ \<Rightarrow> []) [k..<length ol])
        @ [(length ol, length a, length b)])"
proof (induction "length ol - k" arbitrary: k so sa sb)
  case 0
  then show ?case by simp
next
  case (Suc n)
  then have k: "k < length ol" and u: "[k..<length ol] = k # [k + 1..<length ol]"
    by (simp_all add: upt_conv_Cons)
  show ?case
  proof (cases "\<exists>y z. mA k = Some y \<and> mB k = Some z")
    case False
    then have "(case (mA k, mB k) of (Some ai, Some bi) \<Rightarrow> [(k, ai, bi)] | _ \<Rightarrow> []) = []"
      by (auto split: option.splits)
    moreover have "so \<le> k + 1" "\<forall>x y. k + 1 \<le> x \<longrightarrow> mA x = Some y \<longrightarrow> sa \<le> y"
      "\<forall>x y. k + 1 \<le> x \<longrightarrow> mB x = Some y \<longrightarrow> sb \<le> y" using Suc.prems by (auto dest: Suc_leD)
    moreover have "n = length ol - (k + 1)" "k + 1 \<le> length ol" using Suc.hyps(2) k by simp_all
    ultimately show ?thesis using Suc.hyps(1) [of "k + 1" so sa sb] Suc.prems(3,4) u by simp
  next
    case True
    then obtain y z where yz: "mA k = Some y" "mB k = Some z" by blast
    have in_a: "y < length a" "a ! y = ol ! k" "z < length b" "b ! z = ol ! k"
      using m yz by (auto simp: matching_def)
    have "\<forall>x y'. k + 1 \<le> x \<longrightarrow> mA x = Some y' \<longrightarrow> y + 1 \<le> y'" "\<forall>x z'. k + 1 \<le> x \<longrightarrow> mB x = Some z' \<longrightarrow> z + 1 \<le> z'"
      using m yz unfolding matching_def by (metis Suc_eq_plus1 Suc_le_eq)+
    then have "anchored ol a b (k + 1) (y + 1) (z + 1)
      (concat (map (\<lambda>oi. case (mA oi, mB oi) of (Some ai, Some bi) \<Rightarrow> [(oi, ai, bi)] | _ \<Rightarrow> []) [k + 1..<length ol])
        @ [(length ol, length a, length b)])" (is "anchored ol a b _ _ _ ?l")
      using Suc k in_a by (intro Suc.hyps(1)) auto
    moreover have "sa \<le> y" "sb \<le> z" using Suc.prems(5,6) yz by blast+
    moreover obtain an ans where "?l = an # ans" by (cases ?l) auto
    ultimately show ?thesis
      using Suc.prems k u yz in_a by simp
  qed
qed

lemma anchors_anchored: "anchored ol a b 0 0 0 (anchors_of ol a b)"
  unfolding anchors_of_def Let_def by (rule anchored_from [OF matching_pairs matching_pairs]) auto

section \<open>What the merge gives\<close>

lemma equalLines_iff [simp]: "equalLines x y \<longleftrightarrow> x = y"
  by (auto simp: equalLines_def list_all_iff intro: nth_equalityI)

lemma slice_full: "s \<le> length xs \<Longrightarrow> slice xs s (length xs) = drop s xs"
  by (simp add: slice_def)

lemma slice_step: "s \<le> e \<Longrightarrow> e < length xs \<Longrightarrow> slice xs s e @ xs ! e # drop (e + 1) xs = drop s xs"
proof -
  assume e: "s \<le> e" "e < length xs"
  have "drop e xs = xs ! e # drop (e + 1) xs" using e by (simp add: Cons_nth_drop_Suc)
  moreover have "drop e xs = drop (e - s) (drop s xs)" using e by simp
  ultimately show ?thesis unfolding slice_def by (metis append_take_drop_id)
qed

text \<open>The regions between the anchors.\<close>

fun regions :: "string list \<Rightarrow> string list \<Rightarrow> string list \<Rightarrow> nat \<Rightarrow> nat \<Rightarrow> nat \<Rightarrow> anchor list
    \<Rightarrow> (string list \<times> string list \<times> string list) list" where
  "regions ol a b so sa sb [] = []"
| "regions ol a b so sa sb ((x, y, z) # ans) =
     (slice ol so x, slice a sa y, slice b sb z) # regions ol a b (x + 1) (y + 1) (z + 1) ans"

lemma loop_step:
  "merge_loop ol a b so sa sb ((x, y, z) # ans) =
     (fst (merge_region (slice ol so x) (slice a sa y) (slice b sb z)) @
        (if x < length ol then [a ! y] else []) @ fst (merge_loop ol a b (x + 1) (y + 1) (z + 1) ans),
      snd (merge_region (slice ol so x) (slice a sa y) (slice b sb z)) \<or>
        snd (merge_loop ol a b (x + 1) (y + 1) (z + 1) ans))"
  by (simp add: split_beta Let_def)

text \<open>If every region is settled for one side, the result is that side.\<close>

lemma loop_ours:
  "anchored ol a b so sa sb ans \<Longrightarrow> \<forall>(r, s, t) \<in> set (regions ol a b so sa sb ans). merge_region r s t = (s, False) \<Longrightarrow>
   merge_loop ol a b so sa sb ans = (drop sa a, False)"
proof (induction ans arbitrary: so sa sb)
  case (Cons an ans)
  obtain x y z where an: "an = (x, y, z)" by (cases an)
  show ?case
  proof (cases ans)
    case Nil
    with Cons.prems an show ?thesis by (simp add: slice_full)
  next
    case (Cons an' ans')
    then have "anchored ol a b (x + 1) (y + 1) (z + 1) ans" "sa \<le> y" "y < length a" "x < length ol"
      using Cons.prems(1) an by simp_all
    with Cons.IH [OF this(1)] Cons.prems(2) an show ?thesis
      unfolding an loop_step using slice_step [of sa y a] by simp
  qed
qed simp

lemma loop_theirs:
  "anchored ol a b so sa sb ans \<Longrightarrow> \<forall>(r, s, t) \<in> set (regions ol a b so sa sb ans). merge_region r s t = (t, False) \<Longrightarrow>
   merge_loop ol a b so sa sb ans = (drop sb b, False)"
proof (induction ans arbitrary: so sa sb)
  case (Cons an ans)
  obtain x y z where an: "an = (x, y, z)" by (cases an)
  show ?case
  proof (cases ans)
    case Nil
    with Cons.prems an show ?thesis by (simp add: slice_full)
  next
    case (Cons an' ans')
    then have "anchored ol a b (x + 1) (y + 1) (z + 1) ans" "sb \<le> z" "z < length b" "x < length ol" "a ! y = b ! z"
      using Cons.prems(1) an by simp_all
    with Cons.IH [OF this(1)] Cons.prems(2) an show ?thesis
      unfolding an loop_step using slice_step [of sb z b] by simp
  qed
qed simp

lemma region_cases [simp]:
  "merge_region r s r = (s, False)" "merge_region r r t = (t, False)" "merge_region r s s = (s, False)"
  by (auto simp: merge_region_def)

lemma regions_same:
  "\<forall>(x, y, z) \<in> set ans. x = z \<Longrightarrow> (r, s, t) \<in> set (regions ol a ol so sa so ans) \<Longrightarrow> t = r"
  "\<forall>(x, y, z) \<in> set ans. x = y \<Longrightarrow> (r, s, t) \<in> set (regions ol ol b so so sb ans) \<Longrightarrow> s = r"
  "\<forall>(x, y, z) \<in> set ans. y = z \<Longrightarrow> (r, s, t) \<in> set (regions ol a a so sa sa ans) \<Longrightarrow> t = s"
  by (induction ans arbitrary: so sa sb) auto

text \<open>A version matches itself line by line.\<close>

lemma walk_diagonal: "lcs_walk dp a a i i = map (\<lambda>k. (k, k)) [i..<length a]"
proof (induction "length a - i" arbitrary: i)
  case 0
  then show ?case by (subst lcs_walk.simps) simp
next
  case (Suc n)
  then have "lcs_walk dp a a (i + 1) (i + 1) = map (\<lambda>k. (k, k)) [i + 1..<length a]" by simp
  with Suc(2) show ?case by (subst lcs_walk.simps) (simp add: upt_conv_Cons)
qed

lemma match_self: "map_of (lcsPairs a a) k = (if k < length a then Some k else None)"
proof -
  have "map_of (map (\<lambda>k. (k, k)) ks) k = (if k \<in> set ks then Some k else None)" for ks :: "nat list"
    by (induction ks) auto
  then show ?thesis by (simp add: lcsPairs_def walk_diagonal)
qed

lemma anchors_sync:
  "\<forall>(x, y, z) \<in> set (anchors_of ol a ol). x = z"
  "\<forall>(x, y, z) \<in> set (anchors_of ol ol b). x = y"
  "\<forall>(x, y, z) \<in> set (anchors_of ol a a). y = z"
  by (auto simp: anchors_of_def match_self split: option.splits if_splits) (metis option.inject)

lemma merge3_one_side:
  "merge3 ol a ol = (a, False)" "merge3 ol ol b = (b, False)" "merge3 ol a a = (a, False)"
proof -
  have "\<forall>(r, s, t) \<in> set (regions ol a ol 0 0 0 (anchors_of ol a ol)). merge_region r s t = (s, False)"
    using regions_same(1) [OF anchors_sync(1)] by fastforce
  from loop_ours [OF anchors_anchored this] show "merge3 ol a ol = (a, False)" by (simp add: merge3_def)
  have "\<forall>(r, s, t) \<in> set (regions ol ol b 0 0 0 (anchors_of ol ol b)). merge_region r s t = (t, False)"
    using regions_same(2) [OF anchors_sync(2)] by fastforce
  from loop_theirs [OF anchors_anchored this] show "merge3 ol ol b = (b, False)" by (simp add: merge3_def)
  have "\<forall>(r, s, t) \<in> set (regions ol a a 0 0 0 (anchors_of ol a a)). merge_region r s t = (s, False)"
    using regions_same(3) [OF anchors_sync(3)] by fastforce
  from loop_ours [OF anchors_anchored this] show "merge3 ol a a = (a, False)" by (simp add: merge3_def)
qed

section \<open>Symmetry, and what survives a merge\<close>

definition flip :: "anchor \<Rightarrow> anchor" where
  "flip an = (case an of (x, y, z) \<Rightarrow> (x, z, y))"

lemma flip_simp [simp]: "flip (x, y, z) = (x, z, y)"
  by (simp add: flip_def)

lemma anchors_flip: "anchors_of ol b a = map flip (anchors_of ol a b)"
  unfolding anchors_of_def Let_def map_append map_concat map_map comp_def
  by (intro arg_cong2 [of _ _ _ _ "(@)"] arg_cong [of _ _ concat] map_cong refl) (auto split: option.splits)

lemma region_flip:
  "snd (merge_region r t s) = snd (merge_region r s t)"
  "\<not> snd (merge_region r s t) \<Longrightarrow> fst (merge_region r t s) = fst (merge_region r s t)"
  by (auto simp: merge_region_def)

lemma loop_flip:
  "anchored ol a b so sa sb ans \<Longrightarrow>
   snd (merge_loop ol b a so sb sa (map flip ans)) = snd (merge_loop ol a b so sa sb ans) \<and>
   (\<not> snd (merge_loop ol a b so sa sb ans) \<longrightarrow>
     fst (merge_loop ol b a so sb sa (map flip ans)) = fst (merge_loop ol a b so sa sb ans))"
proof (induction ans arbitrary: so sa sb)
  case (Cons an ans)
  obtain x y z where an: "an = (x, y, z)" by (cases an)
  show ?case
  proof (cases ans)
    case Nil
    then show ?thesis using Cons.prems an region_flip by (simp add: flip_def split_beta Let_def)
  next
    case (Cons an' ans')
    then have "anchored ol a b (x + 1) (y + 1) (z + 1) ans" "a ! y = b ! z"
      using Cons.prems(1) an by simp_all
    with Cons.IH [OF this(1)] region_flip show ?thesis
      unfolding an list.map flip_simp loop_step by auto
  qed
qed simp

lemma set_slice: "set (slice xs s e) \<subseteq> set xs"
  unfolding slice_def by (meson in_set_dropD in_set_takeD subsetI)

text \<open>A line of one side that is not in the ancestor is never dropped.\<close>

lemma region_keeps:
  "set s - set r \<subseteq> set (fst (merge_region r s t))" "set t - set r \<subseteq> set (fst (merge_region r s t))"
  "\<not> snd (merge_region r s t) \<Longrightarrow> set (fst (merge_region r s t)) \<subseteq> set s \<union> set t"
  by (auto simp: merge_region_def)

lemma loop_keeps:
  "anchored ol a b so sa sb ans \<Longrightarrow>
   set (drop sa a) - set ol \<subseteq> set (fst (merge_loop ol a b so sa sb ans)) \<and>
   set (drop sb b) - set ol \<subseteq> set (fst (merge_loop ol a b so sa sb ans)) \<and>
   (\<not> snd (merge_loop ol a b so sa sb ans) \<longrightarrow> set (fst (merge_loop ol a b so sa sb ans)) \<subseteq> set a \<union> set b)"
proof (induction ans arbitrary: so sa sb)
  case (Cons an ans)
  obtain x y z where an: "an = (x, y, z)" by (cases an)
  let ?r = "slice ol so x" and ?s = "slice a sa y" and ?t = "slice b sb z"
  have sub: "set ?r \<subseteq> set ol" "set ?s \<subseteq> set a" "set ?t \<subseteq> set b" by (rule set_slice)+
  note k = region_keeps(1,2) [where r = ?r and s = ?s and t = ?t]
  have k3: "\<not> snd (merge_region ?r ?s ?t) \<Longrightarrow> set (fst (merge_region ?r ?s ?t)) \<subseteq> set a \<union> set b"
    using region_keeps(3) [of ?r ?s ?t] sub by blast
  show ?case
  proof (cases ans)
    case Nil
    then show ?thesis using Cons.prems an k k3 sub by (simp add: slice_full) blast
  next
    case (Cons an' ans')
    then have ih: "anchored ol a b (x + 1) (y + 1) (z + 1) ans" and p: "sa \<le> y" "y < length a" "sb \<le> z"
      "z < length b" "x < length ol" "a ! y = ol ! x" "b ! z = ol ! x"
      using Cons.prems(1) an by simp_all
    have "set (drop sa a) = set ?s \<union> {a ! y} \<union> set (drop (y + 1) a)"
      "set (drop sb b) = set ?t \<union> {b ! z} \<union> set (drop (z + 1) b)"
      using slice_step [OF p(1,2)] slice_step [OF p(3,4)] by (metis list.simps(15) set_append sup_assoc insert_is_Un)+
    moreover have "a ! y \<in> set ol" "b ! z \<in> set ol" using p by simp_all
    moreover have "a ! y \<in> set a" using p(2) by (rule nth_mem)
    ultimately show ?thesis
      using Cons.IH [OF ih] k k3 sub unfolding an loop_step by auto
  qed
qed simp

section \<open>Properties\<close>

text \<open>The alignment the merge works with is a longest common subsequence: the pairs it
  returns are strictly increasing positions of equal lines, and no alignment of the two
  line sequences has more pairs. The table the code fills is a correct account of the
  lengths for every pair of suffixes.\<close>

theorem lcs_optimal:
  "aligned a b 0 0 (lcsPairs a b) \<and>
   (\<forall>ps. aligned a b 0 0 ps \<longrightarrow> length ps \<le> length (lcsPairs a b)) \<and>
   (\<forall>i j. i \<le> length a \<longrightarrow> j \<le> length b \<longrightarrow> dp_table a b ! i ! j = lcs_len (drop i a) (drop j b))"
  using walk_aligned walk_length [of a b 0 0] lcs_len_bound [of a b 0 0] dp_entry
  by (auto simp: lcsPairs_def)

theorem lcs_optimal_witness:
  "length (lcsPairs [''a'', ''b'', ''c''] [''b'', ''x'', ''c'']) \<ge> 2"
proof -
  have "aligned [''a'', ''b'', ''c''] [''b'', ''x'', ''c''] 0 0 [(1, 0), (2, 2)]" by simp
  then have "length [(1::nat, 0::nat), (2, 2)] \<le> length (lcsPairs [''a'', ''b'', ''c''] [''b'', ''x'', ''c''])"
    using lcs_optimal [of "[''a'', ''b'', ''c'']" "[''b'', ''x'', ''c'']"] by blast
  then show ?thesis by simp
qed

text \<open>A merge where only one side changed anything gives that side, and a merge where both
  made the same change gives that change, never with a conflict.\<close>

theorem merge3_trivial:
  "merge3 ol a ol = (a, False) \<and> merge3 ol ol b = (b, False) \<and> merge3 ol a a = (a, False)"
  by (simp add: merge3_one_side)



end
