(* ===== verification/MergeTree.thy ===== *)
theory MergeTree
  imports Diff3 MergeBase TreeFiles
begin

text \<open>
  The merge driver of \<^verbatim>\<open>internal/merge/merge.go\<close>: the decision for each path, the resolution
  of the paths both sides changed (text merge, regeneration, conflict markers), the
  synthesised base of a criss-cross history, and the merge itself. The regenerator runs
  outside the program and is a parameter; the context it is given is left out. A file that
  may be absent (the code's entry and its \<^verbatim>\<open>has\<close> flag) is an option. \<^verbatim>\<open>stk\<close> is the depth the
  walk of a tree may have.
\<close>

record regen_request =
  rr_path :: string
  rr_intent :: provenance
  rr_ancestor :: "byte list"
  rr_ours :: "byte list"
  rr_theirs :: "byte list"

type_synonym regenerator = "regen_request \<Rightarrow> goerr + byte list"

record merge_conflict =
  cf_path :: string
  cf_reason :: string

record tree_merge =
  tm_tree :: "multihash option"
  tm_clean :: "string list"
  tm_textMerged :: "string list"
  tm_regenerated :: "string list"
  tm_conflicts :: "merge_conflict list"

record merge_result =
  mr_Tree :: "multihash option"
  mr_Change :: "multihash option"
  mr_Base :: "multihash option"
  mr_Clean :: "string list"
  mr_TextMerged :: "string list"
  mr_Regenerated :: "string list"
  mr_Conflicts :: "merge_conflict list"

definition Resolved :: "merge_result \<Rightarrow> bool" where
  "Resolved r = (length (mr_Conflicts r) = 0)"

section \<open>Helpers\<close>

definition treeOf :: "hash_funs \<Rightarrow> objstore \<Rightarrow> multihash option \<Rightarrow> goerr + multihash option" where
  "treeOf h s change =
     (case change of
        None \<Rightarrow> Inr None
      | Some id' \<Rightarrow>
          rbind (Get h s id') (\<lambda>obj.
          if otyp obj \<noteq> TypeChange then Inr change
          else rbind (AsChange obj) (\<lambda>c. Inr (c_tree c))))"

definition eqID :: "multihash option \<Rightarrow> multihash option \<Rightarrow> bool" where
  "eqID a b =
     (case (a, b) of
        (Some a, Some b) \<Rightarrow> Equal a b
      | _ \<Rightarrow> a = None \<and> b = None)"

definition sameAsBase :: "file_ent option \<Rightarrow> file_ent option \<Rightarrow> bool" where
  "sameAsBase x b =
     (if (x \<noteq> None) \<noteq> (b \<noteq> None) then False
      else (case (x, b) of
              (Some x, Some b) \<Rightarrow> Equal (fe_id x) (fe_id b)
            | _ \<Rightarrow> True))"

definition content :: "hash_funs \<Rightarrow> objstore \<Rightarrow> file_ent option \<Rightarrow> goerr + byte list" where
  "content h s fe =
     (case fe of
        None \<Rightarrow> Inr []
      | Some fe \<Rightarrow> rbind (Get h s (fe_id fe)) (\<lambda>obj. Inr (bytes_or_nil (BlobContent obj))))"

definition putBlob :: "hash_funs \<Rightarrow> objstore \<Rightarrow> byte list \<Rightarrow> u32 \<Rightarrow> (goerr + file_ent) \<times> objstore" where
  "putBlob h s c mode =
     (case NewBlob c of
        Inl e \<Rightarrow> (Inl e, s)
      | Inr obj \<Rightarrow>
          (case Put h s obj of
             (Inl e, s) \<Rightarrow> (Inl e, s)
           | (Inr id', s) \<Rightarrow> (Inr \<lparr>fe_id = id', fe_mode = mode\<rparr>, s)))"

definition pickMode :: "file_ent option \<Rightarrow> file_ent option \<Rightarrow> u32" where
  "pickMode o' tv =
     (case o' of
        Some fe \<Rightarrow> fe_mode fe
      | None \<Rightarrow> (case tv of Some fe \<Rightarrow> fe_mode fe | None \<Rightarrow> modeFile))"

text \<open>\<^verbatim>\<open>strings.SplitAfter\<close>: the pieces keep their separator; the last piece has none.\<close>

fun split_after :: "char \<Rightarrow> string \<Rightarrow> string list" where
  "split_after c [] = [[]]"
| "split_after c (x # xs) =
     (if x = c then [c] # split_after c xs
      else (case split_after c xs of
              w # ws \<Rightarrow> (x # w) # ws
            | [] \<Rightarrow> [[x]]))"

definition lines :: "byte list \<Rightarrow> string list" where
  "lines s = (if length s = 0 then [] else split_after (CHR 0x0A) (string_of s))"

definition unionPaths :: "files list \<Rightarrow> string list" where
  "unionPaths maps = sort (remdups (concat (map (map fst) maps)))"

text \<open>The intent a change records, and what it fulfills; a change that cannot be read has none.\<close>

definition changeIntent :: "hash_funs \<Rightarrow> objstore \<Rightarrow> multihash option \<Rightarrow> provenance option" where
  "changeIntent h s change =
     (case change of
        None \<Rightarrow> None
      | Some id' \<Rightarrow>
          (case rbind (Get h s id') AsChange of
             Inl _ \<Rightarrow> None
           | Inr c \<Rightarrow>
               (case c_provenance c of
                  None \<Rightarrow> None
                | Some p \<Rightarrow>
                    (case rbind (Get h s p) AsProvenance of
                       Inl _ \<Rightarrow> None
                     | Inr pv \<Rightarrow> Some pv))))"

definition changeFulfills :: "hash_funs \<Rightarrow> objstore \<Rightarrow> multihash option \<Rightarrow> multihash option" where
  "changeFulfills h s change =
     (case change of
        None \<Rightarrow> None
      | Some id' \<Rightarrow>
          (case rbind (Get h s id') AsChange of
             Inl _ \<Rightarrow> None
           | Inr c \<Rightarrow> c_fulfills c))"

section \<open>A path both sides changed\<close>

datatype merge_method = MText | MRegen | MNone

definition resolveConflict :: "hash_funs \<Rightarrow> objstore \<Rightarrow> string \<Rightarrow> file_ent option \<Rightarrow> file_ent option \<Rightarrow> file_ent option
    \<Rightarrow> provenance option \<Rightarrow> regenerator option
    \<Rightarrow> (goerr + (file_ent option \<times> merge_method \<times> bool)) \<times> objstore" where
  "resolveConflict h s path b o' tv intent reg =
     (case content h s b of
        Inl e \<Rightarrow> (Inl e, s)
      | Inr baseC \<Rightarrow>
     (case content h s o' of
        Inl e \<Rightarrow> (Inl e, s)
      | Inr oursC \<Rightarrow>
     (case content h s tv of
        Inl e \<Rightarrow> (Inl e, s)
      | Inr theirsC \<Rightarrow>
     (let (mergedLines, conflict) = merge3 (lines baseC) (lines oursC) (lines theirsC);
          mode = pickMode o' tv;
          text' = bytes_of (concat mergedLines);
          put = (\<lambda>c m confl. case putBlob h s c mode of
                   (Inl e, s) \<Rightarrow> (Inl e, s)
                 | (Inr fe, s) \<Rightarrow> (Inr (Some fe, m, confl), s))
      in if \<not> conflict then put text' MText False
         else (case (reg, intent) of
                 (Some reg, Some intent) \<Rightarrow>
                   (case reg \<lparr>rr_path = path, rr_intent = intent, rr_ancestor = baseC,
                              rr_ours = oursC, rr_theirs = theirsC\<rparr> of
                      Inr out \<Rightarrow> put out MRegen False
                    | Inl _ \<Rightarrow> put text' MNone True)
               | _ \<Rightarrow> put text' MNone True)))))"

section \<open>The paths, one after the other\<close>

type_synonym merge_acc = "files \<times> tree_merge"

definition merge_path :: "hash_funs \<Rightarrow> provenance option \<Rightarrow> regenerator option \<Rightarrow> files \<Rightarrow> files \<Rightarrow> files
    \<Rightarrow> string \<Rightarrow> merge_acc \<Rightarrow> objstore \<Rightarrow> (goerr + merge_acc) \<times> objstore" where
  "merge_path h intent reg bf of' tf path acc s =
     (let b = map_of bf path; o' = map_of of' path; tv = map_of tf path;
          (merged, mt) = acc;
          clean = mt\<lparr>tm_clean := tm_clean mt @ [path]\<rparr>
      in if o' \<noteq> None \<and> tv \<noteq> None \<and> eqID (map_option fe_id o') (map_option fe_id tv)
         then (Inr (AList.update path (the o') merged, clean), s)
         else if o' = None \<and> tv = None then (Inr acc, s)
         else if sameAsBase o' b
         then (Inr (case tv of Some fe \<Rightarrow> AList.update path fe merged | None \<Rightarrow> merged, clean), s)
         else if sameAsBase tv b
         then (Inr (case o' of Some fe \<Rightarrow> AList.update path fe merged | None \<Rightarrow> merged, clean), s)
         else (case resolveConflict h s path b o' tv intent reg of
                 (Inl e, s) \<Rightarrow> (Inl e, s)
               | (Inr (fe, m, conflict), s) \<Rightarrow>
                   (let merged = (case fe of Some fe \<Rightarrow> AList.update path fe merged | None \<Rightarrow> merged);
                        mt = (case m of
                                MText \<Rightarrow> mt\<lparr>tm_textMerged := tm_textMerged mt @ [path]\<rparr>
                              | MRegen \<Rightarrow> mt\<lparr>tm_regenerated := tm_regenerated mt @ [path]\<rparr>
                              | MNone \<Rightarrow> mt);
                        mt = (if conflict
                              then mt\<lparr>tm_conflicts := tm_conflicts mt @
                                     [\<lparr>cf_path = path, cf_reason = ''diverged edits''\<rparr>]\<rparr>
                              else mt)
                    in (Inr (merged, mt), s))))"

fun merge_paths :: "hash_funs \<Rightarrow> provenance option \<Rightarrow> regenerator option \<Rightarrow> files \<Rightarrow> files \<Rightarrow> files
    \<Rightarrow> string list \<Rightarrow> merge_acc \<Rightarrow> objstore \<Rightarrow> (goerr + merge_acc) \<times> objstore" where
  "merge_paths h intent reg bf of' tf [] acc s = (Inr acc, s)"
| "merge_paths h intent reg bf of' tf (p # ps) acc s =
     (case merge_path h intent reg bf of' tf p acc s of
        (Inl e, s) \<Rightarrow> (Inl e, s)
      | (Inr acc, s) \<Rightarrow> merge_paths h intent reg bf of' tf ps acc s)"

definition no_merge :: tree_merge where
  "no_merge = \<lparr>tm_tree = None, tm_clean = [], tm_textMerged = [], tm_regenerated = [], tm_conflicts = []\<rparr>"

definition mergeTrees :: "nat \<Rightarrow> hash_funs \<Rightarrow> objstore \<Rightarrow> multihash option \<Rightarrow> multihash option \<Rightarrow> multihash option
    \<Rightarrow> provenance option \<Rightarrow> regenerator option \<Rightarrow> (goerr + tree_merge) \<times> objstore" where
  "mergeTrees stk h s baseTree oursTree theirsTree intent reg =
     (case rbind (flatten stk h s baseTree) (\<lambda>bf.
           rbind (flatten stk h s oursTree) (\<lambda>of'.
           rbind (flatten stk h s theirsTree) (\<lambda>tf. Inr (bf, of', tf)))) of
        Inl e \<Rightarrow> (Inl e, s)
      | Inr (bf, of', tf) \<Rightarrow>
          (case merge_paths h intent reg bf of' tf (unionPaths [bf, of', tf]) ([], no_merge) s of
             (Inl e, s) \<Rightarrow> (Inl e, s)
           | (Inr (merged, mt), s) \<Rightarrow>
               (case buildTree h s merged of
                  (Inl e, s) \<Rightarrow> (Inl e, s)
                | (Inr tree, s) \<Rightarrow> (Inr (mt\<lparr>tm_tree := Some tree\<rparr>), s))))"

section \<open>The base of a merge\<close>

text \<open>The loop over the second and later bases, each with the base its merge is measured against.\<close>

fun fold_bases :: "nat \<Rightarrow> hash_funs \<Rightarrow> objstore \<Rightarrow> multihash option \<Rightarrow> (multihash \<times> multihash option) list
    \<Rightarrow> (goerr + multihash option) \<times> objstore" where
  "fold_bases stk h s accTree [] = (Inr accTree, s)"
| "fold_bases stk h s accTree ((b, subBase) # bs) =
     (case treeOf h s (Some b) of
        Inl e \<Rightarrow> (Inl e, s)
      | Inr biTree \<Rightarrow>
          (case mergeTrees stk h s subBase accTree biTree None None of
             (Inl e, s) \<Rightarrow> (Inl e, s)
           | (Inr mt, s) \<Rightarrow> fold_bases stk h s (tm_tree mt) bs))"

lemma mono_sum_case [partial_function_mono]:
  "(\<And>x. monotone orda ordb (\<lambda>f. F f x)) \<Longrightarrow> (\<And>y. monotone orda ordb (\<lambda>f. G f y)) \<Longrightarrow>
   monotone orda ordb (\<lambda>f. case r of Inl x \<Rightarrow> F f x | Inr y \<Rightarrow> G f y)"
  by (cases r) simp_all

lemma mono_list_case [partial_function_mono]:
  "monotone orda ordb F \<Longrightarrow> (\<And>x xs. monotone orda ordb (\<lambda>f. G f x xs)) \<Longrightarrow>
   monotone orda ordb (\<lambda>f. case l of [] \<Rightarrow> F f | x # xs \<Rightarrow> G f x xs)"
  by (cases l) simp_all

partial_function (option) virtualBaseTree :: "nat \<Rightarrow> hash_funs \<Rightarrow> objstore \<Rightarrow> multihash list
    \<Rightarrow> ((goerr + multihash option) \<times> objstore) option" where
  "virtualBaseTree stk h s bases =
     (case bases of
        [] \<Rightarrow> Some (Inr None, s)
      | [b] \<Rightarrow> Some (treeOf h s (Some b), s)
      | b0 # b1 # bs \<Rightarrow>
          (case treeOf h s (Some b0) of
             Inl e \<Rightarrow> Some (Inl e, s)
           | Inr accTree \<Rightarrow>
               Option.bind (virtualBaseTree stk h s (MergeBases h s (Some b0) (Some b1))) (\<lambda>(r, s).
               Some (case r of
                       Inl e \<Rightarrow> (Inl e, s)
                     | Inr subBase \<Rightarrow>
                         fold_bases stk h s accTree ((b1, subBase) # map (\<lambda>b. (b, None)) bs)))))"

section \<open>Merge\<close>

definition merge_change :: "hash_funs \<Rightarrow> objstore \<Rightarrow> multihash option \<Rightarrow> multihash option \<Rightarrow> multihash option \<Rightarrow> change" where
  "merge_change h s tree ours theirs =
     \<lparr>c_tree = tree, c_parents = [bytes_or_nil ours, bytes_or_nil theirs], c_message = ''merge'', c_timestamp = 0,
      c_author = [], c_provenance = None, c_artifacts = [], c_fulfills = changeFulfills h s theirs\<rparr>"

definition Merge :: "nat \<Rightarrow> hash_funs \<Rightarrow> objstore \<Rightarrow> multihash option \<Rightarrow> multihash option \<Rightarrow> regenerator option
    \<Rightarrow> ((goerr + merge_result) \<times> objstore) option" where
  "Merge stk h s ours theirs reg =
     (let bases = MergeBases h s ours theirs in
      case virtualBaseTree stk h s bases of
        None \<Rightarrow> None
      | Some (Inl e, s) \<Rightarrow> Some (Inl e, s)
      | Some (Inr baseTree, s) \<Rightarrow>
     (case rbind (treeOf h s ours) (\<lambda>oursTree. rbind (treeOf h s theirs) (\<lambda>theirsTree. Inr (oursTree, theirsTree))) of
        Inl e \<Rightarrow> Some (Inl e, s)
      | Inr (oursTree, theirsTree) \<Rightarrow>
     (case mergeTrees stk h s baseTree oursTree theirsTree (changeIntent h s theirs) reg of
        (Inl e, s) \<Rightarrow> Some (Inl e, s)
      | (Inr mt, s) \<Rightarrow>
         (let res = \<lparr>mr_Tree = tm_tree mt, mr_Change = None,
                     mr_Base = (if length bases = 1 then Some (hd bases) else None),
                     mr_Clean = tm_clean mt, mr_TextMerged = tm_textMerged mt,
                     mr_Regenerated = tm_regenerated mt, mr_Conflicts = tm_conflicts mt\<rparr>
          in if Resolved res then
               (case NewChange (merge_change h s (tm_tree mt) ours theirs) of
                  Inl e \<Rightarrow> Some (Inl e, s)
                | Inr obj \<Rightarrow>
                    (case Put h s obj of
                       (Inl e, s) \<Rightarrow> Some (Inl e, s)
                     | (Inr id', s) \<Rightarrow> Some (Inr (res\<lparr>mr_Change := Some id'\<rparr>), s)))
             else Some (Inr res, s)))))"

section \<open>What a merge decides\<close>

text \<open>A store that has grown: the same algorithm, and everything that was readable still is.\<close>

definition grown :: "hash_funs \<Rightarrow> objstore \<Rightarrow> objstore \<Rightarrow> bool" where
  "grown h s s' \<longleftrightarrow> store_ok h s' \<and> os_algo s' = os_algo s \<and> (\<forall>j b. GetRaw h s j = Inr b \<longrightarrow> GetRaw h s' j = Inr b)"

lemma grown_refl: "store_ok h s \<Longrightarrow> grown h s s"
  by (simp add: grown_def)

lemma grown_trans: "grown h s s' \<Longrightarrow> grown h s' s'' \<Longrightarrow> grown h s s''"
  by (simp add: grown_def)

lemma grown_put_raws: "wf_hashes h \<Longrightarrow> store_ok h s \<Longrightarrow> grown h s (put_raws h s bs)"
  by (simp add: grown_def put_raws_keeps)

lemma grown_build: "wf_hashes h \<Longrightarrow> store_ok h s \<Longrightarrow> buildTree h s files = (Inr i, s') \<Longrightarrow> grown h s s'"
  using build_tree_of(1) [of h s files] grown_put_raws [of h s] by (auto split: sum.splits)

lemma grown_Put: "wf_hashes h \<Longrightarrow> store_ok h s \<Longrightarrow> Put h s obj = (r, s') \<Longrightarrow> grown h s s'"
  using grown_put_raws [of h s "[Encode obj]"] by (simp add: Put_def)

lemma grown_Get: "grown h s s' \<Longrightarrow> Get h s i = Inr obj \<Longrightarrow> Get h s' i = Inr obj"
  by (auto simp: grown_def Get_def result_iffs)

lemma grown_content: "grown h s s' \<Longrightarrow> content h s fe = Inr c \<Longrightarrow> content h s' fe = Inr c"
  by (auto simp: content_def result_iffs dest: grown_Get split: option.splits)

lemma putBlob_ok:
  assumes "wf_hashes h" "store_ok h s" "putBlob h s c mode = (Inr fe, s')"
  shows "grown h s s'" and "Sum h (os_algo s) (Encode (blob_obj c)) = Inr (fe_id fe)" and "fe_mode fe = mode"
proof -
  obtain r s1 where p: "Put h s (blob_obj c) = (r, s1)" by fastforce
  from p assms(3) have r: "r = Inr (fe_id fe)" "s1 = s'" "fe_mode fe = mode"
    by (auto simp: putBlob_def NewBlob_eq split: sum.splits)
  show "grown h s s'" using grown_Put [OF assms(1,2) p] r by simp
  show "Sum h (os_algo s) (Encode (blob_obj c)) = Inr (fe_id fe)"
    using fst_PutRaw [OF assms(1), of s "Encode (blob_obj c)"] p r by (simp add: Put_def)
  show "fe_mode fe = mode" by fact
qed

text \<open>The content a doubly changed file gets, and whether it still holds a conflict.\<close>

definition resolution :: "string \<Rightarrow> provenance option \<Rightarrow> regenerator option \<Rightarrow> byte list \<Rightarrow> byte list \<Rightarrow> byte list
    \<Rightarrow> byte list \<times> bool" where
  "resolution path intent reg bc oc tc =
     (let (ls, conflict) = merge3 (lines bc) (lines oc) (lines tc);
          again = (case (reg, intent) of
                     (Some reg, Some intent) \<Rightarrow>
                       (case reg \<lparr>rr_path = path, rr_intent = intent, rr_ancestor = bc, rr_ours = oc, rr_theirs = tc\<rparr> of
                          Inr out \<Rightarrow> Some out
                        | Inl _ \<Rightarrow> None)
                   | _ \<Rightarrow> None)
      in if conflict then (case again of Some out \<Rightarrow> (out, False) | None \<Rightarrow> (bytes_of (concat ls), True))
         else (bytes_of (concat ls), False))"

text \<open>
  The three-way rule for one path: \<^verbatim>\<open>r\<close> is what the merged tree has there, \<^verbatim>\<open>confl\<close> whether the
  path is reported. Files are compared by the identity of their content.
\<close>

definition path_result :: "hash_funs \<Rightarrow> objstore \<Rightarrow> provenance option \<Rightarrow> regenerator option \<Rightarrow> string
    \<Rightarrow> file_ent option \<Rightarrow> file_ent option \<Rightarrow> file_ent option \<Rightarrow> file_ent option \<Rightarrow> bool \<Rightarrow> bool" where
  "path_result h s intent reg path b o' tv r confl \<longleftrightarrow>
     (if map_option fe_id o' = map_option fe_id tv then r = o' \<and> \<not> confl
      else if map_option fe_id o' = map_option fe_id b then r = tv \<and> \<not> confl
      else if map_option fe_id tv = map_option fe_id b then r = o' \<and> \<not> confl
      else (\<exists>bc oc tc fe. content h s b = Inr bc \<and> content h s o' = Inr oc \<and> content h s tv = Inr tc \<and>
              r = Some fe \<and> fe_mode fe = pickMode o' tv \<and> confl = snd (resolution path intent reg bc oc tc) \<and>
              Sum h (os_algo s) (Encode (blob_obj (fst (resolution path intent reg bc oc tc)))) = Inr (fe_id fe)))"

lemma path_result_grown:
  "grown h s s' \<Longrightarrow> path_result h s intent reg path b o' tv r confl \<Longrightarrow> path_result h s' intent reg path b o' tv r confl"
  unfolding path_result_def using grown_content [of h s s'] by (auto simp: grown_def split: if_splits)

lemma resolveConflict_ok:
  assumes "wf_hashes h" "store_ok h s" "resolveConflict h s path b o' tv intent reg = (Inr (r, m, confl), s')"
  shows "grown h s s'" and "\<exists>bc oc tc fe. content h s' b = Inr bc \<and> content h s' o' = Inr oc \<and> content h s' tv = Inr tc \<and>
     r = Some fe \<and> fe_mode fe = pickMode o' tv \<and> confl = snd (resolution path intent reg bc oc tc) \<and>
     Sum h (os_algo s') (Encode (blob_obj (fst (resolution path intent reg bc oc tc)))) = Inr (fe_id fe)"
proof -
  obtain bc oc tc where c: "content h s b = Inr bc" "content h s o' = Inr oc" "content h s tv = Inr tc"
    using assms(3) by (auto simp: resolveConflict_def split: sum.splits)
  obtain fe where fe: "putBlob h s (fst (resolution path intent reg bc oc tc)) (pickMode o' tv) = (Inr fe, s')"
    "r = Some fe" "confl = snd (resolution path intent reg bc oc tc)"
    using assms(3) c
    by (auto simp: resolveConflict_def resolution_def Let_def split: prod.splits sum.splits option.splits if_splits)
  note p = putBlob_ok [OF assms(1,2) fe(1)]
  show "grown h s s'" by (rule p(1))
  then show "\<exists>bc oc tc fe. content h s' b = Inr bc \<and> content h s' o' = Inr oc \<and> content h s' tv = Inr tc \<and>
     r = Some fe \<and> fe_mode fe = pickMode o' tv \<and> confl = snd (resolution path intent reg bc oc tc) \<and>
     Sum h (os_algo s') (Encode (blob_obj (fst (resolution path intent reg bc oc tc)))) = Inr (fe_id fe)"
    using c [THEN grown_content [OF p(1)]] p(2,3) fe(2,3) by (auto simp: grown_def)
qed

lemma eqID_iff: "eqID a b \<longleftrightarrow> a = b"
  by (auto simp: eqID_def split: option.splits)

lemma sameAsBase_iff: "sameAsBase x b \<longleftrightarrow> map_option fe_id x = map_option fe_id b"
  by (auto simp: sameAsBase_def split: option.splits)

definition conflict_paths :: "tree_merge \<Rightarrow> string set" where
  "conflict_paths mt = cf_path ` set (tm_conflicts mt)"

lemma merge_path_ok:
  assumes "wf_hashes h" "store_ok h s" "merge_path h intent reg bf of' tf p (merged, mt) s = (Inr (merged', mt'), s')"
    and "map_of merged p = None" "p \<notin> conflict_paths mt"
  shows "grown h s s'"
    and "path_result h s' intent reg p (map_of bf p) (map_of of' p) (map_of tf p) (map_of merged' p) (p \<in> conflict_paths mt')"
    and "q \<noteq> p \<Longrightarrow> map_of merged' q = map_of merged q \<and> (q \<in> conflict_paths mt' \<longleftrightarrow> q \<in> conflict_paths mt)"
proof -
  let ?b = "map_of bf p" and ?o = "map_of of' p" and ?t = "map_of tf p"
  consider (same) "?o \<noteq> None" "map_option fe_id ?o = map_option fe_id ?t" | (none) "?o = None" "?t = None"
    | (ours) "map_option fe_id ?o \<noteq> map_option fe_id ?t" "map_option fe_id ?o = map_option fe_id ?b"
    | (theirs) "map_option fe_id ?o \<noteq> map_option fe_id ?t" "map_option fe_id ?o \<noteq> map_option fe_id ?b"
        "map_option fe_id ?t = map_option fe_id ?b"
    | (both) "map_option fe_id ?o \<noteq> map_option fe_id ?t" "map_option fe_id ?o \<noteq> map_option fe_id ?b"
        "map_option fe_id ?t \<noteq> map_option fe_id ?b"
    by fastforce
  then have "grown h s s' \<and>
    path_result h s' intent reg p ?b ?o ?t (map_of merged' p) (p \<in> conflict_paths mt') \<and>
    (q \<noteq> p \<longrightarrow> map_of merged' q = map_of merged q \<and> (q \<in> conflict_paths mt' \<longleftrightarrow> q \<in> conflict_paths mt))"
  proof cases
    case both
    then obtain fe m confl s1 where r: "resolveConflict h s p ?b ?o ?t intent reg = (Inr (fe, m, confl), s1)"
      using assms(3) by (auto simp: merge_path_def eqID_iff sameAsBase_iff Let_def split: prod.splits sum.splits if_splits)
    obtain fe' where fe: "fe = Some fe'" using resolveConflict_ok(2) [OF assms(1,2) r] by auto
    from both r assms(3) have "s' = s1" "merged' = AList.update p fe' merged"
      "conflict_paths mt' = conflict_paths mt \<union> (if confl then {p} else {})"
      by (auto simp: merge_path_def eqID_iff sameAsBase_iff Let_def fe conflict_paths_def split: merge_method.splits if_splits)
    with resolveConflict_ok [OF assms(1,2) r] both assms(5) show ?thesis
      by (cases confl) (simp_all add: path_result_def update_conv' fe)
  qed (use assms in \<open>auto simp: merge_path_def eqID_iff sameAsBase_iff Let_def path_result_def conflict_paths_def
      update_conv' grown_refl split: option.splits if_splits\<close>)
  then show "grown h s s'" "path_result h s' intent reg p ?b ?o ?t (map_of merged' p) (p \<in> conflict_paths mt')"
    "q \<noteq> p \<Longrightarrow> map_of merged' q = map_of merged q \<and> (q \<in> conflict_paths mt' \<longleftrightarrow> q \<in> conflict_paths mt)"
    by blast+
qed

lemma merge_paths_ok:
  assumes "wf_hashes h"
  shows "merge_paths h intent reg bf of' tf ps (merged, mt) s = (Inr (merged', mt'), s') \<Longrightarrow> store_ok h s \<Longrightarrow>
    distinct ps \<Longrightarrow> \<forall>p \<in> set ps. map_of merged p = None \<and> p \<notin> conflict_paths mt \<Longrightarrow>
    grown h s s' \<and>
    (\<forall>p \<in> set ps. path_result h s' intent reg p (map_of bf p) (map_of of' p) (map_of tf p)
       (map_of merged' p) (p \<in> conflict_paths mt')) \<and>
    (\<forall>q. q \<notin> set ps \<longrightarrow> map_of merged' q = map_of merged q \<and> (q \<in> conflict_paths mt' \<longleftrightarrow> q \<in> conflict_paths mt))"
proof (induction ps arbitrary: merged mt s)
  case Nil
  then show ?case by (simp add: grown_refl)
next
  case (Cons p ps)
  from Cons.prems(1) obtain m1 t1 s1 where m: "merge_path h intent reg bf of' tf p (merged, mt) s = (Inr (m1, t1), s1)"
    "merge_paths h intent reg bf of' tf ps (m1, t1) s1 = (Inr (merged', mt'), s')"
    by (auto split: prod.splits sum.splits)
  have p: "map_of merged p = None" "p \<notin> conflict_paths mt" using Cons.prems(4) by auto
  note step = merge_path_ok [OF assms Cons.prems(2) m(1) p]
  have "\<forall>q \<in> set ps. map_of m1 q = None \<and> q \<notin> conflict_paths t1"
    using Cons.prems(3,4) step(3) by (metis distinct.simps(2) list.set_intros(2))
  with Cons.IH [OF m(2)] step(1) Cons.prems(3)
  have IH: "grown h s1 s'" "\<forall>p \<in> set ps. path_result h s' intent reg p (map_of bf p) (map_of of' p) (map_of tf p)
       (map_of merged' p) (p \<in> conflict_paths mt')"
    "\<forall>q. q \<notin> set ps \<longrightarrow> map_of merged' q = map_of m1 q \<and> (q \<in> conflict_paths mt' \<longleftrightarrow> q \<in> conflict_paths t1)"
    by (auto simp: grown_def)
  have "path_result h s' intent reg p (map_of bf p) (map_of of' p) (map_of tf p) (map_of merged' p) (p \<in> conflict_paths mt')"
    using path_result_grown [OF IH(1) step(2)] IH(3) Cons.prems(3) by simp
  with IH grown_trans [OF step(1) IH(1)] step(3) show ?case by auto
qed

lemma unionPaths_simps [simp]:
  "distinct (unionPaths maps)" "set (unionPaths maps) = (\<Union>m \<in> set maps. fst ` set m)"
  by (auto simp: unionPaths_def)

lemma conflict_paths_none [simp]: "conflict_paths no_merge = {}" "conflict_paths (mt\<lparr>tm_tree := t\<rparr>) = conflict_paths mt"
  by (simp_all add: conflict_paths_def no_merge_def)

lemma mergeTrees_ok:
  assumes "wf_hashes h" "store_ok h s" "mergeTrees stk h s bt ot tt intent reg = (Inr mt, s')"
  obtains bf of' tf merged s1 tree where
    "flatten stk h s bt = Inr bf" "flatten stk h s ot = Inr of'" "flatten stk h s tt = Inr tf"
    "grown h s s1" "buildTree h s1 merged = (Inr tree, s')" "tm_tree mt = Some tree" "grown h s s'"
    "\<And>p. path_result h s1 intent reg p (map_of bf p) (map_of of' p) (map_of tf p) (map_of merged p) (p \<in> conflict_paths mt)"
proof -
  obtain bf of' tf where f: "flatten stk h s bt = Inr bf" "flatten stk h s ot = Inr of'" "flatten stk h s tt = Inr tf"
    using assms(3) by (auto simp: mergeTrees_def rbind_def split: sum.splits)
  from assms(3) f obtain merged t1 s1 tree where
    m: "merge_paths h intent reg bf of' tf (unionPaths [bf, of', tf]) ([], no_merge) s = (Inr (merged, t1), s1)"
    and b: "buildTree h s1 merged = (Inr tree, s')" "mt = t1\<lparr>tm_tree := Some tree\<rparr>"
    by (auto simp: mergeTrees_def split: prod.splits sum.splits)
  note ok = merge_paths_ok [OF assms(1) m assms(2)]
  have g: "grown h s s1" using ok by simp
  have pr: "path_result h s1 intent reg p (map_of bf p) (map_of of' p) (map_of tf p) (map_of merged p) (p \<in> conflict_paths mt)" for p
  proof (cases "p \<in> set (unionPaths [bf, of', tf])")
    case True
    with ok b(2) show ?thesis by simp
  next
    case False
    then have "map_of bf p = None" "map_of of' p = None" "map_of tf p = None" by (auto simp: map_of_eq_None_iff)
    moreover have "map_of merged p = None" "p \<notin> conflict_paths mt" using ok False b(2) by auto
    ultimately show ?thesis by (simp add: path_result_def)
  qed
  have t: "tm_tree mt = Some tree" using b(2) by simp
  have "grown h s1 s'" using g by (intro grown_build [OF assms(1) _ b(1)]) (simp add: grown_def)
  from that [OF f g b(1) t grown_trans [OF g this] pr] show thesis .
qed

section \<open>The base is found\<close>

text \<open>A history in which no change is its own strict ancestor.\<close>

definition acyclic_history :: "hash_funs \<Rightarrow> objstore \<Rightarrow> bool" where
  "acyclic_history h s \<longleftrightarrow> (\<forall>x. \<not> below h s x x)"

lemma finite_ancestors: "finite {y. ancestor h s x y}"
proof -
  have "walked h s (set []) {}" by (simp add: walked_def)
  from collect_iff(1) [OF this, of _ x] have "Hex ` {y. ancestor h s x y} \<subseteq> set (collectAncestors h s [x] [])"
    by auto
  then have "finite (Hex ` {y. ancestor h s x y})" by (rule finite_subset) simp
  then show ?thesis by (rule finite_imageD) (simp add: inj_on_def)
qed

lemma ancestor_below: "ancestor h s x y \<Longrightarrow> y = x \<or> below h s x y"
proof (induction rule: ancestor.induct)
  case (parent x y p)
  then show ?case by (auto simp: below_def intro: ancestor.intros)
qed simp

lemma below_ancestor: "below h s x y \<Longrightarrow> ancestor h s y z \<Longrightarrow> below h s x z"
  by (auto simp: below_def intro: ancestor_trans)

lemma ancestor_refl: "ancestor h s x y \<Longrightarrow> ancestor h s x x \<and> ancestor h s y y"
  by (induction rule: ancestor.induct) (auto intro: ancestor.self)

text \<open>Several merge bases lie strictly below the two changes they are bases of.\<close>

lemma several_bases:
  assumes "MergeBases h s (Some a) (Some b) = c # d # cs"
  shows "ancestor h s a c" and "c \<noteq> a"
proof -
  have s: "set (c # d # cs) = {x. best_base h s a b x}" "c \<noteq> d"
    using MergeBases_spec [of h s a b] assms by auto
  then have c: "best_base h s a b c" and d: "best_base h s a b d" by auto
  show "ancestor h s a c" using c by (simp add: best_base_def common_ancestor_def)
  show "c \<noteq> a"
  proof
    assume "c = a"
    with c d have "common_ancestor h s a b a" "ancestor h s a d" by (auto simp: best_base_def common_ancestor_def)
    with d ancestor_below [of h s a d] have "d = a" by (auto simp: best_base_def)
    with \<open>c = a\<close> s(2) show False by simp
  qed
qed

lemma virtual_base_returns:
  assumes "acyclic_history h s"
  shows "\<exists>r. virtualBaseTree stk h s bases = Some r"
proof (induction "card {y. ancestor h s (hd bases) y}" arbitrary: bases rule: less_induct)
  case less
  have one: "\<exists>r. virtualBaseTree stk h s B = Some r" if "B = [] \<or> (\<exists>b. B = [b])" for B
    using that by (auto simp: virtualBaseTree.simps)
  show ?case
  proof (cases "\<exists>b0 b1 bs. bases = b0 # b1 # bs")
    case False
    then show ?thesis by (intro one) (metis list.exhaust)
  next
    case True
    then obtain b0 b1 bs where b: "bases = b0 # b1 # bs" by blast
    let ?B = "MergeBases h s (Some b0) (Some b1)"
    have "\<exists>r. virtualBaseTree stk h s ?B = Some r"
    proof (cases "\<exists>c d cs. ?B = c # d # cs")
      case False
      then show ?thesis by (intro one) (metis list.exhaust)
    next
      case True
      then obtain c d cs where B: "?B = c # d # cs" by blast
      note sb = several_bases [OF B]
      have "below h s b0 c" using ancestor_below [OF sb(1)] sb(2) by simp
      then have "b0 \<notin> {y. ancestor h s c y}"
        using assms below_ancestor [of h s b0 c b0] by (auto simp: acyclic_history_def)
      moreover have "b0 \<in> {y. ancestor h s b0 y}" using ancestor_refl [OF sb(1)] by simp
      moreover have "{y. ancestor h s c y} \<subseteq> {y. ancestor h s b0 y}"
        using sb(1) by (auto intro: ancestor_trans)
      ultimately have "card {y. ancestor h s c y} < card {y. ancestor h s b0 y}"
        by (intro psubset_card_mono finite_ancestors) auto
      with less [of "?B"] B b show ?thesis by simp
    qed
    then obtain r s' where "virtualBaseTree stk h s ?B = Some (r, s')" by auto
    then show ?thesis
      by (subst virtualBaseTree.simps) (simp add: b split: sum.split)
  qed
qed

definition demo_change :: change where
  "demo_change = \<lparr>c_tree = None, c_parents = [], c_message = ''root'', c_timestamp = 0, c_author = [],
     c_provenance = None, c_artifacts = [], c_fulfills = None\<rparr>"

definition demo_root :: "(goerr + multihash) \<times> objstore" where
  "demo_root = Put ends_hash Open_store (change_obj demo_change)"

lemma fits_uvarint [simp]: "fits64 (appendUvarint [] v)"
  using length_appendUvarint [of v] by (simp add: fits64_def)

lemma demo_change_wf: "wf_obj (change_obj demo_change)"
proof -
  have "fits64 (bytes_of ''root'')" by (simp add: fits64_def)
  then show ?thesis
    unfolding change_obj_def
    by (intro wf_mkobj)
      (simp_all add: change_fields_def demo_change_def change_tags opt_field_def max_alloc_def del: fits64_map)
qed

lemma demo_root_parents: "parents ends_hash (snd demo_root) x = []"
proof (rule ccontr)
  assume p: "parents ends_hash (snd demo_root) x \<noteq> []"
  obtain i s where r: "demo_root = (Inr i, s)" "PutRaw ends_hash Open_store (Encode (change_obj demo_change)) = (Inr i, s)"
    using PutRaw_total [OF ends_hash_ok, of Open_store] by (auto simp: demo_root_def Put_def Open_store_def)
  note ok = PutRaw_ok [OF ends_hash_ok store_ok_empty r(2)]
  have "Hex x \<in> set (map (snd \<circ> fst) (os_files s))" using parents_key [OF p [unfolded r(1) snd_conv]] .
  moreover obtain q where q: "store_path i = Inr q" "os_files s = [(q, Encode (change_obj demo_change))]"
    using PutRaw_cases [OF ends_hash_ok r(2)] by (metis (no_types, lifting) Open_store_def AList.update.simps(1)
      map_of.simps(1) objstore.select_convs(1) objstore.simps(1) objstore.update_convs(1))
  ultimately have "x = i" using store_path_name [OF q(1)] by simp
  moreover have "GetRaw ends_hash s i = Inr (Encode (change_obj demo_change))"
    using ok(4) by (simp add: Has_def Open_store_def split: sum.split)
  then have "Get ends_hash s i = Inr (change_obj demo_change)"
    using demo_change_wf by (simp add: Get_def)
  ultimately have "parents ends_hash (snd demo_root) x = []"
    using AsChange_change [of demo_change] by (simp add: parents_def r(1) demo_change_def wf_change_def canonical_change_def wf_hash_list_def)
  with p show False ..
qed

section \<open>Properties\<close>

text \<open>C30. Every path of a merged tree follows the three-way rule, whatever the trees: equal
  contents are kept, a side that left the base's content alone yields to the other, and a
  path both sides changed holds the text merge of the three contents, the regenerated
  content, or the text with markers; only the last is reported as a conflict. The merged
  files are those the returned tree is built from, and nothing readable in the store is lost.\<close>

theorem merge_trees_decide:
  assumes "wf_hashes h" "store_ok h s" "mergeTrees stk h s bt ot tt intent reg = (Inr mt, s')"
  shows "\<exists>bf of' tf merged s1 tree.
    flatten stk h s bt = Inr bf \<and> flatten stk h s ot = Inr of' \<and> flatten stk h s tt = Inr tf \<and>
    (\<forall>p. path_result h s1 intent reg p (map_of bf p) (map_of of' p) (map_of tf p) (map_of merged p)
       (p \<in> cf_path ` set (tm_conflicts mt))) \<and>
    buildTree h s1 merged = (Inr tree, s') \<and> tm_tree mt = Some tree \<and> grown h s s1 \<and> grown h s s'"
  using mergeTrees_ok [OF assms] unfolding conflict_paths_def by metis

theorem merge_trees_decide_witness:
  "\<exists>mt s' tree s1. mergeTrees 1 ends_hash Open_store None None None None None = (Inr mt, s') \<and>
     tm_tree mt = Some tree \<and> buildTree ends_hash s1 [] = (Inr tree, s') \<and> grown ends_hash Open_store s'"
proof -
  have "no_clash []" by (simp add: no_clash_def)
  with build_tree_decides [OF ends_hash_ok ends_hash_registered, of "[]"]
  obtain i s' where b: "buildTree ends_hash Open_store [] = (Inr i, s')" by auto
  then have m: "mergeTrees 1 ends_hash Open_store None None None None None = (Inr (no_merge\<lparr>tm_tree := Some i\<rparr>), s')"
    by (simp add: mergeTrees_def flatten_def unionPaths_def)
  with merge_trees_decide [OF ends_hash_ok store_ok_empty m] b show ?thesis by auto
qed

text \<open>Only the content counts in that rule, so a change of mode alone is lost: when one side
  made a file executable and the other did not touch it, the merge keeps the old mode and
  reports the path as cleanly merged.\<close>

theorem merge_loses_mode:
  "map_of bf p = Some \<lparr>fe_id = i, fe_mode = m\<rparr> \<Longrightarrow> map_of of' p = Some \<lparr>fe_id = i, fe_mode = m\<rparr> \<Longrightarrow>
   map_of tf p = Some \<lparr>fe_id = i, fe_mode = m'\<rparr> \<Longrightarrow>
   merge_path h intent reg bf of' tf p (merged, mt) s =
     (Inr (AList.update p \<lparr>fe_id = i, fe_mode = m\<rparr> merged, mt\<lparr>tm_clean := tm_clean mt @ [p]\<rparr>), s)"
  by (simp add: merge_path_def eqID_iff)

theorem merge_loses_mode_witness:
  "merge_path ends_hash None None [(''run'', \<lparr>fe_id = [7], fe_mode = modeFile\<rparr>)] [(''run'', \<lparr>fe_id = [7], fe_mode = modeFile\<rparr>)]
     [(''run'', \<lparr>fe_id = [7], fe_mode = 33261\<rparr>)] ''run'' ([], no_merge) Open_store =
   (Inr ([(''run'', \<lparr>fe_id = [7], fe_mode = modeFile\<rparr>)], no_merge\<lparr>tm_clean := [''run'']\<rparr>), Open_store)"
  using merge_loses_mode [of "[(''run'', \<lparr>fe_id = [7], fe_mode = modeFile\<rparr>)]" "''run''" "[7]" modeFile
      "[(''run'', \<lparr>fe_id = [7], fe_mode = modeFile\<rparr>)]" "[(''run'', \<lparr>fe_id = [7], fe_mode = 33261\<rparr>)]" 33261
      ends_hash None None "[]" no_merge Open_store]
  by (simp add: no_merge_def)

text \<open>C31. A merge always returns when no change of the history is its own strict ancestor: the
  recursion that synthesises a base for a criss-cross history goes strictly back in it.\<close>

theorem merge_returns:
  assumes "acyclic_history h s"
  shows "\<exists>r. Merge stk h s ours theirs reg = Some r"
proof -
  obtain b s1 where "virtualBaseTree stk h s (MergeBases h s ours theirs) = Some (b, s1)"
    using virtual_base_returns [OF assms] by fastforce
  then show ?thesis
    by (auto simp: Merge_def Let_def split: sum.split prod.split)
qed

theorem merge_returns_witness:
  "\<exists>r. Merge 1 ends_hash (snd demo_root) (Some [1]) (Some [2]) None = Some r"
proof (rule merge_returns)
  show "acyclic_history ends_hash (snd demo_root)"
    by (simp add: acyclic_history_def below_def demo_root_parents)
qed

end
