(* ===== verification/Txn.thy ===== *)
theory Txn
  imports TxnRun MergeTree Notes
begin

text \<open>
  One transaction: \<^verbatim>\<open>internal/txn/workspace.go\<close> and \<^verbatim>\<open>Scheduler.runOne\<close> of \<^verbatim>\<open>internal/txn/txn.go\<close>.
  \<^verbatim>\<open>Apply\<close> is a program over the methods of the workspace, an arbitrary one: a tree whose
  branches are the answers it may get. What other transactions do between an attempt's
  reading of the ref and its compare-and-swap is the parameter \<^verbatim>\<open>other\<close>, what \<^verbatim>\<open>ctx.Err\<close> answers
  the parameter \<^verbatim>\<open>ctx\<close>, the clock of the ref log the parameter \<^verbatim>\<open>clock\<close>.
\<close>

section \<open>Workspaces\<close>

record pending_write =
  pw_content :: "byte list"
  pw_mode :: u32
  pw_del :: bool

record workspace =
  ws_base :: files
  ws_reads :: "string list"
  ws_writes :: "string list"
  ws_pending :: "(string \<times> pending_write) list"

definition newWorkspace :: "files \<Rightarrow> string list \<Rightarrow> string list \<Rightarrow> workspace" where
  "newWorkspace base reads writes =
     \<lparr>ws_base = base, ws_reads = reads, ws_writes = writes, ws_pending = []\<rparr>"

definition ws_readable :: "workspace \<Rightarrow> string \<Rightarrow> bool" where
  "ws_readable ws path = (inScope path (ws_reads ws) \<or> inScope path (ws_writes ws))"

definition ws_Read :: "hash_funs \<Rightarrow> objstore \<Rightarrow> workspace \<Rightarrow> string \<Rightarrow> goerr + byte list" where
  "ws_Read h s ws path =
     (if \<not> ws_readable ws path then Inl (Sentinel TxnOutOfScope (''read '' @ path))
      else (case map_of (ws_pending ws) path of
              Some w \<Rightarrow> if pw_del w then Inl (Sentinel TxnNotExist []) else Inr (pw_content w)
            | None \<Rightarrow>
                (case map_of (ws_base ws) path of
                   None \<Rightarrow> Inl (Sentinel TxnNotExist [])
                 | Some fe \<Rightarrow> rbind (Get h s (fe_id fe)) (\<lambda>obj. Inr (bytes_or_nil (BlobContent obj))))))"

definition ws_Exists :: "hash_funs \<Rightarrow> objstore \<Rightarrow> workspace \<Rightarrow> string \<Rightarrow> bool" where
  "ws_Exists h s ws path = (case ws_Read h s ws path of Inl _ \<Rightarrow> False | Inr _ \<Rightarrow> True)"

definition ws_Write :: "workspace \<Rightarrow> string \<Rightarrow> byte list \<Rightarrow> goerr option \<times> workspace" where
  "ws_Write ws path c =
     (if \<not> inScope path (ws_writes ws) then (Some (Sentinel TxnOutOfScope (''write '' @ path)), ws)
      else (None, ws\<lparr>ws_pending :=
        AList.update path \<lparr>pw_content = c, pw_mode = modeFile, pw_del = False\<rparr> (ws_pending ws)\<rparr>))"

definition ws_Remove :: "workspace \<Rightarrow> string \<Rightarrow> goerr option \<times> workspace" where
  "ws_Remove ws path =
     (if \<not> inScope path (ws_writes ws) then (Some (Sentinel TxnOutOfScope (''remove '' @ path)), ws)
      else (None, ws\<lparr>ws_pending :=
        AList.update path \<lparr>pw_content = [], pw_mode = 0, pw_del = True\<rparr> (ws_pending ws)\<rparr>))"

definition ws_List :: "workspace \<Rightarrow> string list" where
  "ws_List ws =
     (let set0 = filter (ws_readable ws) (map fst (ws_base ws))
      in sort (remdups (foldl (\<lambda>set (p, w).
           if \<not> ws_readable ws p then set
           else if pw_del w then removeAll p set
           else p # set) set0 (ws_pending ws))))"

text \<open>The loop of \<^verbatim>\<open>finalize\<close>; storing a blob and making its file entry is \<^verbatim>\<open>putBlob\<close>.\<close>

fun finalize_writes :: "hash_funs \<Rightarrow> objstore \<Rightarrow> files \<Rightarrow> (string \<times> pending_write) list \<Rightarrow> (goerr + files) \<times> objstore" where
  "finalize_writes h s files [] = (Inr files, s)"
| "finalize_writes h s files ((p, w) # rest) =
     (if pw_del w then finalize_writes h s (AList.delete p files) rest
      else (case putBlob h s (pw_content w) (pw_mode w) of
              (Inl e, s) \<Rightarrow> (Inl e, s)
            | (Inr fe, s) \<Rightarrow> finalize_writes h s (AList.update p fe files) rest))"

definition finalize :: "hash_funs \<Rightarrow> objstore \<Rightarrow> workspace \<Rightarrow> (goerr + multihash) \<times> objstore" where
  "finalize h s ws =
     (case finalize_writes h s (ws_base ws) (ws_pending ws) of
        (Inl e, s) \<Rightarrow> (Inl e, s)
      | (Inr files, s) \<Rightarrow> buildTree h s files)"

definition mutated :: "workspace \<Rightarrow> bool" where
  "mutated ws = (length (ws_pending ws) > 0)"

definition Written :: "workspace \<Rightarrow> string list" where
  "Written ws = sort (map fst (ws_pending ws))"

section \<open>Apply\<close>

datatype prog =
    Return "goerr option"
  | DoRead string "goerr + byte list \<Rightarrow> prog"
  | DoExists string "bool \<Rightarrow> prog"
  | DoWrite string "byte list" "goerr option \<Rightarrow> prog"
  | DoRemove string "goerr option \<Rightarrow> prog"
  | DoList "string list \<Rightarrow> prog"

primrec run_prog :: "hash_funs \<Rightarrow> objstore \<Rightarrow> prog \<Rightarrow> workspace \<Rightarrow> goerr option \<times> workspace" where
  "run_prog h s (Return r) = (\<lambda>ws. (r, ws))"
| "run_prog h s (DoRead p k) = (\<lambda>ws. run_prog h s (k (ws_Read h s ws p)) ws)"
| "run_prog h s (DoExists p k) = (\<lambda>ws. run_prog h s (k (ws_Exists h s ws p)) ws)"
| "run_prog h s (DoWrite p c k) = (\<lambda>ws. run_prog h s (k (fst (ws_Write ws p c))) (snd (ws_Write ws p c)))"
| "run_prog h s (DoRemove p k) = (\<lambda>ws. run_prog h s (k (fst (ws_Remove ws p))) (snd (ws_Remove ws p)))"
| "run_prog h s (DoList k) = (\<lambda>ws. run_prog h s (k (ws_List ws)) ws)"

section \<open>Attempts\<close>

definition currentTip :: "refstate \<Rightarrow> string \<Rightarrow> goerr + multihash option" where
  "currentTip rs ref =
     (case Resolve rs ref of
        Inl e \<Rightarrow> if is_err RefNotExist e then Inr None else Inl e
      | Inr tip \<Rightarrow> Inr (Some tip))"

definition txn_change :: "string \<Rightarrow> multihash \<Rightarrow> multihash option \<Rightarrow> change" where
  "txn_change name newTree base =
     \<lparr>c_tree = Some newTree, c_parents = (case base of None \<Rightarrow> [] | Some b \<Rightarrow> [b]), c_message = name,
      c_timestamp = 0, c_author = name, c_provenance = None, c_artifacts = [], c_fulfills = None\<rparr>"

definition maxAttempts :: nat where "maxAttempts = 100"

definition ctxErr :: goerr where "ctxErr = Plain ''context canceled''"

definition first_result :: "string \<Rightarrow> txn_result" where
  "first_result name = \<lparr>res_Name = name, res_Change = None, res_Attempts = 0, res_NoOp = False,
     res_Writes = [], res_Err = None\<rparr>"

text \<open>What one attempt comes to: a result, or the compare-and-swap was lost.\<close>

datatype attempt_end = Ended txn_result repo | Lost txn_result repo

definition attempt :: "nat \<Rightarrow> hash_funs \<Rightarrow> (nat \<Rightarrow> i64) \<Rightarrow> (nat \<Rightarrow> repo \<Rightarrow> repo) \<Rightarrow> string \<Rightarrow> claim
    \<Rightarrow> prog txn \<Rightarrow> txn_result \<Rightarrow> repo \<Rightarrow> attempt_end" where
  "attempt stk h clock other ref c t res r =
     (let n = res_Attempts res;
          failed = (\<lambda>e res r. Ended (res\<lparr>res_Err := Some e\<rparr>) r) in
      case rbind (currentTip (r_refs r) ref) (\<lambda>base.
           rbind (treeOf h (r_objects r) base) (\<lambda>baseTree.
           rbind (flatten stk h (r_objects r) baseTree) (\<lambda>flat. Inr (base, flat)))) of
        Inl e \<Rightarrow> failed e res r
      | Inr (base, flat) \<Rightarrow>
     (case run_prog h (r_objects r) (tx_Apply t) (newWorkspace flat (cl_reads c) (cl_writes c)) of
        (Some e, ws) \<Rightarrow> failed e res r
      | (None, ws) \<Rightarrow>
          if \<not> mutated ws then Ended (res\<lparr>res_NoOp := True\<rparr>) r
          else let res = res\<lparr>res_Writes := Written ws\<rparr> in
     (case finalize h (r_objects r) ws of
        (Inl e, s) \<Rightarrow> failed e res (r\<lparr>r_objects := s\<rparr>)
      | (Inr newTree, s) \<Rightarrow>
     (case NewChange (txn_change (tx_Name t) newTree base) of
        Inl e \<Rightarrow> failed e res (r\<lparr>r_objects := s\<rparr>)
      | Inr change \<Rightarrow>
     (case Put h s change of
        (Inl e, s) \<Rightarrow> failed e res (r\<lparr>r_objects := s\<rparr>)
      | (Inr id', s) \<Rightarrow>
          let r = other (2 * n) (r\<lparr>r_objects := s\<rparr>) in
     (case CompareAndSwap (r_refs r) (clock n) ref base (Some id') (tx_Name t) ''txn'' of
        (Inr _, rs) \<Rightarrow> Ended (res\<lparr>res_Change := Some id'\<rparr>) (r\<lparr>r_refs := rs\<rparr>)
      | (Inl e, rs) \<Rightarrow>
          if \<not> is_err RefConflict e then failed e res (r\<lparr>r_refs := rs\<rparr>)
          else Lost res (r\<lparr>r_refs := rs\<rparr>)))))))"

text \<open>\<^verbatim>\<open>left\<close> counts the attempts left; \<^verbatim>\<open>ctx\<close> is asked before an attempt and after a lost one.\<close>

fun attempts :: "nat \<Rightarrow> nat \<Rightarrow> hash_funs \<Rightarrow> (nat \<Rightarrow> bool) \<Rightarrow> (nat \<Rightarrow> i64) \<Rightarrow> (nat \<Rightarrow> repo \<Rightarrow> repo) \<Rightarrow> string \<Rightarrow> claim
    \<Rightarrow> prog txn \<Rightarrow> txn_result \<Rightarrow> repo \<Rightarrow> txn_result \<times> repo" where
  "attempts 0 stk h ctx clock other ref c t res r =
     (res\<lparr>res_Err := Some (Plain (''txn: exceeded attempts''))\<rparr>, r)"
| "attempts (Suc left) stk h ctx clock other ref c t res r =
     (let res = res\<lparr>res_Attempts := res_Attempts res + 1\<rparr>; n = res_Attempts res in
      if ctx (2 * n) then (res\<lparr>res_Err := Some ctxErr\<rparr>, r)
      else case attempt stk h clock other ref c t res r of
             Ended res r \<Rightarrow> (res, r)
           | Lost res r \<Rightarrow>
               if ctx (2 * n + 1) then (res\<lparr>res_Err := Some ctxErr\<rparr>, r)
               else attempts left stk h ctx clock other ref c t res (other (2 * n + 1) r))"

text \<open>\<^verbatim>\<open>runOne\<close> after \<^verbatim>\<open>acquire\<close> has admitted the claim (see \<^verbatim>\<open>TxnRun\<close>).\<close>

definition runOne :: "nat \<Rightarrow> hash_funs \<Rightarrow> (nat \<Rightarrow> bool) \<Rightarrow> (nat \<Rightarrow> i64) \<Rightarrow> (nat \<Rightarrow> repo \<Rightarrow> repo) \<Rightarrow> string
    \<Rightarrow> prog txn \<Rightarrow> repo \<Rightarrow> txn_result \<times> repo" where
  "runOne stk h ctx clock other ref t r =
     attempts maxAttempts stk h ctx clock other ref
       \<lparr>cl_reads = normalize_paths (tx_Reads t), cl_writes = normalize_paths (tx_Writes t)\<rparr>
       t (first_result (tx_Name t)) r"

section \<open>Capabilities\<close>

definition scoped :: "workspace \<Rightarrow> bool" where
  "scoped ws \<longleftrightarrow> distinct (map fst (ws_pending ws)) \<and> (\<forall>p \<in> fst ` set (ws_pending ws). inScope p (ws_writes ws))"

lemma ws_Write_simps [simp]:
  "ws_base (snd (ws_Write ws p c)) = ws_base ws" "ws_reads (snd (ws_Write ws p c)) = ws_reads ws"
  "ws_writes (snd (ws_Write ws p c)) = ws_writes ws" "scoped ws \<Longrightarrow> scoped (snd (ws_Write ws p c))"
  by (auto simp: ws_Write_def scoped_def distinct_update dest!: set_update_subset [THEN subsetD])

lemma ws_Remove_simps [simp]:
  "ws_base (snd (ws_Remove ws p)) = ws_base ws" "ws_reads (snd (ws_Remove ws p)) = ws_reads ws"
  "ws_writes (snd (ws_Remove ws p)) = ws_writes ws" "scoped ws \<Longrightarrow> scoped (snd (ws_Remove ws p))"
  by (auto simp: ws_Remove_def scoped_def distinct_update dest!: set_update_subset [THEN subsetD])

lemma run_prog_scoped:
  "run_prog h s a ws = (r, ws') \<Longrightarrow> scoped ws \<Longrightarrow>
     scoped ws' \<and> ws_base ws' = ws_base ws \<and> ws_reads ws' = ws_reads ws \<and> ws_writes ws' = ws_writes ws"
proof (induction a arbitrary: ws)
  case (DoWrite p c k)
  then show ?case using ws_Write_simps [of ws p c] by (metis rangeI run_prog.simps(4))
next
  case (DoRemove p k)
  then show ?case using ws_Remove_simps [of ws p] by (metis rangeI run_prog.simps(5))
qed auto

text \<open>Two workspaces whose transactions cannot tell them apart.\<close>

definition file_at :: "hash_funs \<Rightarrow> objstore \<Rightarrow> files \<Rightarrow> string \<Rightarrow> (goerr + byte list) option" where
  "file_at h s files p =
     map_option (\<lambda>fe. rbind (Get h s (fe_id fe)) (\<lambda>obj. Inr (bytes_or_nil (BlobContent obj)))) (map_of files p)"

definition same_view :: "hash_funs \<Rightarrow> objstore \<Rightarrow> workspace \<Rightarrow> objstore \<Rightarrow> workspace \<Rightarrow> bool" where
  "same_view h s ws s' ws' \<longleftrightarrow>
     ws_reads ws = ws_reads ws' \<and> ws_writes ws = ws_writes ws' \<and> ws_pending ws = ws_pending ws' \<and>
     (\<forall>p. ws_readable ws p \<longrightarrow> file_at h s (ws_base ws) p = file_at h s' (ws_base ws') p)"

lemma ws_Read_file_at: "ws_Read h s ws p =
    (if \<not> ws_readable ws p then Inl (Sentinel TxnOutOfScope (''read '' @ p))
     else (case map_of (ws_pending ws) p of
             Some w \<Rightarrow> if pw_del w then Inl (Sentinel TxnNotExist []) else Inr (pw_content w)
           | None \<Rightarrow> (case file_at h s (ws_base ws) p of None \<Rightarrow> Inl (Sentinel TxnNotExist []) | Some x \<Rightarrow> x)))"
  by (simp add: ws_Read_def file_at_def split: option.split)

lemma sort_remdups_cong: "set xs = set ys \<Longrightarrow> sort (remdups xs) = sort (remdups (ys :: 'a::linorder list))"
  by (metis sorted_list_of_set_sort_remdups)

lemma same_view_answers:
  assumes "same_view h s ws s' ws'"
  shows "ws_Read h s ws p = ws_Read h s' ws' p" and "ws_Exists h s ws p = ws_Exists h s' ws' p"
    and "ws_List ws = ws_List ws'"
    and "fst (ws_Write ws p c) = fst (ws_Write ws' p c)" "same_view h s (snd (ws_Write ws p c)) s' (snd (ws_Write ws' p c))"
    and "fst (ws_Remove ws p) = fst (ws_Remove ws' p)" "same_view h s (snd (ws_Remove ws p)) s' (snd (ws_Remove ws' p))"
proof -
  have rd: "ws_readable ws' = ws_readable ws" using assms by (simp add: same_view_def ws_readable_def fun_eq_iff)
  show r: "ws_Read h s ws p = ws_Read h s' ws' p"
    using assms rd by (simp add: ws_Read_file_at same_view_def split: option.split)
  then show "ws_Exists h s ws p = ws_Exists h s' ws' p" by (simp add: ws_Exists_def)
  show "fst (ws_Write ws p c) = fst (ws_Write ws' p c)" "fst (ws_Remove ws p) = fst (ws_Remove ws' p)"
    "same_view h s (snd (ws_Write ws p c)) s' (snd (ws_Write ws' p c))"
    "same_view h s (snd (ws_Remove ws p)) s' (snd (ws_Remove ws' p))"
    using assms by (auto simp: ws_Write_def ws_Remove_def same_view_def ws_readable_def)
  let ?f = "\<lambda>set (p, w). if \<not> ws_readable ws p then set else if pw_del w then removeAll p set else p # set"
  have "set (foldl ?f a pd) = set (foldl ?f b pd)" if "set a = set b" for a b :: "string list" and pd
    using that by (induction pd arbitrary: a b) (auto split: prod.splits)
  moreover have at: "q \<in> set (map fst files) \<longleftrightarrow> file_at h t files q \<noteq> None" for q t files
    by (simp add: file_at_def flip: dom_map_of_conv_image_fst) blast
  have "q \<in> set (map fst (ws_base ws)) \<longleftrightarrow> q \<in> set (map fst (ws_base ws'))" if "ws_readable ws q" for q
    using assms that unfolding same_view_def at [of q "ws_base ws" s] at [of q "ws_base ws'" s'] by simp
  then have "set (filter (ws_readable ws) (map fst (ws_base ws))) = set (filter (ws_readable ws) (map fst (ws_base ws')))"
    unfolding set_filter by blast
  ultimately have "set (foldl ?f (filter (ws_readable ws) (map fst (ws_base ws))) (ws_pending ws)) =
      set (foldl ?f (filter (ws_readable ws) (map fst (ws_base ws'))) (ws_pending ws))" by blast
  from sort_remdups_cong [OF this] show "ws_List ws = ws_List ws'"
    using assms unfolding ws_List_def Let_def rd by (simp add: same_view_def)
qed

lemma run_prog_view:
  "same_view h s ws s' ws' \<Longrightarrow>
     fst (run_prog h s a ws) = fst (run_prog h s' a ws') \<and>
     same_view h s (snd (run_prog h s a ws)) s' (snd (run_prog h s' a ws'))"
proof (induction a arbitrary: ws ws')
  case (DoRead p k)
  show ?case using DoRead.IH [OF rangeI DoRead.prems] same_view_answers(1) [OF DoRead.prems, of p] by simp
next
  case (DoExists p k)
  show ?case using DoExists.IH [OF rangeI DoExists.prems] same_view_answers(2) [OF DoExists.prems, of p] by simp
next
  case (DoWrite p c k)
  note v = same_view_answers(4,5) [OF DoWrite.prems, of p c]
  show ?case using DoWrite.IH [OF rangeI v(2)] v(1) by simp
next
  case (DoRemove p k)
  note v = same_view_answers(6,7) [OF DoRemove.prems, of p]
  show ?case using DoRemove.IH [OF rangeI v(2)] v(1) by simp
next
  case (DoList k)
  show ?case using DoList.IH [OF rangeI DoList.prems] same_view_answers(3) [OF DoList.prems] by simp
qed simp

section \<open>Commits\<close>

definition written_file :: "hash_funs \<Rightarrow> code \<Rightarrow> pending_write \<Rightarrow> file_ent option \<Rightarrow> bool" where
  "written_file h algo w fe \<longleftrightarrow>
     (if pw_del w then fe = None
      else \<exists>i. Sum h algo (Encode (blob_obj (pw_content w))) = Inr i \<and> fe = Some \<lparr>fe_id = i, fe_mode = pw_mode w\<rparr>)"

definition edited :: "hash_funs \<Rightarrow> code \<Rightarrow> pending_write option \<Rightarrow> file_ent option \<Rightarrow> file_ent option \<Rightarrow> bool" where
  "edited h algo pw old new = (case pw of None \<Rightarrow> new = old | Some w \<Rightarrow> written_file h algo w new)"

lemma finalize_writes_ok:
  assumes "wf_hashes h" "store_ok h s" "distinct (map fst files)" "distinct (map fst pd)"
    "finalize_writes h s files pd = (Inr files', s')"
  shows "grown h s s' \<and> distinct (map fst files') \<and>
    (\<forall>q. edited h (os_algo s) (map_of pd q) (map_of files q) (map_of files' q))"
  using assms(2-)
proof (induction pd arbitrary: s files)
  case Nil
  then show ?case by (simp add: grown_refl edited_def)
next
  case (Cons pw pd)
  obtain p w where pw: "pw = (p, w)" by (cases pw)
  have none: "map_of pd p = None" and pd: "distinct (map fst pd)"
    using Cons.prems(3) pw by (auto simp: map_of_eq_None_iff)
  have step: "edited h (os_algo s) (map_of (pw # pd) q) (map_of files q) new"
    if "edited h (os_algo s) (map_of pd q) (if q = p then fe else map_of files q) new"
      "written_file h (os_algo s) w fe" for q fe new
    using that none pw by (cases "q = p") (simp_all add: edited_def)
  show ?case
  proof (cases "pw_del w")
    case True
    have d: "distinct (map fst (AList.delete p files))" using Cons.prems(2) by (rule distinct_delete)
    have e: "finalize_writes h s (AList.delete p files) pd = (Inr files', s')" using Cons.prems(4) pw True by simp
    have "map_of (AList.delete p files) q = (if q = p then None else map_of files q)" for q
      by (simp add: delete_conv')
    with Cons.IH [OF Cons.prems(1) d pd e] step [where fe = None] True show ?thesis
      by (simp add: written_file_def)
  next
    case False
    then obtain fe s1 where b: "putBlob h s (pw_content w) (pw_mode w) = (Inr fe, s1)"
        "finalize_writes h s1 (AList.update p fe files) pd = (Inr files', s')"
      using Cons.prems(4) pw by (auto split: prod.splits sum.splits)
    note pb = putBlob_ok [OF assms(1) Cons.prems(1) b(1)]
    have ok: "store_ok h s1" and alg: "os_algo s1 = os_algo s" using pb(1) by (auto simp: grown_def)
    have d: "distinct (map fst (AList.update p fe files))" using Cons.prems(2) by (rule distinct_update)
    have w: "written_file h (os_algo s) w (Some fe)" using pb(2,3) False by (cases fe) (auto simp: written_file_def)
    have "map_of (AList.update p fe files) q = (if q = p then Some fe else map_of files q)" for q
      by (simp add: update_conv')
    with Cons.IH [OF ok d pd b(2)] step [OF _ w] alg grown_trans [OF pb(1)] show ?thesis by simp
  qed
qed

text \<open>A compare-and-swap that succeeds moves the ref from the expected value to the new one.\<close>

lemma appendLog_refs: "appendLog s now n old new actor msg = (r, s') \<Longrightarrow> rs_refs s' = rs_refs s"
  by (auto simp: appendLog_def Let_def split: sum.splits)

lemma swap_refs:
  assumes "refs_ok rs" "CompareAndSwap rs now ref old new actor msg = (Inr (), rs')"
  shows "current rs ref = old \<and> current rs' ref = new"
proof -
  let ?c = "\<lparr>co_name = ref, co_old = old, co_new = new, co_now = now, co_actor = actor, co_msg = msg\<rparr>"
  have "cas rs ?c = (Inr (), rs')" using assms(2) by (simp add: cas_def)
  then obtain s1 where o: "current rs ref = old" "moved rs ref new = Inr s1"
      "appendLog s1 now ref old new actor msg = (Inr (), rs')"
    by (rule cas_cases) auto
  have "current rs' ref = current s1 ref" using appendLog_refs [OF o(3)] by (simp add: current_def readRef_def)
  with moved_ok(2) [OF assms(1) o(2)] o(1) show ?thesis by simp
qed

lemma foldl_rbind_invariant:
  assumes "foldl (\<lambda>r e. rbind r (f e)) r es = Inr y"
    and "\<And>e x y. e \<in> set es \<Longrightarrow> P x \<Longrightarrow> f e x = Inr y \<Longrightarrow> P y"
    and "\<And>x. r = Inr x \<Longrightarrow> P x"
  shows "P y"
  using assms
proof (induction es arbitrary: r)
  case (Cons e es)
  show ?case
  proof (rule Cons.IH)
    show "foldl (\<lambda>r e. rbind r (f e)) (rbind r (f e)) es = Inr y" using Cons.prems(1) by simp
    show "\<And>d x y. d \<in> set es \<Longrightarrow> P x \<Longrightarrow> f d x = Inr y \<Longrightarrow> P y" using Cons.prems(2) by auto
    show "P x" if "rbind r (f e) = Inr x" for x
      using that Cons.prems(2) [of e] Cons.prems(3) by (auto simp: rbind_eq_Inr)
  qed
qed simp

lemma flattenInto_distinct:
  "flattenInto stk h s i prefix out = Inr out' \<Longrightarrow> distinct (map fst out) \<Longrightarrow> distinct (map fst out')"
proof (induction stk arbitrary: i prefix out out')
  case (Suc stk)
  then obtain obj es where es: "Get h s i = Inr obj" "TreeEntries obj = Inr es" by (auto simp: rbind_eq_Inr)
  let ?f = "\<lambda>e out. let p = entry_path prefix (ename e) in
      if ekind e = TypeTree then flattenInto stk h s (eid e) p out
      else Inr (AList.update p \<lparr>fe_id = eid e, fe_mode = emode e\<rparr> out)"
  have "foldl (\<lambda>r e. rbind r (?f e)) (Inr out) es = Inr out'" using Suc.prems(1) es by simp
  then show ?case
  proof (rule foldl_rbind_invariant)
    show "distinct (map fst y)" if "distinct (map fst x)" "?f e x = Inr y" for e x y
      using that Suc.IH by (auto simp: Let_def distinct_update split: if_splits)
  qed (use Suc.prems(2) in simp)
qed simp

lemma flatten_distinct: "flatten stk h s i = Inr out \<Longrightarrow> distinct (map fst out)"
  by (auto simp: flatten_def dest: flattenInto_distinct split: option.splits)

definition repo_ok :: "hash_funs \<Rightarrow> repo \<Rightarrow> bool" where
  "repo_ok h r \<longleftrightarrow> store_ok h (r_objects r) \<and> refs_ok (r_refs r)"

text \<open>What others do keeps the repository consistent and loses no object.\<close>

definition others_ok :: "hash_funs \<Rightarrow> (nat \<Rightarrow> repo \<Rightarrow> repo) \<Rightarrow> bool" where
  "others_ok h other \<longleftrightarrow> (\<forall>k r. repo_ok h r \<longrightarrow> repo_ok h (other k r) \<and> grown h (r_objects r) (r_objects (other k r)))"

text \<open>The change \<^verbatim>\<open>id\<close> is transaction \<^verbatim>\<open>t\<close> applied to the change \<^verbatim>\<open>base\<close>, as the store \<^verbatim>\<open>s\<close> has it.\<close>

definition applied :: "nat \<Rightarrow> hash_funs \<Rightarrow> objstore \<Rightarrow> claim \<Rightarrow> prog txn \<Rightarrow> multihash option \<Rightarrow> multihash \<Rightarrow> string list \<Rightarrow> bool" where
  "applied stk h s c t base id' written \<longleftrightarrow> (\<exists>flat ws files tree bs.
     rbind (treeOf h s base) (flatten stk h s) = Inr flat \<and>
     run_prog h s (tx_Apply t) (newWorkspace flat (cl_reads c) (cl_writes c)) = (None, ws) \<and>
     (\<forall>p. edited h (os_algo s) (map_of (ws_pending ws) p) (map_of flat p) (map_of files p)) \<and>
     (\<forall>p. \<not> inScope p (cl_writes c) \<longrightarrow> map_of files p = map_of flat p) \<and>
     tree_of h (os_algo s) files = Inr (tree, bs) \<and>
     Sum h (os_algo s) (Encode (change_obj (txn_change (tx_Name t) tree base))) = Inr id' \<and>
     written = Written ws \<and> (\<forall>p \<in> set written. inScope p (cl_writes c)))"

lemma finalize_applied:
  assumes wf: "wf_hashes h" and ok: "store_ok h s" and f: "rbind (treeOf h s base) (flatten stk h s) = Inr flat"
    and a: "run_prog h s (tx_Apply t) (newWorkspace flat (cl_reads c) (cl_writes c)) = (None, ws)"
    and fin: "finalize h s ws = (Inr tree, s1)"
    and p: "Put h s1 (change_obj (txn_change (tx_Name t) tree base)) = (Inr id', s2)"
  shows "applied stk h s c t base id' (Written ws) \<and> grown h s s2"
proof -
  have sc: "scoped ws" "ws_base ws = flat" "ws_writes ws = cl_writes c"
    using run_prog_scoped [OF a] by (auto simp: newWorkspace_def scoped_def)
  obtain files s0 where fw: "finalize_writes h s flat (ws_pending ws) = (Inr files, s0)" "buildTree h s0 files = (Inr tree, s1)"
    using fin sc(2) by (auto simp: finalize_def split: prod.splits sum.splits)
  have d: "distinct (map fst flat)" using f flatten_distinct by (auto simp: rbind_eq_Inr)
  have d2: "distinct (map fst (ws_pending ws))" using sc(1) by (simp add: scoped_def)
  note w = finalize_writes_ok [OF wf ok d d2 fw(1)]
  have s0: "store_ok h s0" "os_algo s0 = os_algo s" using w by (auto simp: grown_def)
  obtain bs where t: "tree_of h (os_algo s) files = Inr (tree, bs)" "s1 = put_raws h s0 bs"
    using build_tree_of(1) [OF wf, of s0 files] fw(2) s0(2) by (auto split: sum.splits)
  have s1: "store_ok h s1" "os_algo s1 = os_algo s" "grown h s0 s1"
    using grown_build [OF wf s0(1) fw(2)] s0(2) by (auto simp: grown_def)
  have id': "Sum h (os_algo s) (Encode (change_obj (txn_change (tx_Name t) tree base))) = Inr id'"
    using fst_PutRaw [OF wf, of s1] p s1(2) by (simp add: Put_def) (metis fst_conv)
  have out: "map_of files q = map_of flat q" if "\<not> inScope q (cl_writes c)" for q
  proof -
    have "map_of (ws_pending ws) q = None"
      using sc that by (auto simp: scoped_def map_of_eq_None_iff)
    moreover have "edited h (os_algo s) (map_of (ws_pending ws) q) (map_of flat q) (map_of files q)" using w by blast
    ultimately show ?thesis by (simp add: edited_def)
  qed
  have "\<forall>q \<in> set (Written ws). inScope q (cl_writes c)"
    using sc by (auto simp: Written_def scoped_def)
  then have "applied stk h s c t base id' (Written ws)"
    unfolding applied_def using f a w t(1) id' out by blast
  moreover have "grown h s s2"
    using w s1(3) grown_Put [OF wf s1(1) p] grown_trans by blast
  ultimately show ?thesis by simp
qed

text \<open>An attempt that gets as far as the compare-and-swap, and does not fail there otherwise.\<close>

fun swapped :: "attempt_end \<Rightarrow> bool" where
  "swapped (Ended res r) = (res_Change res \<noteq> None)"
| "swapped (Lost res r) = True"

lemma attempt_swaps:
  assumes wf: "wf_hashes h" and ok: "repo_ok h r" and other: "others_ok h other"
    and e: "swapped (attempt stk h clock other ref c t res r)" "res_Change res = None"
  obtains base ws r2 j x rs where
    "applied stk h (r_objects r) c t base j (Written ws)" "grown h (r_objects r) (r_objects r2)" "repo_ok h r2"
    "CompareAndSwap (r_refs r2) (clock (res_Attempts res)) ref base (Some j) (tx_Name t) ''txn'' = (x, rs)"
    "case x of
       Inr _ \<Rightarrow> attempt stk h clock other ref c t res r =
         Ended (res\<lparr>res_Writes := Written ws, res_Change := Some j\<rparr>) (r2\<lparr>r_refs := rs\<rparr>)
     | Inl e \<Rightarrow> is_err RefConflict e \<and> attempt stk h clock other ref c t res r =
         Lost (res\<lparr>res_Writes := Written ws\<rparr>) (r2\<lparr>r_refs := rs\<rparr>)"
proof -
  let ?n = "res_Attempts res"
  obtain base flat where b: "rbind (treeOf h (r_objects r) base) (flatten stk h (r_objects r)) = Inr flat"
      "rbind (currentTip (r_refs r) ref) (\<lambda>base. rbind (treeOf h (r_objects r) base) (\<lambda>baseTree.
         rbind (flatten stk h (r_objects r) baseTree) (\<lambda>flat. Inr (base, flat)))) = Inr (base, flat)"
    using e by (auto simp: attempt_def Let_def rbind_eq_Inr split: sum.splits)
  obtain ws where a: "run_prog h (r_objects r) (tx_Apply t) (newWorkspace flat (cl_reads c) (cl_writes c)) = (None, ws)"
      "mutated ws"
    using e by (cases "run_prog h (r_objects r) (tx_Apply t) (newWorkspace flat (cl_reads c) (cl_writes c))")
      (auto simp: attempt_def Let_def b(2) split: option.splits if_splits)
  obtain tree s1 where fin: "finalize h (r_objects r) ws = (Inr tree, s1)"
    using e a by (cases "finalize h (r_objects r) ws") (auto simp: attempt_def Let_def b(2) split: sum.splits)
  obtain j s2 where p: "Put h s1 (change_obj (txn_change (tx_Name t) tree base)) = (Inr j, s2)"
    using e a fin by (cases "Put h s1 (change_obj (txn_change (tx_Name t) tree base))")
      (auto simp: attempt_def Let_def b(2) NewChange_eq split: sum.splits)
  have so: "store_ok h (r_objects r)" using ok by (simp add: repo_ok_def)
  note ap = finalize_applied [OF wf so b(1) a(1) fin p]
  define r1 where "r1 = r\<lparr>r_objects := s2\<rparr>"
  define r2 where "r2 = other (2 * ?n) r1"
  have "repo_ok h r1" using ok ap by (simp add: repo_ok_def grown_def r1_def)
  then have r2: "repo_ok h r2" "grown h (r_objects r1) (r_objects r2)"
    using other unfolding others_ok_def r2_def by blast+
  then have g: "grown h (r_objects r) (r_objects r2)"
    using grown_trans [OF conjunct2 [OF ap]] by (simp add: r1_def)
  obtain x rs where cs: "CompareAndSwap (r_refs r2) (clock ?n) ref base (Some j) (tx_Name t) ''txn'' = (x, rs)"
    by fastforce
  have "case x of
       Inr _ \<Rightarrow> attempt stk h clock other ref c t res r =
         Ended (res\<lparr>res_Writes := Written ws, res_Change := Some j\<rparr>) (r2\<lparr>r_refs := rs\<rparr>)
     | Inl e \<Rightarrow> is_err RefConflict e \<and> attempt stk h clock other ref c t res r =
         Lost (res\<lparr>res_Writes := Written ws\<rparr>) (r2\<lparr>r_refs := rs\<rparr>)"
    using e a fin p cs unfolding r2_def r1_def
    by (auto simp: attempt_def Let_def b(2) NewChange_eq split: sum.splits if_splits)
  with that ap g r2(1) cs show ?thesis by blast
qed

lemma attempt_commits:
  assumes "wf_hashes h" "repo_ok h r" "others_ok h other"
    and e: "attempt stk h clock other ref c t res r = Ended res' r'" "res_Change res = None" "res_Change res' = Some id'"
  shows "\<exists>s rs base now. applied stk h s c t base id' (res_Writes res') \<and> grown h s (r_objects r') \<and>
    CompareAndSwap rs now ref base (Some id') (tx_Name t) ''txn'' = (Inr (), r_refs r') \<and>
    current rs ref = base \<and> current (r_refs r') ref = Some id' \<and> res_Err res' = res_Err res"
proof -
  have "swapped (attempt stk h clock other ref c t res r)" using e by simp
  from attempt_swaps [OF assms(1-3) this e(2)] obtain base ws r2 j x rs where
    a: "applied stk h (r_objects r) c t base j (Written ws)" "grown h (r_objects r) (r_objects r2)" "repo_ok h r2"
    and cs: "CompareAndSwap (r_refs r2) (clock (res_Attempts res)) ref base (Some j) (tx_Name t) ''txn'' = (x, rs)"
    and x: "case x of
       Inr _ \<Rightarrow> attempt stk h clock other ref c t res r =
         Ended (res\<lparr>res_Writes := Written ws, res_Change := Some j\<rparr>) (r2\<lparr>r_refs := rs\<rparr>)
     | Inl e \<Rightarrow> is_err RefConflict e \<and> attempt stk h clock other ref c t res r =
         Lost (res\<lparr>res_Writes := Written ws\<rparr>) (r2\<lparr>r_refs := rs\<rparr>)" .
  from x e(1,3) have r': "x = Inr ()" "res' = res\<lparr>res_Writes := Written ws, res_Change := Some id'\<rparr>" "j = id'"
      "r' = r2\<lparr>r_refs := rs\<rparr>"
    by (auto split: sum.splits)
  have "current (r_refs r2) ref = base \<and> current rs ref = Some id'"
    using swap_refs [of "r_refs r2"] cs a(3) r' by (simp add: repo_ok_def)
  with a cs r' show ?thesis by auto
qed

lemma attempt_lost:
  assumes "wf_hashes h" "repo_ok h r" "others_ok h other" "res_Change res = None"
    and e: "attempt stk h clock other ref c t res r = Lost res' r'"
  shows "repo_ok h r' \<and> (\<exists>ws. res' = res\<lparr>res_Writes := ws\<rparr>)"
proof -
  have "swapped (attempt stk h clock other ref c t res r)" using e by simp
  from attempt_swaps [OF assms(1-3) this assms(4)] obtain base ws r2 j x rs where
    a: "repo_ok h r2"
    and cs: "CompareAndSwap (r_refs r2) (clock (res_Attempts res)) ref base (Some j) (tx_Name t) ''txn'' = (x, rs)"
    and x: "case x of
       Inr _ \<Rightarrow> attempt stk h clock other ref c t res r =
         Ended (res\<lparr>res_Writes := Written ws, res_Change := Some j\<rparr>) (r2\<lparr>r_refs := rs\<rparr>)
     | Inl e \<Rightarrow> is_err RefConflict e \<and> attempt stk h clock other ref c t res r =
         Lost (res\<lparr>res_Writes := Written ws\<rparr>) (r2\<lparr>r_refs := rs\<rparr>)" .
  from x e obtain y where y: "x = Inl y" "is_err RefConflict y" "res' = res\<lparr>res_Writes := Written ws\<rparr>"
      "r' = r2\<lparr>r_refs := rs\<rparr>"
    by (auto split: sum.splits)
  let ?c = "\<lparr>co_name = ref, co_old = base, co_new = Some j, co_now = clock (res_Attempts res),
     co_actor = tx_Name t, co_msg = ''txn''\<rparr>"
  have "rs = r_refs r2" using cas_conflict(1) [of "r_refs r2" ?c y rs] cs y by (simp add: cas_def)
  with a y show ?thesis by auto
qed

lemma attempts_commit:
  assumes "wf_hashes h" "others_ok h other" "repo_ok h r" "res_Change res = None" "res_Err res = None"
    and "attempts left stk h ctx clock other ref c t res r = (res', r')" "res_Change res' = Some id'"
  shows "\<exists>s rs base now. applied stk h s c t base id' (res_Writes res') \<and> grown h s (r_objects r') \<and>
    CompareAndSwap rs now ref base (Some id') (tx_Name t) ''txn'' = (Inr (), r_refs r') \<and>
    current rs ref = base \<and> current (r_refs r') ref = Some id' \<and> res_Err res' = None"
  using assms(3-)
proof (induction left arbitrary: res r)
  case 0
  then have r: "res' = res\<lparr>res_Err := Some (Plain (''txn: exceeded attempts''))\<rparr>" by simp
  show ?case using 0 unfolding r by simp
next
  case (Suc left)
  let ?res = "res\<lparr>res_Attempts := res_Attempts res + 1\<rparr>"
  have c: "res_Change ?res = None" and "res_Err ?res = None" using Suc.prems by simp_all
  from Suc.prems have nc: "\<not> ctx (2 * res_Attempts ?res)" by (auto simp: Let_def split: if_splits)
  show ?case
  proof (cases "attempt stk h clock other ref c t ?res r")
    case (Ended res1 r1)
    then have "res1 = res'" "r1 = r'" using Suc.prems(4) nc by (auto simp: Let_def)
    with attempt_commits [OF assms(1) Suc.prems(1) assms(2)] Ended c Suc.prems(3,5) show ?thesis by fastforce
  next
    case (Lost res1 r1)
    note l = attempt_lost [OF assms(1) Suc.prems(1) assms(2) c Lost]
    then have c1: "res_Change res1 = None" "res_Err res1 = None" using Suc.prems by auto
    moreover have "repo_ok h (other k r1)" for k using l assms(2) by (auto simp: others_ok_def)
    moreover from Suc.prems Lost nc have
      "attempts left stk h ctx clock other ref c t res1 (other (2 * res_Attempts ?res + 1) r1) = (res', r')"
      using c1 by (auto simp: Let_def split: if_splits)
    ultimately show ?thesis using Suc.IH Suc.prems(5) by blast
  qed
qed

lemma attempts_shape:
  assumes "attempts left stk h ctx clock other ref c t res r = (res', r')"
    and "res_Change res = None" "\<not> res_NoOp res" "res_Err res = None"
  shows "res_Attempts res' \<le> res_Attempts res + left \<and> (0 < left \<longrightarrow> res_Attempts res < res_Attempts res') \<and>
    (if res_Change res' \<noteq> None then \<not> res_NoOp res' \<and> res_Err res' = None else res_NoOp res' = (res_Err res' = None))"
  using assms
proof (induction left arbitrary: res r)
  case 0
  then have r: "res' = res\<lparr>res_Err := Some (Plain (''txn: exceeded attempts''))\<rparr>" by simp
  show ?case using 0 unfolding r by simp
next
  case (Suc left)
  let ?res = "res\<lparr>res_Attempts := res_Attempts res + 1\<rparr>"
  have ended: "res_Attempts x = res_Attempts ?res \<and>
      (if res_Change x \<noteq> None then \<not> res_NoOp x \<and> res_Err x = None else res_NoOp x = (res_Err x = None))"
    if "attempt stk h clock other ref c t ?res r = Ended x y" for x y
    using that Suc.prems(2-)
    by (auto simp: attempt_def Let_def split: sum.splits prod.splits option.splits if_splits)
  have lost: "res_Attempts x = res_Attempts ?res \<and> res_Change x = None \<and> \<not> res_NoOp x \<and> res_Err x = None"
    if "attempt stk h clock other ref c t ?res r = Lost x y" for x y
    using that Suc.prems(2-)
    by (auto simp: attempt_def Let_def split: sum.splits prod.splits option.splits if_splits)
  show ?case
  proof (cases "attempt stk h clock other ref c t ?res r")
    case (Ended x y)
    with ended [OF Ended] Suc.prems show ?thesis by (auto simp: Let_def split: if_splits)
  next
    case (Lost x y)
    with lost [OF Lost] Suc.prems Suc.IH [of x "other (2 * res_Attempts ?res + 1) y"] show ?thesis
      by (auto simp: Let_def split: if_splits)
  qed
qed

section \<open>Properties\<close>

text \<open>A transaction that adds a file to an empty repository.\<close>

definition add_prog :: prog where
  "add_prog = DoList (\<lambda>l. if l = [] then DoWrite ''a'' [1] Return else Return None)"

definition add_txn :: "prog txn" where
  "add_txn = \<lparr>tx_Name = ''t'', tx_Reads = [[]], tx_Writes = [''a''], tx_Apply = add_prog, tx_Priority = 0\<rparr>"

definition empty_repo :: "repo" where
  "empty_repo = \<lparr>r_objects = Open_store, r_refs = empty_refs\<rparr>"

text \<open>C38. A transaction is confined to its declared sets: whatever \<^verbatim>\<open>Apply\<close> does, its outcome and
  the writes it buffers are the same on any two workspaces that agree on the files the declared
  sets cover, every buffered path is in the write set, and the base is not changed.\<close>

theorem apply_confined:
  assumes "same_view h s ws s' ws'" "scoped ws"
  shows "fst (run_prog h s a ws) = fst (run_prog h s' a ws') \<and>
    ws_pending (snd (run_prog h s a ws)) = ws_pending (snd (run_prog h s' a ws')) \<and>
    (\<forall>p \<in> fst ` set (ws_pending (snd (run_prog h s a ws))). inScope p (ws_writes ws)) \<and>
    ws_base (snd (run_prog h s a ws)) = ws_base ws"
proof -
  obtain r ws1 where r: "run_prog h s a ws = (r, ws1)" by (cases "run_prog h s a ws")
  have "scoped ws1" "ws_writes ws1 = ws_writes ws" "ws_base ws1 = ws_base ws"
    using run_prog_scoped [OF r assms(2)] by auto
  then show ?thesis using run_prog_view [OF assms(1), of a] r unfolding scoped_def same_view_def by simp
qed

theorem apply_confined_witness:
  "fst (run_prog ends_hash Open_store add_prog (newWorkspace [] [''a''] [''a''])) =
   fst (run_prog ends_hash Open_store add_prog (newWorkspace [(''b'', \<lparr>fe_id = [2], fe_mode = modeFile\<rparr>)] [''a''] [''a'']))"
proof -
  have "same_view ends_hash Open_store (newWorkspace [] [''a''] [''a'']) Open_store
      (newWorkspace [(''b'', \<lparr>fe_id = [2], fe_mode = modeFile\<rparr>)] [''a''] [''a''])"
    by (auto simp: same_view_def newWorkspace_def ws_readable_def inScope_def pathCovers_def file_at_def has_prefix_def)
  moreover have "scoped (newWorkspace [] [''a''] [''a''])" by (simp add: scoped_def newWorkspace_def)
  ultimately show ?thesis using apply_confined by blast
qed

text \<open>C39. Transactions that do not conflict do not see each other: after one has been applied to a base
  the other does on the result exactly what it does on the base, and the two write
  different paths. So a transaction that lost the ref to disjoint work makes the same writes
  when it is run again.\<close>

theorem disjoint_transactions_commute:
  assumes "\<not> conflicts c1 c2"
    and "run_prog h s a1 (newWorkspace flat (cl_reads c1) (cl_writes c1)) = (r1, ws1)"
    and "\<And>p. edited h algo (map_of (ws_pending ws1) p) (map_of flat p) (map_of flat1 p)"
    and "grown h s s1" "\<And>p fe. map_of flat p = Some fe \<Longrightarrow> \<exists>obj. Get h s (fe_id fe) = Inr obj"
    and "run_prog h s a2 (newWorkspace flat (cl_reads c2) (cl_writes c2)) = (r2, ws2)"
  shows "\<exists>ws2'. run_prog h s1 a2 (newWorkspace flat1 (cl_reads c2) (cl_writes c2)) = (r2, ws2') \<and>
    ws_pending ws2' = ws_pending ws2 \<and> fst ` set (ws_pending ws1) \<inter> fst ` set (ws_pending ws2) = {}"
proof -
  let ?w = "newWorkspace flat (cl_reads c2) (cl_writes c2)" and ?w1 = "newWorkspace flat1 (cl_reads c2) (cl_writes c2)"
  have sc: "\<And>p. p \<in> fst ` set (ws_pending ws1) \<Longrightarrow> inScope p (cl_writes c1)"
    "\<And>p. p \<in> fst ` set (ws_pending ws2) \<Longrightarrow> inScope p (cl_writes c2)"
    using run_prog_scoped [OF assms(2)] run_prog_scoped [OF assms(6)] by (auto simp: scoped_def newWorkspace_def)
  have apart: "\<not> inScope p (cl_writes c1)" if "ws_readable ?w p" for p
    using assms(1) that unfolding conflicts_exact by (auto simp: ws_readable_def newWorkspace_def)
  have "file_at h s flat p = file_at h s1 flat1 p" if "ws_readable ?w p" for p
  proof -
    have "map_of (ws_pending ws1) p = None" using sc(1) apart [OF that] by (auto simp: map_of_eq_None_iff)
    then have "map_of flat1 p = map_of flat p" using assms(3) [of p] by (simp add: edited_def)
    then show ?thesis using assms(5) [of p] grown_Get [OF assms(4)]
      by (cases "map_of flat p") (auto simp: file_at_def)
  qed
  then have "same_view h s ?w s1 ?w1" by (simp add: same_view_def newWorkspace_def)
  from run_prog_view [OF this, of a2] assms(6) obtain ws2' where
    "run_prog h s1 a2 ?w1 = (r2, ws2')" "ws_pending ws2' = ws_pending ws2"
    by (cases "run_prog h s1 a2 ?w1") (auto simp: same_view_def)
  moreover have "fst ` set (ws_pending ws1) \<inter> fst ` set (ws_pending ws2) = {}"
    using sc assms(1) unfolding conflicts_exact by blast
  ultimately show ?thesis by blast
qed

theorem disjoint_transactions_commute_witness:
  "\<exists>ws. run_prog ends_hash Open_store add_prog (newWorkspace [] [] [''a'']) = (None, ws) \<and>
    ws_pending ws = [(''a'', \<lparr>pw_content = [1], pw_mode = modeFile, pw_del = False\<rparr>)]"
  using disjoint_transactions_commute [of "\<lparr>cl_reads = [], cl_writes = [''b'']\<rparr>" "\<lparr>cl_reads = [], cl_writes = [''a'']\<rparr>"
      ends_hash Open_store "DoRemove ''b'' Return" "[]" None "snd (ws_Remove (newWorkspace [] [] [''b'']) ''b'')" Default "[]"
      Open_store add_prog None "snd (run_prog ends_hash Open_store add_prog (newWorkspace [] [] [''a'']))"]
  by (simp add: conflicts_def setsOverlap_def overlap_def pathCovers_def has_prefix_def edited_def newWorkspace_def
      grown_refl store_ok_empty add_prog_def ws_List_def ws_Write_def ws_Remove_def inScope_def written_file_def)

text \<open>C37. Commits are serial: if a transaction ends with a change, then at the moment of the swap the
  ref pointed at the change's parent, now it points at the change, and the change is the
  transaction applied to the very tree of that parent: the buffered writes, and nothing else,
  inside the declared write set. This holds whatever other transactions did in between, provided
  that they keep the repository consistent and lose no object.\<close>

theorem txn_commit_serial:
  assumes "wf_hashes h" "others_ok h other" "repo_ok h r"
    and "runOne stk h ctx clock other ref t r = (res, r')" "res_Change res = Some id'"
  shows "\<exists>s rs base now. applied stk h s
      \<lparr>cl_reads = normalize_paths (tx_Reads t), cl_writes = normalize_paths (tx_Writes t)\<rparr> t base id' (res_Writes res) \<and>
    grown h s (r_objects r') \<and>
    CompareAndSwap rs now ref base (Some id') (tx_Name t) ''txn'' = (Inr (), r_refs r') \<and>
    current rs ref = base \<and> current (r_refs r') ref = Some id' \<and> res_Err res = None"
  by (rule attempts_commit [OF assms(1-3) _ _ assms(4) [unfolded runOne_def] assms(5)])
    (simp_all add: first_result_def)

theorem txn_commit_serial_witness:
  "\<exists>id' r'. current (r_refs r') ''refs/m'' = Some id' \<and>
     snd (runOne 5 ends_hash (\<lambda>_. False) (\<lambda>_. 0) (\<lambda>k r. r) ''refs/m'' add_txn
       \<lparr>r_objects = Open_store, r_refs = empty_refs\<rparr>) = r'"
proof -
  let ?run = "runOne 5 ends_hash (\<lambda>_. False) (\<lambda>_. 0) (\<lambda>k r. r) ''refs/m'' add_txn
       \<lparr>r_objects = Open_store, r_refs = empty_refs\<rparr>"
  have "res_Change (fst ?run) \<noteq> None" by code_simp
  then obtain id' where "res_Change (fst ?run) = Some id'" by blast
  moreover have "others_ok ends_hash (\<lambda>k r. r)" by (auto simp: others_ok_def repo_ok_def grown_refl)
  moreover have "repo_ok ends_hash \<lparr>r_objects = Open_store, r_refs = empty_refs\<rparr>"
    by (simp add: repo_ok_def store_ok_empty)
  ultimately show ?thesis using txn_commit_serial [OF ends_hash_ok] by (metis prod.collapse)
qed

text \<open>A transaction makes between one and \<^verbatim>\<open>maxAttempts\<close> attempts and comes to exactly one end:
  a change, no operation, or an error.\<close>

theorem run_one_bounded:
  assumes "runOne stk h ctx clock other ref t r = (res, r')"
  shows "1 \<le> res_Attempts res \<and> res_Attempts res \<le> maxAttempts \<and>
    length (filter id [res_Change res \<noteq> None, res_NoOp res, res_Err res \<noteq> None]) = 1"
  using attempts_shape [OF assms [unfolded runOne_def]]
  by (auto simp: first_result_def maxAttempts_def split: if_splits)

theorem run_one_bounded_witness:
  "res_Attempts (fst (runOne 5 ends_hash (\<lambda>_. True) (\<lambda>_. 0) (\<lambda>k r. r) ''refs/m'' add_txn empty_repo)) \<le> 100"
  using run_one_bounded [of 5 ends_hash "\<lambda>_. True" "\<lambda>_. 0" "\<lambda>k r. r" "''refs/m''" add_txn empty_repo]
  by (metis maxAttempts_def prod.collapse)

text \<open>The writes of an attempt that lost the ref stay in the result when the next attempt
  changes nothing: the result says that nothing was done and yet lists written paths, none of which
  any commit holds.\<close>

theorem noop_keeps_lost_writes:
  fixes t :: "prog txn"
  defines "c \<equiv> \<lparr>cl_reads = normalize_paths (tx_Reads t), cl_writes = normalize_paths (tx_Writes t)\<rparr>"
  assumes "\<not> ctx 2" "\<not> ctx 3" "\<not> ctx 4"
    and "attempt stk h clock other ref c t ((first_result (tx_Name t))\<lparr>res_Attempts := 1\<rparr>) r = Lost res1 r1"
    and "attempt stk h clock other ref c t (res1\<lparr>res_Attempts := 2\<rparr>) (other 3 r1) = Ended res2 r2" "res_NoOp res2"
  shows "runOne stk h ctx clock other ref t r = (res2, r2) \<and> res_Change res2 = None \<and> res_Err res2 = None \<and>
    res_Writes res2 = res_Writes res1 \<and> res_Writes res2 \<noteq> []"
proof -
  have l: "res_Attempts res1 = 1 \<and> res_NoOp res1 = False \<and> res_Change res1 = None \<and> res_Err res1 = None \<and> res_Writes res1 \<noteq> []"
    using assms(5) by (auto simp: attempt_def Let_def first_result_def mutated_def Written_def
        split: sum.splits prod.splits option.splits if_splits)
  then have e: "res2 = res1\<lparr>res_Attempts := 2, res_NoOp := True\<rparr>"
    using assms(6,7) by (auto simp: attempt_def Let_def split: sum.splits prod.splits option.splits if_splits)
  obtain m where m: "maxAttempts = Suc (Suc m)" by (rule that [of 98]) (simp add: maxAttempts_def)
  from l assms(2-6) show ?thesis unfolding runOne_def c_def [symmetric] e m
    by (simp add: Let_def first_result_def numeral_2_eq_2 numeral_3_eq_3 eval_nat_numeral)
qed

lemma first_attempt_lost:
  assumes "current (r_refs r2) ''refs/m'' \<noteq> None"
  shows "\<exists>r1 res1. attempt 5 ends_hash (\<lambda>_. 0) (\<lambda>k r. r2) ''refs/m'' \<lparr>cl_reads = [[]], cl_writes = [''a'']\<rparr> add_txn
     ((first_result ''t'')\<lparr>res_Attempts := 1\<rparr>) empty_repo = Lost res1 r1"
proof -
  let ?ws = "\<lparr>ws_base = [], ws_reads = [[]], ws_writes = [''a''],
    ws_pending = [(''a'', \<lparr>pw_content = [1], pw_mode = modeFile, pw_del = False\<rparr>)]\<rparr>"
  have tip: "currentTip empty_refs ''refs/m'' = Inr None" by code_simp
  have run: "run_prog ends_hash Open_store add_prog (newWorkspace [] [[]] [''a'']) = (None, ?ws)"
    by (simp add: add_prog_def newWorkspace_def ws_List_def ws_Write_def inScope_def pathCovers_def)
  have "case finalize ends_hash Open_store ?ws of (Inl _, _) \<Rightarrow> False | (Inr _, s) \<Rightarrow> os_algo s = Default" by code_simp
  then obtain tree s1 where fin: "finalize ends_hash Open_store ?ws = (Inr tree, s1)" "os_algo s1 = Default"
    by (auto split: prod.splits sum.splits)
  obtain j s2 where put: "Put ends_hash s1 (change_obj (txn_change ''t'' tree None)) = (Inr j, s2)"
    by (rule PutRaw_total [OF ends_hash_ok fin(2)]) (simp add: Put_def)
  obtain i where "readRef (r_refs r2) ''refs/m'' = Inr i" using assms by (auto simp: current_def split: sum.splits)
  moreover have "ValidName ''refs/m'' = Inr ()" by code_simp
  ultimately have "CompareAndSwap (r_refs r2) 0 ''refs/m'' None (Some j) ''t'' ''txn'' =
      (Inl (Sentinel RefConflict ''expected absent''), r_refs r2)"
    by (simp add: CompareAndSwap_def)
  with tip run fin put show ?thesis
    by (simp add: attempt_def empty_repo_def treeOf_def flatten_def add_txn_def first_result_def mutated_def NewChange_eq Let_def)
qed

lemma second_attempt_idle:
  assumes "currentTip (r_refs r2) ''refs/m'' = Inr (Some i)" "flatten 5 ends_hash (r_objects r2) (Some i) = Inr (f # fs)"
  shows "\<exists>res2. attempt 5 ends_hash (\<lambda>_. 0) (\<lambda>k r. r2) ''refs/m'' \<lparr>cl_reads = [[]], cl_writes = [''a'']\<rparr> add_txn
     res r2 = Ended res2 r2 \<and> res_NoOp res2"
proof -
  obtain obj es where "Get ends_hash (r_objects r2) i = Inr obj" "TreeEntries obj = Inr es"
    using assms(2) by (auto simp: flatten_def eval_nat_numeral rbind_eq_Inr)
  then have "treeOf ends_hash (r_objects r2) (Some i) = Inr (Some i)"
    by (auto simp: treeOf_def TreeEntries_def TypeTree_def TypeChange_def split: if_splits)
  moreover have "fst f \<in> set (ws_List (newWorkspace (f # fs) [[]] [''a'']))"
    by (simp add: newWorkspace_def ws_List_def ws_readable_def inScope_def pathCovers_def)
  then have "ws_List (newWorkspace (f # fs) [[]] [''a'']) \<noteq> []" by auto
  then have "run_prog ends_hash s add_prog (newWorkspace (f # fs) [[]] [''a'']) = (None, newWorkspace (f # fs) [[]] [''a''])" for s
    by (simp add: add_prog_def)
  ultimately show ?thesis using assms by (simp add: attempt_def add_txn_def newWorkspace_def mutated_def)
qed

text \<open>A repository whose ref points at a tree.\<close>

lemma repo_with_tree:
  "\<exists>(r2::repo) i f fs. currentTip (r_refs r2) ''refs/m'' = Inr (Some i) \<and>
     flatten 5 ends_hash (r_objects r2) (Some i) = Inr (f # fs) \<and> current (r_refs r2) ''refs/m'' = Some i"
proof -
  have "case tree_of ends_hash Default demo_files of Inl _ \<Rightarrow> False
      | Inr (i, bs) \<Rightarrow> distinct (map (Sum ends_hash Default) bs)" by code_simp
  then obtain i bs where t: "tree_of ends_hash Default demo_files = Inr (i, bs)" "distinct (map (Sum ends_hash Default) bs)"
    by (auto split: sum.splits)
  have "files_ok demo_files" "shallow 5 demo_files" "placed [] demo_files"
    by (simp_all add: files_ok_def shallow_def placed_def demo_files_def file_weight_def max_alloc_def has_prefix_def)
  with build_then_flatten [OF ends_hash_ok store_ok_empty, of demo_files i bs 5] t
  obtain s out where b: "buildTree ends_hash Open_store demo_files = (Inr i, s)"
    "flatten 5 ends_hash s (Some i) = Inr out" "map_of out = map_of demo_files"
    by (auto simp: Open_store_def distinct_map)
  obtain f fs where out: "out = f # fs" using b(3) by (cases out) (auto simp: demo_files_def fun_eq_iff split: if_splits)
  let ?c = "\<lparr>co_name = ''refs/m'', co_old = None, co_new = Some i, co_now = 0, co_actor = ''o'', co_msg = ''o''\<rparr>"
  obtain b' where "Sum ends_hash Default b' = Inr i"
    using t(1) by (auto simp: tree_of.simps rbind_eq_Inr)
  from Sum_decode [OF ends_hash_ok this] have "valid_hash (co_new ?c)" by (auto simp: valid_hash_def)
  moreover have v: "ValidName ''refs/m'' = Inr ()" by code_simp
  moreover have "clear (rs_refs empty_refs) ''refs/m''" "clear (rs_logs empty_refs) ''refs/m''"
    by (simp_all add: clear_def empty_refs_def empty_ftree_def is_file_def list_ex_iff)
  moreover have "current empty_refs ''refs/m'' = None" by (simp add: current_None) (simp add: empty_refs_def)
  ultimately obtain rs where cs: "cas empty_refs ?c = (Inr (), rs)"
    using cas_complete [of empty_refs ?c] by auto
  then have c: "current rs ''refs/m'' = Some i"
    using swap_refs [of empty_refs 0 "''refs/m''" None "Some i" "''o''" "''o''" rs] by (simp add: cas_def)
  then have "currentTip rs ''refs/m'' = Inr (Some i)"
    using v by (auto simp: currentTip_def Resolve_def current_def split: sum.splits)
  with b(2) out c show ?thesis by (intro exI [of _ "\<lparr>r_objects = s, r_refs = rs\<rparr>"]) auto
qed

theorem noop_keeps_lost_writes_witness:
  "\<exists>other res r. runOne 5 ends_hash (\<lambda>_. False) (\<lambda>_. 0) other ''refs/m'' add_txn empty_repo = (res, r) \<and>
     res_NoOp res \<and> res_Writes res \<noteq> []"
proof -
  have c: "normalize_paths (tx_Reads add_txn) = [[]]" "normalize_paths (tx_Writes add_txn) = [''a'']" "tx_Name add_txn = ''t''"
    by code_simp+
  obtain r2 :: repo and i f fs where r2: "currentTip (r_refs r2) ''refs/m'' = Inr (Some i)"
    "flatten 5 ends_hash (r_objects r2) (Some i) = Inr (f # fs)" "current (r_refs r2) ''refs/m'' \<noteq> None"
    using repo_with_tree by auto
  obtain res1 r1 where "attempt 5 ends_hash (\<lambda>_. 0) (\<lambda>k r. r2) ''refs/m'' \<lparr>cl_reads = [[]], cl_writes = [''a'']\<rparr>
      add_txn ((first_result ''t'')\<lparr>res_Attempts := 1\<rparr>) empty_repo = Lost res1 r1"
    using first_attempt_lost [OF r2(3)] by blast
  moreover obtain res2 where "attempt 5 ends_hash (\<lambda>_. 0) (\<lambda>k r. r2) ''refs/m''
      \<lparr>cl_reads = [[]], cl_writes = [''a'']\<rparr> add_txn (res1\<lparr>res_Attempts := 2\<rparr>) r2 = Ended res2 r2" "res_NoOp res2"
    using second_attempt_idle [OF r2(1,2)] by blast
  ultimately show ?thesis
    using noop_keeps_lost_writes [of "\<lambda>_. False" 5 ends_hash "\<lambda>_. 0" "\<lambda>k r. r2" "''refs/m''" add_txn, unfolded c] by blast
qed

end
