(* ===== verification/Deps.thy ===== *)
theory Deps
  imports TxnSets "HOL-Library.AList"
begin

text \<open>
  \<^verbatim>\<open>internal/deps\<close>: what blocks what among tickets, derived from their declared scopes with the
  scheduler's own conflict test. Recording a tscope as a JSON note is not modelled.
\<close>

record tscope =
  sc_Reads :: "string list"
  sc_Writes :: "string list"

record ticket =
  tk_ID :: multihash
  tk_Scope :: tscope

definition Blocks :: "tscope \<Rightarrow> tscope \<Rightarrow> bool" where
  "Blocks a b = Conflict (sc_Reads a) (sc_Writes a) (sc_Reads b) (sc_Writes b)"

text \<open>\<^verbatim>\<open>sort.Slice\<close> by the hexadecimal form; identities with one form are equal.\<close>

definition Blockers :: "ticket \<Rightarrow> ticket list \<Rightarrow> multihash list" where
  "Blockers ticket others =
     sort_key Hex (map tk_ID (filter (\<lambda>t. Blocks (tk_Scope ticket) (tk_Scope t))
       (filter (\<lambda>t. \<not> Equal (tk_ID t) (tk_ID ticket)) others)))"

definition Graph :: "ticket list \<Rightarrow> (string \<times> multihash list) list" where
  "Graph tickets = foldl (\<lambda>g t. AList.update (Hex (tk_ID t)) (Blockers t tickets) g) [] tickets"

lemma Blocks_sym: "Blocks a b = Blocks b a"
  by (simp add: Blocks_def Conflict_def conflicts_sym)

lemma set_Blockers:
  "set (Blockers t ts) = {tk_ID o' | o'. o' \<in> set ts \<and> tk_ID o' \<noteq> tk_ID t \<and> Blocks (tk_Scope t) (tk_Scope o')}"
  by (auto simp: Blockers_def Equal_iff)

lemma map_of_updates:
  "map_of (foldl (\<lambda>g t. AList.update (key t) (val t) g) g ts) k =
     (case filter (\<lambda>t. key t = k) ts of [] \<Rightarrow> map_of g k | us \<Rightarrow> Some (val (last us)))"
  by (induction ts arbitrary: g) (auto simp: update_conv' split: list.split)

text \<open>The blocking graph is exactly the conflict relation of the tickets' scopes: every ticket has
  an entry, which lists the identities of the other tickets that conflict with it, sorted; blocking
  is mutual, and no ticket blocks itself.\<close>

theorem blocking_graph_exact:
  assumes "distinct (map tk_ID tickets)" "t \<in> set tickets"
  shows "\<exists>ids. map_of (Graph tickets) (Hex (tk_ID t)) = Some ids \<and> sorted (map Hex ids) \<and>
    set ids = {tk_ID o' | o'. o' \<in> set tickets - {t} \<and> Blocks (tk_Scope t) (tk_Scope o')} \<and>
    (\<forall>o' \<in> set tickets. (tk_ID o' \<in> set ids) = (tk_ID t \<in> set (Blockers o' tickets)))"
proof -
  have inj: "u = v" if "u \<in> set tickets" "v \<in> set tickets" "tk_ID u = tk_ID v" for u v
    using assms(1) that by (auto simp: distinct_map dest: inj_onD)
  have "filter (\<lambda>u. Hex (tk_ID u) = Hex (tk_ID t)) ts = [t]"
    if "distinct (map tk_ID ts)" "t \<in> set ts" for ts
    using that
  proof (induction ts)
    case (Cons u ts)
    show ?case
    proof (cases "t = u")
      case True
      with Cons.prems(1) show ?thesis by (auto simp: filter_empty_conv rev_image_eqI)
    next
      case False
      with Cons.prems have "tk_ID u \<noteq> tk_ID t" by (auto simp: rev_image_eqI)
      with Cons False show ?thesis by simp
    qed
  qed simp
  note this [OF assms]
  then have "map_of (Graph tickets) (Hex (tk_ID t)) = Some (Blockers t tickets)"
    by (simp add: Graph_def map_of_updates)
  moreover have "set (Blockers t tickets) = {tk_ID o' | o'. o' \<in> set tickets - {t} \<and> Blocks (tk_Scope t) (tk_Scope o')}"
    unfolding set_Blockers using inj assms(2) by blast
  moreover have "(tk_ID u \<in> set (Blockers t tickets)) = (tk_ID t \<in> set (Blockers u tickets))" if "u \<in> set tickets" for u
    unfolding set_Blockers using inj assms(2) that Blocks_sym by (smt (verit, best) mem_Collect_eq)
  moreover have "sorted (map Hex (Blockers t tickets))" by (simp add: Blockers_def)
  ultimately show ?thesis by blast
qed

definition demo_tickets :: "ticket list" where
  "demo_tickets = [\<lparr>tk_ID = [1], tk_Scope = \<lparr>sc_Reads = [''src''], sc_Writes = []\<rparr>\<rparr>,
     \<lparr>tk_ID = [2], tk_Scope = \<lparr>sc_Reads = [], sc_Writes = [''src/a'']\<rparr>\<rparr>]"

theorem blocking_graph_exact_witness:
  "\<exists>ids. map_of (Graph demo_tickets) (Hex [1]) = Some ids \<and> [2] \<in> set ids"
proof -
  have "Blocks (tk_Scope (demo_tickets ! 0)) (tk_Scope (demo_tickets ! 1))" by code_simp
  then show ?thesis
    using blocking_graph_exact [of demo_tickets "demo_tickets ! 0"] by (auto simp: demo_tickets_def)
qed

end
