(* ===== verification/Wire.thy ===== *)
theory Wire
  imports ObjectCore
begin

text \<open>
  \<^verbatim>\<open>internal/wire\<close>: the framed message protocol between peers. A connection is what the
  peer's bytes still hold (\<^verbatim>\<open>cn_r\<close>, up to the end of its stream) and what has been written to
  it (\<^verbatim>\<open>cn_w\<close>; the buffer of the writer and the transport behind it are one sequence). Writing
  does not fail. The varint code is that of the object layer with its own messages; the
  values of a failed parse are dropped, as every caller does.
\<close>

section \<open>Payloads\<close>

fun wire_err :: "goerr \<Rightarrow> goerr" where
  "wire_err (Sentinel s m) = Plain (''wire: '' @ m)"
| "wire_err e = e"

definition wire_readUvarint :: "byte list \<Rightarrow> goerr + (u64 \<times> nat)" where
  "wire_readUvarint b = map_err wire_err (readUvarint b)"

definition pw_uvarint :: "byte list \<Rightarrow> u64 \<Rightarrow> byte list" where
  "pw_uvarint p v = appendUvarint p v"

definition pw_bytes :: "byte list \<Rightarrow> byte list \<Rightarrow> byte list" where
  "pw_bytes p v = appendUvarint p (len64 v) @ v"

definition pw_string :: "byte list \<Rightarrow> string \<Rightarrow> byte list" where
  "pw_string p s = pw_bytes p (bytes_of s)"

definition pw_uvarintList :: "byte list \<Rightarrow> u64 list \<Rightarrow> byte list" where
  "pw_uvarintList p vs = foldl pw_uvarint (pw_uvarint p (len64 vs)) vs"

definition pw_stringList :: "byte list \<Rightarrow> string list \<Rightarrow> byte list" where
  "pw_stringList p ss = foldl pw_string (pw_uvarint p (len64 ss)) ss"

definition pw_bytesList :: "byte list \<Rightarrow> byte list list \<Rightarrow> byte list" where
  "pw_bytesList p vs = foldl pw_bytes (pw_uvarint p (len64 vs)) vs"

definition pr_uvarint :: "cursor \<Rightarrow> goerr + (u64 \<times> cursor)" where
  "pr_uvarint r = rbind (wire_readUvarint r) (\<lambda>(v, n). Inr (v, drop n r))"

definition pr_bytes :: "cursor \<Rightarrow> goerr + (byte list \<times> cursor)" where
  "pr_bytes r =
     rbind (pr_uvarint r) (\<lambda>(n, r).
     if unat n > length r then Inl (Plain ''wire: truncated field'')
     else Inr (take (unat n) r, drop (unat n) r))"

definition pr_string :: "cursor \<Rightarrow> goerr + (string \<times> cursor)" where
  "pr_string r = rbind (pr_bytes r) (\<lambda>(b, r). Inr (string_of b, r))"

text \<open>The loop of every counted list: the count, its allocation, the items.\<close>

definition pr_counted :: "nat \<Rightarrow> (cursor \<Rightarrow> goerr + ('a \<times> cursor)) \<Rightarrow> cursor \<Rightarrow> goerr + ('a list \<times> cursor)" where
  "pr_counted elem item r =
     rbind (pr_uvarint r) (\<lambda>(n, r).
     rbind (make_cap elem n) (\<lambda>_.
     read_items (\<lambda>_. item) (unat n) None r))"

definition pr_uvarintList :: "cursor \<Rightarrow> goerr + (u64 list \<times> cursor)" where
  "pr_uvarintList r = pr_counted 8 pr_uvarint r"

definition pr_stringList :: "cursor \<Rightarrow> goerr + (string list \<times> cursor)" where
  "pr_stringList r = pr_counted 16 pr_string r"

definition pr_bytesList :: "cursor \<Rightarrow> goerr + (byte list list \<times> cursor)" where
  "pr_bytesList r = pr_counted 24 pr_bytes r"

section \<open>Frames\<close>

record conn =
  cn_r :: "byte list"
  cn_w :: "byte list"

definition io_EOF :: goerr where "io_EOF = Plain ''EOF''"
definition ErrUnexpectedEOF :: goerr where "ErrUnexpectedEOF = Plain ''unexpected EOF''"

definition MsgHello :: u64 where "MsgHello = 1"
definition MsgListRefs :: u64 where "MsgListRefs = 2"
definition MsgRefs :: u64 where "MsgRefs = 3"
definition MsgGetObjects :: u64 where "MsgGetObjects = 4"
definition MsgObject :: u64 where "MsgObject = 5"
definition MsgDone :: u64 where "MsgDone = 6"
definition MsgPush :: u64 where "MsgPush = 7"
definition MsgOK :: u64 where "MsgOK = 8"
definition MsgError :: u64 where "MsgError = 9"
definition MsgPin :: u64 where "MsgPin = 10"
definition MsgUnpin :: u64 where "MsgUnpin = 11"
definition MsgListPin :: u64 where "MsgListPin = 12"
definition MsgPins :: u64 where "MsgPins = 13"

lemmas msg_defs = MsgHello_def MsgListRefs_def MsgRefs_def MsgGetObjects_def MsgObject_def MsgDone_def
  MsgPush_def MsgOK_def MsgError_def MsgPin_def MsgUnpin_def MsgListPin_def MsgPins_def

definition CapDeflate :: string where "CapDeflate = ''deflate''"
definition CapArtifactRef :: string where "CapArtifactRef = ''artifact-ref''"
definition CapPin :: string where "CapPin = ''pin''"
definition CapNotesSync :: string where "CapNotesSync = ''notes-sync''"

definition wire_Magic :: "byte list" where "wire_Magic = bytes_of ''VWR1''"
definition Proto :: string where "Proto = ''varvig/1''"
definition maxFrame :: nat where "maxFrame = 2 ^ 30"

definition writeFrame :: "conn \<Rightarrow> u64 \<Rightarrow> byte list \<Rightarrow> conn" where
  "writeFrame c t payload =
     (let hdr = appendUvarint [] t;
          hdr = appendUvarint hdr (len64 payload);
          c = c\<lparr>cn_w := cn_w c @ hdr\<rparr>
      in c\<lparr>cn_w := cn_w c @ payload\<rparr>)"

fun readUvarintReader_from :: "nat \<Rightarrow> u64 \<Rightarrow> nat \<Rightarrow> byte list \<Rightarrow> goerr + (u64 \<times> byte list)" where
  "readUvarintReader_from i x s [] = Inl io_EOF"
| "readUvarintReader_from i x s (ch # r) =
     (if i = 10 then Inl (Plain ''wire: varint overflow'')
      else if ch < 0x80 then
        (if i = 9 \<and> ch > 1 then Inl (Plain ''wire: varint overflow'')
         else if ch = 0 \<and> i \<noteq> 0 then Inl (Plain ''wire: non-minimal varint'')
         else Inr (x OR push_bit s (ucast ch), r))
      else readUvarintReader_from (Suc i) (x OR push_bit s (ucast (ch AND 0x7f))) (s + 7) r)"

definition readUvarintReader :: "byte list \<Rightarrow> goerr + (u64 \<times> byte list)" where
  "readUvarintReader r = readUvarintReader_from 0 0 0 r"

text \<open>\<^verbatim>\<open>io.ReadFull\<close>: the end of the stream is an error only where bytes were asked for.\<close>

definition ReadFull :: "nat \<Rightarrow> byte list \<Rightarrow> goerr + (byte list \<times> byte list)" where
  "ReadFull n r =
     (if n \<le> length r then Inr (take n r, drop n r)
      else if r = [] then Inl io_EOF
      else Inl ErrUnexpectedEOF)"

definition ReadFrame :: "conn \<Rightarrow> goerr + ((u64 \<times> byte list) \<times> conn)" where
  "ReadFrame c =
     rbind (readUvarintReader (cn_r c)) (\<lambda>(t, r).
     rbind (readUvarintReader r) (\<lambda>(n, r).
     if unat n > maxFrame then Inl (Plain ''wire: frame too large'')
     else rbind (ReadFull (unat n) r) (\<lambda>(payload, r).
          Inr ((t, payload), c\<lparr>cn_r := r\<rparr>))))"

section \<open>The handshake\<close>

record hello =
  h_proto :: string
  h_caps :: "string list"
  h_hashes :: "u64 list"

definition hello_payload :: "hello \<Rightarrow> byte list" where
  "hello_payload h = pw_uvarintList (pw_stringList (pw_string [] (h_proto h)) (h_caps h)) (h_hashes h)"

definition WriteHandshake :: "conn \<Rightarrow> hello \<Rightarrow> conn" where
  "WriteHandshake c h =
     (let c = c\<lparr>cn_w := cn_w c @ wire_Magic\<rparr>
      in writeFrame c MsgHello (hello_payload h))"

definition ReadHandshake :: "conn \<Rightarrow> goerr + (hello \<times> conn)" where
  "ReadHandshake c =
     rbind (ReadFull (length wire_Magic) (cn_r c)) (\<lambda>(magic, r).
     let c = c\<lparr>cn_r := r\<rparr> in
     if magic \<noteq> wire_Magic then Inl (Plain ''wire: bad stream magic'')
     else
       rbind (ReadFrame c) (\<lambda>((t, payload), c).
       if t \<noteq> MsgHello then Inl (Plain ''wire: expected Hello'')
       else
         rbind (pr_string payload) (\<lambda>(proto, pr).
         rbind (pr_stringList pr) (\<lambda>(caps, pr).
         rbind (pr_uvarintList pr) (\<lambda>(hashes, pr).
         Inr (\<lparr>h_proto = proto, h_caps = caps, h_hashes = hashes\<rparr>, c))))))"

text \<open>A capability set is a \<^verbatim>\<open>map[string]bool\<close> of which only lookups are made.\<close>

type_synonym caps = "string list"

definition Negotiate :: "string list \<Rightarrow> string list \<Rightarrow> caps" where
  "Negotiate local remote = filter (\<lambda>c. c \<in> set remote) local"

section \<open>Messages\<close>

record wire_ref =
  wr_name :: string
  wr_id :: "byte list"

record wire_pin =
  wp_hash :: "byte list"
  wp_notAfter :: u64

definition WriteListRefs :: "conn \<Rightarrow> conn" where "WriteListRefs c = writeFrame c MsgListRefs []"
definition WriteDone :: "conn \<Rightarrow> conn" where "WriteDone c = writeFrame c MsgDone []"
definition WriteOK :: "conn \<Rightarrow> conn" where "WriteOK c = writeFrame c MsgOK []"

definition put_ref :: "byte list \<Rightarrow> wire_ref \<Rightarrow> byte list" where
  "put_ref p r = pw_bytes (pw_string p (wr_name r)) (wr_id r)"

definition WriteRefs :: "conn \<Rightarrow> wire_ref list \<Rightarrow> conn" where
  "WriteRefs c refs = writeFrame c MsgRefs (foldl put_ref (pw_uvarint [] (len64 refs)) refs)"

definition ref_item :: "cursor \<Rightarrow> goerr + (wire_ref \<times> cursor)" where
  "ref_item r =
     rbind (pr_string r) (\<lambda>(name, r).
     rbind (pr_bytes r) (\<lambda>(id', r).
     Inr (\<lparr>wr_name = name, wr_id = id'\<rparr>, r)))"

definition ParseRefs :: "byte list \<Rightarrow> goerr + wire_ref list" where
  "ParseRefs payload = rbind (pr_counted 40 ref_item payload) (\<lambda>(refs, _). Inr refs)"

definition WriteGetObjects :: "conn \<Rightarrow> byte list list \<Rightarrow> byte list list \<Rightarrow> conn" where
  "WriteGetObjects c want have_ids =
     writeFrame c MsgGetObjects (pw_bytesList (pw_bytesList [] want) have_ids)"

definition ParseGetObjects :: "byte list \<Rightarrow> goerr + (byte list list \<times> byte list list)" where
  "ParseGetObjects payload =
     rbind (pr_bytesList payload) (\<lambda>(want, pr).
     rbind (pr_bytesList pr) (\<lambda>(have_ids, pr).
     Inr (want, have_ids)))"

definition WriteObject :: "conn \<Rightarrow> byte list \<Rightarrow> byte list \<Rightarrow> conn" where
  "WriteObject c id' payload = writeFrame c MsgObject (pw_bytes (pw_bytes [] id') payload)"

definition ParseObject :: "byte list \<Rightarrow> goerr + (byte list \<times> byte list)" where
  "ParseObject payload =
     rbind (pr_bytes payload) (\<lambda>(id', pr).
     rbind (pr_bytes pr) (\<lambda>(body, pr).
     Inr (id', body)))"

definition WritePush :: "conn \<Rightarrow> string \<Rightarrow> byte list \<Rightarrow> byte list \<Rightarrow> conn" where
  "WritePush c name old newv = writeFrame c MsgPush (pw_bytes (pw_bytes (pw_string [] name) old) newv)"

definition ParsePush :: "byte list \<Rightarrow> goerr + (string \<times> byte list \<times> byte list)" where
  "ParsePush payload =
     rbind (pr_string payload) (\<lambda>(name, pr).
     rbind (pr_bytes pr) (\<lambda>(old, pr).
     rbind (pr_bytes pr) (\<lambda>(newv, pr).
     Inr (name, old, newv))))"

definition WritePin :: "conn \<Rightarrow> string \<Rightarrow> byte list \<Rightarrow> u64 \<Rightarrow> string \<Rightarrow> conn" where
  "WritePin c peerID hash notAfter reason =
     writeFrame c MsgPin (pw_string (pw_uvarint (pw_bytes (pw_string [] peerID) hash) notAfter) reason)"

definition ParsePin :: "byte list \<Rightarrow> goerr + (string \<times> byte list \<times> u64 \<times> string)" where
  "ParsePin payload =
     rbind (pr_string payload) (\<lambda>(peerID, pr).
     rbind (pr_bytes pr) (\<lambda>(hash, pr).
     rbind (pr_uvarint pr) (\<lambda>(notAfter, pr).
     rbind (pr_string pr) (\<lambda>(reason, pr).
     Inr (peerID, hash, notAfter, reason)))))"

definition WriteUnpin :: "conn \<Rightarrow> string \<Rightarrow> byte list \<Rightarrow> conn" where
  "WriteUnpin c peerID hash = writeFrame c MsgUnpin (pw_bytes (pw_string [] peerID) hash)"

definition ParseUnpin :: "byte list \<Rightarrow> goerr + (string \<times> byte list)" where
  "ParseUnpin payload =
     rbind (pr_string payload) (\<lambda>(peerID, pr).
     rbind (pr_bytes pr) (\<lambda>(hash, pr).
     Inr (peerID, hash)))"

definition WriteListPin :: "conn \<Rightarrow> string \<Rightarrow> conn" where
  "WriteListPin c peerID = writeFrame c MsgListPin (pw_string [] peerID)"

definition ParseListPin :: "byte list \<Rightarrow> goerr + string" where
  "ParseListPin payload = rbind (pr_string payload) (\<lambda>(peerID, _). Inr peerID)"

definition put_pin :: "byte list \<Rightarrow> wire_pin \<Rightarrow> byte list" where
  "put_pin p x = pw_uvarint (pw_bytes p (wp_hash x)) (wp_notAfter x)"

definition WritePins :: "conn \<Rightarrow> wire_pin list \<Rightarrow> conn" where
  "WritePins c pins = writeFrame c MsgPins (foldl put_pin (pw_uvarint [] (len64 pins)) pins)"

definition pin_item :: "cursor \<Rightarrow> goerr + (wire_pin \<times> cursor)" where
  "pin_item r =
     rbind (pr_bytes r) (\<lambda>(hash, r).
     rbind (pr_uvarint r) (\<lambda>(na, r).
     Inr (\<lparr>wp_hash = hash, wp_notAfter = na\<rparr>, r)))"

definition ParsePins :: "byte list \<Rightarrow> goerr + wire_pin list" where
  "ParsePins payload = rbind (pr_counted 32 pin_item payload) (\<lambda>(pins, _). Inr pins)"

definition WriteError :: "conn \<Rightarrow> string \<Rightarrow> conn" where
  "WriteError c msg = writeFrame c MsgError (pw_string [] msg)"

definition ParseError :: "byte list \<Rightarrow> string" where
  "ParseError payload = (case pr_string payload of Inl _ \<Rightarrow> [] | Inr (s, _) \<Rightarrow> s)"

section \<open>What is read is what was written\<close>

text \<open>
  An item of the protocol: how it is appended to a payload, how it is read, and which items
  fit in memory. A read succeeds on exactly the bytes of one item and leaves the rest.
\<close>

locale wire_item =
  fixes put :: "byte list \<Rightarrow> 'a \<Rightarrow> byte list"
    and get :: "cursor \<Rightarrow> goerr + ('a \<times> cursor)"
    and ok :: "'a \<Rightarrow> bool"
  assumes put_acc: "put p x = p @ put [] x"
    and get_iff: "get c = Inr (x, r) \<longleftrightarrow> c = put [] x @ r \<and> ok x"

sublocale wire_item \<subseteq> canonical_format "put []" "\<lambda>_. get" "\<lambda>_. ok"
  by unfold_locales (simp_all add: get_iff)

lemma pr_uvarint_iff: "pr_uvarint c = Inr (v, r) \<longleftrightarrow> c = appendUvarint [] v @ r"
proof -
  have "pr_uvarint c = Inr (v, r) \<longleftrightarrow> c_uvarint c = Inr (v, r)"
    by (auto simp: pr_uvarint_def c_uvarint_def wire_readUvarint_def rbind_eq_Inr)
  then show ?thesis by (simp add: c_uvarint_iff)
qed

lemma pr_uvarint_append [simp]: "pr_uvarint (appendUvarint [] v @ r) = Inr (v, r)"
  by (simp add: pr_uvarint_iff)

lemma pr_bytes_iff: "pr_bytes c = Inr (v, r) \<longleftrightarrow> c = put_bytes [] v @ r \<and> fits64 v"
proof -
  have "pr_bytes c = Inr (v, r) \<longleftrightarrow> c_bytes c = Inr (v, r)"
    by (auto simp: pr_bytes_def c_bytes_def c_take_def rbind_eq_Inr pr_uvarint_iff c_uvarint_iff)
  then show ?thesis by (simp add: c_bytes_iff)
qed

lemma pr_string_iff: "pr_string c = Inr (s, r) \<longleftrightarrow> c = put_bytes [] (bytes_of s) @ r \<and> fits64 s"
  by (auto simp: pr_string_def rbind_eq_Inr pr_bytes_iff)

lemma pw_acc:
  "pw_uvarint p v = p @ appendUvarint [] v"
  "pw_bytes p b = p @ put_bytes [] b"
  "pw_string p s = p @ put_bytes [] (bytes_of s)"
  using appendUvarint_append [of p v] put_bytes_append [of p b] put_bytes_append [of p "bytes_of s"]
  by (simp_all add: pw_uvarint_def pw_string_def pw_bytes_def put_bytes_def)

context wire_item
begin

lemma foldl_put: "foldl put p xs = p @ concat (map (put []) xs)"
proof (induction xs arbitrary: p)
  case (Cons x xs)
  then show ?case using put_acc [of p x] by simp
qed simp

lemma list_acc:
  "foldl put (pw_uvarint p n) xs = p @ foldl put (pw_uvarint [] n) xs"
  by (simp add: foldl_put pw_acc)

lemma counted_iff:
  assumes "0 < elem"
  shows "pr_counted elem get c = Inr (xs, r) \<longleftrightarrow>
     c = foldl put (pw_uvarint [] (len64 xs)) xs @ r \<and> list_all ok xs \<and> length xs * elem \<le> max_alloc"
proof
  assume "pr_counted elem get c = Inr (xs, r)"
  then obtain n c' where c: "c = appendUvarint [] n @ c'" and n: "unat n * elem \<le> max_alloc"
    and rd: "read_items (\<lambda>_. get) (unat n) None c' = Inr (xs, r)"
    by (auto simp: pr_counted_def rbind_eq_Inr pr_uvarint_iff)
  from items_canonical [OF rd] have c': "c' = concat (map (put []) xs) @ r"
    and ok: "\<forall>x \<in> set xs. ok x" and l: "length xs = unat n" by (auto simp: chained_all)
  from c c' ok l n len64_unique [OF l]
  show "c = foldl put (pw_uvarint [] (len64 xs)) xs @ r \<and> list_all ok xs \<and> length xs * elem \<le> max_alloc"
    by (simp add: foldl_put pw_acc list_all_iff)
next
  assume a: "c = foldl put (pw_uvarint [] (len64 xs)) xs @ r \<and> list_all ok xs \<and> length xs * elem \<le> max_alloc"
  have "length xs \<le> length xs * elem" using assms by simp
  also have "\<dots> \<le> 2 ^ 48" using a by (simp add: max_alloc_def)
  finally have f: "fits64 xs" by (simp add: fits64_def)
  have "chained (\<lambda>_. ok) None xs" using a by (simp add: chained_all list_all_iff)
  from items_enc [OF this, of r] a f show "pr_counted elem get c = Inr (xs, r)"
    by (simp add: pr_counted_def foldl_put pw_acc make_cap_def)
qed

lemma counted_item:
  "0 < elem \<Longrightarrow> wire_item (\<lambda>p xs. foldl put (pw_uvarint p (len64 xs)) xs) (pr_counted elem get)
     (\<lambda>xs. list_all ok xs \<and> length xs * elem \<le> max_alloc)"
  by unfold_locales (rule list_acc, rule counted_iff)

text \<open>The announced count is allocated before an item is read.\<close>

lemma counted_panics:
  "unat n * elem > max_alloc \<Longrightarrow>
   pr_counted elem get (appendUvarint [] n @ r) = Inl (Panic ''makeslice: cap out of range'')"
  by (simp add: pr_counted_def make_cap_def)

end

interpretation w_uvarint: wire_item pw_uvarint pr_uvarint "\<lambda>_. True"
  by unfold_locales (simp_all add: pw_acc pr_uvarint_iff)

interpretation w_bytes: wire_item pw_bytes pr_bytes fits64
  by unfold_locales (simp_all add: pw_acc pr_bytes_iff)

interpretation w_string: wire_item pw_string pr_string fits64
  by unfold_locales (simp_all add: pw_acc pr_string_iff)

definition wire_ref_ok :: "wire_ref \<Rightarrow> bool" where
  "wire_ref_ok r \<longleftrightarrow> fits64 (wr_name r) \<and> fits64 (wr_id r)"

interpretation w_ref: wire_item put_ref ref_item wire_ref_ok
proof
  fix c x r
  show "ref_item c = Inr (x, r) \<longleftrightarrow> c = put_ref [] x @ r \<and> wire_ref_ok x"
    by (cases x) (auto simp: ref_item_def rbind_eq_Inr pr_string_iff pr_bytes_iff put_ref_def pw_acc wire_ref_ok_def)
qed (simp add: put_ref_def pw_acc)

definition wire_pin_ok :: "wire_pin \<Rightarrow> bool" where
  "wire_pin_ok p \<longleftrightarrow> fits64 (wp_hash p)"

interpretation w_pin: wire_item put_pin pin_item wire_pin_ok
proof
  fix c x r
  show "pin_item c = Inr (x, r) \<longleftrightarrow> c = put_pin [] x @ r \<and> wire_pin_ok x"
    by (cases x) (auto simp: pin_item_def rbind_eq_Inr pr_uvarint_iff pr_bytes_iff put_pin_def pw_acc wire_pin_ok_def)
qed (simp add: put_pin_def pw_acc)

text \<open>Lists of strings and of byte strings are items again.\<close>

definition list_fits :: "nat \<Rightarrow> 'a list list \<Rightarrow> bool" where
  "list_fits elem xs \<longleftrightarrow> list_all fits64 xs \<and> length xs * elem \<le> max_alloc"

interpretation w_bytesList: wire_item pw_bytesList pr_bytesList "list_fits 24"
  using w_bytes.counted_item [of 24]
  by (simp add: pw_bytesList_def [abs_def] pr_bytesList_def [abs_def] list_fits_def [abs_def])

interpretation w_stringList: wire_item pw_stringList pr_stringList "list_fits 16"
  using w_string.counted_item [of 16]
  by (simp add: pw_stringList_def [abs_def] pr_stringList_def [abs_def] list_fits_def [abs_def])

interpretation w_uvarintList: wire_item pw_uvarintList pr_uvarintList "\<lambda>xs. length xs * 8 \<le> max_alloc"
  using w_uvarint.counted_item [of 8]
  by (simp add: pw_uvarintList_def [abs_def] pr_uvarintList_def [abs_def] list_all_iff)

lemmas pr_iffs = pr_uvarint_iff pr_bytes_iff pr_string_iff w_bytesList.get_iff w_stringList.get_iff
  w_uvarintList.get_iff

section \<open>Frames are exact\<close>

lemma readUvarintReader_from_eq:
  "i \<le> 10 \<Longrightarrow> readUvarintReader_from i x s b =
     (case readUvarint_from i x s b of
        Inl e \<Rightarrow> Inl (if e = Sentinel ErrMalformed ''truncated varint'' then io_EOF else wire_err e)
      | Inr (v, n) \<Rightarrow> Inr (v, drop (n - i) b)) \<and>
     (\<forall>v n. readUvarint_from i x s b = Inr (v, n) \<longrightarrow> i < n)"
proof (induction b arbitrary: i x s)
  case Nil
  then show ?case by simp
next
  case (Cons ch b)
  show ?case
  proof (cases "i = 10 \<or> ch < 0x80")
    case True
    then show ?thesis by auto
  next
    case False
    then have "Suc i \<le> 10" using Cons.prems by simp
    from Cons.IH [OF this, of "x OR push_bit s (ucast (ch AND 0x7f))" "s + 7"] False show ?thesis
      by (auto simp: Suc_diff_le less_imp_le drop_Cons' Suc_lessD split: sum.splits prod.splits)
  qed
qed

lemma readUvarintReader_eq:
  "readUvarintReader b = (case readUvarint b of
      Inl e \<Rightarrow> Inl (if e = Sentinel ErrMalformed ''truncated varint'' then io_EOF else wire_err e)
    | Inr (v, n) \<Rightarrow> Inr (v, drop n b))"
  using readUvarintReader_from_eq [of 0 0 0 b]
  by (simp add: readUvarintReader_def readUvarint_def cong: sum.case_cong split: sum.splits prod.splits)

lemma readUvarintReader_iff: "readUvarintReader b = Inr (v, r) \<longleftrightarrow> b = appendUvarint [] v @ r"
proof -
  have "readUvarintReader b = Inr (v, r) \<longleftrightarrow> c_uvarint b = Inr (v, r)"
    by (auto simp: readUvarintReader_eq c_uvarint_def rbind_eq_Inr split: sum.splits)
  then show ?thesis by (simp add: c_uvarint_iff)
qed

lemma readUvarintReader_append [simp]: "readUvarintReader (appendUvarint [] v @ r) = Inr (v, r)"
  by (simp add: readUvarintReader_iff)

definition frame :: "u64 \<Rightarrow> byte list \<Rightarrow> byte list" where
  "frame t payload = appendUvarint [] t @ put_bytes [] payload"

lemma writeFrame_eq: "writeFrame c t p = c\<lparr>cn_w := cn_w c @ frame t p\<rparr>"
  using appendUvarint_append [of "appendUvarint [] t" "len64 p"]
  by (simp add: writeFrame_def frame_def put_bytes_def Let_def)

lemma ReadFull_iff: "ReadFull n r = Inr (p, r') \<longleftrightarrow> r = p @ r' \<and> length p = n"
  by (auto simp: ReadFull_def)

lemma ReadFrame_iff:
  "ReadFrame c = Inr ((t, p), c') \<longleftrightarrow>
     cn_r c = frame t p @ cn_r c' \<and> cn_w c' = cn_w c \<and> length p \<le> maxFrame"
proof
  assume "ReadFrame c = Inr ((t, p), c')"
  then obtain n r where c: "cn_r c = appendUvarint [] t @ appendUvarint [] n @ p @ r"
    and n: "\<not> unat n > maxFrame" "length p = unat n" and c': "c' = c\<lparr>cn_r := r\<rparr>"
    by (auto simp: ReadFrame_def rbind_eq_Inr readUvarintReader_iff ReadFull_iff)
  with len64_unique [OF n(2)]
  show "cn_r c = frame t p @ cn_r c' \<and> cn_w c' = cn_w c \<and> length p \<le> maxFrame"
    by (simp add: frame_def put_bytes_def)
next
  assume a: "cn_r c = frame t p @ cn_r c' \<and> cn_w c' = cn_w c \<and> length p \<le> maxFrame"
  then have f: "fits64 p" by (simp add: fits64_def maxFrame_def)
  have "c' = c\<lparr>cn_r := cn_r c'\<rparr>" using a by simp
  with a f show "ReadFrame c = Inr ((t, p), c')"
    by (simp add: ReadFrame_def frame_def put_bytes_def ReadFull_def)
qed

lemma ReadFrame_frame [simp]:
  "length p \<le> maxFrame \<Longrightarrow> ReadFrame \<lparr>cn_r = frame t p @ r, cn_w = w\<rparr> = Inr ((t, p), \<lparr>cn_r = r, cn_w = w\<rparr>)"
  by (simp add: ReadFrame_iff)

text \<open>Reading consumes.\<close>

lemma appendUvarint_nonempty [simp]: "appendUvarint [] v \<noteq> []"
  by (cases "v < 0x80") (simp_all add: appendUvarint_small appendUvarint_Cons not_less)

lemma ReadFrame_shorter: "ReadFrame c = Inr (m, c') \<Longrightarrow> length (cn_r c') < length (cn_r c)"
  by (cases m) (simp add: ReadFrame_iff frame_def)

section \<open>Handshake and capabilities\<close>

definition hello_ok :: "hello \<Rightarrow> bool" where
  "hello_ok h \<longleftrightarrow> fits64 (h_proto h) \<and> list_fits 16 (h_caps h) \<and> length (h_hashes h) * 8 \<le> max_alloc
     \<and> length (hello_payload h) \<le> maxFrame"

lemma hello_payload_eq:
  "hello_payload h = put_bytes [] (bytes_of (h_proto h)) @ pw_stringList [] (h_caps h) @ pw_uvarintList [] (h_hashes h)"
  using w_uvarintList.put_acc [of "pw_stringList (pw_string [] (h_proto h)) (h_caps h)" "h_hashes h"]
    w_stringList.put_acc [of "pw_string [] (h_proto h)" "h_caps h"]
  by (simp add: hello_payload_def pw_acc)

lemma ReadHandshake_written:
  assumes "hello_ok h" "cn_r c = cn_w (WriteHandshake c0 h) @ r" "cn_w c0 = []"
  shows "ReadHandshake c = Inr (h, c\<lparr>cn_r := r\<rparr>)"
proof -
  have w: "cn_r c = wire_Magic @ frame MsgHello (hello_payload h) @ r"
    using assms(2,3) by (simp add: WriteHandshake_def writeFrame_eq)
  let ?c = "c\<lparr>cn_r := frame MsgHello (hello_payload h) @ r\<rparr>"
  have f: "ReadFrame ?c = Inr ((MsgHello, hello_payload h), c\<lparr>cn_r := r\<rparr>)"
    using assms(1) by (simp add: ReadFrame_iff hello_ok_def)
  have 1: "pr_string (hello_payload h) = Inr (h_proto h, pw_stringList [] (h_caps h) @ pw_uvarintList [] (h_hashes h))"
    using assms(1) by (simp add: pr_string_iff hello_payload_eq hello_ok_def)
  have 2: "pr_stringList (pw_stringList [] (h_caps h) @ pw_uvarintList [] (h_hashes h))
      = Inr (h_caps h, pw_uvarintList [] (h_hashes h))"
    using assms(1) by (simp add: w_stringList.get_iff hello_ok_def)
  have 3: "pr_uvarintList (pw_uvarintList [] (h_hashes h)) = Inr (h_hashes h, [])"
    using assms(1) by (simp add: w_uvarintList.get_iff hello_ok_def)
  have "ReadFull (length wire_Magic) (cn_r c) = Inr (wire_Magic, frame MsgHello (hello_payload h) @ r)"
    by (simp add: w ReadFull_iff)
  with f 1 2 3 show ?thesis by (simp add: ReadHandshake_def Let_def)
qed

lemma Negotiate_set: "set (Negotiate l r) = set l \<inter> set r"
  by (auto simp: Negotiate_def)

section \<open>Streams of frames\<close>

text \<open>What a peer reads off a connection until the first error, and what another wrote.\<close>

function read_frames :: "conn \<Rightarrow> (u64 \<times> byte list) list \<times> goerr" where
  "read_frames c =
     (case ReadFrame c of
        Inl e \<Rightarrow> ([], e)
      | Inr (m, c') \<Rightarrow> (let (ms, e) = read_frames c' in (m # ms, e)))"
  by pat_completeness auto
termination
  by (relation "measure (\<lambda>c. length (cn_r c))") (auto dest: ReadFrame_shorter)

declare read_frames.simps [simp del]

definition write_frames :: "conn \<Rightarrow> (u64 \<times> byte list) list \<Rightarrow> conn" where
  "write_frames c ms = foldl (\<lambda>c (t, p). writeFrame c t p) c ms"

definition frame_ok :: "u64 \<times> byte list \<Rightarrow> bool" where
  "frame_ok m \<longleftrightarrow> length (snd m) \<le> maxFrame"

lemma write_frames_w: "cn_w (write_frames c ms) = cn_w c @ concat (map (\<lambda>(t, p). frame t p) ms)"
  unfolding write_frames_def
  by (induction ms arbitrary: c) (auto simp: writeFrame_eq)

lemma frame_prefix_free:
  assumes "frame t p @ r = frame t' p' @ r'" "fits64 p" "fits64 p'"
  shows "t = t' \<and> p = p' \<and> r = r'"
proof -
  have "t = t'" and "put_bytes [] p @ r = put_bytes [] p' @ r'"
    using assms(1) by (simp_all add: frame_def)
  note this(2)
  moreover have "c_bytes (put_bytes [] p @ r) = Inr (p, r)" "c_bytes (put_bytes [] p' @ r') = Inr (p', r')"
    by (rule c_bytes_append, rule assms)+
  ultimately have "Inr (p, r) = (Inr (p', r') :: goerr + byte list \<times> byte list)" by (simp only:)
  with \<open>t = t'\<close> show ?thesis by simp
qed

lemma frame_ok_fits: "frame_ok (t, p) \<Longrightarrow> fits64 p"
  by (simp add: frame_ok_def fits64_def maxFrame_def)

lemma ReadFrame_cut:
  assumes "k < length (frame t p)" "frame_ok (t, p)" "cn_r c = take k (frame t p)"
  shows "\<exists>e. ReadFrame c = Inl e"
proof (rule ccontr)
  assume "\<nexists>e. ReadFrame c = Inl e"
  then obtain m c' where "ReadFrame c = Inr (m, c')" by (cases "ReadFrame c") auto
  then obtain t' p' where "cn_r c = frame t' p' @ cn_r c'" and ok: "frame_ok (t', p')"
    by (cases m) (auto simp: ReadFrame_iff frame_ok_def)
  then have "frame t p @ [] = frame t' p' @ cn_r c' @ drop k (frame t p)"
    using assms(3) append_take_drop_id [of k "frame t p"] by simp
  from frame_prefix_free [OF this] assms(2) ok have "drop k (frame t p) = []"
    using frame_ok_fits by blast
  with assms(1) show False by simp
qed

lemma read_frames_cut:
  "\<forall>m \<in> set ms. frame_ok m \<Longrightarrow> cn_r c = take k (concat (map (\<lambda>(t, p). frame t p) ms)) \<Longrightarrow>
   \<exists>n \<le> length ms. fst (read_frames c) = take n ms \<and>
     (length (concat (map (\<lambda>(t, p). frame t p) ms)) \<le> k \<longrightarrow> n = length ms \<and> snd (read_frames c) = io_EOF)"
proof (induction ms arbitrary: c k)
  case Nil
  then have "ReadFrame c = Inl io_EOF" by (simp add: ReadFrame_def readUvarintReader_def)
  then show ?case by (simp add: read_frames.simps [of c])
next
  case (Cons m ms)
  obtain t p where m: "m = (t, p)" by (cases m)
  let ?f = "length (frame t p)"
  show ?case
  proof (cases "k < ?f")
    case True
    then have "cn_r c = take k (frame t p)" using Cons.prems(2) m by simp
    with ReadFrame_cut [OF True] Cons.prems(1) m obtain e where "ReadFrame c = Inl e" by auto
    with True m show ?thesis by (intro exI [of _ 0]) (simp add: read_frames.simps [of c])
  next
    case False
    let ?c = "c\<lparr>cn_r := take (k - ?f) (concat (map (\<lambda>(t, p). frame t p) ms))\<rparr>"
    have "ReadFrame c = Inr ((t, p), ?c)"
      using Cons.prems False m by (simp add: ReadFrame_iff frame_ok_def)
    then have r: "read_frames c = (m # fst (read_frames ?c), snd (read_frames ?c))"
      using m by (simp add: read_frames.simps [of c] split_def Let_def)
    from Cons.IH [of ?c "k - ?f"] Cons.prems(1) obtain n where n: "n \<le> length ms" "fst (read_frames ?c) = take n ms"
      "length (concat (map (\<lambda>(t, p). frame t p) ms)) \<le> k - ?f \<longrightarrow> n = length ms \<and> snd (read_frames ?c) = io_EOF"
      by auto
    show ?thesis by (rule exI [of _ "Suc n"]) (use n r m False in auto)
  qed
qed

section \<open>Properties\<close>

text \<open>Framing survives truncation: cut the bytes of any sequence of frames anywhere, and
  the receiver reads a prefix of the messages that were sent, each whole and of its own type;
  with nothing cut off it reads them all and then the end of the stream.\<close>

theorem frames_cut_to_prefix:
  assumes "\<forall>m \<in> set ms. frame_ok m" "cn_w c0 = []" "cn_r c = take k (cn_w (write_frames c0 ms))"
  shows "\<exists>n \<le> length ms. fst (read_frames c) = take n ms \<and>
     (length (cn_w (write_frames c0 ms)) \<le> k \<longrightarrow> n = length ms \<and> snd (read_frames c) = io_EOF)"
  using read_frames_cut [OF assms(1), of c k] assms(2,3) by (simp add: write_frames_w)

theorem frames_cut_to_prefix_witness:
  "\<exists>n \<le> length [(MsgDone, [1, 2, 3]), (MsgOK, [])].
     fst (read_frames \<lparr>cn_r = take 4 (cn_w (write_frames \<lparr>cn_r = [], cn_w = []\<rparr> [(MsgDone, [1, 2, 3]), (MsgOK, [])])),
       cn_w = []\<rparr>) = take n [(MsgDone, [1, 2, 3]), (MsgOK, [])]"
  using frames_cut_to_prefix [of "[(MsgDone, [1, 2, 3]), (MsgOK, [])]" "\<lparr>cn_r = [], cn_w = []\<rparr>"
      "\<lparr>cn_r = take 4 (cn_w (write_frames \<lparr>cn_r = [], cn_w = []\<rparr> [(MsgDone, [1, 2, 3]), (MsgOK, [])])), cn_w = []\<rparr>" 4]
  by (auto simp: frame_ok_def maxFrame_def)

text \<open>The message formats are exact: each parser accepts precisely the payloads its writer
  produces, possibly followed by bytes that it ignores, and returns the values written.\<close>

theorem wire_messages_exact:
  "(ParseGetObjects p = Inr (want, have_ids) \<longleftrightarrow>
      (\<exists>rest. p = pw_bytesList (pw_bytesList [] want) have_ids @ rest) \<and> list_fits 24 want \<and> list_fits 24 have_ids) \<and>
   (ParseRefs p = Inr refs \<longleftrightarrow>
      (\<exists>rest. p = foldl put_ref (pw_uvarint [] (len64 refs)) refs @ rest) \<and>
      list_all wire_ref_ok refs \<and> length refs * 40 \<le> max_alloc) \<and>
   (ParseObject p = Inr (i, body) \<longleftrightarrow>
      (\<exists>rest. p = pw_bytes (pw_bytes [] i) body @ rest) \<and> fits64 i \<and> fits64 body) \<and>
   (ParsePush p = Inr (name, old, newv) \<longleftrightarrow>
      (\<exists>rest. p = pw_bytes (pw_bytes (pw_string [] name) old) newv @ rest) \<and>
      fits64 name \<and> fits64 old \<and> fits64 newv) \<and>
   (ParsePin p = Inr (peer, hash, na, reason) \<longleftrightarrow>
      (\<exists>rest. p = pw_string (pw_uvarint (pw_bytes (pw_string [] peer) hash) na) reason @ rest) \<and>
      fits64 peer \<and> fits64 hash \<and> fits64 reason) \<and>
   (ParsePins p = Inr pins \<longleftrightarrow>
      (\<exists>rest. p = foldl put_pin (pw_uvarint [] (len64 pins)) pins @ rest) \<and>
      list_all wire_pin_ok pins \<and> length pins * 32 \<le> max_alloc)"
proof (intro conjI)
  show "ParseGetObjects p = Inr (want, have_ids) \<longleftrightarrow>
      (\<exists>rest. p = pw_bytesList (pw_bytesList [] want) have_ids @ rest) \<and> list_fits 24 want \<and> list_fits 24 have_ids"
    using w_bytesList.put_acc [of "pw_bytesList [] want" have_ids]
    by (auto simp: ParseGetObjects_def rbind_eq_Inr w_bytesList.get_iff)
  show "ParseRefs p = Inr refs \<longleftrightarrow>
      (\<exists>rest. p = foldl put_ref (pw_uvarint [] (len64 refs)) refs @ rest) \<and>
      list_all wire_ref_ok refs \<and> length refs * 40 \<le> max_alloc"
    by (auto simp: ParseRefs_def rbind_eq_Inr w_ref.counted_iff)
  show "ParsePins p = Inr pins \<longleftrightarrow>
      (\<exists>rest. p = foldl put_pin (pw_uvarint [] (len64 pins)) pins @ rest) \<and>
      list_all wire_pin_ok pins \<and> length pins * 32 \<le> max_alloc"
    by (auto simp: ParsePins_def rbind_eq_Inr w_pin.counted_iff)
  show "ParsePin p = Inr (peer, hash, na, reason) \<longleftrightarrow>
      (\<exists>rest. p = pw_string (pw_uvarint (pw_bytes (pw_string [] peer) hash) na) reason @ rest) \<and>
      fits64 peer \<and> fits64 hash \<and> fits64 reason"
    by (auto simp: ParsePin_def rbind_eq_Inr pr_iffs pw_acc) blast
qed (auto simp: ParseObject_def ParsePush_def rbind_eq_Inr pr_iffs pw_acc)

text \<open>A few bytes crash the receiver: a payload that announces more items than the address
  space holds makes every counted list panic in the allocation, before anything that would
  refuse the message, whatever follows the count. A fetch request, a ref listing, a pin listing
  and a greeting all have such a list.\<close>

theorem wire_count_panics:
  assumes "unat n * 8 > max_alloc"
  shows "ParseGetObjects (appendUvarint [] n @ rest) = Inl (Panic ''makeslice: cap out of range'')
    \<and> ParseRefs (appendUvarint [] n @ rest) = Inl (Panic ''makeslice: cap out of range'')
    \<and> ParsePins (appendUvarint [] n @ rest) = Inl (Panic ''makeslice: cap out of range'')
    \<and> pr_stringList (appendUvarint [] n @ rest) = Inl (Panic ''makeslice: cap out of range'')
    \<and> pr_uvarintList (appendUvarint [] n @ rest) = Inl (Panic ''makeslice: cap out of range'')"
  using assms
  by (simp add: ParseGetObjects_def ParseRefs_def ParsePins_def pr_bytesList_def pr_stringList_def
      pr_uvarintList_def w_bytes.counted_panics w_ref.counted_panics w_pin.counted_panics
      w_string.counted_panics w_uvarint.counted_panics)

theorem wire_count_panics_witness:
  "ParseGetObjects (appendUvarint [] 0x1000000000000000 @ []) = Inl (Panic ''makeslice: cap out of range'')"
  using wire_count_panics [of "0x1000000000000000" "[]"] by (simp add: max_alloc_def)

text \<open>A connection that breaks inside a frame header reads as an orderly end of the stream: the
  reader of the header reports the bare \<^verbatim>\<open>io.EOF\<close> after any number of its bytes.\<close>

theorem header_cut_is_eof:
  "ReadFrame \<lparr>cn_r = appendUvarint [] t, cn_w = w\<rparr> = Inl io_EOF"
proof -
  have "readUvarintReader (appendUvarint [] t) = Inr (t, [])" by (simp add: readUvarintReader_iff)
  then show ?thesis by (simp add: ReadFrame_def) (simp add: readUvarintReader_def)
qed

end
