(* ===== verification/Hook.thy ===== *)
theory Hook
  imports Governance
begin

text \<open>
  \<^verbatim>\<open>internal/hook\<close>: the manifest of event hooks and the gate a ref update passes. A module
  runs in a WebAssembly sandbox; the sandbox (\<^verbatim>\<open>hook.Run\<close>, which calls a third-party run
  time) and the JSON text a module reads are one parameter, a function from the module and
  the payload's value to what the run reports.
\<close>

definition hook_Ref :: string where "hook_Ref = ''refs/hooks''"
definition EventRefUpdate :: string where "EventRefUpdate = ''ref-update''"
definition EventPostRefUpdate :: string where "EventPostRefUpdate = ''post-ref-update''"

record ref_update_payload =
  ru_Event :: string
  ru_Ref :: string
  ru_Old :: string
  ru_New :: string

type_synonym 'p runner = "byte list \<Rightarrow> 'p \<Rightarrow> goerr + run_result"

section \<open>The manifest\<close>

definition LoadManifest :: "hash_funs \<Rightarrow> repo \<Rightarrow> goerr + hook_entry list" where
  "LoadManifest h r =
     (case Resolve (r_refs r) hook_Ref of
        Inl e \<Rightarrow> if is_err RefNotExist e then Inr [] else Inl e
      | Inr id' \<Rightarrow> rbind (Get h (r_objects r) id') AsHookConfig)"

definition SetHook :: "hash_funs \<Rightarrow> repo \<Rightarrow> i64 \<Rightarrow> string \<Rightarrow> byte list \<Rightarrow> string \<Rightarrow> (goerr + multihash) \<times> repo" where
  "SetHook h r clock event wasmModule author =
     (case NewBlob wasmModule of
        Inl e \<Rightarrow> (Inl e, r)
      | Inr blob \<Rightarrow>
         (case Put h (r_objects r) blob of
            (Inl e, os) \<Rightarrow> (Inl e, r\<lparr>r_objects := os\<rparr>)
          | (Inr moduleID, os) \<Rightarrow>
             (let r = r\<lparr>r_objects := os\<rparr>
              in case LoadManifest h r of
                   Inl e \<Rightarrow> (Inl e, r)
                 | Inr cfg \<Rightarrow>
                    (let entries = filter (\<lambda>e. h_event e \<noteq> event) cfg @ [\<lparr>h_event = event, h_module = moduleID\<rparr>]
                     in case NewHookConfig entries of
                          Inl e \<Rightarrow> (Inl e, r)
                        | Inr config \<Rightarrow>
                           (case Put h (r_objects r) config of
                              (Inl e, os) \<Rightarrow> (Inl e, r\<lparr>r_objects := os\<rparr>)
                            | (Inr newID, os) \<Rightarrow>
                               (let r = r\<lparr>r_objects := os\<rparr>;
                                    old = (case Resolve (r_refs r) hook_Ref of Inl _ \<Rightarrow> None | Inr x \<Rightarrow> Some x)
                                in case CompareAndSwap (r_refs r) clock hook_Ref old (Some newID) author (''hook:set '' @ event) of
                                     (Inl e, rs) \<Rightarrow> (Inl e, r\<lparr>r_refs := rs\<rparr>)
                                   | (Inr _, rs) \<Rightarrow> (Inr moduleID, r\<lparr>r_refs := rs\<rparr>)))))))"

section \<open>Running\<close>

fun fire_loop :: "hash_funs \<Rightarrow> 'p runner \<Rightarrow> repo \<Rightarrow> string \<Rightarrow> 'p \<Rightarrow> hook_entry list \<Rightarrow> goerr + run_result list" where
  "fire_loop h run r event input [] = Inr []"
| "fire_loop h run r event input (e # es) =
     (if h_event e \<noteq> event then fire_loop h run r event input es
      else
        rbind (Get h (r_objects r) (h_module e)) (\<lambda>obj.
        case BlobContent obj of
          None \<Rightarrow> Inl (Plain ''hook: module is not a blob'')
        | Some wasmModule \<Rightarrow>
            rbind (run wasmModule input) (\<lambda>res.
            rbind (fire_loop h run r event input es) (\<lambda>results.
            Inr (res # results)))))"

definition Fire :: "hash_funs \<Rightarrow> 'p runner \<Rightarrow> repo \<Rightarrow> string \<Rightarrow> 'p \<Rightarrow> goerr + run_result list" where
  "Fire h run r event input =
     rbind (LoadManifest h r) (\<lambda>cfg. fire_loop h run r event input cfg)"

definition hexOrEmpty :: "multihash option \<Rightarrow> string" where
  "hexOrEmpty m = (case m of None \<Rightarrow> [] | Some i \<Rightarrow> Hex i)"

fun verdict :: "string \<Rightarrow> run_result list \<Rightarrow> goerr + unit" where
  "verdict name [] = Inr ()"
| "verdict name (res # results) =
     (if \<not> Allowed res then
        (let msg = trim_space (string_of (hr_Stderr res));
             msg = (if msg = [] then ''exit '' @ FormatInt 10 (hr_ExitCode res) else msg)
         in Inl (Plain (''ref-update '' @ name @ '' vetoed: '' @ msg)))
      else verdict name results)"

definition EvaluateRefUpdate :: "hash_funs \<Rightarrow> ref_update_payload runner \<Rightarrow> repo \<Rightarrow> string
    \<Rightarrow> multihash option \<Rightarrow> multihash option \<Rightarrow> goerr + unit" where
  "EvaluateRefUpdate h run r name old newv =
     (let payload = \<lparr>ru_Event = EventRefUpdate, ru_Ref = name, ru_Old = hexOrEmpty old, ru_New = hexOrEmpty newv\<rparr>
      in rbind (Fire h run r EventRefUpdate payload) (verdict name))"

definition NotifyRefUpdate :: "hash_funs \<Rightarrow> ref_update_payload runner \<Rightarrow> repo \<Rightarrow> string
    \<Rightarrow> multihash option \<Rightarrow> multihash option \<Rightarrow> goerr + unit" where
  "NotifyRefUpdate h run r name old newv =
     (let payload = \<lparr>ru_Event = EventPostRefUpdate, ru_Ref = name, ru_Old = hexOrEmpty old, ru_New = hexOrEmpty newv\<rparr>
      in rbind (Fire h run r EventPostRefUpdate payload) (\<lambda>_. Inr ()))"

section \<open>What the gate lets through\<close>

definition module_allows :: "hash_funs \<Rightarrow> 'p runner \<Rightarrow> repo \<Rightarrow> 'p \<Rightarrow> hook_entry \<Rightarrow> bool" where
  "module_allows h run r input e \<longleftrightarrow>
     (case rbind (Get h (r_objects r) (h_module e)) (\<lambda>obj.
            case BlobContent obj of None \<Rightarrow> Inl (Plain []) | Some m \<Rightarrow> run m input) of
        Inl _ \<Rightarrow> False | Inr res \<Rightarrow> Allowed res)"

lemma module_allows_iff:
  "module_allows h run r input e \<longleftrightarrow>
     (\<exists>obj m res. Get h (r_objects r) (h_module e) = Inr obj \<and> BlobContent obj = Some m \<and>
        run m input = Inr res \<and> hr_ExitCode res = 0)"
proof (cases "Get h (r_objects r) (h_module e)")
  case (Inr obj)
  then show ?thesis
    by (cases "BlobContent obj") (auto simp: module_allows_def Allowed_def split: sum.splits)
qed (simp add: module_allows_def)

lemma verdict_iff: "verdict name results = Inr () \<longleftrightarrow> (\<forall>res \<in> set results. Allowed res)"
  by (induction results) (simp_all add: Let_def)

lemma fire_loop_allowed:
  "(\<exists>results. fire_loop h run r event input es = Inr results \<and> (\<forall>res \<in> set results. Allowed res)) \<longleftrightarrow>
   (\<forall>e \<in> set es. h_event e = event \<longrightarrow> module_allows h run r input e)"
proof (induction es)
  case (Cons e es)
  show ?case
  proof (cases "h_event e = event")
    case ev: True
    show ?thesis
    proof (cases "module_allows h run r input e")
      case True
      then obtain obj m res where "Get h (r_objects r) (h_module e) = Inr obj" "BlobContent obj = Some m"
        "run m input = Inr res" "hr_ExitCode res = 0" by (auto simp: module_allows_iff)
      then show ?thesis using Cons True ev by (auto simp: Allowed_def rbind_eq_Inr)
    next
      case False
      have "\<not> (\<exists>results. fire_loop h run r event input (e # es) = Inr results \<and> (\<forall>res \<in> set results. Allowed res))"
      proof
        assume "\<exists>results. fire_loop h run r event input (e # es) = Inr results \<and> (\<forall>res \<in> set results. Allowed res)"
        then obtain obj m res where "Get h (r_objects r) (h_module e) = Inr obj" "BlobContent obj = Some m"
          "run m input = Inr res" "Allowed res"
          using ev by (auto simp: rbind_eq_Inr split: option.splits)
        with False show False by (simp add: module_allows_iff Allowed_def)
      qed
      with False ev show ?thesis by simp
    qed
  qed (use Cons in simp)
qed simp

lemma EvaluateRefUpdate_iff:
  "EvaluateRefUpdate h run r name old newv = Inr () \<longleftrightarrow>
     (\<exists>cfg. LoadManifest h r = Inr cfg \<and>
        (\<forall>e \<in> set cfg. h_event e = EventRefUpdate \<longrightarrow>
           module_allows h run r \<lparr>ru_Event = EventRefUpdate, ru_Ref = name, ru_Old = hexOrEmpty old,
             ru_New = hexOrEmpty newv\<rparr> e))"
  unfolding fire_loop_allowed [symmetric]
  by (auto simp: EvaluateRefUpdate_def Fire_def rbind_eq_Inr verdict_iff)

section \<open>Properties\<close>

text \<open>The ref-update gate fails closed: an update is let through exactly when the manifest can
  be read and every module bound to the event can be loaded, is a blob, runs to its end and
  exits with zero; any other outcome of any of them refuses the update.\<close>

theorem ref_update_gate_exact:
  "EvaluateRefUpdate h run r name old newv = Inr () \<longleftrightarrow>
     (\<exists>cfg. LoadManifest h r = Inr cfg \<and>
        (\<forall>e \<in> set cfg. h_event e = EventRefUpdate \<longrightarrow>
           (\<exists>obj m res. Get h (r_objects r) (h_module e) = Inr obj \<and> BlobContent obj = Some m \<and>
              run m \<lparr>ru_Event = EventRefUpdate, ru_Ref = name, ru_Old = hexOrEmpty old, ru_New = hexOrEmpty newv\<rparr> = Inr res \<and>
              hr_ExitCode res = 0)))"
  by (simp only: EvaluateRefUpdate_iff module_allows_iff)

end
