(* ===== verification/Closure.thy ===== *)
theory Closure
  imports Notes
begin

text \<open>
  The closure helpers of \<^verbatim>\<open>internal/p2p\<close>: which objects are reachable from an identity along
  the links every object exposes, whether they are all present, and whether one identity
  reaches another. The walks keep their pending identities in an explicit stack with the
  next one first. The closure check follows links without remembering what it has seen, so
  its value \<open>None\<close> is a check that does not return.
\<close>

section \<open>Closures\<close>

lemma unmarked_less:
  assumes "Has s i" "Hex i \<notin> marked"
  shows "card (set (map (snd \<circ> fst) (os_files s)) - insert (Hex i) marked)
    < card (set (map (snd \<circ> fst) (os_files s)) - marked)"
  using Has_key [OF assms(1)] assms(2) by (intro psubset_card_mono) auto

lemma unmarked_le: "card (set xs - insert i marked) \<le> card (set xs - marked)"
  by (rule card_mono) auto

lemma GetRaw_Has: "GetRaw h s i = Inr b \<Longrightarrow> Has s i"
  by (auto simp: GetRaw_iff Has_def)

lemma Get_Has: "rbind (Get h s i) f = Inr x \<Longrightarrow> Has s i"
  by (auto simp: Get_def rbind_eq_Inr intro: GetRaw_Has)

text \<open>Mark what is reachable and present; an unreadable object is marked and not walked through.\<close>

function markClosure :: "hash_funs \<Rightarrow> objstore \<Rightarrow> multihash list \<Rightarrow> string set \<Rightarrow> string set" where
  "markClosure h s [] marked = marked"
| "markClosure h s (id' # stack) marked =
     (if Hex id' \<in> marked \<or> \<not> Has s id' then markClosure h s stack marked
      else
        (let marked = insert (Hex id') marked
         in case rbind (Get h s id') Links of
              Inl _ \<Rightarrow> markClosure h s stack marked
            | Inr links \<Rightarrow> markClosure h s (links @ stack) marked))"
  by pat_completeness auto
termination
  by (relation "measures [\<lambda>(h, s, stack, marked). card (set (map (snd \<circ> fst) (os_files s)) - marked),
        \<lambda>(h, s, stack, marked). length stack]")
    (use unmarked_less in \<open>force simp del: set_map\<close>)+

text \<open>Whether everything reachable from the pending identities is present and readable.\<close>

partial_function (option) hasClosure :: "hash_funs \<Rightarrow> objstore \<Rightarrow> multihash list \<Rightarrow> bool option" where
  "hasClosure h s stack =
     (case stack of
        [] \<Rightarrow> Some True
      | id' # rest \<Rightarrow>
          if \<not> Has s id' then Some False
          else
            (case rbind (Get h s id') Links of
               Inl _ \<Rightarrow> Some False
             | Inr links \<Rightarrow>
                 Option.bind (hasClosure h s links) (\<lambda>b.
                 if b then hasClosure h s rest else Some False)))"

function reachesLoop :: "hash_funs \<Rightarrow> objstore \<Rightarrow> multihash \<Rightarrow> string set \<Rightarrow> multihash list \<Rightarrow> bool" where
  "reachesLoop h s target seen [] = False"
| "reachesLoop h s target seen (id' # queue) =
     (if Equal id' target then True
      else if Hex id' \<in> seen then reachesLoop h s target seen queue
      else
        (case rbind (Get h s id') Links of
           Inl _ \<Rightarrow> reachesLoop h s target (insert (Hex id') seen) queue
         | Inr links \<Rightarrow> reachesLoop h s target (insert (Hex id') seen) (rev links @ queue)))"
  by pat_completeness auto
termination
  by (relation "measures [\<lambda>(h, s, target, seen, queue). card (set (map (snd \<circ> fst) (os_files s)) - seen),
        \<lambda>(h, s, target, seen, queue). length queue]")
    (auto simp: unmarked_less Get_Has order.not_eq_order_implies_strict unmarked_le simp del: set_map)

definition reaches :: "hash_funs \<Rightarrow> objstore \<Rightarrow> multihash \<Rightarrow> multihash \<Rightarrow> bool" where
  "reaches h s from' target = reachesLoop h s target {} [from']"

lemma not_Has_Nil [simp]: "\<not> Has s []"
  by (simp add: Has_def store_path_def mh_decode_def mh_readUvarint_def readUvarint_def)

section \<open>The graph of links\<close>

definition link_rel :: "hash_funs \<Rightarrow> objstore \<Rightarrow> (multihash \<times> multihash) set" where
  "link_rel h s = {(x, y). \<exists>ls. rbind (Get h s x) Links = Inr ls \<and> y \<in> set ls}"

definition readable :: "hash_funs \<Rightarrow> objstore \<Rightarrow> multihash \<Rightarrow> bool" where
  "readable h s x \<longleftrightarrow> (\<exists>ls. rbind (Get h s x) Links = Inr ls)"

definition complete :: "hash_funs \<Rightarrow> objstore \<Rightarrow> multihash \<Rightarrow> bool" where
  "complete h s v \<longleftrightarrow> (\<forall>x. (v, x) \<in> (link_rel h s)\<^sup>* \<longrightarrow> readable h s x)"

lemma readable_Has: "readable h s x \<Longrightarrow> Has s x"
  using Get_Has [of h s x Links] by (auto simp: readable_def)

text \<open>Stores that have kept the objects of another.\<close>

definition keeps :: "hash_funs \<Rightarrow> objstore \<Rightarrow> objstore \<Rightarrow> bool" where
  "keeps h s s' \<longleftrightarrow> (\<forall>i b. GetRaw h s i = Inr b \<longrightarrow> GetRaw h s' i = Inr b)"

lemma keeps_refl [simp]: "keeps h s s"
  by (simp add: keeps_def)

lemma keeps_trans: "keeps h s s' \<Longrightarrow> keeps h s' s'' \<Longrightarrow> keeps h s s''"
  by (simp add: keeps_def)

lemma keeps_Get: "keeps h s s' \<Longrightarrow> rbind (Get h s x) f = Inr y \<Longrightarrow> rbind (Get h s' x) f = Inr y"
  by (auto simp: keeps_def Get_def rbind_eq_Inr)

lemma PutVerified_keeps:
  assumes "wf_hashes h" "store_ok h s" "PutVerified h s i b = (r, s')"
  shows "keeps h s s'"
  unfolding keeps_def
proof (intro allI impI)
  fix j c assume c: "GetRaw h s j = Inr c"
  then obtain p where p: "store_path j = Inr p" "map_of (os_files s) p = Some c" "Verify h j c = Inr True"
    by (auto simp: GetRaw_iff)
  have "map_of (os_files s') p = Some c"
  proof (cases "j = i")
    case True
    then show ?thesis using assms(3) p by (auto simp: PutVerified_def split: sum.splits if_splits)
  next
    case False
    from PutVerified_ok(3) [OF assms False] c p show ?thesis by (auto simp: GetRaw_iff)
  qed
  with p show "GetRaw h s' j = Inr c" by (auto simp: GetRaw_iff)
qed

lemma complete_readable: "complete h s v \<Longrightarrow> readable h s v"
  by (simp add: complete_def)

lemma complete_link: "complete h s v \<Longrightarrow> (v, x) \<in> link_rel h s \<Longrightarrow> complete h s x"
  unfolding complete_def by (meson converse_rtrancl_into_rtrancl)

lemma complete_step:
  assumes "rbind (Get h s v) Links = Inr ls" "\<forall>y \<in> set ls. complete h s y"
  shows "complete h s v"
  unfolding complete_def
proof (intro allI impI)
  fix x assume "(v, x) \<in> (link_rel h s)\<^sup>*"
  then show "readable h s x"
  proof (cases rule: converse_rtranclE)
    case base
    with assms(1) show ?thesis by (simp add: readable_def)
  next
    case (step y)
    with assms show ?thesis by (auto simp: link_rel_def complete_def)
  qed
qed

text \<open>A set of readable identities closed under links is complete.\<close>

lemma complete_coinduct:
  assumes "v \<in> P" "\<And>x. x \<in> P \<Longrightarrow> \<exists>ls. rbind (Get h s x) Links = Inr ls \<and> set ls \<subseteq> P"
  shows "complete h s v"
proof -
  have "x \<in> P" if "(v, x) \<in> (link_rel h s)\<^sup>*" for x
    using that
  proof induction
    case (step y z)
    then show ?case using assms(2) [of y] by (auto simp: link_rel_def)
  qed (rule assms(1))
  then show ?thesis using assms(2) by (fastforce simp: complete_def readable_def)
qed

lemma complete_keeps:
  assumes "keeps h s s'" "complete h s v"
  shows "complete h s' v"
proof (rule complete_coinduct [where P = "{x. complete h s x}"])
  fix x assume x: "x \<in> {x. complete h s x}"
  then obtain ls where ls: "rbind (Get h s x) Links = Inr ls"
    using complete_readable [of h s x] by (auto simp: readable_def)
  moreover have "set ls \<subseteq> {x. complete h s x}"
    using ls x complete_link [of h s x] by (auto simp: link_rel_def)
  ultimately show "\<exists>ls. rbind (Get h s' x) Links = Inr ls \<and> set ls \<subseteq> {x. complete h s x}"
    using keeps_Get [OF assms(1) ls] by blast
qed (use assms in simp)

section \<open>The closure check\<close>

lemmas hasClosure_induct = hasClosure.raw_induct [rotated, consumes 1, case_names step]

lemma hasClosure_sound: "hasClosure h s stack = Some b \<Longrightarrow> b \<longrightarrow> (\<forall>i \<in> set stack. complete h s i)"
proof (induction rule: hasClosure_induct)
  case (step rec h s stack b)
  show ?case
  proof
    assume b
    show "\<forall>i \<in> set stack. complete h s i"
    proof (cases stack)
      case (Cons i rest)
      then obtain ls where ls: "rbind (Get h s i) Links = Inr ls" "rec h s ls = Some True" "rec h s rest = Some True"
        using step.hyps \<open>b\<close> by (auto split: if_splits sum.splits Option.bind_splits)
      from step.IH [OF ls(2)] step.IH [OF ls(3)] complete_step [OF ls(1)] Cons show ?thesis by simp
    qed simp
  qed
qed

lemma hasClosure_Cons:
  "hasClosure h s (i # rest) =
     (if \<not> Has s i then Some False
      else (case rbind (Get h s i) Links of
              Inl _ \<Rightarrow> Some False
            | Inr links \<Rightarrow> Option.bind (hasClosure h s links) (\<lambda>b. if b then hasClosure h s rest else Some False)))"
  by (subst hasClosure.simps) simp

lemma hasClosure_Nil [simp]: "hasClosure h s [] = Some True"
  by (subst hasClosure.simps) simp

lemma hasClosure_returns:
  assumes "wf ((link_rel h s)\<inverse>)"
  shows "\<exists>b. hasClosure h s stack = Some b"
proof -
  have one: "\<forall>rest b. hasClosure h s rest = Some b \<longrightarrow> (\<exists>b'. hasClosure h s (x # rest) = Some b')" for x
    using assms
  proof (induction x rule: wf_induct_rule)
    case (less x)
    show ?case
    proof (cases "rbind (Get h s x) Links")
      case (Inr ls)
      have "(y, x) \<in> (link_rel h s)\<inverse>" if "y \<in> set ls" for y
        using that Inr by (auto simp: link_rel_def)
      then have "\<exists>b. hasClosure h s ls' = Some b" if "set ls' \<subseteq> set ls" for ls'
        using that less by (induction ls') auto
      then obtain b where "hasClosure h s ls = Some b" by blast
      with Inr show ?thesis by (auto simp: hasClosure_Cons)
    qed (auto simp: hasClosure_Cons)
  qed
  then show ?thesis by (induction stack) auto
qed

lemma hasClosure_total:
  "hasClosure h s stack = Some b \<Longrightarrow> (\<forall>i \<in> set stack. complete h s i) \<longrightarrow> b"
proof (induction rule: hasClosure_induct)
  case (step rec h s stack b)
  show ?case
  proof
    assume c: "\<forall>i \<in> set stack. complete h s i"
    show b
    proof (cases stack)
      case (Cons i rest)
      then have ci: "complete h s i" using c by simp
      then obtain ls where ls: "rbind (Get h s i) Links = Inr ls"
        using complete_readable [of h s i] by (auto simp: readable_def)
      have cl: "\<forall>y \<in> set ls. complete h s y"
        using ls complete_link [OF ci] by (auto simp: link_rel_def)
      from step.hyps Cons ls Get_Has [OF ls] obtain b' where b': "rec h s ls = Some b'"
        and r: "(if b' then rec h s rest else Some False) = Some b"
        by (auto split: Option.bind_splits)
      have b' using step.IH [OF b'] cl by simp
      with r have "rec h s rest = Some b" by simp
      from step.IH [OF this] c Cons show ?thesis by simp
    qed (use step.hyps in simp)
  qed
qed

lemma hasClosure_iff:
  assumes "wf ((link_rel h s)\<inverse>)"
  shows "hasClosure h s stack = Some (\<forall>i \<in> set stack. complete h s i)"
proof -
  obtain b where b: "hasClosure h s stack = Some b" using hasClosure_returns [OF assms] by blast
  then have "b = (\<forall>i \<in> set stack. complete h s i)"
    using hasClosure_sound [OF b] hasClosure_total [OF b] by blast
  with b show ?thesis by simp
qed

text \<open>Links cannot form a cycle unless hashes do: the graph of a store is finite.\<close>

lemma finite_link_rel: "finite (link_rel h s)"
proof -
  let ?D = "{x. Has s x}"
  have "Hex ` ?D \<subseteq> set (map (snd \<circ> fst) (os_files s))" using Has_key by blast
  then have "finite (Hex ` ?D)" using finite_subset by blast
  moreover have "inj_on Hex ?D" by (auto intro: inj_onI)
  ultimately have f: "finite ?D" using finite_imageD by blast
  let ?ls = "\<lambda>x. case rbind (Get h s x) Links of Inl _ \<Rightarrow> [] | Inr ls \<Rightarrow> ls"
  have "link_rel h s \<subseteq> Sigma ?D (\<lambda>x. set (?ls x))"
  proof
    fix p assume "p \<in> link_rel h s"
    then obtain x y ls where p: "p = (x, y)" and ls: "rbind (Get h s x) Links = Inr ls" "y \<in> set ls"
      by (auto simp: link_rel_def)
    with Get_Has [OF ls(1)] show "p \<in> Sigma ?D (\<lambda>x. set (?ls x))" by simp
  qed
  moreover have "finite (Sigma ?D (\<lambda>x. set (?ls x)))" by (rule finite_SigmaI [OF f finite_set])
  ultimately show ?thesis by (rule finite_subset)
qed

lemma link_rel_wf: "acyclic (link_rel h s) \<Longrightarrow> wf ((link_rel h s)\<inverse>)"
  by (rule finite_acyclic_wf_converse [OF finite_link_rel])

section \<open>What the walks compute\<close>

lemma markClosure_closed:
  "traced h s marked (set stack) \<Longrightarrow>
   marked \<subseteq> markClosure h s stack marked \<and>
   (\<forall>i \<in> set stack. Has s i \<longrightarrow> Hex i \<in> markClosure h s stack marked) \<and>
   traced h s (markClosure h s stack marked) {}"
proof (induction h s stack marked rule: markClosure.induct)
  case (1 h s marked)
  then show ?case by simp
next
  case (2 h s i stack marked)
  show ?case
  proof (cases "Hex i \<in> marked \<or> \<not> Has s i")
    case True
    have "traced h s marked (set stack)"
      using 2(4) True unfolding traced_def by (metis Hex_inj set_ConsD)
    from 2(1) [OF True this] True show ?thesis by auto
  next
    case False
    let ?m = "insert (Hex i) marked"
    show ?thesis
    proof (cases "rbind (Get h s i) Links")
      case (Inl er)
      have "traced h s ?m (set stack)"
        using 2(4) Inl unfolding traced_def by (auto simp: rbind_def split: sum.splits)
      from 2(2) [OF False refl Inl this] False Inl show ?thesis by auto
    next
      case (Inr ls)
      have "traced h s ?m (set (ls @ stack))"
        using 2(4) Inr unfolding traced_def by (auto simp: rbind_eq_Inr)
      from 2(3) [OF False refl Inr this] False Inr show ?thesis by auto
    qed
  qed
qed

lemma markClosure_sound:
  "\<forall>i \<in> set stack. Has s i \<longrightarrow> reachable h s R i \<Longrightarrow> \<forall>k \<in> marked. \<exists>i. k = Hex i \<and> reachable h s R i \<Longrightarrow>
   \<forall>k \<in> markClosure h s stack marked. \<exists>i. k = Hex i \<and> reachable h s R i"
proof (induction h s stack marked rule: markClosure.induct)
  case (1 h s marked)
  then show ?case by simp
next
  case (2 h s i stack marked)
  show ?case
  proof (cases "Hex i \<in> marked \<or> \<not> Has s i")
    case True
    from 2(1) [OF True] 2(4,5) True show ?thesis by simp
  next
    case False
    then have r: "reachable h s R i" using 2(4) by simp
    have m: "\<forall>k \<in> insert (Hex i) marked. \<exists>j. k = Hex j \<and> reachable h s R j" using 2(5) r by auto
    show ?thesis
    proof (cases "rbind (Get h s i) Links")
      case (Inl er)
      from 2(2) [OF False refl Inl _ m] 2(4) False Inl show ?thesis by simp
    next
      case (Inr ls)
      then obtain obj where g: "Get h s i = Inr obj" "Links obj = Inr ls" by (auto simp: rbind_eq_Inr)
      have "\<forall>j \<in> set (ls @ stack). Has s j \<longrightarrow> reachable h s R j"
        using 2(4) reachable.link [OF r g] by auto
      from 2(3) [OF False refl Inr this m] False Inr show ?thesis by simp
    qed
  qed
qed

lemma markClosure_iff: "Hex i \<in> markClosure h s roots {} \<longleftrightarrow> reachable h s (set roots) i"
proof
  assume "reachable h s (set roots) i"
  moreover have c: "\<forall>i \<in> set roots. Has s i \<longrightarrow> Hex i \<in> markClosure h s roots {}"
    "traced h s (markClosure h s roots {}) {}"
    using markClosure_closed [of h s "{}" roots] by (simp_all add: traced_def)
  ultimately show "Hex i \<in> markClosure h s roots {}"
  proof induction
    case (root r)
    then show ?case by simp
  next
    case (link x obj ls y)
    then show ?case unfolding traced_def by blast
  qed
next
  assume "Hex i \<in> markClosure h s roots {}"
  moreover have "\<forall>i \<in> set roots. Has s i \<longrightarrow> reachable h s (set roots) i" by (auto intro: reachable.root)
  ultimately show "reachable h s (set roots) i"
    using markClosure_sound [of roots s h "set roots" "{}"] by auto
qed

lemma reachesLoop_sound:
  "reachesLoop h s target seen queue \<Longrightarrow> \<forall>x \<in> set queue. (r, x) \<in> (link_rel h s)\<^sup>* \<Longrightarrow> (r, target) \<in> (link_rel h s)\<^sup>*"
proof (induction h s target seen queue rule: reachesLoop.induct)
  case (2 h s target seen i queue)
  show ?case
  proof (cases "i = target \<or> Hex i \<in> seen")
    case True
    with 2(1) 2(4,5) show ?thesis by (auto simp: Equal_iff split: if_splits)
  next
    case False
    then have e: "\<not> Equal i target" "Hex i \<notin> seen" by (simp_all add: Equal_iff)
    show ?thesis
    proof (cases "rbind (Get h s i) Links")
      case (Inl er)
      from 2(2) [OF e Inl] 2(4,5) e Inl show ?thesis by simp
    next
      case (Inr ls)
      have "(r, y) \<in> (link_rel h s)\<^sup>*" if "y \<in> set ls" for y
      proof -
        have "(i, y) \<in> link_rel h s" using that Inr by (auto simp: link_rel_def)
        moreover have "(r, i) \<in> (link_rel h s)\<^sup>*" using 2(5) by simp
        ultimately show ?thesis by (rule rtrancl_into_rtrancl [rotated])
      qed
      then have "\<forall>x \<in> set (rev ls @ queue). (r, x) \<in> (link_rel h s)\<^sup>*" using 2(5) by auto
      from 2(3) [OF e Inr _ this] 2(4) e Inr show ?thesis by simp
    qed
  qed
qed simp

lemma reachesLoop_complete:
  "\<not> reachesLoop h s target seen queue \<Longrightarrow>
   \<forall>x. Hex x \<in> seen \<longrightarrow> x \<noteq> target \<and> (\<forall>y. (x, y) \<in> link_rel h s \<longrightarrow> Hex y \<in> seen \<or> y \<in> set queue) \<Longrightarrow>
   \<exists>V. set queue \<subseteq> V \<and> target \<notin> V \<and> (\<forall>x \<in> V. \<forall>y. (x, y) \<in> link_rel h s \<longrightarrow> y \<in> V)"
proof (induction h s target seen queue rule: reachesLoop.induct)
  case (1 h s target seen)
  then show ?case by (intro exI [of _ "{x. Hex x \<in> seen}"]) auto
next
  case (2 h s target seen i queue)
  from 2(4) have e: "\<not> Equal i target" and it: "i \<noteq> target" by (auto simp: Equal_iff)
  show ?case
  proof (cases "Hex i \<in> seen")
    case True
    let ?V = "\<lambda>V. insert i V"
    have inv: "\<forall>x. Hex x \<in> seen \<longrightarrow> x \<noteq> target \<and> (\<forall>y. (x, y) \<in> link_rel h s \<longrightarrow> Hex y \<in> seen \<or> y \<in> set queue)"
      using 2(5) True by (metis Hex_inj set_ConsD)
    have "\<not> reachesLoop h s target seen queue" using 2(4) True by (simp split: if_splits)
    from 2(1) [OF e True this inv] obtain V where V: "set queue \<subseteq> V" "target \<notin> V"
      "\<forall>x \<in> V. \<forall>y. (x, y) \<in> link_rel h s \<longrightarrow> y \<in> V" by blast
    show ?thesis
      using V inv True it by (intro exI [of _ "V \<union> {x. Hex x \<in> seen}"]) auto
  next
    case False
    let ?seen = "insert (Hex i) seen"
    show ?thesis
    proof (cases "rbind (Get h s i) Links")
      case (Inl er)
      then have "(i, y) \<notin> link_rel h s" for y by (simp add: link_rel_def)
      then have "\<forall>x. Hex x \<in> ?seen \<longrightarrow> x \<noteq> target \<and> (\<forall>y. (x, y) \<in> link_rel h s \<longrightarrow> Hex y \<in> ?seen \<or> y \<in> set queue)"
        using 2(5) it by auto
      moreover have "\<not> reachesLoop h s target ?seen queue" using 2(4) False Inl by (simp split: if_splits)
      ultimately obtain V where V: "set queue \<subseteq> V" "target \<notin> V" "\<forall>x \<in> V. \<forall>y. (x, y) \<in> link_rel h s \<longrightarrow> y \<in> V"
        using 2(2) [OF e False Inl] by blast
      show ?thesis
        using V it Inl by (intro exI [of _ "insert i V"]) (auto simp: link_rel_def)
    next
      case (Inr ls)
      have li: "(i, y) \<in> link_rel h s \<longleftrightarrow> y \<in> set ls" for y using Inr by (auto simp: link_rel_def)
      have "\<forall>x. Hex x \<in> ?seen \<longrightarrow> x \<noteq> target \<and>
          (\<forall>y. (x, y) \<in> link_rel h s \<longrightarrow> Hex y \<in> ?seen \<or> y \<in> set (rev ls @ queue))"
        using 2(5) it li by auto
      moreover have "\<not> reachesLoop h s target ?seen (rev ls @ queue)"
        using 2(4) False Inr by (simp split: if_splits)
      ultimately obtain V where V: "set (rev ls @ queue) \<subseteq> V" "target \<notin> V"
        "\<forall>x \<in> V. \<forall>y. (x, y) \<in> link_rel h s \<longrightarrow> y \<in> V"
        using 2(3) [OF e False Inr] by blast
      show ?thesis
        using V it li by (intro exI [of _ "insert i V"]) auto
    qed
  qed
qed

lemma reaches_iff: "reaches h s from' target \<longleftrightarrow> (from', target) \<in> (link_rel h s)\<^sup>*"
proof
  assume "reaches h s from' target"
  then show "(from', target) \<in> (link_rel h s)\<^sup>*"
    unfolding reaches_def by (rule reachesLoop_sound) simp
next
  assume r: "(from', target) \<in> (link_rel h s)\<^sup>*"
  show "reaches h s from' target"
  proof (rule ccontr)
    assume "\<not> reaches h s from' target"
    then obtain V where V: "from' \<in> V" "target \<notin> V" "\<forall>x \<in> V. \<forall>y. (x, y) \<in> link_rel h s \<longrightarrow> y \<in> V"
      using reachesLoop_complete [of h s target "{}" "[from']"] by (auto simp: reaches_def)
    from r V(1,3) have "target \<in> V" by induction auto
    with V(2) show False by simp
  qed
qed

end
