(* ===== verification/P2PServe.thy ===== *)
theory P2PServe
  imports Wire Hook Closure
begin

text \<open>
  The serving half of \<^verbatim>\<open>internal/p2p\<close>: the request loop a peer runs on an open connection,
  object transfer, pushes behind the ref-update gate, and retention pins. What the code does
  not contain is a parameter: zlib, the hook sandbox, the two clocks (read once per frame)
  and the quota, which is a variable a deployment may set. Other clients of the repository
  do not interleave with a connection. The post-update hooks of a push can
  only report, so their run has no effect here.
\<close>

record p2p_env =
  pe_h :: hash_funs
  pe_deflate :: "byte list \<Rightarrow> byte list"
  pe_inflate :: "byte list \<Rightarrow> goerr + byte list"
  pe_run :: "ref_update_payload runner"
  pe_clock :: "nat \<Rightarrow> i64"
  pe_unix :: "nat \<Rightarrow> i64"
  pe_maxPins :: int

fun err_text :: "goerr \<Rightarrow> string" where
  "err_text (Sentinel s m) = m"
| "err_text (Plain m) = m"
| "err_text (Panic m) = m"

definition resolved :: "refstate \<Rightarrow> string \<Rightarrow> multihash option" where
  "resolved rs n = (case Resolve rs n of Inl _ \<Rightarrow> None | Inr x \<Rightarrow> Some x)"

section \<open>Handshake\<close>

definition localHello :: hello where
  "localHello = \<lparr>h_proto = Proto, h_caps = [CapDeflate, CapArtifactRef, CapPin, CapNotesSync],
     h_hashes = [BLAKE3, SHA2_256]\<rparr>"

definition handshake :: "conn \<Rightarrow> hello \<Rightarrow> goerr + (caps \<times> conn)" where
  "handshake c hello =
     rbind (ReadHandshake (WriteHandshake c hello)) (\<lambda>(peer, c).
     if h_proto peer \<noteq> Proto then Inl (Plain ''p2p: incompatible peer protocol'')
     else Inr (Negotiate (h_caps hello) (h_caps peer), c))"

section \<open>Object payloads\<close>

definition encodeObjPayload :: "p2p_env \<Rightarrow> caps \<Rightarrow> byte list \<Rightarrow> byte list" where
  "encodeObjPayload e caps raw = (if CapDeflate \<notin> set caps then raw else pe_deflate e raw)"

definition decodeObjPayload :: "p2p_env \<Rightarrow> caps \<Rightarrow> byte list \<Rightarrow> goerr + byte list" where
  "decodeObjPayload e caps wireBytes =
     (if CapDeflate \<notin> set caps then Inr wireBytes else pe_inflate e wireBytes)"

definition recvObject :: "p2p_env \<Rightarrow> objstore \<Rightarrow> caps \<Rightarrow> byte list \<Rightarrow> (goerr + unit) \<times> objstore" where
  "recvObject e s caps payload =
     (case ParseObject payload of
        Inl er \<Rightarrow> (Inl er, s)
      | Inr (id', body) \<Rightarrow>
         (case decodeObjPayload e caps body of
            Inl er \<Rightarrow> (Inl er, s)
          | Inr raw \<Rightarrow> PutVerified (pe_h e) s id' raw))"

section \<open>Serving refs and objects\<close>

definition serveListRefs :: "repo \<Rightarrow> conn \<Rightarrow> conn" where
  "serveListRefs r c =
     WriteRefs c (concat (map (\<lambda>n. case Resolve (r_refs r) n of
          Inl _ \<Rightarrow> []
        | Inr id' \<Rightarrow> [\<lparr>wr_name = n, wr_id = id'\<rparr>]) (List_refs (r_refs r))))"

function sendLoop :: "p2p_env \<Rightarrow> objstore \<Rightarrow> caps \<Rightarrow> string set \<Rightarrow> multihash list \<Rightarrow> string set \<Rightarrow> conn
    \<Rightarrow> (goerr + unit) \<times> conn" where
  "sendLoop e s caps prune [] sent c = (Inr (), c)"
| "sendLoop e s caps prune (id' # queue) sent c =
     (if Hex id' \<in> prune \<or> Hex id' \<in> sent then sendLoop e s caps prune queue sent c
      else
        (case GetRaw (pe_h e) s id' of
           Inl _ \<Rightarrow> (Inl (Plain (''p2p: serve missing object '' @ Hex id')), WriteError c (''missing object '' @ Hex id'))
         | Inr raw \<Rightarrow>
            (let c = WriteObject c id' (encodeObjPayload e caps raw)
             in case rbind (Decode raw) Links of
                  Inl er \<Rightarrow> (Inl er, c)
                | Inr links \<Rightarrow> sendLoop e s caps prune (rev links @ queue) (insert (Hex id') sent) c)))"
  by pat_completeness auto

termination
  by (relation "measures [\<lambda>(e, s, caps, prune, queue, sent, c). card (set (map (snd \<circ> fst) (os_files s)) - sent),
        \<lambda>(e, s, caps, prune, queue, sent, c). length queue]")
    (use unmarked_less GetRaw_Has in \<open>force simp del: set_map\<close>)+

definition serveGetObjects :: "p2p_env \<Rightarrow> objstore \<Rightarrow> caps \<Rightarrow> conn \<Rightarrow> byte list \<Rightarrow> (goerr + unit) \<times> conn" where
  "serveGetObjects e s caps c payload =
     (case ParseGetObjects payload of
        Inl er \<Rightarrow> (Inl er, c)
      | Inr (wantB, haveB) \<Rightarrow>
         (let prune = markClosure (pe_h e) s haveB {}
          in case sendLoop e s caps prune (rev wantB) {} c of
               (Inl er, c) \<Rightarrow> (Inl er, c)
             | (Inr _, c) \<Rightarrow> (Inr (), WriteDone c)))"

section \<open>Pushes\<close>

definition servePush :: "p2p_env \<Rightarrow> nat \<Rightarrow> repo \<Rightarrow> conn \<Rightarrow> byte list \<Rightarrow> ((goerr + unit) \<times> repo \<times> conn) option" where
  "servePush e t r c payload =
     (case ParsePush payload of
        Inl er \<Rightarrow> Some (Inl er, r, c)
      | Inr (name, old, newv) \<Rightarrow>
          Option.bind (hasClosure (pe_h e) (r_objects r) [newv]) (\<lambda>ok.
          Some (
            if \<not> ok then (Inr (), r, WriteError c ''push rejected: incomplete object closure'')
            else
              (let oldMH = nil_if_empty old; newMH = nil_if_empty newv
               in case EvaluateRefUpdate (pe_h e) (pe_run e) r name oldMH newMH of
                    Inl er \<Rightarrow> (Inr (), r, WriteError c (''push rejected: '' @ err_text er))
                  | Inr _ \<Rightarrow>
                     (case CompareAndSwap (r_refs r) (pe_clock e t) name oldMH newMH ''p2p-push'' ''push'' of
                        (Inl er, rs) \<Rightarrow> (Inr (), r\<lparr>r_refs := rs\<rparr>, WriteError c (''push rejected: '' @ err_text er))
                      | (Inr _, rs) \<Rightarrow> (Inr (), r\<lparr>r_refs := rs\<rparr>, WriteOK c))))))"

section \<open>Pins\<close>

fun livePins_loop :: "p2p_env \<Rightarrow> nat \<Rightarrow> string \<Rightarrow> string list \<Rightarrow> refstate \<Rightarrow> wire_pin list \<times> refstate" where
  "livePins_loop e t prefix [] rs = ([], rs)"
| "livePins_loop e t prefix (n # ns) rs =
     (if \<not> has_prefix n prefix then livePins_loop e t prefix ns rs
      else
        (case pin_Parse n of
           None \<Rightarrow> livePins_loop e t prefix ns rs
         | Some (_, notAfter, hash) \<Rightarrow>
             if sint notAfter \<le> sint (pe_unix e t) then
               (let (_, rs) = CompareAndSwap rs (pe_clock e t) n (resolved rs n) None ''p2p-pin'' ''expired''
                in livePins_loop e t prefix ns rs)
             else
               (let (out, rs) = livePins_loop e t prefix ns rs
                in (\<lparr>wp_hash = hash, wp_notAfter = notAfter\<rparr> # out, rs))))"

definition livePins :: "p2p_env \<Rightarrow> nat \<Rightarrow> refstate \<Rightarrow> string \<Rightarrow> wire_pin list \<times> refstate" where
  "livePins e t rs peerID = livePins_loop e t (PeerPrefix peerID) (List_refs rs) rs"

fun removePins_loop :: "p2p_env \<Rightarrow> nat \<Rightarrow> string \<Rightarrow> multihash \<Rightarrow> string list \<Rightarrow> refstate \<Rightarrow> (goerr + unit) \<times> refstate" where
  "removePins_loop e t prefix hash [] rs = (Inr (), rs)"
| "removePins_loop e t prefix hash (n # ns) rs =
     (if \<not> has_prefix n prefix then removePins_loop e t prefix hash ns rs
      else
        (case pin_Parse n of
           None \<Rightarrow> removePins_loop e t prefix hash ns rs
         | Some (_, _, h) \<Rightarrow>
             if \<not> Equal h hash then removePins_loop e t prefix hash ns rs
             else
               (case Resolve rs n of
                  Inl _ \<Rightarrow> removePins_loop e t prefix hash ns rs
                | Inr cur \<Rightarrow>
                   (case CompareAndSwap rs (pe_clock e t) n (Some cur) None ''p2p-pin'' ''unpin'' of
                      (Inl er, rs) \<Rightarrow> (Inl er, rs)
                    | (Inr _, rs) \<Rightarrow> removePins_loop e t prefix hash ns rs))))"

definition removePins :: "p2p_env \<Rightarrow> nat \<Rightarrow> refstate \<Rightarrow> string \<Rightarrow> multihash \<Rightarrow> (goerr + unit) \<times> refstate" where
  "removePins e t rs peerID hash = removePins_loop e t (PeerPrefix peerID) hash (List_refs rs) rs"

definition servePin :: "p2p_env \<Rightarrow> nat \<Rightarrow> repo \<Rightarrow> conn \<Rightarrow> caps \<Rightarrow> byte list \<Rightarrow> (goerr + unit) \<times> repo \<times> conn" where
  "servePin e t r c caps payload =
     (if CapPin \<notin> set caps then (Inr (), r, WriteError c ''refused: pin capability not negotiated'')
      else
        (case ParsePin payload of
           Inl er \<Rightarrow> (Inl er, r, c)
         | Inr (peerID, hash, notAfter, _) \<Rightarrow>
             if \<not> Has (r_objects r) hash then (Inr (), r, WriteError c ''refused: unknown_object'')
             else
               (let (live, rs) = livePins e t (r_refs r) peerID;
                    already = list_ex (\<lambda>p. Equal (wp_hash p) hash) live
                in if \<not> already \<and> int (length live) \<ge> pe_maxPins e
                   then (Inr (), r\<lparr>r_refs := rs\<rparr>, WriteError c ''refused: quota'')
                   else
                     (case removePins e t rs peerID hash of
                        (Inl er, rs) \<Rightarrow> (Inl er, r\<lparr>r_refs := rs\<rparr>, c)
                      | (Inr _, rs) \<Rightarrow>
                          (let name = pin_RefName peerID notAfter hash
                           in case CompareAndSwap rs (pe_clock e t) name None (nil_if_empty hash) ''p2p-pin'' ''pin'' of
                                (Inl er, rs) \<Rightarrow> (Inr (), r\<lparr>r_refs := rs\<rparr>, WriteError c (''refused: '' @ err_text er))
                              | (Inr _, rs) \<Rightarrow> (Inr (), r\<lparr>r_refs := rs\<rparr>, WriteOK c))))))"

definition serveUnpin :: "p2p_env \<Rightarrow> nat \<Rightarrow> repo \<Rightarrow> conn \<Rightarrow> caps \<Rightarrow> byte list \<Rightarrow> (goerr + unit) \<times> repo \<times> conn" where
  "serveUnpin e t r c caps payload =
     (if CapPin \<notin> set caps then (Inr (), r, WriteError c ''refused: pin capability not negotiated'')
      else
        (case ParseUnpin payload of
           Inl er \<Rightarrow> (Inl er, r, c)
         | Inr (peerID, hash) \<Rightarrow>
            (case removePins e t (r_refs r) peerID hash of
               (Inl er, rs) \<Rightarrow> (Inr (), r\<lparr>r_refs := rs\<rparr>, WriteError c (''refused: '' @ err_text er))
             | (Inr _, rs) \<Rightarrow> (Inr (), r\<lparr>r_refs := rs\<rparr>, WriteOK c))))"

definition serveListPin :: "p2p_env \<Rightarrow> nat \<Rightarrow> repo \<Rightarrow> conn \<Rightarrow> caps \<Rightarrow> byte list \<Rightarrow> (goerr + unit) \<times> repo \<times> conn" where
  "serveListPin e t r c caps payload =
     (if CapPin \<notin> set caps then (Inr (), r, WriteError c ''refused: pin capability not negotiated'')
      else
        (case ParseListPin payload of
           Inl er \<Rightarrow> (Inl er, r, c)
         | Inr peerID \<Rightarrow>
             (let (live, rs) = livePins e t (r_refs r) peerID
              in (Inr (), r\<lparr>r_refs := rs\<rparr>, WritePins c live))))"

section \<open>The request loop\<close>

definition serveFrame :: "p2p_env \<Rightarrow> nat \<Rightarrow> caps \<Rightarrow> repo \<Rightarrow> conn \<Rightarrow> u64 \<Rightarrow> byte list
    \<Rightarrow> ((goerr + unit) \<times> repo \<times> conn) option" where
  "serveFrame e t caps r c ty payload =
     (if ty = MsgListRefs then Some (Inr (), r, serveListRefs r c)
      else if ty = MsgGetObjects then
        (let (res, c) = serveGetObjects e (r_objects r) caps c payload in Some (res, r, c))
      else if ty = MsgObject then
        (case recvObject e (r_objects r) caps payload of
           (Inl er, os) \<Rightarrow> Some (Inl er, r\<lparr>r_objects := os\<rparr>, WriteError c (err_text er))
         | (Inr _, os) \<Rightarrow> Some (Inr (), r\<lparr>r_objects := os\<rparr>, c))
      else if ty = MsgPush then servePush e t r c payload
      else if ty = MsgPin then Some (servePin e t r c caps payload)
      else if ty = MsgUnpin then Some (serveUnpin e t r c caps payload)
      else if ty = MsgListPin then Some (serveListPin e t r c caps payload)
      else Some (Inl (Plain ''p2p: unexpected message''), r, WriteError c ''unexpected message''))"

text \<open>Handlers only write to the connection.\<close>

lemma write_keeps_r [simp]: "cn_r (writeFrame c ty p) = cn_r c"
  by (simp add: writeFrame_eq)

lemmas write_defs = WriteListRefs_def WriteDone_def WriteOK_def WriteRefs_def WriteGetObjects_def
  WriteObject_def WritePush_def WritePin_def WriteUnpin_def WriteListPin_def WritePins_def WriteError_def

lemma sendLoop_r: "cn_r (snd (sendLoop e s caps prune queue sent c)) = cn_r c"
  by (induction e s caps prune queue sent c rule: sendLoop.induct)
    (auto simp: write_defs Let_def split: sum.splits)

lemma serveFrame_r: "serveFrame e t caps r c ty payload = Some (res, r', c') \<Longrightarrow> cn_r c' = cn_r c"
proof -
  have g: "cn_r (snd (serveGetObjects e s caps c payload)) = cn_r c" for s
    using sendLoop_r [of e s caps _ _ "{}" c]
    by (auto simp: serveGetObjects_def write_defs Let_def split: sum.splits prod.splits) (metis snd_conv)+
  show "serveFrame e t caps r c ty payload = Some (res, r', c') \<Longrightarrow> cn_r c' = cn_r c"
    using g [of "r_objects r"]
    by (auto simp: serveFrame_def serveListRefs_def servePush_def servePin_def serveUnpin_def serveListPin_def
        write_defs Let_def split: if_splits sum.splits prod.splits Option.bind_splits)
qed

function serveLoop :: "p2p_env \<Rightarrow> nat \<Rightarrow> caps \<Rightarrow> repo \<Rightarrow> conn \<Rightarrow> ((goerr + unit) \<times> repo \<times> conn) option" where
  "serveLoop e t caps r c =
     (case ReadFrame c of
        Inl er \<Rightarrow> if er = io_EOF then Some (Inr (), r, c) else Some (Inl er, r, c)
      | Inr ((ty, payload), c) \<Rightarrow>
         (case serveFrame e t caps r c ty payload of
            None \<Rightarrow> None
          | Some (Inl er, r, c) \<Rightarrow> Some (Inl er, r, c)
          | Some (Inr _, r, c) \<Rightarrow> serveLoop e (Suc t) caps r c))"
  by pat_completeness auto
termination
  by (relation "measure (\<lambda>(e, t, caps, r, c). length (cn_r c))")
    (auto dest!: serveFrame_r ReadFrame_shorter)

declare serveLoop.simps [simp del]

definition Serve :: "p2p_env \<Rightarrow> repo \<Rightarrow> conn \<Rightarrow> ((goerr + unit) \<times> repo \<times> conn) option" where
  "Serve e r c =
     (case handshake c localHello of
        Inl er \<Rightarrow> Some (Inl er, r, WriteHandshake c localHello)
      | Inr (caps, c) \<Rightarrow> serveLoop e 0 caps r c)"

section \<open>Refs, whatever becomes of their logs\<close>

text \<open>
  A swap may move a ref and fail to log it, and a line may be too long to be read back. What
  holds of the refs alone is stated of the store with its logs left out.
\<close>

definition ref_part :: "refstate \<Rightarrow> refstate" where
  "ref_part s = s\<lparr>rs_logs := empty_ftree\<rparr>"

definition refs_sound :: "refstate \<Rightarrow> bool" where
  "refs_sound s \<longleftrightarrow> refs_ok (ref_part s)"

lemma refs_sound_ok: "refs_ok s \<Longrightarrow> refs_sound s"
  by (simp add: refs_sound_def ref_part_def refs_ok_def)

lemma ref_part_simps [simp]:
  "rs_refs (ref_part s) = rs_refs s" "current (ref_part s) = current s" "List_refs (ref_part s) = List_refs s"
  by (simp_all add: ref_part_def current_def readRef_def List_refs_def fun_eq_iff)

lemma cas_sound:
  assumes "refs_sound s" "CompareAndSwap s now n old newv a m = (r, s')"
  obtains (kept) er where "r = Inl er" "s' = s"
    | (moved) "ValidName n = Inr ()" "current s n = old" "current s' = (current s)(n := newv)"
        "refs_sound s'" "valid_hash newv"
proof -
  let ?c = "\<lparr>co_name = n, co_old = old, co_new = newv, co_now = now, co_actor = a, co_msg = m\<rparr>"
  have "cas s ?c = (r, s')" using assms(2) by (simp add: cas_def)
  then show thesis
  proof (cases rule: cas_cases)
    case (kept er)
    with \<open>\<And>er. r = Inl er \<Longrightarrow> s' = s \<Longrightarrow> thesis\<close> show ?thesis by blast
  next
    case (moved s1)
    have "moved (ref_part s) n newv = Inr (ref_part s1)"
      using moved(3) by (auto simp: moved_def writeRef_def ref_part_def rbind_eq_Inr split: option.splits sum.splits)
    note m1 = moved_ok [OF assms(1) [unfolded refs_sound_def] this]
    have "rs_refs s' = rs_refs s1" using moved(4) by (auto simp: appendLog_def Let_def split: sum.splits)
    then have "ref_part s' = ref_part s1" by (simp add: ref_part_def)
    then have "current s' = current s1" "refs_sound s'"
      using m1(1) ref_part_simps(2) [of s'] ref_part_simps(2) [of s1] by (simp_all add: refs_sound_def)
    with that(2) moved m1 show ?thesis by simp
  qed
qed

lemma resolved_is_current: "ValidName n = Inr () \<Longrightarrow> resolved rs n = current rs n"
  by (simp add: resolved_def Resolve_def current_def)

lemma set_List_refs: "refs_sound rs \<Longrightarrow> set (List_refs rs) = {n. current rs n \<noteq> None}"
proof -
  assume ok: "refs_sound rs"
  then have "wf_ftree (rs_refs rs)" by (simp add: refs_sound_def refs_ok_def)
  moreover have "current rs n = None \<longleftrightarrow> contents (rs_refs rs) n = None" for n
    using current_None [of "ref_part rs" n] ok by (simp add: refs_sound_def)
  ultimately show ?thesis by (simp add: List_refs_def set_fs_walk)
qed

lemma distinct_List_refs: "refs_sound rs \<Longrightarrow> distinct (List_refs rs)"
  by (simp add: refs_sound_def refs_ok_def List_refs_def distinct_fs_walk)

section \<open>What the pin handlers do to the refs\<close>

text \<open>Pins of one peer may be dropped; everything else stays.\<close>

definition dropped :: "string \<Rightarrow> refstate \<Rightarrow> refstate \<Rightarrow> bool" where
  "dropped prefix rs rs' \<longleftrightarrow> refs_sound rs' \<and>
     (\<forall>n. current rs' n = current rs n \<or> (has_prefix n prefix \<and> current rs' n = None))"

lemma dropped_refl: "refs_sound rs \<Longrightarrow> dropped prefix rs rs"
  by (simp add: dropped_def)

lemma dropped_trans: "dropped prefix rs rs' \<Longrightarrow> dropped prefix rs' rs'' \<Longrightarrow> dropped prefix rs rs''"
  unfolding dropped_def by metis

lemma cas_dropped:
  assumes "refs_sound rs" "has_prefix n prefix" "CompareAndSwap rs now n old None a m = (r, rs')"
  shows "dropped prefix rs rs'"
  using assms(1,3) by (cases rule: cas_sound) (use assms in \<open>auto simp: dropped_def\<close>)

lemma livePins_loop_dropped:
  "livePins_loop e t prefix ns rs = (out, rs') \<Longrightarrow> refs_sound rs \<Longrightarrow> dropped prefix rs rs'"
proof (induction ns arbitrary: rs out)
  case (Cons n ns)
  show ?case
  proof (cases "has_prefix n prefix \<and> (\<exists>peer na h. pin_Parse n = Some (peer, na, h) \<and> sint na \<le> sint (pe_unix e t))")
    case False
    then obtain out1 where "livePins_loop e t prefix ns rs = (out1, rs')"
      using Cons.prems(1) by (auto split: if_splits option.splits prod.splits)
    with Cons.IH Cons.prems(2) show ?thesis by blast
  next
    case True
    obtain r1 rs1 where c: "CompareAndSwap rs (pe_clock e t) n (resolved rs n) None ''p2p-pin'' ''expired'' = (r1, rs1)"
      by fastforce
    have d: "dropped prefix rs rs1" using cas_dropped [OF Cons.prems(2) _ c] True by simp
    have "livePins_loop e t prefix ns rs1 = (out, rs')" using Cons.prems(1) True c by auto
    from Cons.IH [OF this] d show ?thesis using dropped_trans by (auto simp: dropped_def)
  qed
qed (simp add: dropped_refl)

lemma removePins_loop_dropped:
  "removePins_loop e t prefix hash ns rs = (r, rs') \<Longrightarrow> refs_sound rs \<Longrightarrow> dropped prefix rs rs'"
proof (induction ns arbitrary: rs)
  case (Cons n ns)
  show ?case
  proof (cases "has_prefix n prefix \<and> (\<exists>peer na. pin_Parse n = Some (peer, na, hash)) \<and> (\<exists>cur. Resolve rs n = Inr cur)")
    case False
    then have "removePins_loop e t prefix hash ns rs = (r, rs')"
      using Cons.prems(1) by (auto simp: Equal_iff split: if_splits option.splits prod.splits sum.splits)
    with Cons.IH Cons.prems(2) show ?thesis by blast
  next
    case True
    then obtain peer na cur where p: "has_prefix n prefix" "pin_Parse n = Some (peer, na, hash)" "Resolve rs n = Inr cur"
      by auto
    obtain r1 rs1 where c: "CompareAndSwap rs (pe_clock e t) n (Some cur) None ''p2p-pin'' ''unpin'' = (r1, rs1)"
      by fastforce
    have d: "dropped prefix rs rs1" using cas_dropped [OF Cons.prems(2) p(1) c] .
    then have s: "refs_sound rs1" by (simp add: dropped_def)
    show ?thesis
    proof (cases r1)
      case (Inl er)
      with d Cons.prems(1) p c show ?thesis by (simp add: Equal_iff)
    next
      case (Inr u)
      then have "removePins_loop e t prefix hash ns rs1 = (r, rs')" using Cons.prems(1) p c by (simp add: Equal_iff)
      from Cons.IH [OF this s] d show ?thesis by (rule dropped_trans [rotated])
    qed
  qed
qed (simp add: dropped_refl)

section \<open>What a connection can do\<close>

text \<open>
  The promise of a served connection, whatever the peer sends: objects stay, and a ref
  changes only in its pin namespace, where a new pin names an object that is there, or to a
  value whose whole closure is there.
\<close>

definition serve_ok :: "hash_funs \<Rightarrow> repo \<Rightarrow> bool" where
  "serve_ok h r \<longleftrightarrow> store_ok h (r_objects r) \<and> refs_sound (r_refs r)"

definition served :: "hash_funs \<Rightarrow> repo \<Rightarrow> repo \<Rightarrow> bool" where
  "served h r r' \<longleftrightarrow>
     serve_ok h r' \<and> keeps h (r_objects r) (r_objects r') \<and>
     (\<forall>n. current (r_refs r') n = current (r_refs r) n \<or>
        (IsPinRef n \<and> (\<forall>v. current (r_refs r') n = Some v \<longrightarrow> Has (r_objects r') v)) \<or>
        (\<exists>v. current (r_refs r') n = Some v \<and> complete h (r_objects r') v))"

lemma served_refl: "serve_ok h r \<Longrightarrow> served h r r"
  by (simp add: served_def)

lemma keeps_Has: "store_ok h s \<Longrightarrow> store_ok h s' \<Longrightarrow> keeps h s s' \<Longrightarrow> Has s i \<Longrightarrow> Has s' i"
  by (auto simp: Has_GetRaw keeps_def)

lemma served_trans:
  assumes "serve_ok h r" "served h r r'" "served h r' r''"
  shows "served h r r''"
  unfolding served_def
proof (intro conjI allI)
  have ok: "serve_ok h r'" "serve_ok h r''" and k: "keeps h (r_objects r') (r_objects r'')"
    using assms by (simp_all add: served_def)
  show "serve_ok h r''" by fact
  show "keeps h (r_objects r) (r_objects r'')" using assms keeps_trans by (auto simp: served_def)
  fix n
  have has: "Has (r_objects r') v \<Longrightarrow> Has (r_objects r'') v" for v
    using keeps_Has [OF _ _ k] ok by (simp add: serve_ok_def)
  have com: "complete h (r_objects r') v \<Longrightarrow> complete h (r_objects r'') v" for v
    using complete_keeps [OF k] .
  have first: "current (r_refs r') n = current (r_refs r) n \<or>
      (IsPinRef n \<and> (\<forall>v. current (r_refs r') n = Some v \<longrightarrow> Has (r_objects r') v)) \<or>
      (\<exists>v. current (r_refs r') n = Some v \<and> complete h (r_objects r') v)"
    using assms(2) unfolding served_def by blast
  have "current (r_refs r'') n = current (r_refs r') n \<or>
      (IsPinRef n \<and> (\<forall>v. current (r_refs r'') n = Some v \<longrightarrow> Has (r_objects r'') v)) \<or>
      (\<exists>v. current (r_refs r'') n = Some v \<and> complete h (r_objects r'') v)"
    using assms(3) unfolding served_def by blast
  then show "current (r_refs r'') n = current (r_refs r) n \<or>
      (IsPinRef n \<and> (\<forall>v. current (r_refs r'') n = Some v \<longrightarrow> Has (r_objects r'') v)) \<or>
      (\<exists>v. current (r_refs r'') n = Some v \<and> complete h (r_objects r'') v)"
  proof (elim disjE)
    assume "current (r_refs r'') n = current (r_refs r') n"
    with first has com show ?thesis by auto
  qed simp_all
qed

lemma PeerPrefix_pin: "has_prefix n (PeerPrefix p) \<Longrightarrow> IsPinRef n"
  by (auto simp: has_prefix_iff PeerPrefix_def IsPinRef_def)

lemma dropped_served:
  assumes "serve_ok h r" "dropped (PeerPrefix p) (r_refs r) rs"
  shows "served h r (r\<lparr>r_refs := rs\<rparr>)"
  using assms PeerPrefix_pin unfolding served_def serve_ok_def dropped_def by auto

lemma servePush_served:
  assumes "serve_ok (pe_h e) r" "servePush e t r c payload = Some (res, r', c')"
  shows "served (pe_h e) r r'"
proof -
  consider "r' = r" | name old newv rs x where "hasClosure (pe_h e) (r_objects r) [newv] = Some True"
    "CompareAndSwap (r_refs r) (pe_clock e t) name (nil_if_empty old) (nil_if_empty newv) ''p2p-push'' ''push'' = (x, rs)"
    "r' = r\<lparr>r_refs := rs\<rparr>"
  proof (cases "ParsePush payload")
    case (Inl er)
    with assms(2) that(1) show ?thesis by (simp add: servePush_def)
  next
    case (Inr p)
    obtain name old newv where p: "p = (name, old, newv)" by (cases p)
    obtain x rs where c: "CompareAndSwap (r_refs r) (pe_clock e t) name (nil_if_empty old) (nil_if_empty newv)
        ''p2p-push'' ''push'' = (x, rs)" by fastforce
    consider "hasClosure (pe_h e) (r_objects r) [newv] = Some False"
      | "hasClosure (pe_h e) (r_objects r) [newv] = Some True"
      using assms(2) Inr p by (cases "hasClosure (pe_h e) (r_objects r) [newv]") (auto simp: servePush_def)
    then show ?thesis
    proof cases
      case 1
      with assms(2) Inr p that(1) show ?thesis by (simp add: servePush_def)
    next
      case 2
      with assms(2) Inr p c have "r' = r \<or> r' = r\<lparr>r_refs := rs\<rparr>"
        by (auto simp: servePush_def Let_def split: sum.splits)
      with that 2 c show ?thesis by blast
    qed
  qed
  then show ?thesis
  proof cases
    case 1
    with assms(1) show ?thesis by (simp add: served_refl)
  next
    case (2 name old newv rs x)
    have com: "complete (pe_h e) (r_objects r) newv" using hasClosure_sound [OF 2(1)] by simp
    then have "readable (pe_h e) (r_objects r) newv" by (rule complete_readable)
    then have ne: "newv \<noteq> []"
      using readable_Has [of "pe_h e" "r_objects r" newv] by auto
    have "refs_sound (r_refs r)" using assms(1) by (simp add: serve_ok_def)
    from this 2(2) show ?thesis
    proof (cases rule: cas_sound)
      case (kept er)
      with 2 assms(1) show ?thesis by (simp add: served_refl)
    next
      case moved
      with 2 assms(1) com ne show ?thesis by (auto simp: served_def serve_ok_def)
    qed
  qed
qed

lemma servePin_served:
  assumes "serve_ok (pe_h e) r" "servePin e t r c caps payload = (res, r', c')"
  shows "served (pe_h e) r r'"
proof -
  have id: "served (pe_h e) r r" using assms(1) by (rule served_refl)
  show ?thesis
  proof (cases "ParsePin payload")
    case (Inl er)
    with assms(2) id show ?thesis by (auto simp: servePin_def split: if_splits)
  next
    case (Inr p)
    obtain peer hash na reason where p: "p = (peer, hash, na, reason)" by (cases p)
    obtain live rs1 where l: "livePins e t (r_refs r) peer = (live, rs1)" by fastforce
    obtain x2 rs2 where rm: "removePins e t rs1 peer hash = (x2, rs2)" by fastforce
    let ?name = "pin_RefName peer na hash"
    obtain x3 rs3 where c: "CompareAndSwap rs2 (pe_clock e t) ?name None (nil_if_empty hash) ''p2p-pin'' ''pin'' = (x3, rs3)"
      by fastforce
    have d1: "dropped (PeerPrefix peer) (r_refs r) rs1"
      using livePins_loop_dropped [OF l [unfolded livePins_def]] assms(1) by (simp add: serve_ok_def)
    then have s1: "refs_sound rs1" by (simp add: dropped_def)
    have d2: "dropped (PeerPrefix peer) (r_refs r) rs2"
      using removePins_loop_dropped [OF rm [unfolded removePins_def] s1] d1 dropped_trans by blast
    then have s2: "refs_sound rs2" by (simp add: dropped_def)
    consider "r' = r" | "r' = r\<lparr>r_refs := rs1\<rparr>" | "r' = r\<lparr>r_refs := rs2\<rparr>"
      | "Has (r_objects r) hash" "r' = r\<lparr>r_refs := rs3\<rparr>"
    proof (cases "CapPin \<notin> set caps \<or> \<not> Has (r_objects r) hash")
      case True
      with assms(2) Inr p that(1) show ?thesis by (auto simp: servePin_def split: if_splits)
    next
      case False
      with assms(2) Inr p l rm c have "r' \<in> {r\<lparr>r_refs := rs1\<rparr>, r\<lparr>r_refs := rs2\<rparr>, r\<lparr>r_refs := rs3\<rparr>}"
        by (cases x2; cases x3) (simp_all add: servePin_def split: if_split_asm)
      with that False show ?thesis by blast
    qed
    then show ?thesis
    proof cases
      case 4
      from s2 c show ?thesis
      proof (cases rule: cas_sound)
        case (kept er)
        with 4 dropped_served [OF assms(1) d2] show ?thesis by simp
      next
        case moved
        have pin: "IsPinRef ?name" using RefName_PeerPrefix PeerPrefix_pin by blast
        have "current rs3 n = current (r_refs r) n \<or>
            (IsPinRef n \<and> (\<forall>v. current rs3 n = Some v \<longrightarrow> Has (r_objects r) v))" for n
          using d2 PeerPrefix_pin [of n peer] moved(3) pin 4(1)
          by (cases "n = ?name") (auto simp: dropped_def)
        with 4 moved(4) assms(1) show ?thesis by (simp add: served_def serve_ok_def) blast
      qed
    qed (use id dropped_served [OF assms(1)] d1 d2 in auto)
  qed
qed

lemma serveUnpin_served:
  assumes "serve_ok (pe_h e) r" "serveUnpin e t r c caps payload = (res, r', c')"
  shows "served (pe_h e) r r'"
proof -
  have ok: "refs_sound (r_refs r)" using assms(1) by (simp add: serve_ok_def)
  have "r' = r \<or> (\<exists>peer hash x rs. removePins e t (r_refs r) peer hash = (x, rs) \<and> r' = r\<lparr>r_refs := rs\<rparr>)"
    using assms(2) by (auto simp: serveUnpin_def split: if_splits sum.splits prod.splits)
  then show ?thesis
    using served_refl [OF assms(1)] dropped_served [OF assms(1) removePins_loop_dropped [OF _ ok]]
    unfolding removePins_def by blast
qed

lemma serveListPin_served:
  assumes "serve_ok (pe_h e) r" "serveListPin e t r c caps payload = (res, r', c')"
  shows "served (pe_h e) r r'"
proof -
  have ok: "refs_sound (r_refs r)" using assms(1) by (simp add: serve_ok_def)
  have "r' = r \<or> (\<exists>peer out rs. livePins e t (r_refs r) peer = (out, rs) \<and> r' = r\<lparr>r_refs := rs\<rparr>)"
    using assms(2) by (auto simp: serveListPin_def split: if_splits sum.splits prod.splits)
  then show ?thesis
    using served_refl [OF assms(1)] dropped_served [OF assms(1) livePins_loop_dropped [OF _ ok]]
    unfolding livePins_def by blast
qed

lemma serveFrame_served:
  assumes "wf_hashes (pe_h e)" "serve_ok (pe_h e) r" "serveFrame e t caps r c ty payload = Some (res, r', c')"
  shows "served (pe_h e) r r'"
proof -
  have id: "served (pe_h e) r r" using assms(2) by (rule served_refl)
  have ok: "store_ok (pe_h e) (r_objects r)" "refs_sound (r_refs r)" using assms(2) by (simp_all add: serve_ok_def)
  have obj: "served (pe_h e) r (r\<lparr>r_objects := os\<rparr>)"
    if o: "recvObject e (r_objects r) caps payload = (x, os)" for x os
  proof (cases "os = r_objects r")
    case False
    then obtain i raw where "PutVerified (pe_h e) (r_objects r) i raw = (x, os)"
      using o by (auto simp: recvObject_def split: sum.splits prod.splits)
    then show ?thesis
      using PutVerified_ok(1) [OF assms(1) ok(1)] PutVerified_keeps [OF assms(1) ok(1)] ok
      by (auto simp: served_def serve_ok_def)
  qed (use id in simp)
  show ?thesis
  proof (cases "ty \<in> {MsgObject, MsgPush, MsgPin, MsgUnpin, MsgListPin}")
    case False
    then have "r' = r" using assms(3) by (auto simp: serveFrame_def split: if_splits prod.splits)
    with id show ?thesis by simp
  next
    case True
    then consider "ty = MsgObject" | "ty = MsgPush" | "ty = MsgPin" | "ty = MsgUnpin" | "ty = MsgListPin" by blast
    then show ?thesis
    proof cases
      case 1
      obtain x os where o: "recvObject e (r_objects r) caps payload = (x, os)" by fastforce
      with 1 assms(3) have "r' = r\<lparr>r_objects := os\<rparr>" by (cases x) (simp_all add: serveFrame_def msg_defs)
      with obj [OF o] show ?thesis by simp
    next
      case 2
      with assms(3) have "servePush e t r c payload = Some (res, r', c')" by (simp add: serveFrame_def msg_defs)
      then show ?thesis by (rule servePush_served [OF assms(2)])
    next
      case 3
      with assms(3) have "servePin e t r c caps payload = (res, r', c')" by (simp add: serveFrame_def msg_defs)
      then show ?thesis by (rule servePin_served [OF assms(2)])
    next
      case 4
      with assms(3) have "serveUnpin e t r c caps payload = (res, r', c')" by (simp add: serveFrame_def msg_defs)
      then show ?thesis by (rule serveUnpin_served [OF assms(2)])
    next
      case 5
      with assms(3) have "serveListPin e t r c caps payload = (res, r', c')" by (simp add: serveFrame_def msg_defs)
      then show ?thesis by (rule serveListPin_served [OF assms(2)])
    qed
  qed
qed

lemma serveLoop_served:
  "serveLoop e t caps r c = Some (res, r', c') \<Longrightarrow> wf_hashes (pe_h e) \<Longrightarrow> serve_ok (pe_h e) r \<Longrightarrow>
   served (pe_h e) r r'"
proof (induction e t caps r c arbitrary: res r' c' rule: serveLoop.induct)
  case (1 e t caps r c)
  show ?case
  proof (cases "ReadFrame c")
    case (Inl er)
    with 1 show ?thesis by (auto simp: serveLoop.simps [of e t caps r c] served_refl split: if_splits)
  next
    case (Inr m)
    obtain ty p c1 where m: "m = ((ty, p), c1)" by (cases m) auto
    obtain x r1 c2 where f: "serveFrame e t caps r c1 ty p = Some (x, r1, c2)"
      using 1(2) Inr m by (cases "serveFrame e t caps r c1 ty p") (auto simp: serveLoop.simps [of e t caps r c])
    note sf = serveFrame_served [OF 1(3,4) f]
    show ?thesis
    proof (cases x)
      case (Inl er)
      with 1(2) Inr m f sf show ?thesis by (simp add: serveLoop.simps [of e t caps r c])
    next
      case xr: (Inr u)
      then have "serveLoop e (Suc t) caps r1 c2 = Some (res, r', c')"
        using 1(2) Inr m f by (simp add: serveLoop.simps [of e t caps r c])
      from 1(1) [OF Inr m [symmetric] refl f [unfolded xr] refl refl refl this 1(3)] sf
      have "served (pe_h e) r1 r'" by (simp add: served_def)
      with served_trans [OF 1(4) sf] show ?thesis by blast
    qed
  qed
qed

section \<open>The pin quota\<close>

definition live_name :: "p2p_env \<Rightarrow> nat \<Rightarrow> string \<Rightarrow> string \<Rightarrow> bool" where
  "live_name e t peer n \<longleftrightarrow> has_prefix n (PeerPrefix peer) \<and>
     (case pin_Parse n of None \<Rightarrow> False | Some (_, na, _) \<Rightarrow> sint (pe_unix e t) < sint na)"

definition live_pins :: "p2p_env \<Rightarrow> nat \<Rightarrow> string \<Rightarrow> refstate \<Rightarrow> string set" where
  "live_pins e t peer rs = {n. current rs n \<noteq> None \<and> live_name e t peer n}"

definition names_valid :: "refstate \<Rightarrow> bool" where
  "names_valid rs \<longleftrightarrow> (\<forall>n. current rs n \<noteq> None \<longrightarrow> ValidName n = Inr ())"

definition pin_of :: "string \<Rightarrow> wire_pin" where
  "pin_of n = (case pin_Parse n of None \<Rightarrow> \<lparr>wp_hash = [], wp_notAfter = 0\<rparr>
     | Some (_, na, h) \<Rightarrow> \<lparr>wp_hash = h, wp_notAfter = na\<rparr>)"

lemma livePins_loop_out:
  "livePins_loop e t (PeerPrefix peer) ns rs = (out, rs') \<Longrightarrow> out = map pin_of (filter (live_name e t peer) ns)"
proof (induction ns arbitrary: rs out)
  case (Cons n ns)
  show ?case
  proof (cases "has_prefix n (PeerPrefix peer) \<and> pin_Parse n \<noteq> None")
    case False
    then have "livePins_loop e t (PeerPrefix peer) ns rs = (out, rs')" "\<not> live_name e t peer n"
      using Cons.prems by (auto simp: live_name_def split: option.splits)
    with Cons.IH show ?thesis by auto
  next
    case True
    then obtain q na h where p: "has_prefix n (PeerPrefix peer)" "pin_Parse n = Some (q, na, h)" by auto
    show ?thesis
    proof (cases "sint na \<le> sint (pe_unix e t)")
      case x: True
      then obtain rs1 where "livePins_loop e t (PeerPrefix peer) ns rs1 = (out, rs')"
        using Cons.prems p by (auto split: prod.splits)
      from Cons.IH [OF this] p x show ?thesis by (simp add: live_name_def)
    next
      case x: False
      then obtain out1 where "livePins_loop e t (PeerPrefix peer) ns rs = (out1, rs')"
        "out = \<lparr>wp_hash = h, wp_notAfter = na\<rparr> # out1"
        using Cons.prems p by (auto split: prod.splits)
      with Cons.IH [OF this(1)] p x show ?thesis by (simp add: live_name_def pin_of_def)
    qed
  qed
qed simp

lemma livePins_count:
  assumes "livePins e t rs peer = (out, rs')" "refs_sound rs"
  shows "length out = card (live_pins e t peer rs)"
    and "list_ex (\<lambda>p. Equal (wp_hash p) hash) out \<Longrightarrow>
      \<exists>n q na. n \<in> live_pins e t peer rs \<and> pin_Parse n = Some (q, na, hash)"
proof -
  have out: "out = map pin_of (filter (live_name e t peer) (List_refs rs))"
    using livePins_loop_out assms(1) by (simp add: livePins_def)
  have set: "set (filter (live_name e t peer) (List_refs rs)) = live_pins e t peer rs"
    using set_List_refs [OF assms(2)] by (auto simp: live_pins_def)
  show "length out = card (live_pins e t peer rs)"
    using distinct_card [OF distinct_filter [OF distinct_List_refs [OF assms(2)]], of "live_name e t peer"]
    by (simp add: out set del: set_filter)
  assume "list_ex (\<lambda>p. Equal (wp_hash p) hash) out"
  then obtain n where n: "n \<in> live_pins e t peer rs" "wp_hash (pin_of n) = hash"
    unfolding out set [symmetric] by (auto simp: list_ex_iff Equal_iff)
  then show "\<exists>n q na. n \<in> live_pins e t peer rs \<and> pin_Parse n = Some (q, na, hash)"
    by (rule_tac x = n in exI) (auto simp: live_pins_def live_name_def pin_of_def split: option.splits)
qed

lemma live_pins_finite: "refs_sound rs \<Longrightarrow> finite (live_pins e t peer rs)"
  using set_List_refs [of rs] finite_set [of "List_refs rs"] by (auto simp: live_pins_def intro: finite_subset)

lemma dropped_live: "dropped prefix rs rs' \<Longrightarrow> live_pins e t q rs' \<subseteq> live_pins e t q rs"
  by (auto simp: dropped_def live_pins_def) (metis option.distinct(1))

lemma removePins_loop_gone:
  "removePins_loop e t prefix hash ns rs = (Inr u, rs') \<Longrightarrow> refs_sound rs \<Longrightarrow> n \<in> set ns \<Longrightarrow>
   has_prefix n prefix \<Longrightarrow> pin_Parse n = Some (q, na, hash) \<Longrightarrow> ValidName n = Inr () \<Longrightarrow> current rs' n = None"
proof (induction ns arbitrary: rs)
  case (Cons m ns)
  have later: "current rs' n = None"
    if "current rs1 n = None" "refs_sound rs1" "removePins_loop e t prefix hash ns rs1 = (Inr u, rs')" for rs1
    using removePins_loop_dropped [OF that(3,2)] that(1) by (metis dropped_def)
  show ?case
  proof (cases "has_prefix m prefix \<and> (\<exists>q na. pin_Parse m = Some (q, na, hash)) \<and> (\<exists>cur. Resolve rs m = Inr cur)")
    case False
    then have r: "removePins_loop e t prefix hash ns rs = (Inr u, rs')"
      using Cons.prems(1) by (auto simp: Equal_iff split: if_splits option.splits prod.splits sum.splits)
    show ?thesis
    proof (cases "n = m")
      case True
      with False Cons.prems have "resolved rs n = None" by (auto simp: resolved_def split: sum.splits)
      then have "current rs n = None" using resolved_is_current Cons.prems by simp
      then show ?thesis by (rule later [OF _ Cons.prems(2) r])
    next
      case nm: False
      then have "n \<in> set ns" using Cons.prems by simp
      from Cons.IH [OF r Cons.prems(2) this Cons.prems(4-6)] show ?thesis .
    qed
  next
    case True
    then obtain q' na' cur where p: "has_prefix m prefix" "pin_Parse m = Some (q', na', hash)" "Resolve rs m = Inr cur"
      by auto
    obtain r1 rs1 where c: "CompareAndSwap rs (pe_clock e t) m (Some cur) None ''p2p-pin'' ''unpin'' = (r1, rs1)"
      by fastforce
    then obtain v where r1: "r1 = Inr v" and r: "removePins_loop e t prefix hash ns rs1 = (Inr u, rs')"
      using Cons.prems(1) p by (cases r1) (auto simp: Equal_iff)
    from Cons.prems(2) c have m: "refs_sound rs1" "current rs1 = (current rs)(m := None)"
      by (cases rule: cas_sound; use r1 in simp)+
    show ?thesis
    proof (cases "n = m")
      case True
      with later [OF _ m(1) r] m(2) show ?thesis by simp
    next
      case False
      then have "n \<in> set ns" using Cons.prems by simp
      from Cons.IH [OF r m(1) this Cons.prems(4-6)] show ?thesis .
    qed
  qed
qed simp

lemma servePin_quota:
  assumes ok: "refs_sound (r_refs r)" "names_valid (r_refs r)"
    and run: "servePin e t r c caps payload = (res, r', c')"
  shows "int (card (live_pins e t q (r_refs r'))) \<le> max (int (card (live_pins e t q (r_refs r)))) (pe_maxPins e)"
proof -
  let ?L = "live_pins e t q"
  have fin: "finite (?L (r_refs r))" by (rule live_pins_finite [OF ok(1)])
  have sub: "?thesis" if "?L (r_refs r') \<subseteq> ?L (r_refs r)"
    using card_mono [OF fin that] by simp
  show ?thesis
  proof (cases "ParsePin payload")
    case (Inl er)
    with run sub show ?thesis by (auto simp: servePin_def split: if_splits)
  next
    case (Inr p)
    obtain peer hash na reason where p: "p = (peer, hash, na, reason)" by (cases p)
    obtain live rs1 where l: "livePins e t (r_refs r) peer = (live, rs1)" by fastforce
    obtain x2 rs2 where rm: "removePins e t rs1 peer hash = (x2, rs2)" by fastforce
    let ?name = "pin_RefName peer na hash"
    obtain x3 rs3 where c: "CompareAndSwap rs2 (pe_clock e t) ?name None (nil_if_empty hash) ''p2p-pin'' ''pin'' = (x3, rs3)"
      by fastforce
    have d1: "dropped (PeerPrefix peer) (r_refs r) rs1"
      using livePins_loop_dropped [OF l [unfolded livePins_def] ok(1)] .
    then have s1: "refs_sound rs1" by (simp add: dropped_def)
    have d2': "dropped (PeerPrefix peer) rs1 rs2"
      using removePins_loop_dropped [OF rm [unfolded removePins_def] s1] .
    have d2: "dropped (PeerPrefix peer) (r_refs r) rs2" using dropped_trans [OF d1 d2'] .
    then have s2: "refs_sound rs2" by (simp add: dropped_def)
    let ?already = "list_ex (\<lambda>p. Equal (wp_hash p) hash) live"
    show ?thesis
    proof (cases "CapPin \<in> set caps \<and> Has (r_objects r) hash \<and> (?already \<or> int (length live) < pe_maxPins e) \<and> (\<exists>u. x2 = Inr u)")
      case False
      then have "r_refs r' \<in> {r_refs r, rs1, rs2}"
        using run Inr p l rm by (cases x2) (auto simp: servePin_def split: if_splits)
      then show ?thesis using sub dropped_live [OF d1] dropped_live [OF d2] by auto
    next
      case True
      then obtain u where u: "x2 = Inr u" by blast
      have r': "r_refs r' = rs3"
        using run Inr p l rm c True u by (cases x3) (auto simp: servePin_def split: if_splits)
      from s2 c show ?thesis
      proof (cases rule: cas_sound)
        case (kept er)
        then show ?thesis using sub dropped_live [OF d2] r' by simp
      next
        case moved
        have ins: "?L rs3 \<subseteq> insert ?name (?L rs2)" by (auto simp: live_pins_def moved(3) split: if_splits)
        show ?thesis
        proof (cases "q = peer")
          case False
          then have "\<not> live_name e t q ?name" by (simp add: live_name_def RefName_PeerPrefix)
          then have "?name \<notin> ?L rs3" by (simp add: live_pins_def)
          with ins have "?L rs3 \<subseteq> ?L rs2" by blast
          with sub dropped_live [OF d2] r' show ?thesis by blast
        next
          case q: True
          have fin2: "finite (?L rs2)" by (rule live_pins_finite [OF s2])
          have c3: "card (?L rs3) \<le> Suc (card (?L rs2))"
            using card_mono [OF _ ins] fin2 by (simp add: card_insert_if split: if_splits)
          note cnt = livePins_count [OF l ok(1)]
          show ?thesis
          proof (cases ?already)
            case False
            then have "int (card (?L (r_refs r))) < pe_maxPins e" using True cnt(1) q by simp
            moreover have "card (?L rs2) \<le> card (?L (r_refs r))" using card_mono [OF fin dropped_live [OF d2]] .
            ultimately show ?thesis using c3 r' by simp
          next
            case al: True
            from cnt(2) [OF al] obtain n q' na' where n: "n \<in> ?L (r_refs r)" "pin_Parse n = Some (q', na', hash)"
              using q by blast
            have pre: "has_prefix n (PeerPrefix peer)" "ValidName n = Inr ()"
              using n(1) ok(2) q by (auto simp: live_pins_def live_name_def names_valid_def)
            have "current rs2 n = None"
            proof (cases "current rs1 n = None")
              case True
              with d2' show ?thesis by (metis dropped_def)
            next
              case False
              then have "n \<in> set (List_refs rs1)" using set_List_refs [OF s1] by simp
              from removePins_loop_gone [OF rm [unfolded removePins_def u] s1 this pre(1) n(2) pre(2)]
              show ?thesis .
            qed
            then have "n \<notin> ?L rs2" by (simp add: live_pins_def)
            then have "?L rs2 \<subset> ?L (r_refs r)" using dropped_live [OF d2] n(1) by blast
            then have "card (?L rs2) < card (?L (r_refs r))" by (rule psubset_card_mono [OF fin])
            then show ?thesis using c3 r' by simp
          qed
        qed
      qed
    qed
  qed
qed

section \<open>Properties\<close>

text \<open>C8. Whatever bytes a peer sends, and in whatever state the connection ends, serving it keeps the
  repository sound: every object stays readable with its bytes, and a ref that changed either is a
  pin, pointing at an object that is there if it points at all, or has a new value whose whole
  closure is present and readable. No peer can delete a ref that is not a pin, and none can make
  a branch point into a hole.\<close>

theorem serve_confined:
  assumes "wf_hashes (pe_h e)" "store_ok (pe_h e) (r_objects r)" "refs_sound (r_refs r)"
    and "Serve e r c = Some (res, r', c')"
  shows "store_ok (pe_h e) (r_objects r') \<and> refs_sound (r_refs r') \<and>
     (\<forall>i b. GetRaw (pe_h e) (r_objects r) i = Inr b \<longrightarrow> GetRaw (pe_h e) (r_objects r') i = Inr b) \<and>
     (\<forall>n. current (r_refs r') n = current (r_refs r) n \<or>
        (IsPinRef n \<and> (\<forall>v. current (r_refs r') n = Some v \<longrightarrow> Has (r_objects r') v)) \<or>
        (\<exists>v. current (r_refs r') n = Some v \<and> complete (pe_h e) (r_objects r') v))"
proof -
  have ok: "serve_ok (pe_h e) r" using assms(2,3) by (simp add: serve_ok_def)
  have "served (pe_h e) r r'"
    using assms(4) serveLoop_served [OF _ assms(1) ok] served_refl [OF ok]
    by (auto simp: Serve_def split: sum.splits prod.splits)
  then show ?thesis by (simp add: served_def serve_ok_def keeps_def)
qed

lemma localHello_ok: "hello_ok localHello"
  by (simp add: hello_ok_def localHello_def list_fits_def fits64_def max_alloc_def maxFrame_def Proto_def
      CapDeflate_def CapArtifactRef_def CapPin_def CapNotesSync_def hello_payload_def pw_string_def pw_bytes_def
      pw_stringList_def pw_uvarintList_def pw_uvarint_def len64_def BLAKE3_def SHA2_256_def appendUvarint_small)

text \<open>Two builds that greet each other agree on every capability.\<close>

lemma handshake_local:
  assumes "cn_r c = cn_w (WriteHandshake \<lparr>cn_r = [], cn_w = []\<rparr> localHello) @ r"
  shows "handshake c localHello = Inr (h_caps localHello, (WriteHandshake c localHello)\<lparr>cn_r := r\<rparr>)"
proof -
  have "cn_r (WriteHandshake c localHello) = cn_r c"
    by (simp add: WriteHandshake_def)
  with ReadHandshake_written [OF localHello_ok, of "WriteHandshake c localHello" "\<lparr>cn_r = [], cn_w = []\<rparr>" r] assms
  have "ReadHandshake (WriteHandshake c localHello) = Inr (localHello, (WriteHandshake c localHello)\<lparr>cn_r := r\<rparr>)"
    by simp
  then show ?thesis by (simp add: handshake_def localHello_def Negotiate_def)
qed

definition demo_env :: p2p_env where
  "demo_env = \<lparr>pe_h = zero_hash, pe_deflate = id, pe_inflate = Inr, pe_run = \<lambda>_ _. Inl (Plain []),
     pe_clock = (\<lambda>_. 0), pe_unix = (\<lambda>_. 0), pe_maxPins = 4096\<rparr>"

definition demo_empty :: repo where
  "demo_empty = \<lparr>r_objects = Open_store, r_refs = empty_refs\<rparr>"

lemma demo_env_wf: "wf_hashes (pe_h demo_env)" "store_ok (pe_h demo_env) (r_objects demo_empty)"
  "refs_sound (r_refs demo_empty)"
  by (simp_all add: demo_env_def demo_empty_def wf_hashes_def zero_hash_def refs_sound_ok)

theorem serve_confined_witness:
  "\<exists>r' c'. Serve demo_env demo_empty
       \<lparr>cn_r = cn_w (WriteListRefs (WriteHandshake \<lparr>cn_r = [], cn_w = []\<rparr> localHello)), cn_w = []\<rparr> = Some (Inr (), r', c')
     \<and> store_ok zero_hash (r_objects r')"
proof -
  let ?c = "\<lparr>cn_r = cn_w (WriteListRefs (WriteHandshake \<lparr>cn_r = [], cn_w = []\<rparr> localHello)), cn_w = []\<rparr> :: conn"
  let ?c1 = "(WriteHandshake ?c localHello)\<lparr>cn_r := frame MsgListRefs []\<rparr>"
  have "cn_r ?c = cn_w (WriteHandshake \<lparr>cn_r = [], cn_w = []\<rparr> localHello) @ frame MsgListRefs []"
    by (simp add: WriteListRefs_def writeFrame_eq)
  note h = handshake_local [OF this]
  have f: "ReadFrame ?c1 = Inr ((MsgListRefs, []), ?c1\<lparr>cn_r := []\<rparr>)"
    by (simp add: ReadFrame_iff)
  let ?c2 = "serveListRefs demo_empty (?c1\<lparr>cn_r := []\<rparr>)"
  have "ReadFrame ?c2 = Inl io_EOF"
    by (simp add: ReadFrame_def serveListRefs_def WriteRefs_def readUvarintReader_def)
  then have "serveLoop demo_env (Suc 0) (h_caps localHello) demo_empty ?c2 = Some (Inr (), demo_empty, ?c2)"
    by (simp add: serveLoop.simps)
  then have "serveLoop demo_env 0 (h_caps localHello) demo_empty ?c1 = Some (Inr (), demo_empty, ?c2)"
    using f by (subst serveLoop.simps) (simp add: serveFrame_def)
  then have s: "Serve demo_env demo_empty ?c = Some (Inr (), demo_empty, ?c2)"
    using h by (simp add: Serve_def)
  from serve_confined [OF demo_env_wf s] have "store_ok zero_hash (r_objects demo_empty)"
    by (simp add: demo_env_def)
  with s show ?thesis by blast
qed

text \<open>C13. The quota holds: on a repository whose refs have valid names, a pin request never raises
  the number of live pins of any peer above the larger of the quota and what it was, even though
  re-pinning replaces a pin and so is let through at the quota.\<close>

theorem pin_quota:
  assumes "refs_sound (r_refs r)" "names_valid (r_refs r)" "servePin e t r c caps payload = (res, r', c')"
  shows "int (card (live_pins e t q (r_refs r'))) \<le> max (int (card (live_pins e t q (r_refs r)))) (pe_maxPins e)"
  by (rule servePin_quota [OF assms])

theorem pin_quota_witness:
  "\<exists>res r' c'. servePin demo_env 0 demo_empty \<lparr>cn_r = [], cn_w = []\<rparr> [CapPin] [1, 5, 1, 5, 7, 0] = (res, r', c') \<and>
     int (card (live_pins demo_env 0 ''q'' (r_refs r'))) \<le> max 0 4096"
proof -
  have z: "current empty_refs n = None" for n
    by (simp add: current_None) (simp add: empty_refs_def)
  obtain res r' c' where p: "servePin demo_env 0 demo_empty \<lparr>cn_r = [], cn_w = []\<rparr> [CapPin] [1, 5, 1, 5, 7, 0] = (res, r', c')"
    by (rule prod_cases3)
  have "names_valid (r_refs demo_empty)" "live_pins demo_env 0 ''q'' (r_refs demo_empty) = {}"
    by (simp_all add: names_valid_def live_pins_def demo_empty_def z)
  with pin_quota [OF demo_env_wf(3) _ p, of "''q''"] p show ?thesis by (simp add: demo_env_def)
qed

end
