(* ===== verification/P2PClient.thy ===== *)
theory P2PClient
  imports P2PServe
begin

text \<open>
  The dialing half of \<^verbatim>\<open>internal/p2p\<close>: listing refs, fetching and pushing objects, asking for
  pins; and the meeting of the two halves, a fetch answered by a server. A connection holds
  everything the peer will ever answer, whoever the peer is. A refused pin is its own kind
  of error, as in the code.
\<close>

section \<open>Requests\<close>

definition peer_error :: "byte list \<Rightarrow> goerr" where
  "peer_error payload = Plain (''p2p: '' @ ParseError payload)"

definition ListRefs :: "conn \<Rightarrow> (goerr + wire_ref list) \<times> conn" where
  "ListRefs c =
     (let c = WriteListRefs c
      in case ReadFrame c of
           Inl er \<Rightarrow> (Inl er, c)
         | Inr ((t, payload), c) \<Rightarrow>
             (if t = MsgError then Inl (peer_error payload)
              else if t \<noteq> MsgRefs then Inl (Plain ''p2p: expected Refs'')
              else ParseRefs payload, c))"

fun checkWants :: "hash_funs \<Rightarrow> objstore \<Rightarrow> multihash list \<Rightarrow> (goerr + unit) option" where
  "checkWants h s [] = Some (Inr ())"
| "checkWants h s (w # ws) =
     Option.bind (hasClosure h s [w]) (\<lambda>b.
     if \<not> b then Some (Inl (Plain (''p2p: fetch incomplete, missing closure of '' @ Hex w)))
     else checkWants h s ws)"

function fetchLoop :: "p2p_env \<Rightarrow> caps \<Rightarrow> multihash list \<Rightarrow> objstore \<Rightarrow> conn
    \<Rightarrow> ((goerr + unit) \<times> objstore \<times> conn) option" where
  "fetchLoop e caps want s c =
     (case ReadFrame c of
        Inl er \<Rightarrow> Some (Inl er, s, c)
      | Inr ((t, payload), c) \<Rightarrow>
          if t = MsgObject then
            (case recvObject e s caps payload of
               (Inl er, s) \<Rightarrow> Some (Inl er, s, c)
             | (Inr _, s) \<Rightarrow> fetchLoop e caps want s c)
          else if t = MsgDone then
            Option.bind (checkWants (pe_h e) s want) (\<lambda>res. Some (res, s, c))
          else if t = MsgError then Some (Inl (peer_error payload), s, c)
          else Some (Inl (Plain ''p2p: unexpected message during fetch''), s, c))"
  by pat_completeness auto
termination
  by (relation "measure (\<lambda>(e, caps, want, s, c). length (cn_r c))") (auto dest: ReadFrame_shorter)

declare fetchLoop.simps [simp del]

definition Fetch :: "p2p_env \<Rightarrow> caps \<Rightarrow> objstore \<Rightarrow> multihash list \<Rightarrow> multihash list \<Rightarrow> conn
    \<Rightarrow> ((goerr + unit) \<times> objstore \<times> conn) option" where
  "Fetch e caps s want have_ids c = fetchLoop e caps want s (WriteGetObjects c want have_ids)"

function pushLoop :: "p2p_env \<Rightarrow> objstore \<Rightarrow> caps \<Rightarrow> string set \<Rightarrow> multihash list \<Rightarrow> string set \<Rightarrow> conn
    \<Rightarrow> (goerr + unit) \<times> conn" where
  "pushLoop e s caps prune [] sent c = (Inr (), c)"
| "pushLoop e s caps prune (id' # queue) sent c =
     (if Hex id' \<in> prune \<or> Hex id' \<in> sent then pushLoop e s caps prune queue sent c
      else
        (case GetRaw (pe_h e) s id' of
           Inl er \<Rightarrow> (Inl (Plain (''p2p: push cannot read '' @ Hex id' @ '': '' @ err_text er)), c)
         | Inr raw \<Rightarrow>
            (case Decode raw of
               Inl er \<Rightarrow> (Inl er, c)
             | Inr obj \<Rightarrow>
                 if otyp obj = TypeArtifactRef \<and> CapArtifactRef \<notin> set caps
                 then (Inl (Plain (''p2p: refusing to push artifact-ref '' @ Hex id')), c)
                 else
                   (let c = WriteObject c id' (encodeObjPayload e caps raw)
                    in case Links obj of
                         Inl er \<Rightarrow> (Inl er, c)
                       | Inr links \<Rightarrow> pushLoop e s caps prune (rev links @ queue) (insert (Hex id') sent) c))))"
  by pat_completeness auto
termination
  by (relation "measures [\<lambda>(e, s, caps, prune, queue, sent, c). card (set (map (snd \<circ> fst) (os_files s)) - sent),
        \<lambda>(e, s, caps, prune, queue, sent, c). length queue]")
    (auto simp: unmarked_less GetRaw_Has simp del: set_map)

definition Push :: "p2p_env \<Rightarrow> caps \<Rightarrow> objstore \<Rightarrow> string \<Rightarrow> multihash option \<Rightarrow> multihash \<Rightarrow> conn
    \<Rightarrow> (goerr + unit) \<times> conn" where
  "Push e caps s name old newTip c =
     (let prune = (case old of None \<Rightarrow> {} | Some o' \<Rightarrow> markClosure (pe_h e) s [o'] {})
      in case pushLoop e s caps prune [newTip] {} c of
           (Inl er, c) \<Rightarrow> (Inl er, c)
         | (Inr _, c) \<Rightarrow>
            (let c = WritePush c name (bytes_or_nil old) newTip
             in case ReadFrame c of
                  Inl er \<Rightarrow> (Inl er, c)
                | Inr ((t, payload), c) \<Rightarrow>
                    (if t = MsgOK then Inr ()
                     else if t = MsgError then Inl (peer_error payload)
                     else Inl (Plain ''p2p: unexpected push reply''), c)))"

section \<open>Pin requests\<close>

datatype pin_error = ErrPinRefused string | PinFault goerr

definition readAck :: "string \<Rightarrow> conn \<Rightarrow> (pin_error + unit) \<times> conn" where
  "readAck op c =
     (case ReadFrame c of
        Inl er \<Rightarrow> (Inl (PinFault er), c)
      | Inr ((t, payload), c) \<Rightarrow>
          (if t = MsgOK then Inr ()
           else if t = MsgError then
             (let msg = ParseError payload
              in if has_prefix msg ''refused: '' then Inl (ErrPinRefused (drop (length ''refused: '') msg))
                 else Inl (PinFault (Plain (''p2p: '' @ msg))))
           else Inl (PinFault (Plain (''p2p: unexpected '' @ op @ '' reply''))), c))"

definition client_Pin :: "caps \<Rightarrow> string \<Rightarrow> multihash \<Rightarrow> i64 \<Rightarrow> string \<Rightarrow> conn \<Rightarrow> (pin_error + unit) \<times> conn" where
  "client_Pin caps peerID hash notAfter reason c =
     (if CapPin \<notin> set caps then (Inl (PinFault (Plain ''p2p: peer does not advertise pin'')), c)
      else if sint notAfter \<le> 0 then (Inl (PinFault (Plain ''p2p: pin requires a not_after expiry'')), c)
      else readAck ''pin'' (WritePin c peerID hash notAfter reason))"

definition client_Unpin :: "caps \<Rightarrow> string \<Rightarrow> multihash \<Rightarrow> conn \<Rightarrow> (pin_error + unit) \<times> conn" where
  "client_Unpin caps peerID hash c =
     (if CapPin \<notin> set caps then (Inl (PinFault (Plain ''p2p: peer does not advertise pin'')), c)
      else readAck ''unpin'' (WriteUnpin c peerID hash))"

definition client_ListPin :: "caps \<Rightarrow> string \<Rightarrow> conn \<Rightarrow> (goerr + wire_pin list) \<times> conn" where
  "client_ListPin caps peerID c =
     (if CapPin \<notin> set caps then (Inl (Plain ''p2p: peer does not advertise pin''), c)
      else
        (let c = WriteListPin c peerID
         in case ReadFrame c of
              Inl er \<Rightarrow> (Inl er, c)
            | Inr ((t, payload), c) \<Rightarrow>
                (if t = MsgPins then ParsePins payload
                 else if t = MsgError then Inl (peer_error payload)
                 else Inl (Plain ''p2p: unexpected listpin reply''), c)))"

section \<open>A fetch from anyone\<close>

lemma recvObject_ok:
  assumes "wf_hashes (pe_h e)" "store_ok (pe_h e) s" "recvObject e s caps payload = (r, s')"
  shows "store_ok (pe_h e) s'" "keeps (pe_h e) s s'"
proof -
  have "s' = s \<or> (\<exists>i raw. PutVerified (pe_h e) s i raw = (r, s'))"
    using assms(3) by (auto simp: recvObject_def split: sum.splits prod.splits)
  then show "store_ok (pe_h e) s'" "keeps (pe_h e) s s'"
    using PutVerified_ok(1) [OF assms(1,2)] PutVerified_keeps [OF assms(1,2)] assms(2) by auto
qed

lemma checkWants_sound: "checkWants h s ws = Some (Inr ()) \<Longrightarrow> \<forall>w \<in> set ws. complete h s w"
  by (induction ws) (auto split: Option.bind_splits if_splits dest: hasClosure_sound)

lemma fetchLoop_sound:
  "fetchLoop e caps want s c = Some (res, s', c') \<Longrightarrow> wf_hashes (pe_h e) \<Longrightarrow> store_ok (pe_h e) s \<Longrightarrow>
   store_ok (pe_h e) s' \<and> keeps (pe_h e) s s' \<and> (res = Inr () \<longrightarrow> (\<forall>w \<in> set want. complete (pe_h e) s' w))"
proof (induction e caps want s c arbitrary: res s' c' rule: fetchLoop.induct)
  case (1 e caps want s c)
  show ?case
  proof (cases "ReadFrame c")
    case (Inl er)
    with 1 show ?thesis by (auto simp: fetchLoop.simps [of e caps want s c])
  next
    case (Inr m)
    obtain t p c1 where m: "m = ((t, p), c1)" by (cases m) auto
    show ?thesis
    proof (cases "t = MsgObject")
      case True
      obtain x s1 where o: "recvObject e s caps p = (x, s1)" by fastforce
      note ok = recvObject_ok [OF 1(3,4) o]
      show ?thesis
      proof (cases x)
        case (Inl er)
        with 1(2) Inr m True o ok show ?thesis by (auto simp: fetchLoop.simps [of e caps want s c])
      next
        case xr: (Inr u)
        then have l: "fetchLoop e caps want s1 c1 = Some (res, s', c')"
          using 1(2) Inr m True o by (simp add: fetchLoop.simps [of e caps want s c])
        from 1(1) [OF Inr m [symmetric] refl True o [unfolded xr, symmetric] refl l 1(3) ok(1)] keeps_trans [OF ok(2)]
        show ?thesis by blast
      qed
    next
      case False
      with 1(2,4) Inr m show ?thesis
        by (auto simp: fetchLoop.simps [of e caps want s c] split: if_splits Option.bind_splits dest: checkWants_sound)
    qed
  qed
qed

section \<open>A fetch from a server\<close>

text \<open>Two stores hold the same bytes under an identity both have: no two objects share a hash.\<close>

definition agree :: "hash_funs \<Rightarrow> objstore \<Rightarrow> objstore \<Rightarrow> bool" where
  "agree h s s' \<longleftrightarrow> (\<forall>i b b'. GetRaw h s i = Inr b \<longrightarrow> GetRaw h s' i = Inr b' \<longrightarrow> b = b')"

lemma agreeD: "agree h s s' \<Longrightarrow> GetRaw h s i = Inr b \<Longrightarrow> GetRaw h s' i = Inr b' \<Longrightarrow> b = b'"
  unfolding agree_def by blast

lemma agree_links:
  assumes "agree h s s'" "rbind (Get h s x) Links = Inr ls" "readable h s' x"
  shows "rbind (Get h s' x) Links = Inr ls"
proof -
  from assms(2) obtain b where b: "GetRaw h s x = Inr b" "rbind (Decode b) Links = Inr ls"
    by (auto simp: Get_def rbind_eq_Inr)
  from assms(3) obtain b' where b': "GetRaw h s' x = Inr b'" by (auto simp: readable_def Get_def rbind_eq_Inr)
  with agreeD [OF assms(1) b(1) b'] b show ?thesis by (auto simp: Get_def rbind_eq_Inr)
qed

definition obj_bytes :: "hash_funs \<Rightarrow> objstore \<Rightarrow> multihash \<Rightarrow> byte list" where
  "obj_bytes h s i = (case GetRaw h s i of Inl _ \<Rightarrow> [] | Inr b \<Rightarrow> b)"

definition object_payload :: "p2p_env \<Rightarrow> caps \<Rightarrow> objstore \<Rightarrow> multihash \<Rightarrow> byte list" where
  "object_payload e caps s i = pw_bytes (pw_bytes [] i) (encodeObjPayload e caps (obj_bytes (pe_h e) s i))"

definition object_frames :: "p2p_env \<Rightarrow> caps \<Rightarrow> objstore \<Rightarrow> multihash list \<Rightarrow> byte list" where
  "object_frames e caps s ids = concat (map (\<lambda>i. frame MsgObject (object_payload e caps s i)) ids)"

lemma WriteObject_w: "GetRaw (pe_h e) s i = Inr raw \<Longrightarrow>
    cn_w (WriteObject c i (encodeObjPayload e caps raw)) = cn_w c @ object_frames e caps s [i]"
  by (simp add: WriteObject_def writeFrame_eq object_frames_def object_payload_def obj_bytes_def)

text \<open>What a server sends: the reachable objects it was not told the peer has, and nothing else.\<close>

definition sends_rest :: "hash_funs \<Rightarrow> objstore \<Rightarrow> string set \<Rightarrow> multihash list \<Rightarrow> multihash list \<Rightarrow> bool" where
  "sends_rest h s have_ids start ids \<longleftrightarrow>
     (\<forall>i \<in> set ids. complete h s i \<and> Hex i \<notin> have_ids) \<and>
     (\<forall>i \<in> set start. Hex i \<in> have_ids \<union> Hex ` set ids) \<and>
     (\<forall>i \<in> set ids. \<forall>y. (i, y) \<in> link_rel h s \<longrightarrow> Hex y \<in> have_ids \<union> Hex ` set ids)"

lemma complete_get:
  assumes "complete h s i"
  obtains raw ls where "GetRaw h s i = Inr raw" "rbind (Decode raw) Links = Inr ls" "\<forall>y \<in> set ls. complete h s y"
    "\<And>y. (i, y) \<in> link_rel h s \<longleftrightarrow> y \<in> set ls"
proof -
  obtain ls where ls: "rbind (Get h s i) Links = Inr ls"
    using complete_readable [OF assms] by (auto simp: readable_def)
  then obtain raw where "GetRaw h s i = Inr raw" "rbind (Decode raw) Links = Inr ls"
    by (auto simp: Get_def rbind_eq_Inr)
  moreover have "\<And>y. (i, y) \<in> link_rel h s \<longleftrightarrow> y \<in> set ls" using ls by (auto simp: link_rel_def)
  moreover from this have "\<forall>y \<in> set ls. complete h s y" using complete_link [OF assms] by blast
  ultimately show thesis using that by blast
qed

lemma sendLoop_complete:
  "\<forall>i \<in> set queue. complete (pe_h e) s i \<Longrightarrow> sendLoop e s caps prune queue sent c = (res, c') \<Longrightarrow>
   res = Inr () \<and> (\<exists>ids. cn_w c' = cn_w c @ object_frames e caps s ids \<and>
     (\<forall>i \<in> set ids. complete (pe_h e) s i \<and> Hex i \<notin> prune) \<and>
     (\<forall>i \<in> set queue. Hex i \<in> prune \<union> sent \<union> Hex ` set ids) \<and>
     (\<forall>i \<in> set ids. \<forall>y. (i, y) \<in> link_rel (pe_h e) s \<longrightarrow> Hex y \<in> prune \<union> sent \<union> Hex ` set ids))"
proof (induction e s caps prune queue sent c rule: sendLoop.induct)
  case (1 e s caps prune sent c)
  then show ?case by (intro conjI exI [of _ "[]"]) (simp_all add: object_frames_def)
next
  case (2 e s caps prune i queue sent c)
  show ?case
  proof (cases "Hex i \<in> prune \<or> Hex i \<in> sent")
    case True
    with 2(1) [OF True] 2(3,4) obtain ids where "res = Inr ()" "cn_w c' = cn_w c @ object_frames e caps s ids"
      "\<forall>i \<in> set ids. complete (pe_h e) s i \<and> Hex i \<notin> prune"
      "\<forall>i \<in> set queue. Hex i \<in> prune \<union> sent \<union> Hex ` set ids"
      "\<forall>i \<in> set ids. \<forall>y. (i, y) \<in> link_rel (pe_h e) s \<longrightarrow> Hex y \<in> prune \<union> sent \<union> Hex ` set ids"
      by auto
    with True show ?thesis by (intro conjI exI [of _ ids]) auto
  next
    case False
    have ci: "complete (pe_h e) s i" using 2(3) by simp
    then obtain raw ls where raw: "GetRaw (pe_h e) s i = Inr raw" and ls: "rbind (Decode raw) Links = Inr ls"
      and cl: "\<forall>y \<in> set ls. complete (pe_h e) s y" and li: "\<And>y. (i, y) \<in> link_rel (pe_h e) s \<longleftrightarrow> y \<in> set ls"
      by (rule complete_get) blast
    let ?c = "WriteObject c i (encodeObjPayload e caps raw)"
    have run: "sendLoop e s caps prune (rev ls @ queue) (insert (Hex i) sent) ?c = (res, c')"
      using 2(4) False raw ls by (simp add: Let_def)
    have "\<forall>j \<in> set (rev ls @ queue). complete (pe_h e) s j" using cl 2(3) by auto
    from 2(2) [OF False raw refl ls this run] obtain ids where ids: "res = Inr ()"
      "cn_w c' = cn_w ?c @ object_frames e caps s ids"
      "\<forall>i \<in> set ids. complete (pe_h e) s i \<and> Hex i \<notin> prune"
      "\<forall>j \<in> set (rev ls @ queue). Hex j \<in> prune \<union> insert (Hex i) sent \<union> Hex ` set ids"
      "\<forall>j \<in> set ids. \<forall>y. (j, y) \<in> link_rel (pe_h e) s \<longrightarrow> Hex y \<in> prune \<union> insert (Hex i) sent \<union> Hex ` set ids"
      by blast
    have "cn_w c' = cn_w c @ object_frames e caps s (i # ids)"
      using ids(2) WriteObject_w [OF raw] by (simp add: object_frames_def)
    moreover have "\<forall>j \<in> set (i # ids). complete (pe_h e) s j \<and> Hex j \<notin> prune" using ids(3) ci False by auto
    moreover have "\<forall>j \<in> set (i # queue). Hex j \<in> prune \<union> sent \<union> Hex ` set (i # ids)" using ids(4) by auto
    moreover have "\<forall>j \<in> set (i # ids). \<forall>y. (j, y) \<in> link_rel (pe_h e) s \<longrightarrow> Hex y \<in> prune \<union> sent \<union> Hex ` set (i # ids)"
      using ids(4,5) li by auto
    ultimately show ?thesis using ids(1) by blast
  qed
qed

text \<open>What a client makes of the objects of a server.\<close>

definition zlib_ok :: "p2p_env \<Rightarrow> p2p_env \<Rightarrow> bool" where
  "zlib_ok es ec \<longleftrightarrow> (\<forall>b. pe_inflate ec (pe_deflate es b) = Inr b)"

definition frames_fit :: "p2p_env \<Rightarrow> caps \<Rightarrow> objstore \<Rightarrow> bool" where
  "frames_fit e caps s \<longleftrightarrow> (\<forall>i. Has s i \<longrightarrow> length (object_payload e caps s i) \<le> maxFrame)"

lemma put_bytes_fits: "length (pw_bytes (pw_bytes [] i) b) \<le> maxFrame \<Longrightarrow> fits64 i \<and> fits64 b"
  by (simp add: pw_acc put_bytes_def fits64_def maxFrame_def)

lemma recvObject_sent:
  assumes h: "pe_h ec = pe_h es" "wf_hashes (pe_h es)" "zlib_ok es ec" "frames_fit es caps ss"
    and raw: "GetRaw (pe_h es) ss i = Inr raw"
    and sc: "store_ok (pe_h es) sc" "agree (pe_h es) ss sc"
  obtains sc' where "recvObject ec sc caps (object_payload es caps ss i) = (Inr (), sc')"
    "store_ok (pe_h es) sc'" "keeps (pe_h es) sc sc'" "agree (pe_h es) ss sc'" "GetRaw (pe_h es) sc' i = Inr raw"
    "\<And>j. j \<noteq> i \<Longrightarrow> GetRaw (pe_h es) sc' j = GetRaw (pe_h es) sc j"
proof -
  have fit: "length (object_payload es caps ss i) \<le> maxFrame"
    using h(4) GetRaw_Has [OF raw] by (simp add: frames_fit_def)
  have p: "object_payload es caps ss i = pw_bytes (pw_bytes [] i) (encodeObjPayload es caps raw)"
    using raw by (simp add: object_payload_def obj_bytes_def)
  then have "fits64 i" "fits64 (encodeObjPayload es caps raw)" using fit put_bytes_fits by auto
  then have parse: "ParseObject (object_payload es caps ss i) = Inr (i, encodeObjPayload es caps raw)"
    unfolding p by (simp add: ParseObject_def pr_bytes_iff rbind_eq_Inr pw_acc)
  have dec: "decodeObjPayload ec caps (encodeObjPayload es caps raw) = Inr raw"
    using h(3) by (simp add: decodeObjPayload_def encodeObjPayload_def zlib_ok_def)
  have v: "Verify (pe_h es) i raw = Inr True" using GetRaw_verified [OF raw] .
  obtain q where q: "store_path i = Inr q" using raw by (auto simp: GetRaw_iff)
  obtain sc' where put: "PutVerified (pe_h es) sc i raw = (Inr (), sc')"
    using v q by (cases "map_of (os_files sc) q") (auto simp: PutVerified_def)
  note ok = PutVerified_ok [OF h(2) sc(1) put]
  have k: "keeps (pe_h es) sc sc'" using PutVerified_keeps [OF h(2) sc(1) put] .
  obtain b where b: "GetRaw (pe_h es) sc' i = Inr b" using ok(2) Has_GetRaw [OF ok(1)] by auto
  have "b = raw"
  proof (cases "Has sc i")
    case True
    then obtain b' where "GetRaw (pe_h es) sc i = Inr b'" using Has_GetRaw [OF sc(1)] by auto
    with k b have "b' = b" unfolding keeps_def by fastforce
    with agreeD [OF sc(2) raw \<open>GetRaw (pe_h es) sc i = Inr b'\<close>] show ?thesis by simp
  next
    case False
    then have "map_of (os_files sc) q = None" using q by (simp add: Has_def)
    then have "sc' = sc\<lparr>os_files := AList.update q raw (os_files sc)\<rparr>"
      using put v q by (simp add: PutVerified_def)
    then show ?thesis using b q by (auto simp: GetRaw_iff update_conv')
  qed
  moreover have "agree (pe_h es) ss sc'"
    unfolding agree_def
  proof (intro allI impI)
    fix j x x' assume "GetRaw (pe_h es) ss j = Inr x" "GetRaw (pe_h es) sc' j = Inr x'"
    then show "x = x'"
      using ok(3) [of j] agreeD [OF sc(2), of j x x'] b \<open>b = raw\<close> raw by (cases "j = i") simp_all
  qed
  ultimately show thesis
    using that [of sc'] parse dec put ok k b h(1) by (simp add: recvObject_def)
qed

lemma fetchLoop_done:
  "ReadFrame c = Inr ((MsgDone, p), c') \<Longrightarrow> checkWants (pe_h e) s want = Some res \<Longrightarrow>
   fetchLoop e caps want s c = Some (res, s, c')"
  by (subst fetchLoop.simps) (simp add: msg_defs)

lemma fetchLoop_objects:
  assumes h: "pe_h ec = pe_h es" "wf_hashes (pe_h es)" "zlib_ok es ec" "frames_fit es caps ss"
  shows "\<forall>i \<in> set ids. complete (pe_h es) ss i \<Longrightarrow> store_ok (pe_h es) sc \<Longrightarrow> agree (pe_h es) ss sc \<Longrightarrow>
   cn_r c = object_frames es caps ss ids @ rest \<Longrightarrow>
   \<exists>sc'. fetchLoop ec caps want sc c = fetchLoop ec caps want sc' (c\<lparr>cn_r := rest\<rparr>) \<and>
     store_ok (pe_h es) sc' \<and> keeps (pe_h es) sc sc' \<and> agree (pe_h es) ss sc' \<and>
     (\<forall>i \<in> set ids. GetRaw (pe_h es) sc' i = GetRaw (pe_h es) ss i) \<and>
     (\<forall>j. j \<notin> set ids \<longrightarrow> GetRaw (pe_h es) sc' j = GetRaw (pe_h es) sc j)"
proof (induction ids arbitrary: sc c)
  case Nil
  then have "c\<lparr>cn_r := rest\<rparr> = c" by (simp add: object_frames_def)
  with Nil show ?case by (intro exI [of _ sc]) simp
next
  case (Cons i ids)
  obtain raw where raw: "GetRaw (pe_h es) ss i = Inr raw"
    using Cons.prems(1) by (auto elim: complete_get)
  obtain sc1 where o: "recvObject ec sc caps (object_payload es caps ss i) = (Inr (), sc1)"
    and s1: "store_ok (pe_h es) sc1" "keeps (pe_h es) sc sc1" "agree (pe_h es) ss sc1"
    "GetRaw (pe_h es) sc1 i = Inr raw" "\<And>j. j \<noteq> i \<Longrightarrow> GetRaw (pe_h es) sc1 j = GetRaw (pe_h es) sc j"
    by (rule recvObject_sent [OF h raw Cons.prems(2,3)]) blast
  let ?c = "c\<lparr>cn_r := object_frames es caps ss ids @ rest\<rparr>"
  have "length (object_payload es caps ss i) \<le> maxFrame"
    using h(4) GetRaw_Has [OF raw] by (simp add: frames_fit_def)
  then have "ReadFrame c = Inr ((MsgObject, object_payload es caps ss i), ?c)"
    using Cons.prems(4) by (simp add: ReadFrame_iff object_frames_def)
  then have step: "fetchLoop ec caps want sc c = fetchLoop ec caps want sc1 ?c"
    using o by (simp add: fetchLoop.simps [of ec caps want sc c])
  obtain sc' where sc': "fetchLoop ec caps want sc1 ?c = fetchLoop ec caps want sc' (?c\<lparr>cn_r := rest\<rparr>)"
    "store_ok (pe_h es) sc'" "keeps (pe_h es) sc1 sc'" "agree (pe_h es) ss sc'"
    "\<forall>i \<in> set ids. GetRaw (pe_h es) sc' i = GetRaw (pe_h es) ss i"
    "\<forall>j. j \<notin> set ids \<longrightarrow> GetRaw (pe_h es) sc' j = GetRaw (pe_h es) sc1 j"
    using Cons.IH [of sc1 ?c] Cons.prems(1) s1(1,3) by auto
  have "GetRaw (pe_h es) sc' i = GetRaw (pe_h es) ss i"
    using sc'(3) s1(4) raw by (simp add: keeps_def)
  with sc' s1 step keeps_trans [OF s1(2) sc'(3)] show ?case by (intro exI [of _ sc']) auto
qed

text \<open>A peer's own history, as far as the server has it too, is complete at the peer.\<close>

lemma have_complete:
  assumes "agree h ss sc" "\<forall>v \<in> set have_ids. complete h sc v" "reachable h ss (set have_ids) x"
  shows "complete h sc x"
  using assms(3)
proof induction
  case (root r)
  with assms(2) show ?case by simp
next
  case (link x obj ls y)
  have "rbind (Get h ss x) Links = Inr ls" using link by simp
  then have "rbind (Get h sc x) Links = Inr ls"
    using agree_links [OF assms(1)] complete_readable [OF link.IH] by blast
  then have "(x, y) \<in> link_rel h sc" using link by (auto simp: link_rel_def)
  with complete_link [OF link.IH] show ?case .
qed

lemma serve_then_fetch:
  assumes h: "pe_h ec = pe_h es" "wf_hashes (pe_h es)" "zlib_ok es ec" "frames_fit es caps ss"
    and sc: "store_ok (pe_h es) sc" "agree (pe_h es) ss sc"
    and acyclic: "acyclic (link_rel (pe_h es) ss \<union> link_rel (pe_h es) sc)"
    and want: "\<forall>w \<in> set want. complete (pe_h es) ss w"
    and have_ids: "\<forall>v \<in> set have_ids. complete (pe_h es) sc v"
    and fit: "list_fits 24 want" "list_fits 24 have_ids"
  shows "\<exists>cs sc' c'.
     serveGetObjects es ss caps c0 (pw_bytesList (pw_bytesList [] want) have_ids) = (Inr (), cs) \<and>
     (cn_w c0 = [] \<longrightarrow> Fetch ec caps sc want have_ids \<lparr>cn_r = cn_w cs @ rest, cn_w = w\<rparr> = Some (Inr (), sc', c') \<and>
       cn_w c' = w @ frame MsgGetObjects (pw_bytesList (pw_bytesList [] want) have_ids) \<and> cn_r c' = rest \<and>
       (\<forall>w \<in> set want. complete (pe_h es) sc' w))"
proof -
  let ?h = "pe_h es"
  let ?prune = "markClosure ?h ss have_ids {}"
  have req: "ParseGetObjects (pw_bytesList (pw_bytesList [] want) have_ids) = Inr (want, have_ids)"
    using fit w_bytesList.put_acc [of "pw_bytesList [] want" have_ids]
    by (simp add: ParseGetObjects_def rbind_eq_Inr w_bytesList.get_iff)
  obtain res cs where send: "sendLoop es ss caps ?prune (rev want) {} c0 = (res, cs)" by fastforce
  from sendLoop_complete [OF _ this] want obtain ids where ids: "res = Inr ()"
    "cn_w cs = cn_w c0 @ object_frames es caps ss ids"
    "\<forall>i \<in> set ids. complete ?h ss i \<and> Hex i \<notin> ?prune"
    "\<forall>i \<in> set want. Hex i \<in> ?prune \<union> Hex ` set ids"
    "\<forall>i \<in> set ids. \<forall>y. (i, y) \<in> link_rel ?h ss \<longrightarrow> Hex y \<in> ?prune \<union> Hex ` set ids"
    by auto
  have served: "serveGetObjects es ss caps c0 (pw_bytesList (pw_bytesList [] want) have_ids) = (Inr (), WriteDone cs)"
    using send ids(1) by (simp add: serveGetObjects_def req Let_def)
  have w: "cn_w (WriteDone cs) = cn_w c0 @ object_frames es caps ss ids @ frame MsgDone []"
    using ids(2) by (simp add: WriteDone_def writeFrame_eq)
  let ?c = "WriteGetObjects \<lparr>cn_r = (object_frames es caps ss ids @ frame MsgDone []) @ rest, cn_w = w\<rparr> want have_ids"
  have cr: "cn_r ?c = object_frames es caps ss ids @ frame MsgDone [] @ rest"
    by (simp add: WriteGetObjects_def)
  from fetchLoop_objects [OF h _ sc cr, of want] ids(3) obtain sc' where
    sc': "fetchLoop ec caps want sc ?c = fetchLoop ec caps want sc' (?c\<lparr>cn_r := frame MsgDone [] @ rest\<rparr>)"
    "store_ok ?h sc'" "keeps ?h sc sc'" "agree ?h ss sc'"
    "\<forall>i \<in> set ids. GetRaw ?h sc' i = GetRaw ?h ss i"
    "\<forall>j. j \<notin> set ids \<longrightarrow> GetRaw ?h sc' j = GetRaw ?h sc j"
    by blast
  let ?P = "set ids \<union> {x. complete ?h sc' x}"
  have pruned: "y \<in> ?P" if "Hex y \<in> ?prune \<union> Hex ` set ids" for y
  proof (cases "y \<in> set ids")
    case False
    then have "Hex y \<in> ?prune" using that by auto
    then have "reachable ?h ss (set have_ids) y" by (simp add: markClosure_iff)
    from complete_keeps [OF sc'(3) have_complete [OF sc(2) have_ids this]] show ?thesis by simp
  qed simp
  have complete: "complete ?h sc' x" if "x \<in> ?P" for x
  proof (rule complete_coinduct [OF that])
    fix x assume x: "x \<in> ?P"
    show "\<exists>ls. rbind (Get ?h sc' x) Links = Inr ls \<and> set ls \<subseteq> ?P"
    proof (cases "x \<in> set ids")
      case True
      then have "complete ?h ss x" using ids(3) by blast
      then obtain raw ls where g: "GetRaw ?h ss x = Inr raw" "rbind (Decode raw) Links = Inr ls"
        "\<And>y. (x, y) \<in> link_rel ?h ss \<longleftrightarrow> y \<in> set ls"
        by (rule complete_get) blast
      have "rbind (Get ?h sc' x) Links = Inr ls" using g sc'(5) True by (simp add: Get_def)
      moreover have "set ls \<subseteq> ?P" using ids(5) True g(3) pruned by blast
      ultimately show ?thesis by blast
    next
      case False
      then have "complete ?h sc' x" using x by simp
      then obtain raw ls where "GetRaw ?h sc' x = Inr raw" "rbind (Decode raw) Links = Inr ls"
        "\<forall>y \<in> set ls. complete ?h sc' y" by (rule complete_get) blast
      then show ?thesis by (intro exI [of _ ls]) (auto simp: Get_def)
    qed
  qed
  have links: "link_rel ?h sc' \<subseteq> link_rel ?h ss \<union> link_rel ?h sc"
  proof
    fix p assume "p \<in> link_rel ?h sc'"
    then obtain x y where p: "p = (x, y)" "(x, y) \<in> link_rel ?h sc'" by (cases p) auto
    show "p \<in> link_rel ?h ss \<union> link_rel ?h sc"
      using p sc'(5,6) by (cases "x \<in> set ids") (auto simp: link_rel_def Get_def)
  qed
  have "wf ((link_rel ?h sc')\<inverse>)"
    by (rule link_rel_wf) (rule acyclic_subset [OF acyclic links])
  note wf = this
  have wanted: "complete ?h sc' v" if "v \<in> set want" for v
  proof (rule complete)
    show "v \<in> ?P" using ids(4) that by (intro pruned) blast
  qed
  have check: "hasClosure ?h sc' [v] = Some True" if "v \<in> set want" for v
    using wanted [OF that] by (simp add: hasClosure_iff [OF wf])
  have "checkWants ?h sc' ws = Some (Inr ())" if "set ws \<subseteq> set want" for ws
    using that check by (induction ws) simp_all
  then have all: "checkWants (pe_h ec) sc' want = Some (Inr ())" using h(1) by simp
  have rf: "ReadFrame (?c\<lparr>cn_r := frame MsgDone [] @ rest\<rparr>) = Inr ((MsgDone, []), ?c\<lparr>cn_r := rest\<rparr>)"
    by (simp add: ReadFrame_iff)
  note fin = fetchLoop_done [OF rf all]
  have fetched: "Fetch ec caps sc want have_ids \<lparr>cn_r = (object_frames es caps ss ids @ frame MsgDone []) @ rest, cn_w = w\<rparr>
      = Some (Inr (), sc', ?c\<lparr>cn_r := rest\<rparr>)"
    unfolding Fetch_def sc'(1) by (rule fin)
  have cw: "cn_w (?c\<lparr>cn_r := rest\<rparr>) = w @ frame MsgGetObjects (pw_bytesList (pw_bytesList [] want) have_ids)"
    by (simp add: WriteGetObjects_def writeFrame_eq)
  show ?thesis
    by (intro exI [of _ "WriteDone cs"] exI [of _ sc'] exI [of _ "?c\<lparr>cn_r := rest\<rparr>"])
      (use served fetched w cw wanted in auto)
qed

section \<open>A store with one blob\<close>

definition demo_id :: multihash where "demo_id = 0x1e # 0x20 # replicate 32 0"
definition demo_bytes :: "byte list" where "demo_bytes = Encode (blob_obj [7])"

lemma demo_Sum: "Sum zero_hash Default b = Inr demo_id"
  by (simp add: Sum_def registry_def Default_def BLAKE3_def SHA2_256_def zero_hash_def mh_encode_def demo_id_def
      len64_def appendUvarint_small)

lemma demo_peer_store:
  obtains s where "store_ok zero_hash s" "GetRaw zero_hash s demo_id = Inr demo_bytes" "\<And>j. Has s j \<Longrightarrow> j = demo_id"
proof -
  have wf: "wf_hashes zero_hash" by (simp add: wf_hashes_def zero_hash_def)
  obtain i s where p: "PutRaw zero_hash Open_store demo_bytes = (Inr i, s)"
    by (rule PutRaw_total [OF wf, of Open_store demo_bytes]) (simp add: Open_store_def)
  then have i: "i = demo_id"
    using PutRaw_cases [OF wf p] demo_Sum [of demo_bytes] by (auto simp: Open_store_def)
  note ok = PutRaw_ok [OF wf store_ok_empty p]
  have "\<not> Has Open_store j" for j by (simp add: Has_def Open_store_def split: sum.splits)
  then have "Has s j \<Longrightarrow> j = demo_id" for j
    using ok(5) [of j] Has_GetRaw [OF ok(1)] Has_GetRaw [OF store_ok_empty] i by metis
  with ok \<open>\<And>j. \<not> Has Open_store j\<close> i show thesis by (intro that [of s]) simp_all
qed

lemma demo_links: "rbind (Decode demo_bytes) Links = Inr []"
proof -
  have "wf_obj (blob_obj [7])" by (simp add: blob_obj_def wf_mkobj fits64_def max_alloc_def)
  then show ?thesis by (simp add: demo_bytes_def Links_def blob_obj_def type_defs)
qed

lemma demo_one_object:
  assumes "GetRaw zero_hash s demo_id = Inr demo_bytes" "\<And>j. Has s j \<Longrightarrow> j = demo_id"
  shows "link_rel zero_hash s = {}" "complete zero_hash s demo_id" "frames_fit demo_env [] s"
proof -
  have g: "rbind (Get zero_hash s demo_id) Links = Inr []"
    using assms(1) demo_links by (simp add: Get_def)
  have "(x, y) \<notin> link_rel zero_hash s" for x y
  proof
    assume "(x, y) \<in> link_rel zero_hash s"
    then obtain ls where ls: "rbind (Get zero_hash s x) Links = Inr ls" "y \<in> set ls" by (auto simp: link_rel_def)
    have "x = demo_id" using assms(2) Get_Has [OF ls(1)] by blast
    with ls g show False by simp
  qed
  then show "link_rel zero_hash s = {}" by auto
  show "complete zero_hash s demo_id" by (rule complete_step [OF g]) simp
  have l: "length (appendUvarint [] v) \<le> 10" for v by (rule length_appendUvarint)
  have "length demo_bytes \<le> 100"
    using l [of TypeBlob] l [of 1] l [of tagBlobContent]
    by (simp add: demo_bytes_def Encode_eq enc_counted_def blob_obj_def mkobj_def enc_field_eq put_bytes_def
        len64_def appendUvarint_small)
  moreover have "length demo_id = 34" by (simp add: demo_id_def)
  ultimately have "length (object_payload demo_env [] s demo_id) \<le> maxFrame"
    using assms(1) l [of "len64 demo_id"] l [of "len64 demo_bytes"]
    by (simp add: object_payload_def obj_bytes_def pw_acc put_bytes_def encodeObjPayload_def demo_env_def maxFrame_def)
  then show "frames_fit demo_env [] s" using assms(2) unfolding frames_fit_def by blast
qed

section \<open>Properties\<close>

text \<open>C10. A fetch from a peer that may send anything is safe: every object that was there stays, every
  object that came in has its own hash, and if the fetch reports success then the whole closure of
  everything asked for is present and readable.\<close>

theorem fetch_safe:
  assumes "wf_hashes (pe_h e)" "store_ok (pe_h e) s" "Fetch e caps s want have_ids c = Some (res, s', c')"
  shows "store_ok (pe_h e) s' \<and> (\<forall>i b. GetRaw (pe_h e) s i = Inr b \<longrightarrow> GetRaw (pe_h e) s' i = Inr b) \<and>
    (res = Inr () \<longrightarrow> (\<forall>w \<in> set want. complete (pe_h e) s' w))"
  using fetchLoop_sound [OF assms(3) [unfolded Fetch_def] assms(1,2)] by (simp add: keeps_def)

text \<open>C9. Two peers meet: the bytes of a fetch request, answered by a server that has the closure of
  everything asked for, and read back by the client, end in success with the closure of everything
  asked for at the client. The client may name as already present anything whose closure it has,
  and nothing reachable from what it names is sent. This holds when zlib reads back what it wrote,
  no two objects share a hash, links have no cycles and no object exceeds a frame.\<close>

theorem sync_delivers:
  assumes "pe_h ec = pe_h es" "wf_hashes (pe_h es)" "zlib_ok es ec" "frames_fit es caps ss"
    and "store_ok (pe_h es) sc" "agree (pe_h es) ss sc" "acyclic (link_rel (pe_h es) ss \<union> link_rel (pe_h es) sc)"
    and "\<forall>w \<in> set want. complete (pe_h es) ss w" "\<forall>v \<in> set have_ids. complete (pe_h es) sc v"
    and "list_fits 24 want" "list_fits 24 have_ids"
  shows "\<exists>request (reply :: conn) sc' c'.
     cn_w (WriteGetObjects \<lparr>cn_r = [], cn_w = []\<rparr> want have_ids) = frame MsgGetObjects request \<and>
     serveGetObjects es ss caps \<lparr>cn_r = [], cn_w = []\<rparr> request = (Inr (), reply) \<and>
     Fetch ec caps sc want have_ids \<lparr>cn_r = cn_w reply, cn_w = []\<rparr> = Some (Inr (), sc', c') \<and>
     (\<forall>w \<in> set want. complete (pe_h es) sc' w)"
proof -
  let ?req = "pw_bytesList (pw_bytesList [] want) have_ids"
  obtain cs sc' c' where "serveGetObjects es ss caps \<lparr>cn_r = [], cn_w = []\<rparr> ?req = (Inr (), cs)"
    "Fetch ec caps sc want have_ids \<lparr>cn_r = cn_w cs, cn_w = []\<rparr> = Some (Inr (), sc', c')"
    "\<forall>w \<in> set want. complete (pe_h es) sc' w"
    using serve_then_fetch [OF assms, of "\<lparr>cn_r = [], cn_w = []\<rparr>" "[]" "[]"] by auto
  moreover have "cn_w (WriteGetObjects \<lparr>cn_r = [], cn_w = []\<rparr> want have_ids) = frame MsgGetObjects ?req"
    by (simp add: WriteGetObjects_def writeFrame_eq)
  ultimately show ?thesis by blast
qed

lemma demo_env_h [simp]: "pe_h demo_env = zero_hash"
  by (simp add: demo_env_def)

lemma demo_sync_assms:
  assumes "store_ok zero_hash s" "GetRaw zero_hash s demo_id = Inr demo_bytes" "\<And>j. Has s j \<Longrightarrow> j = demo_id"
  shows "wf_hashes (pe_h demo_env)" "zlib_ok demo_env demo_env" "frames_fit demo_env [] s"
    "store_ok (pe_h demo_env) Open_store" "agree (pe_h demo_env) s Open_store"
    "acyclic (link_rel (pe_h demo_env) s \<union> link_rel (pe_h demo_env) Open_store)"
    "\<forall>w \<in> set [demo_id]. complete (pe_h demo_env) s w" "\<forall>v \<in> set []. complete (pe_h demo_env) Open_store v"
    "list_fits 24 [demo_id]" "list_fits 24 ([] :: byte list list)"
proof -
  note d = demo_one_object [OF assms(2,3)]
  have none: "\<not> Has Open_store j" for j by (simp add: Has_def Open_store_def split: sum.splits)
  then show "agree (pe_h demo_env) s Open_store" using GetRaw_Has [of _ Open_store] unfolding agree_def by blast
  have "(x, y) \<notin> link_rel zero_hash Open_store" for x y
    using none [of x] Get_Has [of zero_hash Open_store x Links] by (auto simp: link_rel_def)
  then have "link_rel zero_hash Open_store = {}" by auto
  with d show "acyclic (link_rel (pe_h demo_env) s \<union> link_rel (pe_h demo_env) Open_store)"
    by (simp add: demo_env_def acyclic_def)
  show "wf_hashes (pe_h demo_env)" by (rule demo_env_wf)
  show "zlib_ok demo_env demo_env" by (simp add: zlib_ok_def demo_env_def)
  show "list_fits 24 [demo_id]" by (simp add: list_fits_def demo_id_def fits64_def max_alloc_def)
  show "list_fits 24 ([] :: byte list list)" by (simp add: list_fits_def)
qed (use demo_one_object [OF assms(2,3)] in \<open>simp_all add: demo_env_def\<close>)

theorem sync_delivers_witness:
  "\<exists>s sc' c' (reply :: conn). GetRaw zero_hash s demo_id = Inr demo_bytes \<and>
     Fetch demo_env [] Open_store [demo_id] [] \<lparr>cn_r = cn_w reply, cn_w = []\<rparr> = Some (Inr (), sc', c') \<and>
     complete zero_hash sc' demo_id"
proof -
  obtain s where s: "store_ok zero_hash s" "GetRaw zero_hash s demo_id = Inr demo_bytes" "\<And>j. Has s j \<Longrightarrow> j = demo_id"
    by (rule demo_peer_store) blast
  from sync_delivers [OF refl demo_sync_assms [OF s]] obtain reply :: conn and sc' c' where
    "Fetch demo_env [] Open_store [demo_id] [] \<lparr>cn_r = cn_w reply, cn_w = []\<rparr> = Some (Inr (), sc', c')"
    "complete zero_hash sc' demo_id" by auto
  with s(2) show ?thesis by blast
qed

theorem fetch_safe_witness:
  "\<exists>c sc' c'. Fetch demo_env [] Open_store [demo_id] [] c = Some (Inr (), sc', c') \<and>
     store_ok zero_hash sc' \<and> complete zero_hash sc' demo_id"
proof -
  obtain s where s: "store_ok zero_hash s" "GetRaw zero_hash s demo_id = Inr demo_bytes" "\<And>j. Has s j \<Longrightarrow> j = demo_id"
    by (rule demo_peer_store) blast
  from serve_then_fetch [OF refl demo_sync_assms [OF s], of "\<lparr>cn_r = [], cn_w = []\<rparr>" "[]" "[]"]
  obtain c sc' c' where f: "Fetch demo_env [] Open_store [demo_id] [] c = Some (Inr (), sc', c')" by auto
  from fetch_safe [OF demo_env_wf(1) _ f] have "store_ok zero_hash sc' \<and> complete zero_hash sc' demo_id" by simp
  with f show ?thesis by blast
qed

end
