(* ===== verification/P2PSync.thy ===== *)
theory P2PSync
  imports P2PClient
begin

text \<open>
  Replication over a dialed connection: the reserved refs (\<^verbatim>\<open>p2p/refsync.go\<close>), which move only
  along reachability, and notes (\<^verbatim>\<open>p2p/notes.go\<close>), which move only along their chains. A pass
  reads the clock once. The value \<open>None\<close> is again a closure check that does not return.
\<close>

section \<open>Reserved refs\<close>

record ref_report =
  rr_Updated :: "string list"
  rr_Diverged :: "string list"
  rr_Refused :: "string list"

definition empty_rep :: ref_report where
  "empty_rep = \<lparr>rr_Updated = [], rr_Diverged = [], rr_Refused = []\<rparr>"

definition rep_sort :: "ref_report \<Rightarrow> ref_report" where
  "rep_sort rep = \<lparr>rr_Updated = sort (rr_Updated rep), rr_Diverged = sort (rr_Diverged rep),
     rr_Refused = sort (rr_Refused rep)\<rparr>"

record candidate =
  cd_name :: string
  cd_local :: "multihash option"
  cd_their :: multihash

definition resolveOrNil :: "repo \<Rightarrow> string \<Rightarrow> multihash option" where
  "resolveOrNil r name = (case Resolve (r_refs r) name of Inl _ \<Rightarrow> None | Inr id' \<Rightarrow> Some id')"

definition describe :: "string list \<Rightarrow> string" where
  "describe names =
     (let sample = 3;
          shown = (if length names > sample then take sample names else names);
          out = FormatInt 10 (int (length names)) @ '' ref(s)''
      in if length shown = 0 then out
         else
           (let out = out @ '' ('' @ join_with '', '' shown;
                out = (if length names > length shown
                       then out @ '', and '' @ FormatInt 10 (int (length names - length shown)) @ '' more'' else out)
            in out @ '')''))"

fun scanRemote :: "repo \<Rightarrow> wire_ref list \<Rightarrow> candidate list \<Rightarrow> ref_report \<Rightarrow> candidate list \<times> ref_report" where
  "scanRemote r [] cands rep = (cands, rep)"
| "scanRemote r (ref # remote) cands rep =
     (if \<not> IsReplicatedRef (wr_name ref) then scanRemote r remote cands rep
      else
        (case ValidName (wr_name ref) of
           Inl _ \<Rightarrow> scanRemote r remote cands (rep\<lparr>rr_Refused := rr_Refused rep @ [wr_name ref]\<rparr>)
         | Inr _ \<Rightarrow>
            (case mh_decode (wr_id ref) of
               Inl _ \<Rightarrow> scanRemote r remote cands (rep\<lparr>rr_Refused := rr_Refused rep @ [wr_name ref]\<rparr>)
             | Inr _ \<Rightarrow>
                (let local = resolveOrNil r (wr_name ref)
                 in if (case local of None \<Rightarrow> False | Some l \<Rightarrow> Equal l (wr_id ref))
                    then scanRemote r remote cands rep
                    else scanRemote r remote
                      (cands @ [\<lparr>cd_name = wr_name ref, cd_local = local, cd_their = wr_id ref\<rparr>]) rep))))"

fun applyCands :: "p2p_env \<Rightarrow> i64 \<Rightarrow> candidate list \<Rightarrow> ref_report \<Rightarrow> repo
    \<Rightarrow> ((goerr + unit) \<times> ref_report) \<times> repo" where
  "applyCands e now [] rep r = ((Inr (), rep), r)"
| "applyCands e now (cd # cands) rep r =
     (case cd_local cd of
        None \<Rightarrow>
          (case CompareAndSwap (r_refs r) now (cd_name cd) None (Some (cd_their cd)) ''ref-sync'' (''fetch '' @ cd_name cd) of
             (Inl er, rs) \<Rightarrow> ((Inl (Plain (''refs: creating '' @ cd_name cd @ '': '' @ err_text er)), rep), r\<lparr>r_refs := rs\<rparr>)
           | (Inr _, rs) \<Rightarrow>
               applyCands e now cands (rep\<lparr>rr_Updated := rr_Updated rep @ [cd_name cd]\<rparr>) (r\<lparr>r_refs := rs\<rparr>))
      | Some l \<Rightarrow>
          if \<not> reaches (pe_h e) (r_objects r) (cd_their cd) l then
            applyCands e now cands (rep\<lparr>rr_Diverged := rr_Diverged rep @ [cd_name cd]\<rparr>) r
          else
            (case CompareAndSwap (r_refs r) now (cd_name cd) (Some l) (Some (cd_their cd)) ''ref-sync'' (''fetch '' @ cd_name cd) of
               (Inl er, rs) \<Rightarrow> ((Inl (Plain (''refs: advancing '' @ cd_name cd @ '': '' @ err_text er)), rep), r\<lparr>r_refs := rs\<rparr>)
             | (Inr _, rs) \<Rightarrow>
                 applyCands e now cands (rep\<lparr>rr_Updated := rr_Updated rep @ [cd_name cd]\<rparr>) (r\<lparr>r_refs := rs\<rparr>)))"

definition ReplicateRefsFetch :: "p2p_env \<Rightarrow> i64 \<Rightarrow> caps \<Rightarrow> repo \<Rightarrow> conn
    \<Rightarrow> (((goerr + unit) \<times> ref_report) \<times> repo \<times> conn) option" where
  "ReplicateRefsFetch e now caps r c =
     (case ListRefs c of
        (Inl er, c) \<Rightarrow> Some ((Inl er, empty_rep), r, c)
      | (Inr remote, c) \<Rightarrow>
         (let (cands, rep) = scanRemote r remote [] empty_rep
          in if length cands = 0 then Some ((Inr (), rep_sort rep), r, c)
             else
               Option.bind (Fetch e caps (r_objects r) (map cd_their cands)
                   (concat (map (\<lambda>cd. case cd_local cd of None \<Rightarrow> [] | Some l \<Rightarrow> [l]) cands)) c) (\<lambda>(res, os, c).
               let r = r\<lparr>r_objects := os\<rparr>
               in case res of
                    Inl er \<Rightarrow> Some ((Inl (Plain (''refs: transferring '' @ describe (map cd_name cands) @ '': '' @ err_text er)), rep), r, c)
                  | Inr _ \<Rightarrow>
                      (case applyCands e now cands rep r of
                         ((Inl er, rep), r) \<Rightarrow> Some ((Inl er, rep), r, c)
                       | ((Inr _, rep), r) \<Rightarrow> Some ((Inr (), rep_sort rep), r, c)))))"

fun pushRefs_loop :: "p2p_env \<Rightarrow> caps \<Rightarrow> repo \<Rightarrow> (string \<Rightarrow> byte list option) \<Rightarrow> string list \<Rightarrow> ref_report \<Rightarrow> conn
    \<Rightarrow> ((goerr + unit) \<times> ref_report) \<times> conn" where
  "pushRefs_loop e caps r theirs [] rep c = ((Inr (), rep_sort rep), c)"
| "pushRefs_loop e caps r theirs (name # local) rep c =
     (if \<not> IsReplicatedRef name then pushRefs_loop e caps r theirs local rep c
      else
        (case ValidName name of
           Inl _ \<Rightarrow> pushRefs_loop e caps r theirs local (rep\<lparr>rr_Refused := rr_Refused rep @ [name]\<rparr>) c
         | Inr _ \<Rightarrow>
            (case Resolve (r_refs r) name of
               Inl er \<Rightarrow> ((Inl (Plain (''refs: resolving '' @ name @ '': '' @ err_text er)), rep), c)
             | Inr tip \<Rightarrow>
                (let old = theirs name
                 in if (case old of None \<Rightarrow> False | Some o' \<Rightarrow> Equal o' tip) then pushRefs_loop e caps r theirs local rep c
                    else if (case old of None \<Rightarrow> False | Some o' \<Rightarrow> \<not> reaches (pe_h e) (r_objects r) tip o')
                    then pushRefs_loop e caps r theirs local (rep\<lparr>rr_Diverged := rr_Diverged rep @ [name]\<rparr>) c
                    else
                      (case Push e caps (r_objects r) name old tip c of
                         (Inl er, c) \<Rightarrow> ((Inl (Plain (''refs: pushing '' @ name @ '': '' @ err_text er)), rep), c)
                       | (Inr _, c) \<Rightarrow> pushRefs_loop e caps r theirs local (rep\<lparr>rr_Updated := rr_Updated rep @ [name]\<rparr>) c)))))"

text \<open>The map of what the peer advertised: the last of several values counts, and an empty one is nil.\<close>

definition advertised :: "wire_ref list \<Rightarrow> string \<Rightarrow> byte list option" where
  "advertised remote name =
     Option.bind (map_of (rev (map (\<lambda>ref. (wr_name ref, wr_id ref)) remote)) name) nil_if_empty"

definition ReplicateRefsPush :: "p2p_env \<Rightarrow> caps \<Rightarrow> repo \<Rightarrow> conn \<Rightarrow> ((goerr + unit) \<times> ref_report) \<times> conn" where
  "ReplicateRefsPush e caps r c =
     (case ListRefs c of
        (Inl er, c) \<Rightarrow> ((Inl er, empty_rep), c)
      | (Inr remote, c) \<Rightarrow>
          pushRefs_loop e caps r (advertised remote) (sort (List_refs (r_refs r))) empty_rep c)"

section \<open>Notes\<close>

definition notesPrefix :: string where "notesPrefix = ''refs/notes/''"

definition noteNamespaceOf :: "string \<Rightarrow> string option" where
  "noteNamespaceOf ref =
     (if \<not> has_prefix ref notesPrefix then None
      else
        (let rest = drop (length notesPrefix) ref;
             tail = takeWhile (\<lambda>c. c \<noteq> CHR ''/'') (rev rest);
             i = int (length rest) - 1 - int (length tail)
         in if i \<le> 0 then None else Some (take (nat i) rest)))"

definition skipNamespace :: "string \<Rightarrow> (string \<Rightarrow> bool) option \<Rightarrow> bool" where
  "skipNamespace ns optOut =
     (case optOut of None \<Rightarrow> False | Some f \<Rightarrow> if IsReservedNoteNamespace ns then False else f ns)"

definition shortHash :: "multihash \<Rightarrow> string" where
  "shortHash m = (let h = Hex m in if length h > 12 then take 12 h else h)"

function noteChainLoop :: "hash_funs \<Rightarrow> objstore \<Rightarrow> multihash \<Rightarrow> string set \<Rightarrow> multihash option \<Rightarrow> bool" where
  "noteChainLoop h s target seen None = False"
| "noteChainLoop h s target seen (Some cur) =
     (if Equal cur target then True
      else if Hex cur \<in> seen then False
      else
        (case rbind (Get h s cur) AsNote of
           Inl _ \<Rightarrow> False
         | Inr n \<Rightarrow> noteChainLoop h s target (insert (Hex cur) seen) (n_parent n)))"
  by pat_completeness auto
termination
  by (relation "measure (\<lambda>(h, s, target, seen, cur). card (set (map (snd \<circ> fst) (os_files s)) - seen))")
    (auto simp: unmarked_less Get_Has simp del: set_map)

definition noteChainContains :: "hash_funs \<Rightarrow> repo \<Rightarrow> multihash \<Rightarrow> multihash \<Rightarrow> bool" where
  "noteChainContains h r tip target = noteChainLoop h (r_objects r) target {} (Some tip)"

definition diverged_error :: "string \<Rightarrow> string \<Rightarrow> multihash \<Rightarrow> string \<Rightarrow> multihash \<Rightarrow> goerr" where
  "diverged_error name this a that b =
     Plain (''notes: '' @ name @ '' diverged ('' @ this @ '' '' @ shortHash a @ '' not an ancestor of '' @ that @ '' ''
       @ shortHash b @ ''); refusing to clobber'')"

definition fastForwardNoteRef :: "p2p_env \<Rightarrow> i64 \<Rightarrow> repo \<Rightarrow> string \<Rightarrow> multihash option \<Rightarrow> multihash \<Rightarrow> (goerr + unit) \<times> repo" where
  "fastForwardNoteRef e now r name localOld remoteTip =
     (if (case localOld of None \<Rightarrow> False | Some l \<Rightarrow> Equal l remoteTip) then (Inr (), r)
      else if (case localOld of None \<Rightarrow> False | Some l \<Rightarrow> \<not> noteChainContains (pe_h e) r remoteTip l)
      then (Inl (diverged_error name ''local'' (bytes_or_nil localOld) ''remote'' remoteTip), r)
      else
        (let (res, rs) = CompareAndSwap (r_refs r) now name localOld (Some remoteTip) ''notes-sync'' (''fetch '' @ name)
         in (res, r\<lparr>r_refs := rs\<rparr>)))"

fun notesFetch_loop :: "p2p_env \<Rightarrow> i64 \<Rightarrow> caps \<Rightarrow> (string \<Rightarrow> bool) option \<Rightarrow> wire_ref list \<Rightarrow> repo \<Rightarrow> conn
    \<Rightarrow> ((goerr + unit) \<times> repo \<times> conn) option" where
  "notesFetch_loop e now caps optOut [] r c = Some (Inr (), r, c)"
| "notesFetch_loop e now caps optOut (ref # remote) r c =
     (if (case noteNamespaceOf (wr_name ref) of None \<Rightarrow> True | Some ns \<Rightarrow> skipNamespace ns optOut)
      then notesFetch_loop e now caps optOut remote r c
      else
        (let localOld = resolveOrNil r (wr_name ref);
             have_ids = (case localOld of None \<Rightarrow> [] | Some l \<Rightarrow> [l])
         in Option.bind (Fetch e caps (r_objects r) [wr_id ref] have_ids c) (\<lambda>(res, os, c).
            let r = r\<lparr>r_objects := os\<rparr>
            in case res of
                 Inl er \<Rightarrow> Some (Inl (Plain (''notes: fetching '' @ wr_name ref @ '': '' @ err_text er)), r, c)
               | Inr _ \<Rightarrow>
                   (case fastForwardNoteRef e now r (wr_name ref) localOld (wr_id ref) of
                      (Inl er, r) \<Rightarrow> Some (Inl er, r, c)
                    | (Inr _, r) \<Rightarrow> notesFetch_loop e now caps optOut remote r c))))"

definition ReplicateNotesFetch :: "p2p_env \<Rightarrow> i64 \<Rightarrow> caps \<Rightarrow> (string \<Rightarrow> bool) option \<Rightarrow> repo \<Rightarrow> conn
    \<Rightarrow> ((goerr + unit) \<times> repo \<times> conn) option" where
  "ReplicateNotesFetch e now caps optOut r c =
     (if CapNotesSync \<notin> set caps then
        Some (Inl (Plain ''p2p: peer does not advertise notes-sync; refusing to pretend notes replicated''), r, c)
      else
        (case ListRefs c of
           (Inl er, c) \<Rightarrow> Some (Inl er, r, c)
         | (Inr remote, c) \<Rightarrow> notesFetch_loop e now caps optOut remote r c))"

fun notesPush_loop :: "p2p_env \<Rightarrow> caps \<Rightarrow> (string \<Rightarrow> bool) option \<Rightarrow> repo \<Rightarrow> (string \<Rightarrow> byte list option) \<Rightarrow> string list
    \<Rightarrow> conn \<Rightarrow> (goerr + unit) \<times> conn" where
  "notesPush_loop e caps optOut r remoteTip [] c = (Inr (), c)"
| "notesPush_loop e caps optOut r remoteTip (name # local) c =
     (if (case noteNamespaceOf name of None \<Rightarrow> True | Some ns \<Rightarrow> skipNamespace ns optOut)
      then notesPush_loop e caps optOut r remoteTip local c
      else
        (case Resolve (r_refs r) name of
           Inl er \<Rightarrow> (Inl (Plain (''notes: resolving '' @ name @ '': '' @ err_text er)), c)
         | Inr localTip \<Rightarrow>
            (let old = remoteTip name
             in if (case old of None \<Rightarrow> False | Some o' \<Rightarrow> Equal o' localTip)
                then notesPush_loop e caps optOut r remoteTip local c
                else if (case old of None \<Rightarrow> False | Some o' \<Rightarrow> \<not> noteChainContains (pe_h e) r localTip o')
                then (Inl (diverged_error name ''remote'' (bytes_or_nil old) ''local'' localTip), c)
                else
                  (case Push e caps (r_objects r) name old localTip c of
                     (Inl er, c) \<Rightarrow> (Inl (Plain (''notes: pushing '' @ name @ '': '' @ err_text er)), c)
                   | (Inr _, c) \<Rightarrow> notesPush_loop e caps optOut r remoteTip local c))))"

definition ReplicateNotesPush :: "p2p_env \<Rightarrow> caps \<Rightarrow> (string \<Rightarrow> bool) option \<Rightarrow> repo \<Rightarrow> conn \<Rightarrow> (goerr + unit) \<times> conn" where
  "ReplicateNotesPush e caps optOut r c =
     (if CapNotesSync \<notin> set caps then
        (Inl (Plain ''p2p: peer does not advertise notes-sync; refusing to pretend notes replicated''), c)
      else
        (case ListRefs c of
           (Inl er, c) \<Rightarrow> (Inl er, c)
         | (Inr remote, c) \<Rightarrow> notesPush_loop e caps optOut r (advertised remote) (List_refs (r_refs r)) c))"

section \<open>What replication does to the refs\<close>

text \<open>
  A ref may be created, or moved to a value that the old one is reached from, at a name in the
  given class; the closure of the new value is there.
\<close>

definition forwarded :: "(string \<Rightarrow> bool) \<Rightarrow> (objstore \<Rightarrow> (multihash \<times> multihash) set) \<Rightarrow> hash_funs
    \<Rightarrow> refstate \<Rightarrow> objstore \<Rightarrow> refstate \<Rightarrow> bool" where
  "forwarded N R h rs os rs' \<longleftrightarrow> refs_sound rs' \<and>
     (\<forall>n. current rs' n = current rs n \<or>
        (N n \<and> (\<exists>v. current rs' n = Some v \<and> complete h os v \<and>
           (\<forall>old. current rs n = Some old \<longrightarrow> (v, old) \<in> (R os)\<^sup>*))))"

lemma forwarded_refl: "refs_sound rs \<Longrightarrow> forwarded N R h rs os rs"
  by (simp add: forwarded_def)

lemma forwarded_trans:
  assumes "forwarded N R h rs os rs1" "forwarded N R h rs1 os' rs2" "keeps h os os'" "R os \<subseteq> R os'"
  shows "forwarded N R h rs os' rs2"
  unfolding forwarded_def
proof (intro conjI allI)
  show "refs_sound rs2" using assms(2) by (simp add: forwarded_def)
  fix n
  have m: "(v, x) \<in> (R os)\<^sup>* \<Longrightarrow> (v, x) \<in> (R os')\<^sup>*" for v x
    using rtrancl_mono [OF assms(4)] by blast
  have c: "complete h os v \<Longrightarrow> complete h os' v" for v by (rule complete_keeps [OF assms(3)])
  have 1: "current rs1 n = current rs n \<or> (N n \<and> (\<exists>v. current rs1 n = Some v \<and> complete h os v \<and>
           (\<forall>old. current rs n = Some old \<longrightarrow> (v, old) \<in> (R os)\<^sup>*)))"
    using assms(1) unfolding forwarded_def by blast
  have 2: "current rs2 n = current rs1 n \<or> (N n \<and> (\<exists>v. current rs2 n = Some v \<and> complete h os' v \<and>
           (\<forall>old. current rs1 n = Some old \<longrightarrow> (v, old) \<in> (R os')\<^sup>*)))"
    using assms(2) unfolding forwarded_def by blast
  show "current rs2 n = current rs n \<or> (N n \<and> (\<exists>v. current rs2 n = Some v \<and> complete h os' v \<and>
           (\<forall>old. current rs n = Some old \<longrightarrow> (v, old) \<in> (R os')\<^sup>*)))"
  proof (cases "current rs1 n = current rs n")
    case True
    with 2 show ?thesis by simp
  next
    case False
    then obtain v where v: "N n" "current rs1 n = Some v" "complete h os v"
      "\<forall>old. current rs n = Some old \<longrightarrow> (v, old) \<in> (R os)\<^sup>*" using 1 by blast
    show ?thesis
    proof (cases "current rs2 n = current rs1 n")
      case True
      with v c m show ?thesis by auto
    next
      case False
      with 2 obtain w where w: "current rs2 n = Some w" "complete h os' w" "(w, v) \<in> (R os')\<^sup>*"
        using v(2) by blast
      have "(w, old) \<in> (R os')\<^sup>*" if "current rs n = Some old" for old
        using w(3) m v(4) that by (meson rtrancl_trans)
      with v(1) w show ?thesis by blast
    qed
  qed
qed

lemma cas_forwarded:
  assumes "refs_sound rs" "CompareAndSwap rs now n old (Some v) a m = (r, rs')"
    and "N n" "complete h os v" "\<And>o'. old = Some o' \<Longrightarrow> (v, o') \<in> (R os)\<^sup>*"
  shows "forwarded N R h rs os rs'"
  using assms(1,2)
proof (cases rule: cas_sound)
  case (kept er)
  with assms(1) show ?thesis by (simp add: forwarded_refl)
next
  case moved
  with assms(3-5) show ?thesis by (auto simp: forwarded_def)
qed

lemma resolveOrNil_eq: "resolveOrNil r n = resolved (r_refs r) n"
  by (simp add: resolveOrNil_def resolved_def)

definition cand_ok :: "hash_funs \<Rightarrow> objstore \<Rightarrow> candidate \<Rightarrow> bool" where
  "cand_ok h os cd \<longleftrightarrow> IsReplicatedRef (cd_name cd) \<and> complete h os (cd_their cd)"

lemma scanRemote_cands:
  "scanRemote r remote cands rep = (cands', rep') \<Longrightarrow>
   (\<forall>cd \<in> set cands. IsReplicatedRef (cd_name cd)) \<Longrightarrow> \<forall>cd \<in> set cands'. IsReplicatedRef (cd_name cd)"
  by (induction r remote cands rep rule: scanRemote.induct) (auto simp: Let_def split: if_splits sum.splits)

lemma applyCands_forwarded:
  "applyCands e now cands rep r = (res, r') \<Longrightarrow> refs_sound (r_refs r) \<Longrightarrow>
   \<forall>cd \<in> set cands. cand_ok (pe_h e) (r_objects r) cd \<Longrightarrow>
   r_objects r' = r_objects r \<and> forwarded IsReplicatedRef (link_rel (pe_h e)) (pe_h e) (r_refs r) (r_objects r) (r_refs r')"
proof (induction cands arbitrary: rep r)
  case Nil
  then show ?case by (simp add: forwarded_refl)
next
  case (Cons cd cands)
  let ?F = "forwarded IsReplicatedRef (link_rel (pe_h e)) (pe_h e)"
  have cd: "IsReplicatedRef (cd_name cd)" "complete (pe_h e) (r_objects r) (cd_their cd)"
    using Cons.prems(3) by (simp_all add: cand_ok_def)
  have go: ?case
    if c: "CompareAndSwap (r_refs r) now (cd_name cd) old (Some (cd_their cd)) a m = (x, rs)"
      and o: "\<And>o'. old = Some o' \<Longrightarrow> (cd_their cd, o') \<in> (link_rel (pe_h e) (r_objects r))\<^sup>*"
      and k: "r' = r\<lparr>r_refs := rs\<rparr> \<or> applyCands e now cands rep1 (r\<lparr>r_refs := rs\<rparr>) = (res, r')" for old a m x rs rep1
  proof -
    have f: "?F (r_refs r) (r_objects r) rs" 
      by (rule cas_forwarded [where N = IsReplicatedRef and R = "link_rel (pe_h e)", OF Cons.prems(2) c cd o])
    then have s: "refs_sound rs" by (simp add: forwarded_def)
    from k show ?thesis
    proof
      assume "r' = r\<lparr>r_refs := rs\<rparr>"
      with f show ?thesis by simp
    next
      assume "applyCands e now cands rep1 (r\<lparr>r_refs := rs\<rparr>) = (res, r')"
      from Cons.IH [OF this] s Cons.prems(3) forwarded_trans [OF f] show ?thesis by simp
    qed
  qed
  show ?case
  proof (cases "cd_local cd")
    case None
    obtain x rs where c: "CompareAndSwap (r_refs r) now (cd_name cd) None (Some (cd_their cd)) ''ref-sync''
        (''fetch '' @ cd_name cd) = (x, rs)" by fastforce
    have "r' = r\<lparr>r_refs := rs\<rparr> \<or>
        applyCands e now cands (rep\<lparr>rr_Updated := rr_Updated rep @ [cd_name cd]\<rparr>) (r\<lparr>r_refs := rs\<rparr>) = (res, r')"
      using Cons.prems(1) None c by (cases x) simp_all
    then show ?thesis by (rule go [OF c _ , rotated]) simp
  next
    case (Some l)
    show ?thesis
    proof (cases "reaches (pe_h e) (r_objects r) (cd_their cd) l")
      case False
      with Cons Some show ?thesis by simp
    next
      case True
      obtain x rs where c: "CompareAndSwap (r_refs r) now (cd_name cd) (Some l) (Some (cd_their cd)) ''ref-sync''
          (''fetch '' @ cd_name cd) = (x, rs)" by fastforce
      have "r' = r\<lparr>r_refs := rs\<rparr> \<or>
          applyCands e now cands (rep\<lparr>rr_Updated := rr_Updated rep @ [cd_name cd]\<rparr>) (r\<lparr>r_refs := rs\<rparr>) = (res, r')"
        using Cons.prems(1) Some True c by (cases x) simp_all
      then show ?thesis by (rule go [OF c _ , rotated]) (use True in \<open>simp add: reaches_iff\<close>)
    qed
  qed
qed

lemma ReplicateRefsFetch_forwarded:
  assumes "wf_hashes (pe_h e)" "serve_ok (pe_h e) r" "ReplicateRefsFetch e now caps r c = Some (res, r', c')"
  shows "store_ok (pe_h e) (r_objects r') \<and> keeps (pe_h e) (r_objects r) (r_objects r') \<and>
    forwarded IsReplicatedRef (link_rel (pe_h e)) (pe_h e) (r_refs r) (r_objects r') (r_refs r')"
proof -
  have ok: "store_ok (pe_h e) (r_objects r)" "refs_sound (r_refs r)" using assms(2) by (simp_all add: serve_ok_def)
  note same = forwarded_refl [OF ok(2)]
  obtain x c1 where l: "ListRefs c = (x, c1)" by fastforce
  show ?thesis
  proof (cases x)
    case (Inl er)
    with assms(3) l ok same show ?thesis by (auto simp: ReplicateRefsFetch_def)
  next
    case (Inr remote)
    obtain cands rep where sc: "scanRemote r remote [] empty_rep = (cands, rep)" by fastforce
    show ?thesis
    proof (cases "cands = []")
      case True
      with assms(3) l Inr sc ok same show ?thesis by (auto simp: ReplicateRefsFetch_def)
    next
      case False
      let ?hv = "concat (map (\<lambda>cd. case cd_local cd of None \<Rightarrow> [] | Some l \<Rightarrow> [l]) cands)"
      obtain y os c2 where f: "Fetch e caps (r_objects r) (map cd_their cands) ?hv c1 = Some (y, os, c2)"
        using assms(3) l Inr sc False by (auto simp: ReplicateRefsFetch_def split: Option.bind_splits)
      from fetchLoop_sound [OF f [unfolded Fetch_def] assms(1) ok(1)]
      have fs: "store_ok (pe_h e) os" "keeps (pe_h e) (r_objects r) os"
        "y = Inr () \<Longrightarrow> \<forall>w \<in> set (map cd_their cands). complete (pe_h e) os w" by auto
      show ?thesis
      proof (cases y)
        case (Inl er)
        with assms(3) l \<open>x = Inr remote\<close> sc False f fs same show ?thesis
          by (auto simp: ReplicateRefsFetch_def Let_def)
      next
        case y: (Inr u)
        obtain res2 r2 where a: "applyCands e now cands rep (r\<lparr>r_objects := os\<rparr>) = (res2, r2)" by fastforce
        have "r' = r2"
          using assms(3) l Inr sc False f y a by (auto simp: ReplicateRefsFetch_def Let_def split: sum.splits prod.splits)
        moreover have "\<forall>cd \<in> set cands. cand_ok (pe_h e) os cd"
          using scanRemote_cands [OF sc] fs(3) y by (auto simp: cand_ok_def)
        ultimately show ?thesis using applyCands_forwarded [OF a] ok(2) fs(1,2) by simp
      qed
    qed
  qed
qed

section \<open>Notes stay on their chains\<close>

definition parent_rel :: "hash_funs \<Rightarrow> objstore \<Rightarrow> (multihash \<times> multihash) set" where
  "parent_rel h s = {(x, y). \<exists>n. rbind (Get h s x) AsNote = Inr n \<and> n_parent n = Some y}"

lemma parent_rel_keeps:
  assumes "keeps h s s'"
  shows "parent_rel h s \<subseteq> parent_rel h s'"
proof
  fix p assume "p \<in> parent_rel h s"
  then obtain x y n where p: "p = (x, y)" "rbind (Get h s x) AsNote = Inr n" "n_parent n = Some y"
    by (auto simp: parent_rel_def)
  with keeps_Get [OF assms p(2)] show "p \<in> parent_rel h s'" by (auto simp: parent_rel_def)
qed

lemma noteChainLoop_sound:
  "noteChainLoop h s target seen m \<Longrightarrow> \<exists>v. m = Some v \<and> (v, target) \<in> (parent_rel h s)\<^sup>*"
proof (induction h s target seen m rule: noteChainLoop.induct)
  case (1 h s target seen)
  then show ?case by simp
next
  case (2 h s target seen cur)
  show ?case
  proof (cases "cur = target")
    case False
    then have e: "\<not> Equal cur target" by (simp add: Equal_iff)
    with 2(2) obtain n where n: "Hex cur \<notin> seen" "rbind (Get h s cur) AsNote = Inr n"
      "noteChainLoop h s target (insert (Hex cur) seen) (n_parent n)"
      by (auto split: if_splits sum.splits)
    from 2(1) [OF e n] obtain v where v: "n_parent n = Some v" "(v, target) \<in> (parent_rel h s)\<^sup>*" by blast
    have "(cur, v) \<in> parent_rel h s" using v n by (auto simp: parent_rel_def)
    from converse_rtrancl_into_rtrancl [OF this v(2)] show ?thesis by simp
  qed simp
qed

text \<open>A chain that continues another lists everything the other listed.\<close>

lemma chain_extends:
  assumes "(v, old) \<in> (parent_rel h s)\<^sup>*" "note_chain h s (Some old) = Some (Inr out)"
  shows "\<exists>newer. note_chain h s (Some v) = Some (Inr (newer @ out))"
  using assms
proof (induction rule: converse_rtrancl_induct)
  case base
  then show ?case by (metis append_Nil)
next
  case (step x y)
  then obtain n newer where "rbind (Get h s x) AsNote = Inr n" "n_parent n = Some y"
    "note_chain h s (Some y) = Some (Inr (newer @ out))"
    by (auto simp: parent_rel_def)
  then have "note_chain h s (Some x) = Some (Inr (((x, n) # newer) @ out))"
    by (simp add: note_chain_Some)
  then show ?case by blast
qed

definition is_note_ref :: "string \<Rightarrow> bool" where
  "is_note_ref n \<longleftrightarrow> noteNamespaceOf n \<noteq> None"

lemma fastForward_forwarded:
  assumes "refs_sound (r_refs r)" "complete (pe_h e) (r_objects r) tip" "is_note_ref n"
    and "fastForwardNoteRef e now r n old tip = (res, r')"
  shows "r_objects r' = r_objects r \<and>
    forwarded is_note_ref (parent_rel (pe_h e)) (pe_h e) (r_refs r) (r_objects r) (r_refs r')"
proof -
  obtain x rs where c: "CompareAndSwap (r_refs r) now n old (Some tip) ''notes-sync'' (''fetch '' @ n) = (x, rs)"
    by fastforce
  note same = forwarded_refl [OF assms(1)]
  show ?thesis
  proof (cases "\<exists>l. old = Some l \<and> (l = tip \<or> \<not> noteChainContains (pe_h e) r tip l)")
    case True
    with assms(4) same show ?thesis by (auto simp: fastForwardNoteRef_def Equal_iff split: if_splits)
  next
    case False
    then have o: "(tip, o') \<in> (parent_rel (pe_h e) (r_objects r))\<^sup>*" if "old = Some o'" for o'
    proof -
      have "noteChainContains (pe_h e) r tip o'" using False that by blast
      from noteChainLoop_sound [OF this [unfolded noteChainContains_def]] show ?thesis by simp
    qed
    have "r' = r\<lparr>r_refs := rs\<rparr>"
      using False assms(4) c by (auto simp: fastForwardNoteRef_def Equal_iff split: option.splits if_splits)
    with cas_forwarded [where N = is_note_ref and R = "parent_rel (pe_h e)", OF assms(1) c assms(3,2) o]
    show ?thesis by simp
  qed
qed

lemma notesFetch_forwarded:
  "notesFetch_loop e now caps optOut remote r c = Some (res, r', c') \<Longrightarrow> wf_hashes (pe_h e) \<Longrightarrow>
   serve_ok (pe_h e) r \<Longrightarrow>
   store_ok (pe_h e) (r_objects r') \<and> keeps (pe_h e) (r_objects r) (r_objects r') \<and>
   forwarded is_note_ref (parent_rel (pe_h e)) (pe_h e) (r_refs r) (r_objects r') (r_refs r')"
proof (induction remote arbitrary: r c)
  case Nil
  then show ?case by (simp add: serve_ok_def forwarded_refl)
next
  case (Cons ref remote)
  let ?F = "forwarded is_note_ref (parent_rel (pe_h e)) (pe_h e)"
  have ok: "store_ok (pe_h e) (r_objects r)" "refs_sound (r_refs r)" using Cons.prems(3) by (simp_all add: serve_ok_def)
  note same = forwarded_refl [OF ok(2)]
  show ?case
  proof (cases "case noteNamespaceOf (wr_name ref) of None \<Rightarrow> True | Some ns \<Rightarrow> skipNamespace ns optOut")
    case True
    with Cons show ?thesis by simp
  next
    case False
    then have n: "is_note_ref (wr_name ref)" by (auto simp: is_note_ref_def split: option.splits)
    let ?old = "resolveOrNil r (wr_name ref)"
    let ?hv = "case ?old of None \<Rightarrow> [] | Some l \<Rightarrow> [l]"
    obtain y os c2 where f: "Fetch e caps (r_objects r) [wr_id ref] ?hv c = Some (y, os, c2)"
      using Cons.prems(1) False by (auto simp: Let_def split: Option.bind_splits)
    from fetchLoop_sound [OF f [unfolded Fetch_def] Cons.prems(2) ok(1)]
    have fs: "store_ok (pe_h e) os" "keeps (pe_h e) (r_objects r) os" "y = Inr () \<Longrightarrow> complete (pe_h e) os (wr_id ref)"
      by auto
    let ?r = "r\<lparr>r_objects := os\<rparr>"
    show ?thesis
    proof (cases y)
      case (Inl er)
      then have "r' = ?r" using Cons.prems(1) False f by (simp add: Let_def)
      with fs(1,2) same show ?thesis by simp
    next
      case (Inr u)
      obtain z r1 where ff: "fastForwardNoteRef e now ?r (wr_name ref) ?old (wr_id ref) = (z, r1)" by fastforce
      have "complete (pe_h e) (r_objects ?r) (wr_id ref)" using fs(3) Inr by simp
      from fastForward_forwarded [OF _ this n ff] ok(2)
      have r1: "r_objects r1 = os" "?F (r_refs r) os (r_refs r1)" by simp_all
      have s1: "serve_ok (pe_h e) r1" using r1 fs(1) by (simp add: serve_ok_def forwarded_def)
      show ?thesis
      proof (cases z)
        case (Inl er)
        then have "r' = r1" using Cons.prems(1) False f \<open>y = Inr u\<close> ff by (simp add: Let_def)
        with r1 fs(1,2) show ?thesis by simp
      next
        case z: (Inr v)
        have "notesFetch_loop e now caps optOut remote r1 c2 = Some (res, r', c')"
          using Cons.prems(1) False f Inr ff z by (simp add: Let_def)
        from Cons.IH [OF this Cons.prems(2) s1]
        have r': "store_ok (pe_h e) (r_objects r')" "keeps (pe_h e) os (r_objects r')"
          "?F (r_refs r1) (r_objects r') (r_refs r')" using r1(1) by simp_all
        show ?thesis
          using r'(1) keeps_trans [OF fs(2) r'(2)]
            forwarded_trans [OF r1(2) r'(3,2) parent_rel_keeps [OF r'(2)]] by blast
      qed
    qed
  qed
qed

section \<open>An advertisement that names a ref twice\<close>

definition cand_of :: "repo \<Rightarrow> wire_ref \<Rightarrow> candidate list" where
  "cand_of r ref =
     (if IsReplicatedRef (wr_name ref) \<and> ValidName (wr_name ref) = Inr () \<and> (\<exists>x. mh_decode (wr_id ref) = Inr x) \<and>
         resolveOrNil r (wr_name ref) \<noteq> Some (wr_id ref)
      then [\<lparr>cd_name = wr_name ref, cd_local = resolveOrNil r (wr_name ref), cd_their = wr_id ref\<rparr>] else [])"

lemma scanRemote_eq: "fst (scanRemote r remote cands rep) = cands @ concat (map (cand_of r) remote)"
  by (induction r remote cands rep rule: scanRemote.induct)
    (auto simp: cand_of_def Let_def Equal_iff split: sum.splits option.splits)

lemma applyCands_taken:
  "applyCands e now (bs @ cb # cs) rep r = ((res, rep'), r') \<Longrightarrow> refs_sound (r_refs r) \<Longrightarrow> cd_local cb = None \<Longrightarrow>
   current (r_refs r) (cd_name cb) \<noteq> None \<Longrightarrow> res \<noteq> Inr ()"
proof (induction bs arbitrary: rep r)
  case Nil
  obtain x rs where c: "CompareAndSwap (r_refs r) now (cd_name cb) None (Some (cd_their cb)) ''ref-sync''
      (''fetch '' @ cd_name cb) = (x, rs)" by fastforce
  from Nil.prems(2) c have "\<exists>er. x = Inl er"
    by (cases rule: cas_sound) (use Nil.prems(4) in auto)
  with c Nil.prems(1,3) show ?case by auto
next
  case (Cons b bs)
  have go: "res \<noteq> Inr ()" if c: "CompareAndSwap (r_refs r) now (cd_name b) old (Some (cd_their b)) a m = (Inr u, rs)"
    and k: "applyCands e now (bs @ cb # cs) rep1 (r\<lparr>r_refs := rs\<rparr>) = ((res, rep'), r')" for old a m u rs rep1
  proof -
    from Cons.prems(2) c have "refs_sound rs" "current rs (cd_name cb) \<noteq> None"
      by (cases rule: cas_sound; use Cons.prems(4) in auto)+
    with Cons.IH [OF k] Cons.prems(3) show ?thesis by simp
  qed
  from Cons.prems(1) consider "res \<noteq> Inr ()"
    | rep1 where "applyCands e now (bs @ cb # cs) rep1 r = ((res, rep'), r')"
    | old rs u rep1 where "CompareAndSwap (r_refs r) now (cd_name b) old (Some (cd_their b)) ''ref-sync''
        (''fetch '' @ cd_name b) = (Inr u, rs)" "applyCands e now (bs @ cb # cs) rep1 (r\<lparr>r_refs := rs\<rparr>) = ((res, rep'), r')"
    by (auto split: option.splits if_splits prod.splits sum.splits)
  then show ?case
  proof cases
    case (2 rep1)
    from Cons.IH [OF this Cons.prems(2-4)] show ?thesis .
  next
    case 3
    then show ?thesis by (rule go)
  qed simp
qed

lemma applyCands_twice:
  "applyCands e now (as @ ca # bs @ cb # cs) rep r = ((res, rep'), r') \<Longrightarrow> refs_sound (r_refs r) \<Longrightarrow>
   cd_local ca = None \<Longrightarrow> cd_local cb = None \<Longrightarrow> cd_name ca = cd_name cb \<Longrightarrow> res \<noteq> Inr ()"
proof (induction as arbitrary: rep r)
  case Nil
  obtain x rs where c: "CompareAndSwap (r_refs r) now (cd_name ca) None (Some (cd_their ca)) ''ref-sync''
      (''fetch '' @ cd_name ca) = (x, rs)" by fastforce
  show ?case
  proof (cases x)
    case (Inl er)
    with Nil.prems(1,3) c show ?thesis by auto
  next
    case (Inr u)
    with Nil.prems(1,3) c obtain rep1 where
      k: "applyCands e now (bs @ cb # cs) rep1 (r\<lparr>r_refs := rs\<rparr>) = ((res, rep'), r')" by auto
    from Nil.prems(2) c have "refs_sound rs" "current rs (cd_name cb) \<noteq> None"
      by (cases rule: cas_sound; use Inr Nil.prems(5) in auto)+
    with applyCands_taken [OF k] Nil.prems(4) show ?thesis by simp
  qed
next
  case (Cons b as)
  have go: "res \<noteq> Inr ()" if c: "CompareAndSwap (r_refs r) now (cd_name b) old (Some (cd_their b)) a m = (Inr u, rs)"
    and k: "applyCands e now (as @ ca # bs @ cb # cs) rep1 (r\<lparr>r_refs := rs\<rparr>) = ((res, rep'), r')" for old a m u rs rep1
  proof -
    from Cons.prems(2) c have "refs_sound rs" by (cases rule: cas_sound; use Cons.prems(2) in auto)
    with Cons.IH [OF k] Cons.prems(3-5) show ?thesis by simp
  qed
  from Cons.prems(1) consider "res \<noteq> Inr ()"
    | rep1 where "applyCands e now (as @ ca # bs @ cb # cs) rep1 r = ((res, rep'), r')"
    | old rs u rep1 where "CompareAndSwap (r_refs r) now (cd_name b) old (Some (cd_their b)) ''ref-sync''
        (''fetch '' @ cd_name b) = (Inr u, rs)" "applyCands e now (as @ ca # bs @ cb # cs) rep1 (r\<lparr>r_refs := rs\<rparr>) = ((res, rep'), r')"
    by (auto split: option.splits if_splits prod.splits sum.splits)
  then show ?case
  proof cases
    case (2 rep1)
    from Cons.IH [OF this Cons.prems(2-5)] show ?thesis .
  next
    case 3
    then show ?thesis by (rule go)
  qed simp
qed

lemma twice_fails:
  assumes refs: "refs_sound (r_refs r)" and l: "ListRefs c = (Inr (xs @ a # ys @ b # zs), c1)"
    and n: "wr_name a = wr_name b" "IsReplicatedRef (wr_name b)" "ValidName (wr_name b) = Inr ()"
    and d: "mh_decode (wr_id a) = Inr x" "mh_decode (wr_id b) = Inr y" and absent: "resolveOrNil r (wr_name b) = None"
    and run: "ReplicateRefsFetch e now caps r c = Some ((res, rep'), r', c')"
  shows "res \<noteq> Inr ()"
proof -
  let ?remote = "xs @ a # ys @ b # zs"
  obtain cands rep where sc: "scanRemote r ?remote [] empty_rep = (cands, rep)" by fastforce
  let ?cd = "\<lambda>ref. \<lparr>cd_name = wr_name b, cd_local = None, cd_their = wr_id ref\<rparr>"
  have ab: "cand_of r a = [?cd a]" "cand_of r b = [?cd b]" using n d absent by (simp_all add: cand_of_def)
  have cands: "cands = concat (map (cand_of r) xs) @ ?cd a # concat (map (cand_of r) ys) @ ?cd b # concat (map (cand_of r) zs)"
    using scanRemote_eq [of r ?remote "[]" empty_rep] sc ab by simp
  then have ne: "cands \<noteq> []" by simp
  let ?hv = "concat (map (\<lambda>cd. case cd_local cd of None \<Rightarrow> [] | Some l \<Rightarrow> [l]) cands)"
  obtain z os c2 where f: "Fetch e caps (r_objects r) (map cd_their cands) ?hv c1 = Some (z, os, c2)"
    using run l sc ne by (auto simp: ReplicateRefsFetch_def split: Option.bind_splits)
  show ?thesis
  proof (cases z)
    case (Inl er)
    with run l sc ne f show ?thesis by (auto simp: ReplicateRefsFetch_def Let_def)
  next
    case (Inr u)
    obtain res2 rep2 r2 where ap: "applyCands e now cands rep (r\<lparr>r_objects := os\<rparr>) = ((res2, rep2), r2)"
      by (metis prod.collapse)
    then have "res2 \<noteq> Inr ()" using applyCands_twice [OF ap [unfolded cands]] refs by simp
    then obtain er where "res2 = Inl er" by (cases res2) auto
    with run l sc ne f Inr ap show ?thesis by (auto simp: ReplicateRefsFetch_def Let_def)
  qed
qed

section \<open>Properties\<close>

text \<open>C11. Replicating the reserved refs from a peer that may send anything never loses one: however the
  pass ends, a ref is untouched, or it is a replicated ref that was created or moved to a value from
  which the old value can be reached along links, so that the new value supersedes it; the whole
  closure of the new value is in the store. Refs are never deleted, and no other ref is touched.\<close>

theorem refs_fetch_forward:
  assumes "wf_hashes (pe_h e)" "store_ok (pe_h e) (r_objects r)" "refs_sound (r_refs r)"
    and "ReplicateRefsFetch e now caps r c = Some (res, r', c')"
  shows "current (r_refs r') n = current (r_refs r) n \<or>
    (IsReplicatedRef n \<and> (\<exists>v. current (r_refs r') n = Some v \<and> complete (pe_h e) (r_objects r') v \<and>
       (\<forall>old. current (r_refs r) n = Some old \<longrightarrow> reaches (pe_h e) (r_objects r') v old)))"
proof -
  have "serve_ok (pe_h e) r" using assms(2,3) by (simp add: serve_ok_def)
  from ReplicateRefsFetch_forwarded [OF assms(1) this assms(4)] show ?thesis
    unfolding forwarded_def reaches_iff by blast
qed

text \<open>C12. Replicating notes never loses a note, whatever the peer sends: every note a repository could
  list before the pass it still lists after it, below any newer ones, because a note ref only moves
  to a tip whose chain of parents passes through the old one.\<close>

theorem notes_fetch_keeps:
  assumes "wf_hashes (pe_h e)" "store_ok (pe_h e) (r_objects r)" "refs_sound (r_refs r)"
    and "ReplicateNotesFetch e now caps optOut r c = Some (res, r', c')"
    and "current (r_refs r) n = Some old" "note_chain (pe_h e) (r_objects r) (Some old) = Some (Inr out)"
  shows "\<exists>v newer. current (r_refs r') n = Some v \<and>
    note_chain (pe_h e) (r_objects r') (Some v) = Some (Inr (newer @ out))"
proof -
  have ok: "serve_ok (pe_h e) r" using assms(2,3) by (simp add: serve_ok_def)
  have "r' = r \<or> (\<exists>remote c1. notesFetch_loop e now caps optOut remote r c1 = Some (res, r', c'))"
    using assms(4) by (auto simp: ReplicateNotesFetch_def split: if_splits sum.splits prod.splits)
  then show ?thesis
  proof
    assume "r' = r"
    with assms(5,6) show ?thesis by (metis append_Nil)
  next
    assume "\<exists>remote c1. notesFetch_loop e now caps optOut remote r c1 = Some (res, r', c')"
    then obtain remote c1 where "notesFetch_loop e now caps optOut remote r c1 = Some (res, r', c')" by blast
    from notesFetch_forwarded [OF this assms(1) ok]
    have k: "keeps (pe_h e) (r_objects r) (r_objects r')"
      and f: "forwarded is_note_ref (parent_rel (pe_h e)) (pe_h e) (r_refs r) (r_objects r') (r_refs r')" by simp_all
    have chain: "note_chain (pe_h e) (r_objects r') (Some old) = Some (Inr out)"
      using note_chain_mono [OF _ assms(6)] k by (simp add: keeps_def)
    from f assms(5) obtain v where "current (r_refs r') n = Some v" "(v, old) \<in> (parent_rel (pe_h e) (r_objects r'))\<^sup>*"
      unfolding forwarded_def by (metis rtrancl.rtrancl_refl)
    with chain_extends [OF _ chain] show ?thesis by blast
  qed
qed

section \<open>Concrete passes\<close>

text \<open>A peer that lists some refs; what it says next is left open.\<close>

lemma ListRefs_listed:
  assumes "list_all wire_ref_ok refs" "length refs * 40 \<le> max_alloc"
    and "length (foldl put_ref (pw_uvarint [] (len64 refs)) refs) \<le> maxFrame"
  shows "ListRefs \<lparr>cn_r = cn_w (WriteRefs \<lparr>cn_r = [], cn_w = []\<rparr> refs) @ rest, cn_w = []\<rparr>
    = (Inr refs, \<lparr>cn_r = rest, cn_w = frame MsgListRefs []\<rparr>)"
proof -
  have "ParseRefs (foldl put_ref (pw_uvarint [] (len64 refs)) refs) = Inr refs"
    using assms(1,2) by (simp add: ParseRefs_def rbind_eq_Inr w_ref.counted_iff)
  with assms(3) show ?thesis
    by (simp add: ListRefs_def WriteListRefs_def WriteRefs_def writeFrame_eq msg_defs)
qed

definition demo_ref :: wire_ref where
  "demo_ref = \<lparr>wr_name = ''refs/varvig/tickets/t'', wr_id = demo_id\<rparr>"

lemma demo_ref_simps [simp]: "wr_name demo_ref = ''refs/varvig/tickets/t''" "wr_id demo_ref = demo_id"
  by (simp_all add: demo_ref_def)

lemma demo_listed:
  assumes "refs = [demo_ref] \<or> refs = [demo_ref, demo_ref]"
  shows "ListRefs \<lparr>cn_r = cn_w (WriteRefs \<lparr>cn_r = [], cn_w = []\<rparr> refs) @ rest, cn_w = []\<rparr>
    = (Inr refs, \<lparr>cn_r = rest, cn_w = frame MsgListRefs []\<rparr>)"
proof (rule ListRefs_listed)
  have u: "length (appendUvarint [] v) \<le> 10" for v by (rule length_appendUvarint)
  have "length (foldl put_ref (pw_uvarint [] (len64 refs)) refs) \<le> 10 + 2 * (10 + 21 + (10 + 34))"
    using assms u [of "len64 refs"] u [of "len64 ''refs/varvig/tickets/t''"] u [of "len64 demo_id"]
    by (auto simp: put_ref_def pw_acc put_bytes_def demo_id_def)
  then show "length (foldl put_ref (pw_uvarint [] (len64 refs)) refs) \<le> maxFrame"
    by (simp add: maxFrame_def)
qed (use assms in \<open>auto simp: wire_ref_ok_def fits64_def max_alloc_def demo_id_def\<close>)

lemma demo_scan:
  "IsReplicatedRef ''refs/varvig/tickets/t''" "ValidName ''refs/varvig/tickets/t'' = Inr ()" "mh_decode demo_id = Inr (0x1e, replicate 32 0)"
  "resolveOrNil demo_empty ''refs/varvig/tickets/t'' = None"
proof -
  show v: "ValidName ''refs/varvig/tickets/t'' = Inr ()" by (simp add: ValidName_def has_prefix_def has_suffix_def)
  show "IsReplicatedRef ''refs/varvig/tickets/t''" by (simp add: replicated_iff IsTicketRef_def IsFactoryRef_def reserved_defs has_prefix_def)
  show "mh_decode demo_id = Inr (0x1e, replicate 32 0)"
    unfolding mh_decode_iff
    by (simp add: demo_id_def mh_encode_def fits64_def max_alloc_def appendUvarint_small len64_def)
  have "current empty_refs n = None" for n
    by (simp add: current_None) (simp add: empty_refs_def)
  with v show "resolveOrNil demo_empty ''refs/varvig/tickets/t'' = None"
    by (simp add: resolveOrNil_eq resolved_is_current demo_empty_def)
qed

lemma refs_pass_returns:
  assumes "ListRefs c = (Inr remote, c1)" "scanRemote r remote [] empty_rep = (cands, rep0)" "cands \<noteq> []"
    and "Fetch e caps (r_objects r) (map cd_their cands)
      (concat (map (\<lambda>cd. case cd_local cd of None \<Rightarrow> [] | Some l \<Rightarrow> [l]) cands)) c1 = Some (res0, os, c2)"
  shows "\<exists>res rep r' c'. ReplicateRefsFetch e now caps r c = Some ((res, rep), r', c')"
proof -
  obtain res rep r1 where "applyCands e now cands rep0 (r\<lparr>r_objects := os\<rparr>) = ((res, rep), r1)"
    by (metis prod.collapse)
  with assms show ?thesis
    by (cases res0; cases res) (simp_all add: ReplicateRefsFetch_def)
qed

lemma demo_refs_run:
  assumes "refs = [demo_ref] \<or> refs = [demo_ref, demo_ref]"
  obtains c c1 res rep r' c' where "ListRefs c = (Inr refs, c1)"
    "ReplicateRefsFetch demo_env 0 [] demo_empty c = Some ((res, rep), r', c')"
proof -
  obtain s where s: "store_ok zero_hash s" "GetRaw zero_hash s demo_id = Inr demo_bytes" "\<And>j. Has s j \<Longrightarrow> j = demo_id"
    by (rule demo_peer_store) blast
  note a = demo_sync_assms [OF s]
  let ?want = "map (\<lambda>_. demo_id) refs"
  have w: "\<forall>w \<in> set ?want. complete (pe_h demo_env) s w" "list_fits 24 ?want"
    using assms a(7) by (auto simp: list_fits_def demo_id_def fits64_def max_alloc_def)
  from serve_then_fetch [OF refl a(1-6) w(1) a(8) w(2) a(10), of "\<lparr>cn_r = [], cn_w = []\<rparr>" "[]" "frame MsgListRefs []"]
  obtain cs :: conn and sc' c' where
    f: "Fetch demo_env [] Open_store ?want [] \<lparr>cn_r = cn_w cs, cn_w = frame MsgListRefs []\<rparr> = Some (Inr (), sc', c')"
    by auto
  let ?c = "\<lparr>cn_r = cn_w (WriteRefs \<lparr>cn_r = [], cn_w = []\<rparr> refs) @ cn_w cs, cn_w = []\<rparr> :: conn"
  note l = demo_listed [OF assms, of "cn_w cs"]
  let ?cd = "\<lparr>cd_name = ''refs/varvig/tickets/t'', cd_local = None, cd_their = demo_id\<rparr>"
  have sc: "fst (scanRemote demo_empty refs [] empty_rep) = map (\<lambda>_. ?cd) refs"
    using assms demo_scan by (auto simp: scanRemote_eq cand_of_def)
  then obtain rep0 where sc: "scanRemote demo_empty refs [] empty_rep = (map (\<lambda>_. ?cd) refs, rep0)"
    by (metis prod.collapse)
  have "map cd_their (map (\<lambda>_. ?cd) refs) = ?want"
    "concat (map (\<lambda>cd. case cd_local cd of None \<Rightarrow> [] | Some l \<Rightarrow> [l]) (map (\<lambda>_. ?cd) refs)) = []"
    using assms by auto
  then have f': "Fetch demo_env [] (r_objects demo_empty) (map cd_their (map (\<lambda>_. ?cd) refs))
      (concat (map (\<lambda>cd. case cd_local cd of None \<Rightarrow> [] | Some l \<Rightarrow> [l]) (map (\<lambda>_. ?cd) refs)))
      \<lparr>cn_r = cn_w cs, cn_w = frame MsgListRefs []\<rparr> = Some (Inr (), sc', c')"
    using f by (simp only: demo_empty_def repo.simps)
  have "map (\<lambda>_. ?cd) refs \<noteq> []" using assms by auto
  from refs_pass_returns [OF l sc this f'] show thesis using that l by blast
qed

theorem refs_fetch_forward_witness:
  "\<exists>c res r' c'. ReplicateRefsFetch demo_env 0 [] demo_empty c = Some (res, r', c') \<and>
     (current (r_refs r') ''refs/varvig/tickets/t'' = None \<or>
      (\<exists>v. current (r_refs r') ''refs/varvig/tickets/t'' = Some v \<and> complete zero_hash (r_objects r') v))"
proof -
  obtain c c1 res rep r' c' where run: "ReplicateRefsFetch demo_env 0 [] demo_empty c = Some ((res, rep), r', c')"
    by (rule demo_refs_run [OF disjI1 [OF refl]]) (rule that)
  have "current (r_refs demo_empty) ''refs/varvig/tickets/t'' = None"
    using demo_scan by (simp add: resolveOrNil_eq resolved_is_current)
  then have "current (r_refs r') ''refs/varvig/tickets/t'' = None \<or>
      (\<exists>v. current (r_refs r') ''refs/varvig/tickets/t'' = Some v \<and> complete zero_hash (r_objects r') v)"
    using refs_fetch_forward [OF demo_env_wf run, of "''refs/varvig/tickets/t''"] by auto
  with run show ?thesis by (intro exI conjI)
qed

text \<open>A peer that lists one new replicated ref twice makes the whole pass fail, although both lines are
  well formed and name the same value: both become candidates for creation, and the second creation
  meets the ref the first one made. A single malformed advertisement is meant not to abort a pass.\<close>

theorem duplicate_advert_aborts:
  assumes "refs_sound (r_refs r)" and "ListRefs c = (Inr (xs @ ref # ys @ ref # zs), c1)"
    and "IsReplicatedRef (wr_name ref)" "ValidName (wr_name ref) = Inr ()" "mh_decode (wr_id ref) = Inr x"
    and "resolveOrNil r (wr_name ref) = None"
    and "ReplicateRefsFetch e now caps r c = Some ((res, rep), r', c')"
  shows "\<exists>er. res = Inl er"
  using twice_fails [OF assms(1,2) refl assms(3,4,5,5,6,7)] by (cases res) auto

theorem duplicate_advert_aborts_witness:
  "\<exists>c er rep r' c'. ReplicateRefsFetch demo_env 0 [] demo_empty c = Some ((Inl er, rep), r', c')"
proof -
  obtain c c1 res rep r' c' where l: "ListRefs c = (Inr [demo_ref, demo_ref], c1)"
    and run: "ReplicateRefsFetch demo_env 0 [] demo_empty c = Some ((res, rep), r', c')"
    by (rule demo_refs_run [OF disjI2 [OF refl]]) (rule that)
  from duplicate_advert_aborts [of demo_empty c "[]" demo_ref "[]" "[]" c1, OF _ _ _ _ _ _ run] demo_env_wf demo_scan l
  obtain er where "res = Inl er" by auto
  with run show ?thesis by blast
qed

theorem notes_fetch_keeps_witness:
  "\<exists>i n r res r' (c' :: conn) v newer.
     Add_note zero_hash demo_empty 1 ''review'' [0x12, 1, 5] [7] ''a'' 2 = (Inr i, r) \<and>
     ReplicateNotesFetch demo_env 0 [CapNotesSync] None r
       \<lparr>cn_r = cn_w (WriteRefs \<lparr>cn_r = [], cn_w = []\<rparr> []), cn_w = []\<rparr> = Some (res, r', c') \<and>
     note_chain zero_hash (r_objects r') (Some v) = Some (Inr (newer @ [(i, n)]))"
proof -
  let ?t = "[0x12, 1, 5] :: multihash" and ?name = "''refs/notes/review/120105''"
  let ?c = "\<lparr>cn_r = cn_w (WriteRefs \<lparr>cn_r = [], cn_w = []\<rparr> []), cn_w = []\<rparr> :: conn"
  have wf: "wf_hashes zero_hash" using demo_env_wf(1) by simp
  have name: "note_refName ''review'' ?t = Inr ?name"
    by (simp add: note_refName_def validNamespace_def has_prefix_def has_suffix_def Hex_def hex_digit_def)
  have valid: "ValidName ?name = Inr ()" by (simp add: ValidName_def has_prefix_def has_suffix_def)
  have cl: "clear (rs_refs empty_refs) ?name" "clear (rs_logs empty_refs) ?name"
    by (simp_all add: clear_def empty_refs_def empty_ftree_def is_file_def list_ex_iff)
  obtain i r n where add: "Add_note zero_hash demo_empty 1 ''review'' ?t [7] ''a'' 2 = (Inr i, r)"
    and ls: "List_notes zero_hash r ''review'' ?t = Some (Inr [(i, n)])"
    using first_note [OF wf name valid _ _ _ _ cl, where clock = 1 and payload = "[7]" and author = "''a''" and now = 2]
    by (auto simp: fits64_def demo_empty_def)
  obtain name' parent os u where nm: "note_refName ''review'' ?t = Inr name'"
    and put: "PutRaw zero_hash (r_objects demo_empty) (Encode (note_obj \<lparr>n_target = nil_if_empty ?t, n_namespace = ''review'',
        n_payload = [7], n_parent = parent, n_timestamp = 2, n_author = ''a''\<rparr>)) = (Inr i, os)"
    and cas: "CompareAndSwap (r_refs demo_empty) 1 name' parent (Some i) ''a'' (''note:'' @ ''review'') = (Inr u, r_refs r)"
    and os: "r_objects r = os"
    using Add_note_cases [OF add] .
  have n': "name' = ?name" using nm name by simp
  have sound: "refs_sound (r_refs r)" and cur: "current (r_refs r) ?name = Some i"
    by (cases rule: cas_sound [OF demo_env_wf(3) cas]; simp add: n')+
  have sok: "store_ok zero_hash (r_objects r)"
    using PutRaw_ok(1) [OF wf _ put] demo_env_wf(2) os by simp
  have "Resolve (r_refs r) ?name = Inr i" using resolved_is_current [OF valid, of "r_refs r"] cur
    by (auto simp: resolved_def split: sum.splits)
  with ls name have ch: "note_chain zero_hash (r_objects r) (Some i) = Some (Inr [(i, n)])"
    by (simp add: List_notes_def)
  have "ListRefs ?c = (Inr [], \<lparr>cn_r = [], cn_w = frame MsgListRefs []\<rparr>)"
    using ListRefs_listed [of "[]" "[]"] length_appendUvarint [of "len64 ([] :: wire_ref list)"] by (simp add: pw_uvarint_def maxFrame_def)
  then have run: "ReplicateNotesFetch demo_env 0 [CapNotesSync] None r ?c
      = Some (Inr (), r, \<lparr>cn_r = [], cn_w = frame MsgListRefs []\<rparr>)"
    by (simp add: ReplicateNotesFetch_def)
  from notes_fetch_keeps [of demo_env r, OF _ _ sound run cur] wf sok ch
  obtain v newer where "note_chain zero_hash (r_objects r) (Some v) = Some (Inr (newer @ [(i, n)]))" by auto
  with add run show ?thesis by blast
qed

end
