(* ===== verification/GoPath.thy ===== *)
theory GoPath
  imports Prelude
begin

text \<open>
  The parts of the standard package \<^verbatim>\<open>path\<close> the program uses, on slash-separated strings of bytes:
  cutting at the last slash, extensions, lexical cleaning and joining.
\<close>

section \<open>Cutting a path\<close>

definition last_seg :: "string \<Rightarrow> string" where
  "last_seg p = rev (takeWhile (\<lambda>c. c \<noteq> CHR ''/'') (rev p))"

text \<open>Everything up to and with the last slash.\<close>

definition dir_part :: "string \<Rightarrow> string" where
  "dir_part p = rev (dropWhile (\<lambda>c. c \<noteq> CHR ''/'') (rev p))"

lemma dir_last: "dir_part p @ last_seg p = p"
  unfolding dir_part_def last_seg_def by (metis rev_append rev_rev_ident takeWhile_dropWhile_id)

text \<open>The suffix from the last dot on, when there is one.\<close>

definition from_last_dot :: "string \<Rightarrow> string option" where
  "from_last_dot s =
     (if CHR ''.'' \<in> set s then Some (CHR ''.'' # rev (takeWhile (\<lambda>c. c \<noteq> CHR ''.'') (rev s))) else None)"

definition path_Ext :: "string \<Rightarrow> string" where
  "path_Ext p = (case from_last_dot (last_seg p) of None \<Rightarrow> [] | Some e \<Rightarrow> e)"

section \<open>Cleaning\<close>

text \<open>The segments that remain, the last one first; a path that is not rooted keeps leading double dots.\<close>

fun clean_loop :: "bool \<Rightarrow> string list \<Rightarrow> string list \<Rightarrow> string list" where
  "clean_loop rooted acc [] = acc"
| "clean_loop rooted acc (seg # segs) =
     (if seg = [] \<or> seg = ''.'' then clean_loop rooted acc segs
      else if seg = ''..'' then
        (case acc of
           [] \<Rightarrow> if rooted then clean_loop rooted [] segs else clean_loop rooted [''..''] segs
         | a # as \<Rightarrow> if a = ''..'' then clean_loop rooted (''..'' # a # as) segs else clean_loop rooted as segs)
      else clean_loop rooted (seg # acc) segs)"

definition path_Clean :: "string \<Rightarrow> string" where
  "path_Clean p =
     (if p = [] then ''.''
      else
        (let rooted = has_prefix p ''/'';
             out = join_with ''/'' (rev (clean_loop rooted [] (split_on CHR ''/'' p)))
         in if rooted then ''/'' @ out else if out = [] then ''.'' else out))"

definition path_Dir :: "string \<Rightarrow> string" where
  "path_Dir p = path_Clean (dir_part p)"

definition path_Join :: "string \<Rightarrow> string \<Rightarrow> string" where
  "path_Join a b =
     (if a = [] \<and> b = [] then []
      else if a = [] then path_Clean b
      else path_Clean (a @ ''/'' @ b))"

text \<open>Segments that cleaning leaves alone.\<close>

definition plain_seg :: "string \<Rightarrow> bool" where
  "plain_seg s \<longleftrightarrow> s \<noteq> [] \<and> s \<noteq> ''.'' \<and> s \<noteq> ''..'' \<and> CHR ''/'' \<notin> set s"

lemma clean_plain: "list_all plain_seg segs \<Longrightarrow> clean_loop rooted acc segs = rev segs @ acc"
  by (induction segs arbitrary: acc) (simp_all add: plain_seg_def)

lemma join_plain_ne: "segs \<noteq> [] \<Longrightarrow> list_all plain_seg segs \<Longrightarrow>
    join_with ''/'' segs \<noteq> [] \<and> \<not> has_prefix (join_with ''/'' segs) ''/''"
  by (induction "''/''" segs rule: join_with.induct) (auto simp: plain_seg_def has_prefix_def neq_Nil_conv)

lemma Clean_plain:
  assumes "segs \<noteq> []" "list_all plain_seg segs"
  shows "path_Clean (join_with ''/'' segs) = join_with ''/'' segs"
proof -
  have "split_on CHR ''/'' (join_with ''/'' segs) = segs"
    using split_join [of segs "CHR ''/''"] assms by (auto simp: list_all_iff plain_seg_def)
  with join_plain_ne [OF assms] clean_plain [OF assms(2)] show ?thesis
    by (simp add: path_Clean_def Let_def)
qed

lemma join_snoc_seg: "segs \<noteq> [] \<Longrightarrow> join_with ''/'' (segs @ [s]) = join_with ''/'' segs @ ''/'' @ s"
  by (induction "''/''" segs rule: join_with.induct) auto

lemma Join_plain:
  assumes "segs \<noteq> []" "list_all plain_seg segs" "plain_seg s"
  shows "path_Join (join_with ''/'' segs) s = join_with ''/'' (segs @ [s])"
  using assms Clean_plain [of "segs @ [s]"] join_plain_ne [OF assms(1,2)]
  by (simp add: path_Join_def join_snoc_seg)

lemma join_plain_inj:
  assumes "list_all plain_seg as" "list_all plain_seg bs" "join_with ''/'' as = join_with ''/'' bs"
  shows "as = bs"
proof (cases "as = [] \<or> bs = []")
  case True
  then show ?thesis using assms join_plain_ne [of as] join_plain_ne [of bs] by (cases "as = []"; cases "bs = []") auto
next
  case False
  have "split_on CHR ''/'' (join_with ''/'' as) = as" "split_on CHR ''/'' (join_with ''/'' bs) = bs"
    using split_join [of as "CHR ''/''"] split_join [of bs "CHR ''/''"] False assms(1,2)
    by (auto simp: list_all_iff plain_seg_def)
  with assms(3) show ?thesis by metis
qed

end
