(* ===== verification/DiffTree.thy ===== *)
theory DiffTree
  imports TreeFiles GoPath
begin

text \<open>
  \<^verbatim>\<open>internal/affected/affected.go\<close>: trees as maps from paths to identities, and the difference of two
  trees, which descends only into subtrees whose identities differ. Recursion takes a depth as
  in \<^verbatim>\<open>TreeFiles\<close>; Go maps are association lists in the order of iteration, and results are sorted.
\<close>

section \<open>Walking a tree\<close>

type_synonym id_files = "(string \<times> multihash) list"

fun tree_walk :: "nat \<Rightarrow> hash_funs \<Rightarrow> objstore \<Rightarrow> multihash \<Rightarrow> string \<Rightarrow> id_files \<Rightarrow> goerr + id_files" where
  "tree_walk 0 h s treeID prefix out = Inl (Panic ''stack overflow'')"
| "tree_walk (Suc stk) h s treeID prefix out =
     rbind (Get h s treeID) (\<lambda>obj.
     rbind (TreeEntries obj) (\<lambda>entries.
     foldl (\<lambda>r e. rbind r (\<lambda>out.
         let p = entry_path prefix (ename e) in
         if ekind e = TypeTree then tree_walk stk h s (eid e) p out
         else Inr (AList.update p (eid e) out)))
       (Inr out) entries))"

definition FlattenTree :: "nat \<Rightarrow> hash_funs \<Rightarrow> objstore \<Rightarrow> multihash option \<Rightarrow> goerr + id_files" where
  "FlattenTree stk h s treeID = (case treeID of None \<Rightarrow> Inr [] | Some t \<Rightarrow> tree_walk stk h s t [] [])"

section \<open>The difference of two trees\<close>

record tree_diff =
  d_Added :: "string list"
  d_Modified :: "string list"
  d_Removed :: "string list"

definition Changed :: "tree_diff \<Rightarrow> string list" where
  "Changed d = sort (d_Added d @ d_Modified d @ d_Removed d)"

definition entriesOf :: "hash_funs \<Rightarrow> objstore \<Rightarrow> multihash option \<Rightarrow> goerr + entry list" where
  "entriesOf h s id' =
     (case id' of
        None \<Rightarrow> Inr []
      | Some i \<Rightarrow>
          rbind (Get h s i) (\<lambda>obj.
          if otyp obj \<noteq> TypeTree then Inl (Plain ''affected: expected tree'')
          else TreeEntries obj))"

definition indexByName :: "entry list \<Rightarrow> (string \<times> entry) list" where
  "indexByName entries = foldl (\<lambda>m e. AList.update (ename e) e m) [] entries"

definition aff_join :: "string \<Rightarrow> string \<Rightarrow> string" where
  "aff_join prefix name = (if prefix = [] then name else path_Join prefix name)"

definition aff_collect :: "nat \<Rightarrow> hash_funs \<Rightarrow> objstore \<Rightarrow> entry \<Rightarrow> string \<Rightarrow> string list \<Rightarrow> goerr + string list" where
  "aff_collect stk h s e p dst =
     (if ekind e = TypeBlob then Inr (dst @ [p])
      else rbind (tree_walk stk h s (eid e) p []) (\<lambda>sub. Inr (dst @ map fst sub)))"

definition into_Removed :: "nat \<Rightarrow> hash_funs \<Rightarrow> objstore \<Rightarrow> entry \<Rightarrow> string \<Rightarrow> tree_diff \<Rightarrow> goerr + tree_diff" where
  "into_Removed stk h s e p d = rbind (aff_collect stk h s e p (d_Removed d)) (\<lambda>xs. Inr (d\<lparr>d_Removed := xs\<rparr>))"

definition into_Added :: "nat \<Rightarrow> hash_funs \<Rightarrow> objstore \<Rightarrow> entry \<Rightarrow> string \<Rightarrow> tree_diff \<Rightarrow> goerr + tree_diff" where
  "into_Added stk h s e p d = rbind (aff_collect stk h s e p (d_Added d)) (\<lambda>xs. Inr (d\<lparr>d_Added := xs\<rparr>))"

fun diffTrees :: "nat \<Rightarrow> hash_funs \<Rightarrow> objstore \<Rightarrow> multihash option \<Rightarrow> multihash option \<Rightarrow> string \<Rightarrow> tree_diff
    \<Rightarrow> goerr + tree_diff" where
  "diffTrees 0 h s base new prefix d = Inl (Panic ''stack overflow'')"
| "diffTrees (Suc stk) h s base new prefix d =
     (if base \<noteq> None \<and> new \<noteq> None \<and> Equal (the base) (the new) then Inr d
      else
        rbind (entriesOf h s base) (\<lambda>baseEntries.
        rbind (entriesOf h s new) (\<lambda>newEntries.
        let bm = indexByName baseEntries; nm = indexByName newEntries in
        rbind (foldl (\<lambda>r (name, be). rbind r (\<lambda>d.
            let p = aff_join prefix name in
            case map_of nm name of
              None \<Rightarrow> into_Removed stk h s be p d
            | Some ne \<Rightarrow>
                if ekind be = TypeTree \<and> ekind ne = TypeTree then
                  (if \<not> Equal (eid be) (eid ne)
                   then diffTrees stk h s (Some (eid be)) (Some (eid ne)) p d else Inr d)
                else if ekind be = TypeBlob \<and> ekind ne = TypeBlob then
                  (if \<not> Equal (eid be) (eid ne) then Inr (d\<lparr>d_Modified := d_Modified d @ [p]\<rparr>) else Inr d)
                else rbind (into_Removed stk h s be p d) (\<lambda>d. into_Added stk h s ne p d)))
          (Inr d) bm) (\<lambda>d.
        foldl (\<lambda>r (name, ne). rbind r (\<lambda>d.
            if map_of bm name \<noteq> None then Inr d
            else into_Added stk h s ne (aff_join prefix name) d))
          (Inr d) nm))))"

definition DiffTrees :: "nat \<Rightarrow> hash_funs \<Rightarrow> objstore \<Rightarrow> multihash option \<Rightarrow> multihash option \<Rightarrow> goerr + tree_diff" where
  "DiffTrees stk h s base new =
     rbind (diffTrees stk h s base new [] \<lparr>d_Added = [], d_Modified = [], d_Removed = []\<rparr>) (\<lambda>d.
     Inr \<lparr>d_Added = sort (d_Added d), d_Modified = sort (d_Modified d), d_Removed = sort (d_Removed d)\<rparr>)"

section \<open>What a tree holds\<close>

text \<open>The map read from sorted entries holds each entry under its own name, once.\<close>

lemma update_fresh: "k \<notin> fst ` set es \<Longrightarrow> AList.update k v es = es @ [(k, v)]"
  by (induction es) auto

lemma fold_entries:
  "distinct (map fst out @ map ename es) \<Longrightarrow>
   foldl (\<lambda>out e. AList.update (ename e) e out) out es = out @ map (\<lambda>e. (ename e, e)) es"
  by (induction es arbitrary: out) (simp_all add: update_fresh)

lemma wf_entries_distinct: "wf_entries es \<Longrightarrow> distinct (map ename es)"
  unfolding wf_entries_def by (metis strict_sorted_iff)

text \<open>The identity of the file at a path, as a list of segments.\<close>

fun tree_lookup :: "nat \<Rightarrow> hash_funs \<Rightarrow> objstore \<Rightarrow> multihash \<Rightarrow> string list \<Rightarrow> multihash option" where
  "tree_lookup 0 h s t segs = None"
| "tree_lookup (Suc n) h s t [] = None"
| "tree_lookup (Suc n) h s t (nm # rest) =
     (case rbind (Get h s t) TreeEntries of
        Inl _ \<Rightarrow> None
      | Inr es \<Rightarrow>
         (case map_of (map (\<lambda>e. (ename e, e)) es) nm of
            None \<Rightarrow> None
          | Some e \<Rightarrow>
              if ekind e = TypeTree then tree_lookup n h s (eid e) rest
              else if rest = [] then Some (eid e) else None))"

definition entry_lookup :: "nat \<Rightarrow> hash_funs \<Rightarrow> objstore \<Rightarrow> entry \<Rightarrow> string list \<Rightarrow> multihash option" where
  "entry_lookup n h s e rest =
     (if ekind e = TypeTree then tree_lookup n h s (eid e) rest
      else if rest = [] then Some (eid e) else None)"

definition opt_lookup :: "nat \<Rightarrow> hash_funs \<Rightarrow> objstore \<Rightarrow> multihash option \<Rightarrow> string list \<Rightarrow> multihash option" where
  "opt_lookup n h s t segs = (case t of None \<Rightarrow> None | Some i \<Rightarrow> tree_lookup n h s i segs)"

text \<open>Readable trees of files and directories whose names are plain.\<close>

fun plain_tree :: "nat \<Rightarrow> hash_funs \<Rightarrow> objstore \<Rightarrow> multihash \<Rightarrow> bool" where
  "plain_tree 0 h s t = False"
| "plain_tree (Suc n) h s t =
     (case rbind (Get h s t) TreeEntries of
        Inl _ \<Rightarrow> False
      | Inr es \<Rightarrow> list_all (\<lambda>e. plain_seg (ename e) \<and>
          (if ekind e = TypeTree then plain_tree n h s (eid e) else ekind e = TypeBlob)) es)"

definition opt_plain :: "nat \<Rightarrow> hash_funs \<Rightarrow> objstore \<Rightarrow> multihash option \<Rightarrow> bool" where
  "opt_plain n h s t \<longleftrightarrow> (case t of None \<Rightarrow> True | Some i \<Rightarrow> plain_tree n h s i)"

definition named :: "entry list \<Rightarrow> (string \<times> entry) list" where
  "named es = map (\<lambda>e. (ename e, e)) es"

lemma lookup_Cons:
  "rbind (Get h s t) TreeEntries = Inr es \<Longrightarrow> tree_lookup (Suc n) h s t (nm # rest) =
     (case map_of (named es) nm of None \<Rightarrow> None | Some e \<Rightarrow> entry_lookup n h s e rest)"
  by (simp add: entry_lookup_def named_def split: option.splits)

lemma named_entries:
  assumes "rbind (Get h s t) TreeEntries = Inr es"
  shows "distinct (map ename es)" "indexByName es = named es" "distinct (map fst (named es))"
proof -
  obtain o' where "TreeEntries o' = Inr es" using assms by (auto simp: rbind_eq_Inr)
  then show d: "distinct (map ename es)" using TreeEntries_wf wf_entries_distinct by blast
  then show "indexByName es = named es" by (simp add: indexByName_def fold_entries named_def)
  show "distinct (map fst (named es))" using d by (simp add: named_def comp_def)
qed

lemma plain_treeD:
  assumes "plain_tree n h s t"
  obtains m es where "n = Suc m" "rbind (Get h s t) TreeEntries = Inr es"
    "\<And>e. e \<in> set es \<Longrightarrow> plain_seg (ename e) \<and> (if ekind e = TypeTree then plain_tree m h s (eid e) else ekind e = TypeBlob)"
  using assms by (cases n) (auto simp: list_all_iff split: sum.splits)

text \<open>Paths that name a file are plain, and there are finitely many.\<close>

lemma lookup_plain: "plain_tree n h s t \<Longrightarrow> tree_lookup n h s t segs = Some i \<Longrightarrow> segs \<noteq> [] \<and> list_all plain_seg segs"
proof (induction n arbitrary: t segs)
  case (Suc n)
  from Suc.prems(1) obtain es where es: "rbind (Get h s t) TreeEntries = Inr es"
    and e: "\<And>e. e \<in> set es \<Longrightarrow> plain_seg (ename e) \<and> (if ekind e = TypeTree then plain_tree n h s (eid e) else ekind e = TypeBlob)"
    by (rule plain_treeD) blast
  obtain nm rest where segs: "segs = nm # rest" using Suc.prems(2) by (cases segs) auto
  with Suc.prems(2) obtain x where x: "map_of (named es) nm = Some x" "entry_lookup n h s x rest = Some i"
    unfolding segs lookup_Cons [OF es] by (auto split: option.splits)
  then have "x \<in> set es" "ename x = nm" by (auto simp: named_def dest!: map_of_SomeD)
  with e [of x] x(2) segs Suc.IH [of "eid x" rest] show ?case
    by (auto simp: entry_lookup_def split: if_splits)
qed simp

lemma lookup_finite: "finite {segs. tree_lookup n h s t segs \<noteq> None}"
proof (induction n arbitrary: t)
  case (Suc n)
  show ?case
  proof (cases "rbind (Get h s t) TreeEntries")
    case (Inl e)
    have "tree_lookup (Suc n) h s t segs = None" for segs using Inl by (cases segs) simp_all
    then show ?thesis by simp
  next
    case (Inr es)
    have "finite {rest. entry_lookup n h s e rest \<noteq> None}" for e
    proof (cases "ekind e = TypeTree")
      case True
      then show ?thesis using Suc.IH [of "eid e"] by (simp add: entry_lookup_def)
    next
      case False
      then have "{rest. entry_lookup n h s e rest \<noteq> None} \<subseteq> {[]}" by (auto simp: entry_lookup_def)
      then show ?thesis by (rule finite_subset) simp
    qed
    then have f: "finite (\<Union>e \<in> set es. (#) (ename e) ` {rest. entry_lookup n h s e rest \<noteq> None})" by simp
    have "{segs. tree_lookup (Suc n) h s t segs \<noteq> None} \<subseteq> (\<Union>e \<in> set es. (#) (ename e) ` {rest. entry_lookup n h s e rest \<noteq> None})"
    proof
      fix segs assume "segs \<in> {segs. tree_lookup (Suc n) h s t segs \<noteq> None}"
      then obtain i where i: "tree_lookup (Suc n) h s t segs = Some i" by auto
      then obtain nm rest where segs: "segs = nm # rest" by (cases segs) auto
      with i obtain x where x: "map_of (named es) nm = Some x" "entry_lookup n h s x rest = Some i"
        unfolding segs lookup_Cons [OF Inr] by (auto split: option.splits)
      then have "x \<in> set es" "ename x = nm" by (auto simp: named_def dest!: map_of_SomeD)
      with x segs show "segs \<in> (\<Union>e \<in> set es. (#) (ename e) ` {rest. entry_lookup n h s e rest \<noteq> None})" by auto
    qed
    with f show ?thesis by (rule finite_subset [rotated])
  qed
qed simp

section \<open>The paths below a prefix\<close>

definition lists_paths :: "string list \<Rightarrow> string list \<Rightarrow> string list set \<Rightarrow> bool" where
  "lists_paths pre xs X \<longleftrightarrow> (\<forall>segs \<in> X. list_all plain_seg segs) \<and> distinct xs \<and>
     set xs = (\<lambda>segs. join_with ''/'' (pre @ segs)) ` X"

lemma lists_paths_empty [simp]: "lists_paths pre [] {}"
  by (simp add: lists_paths_def)

lemma lists_paths_append:
  assumes "list_all plain_seg pre" "lists_paths pre xs X" "lists_paths pre ys Y" "X \<inter> Y = {}"
  shows "lists_paths pre (xs @ ys) (X \<union> Y)"
proof -
  have "set xs \<inter> set ys = {}"
  proof (rule ccontr)
    assume "set xs \<inter> set ys \<noteq> {}"
    then obtain a b where ab: "a \<in> X" "b \<in> Y" "join_with ''/'' (pre @ a) = join_with ''/'' (pre @ b)"
      using assms(2,3) by (auto simp: lists_paths_def)
    then have "pre @ a = pre @ b" using assms(1-3) by (intro join_plain_inj) (auto simp: lists_paths_def)
    with ab assms(4) show False by auto
  qed
  with assms(2,3) show ?thesis by (auto simp: lists_paths_def)
qed

lemma lists_paths_Cons:
  "plain_seg nm \<Longrightarrow> lists_paths (pre @ [nm]) xs X \<Longrightarrow> lists_paths pre xs ((#) nm ` X)"
  by (auto simp: lists_paths_def image_image)

lemma join_under: "list_all plain_seg pre \<Longrightarrow> plain_seg nm \<Longrightarrow>
    entry_path (join_with ''/'' pre) nm = join_with ''/'' (pre @ [nm]) \<and>
    aff_join (join_with ''/'' pre) nm = join_with ''/'' (pre @ [nm])"
  using join_plain_ne [of pre] Join_plain [of pre nm]
  by (cases "pre = []") (auto simp: entry_path_def aff_join_def join_snoc_seg)

text \<open>What a walk adds to its map.\<close>

definition walked :: "string list \<Rightarrow> id_files \<Rightarrow> (string list \<Rightarrow> multihash option) \<Rightarrow> bool" where
  "walked pre out look \<longleftrightarrow> lists_paths pre (map fst out) {segs. look segs \<noteq> None} \<and>
     (\<forall>segs i. look segs = Some i \<longrightarrow> (join_with ''/'' (pre @ segs), i) \<in> set out)"

definition below :: "string \<Rightarrow> (string list \<Rightarrow> 'a option) \<Rightarrow> string list \<Rightarrow> 'a option" where
  "below nm look segs = (case segs of [] \<Rightarrow> None | x # rest \<Rightarrow> if x = nm then look rest else None)"

lemma below_simps [simp]: "below nm look [] = None" "below nm look (x # rest) = (if x = nm then look rest else None)"
  by (simp_all add: below_def)

lemma below_dom: "{segs. below nm look segs \<noteq> None} = (#) nm ` {segs. look segs \<noteq> None}"
proof (intro set_eqI iffI)
  fix segs assume "segs \<in> {segs. below nm look segs \<noteq> None}"
  then show "segs \<in> (#) nm ` {segs. look segs \<noteq> None}" by (cases segs) (auto split: if_splits)
qed auto

lemma walked_below: "plain_seg nm \<Longrightarrow> walked (pre @ [nm]) out look \<Longrightarrow> walked pre out (below nm look)"
  unfolding walked_def below_dom by (auto simp: below_def lists_paths_Cons split: list.splits if_splits)

lemma walked_append:
  assumes "list_all plain_seg pre" "walked pre out look" "walked pre out' look'"
    "\<And>segs. look segs = None \<or> look' segs = None"
  shows "walked pre (out @ out') (\<lambda>segs. case look segs of None \<Rightarrow> look' segs | Some i \<Rightarrow> Some i)"
proof -
  have "{segs. (case look segs of None \<Rightarrow> look' segs | Some i \<Rightarrow> Some i) \<noteq> None}
      = {segs. look segs \<noteq> None} \<union> {segs. look' segs \<noteq> None}" by (auto split: option.splits)
  moreover have "{segs. look segs \<noteq> None} \<inter> {segs. look' segs \<noteq> None} = {}"
    unfolding disjoint_iff mem_Collect_eq by (intro allI impI notI) (metis assms(4))
  ultimately show ?thesis
    using assms lists_paths_append [of pre "map fst out" _ "map fst out'"]
    by (fastforce simp: walked_def split: option.splits)
qed

text \<open>The lookup of the first entry, then of those that follow.\<close>

definition entries_lookup :: "nat \<Rightarrow> hash_funs \<Rightarrow> objstore \<Rightarrow> entry list \<Rightarrow> string list \<Rightarrow> multihash option" where
  "entries_lookup n h s es segs =
     (case segs of [] \<Rightarrow> None
      | nm # rest \<Rightarrow> (case map_of (named es) nm of None \<Rightarrow> None | Some e \<Rightarrow> entry_lookup n h s e rest))"

lemma entries_lookup_simps [simp]:
  "entries_lookup n h s [] segs = None"
  "distinct (map ename (e # es)) \<Longrightarrow> entries_lookup n h s (e # es) =
     (\<lambda>segs. case below (ename e) (entry_lookup n h s e) segs of None \<Rightarrow> entries_lookup n h s es segs | Some i \<Rightarrow> Some i)"
proof -
  show "entries_lookup n h s [] segs = None" by (cases segs) (simp_all add: entries_lookup_def named_def)
  assume "distinct (map ename (e # es))"
  then have "map_of (named es) (ename e) = None" by (force simp: named_def map_of_eq_None_iff)
  then show "entries_lookup n h s (e # es) =
     (\<lambda>segs. case below (ename e) (entry_lookup n h s e) segs of None \<Rightarrow> entries_lookup n h s es segs | Some i \<Rightarrow> Some i)"
    by (intro ext) (auto simp: entries_lookup_def named_def below_def split: list.splits option.splits)
qed

lemma lookup_entries: "rbind (Get h s t) TreeEntries = Inr es \<Longrightarrow> tree_lookup (Suc n) h s t = entries_lookup n h s es"
  by (rule ext, simp only: entries_lookup_def, split list.split) (simp add: lookup_Cons del: tree_lookup.simps(3))

lemma below_entries: "e \<notin> ename ` set es \<Longrightarrow> below e look segs = None \<or> entries_lookup n h s es segs = None"
  by (auto simp: entries_lookup_def below_def named_def map_of_eq_None_iff split: list.splits option.splits)
    (force dest: map_of_SomeD)

definition plain_entry :: "nat \<Rightarrow> hash_funs \<Rightarrow> objstore \<Rightarrow> entry \<Rightarrow> bool" where
  "plain_entry n h s e \<longleftrightarrow> plain_seg (ename e) \<and> (if ekind e = TypeTree then plain_tree n h s (eid e) else ekind e = TypeBlob)"

lemma plain_tree_entries:
  assumes "plain_tree n h s t"
  obtains m es where "n = Suc m" "rbind (Get h s t) TreeEntries = Inr es" "\<forall>e \<in> set es. plain_entry m h s e"
  using assms by (cases n) (auto simp: list_all_iff plain_entry_def split: sum.splits)

lemma entry_lookup_plain: "plain_entry n h s e \<Longrightarrow> entry_lookup n h s e rest \<noteq> None \<Longrightarrow> list_all plain_seg rest"
  using lookup_plain [of n h s "eid e" rest] by (auto simp: plain_entry_def entry_lookup_def split: if_splits)

lemma entries_plain:
  "\<forall>e \<in> set es. plain_entry n h s e \<Longrightarrow> entries_lookup n h s es segs \<noteq> None \<Longrightarrow> list_all plain_seg segs"
proof (cases segs)
  case (Cons nm rest)
  assume pl: "\<forall>e \<in> set es. plain_entry n h s e" and "entries_lookup n h s es segs \<noteq> None"
  with Cons obtain e where e: "map_of (named es) nm = Some e" "entry_lookup n h s e rest \<noteq> None"
    by (auto simp: entries_lookup_def split: option.splits)
  then have "e \<in> set es" "ename e = nm" by (auto simp: named_def dest!: map_of_SomeD)
  with pl e Cons entry_lookup_plain [of n h s e rest] show ?thesis by (auto simp: plain_entry_def)
qed simp

text \<open>A fold over the entries, when each step is as required.\<close>

definition fresh_in :: "string list \<Rightarrow> (string list \<Rightarrow> multihash option) \<Rightarrow> id_files \<Rightarrow> bool" where
  "fresh_in pre look out \<longleftrightarrow> (\<forall>segs. look segs \<noteq> None \<longrightarrow> join_with ''/'' (pre @ segs) \<notin> fst ` set out)"

lemma walk_fold:
  assumes "list_all plain_seg pre"
    and step: "\<And>e out. e \<in> set es \<Longrightarrow> fresh_in (pre @ [ename e]) (entry_lookup n h s e) out \<Longrightarrow>
      \<exists>out'. f out e = Inr (out @ out') \<and> walked (pre @ [ename e]) out' (entry_lookup n h s e)"
    and "\<forall>e \<in> set es. plain_entry n h s e" "distinct (map ename es)" "fresh_in pre (entries_lookup n h s es) out"
  shows "\<exists>out'. foldl (\<lambda>r e. rbind r (\<lambda>out. f out e)) (Inr out) es = Inr (out @ out') \<and>
    walked pre out' (entries_lookup n h s es)"
  using assms(2-)
proof (induction es arbitrary: out)
  case Nil
  then show ?case by (simp add: walked_def)
next
  case (Cons e es)
  let ?B = "below (ename e) (entry_lookup n h s e)"
  let ?R = "entries_lookup n h s es"
  have all: "entries_lookup n h s (e # es) = (\<lambda>segs. case ?B segs of None \<Rightarrow> ?R segs | Some i \<Rightarrow> Some i)"
    using Cons.prems(3) by simp
  have excl: "?B segs = None \<or> ?R segs = None" for segs
    by (rule below_entries) (use Cons.prems(3) in simp)
  have pl: "plain_seg (ename e)" using Cons.prems(2) by (simp add: plain_entry_def)
  have "fresh_in (pre @ [ename e]) (entry_lookup n h s e) out"
    unfolding fresh_in_def
  proof (intro allI impI)
    fix segs assume "entry_lookup n h s e segs \<noteq> None"
    then have "entries_lookup n h s (e # es) (ename e # segs) \<noteq> None" unfolding all by auto
    with Cons.prems(4) show "join_with ''/'' ((pre @ [ename e]) @ segs) \<notin> fst ` set out"
      unfolding fresh_in_def by (metis append.assoc append_Cons append_Nil)
  qed
  with Cons.prems(1) [of e out] obtain o1 where o1: "f out e = Inr (out @ o1)"
    and w: "walked (pre @ [ename e]) o1 (entry_lookup n h s e)" by auto
  note w = walked_below [OF pl w]
  have "fresh_in pre ?R (out @ o1)"
    unfolding fresh_in_def
  proof (intro allI impI)
    fix segs assume r: "?R segs \<noteq> None"
    then have "entries_lookup n h s (e # es) segs \<noteq> None" unfolding all by (simp split: option.split)
    then have "join_with ''/'' (pre @ segs) \<notin> fst ` set out" using Cons.prems(4) by (simp add: fresh_in_def)
    moreover have "join_with ''/'' (pre @ segs) \<notin> fst ` set o1"
    proof
      assume "join_with ''/'' (pre @ segs) \<in> fst ` set o1"
      moreover have "fst ` set o1 = (\<lambda>segs. join_with ''/'' (pre @ segs)) ` {segs. ?B segs \<noteq> None}"
        and P: "\<forall>segs \<in> {segs. ?B segs \<noteq> None}. list_all plain_seg segs"
        using w by (simp_all add: walked_def lists_paths_def)
      ultimately obtain b where b: "?B b \<noteq> None" "join_with ''/'' (pre @ segs) = join_with ''/'' (pre @ b)" by blast
      with P have "list_all plain_seg b" by blast
      have "list_all plain_seg segs" using entries_plain [OF _ r] Cons.prems(2) by simp
      with \<open>list_all plain_seg b\<close> have "pre @ segs = pre @ b" using b(2) assms(1) by (intro join_plain_inj) simp_all
      with excl [of segs] r b(1) show False by simp
    qed
    ultimately show "join_with ''/'' (pre @ segs) \<notin> fst ` set (out @ o1)" by auto
  qed
  with Cons.IH [of "out @ o1"] Cons.prems(1-3) obtain o2 where
    "foldl (\<lambda>r e. rbind r (\<lambda>out. f out e)) (Inr (out @ o1)) es = Inr ((out @ o1) @ o2)" "walked pre o2 ?R"
    by auto
  with o1 walked_append [OF assms(1) w _ excl, of o2] show ?case unfolding all by auto
qed

lemma walk_spec:
  "plain_tree n h s t \<Longrightarrow> list_all plain_seg pre \<Longrightarrow> fresh_in pre (tree_lookup n h s t) out \<Longrightarrow>
   \<exists>out'. tree_walk n h s t (join_with ''/'' pre) out = Inr (out @ out') \<and> walked pre out' (tree_lookup n h s t)"
proof (induction n arbitrary: t pre out)
  case (Suc n)
  from Suc.prems(1) obtain es where es: "rbind (Get h s t) TreeEntries = Inr es"
    and pl: "\<forall>e \<in> set es. plain_entry n h s e" by (rule plain_tree_entries) blast
  have look: "tree_lookup (Suc n) h s t = entries_lookup n h s es" by (rule lookup_entries [OF es])
  let ?f = "\<lambda>out e. let p = entry_path (join_with ''/'' pre) (ename e) in
         if ekind e = TypeTree then tree_walk n h s (eid e) p out
         else Inr (AList.update p (eid e) out)"
  have "tree_walk (Suc n) h s t (join_with ''/'' pre) out = foldl (\<lambda>r e. rbind r (\<lambda>out. ?f out e)) (Inr out) es"
    using es by (auto simp: rbind_eq_Inr)
  moreover have "\<exists>out'. foldl (\<lambda>r e. rbind r (\<lambda>out. ?f out e)) (Inr out) es = Inr (out @ out') \<and>
      walked pre out' (entries_lookup n h s es)"
  proof (rule walk_fold [OF Suc.prems(2) _ pl named_entries(1) [OF es]])
    fix e out assume e: "e \<in> set es" and fr: "fresh_in (pre @ [ename e]) (entry_lookup n h s e) out"
    from e pl have ple: "plain_entry n h s e" by blast
    then have p: "entry_path (join_with ''/'' pre) (ename e) = join_with ''/'' (pre @ [ename e])"
      using join_under [OF Suc.prems(2)] by (simp add: plain_entry_def)
    show "\<exists>out'. ?f out e = Inr (out @ out') \<and> walked (pre @ [ename e]) out' (entry_lookup n h s e)"
    proof (cases "ekind e = TypeTree")
      case True
      then have el: "entry_lookup n h s e = tree_lookup n h s (eid e)" by (simp add: entry_lookup_def fun_eq_iff)
      show ?thesis using Suc.IH [of "eid e" "pre @ [ename e]" out] fr ple True Suc.prems(2)
        unfolding el p Let_def by (simp add: plain_entry_def)
    next
      case False
      then have "join_with ''/'' (pre @ [ename e]) \<notin> fst ` set out"
        using fr by (auto simp: fresh_in_def entry_lookup_def split: if_splits)
      then have "?f out e = Inr (out @ [(join_with ''/'' (pre @ [ename e]), eid e)])"
        using False by (simp add: p Let_def update_fresh)
      moreover have "walked (pre @ [ename e]) [(join_with ''/'' (pre @ [ename e]), eid e)] (entry_lookup n h s e)"
        using False by (auto simp: walked_def lists_paths_def entry_lookup_def split: if_splits)
      ultimately show ?thesis by blast
    qed
  qed (use Suc.prems(3) look in simp)
  ultimately show ?case unfolding look by simp
qed simp

section \<open>What the difference lists\<close>

definition plus_diff :: "tree_diff \<Rightarrow> string list \<Rightarrow> string list \<Rightarrow> string list \<Rightarrow> tree_diff" where
  "plus_diff d a m r = \<lparr>d_Added = d_Added d @ a, d_Modified = d_Modified d @ m, d_Removed = d_Removed d @ r\<rparr>"

definition diffed :: "string list \<Rightarrow> tree_diff \<Rightarrow> goerr + tree_diff \<Rightarrow>
    string list set \<Rightarrow> string list set \<Rightarrow> string list set \<Rightarrow> bool" where
  "diffed pre d res A M R \<longleftrightarrow> (\<exists>a m r. res = Inr (plus_diff d a m r) \<and>
     lists_paths pre a A \<and> lists_paths pre m M \<and> lists_paths pre r R)"

lemma plus_diff_simps [simp]:
  "plus_diff d [] [] [] = d"
  "plus_diff (plus_diff d a m r) a' m' r' = plus_diff d (a @ a') (m @ m') (r @ r')"
  by (simp_all add: plus_diff_def)

lemma diffed_none [simp]: "diffed pre d (Inr d) {} {} {}"
  unfolding diffed_def by (intro exI [of _ "[]"]) simp

lemma diffed_bind:
  assumes "list_all plain_seg pre" "diffed pre d res A M R" "\<And>d. diffed pre d (f d) A' M' R'"
    "A \<inter> A' = {}" "M \<inter> M' = {}" "R \<inter> R' = {}"
  shows "diffed pre d (rbind res f) (A \<union> A') (M \<union> M') (R \<union> R')"
proof -
  obtain a m r where 1: "res = Inr (plus_diff d a m r)" "lists_paths pre a A" "lists_paths pre m M" "lists_paths pre r R"
    using assms(2) unfolding diffed_def by (elim exE conjE) (rule that)
  obtain a' m' r' where 2: "f (plus_diff d a m r) = Inr (plus_diff (plus_diff d a m r) a' m' r')"
    "lists_paths pre a' A'" "lists_paths pre m' M'" "lists_paths pre r' R'"
    using assms(3) [of "plus_diff d a m r"] unfolding diffed_def by (elim exE conjE) (rule that)
  show ?thesis
    unfolding diffed_def
    by (intro exI [of _ "a @ a'"] exI [of _ "m @ m'"] exI [of _ "r @ r'"] conjI lists_paths_append assms 1 2)
      (simp add: 1 2)
qed

lemma diffed_Cons:
  "plain_seg nm \<Longrightarrow> diffed (pre @ [nm]) d res A M R \<Longrightarrow> diffed pre d res ((#) nm ` A) ((#) nm ` M) ((#) nm ` R)"
  unfolding diffed_def using lists_paths_Cons by blast

lemma diffed_fold:
  assumes "list_all plain_seg pre" "distinct (map fst xs)"
    and "\<And>x d. x \<in> set xs \<Longrightarrow> diffed pre d (f d x) ((#) (fst x) ` A x) ((#) (fst x) ` M x) ((#) (fst x) ` R x)"
  shows "diffed pre d (foldl (\<lambda>r x. rbind r (\<lambda>d. f d x)) (Inr d) xs)
    (\<Union>x \<in> set xs. (#) (fst x) ` A x) (\<Union>x \<in> set xs. (#) (fst x) ` M x) (\<Union>x \<in> set xs. (#) (fst x) ` R x)"
  using assms(2,3)
proof (induction xs rule: rev_induct)
  case (snoc x xs)
  have disj: "(\<Union>x \<in> set xs. (#) (fst x) ` S x) \<inter> (#) (fst x) ` S x = {}" for S :: "string \<times> 'a \<Rightarrow> string list set"
  proof -
    have "fst x \<notin> set (map fst xs)" using snoc.prems(1) by simp
    then have "fst y \<noteq> fst x" if "y \<in> set xs" for y using that by (metis imageI list.set_map)
    then show ?thesis by blast
  qed
  have IH: "diffed pre d (foldl (\<lambda>r x. rbind r (\<lambda>d. f d x)) (Inr d) xs)
    (\<Union>x \<in> set xs. (#) (fst x) ` A x) (\<Union>x \<in> set xs. (#) (fst x) ` M x) (\<Union>x \<in> set xs. (#) (fst x) ` R x)"
    by (rule snoc.IH) (use snoc.prems in simp_all)
  have x: "diffed pre d (f d x) ((#) (fst x) ` A x) ((#) (fst x) ` M x) ((#) (fst x) ` R x)" for d
    by (rule snoc.prems(2)) simp
  have un: "(\<Union>y \<in> set (xs @ [x]). (#) (fst y) ` S y) = (\<Union>y \<in> set xs. (#) (fst y) ` S y) \<union> (#) (fst x) ` S x"
    for S :: "string \<times> 'a \<Rightarrow> string list set" by auto
  show ?case
    unfolding un foldl_append foldl.simps by (rule diffed_bind [OF assms(1) IH x disj disj disj])
qed simp

text \<open>The paths added, and those whose file changed.\<close>

definition only_in :: "(string list \<Rightarrow> 'a option) \<Rightarrow> (string list \<Rightarrow> 'a option) \<Rightarrow> string list set" where
  "only_in new base = {segs. new segs \<noteq> None \<and> base segs = None}"

definition differ_at :: "(string list \<Rightarrow> 'a option) \<Rightarrow> (string list \<Rightarrow> 'a option) \<Rightarrow> string list set" where
  "differ_at base new = {segs. base segs \<noteq> None \<and> new segs \<noteq> None \<and> base segs \<noteq> new segs}"

definition diff_is :: "string list \<Rightarrow> tree_diff \<Rightarrow> goerr + tree_diff \<Rightarrow>
    (string list \<Rightarrow> multihash option) \<Rightarrow> (string list \<Rightarrow> multihash option) \<Rightarrow> bool" where
  "diff_is pre d res base new \<longleftrightarrow> diffed pre d res (only_in new base) (differ_at base new) (only_in base new)"

definition nowhere :: "string list \<Rightarrow> 'a option" where
  "nowhere segs = None"

lemma only_in_simps [simp]:
  "only_in f f = {}" "differ_at f f = {}" "only_in nowhere f = {}" "differ_at nowhere f = {}" "differ_at f nowhere = {}"
  "only_in f nowhere = {segs. f segs \<noteq> None}"
  by (auto simp: only_in_def differ_at_def nowhere_def)

lemma diff_is_same [simp]: "diff_is pre d (Inr d) f f"
  by (simp add: diff_is_def)

lemma collect_spec:
  assumes "plain_entry n h s e" "list_all plain_seg pre"
  shows "\<exists>xs. aff_collect n h s e (join_with ''/'' pre) dst = Inr (dst @ xs) \<and>
    lists_paths pre xs {segs. entry_lookup n h s e segs \<noteq> None}"
proof (cases "ekind e = TypeTree")
  case True
  then have el: "entry_lookup n h s e = tree_lookup n h s (eid e)" by (simp add: entry_lookup_def fun_eq_iff)
  have "ekind e \<noteq> TypeBlob" using True by (simp add: TypeTree_def TypeBlob_def)
  with walk_spec [of n h s "eid e" pre "[]"] assms True show ?thesis
    by (auto simp: aff_collect_def el plain_entry_def fresh_in_def walked_def)
next
  case False
  then have "{segs. entry_lookup n h s e segs \<noteq> None} = {[]}" by (auto simp: entry_lookup_def)
  with False assms show ?thesis by (auto simp: aff_collect_def plain_entry_def lists_paths_def)
qed

lemma into_Removed_spec:
  assumes "plain_entry n h s e" "list_all plain_seg pre"
  shows "diff_is pre d (into_Removed n h s e (join_with ''/'' pre) d) (entry_lookup n h s e) nowhere"
proof -
  obtain xs where xs: "aff_collect n h s e (join_with ''/'' pre) (d_Removed d) = Inr (d_Removed d @ xs)"
    "lists_paths pre xs {segs. entry_lookup n h s e segs \<noteq> None}"
    using collect_spec [OF assms] by blast
  have "into_Removed n h s e (join_with ''/'' pre) d = Inr (plus_diff d [] [] xs)"
    using xs(1) by (cases d) (simp add: into_Removed_def plus_diff_def)
  then show ?thesis
    unfolding diff_is_def diffed_def only_in_simps using xs(2) lists_paths_empty by blast
qed

lemma into_Added_spec:
  assumes "plain_entry n h s e" "list_all plain_seg pre"
  shows "diff_is pre d (into_Added n h s e (join_with ''/'' pre) d) nowhere (entry_lookup n h s e)"
proof -
  obtain xs where xs: "aff_collect n h s e (join_with ''/'' pre) (d_Added d) = Inr (d_Added d @ xs)"
    "lists_paths pre xs {segs. entry_lookup n h s e segs \<noteq> None}"
    using collect_spec [OF assms] by blast
  have "into_Added n h s e (join_with ''/'' pre) d = Inr (plus_diff d xs [] [])"
    using xs(1) by (cases d) (simp add: into_Added_def plus_diff_def)
  then show ?thesis
    unfolding diff_is_def diffed_def only_in_simps using xs(2) lists_paths_empty by blast
qed

definition at_name :: "nat \<Rightarrow> hash_funs \<Rightarrow> objstore \<Rightarrow> (string \<times> entry) list \<Rightarrow> string \<Rightarrow> string list \<Rightarrow> multihash option" where
  "at_name n h s m nm = (case map_of m nm of None \<Rightarrow> nowhere | Some e \<Rightarrow> entry_lookup n h s e)"

lemma entries_at_name:
  "entries_lookup n h s es segs = (case segs of [] \<Rightarrow> None | nm # rest \<Rightarrow> at_name n h s (named es) nm rest)"
  by (auto simp: entries_lookup_def at_name_def nowhere_def split: list.splits option.splits)

text \<open>The two loops: over the names of the base, then over those that are new.\<close>

definition diff_base :: "nat \<Rightarrow> hash_funs \<Rightarrow> objstore \<Rightarrow> string \<Rightarrow> (string \<times> entry) list \<Rightarrow>
    tree_diff \<Rightarrow> string \<times> entry \<Rightarrow> goerr + tree_diff" where
  "diff_base stk h s prefix nm d x =
     (let p = aff_join prefix (fst x); be = snd x in
      case map_of nm (fst x) of
        None \<Rightarrow> into_Removed stk h s be p d
      | Some ne \<Rightarrow>
          if ekind be = TypeTree \<and> ekind ne = TypeTree then
            (if \<not> Equal (eid be) (eid ne)
             then diffTrees stk h s (Some (eid be)) (Some (eid ne)) p d else Inr d)
          else if ekind be = TypeBlob \<and> ekind ne = TypeBlob then
            (if \<not> Equal (eid be) (eid ne) then Inr (d\<lparr>d_Modified := d_Modified d @ [p]\<rparr>) else Inr d)
          else rbind (into_Removed stk h s be p d) (\<lambda>d. into_Added stk h s ne p d))"

definition diff_new :: "nat \<Rightarrow> hash_funs \<Rightarrow> objstore \<Rightarrow> string \<Rightarrow> (string \<times> entry) list \<Rightarrow>
    tree_diff \<Rightarrow> string \<times> entry \<Rightarrow> goerr + tree_diff" where
  "diff_new stk h s prefix bm d x =
     (if map_of bm (fst x) \<noteq> None then Inr d else into_Added stk h s (snd x) (aff_join prefix (fst x)) d)"

lemma diffTrees_loops:
  assumes "entriesOf h s base = Inr bes" "entriesOf h s new = Inr nes"
    and "\<not> (base \<noteq> None \<and> new \<noteq> None \<and> the base = the new)"
  shows "diffTrees (Suc stk) h s base new prefix d =
    rbind (foldl (\<lambda>r x. rbind r (\<lambda>d. diff_base stk h s prefix (indexByName nes) d x)) (Inr d) (indexByName bes))
      (\<lambda>d. foldl (\<lambda>r x. rbind r (\<lambda>d. diff_new stk h s prefix (indexByName bes) d x)) (Inr d) (indexByName nes))"
  using assms by (auto simp: diff_base_def diff_new_def case_prod_unfold Let_def)

lemma diff_base_spec:
  assumes IH: "\<And>b n' pre d. plain_tree n h s b \<Longrightarrow> plain_tree n h s n' \<Longrightarrow> list_all plain_seg pre \<Longrightarrow>
      diff_is pre d (diffTrees n h s (Some b) (Some n') (join_with ''/'' pre) d) (tree_lookup n h s b) (tree_lookup n h s n')"
    and pre: "list_all plain_seg pre" and be: "plain_entry n h s be" and nm: "fst x = ename be" "snd x = be"
    and ne: "\<And>ne. map_of nes (fst x) = Some ne \<Longrightarrow> plain_entry n h s ne"
  shows "diff_is (pre @ [fst x]) d (diff_base n h s (join_with ''/'' pre) nes d x)
    (entry_lookup n h s be) (at_name n h s nes (fst x))"
proof -
  have seg: "plain_seg (ename be)" using be by (simp add: plain_entry_def)
  then have pre': "list_all plain_seg (pre @ [fst x])" using pre nm by simp
  have p: "aff_join (join_with ''/'' pre) (fst x) = join_with ''/'' (pre @ [fst x])" using join_under [OF pre seg] nm by simp
  show ?thesis
  proof (cases "map_of nes (fst x)")
    case None
    then show ?thesis using into_Removed_spec [OF be pre', of d]
      unfolding diff_base_def Let_def p at_name_def None by (simp add: nm)
  next
    case (Some e)
    note pe = ne [OF Some]
    have at: "at_name n h s nes (fst x) = entry_lookup n h s e" using Some by (simp add: at_name_def)
    consider (trees) "ekind be = TypeTree" "ekind e = TypeTree" | (blobs) "ekind be = TypeBlob" "ekind e = TypeBlob"
      | (other) "\<not> (ekind be = TypeTree \<and> ekind e = TypeTree)" "\<not> (ekind be = TypeBlob \<and> ekind e = TypeBlob)" by blast
    then show ?thesis
    proof cases
      case trees
      then have el: "entry_lookup n h s be = tree_lookup n h s (eid be)" "entry_lookup n h s e = tree_lookup n h s (eid e)"
        by (simp_all add: entry_lookup_def fun_eq_iff)
      show ?thesis
        using trees be pe IH [of "eid be" "eid e" "pre @ [fst x]" d] pre'
        unfolding diff_base_def Let_def at el p unfolding Some unfolding nm by (simp add: plain_entry_def)
    next
      case blobs
      have "TypeBlob \<noteq> TypeTree" by (simp add: TypeBlob_def TypeTree_def)
      with blobs have el: "entry_lookup n h s be = (\<lambda>r. if r = [] then Some (eid be) else None)"
        "entry_lookup n h s e = (\<lambda>r. if r = [] then Some (eid e) else None)"
        by (simp_all add: entry_lookup_def fun_eq_iff)
      show ?thesis
      proof (cases "eid be = eid e")
        case True
        then have "diff_base n h s (join_with ''/'' pre) nes d x = Inr d"
          using blobs \<open>TypeBlob \<noteq> TypeTree\<close> unfolding diff_base_def Let_def Some by (simp add: nm)
        then show ?thesis unfolding at el True by simp
      next
        case False
        then have "diff_base n h s (join_with ''/'' pre) nes d x = Inr (plus_diff d [] [join_with ''/'' (pre @ [fst x])] [])"
          using blobs \<open>TypeBlob \<noteq> TypeTree\<close> unfolding diff_base_def Let_def Some p
          by (cases d) (simp add: nm plus_diff_def)
        moreover have "differ_at (entry_lookup n h s be) (entry_lookup n h s e) = {[]}"
          "only_in (entry_lookup n h s be) (entry_lookup n h s e) = {}"
          "only_in (entry_lookup n h s e) (entry_lookup n h s be) = {}"
          using False unfolding el by (auto simp: differ_at_def only_in_def split: if_splits)
        ultimately show ?thesis
          unfolding at diff_is_def diffed_def
          by (intro exI [of _ "[]"] exI [of _ "[join_with ''/'' (pre @ [fst x])]"]) (simp add: lists_paths_def)
      qed
    next
      case other
      have k: "ekind be = TypeTree \<or> ekind be = TypeBlob" "ekind e = TypeTree \<or> ekind e = TypeBlob"
        using be pe by (auto simp: plain_entry_def split: if_splits)
      have apart: "entry_lookup n h s be segs = None \<or> entry_lookup n h s e segs = None" for segs
      proof -
        have "tree_lookup n h s t [] = None" for t by (cases n) simp_all
        moreover have "TypeBlob \<noteq> TypeTree" by (simp add: TypeBlob_def TypeTree_def)
        ultimately show ?thesis using k other by (auto simp: entry_lookup_def)
      qed
      have "diff_base n h s (join_with ''/'' pre) nes d x =
          rbind (into_Removed n h s be (join_with ''/'' (pre @ [fst x])) d) (\<lambda>d. into_Added n h s e (join_with ''/'' (pre @ [fst x])) d)"
        using other unfolding diff_base_def Let_def Some p unfolding nm by auto
      moreover have "only_in (entry_lookup n h s be) (entry_lookup n h s e) = {segs. entry_lookup n h s be segs \<noteq> None}"
        "only_in (entry_lookup n h s e) (entry_lookup n h s be) = {segs. entry_lookup n h s e segs \<noteq> None}"
        "differ_at (entry_lookup n h s be) (entry_lookup n h s e) = {}"
        using apart by (auto simp: only_in_def differ_at_def) (metis option.distinct(1))+
      ultimately show ?thesis
        using diffed_bind [OF pre' into_Removed_spec [OF be pre', of d, unfolded diff_is_def]
          into_Added_spec [OF pe pre', unfolded diff_is_def]]
        unfolding at diff_is_def by simp
    qed
  qed
qed

lemma unchanged_subtree: "opt_lookup n h s base = opt_lookup n h s new \<Longrightarrow> diff_is pre d (Inr d) (opt_lookup n h s base) (opt_lookup n h s new)"
  by simp

lemma entriesOf_plain:
  assumes "opt_plain (Suc n) h s t"
  obtains es where "entriesOf h s t = Inr es" "\<forall>e \<in> set es. plain_entry n h s e" "indexByName es = named es"
    "distinct (map fst (named es))" "opt_lookup (Suc n) h s t = entries_lookup n h s es"
proof (cases t)
  case None
  then show ?thesis
    by (intro that [of "[]"]) (simp_all add: entriesOf_def indexByName_def named_def opt_lookup_def fun_eq_iff)
next
  case (Some i)
  then obtain es where es: "rbind (Get h s i) TreeEntries = Inr es" "\<forall>e \<in> set es. plain_entry n h s e"
    using assms by (auto simp: opt_plain_def plain_entry_def list_all_iff split: sum.splits)
  then have "entriesOf h s t = Inr es"
    using Some by (auto simp: entriesOf_def rbind_eq_Inr TreeEntries_def split: if_splits)
  moreover have "opt_lookup (Suc n) h s t = entries_lookup n h s es"
    using lookup_entries [OF es(1), of n] Some by (simp add: opt_lookup_def fun_eq_iff del: tree_lookup.simps)
  ultimately show ?thesis using that es(2) named_entries [OF es(1)] by blast
qed

lemma named_mem: "x \<in> set (named es) \<Longrightarrow> snd x \<in> set es \<and> fst x = ename (snd x)"
  by (auto simp: named_def)

lemma mem_named:
  assumes "distinct (map fst m)"
  shows "segs \<in> (\<Union>x \<in> set m. (#) (fst x) ` S x) \<longleftrightarrow>
    (case segs of [] \<Rightarrow> False | nm # rest \<Rightarrow> (case map_of m nm of None \<Rightarrow> False | Some e \<Rightarrow> rest \<in> S (nm, e)))"
proof (cases segs)
  case (Cons nm rest)
  have "segs \<in> (\<Union>x \<in> set m. (#) (fst x) ` S x) \<longleftrightarrow> (\<exists>e. (nm, e) \<in> set m \<and> rest \<in> S (nm, e))"
    unfolding Cons by force
  also have "\<dots> \<longleftrightarrow> (\<exists>e. map_of m nm = Some e \<and> rest \<in> S (nm, e))" using assms by simp
  finally show ?thesis using Cons by (auto split: option.splits)
qed auto

lemma diff_spec:
  "opt_plain n h s base \<Longrightarrow> opt_plain n h s new \<Longrightarrow> 0 < n \<Longrightarrow> list_all plain_seg pre \<Longrightarrow>
   diff_is pre d (diffTrees n h s base new (join_with ''/'' pre) d) (opt_lookup n h s base) (opt_lookup n h s new)"
proof (induction n arbitrary: base new pre d)
  case (Suc n)
  show ?case
  proof (cases "base \<noteq> None \<and> new \<noteq> None \<and> the base = the new")
    case True
    then have "diffTrees (Suc n) h s base new (join_with ''/'' pre) d = Inr d" "base = new" by auto
    then show ?thesis by (simp del: diffTrees.simps)
  next
    case False
    obtain bes where b: "entriesOf h s base = Inr bes" "\<forall>e \<in> set bes. plain_entry n h s e" "indexByName bes = named bes"
      "distinct (map fst (named bes))" "opt_lookup (Suc n) h s base = entries_lookup n h s bes"
      using Suc.prems(1) by (rule entriesOf_plain)
    obtain nes where w: "entriesOf h s new = Inr nes" "\<forall>e \<in> set nes. plain_entry n h s e" "indexByName nes = named nes"
      "distinct (map fst (named nes))" "opt_lookup (Suc n) h s new = entries_lookup n h s nes"
      using Suc.prems(2) by (rule entriesOf_plain)
    let ?at = "at_name n h s"
    have IH: "diff_is pre d (diffTrees n h s (Some b) (Some n') (join_with ''/'' pre) d) (tree_lookup n h s b) (tree_lookup n h s n')"
      if "plain_tree n h s b" "plain_tree n h s n'" "list_all plain_seg pre" for b n' pre d
    proof -
      have "0 < n" using that(1) by (cases n) auto
      with Suc.IH [of "Some b" "Some n'" pre d] that show ?thesis by (simp add: opt_plain_def opt_lookup_def [abs_def])
    qed
    have look: "map_of (named es) nm = Some e \<Longrightarrow> e \<in> set es \<and> ename e = nm" for es nm e
      by (auto dest!: map_of_SomeD named_mem)
    have 1: "diffed pre d (diff_base n h s (join_with ''/'' pre) (named nes) d x)
        ((#) (fst x) ` only_in (?at (named nes) (fst x)) (entry_lookup n h s (snd x)))
        ((#) (fst x) ` differ_at (entry_lookup n h s (snd x)) (?at (named nes) (fst x)))
        ((#) (fst x) ` only_in (entry_lookup n h s (snd x)) (?at (named nes) (fst x)))" if "x \<in> set (named bes)" for x d
    proof (rule diffed_Cons)
      have x: "snd x \<in> set bes" "fst x = ename (snd x)" using named_mem [OF that] by simp_all
      with b(2) have pe: "plain_entry n h s (snd x)" by blast
      then show "plain_seg (fst x)" using x by (simp add: plain_entry_def)
      show "diffed (pre @ [fst x]) d (diff_base n h s (join_with ''/'' pre) (named nes) d x)
        (only_in (?at (named nes) (fst x)) (entry_lookup n h s (snd x)))
        (differ_at (entry_lookup n h s (snd x)) (?at (named nes) (fst x)))
        (only_in (entry_lookup n h s (snd x)) (?at (named nes) (fst x)))"
        using diff_base_spec [OF IH Suc.prems(4) pe x(2) refl, of "named nes" d] look w(2)
        unfolding diff_is_def by blast
    qed
    let ?new = "\<lambda>x. if map_of (named bes) (fst x) = None then entry_lookup n h s (snd x) else nowhere"
    have 2: "diffed pre d (diff_new n h s (join_with ''/'' pre) (named bes) d x)
        ((#) (fst x) ` only_in (?new x) nowhere) ((#) (fst x) ` {}) ((#) (fst x) ` {})" if "x \<in> set (named nes)" for x d
    proof (rule diffed_Cons)
      have x: "snd x \<in> set nes" "fst x = ename (snd x)" using named_mem [OF that] by simp_all
      with w(2) have pe: "plain_entry n h s (snd x)" by blast
      then show seg: "plain_seg (fst x)" using x by (simp add: plain_entry_def)
      have p: "aff_join (join_with ''/'' pre) (fst x) = join_with ''/'' (pre @ [fst x])" using join_under [OF Suc.prems(4) seg] by simp
      show "diffed (pre @ [fst x]) d (diff_new n h s (join_with ''/'' pre) (named bes) d x) (only_in (?new x) nowhere) {} {}"
        using into_Added_spec [OF pe, of "pre @ [fst x]" d] seg Suc.prems(4)
        by (cases "map_of (named bes) (fst x)") (simp_all add: diff_new_def p diff_is_def)
    qed
    note f1 = diffed_fold [OF Suc.prems(4) b(4) 1]
    note f2 = diffed_fold [OF Suc.prems(4) w(4) 2]
    have disj: "(\<Union>x \<in> set (named bes). (#) (fst x) ` A x) \<inter> (\<Union>x \<in> set (named nes). (#) (fst x) ` only_in (?new x) nowhere) = {}" for A
    proof -
      have "map_of (named bes) (fst x) \<noteq> None" if "x \<in> set (named bes)" for x using that by (metis map_of_eq_None_iff imageI)
      then show ?thesis by (fastforce simp: nowhere_def split: if_splits)
    qed
    have "diffed pre d (diffTrees (Suc n) h s base new (join_with ''/'' pre) d)
       ((\<Union>x \<in> set (named bes). (#) (fst x) ` only_in (?at (named nes) (fst x)) (entry_lookup n h s (snd x))) \<union>
         (\<Union>x \<in> set (named nes). (#) (fst x) ` only_in (?new x) nowhere))
       ((\<Union>x \<in> set (named bes). (#) (fst x) ` differ_at (entry_lookup n h s (snd x)) (?at (named nes) (fst x))) \<union>
         (\<Union>x \<in> set (named nes). (#) (fst x) ` {}))
       ((\<Union>x \<in> set (named bes). (#) (fst x) ` only_in (entry_lookup n h s (snd x)) (?at (named nes) (fst x))) \<union>
         (\<Union>x \<in> set (named nes). (#) (fst x) ` {}))"
      unfolding diffTrees_loops [OF b(1) w(1) False] b(3) w(3)
      by (rule diffed_bind [OF Suc.prems(4) f1 f2 disj]) auto
    moreover have "only_in (entries_lookup n h s nes) (entries_lookup n h s bes) =
       (\<Union>x \<in> set (named bes). (#) (fst x) ` only_in (?at (named nes) (fst x)) (entry_lookup n h s (snd x))) \<union>
         (\<Union>x \<in> set (named nes). (#) (fst x) ` only_in (?new x) nowhere)"
      by (intro set_eqI, unfold Un_iff mem_named [OF b(4)] mem_named [OF w(4)])
        (auto simp: only_in_def entries_at_name at_name_def nowhere_def split: list.splits option.splits)
    moreover have "differ_at (entries_lookup n h s bes) (entries_lookup n h s nes) =
       (\<Union>x \<in> set (named bes). (#) (fst x) ` differ_at (entry_lookup n h s (snd x)) (?at (named nes) (fst x))) \<union>
         (\<Union>x \<in> set (named nes). (#) (fst x) ` {})"
      by (intro set_eqI, unfold Un_iff mem_named [OF b(4)] mem_named [OF w(4)])
        (auto simp: differ_at_def entries_at_name at_name_def nowhere_def split: list.splits option.splits)
    moreover have "only_in (entries_lookup n h s bes) (entries_lookup n h s nes) =
       (\<Union>x \<in> set (named bes). (#) (fst x) ` only_in (entry_lookup n h s (snd x)) (?at (named nes) (fst x))) \<union>
         (\<Union>x \<in> set (named nes). (#) (fst x) ` {})"
      by (intro set_eqI, unfold Un_iff mem_named [OF b(4)] mem_named [OF w(4)])
        (auto simp: only_in_def entries_at_name at_name_def nowhere_def split: list.splits option.splits)
    ultimately show ?thesis unfolding diff_is_def b(5) w(5) by (simp only:)
  qed
qed simp

section \<open>Properties\<close>

text \<open>The difference of two flat maps, with no descent and no pruning.\<close>

definition flat_diff :: "id_files \<Rightarrow> id_files \<Rightarrow> tree_diff" where
  "flat_diff base new =
     \<lparr>d_Added = sort (filter (\<lambda>p. map_of base p = None) (map fst new)),
      d_Modified = sort (filter (\<lambda>p. map_of base p \<noteq> None \<and> map_of base p \<noteq> map_of new p) (map fst new)),
      d_Removed = sort (filter (\<lambda>p. map_of new p = None) (map fst base))\<rparr>"

lemma flatten_spec:
  assumes "opt_plain n h s t"
  shows "\<exists>out. FlattenTree n h s t = Inr out \<and> walked [] out (opt_lookup n h s t)"
proof (cases t)
  case None
  have "opt_lookup n h s None = nowhere" by (simp add: opt_lookup_def nowhere_def fun_eq_iff)
  with None show ?thesis by (simp add: FlattenTree_def walked_def nowhere_def)
next
  case (Some i)
  have "opt_lookup n h s (Some i) = tree_lookup n h s i" by (simp add: opt_lookup_def fun_eq_iff)
  with walk_spec [of n h s i "[]" "[]"] assms Some show ?thesis by (simp add: FlattenTree_def opt_plain_def fresh_in_def)
qed

lemma walked_map_of:
  assumes "walked [] out look" "list_all plain_seg segs"
  shows "map_of out (join_with ''/'' segs) = look segs"
proof (cases "look segs")
  case None
  have "join_with ''/'' segs \<notin> fst ` set out"
  proof
    assume "join_with ''/'' segs \<in> fst ` set out"
    then have "join_with ''/'' segs \<in> join_with ''/'' ` {segs. look segs \<noteq> None}"
      "\<forall>segs \<in> {segs. look segs \<noteq> None}. list_all plain_seg segs"
      using assms(1) by (simp_all add: walked_def lists_paths_def)
    then obtain b where "look b \<noteq> None" "join_with ''/'' segs = join_with ''/'' b" "list_all plain_seg b" by blast
    with None join_plain_inj [OF assms(2), of b] show False by auto
  qed
  with None show ?thesis by (simp add: map_of_eq_None_iff)
next
  case (Some i)
  with assms(1) show ?thesis by (auto simp: walked_def lists_paths_def)
qed

lemma lists_paths_sort:
  assumes "lists_paths [] xs X" "distinct ys" "set ys = join_with ''/'' ` X"
  shows "sort xs = sort ys"
  using assms by (intro sorted_distinct_set_unique) (simp_all add: lists_paths_def)

lemma walked_filter:
  assumes "walked [] out look" "\<And>segs. list_all plain_seg segs \<Longrightarrow> P (join_with ''/'' segs) = Q segs"
  shows "distinct (filter P (map fst out))" "set (filter P (map fst out)) = join_with ''/'' ` {segs. look segs \<noteq> None \<and> Q segs}"
proof -
  have w: "distinct (map fst out)" "set (map fst out) = join_with ''/'' ` {segs. look segs \<noteq> None}"
    and pl: "\<forall>segs \<in> {segs. look segs \<noteq> None}. list_all plain_seg segs"
    using assms(1) by (simp_all add: walked_def lists_paths_def)
  show "distinct (filter P (map fst out))" using w(1) by simp
  show "set (filter P (map fst out)) = join_with ''/'' ` {segs. look segs \<noteq> None \<and> Q segs}"
    unfolding set_filter w(2) using pl assms(2) by blast
qed

text \<open>C18. The difference of two trees is that of their flat maps, although it is found by descending
  only where identities differ: a path is added, modified or removed exactly as the two
  \<^verbatim>\<open>FlattenTree\<close>s say, each list is sorted and names a path once. It holds for readable trees of
  files and directories with plain names (not empty, no dots, no slash), which \<^verbatim>\<open>path.Join\<close>
  leaves alone.\<close>

theorem diff_trees_exact:
  assumes "0 < stk" "opt_plain stk h s base" "opt_plain stk h s new"
  shows "\<exists>bf nf. FlattenTree stk h s base = Inr bf \<and> FlattenTree stk h s new = Inr nf \<and>
    DiffTrees stk h s base new = Inr (flat_diff bf nf)"
proof -
  let ?b = "opt_lookup stk h s base" and ?n = "opt_lookup stk h s new"
  obtain bf where bf: "FlattenTree stk h s base = Inr bf" "walked [] bf ?b" using flatten_spec [OF assms(2)] by blast
  obtain nf where nf: "FlattenTree stk h s new = Inr nf" "walked [] nf ?n" using flatten_spec [OF assms(3)] by blast
  let ?d = "\<lparr>d_Added = [], d_Modified = [], d_Removed = []\<rparr> :: tree_diff"
  have "diff_is [] ?d (diffTrees stk h s base new [] ?d) ?b ?n"
    using diff_spec [OF assms(2,3,1), of "[]" ?d] by simp
  then obtain a m r where d: "diffTrees stk h s base new [] ?d = Inr (plus_diff ?d a m r)"
    "lists_paths [] a (only_in ?n ?b)" "lists_paths [] m (differ_at ?b ?n)" "lists_paths [] r (only_in ?b ?n)"
    unfolding diff_is_def diffed_def by (elim exE conjE) (rule that)
  note mb = walked_map_of [OF bf(2)] and mn = walked_map_of [OF nf(2)]
  have "sort a = sort (filter (\<lambda>p. map_of bf p = None) (map fst nf))"
    using d(2) unfolding only_in_def by (rule lists_paths_sort; intro walked_filter [OF nf(2)]) (simp_all add: mb)
  moreover have "{segs. ?b segs \<noteq> None \<and> ?n segs \<noteq> None \<and> ?b segs \<noteq> ?n segs}
      = {segs. ?n segs \<noteq> None \<and> ?b segs \<noteq> None \<and> ?b segs \<noteq> ?n segs}" by auto
  with d(3) have "lists_paths [] m {segs. ?n segs \<noteq> None \<and> ?b segs \<noteq> None \<and> ?b segs \<noteq> ?n segs}"
    unfolding differ_at_def by (simp only:)
  then have "sort m = sort (filter (\<lambda>p. map_of bf p \<noteq> None \<and> map_of bf p \<noteq> map_of nf p) (map fst nf))"
    by (rule lists_paths_sort; intro walked_filter [OF nf(2)]) (simp_all add: mb mn)
  moreover have "sort r = sort (filter (\<lambda>p. map_of nf p = None) (map fst bf))"
    using d(4) unfolding only_in_def by (rule lists_paths_sort; intro walked_filter [OF bf(2)]) (simp_all add: mn)
  ultimately have "DiffTrees stk h s base new = Inr (flat_diff bf nf)"
    using d(1) by (simp add: DiffTrees_def flat_diff_def plus_diff_def)
  with bf(1) nf(1) show ?thesis by blast
qed

text \<open>Two trees with a directory each: \<^verbatim>\<open>a/b\<close> and \<^verbatim>\<open>c\<close>, and \<^verbatim>\<open>a/b\<close> changed with a new \<^verbatim>\<open>a/d\<close>.\<close>

definition demo_id :: "entry list \<Rightarrow> multihash" where
  "demo_id es = (case Sum ends_hash Default (Encode (tree_obj es)) of Inl _ \<Rightarrow> [] | Inr i \<Rightarrow> i)"

definition demo_file :: "string \<Rightarrow> byte \<Rightarrow> entry" where
  "demo_file nm x = \<lparr>ename = nm, emode = modeFile, ekind = TypeBlob, eid = [x]\<rparr>"

definition demo_dirs :: "entry list list" where
  "demo_dirs = [[demo_file ''b'' 1], [demo_file ''b'' 7, demo_file ''d'' 4]]"

definition demo_roots :: "entry list list" where
  "demo_roots = [[dir_entry ''a'' (demo_id (demo_dirs ! 0)), demo_file ''c'' 2], [dir_entry ''a'' (demo_id (demo_dirs ! 1))]]"

definition demo_trees :: objstore where
  "demo_trees = put_raws ends_hash Open_store (map (\<lambda>es. Encode (tree_obj es)) (demo_dirs @ demo_roots))"

lemma demo_get: "es \<in> set (demo_dirs @ demo_roots) \<Longrightarrow> rbind (Get ends_hash demo_trees (demo_id es)) TreeEntries = Inr es"
proof -
  assume es: "es \<in> set (demo_dirs @ demo_roots)"
  have "list_all (\<lambda>es. GetRaw ends_hash demo_trees (demo_id es) = Inr (Encode (tree_obj es)) \<and>
      length (demo_id es) < 40) (demo_dirs @ demo_roots)"
    by code_simp
  with es have "GetRaw ends_hash demo_trees (demo_id es) = Inr (Encode (tree_obj es))"
    and small: "\<forall>es \<in> set demo_dirs. length (demo_id es) < 40" by (auto simp: list_all_iff)
  moreover have "distinct (map ename es) \<and> sum_list (map entry_weight es) \<le> max_alloc \<and> sort_key ename es = es"
    using es small
    by (auto simp: demo_dirs_def demo_roots_def demo_file_def dir_entry_def entry_weight_def max_alloc_def less_eq_list_code)
  then have "wf_obj (tree_obj es)" "TreeEntries (tree_obj es) = Inr es" using readable_tree [of es] by simp_all
  ultimately show ?thesis by (simp add: Get_def)
qed

theorem diff_trees_exact_witness:
  "\<exists>bf nf. FlattenTree 3 ends_hash demo_trees (Some (demo_id (demo_roots ! 0))) = Inr bf \<and>
     FlattenTree 3 ends_hash demo_trees (Some (demo_id (demo_roots ! 1))) = Inr nf \<and>
     DiffTrees 3 ends_hash demo_trees (Some (demo_id (demo_roots ! 0))) (Some (demo_id (demo_roots ! 1))) = Inr (flat_diff bf nf) \<and>
     flat_diff bf nf = \<lparr>d_Added = [''a/d''], d_Modified = [''a/b''], d_Removed = [''c'']\<rparr>"
proof -
  have g: "rbind (Get ends_hash demo_trees (demo_id (demo_dirs ! 0))) TreeEntries = Inr [demo_file ''b'' 1]"
    "rbind (Get ends_hash demo_trees (demo_id (demo_dirs ! 1))) TreeEntries = Inr [demo_file ''b'' 7, demo_file ''d'' 4]"
    "rbind (Get ends_hash demo_trees (demo_id (demo_roots ! 0))) TreeEntries
       = Inr [dir_entry ''a'' (demo_id (demo_dirs ! 0)), demo_file ''c'' 2]"
    "rbind (Get ends_hash demo_trees (demo_id (demo_roots ! 1))) TreeEntries = Inr [dir_entry ''a'' (demo_id (demo_dirs ! 1))]"
    using demo_get by (simp_all add: demo_dirs_def demo_roots_def)
  note g = g [unfolded One_nat_def]
  have "tree_walk (Suc n) ends_hash demo_trees t prefix out = (case rbind (Get ends_hash demo_trees t) TreeEntries of
      Inl e \<Rightarrow> Inl e | Inr es \<Rightarrow> foldl (\<lambda>r e. rbind r (\<lambda>out.
         let p = entry_path prefix (ename e) in
         if ekind e = TypeTree then tree_walk n ends_hash demo_trees (eid e) p out
         else Inr (AList.update p (eid e) out))) (Inr out) es)" for n t prefix out
    by (simp split: sum.split) (cases "Get ends_hash demo_trees t"; simp)
  note walk = this
  have k [simp]: "TypeBlob \<noteq> TypeTree" by (simp add: TypeBlob_def TypeTree_def)
  have "opt_plain 3 ends_hash demo_trees (Some (demo_id (demo_roots ! k)))" if "k = 0 \<or> k = 1" for k
    using that by (auto simp: eval_nat_numeral opt_plain_def g demo_file_def dir_entry_def plain_seg_def)
  then obtain bf nf where f: "FlattenTree 3 ends_hash demo_trees (Some (demo_id (demo_roots ! 0))) = Inr bf"
     "FlattenTree 3 ends_hash demo_trees (Some (demo_id (demo_roots ! 1))) = Inr nf"
     "DiffTrees 3 ends_hash demo_trees (Some (demo_id (demo_roots ! 0))) (Some (demo_id (demo_roots ! 1))) = Inr (flat_diff bf nf)"
    using diff_trees_exact [of 3 ends_hash demo_trees "Some (demo_id (demo_roots ! 0))" "Some (demo_id (demo_roots ! 1))"] by auto
  have "bf = [(''a/b'', [1]), (''c'', [2])]" "nf = [(''a/b'', [7]), (''a/d'', [4])]"
    using f(1,2) by (simp_all add: FlattenTree_def eval_nat_numeral walk g demo_file_def dir_entry_def entry_path_def del: tree_walk.simps)
  moreover have "flat_diff [(''a/b'', [1]), (''c'', [2])] [(''a/b'', [7]), (''a/d'', [4])]
      = \<lparr>d_Added = [''a/d''], d_Modified = [''a/b''], d_Removed = [''c'']\<rparr>" by (simp add: flat_diff_def)
  ultimately show ?thesis using f by blast
qed

end
