(* ===== verification/Registry.thy ===== *)
theory Registry
  imports DiffTree P2PServe Verify Attest
begin

text \<open>
  \<^verbatim>\<open>internal/principal\<close>: the registry of keyholders, a tree under a reserved ref that maps the
  fingerprint of a key to a blob holding the encoded principal record. Adding and removing
  read the tree into a map, change the map and swap the ref to the rebuilt tree.
\<close>

section \<open>The registry\<close>

definition principal_fingerprint :: "hash_funs \<Rightarrow> principal \<Rightarrow> string" where
  "principal_fingerprint h p = Fingerprint h \<lparr>pk_key = p_key p, pk_comment = []\<rparr>"

definition reg_entries :: "hash_funs \<Rightarrow> repo \<Rightarrow> goerr + (string \<times> entry) list" where
  "reg_entries h r =
     (case Resolve (r_refs r) PrincipalsRef of
        Inl _ \<Rightarrow> Inr []
      | Inr treeID \<Rightarrow>
          rbind (Get h (r_objects r) treeID) (\<lambda>obj.
          rbind (TreeEntries obj) (\<lambda>list.
          Inr (foldl (\<lambda>out e. AList.update (ename e) e out) [] list))))"

definition reg_decode :: "hash_funs \<Rightarrow> repo \<Rightarrow> multihash \<Rightarrow> goerr + principal" where
  "reg_decode h r blobID =
     rbind (Get h (r_objects r) blobID) (\<lambda>obj.
     case BlobContent obj of
       None \<Rightarrow> Inl (Plain (''principal: entry '' @ Hex blobID @ '' is not a blob''))
     | Some content \<Rightarrow> rbind (Decode content) AsPrincipal)"

definition reg_update :: "hash_funs \<Rightarrow> i64 \<Rightarrow> string \<Rightarrow> string \<Rightarrow> ((string \<times> entry) list \<Rightarrow> (string \<times> entry) list)
    \<Rightarrow> repo \<Rightarrow> (goerr + unit) \<times> repo" where
  "reg_update h now author msg mutate r =
     (let old = (case Resolve (r_refs r) PrincipalsRef of Inl _ \<Rightarrow> None | Inr i \<Rightarrow> Some i)
      in case reg_entries h r of
           Inl er \<Rightarrow> (Inl er, r)
         | Inr entries \<Rightarrow>
            (case NewTree (map snd (mutate entries)) of
               Inl er \<Rightarrow> (Inl er, r)
             | Inr tree \<Rightarrow>
                (case Put h (r_objects r) tree of
                   (Inl er, os) \<Rightarrow> (Inl er, r\<lparr>r_objects := os\<rparr>)
                 | (Inr treeID, os) \<Rightarrow>
                    (let (res, rs) = CompareAndSwap (r_refs r) now PrincipalsRef old (Some treeID) author msg
                     in (res, r\<lparr>r_objects := os, r_refs := rs\<rparr>)))))"

definition reg_Add :: "hash_funs \<Rightarrow> i64 \<Rightarrow> principal \<Rightarrow> string \<Rightarrow> repo \<Rightarrow> (goerr + unit) \<times> repo" where
  "reg_Add h now p author r =
     (if length (p_key p) = 0 then (Inl (Plain ''principal: a public key is required''), r)
      else
        (let fp = principal_fingerprint h p
         in case rbind (NewPrincipal p) (\<lambda>o'. NewBlob (Encode o')) of
              Inl er \<Rightarrow> (Inl er, r)
            | Inr blob \<Rightarrow>
               (case Put h (r_objects r) blob of
                  (Inl er, os) \<Rightarrow> (Inl er, r\<lparr>r_objects := os\<rparr>)
                | (Inr blobID, os) \<Rightarrow>
                    reg_update h now author (''principal add '' @ fp)
                      (AList.update fp \<lparr>ename = fp, emode = modeFile, ekind = TypeBlob, eid = blobID\<rparr>)
                      (r\<lparr>r_objects := os\<rparr>))))"

definition reg_Remove :: "hash_funs \<Rightarrow> i64 \<Rightarrow> string \<Rightarrow> string \<Rightarrow> repo \<Rightarrow> (goerr + unit) \<times> repo" where
  "reg_Remove h now fingerprint author r =
     reg_update h now author (''principal remove '' @ fingerprint) (AList.delete fingerprint) r"

definition reg_Get :: "hash_funs \<Rightarrow> repo \<Rightarrow> string \<Rightarrow> goerr + principal option" where
  "reg_Get h r fingerprint =
     rbind (reg_entries h r) (\<lambda>entries.
     case map_of entries fingerprint of
       None \<Rightarrow> Inr None
     | Some e \<Rightarrow> rbind (reg_decode h r (eid e)) (\<lambda>p. Inr (Some p)))"

definition reg_KindOf :: "hash_funs \<Rightarrow> repo \<Rightarrow> kind_resolver" where
  "reg_KindOf h r fingerprint =
     (case reg_Get h r fingerprint of Inr (Some p) \<Rightarrow> Some (p_kind p) | _ \<Rightarrow> None)"

fun decode_all :: "hash_funs \<Rightarrow> repo \<Rightarrow> (string \<times> entry) list \<Rightarrow> string list \<Rightarrow> goerr + principal list" where
  "decode_all h r entries [] = Inr []"
| "decode_all h r entries (fp # fps) =
     rbind (reg_decode h r (case map_of entries fp of None \<Rightarrow> [] | Some e \<Rightarrow> eid e)) (\<lambda>p.
     rbind (decode_all h r entries fps) (\<lambda>out. Inr (p # out)))"

definition reg_List :: "hash_funs \<Rightarrow> repo \<Rightarrow> goerr + principal list" where
  "reg_List h r =
     rbind (reg_entries h r) (\<lambda>entries. decode_all h r entries (sort (map fst entries)))"

section \<open>Two objects stored one after the other\<close>

text \<open>Without a collision both read back as stored, and what there was stays.\<close>

lemma put_two:
  assumes "wf_hashes h" "store_ok h s" "inj_on (Sum h (os_algo s)) ({a, b} \<union> snd ` set (os_files s))"
    and "PutRaw h s a = (Inr i, s1)" "PutRaw h s1 b = (Inr j, s2)"
  shows "store_ok h s2" "GetRaw h s2 i = Inr a" "GetRaw h s2 j = Inr b" "keeps h s s2"
proof -
  note p1 = PutRaw_ok [OF assms(1,2,4)]
  note p2 = PutRaw_ok [OF assms(1) p1(1) assms(5)]
  show "store_ok h s2" by (rule p2(1))
  have e: "put_raws h s [a, b] = s2" using assms(4,5) by simp
  have "TreeFiles.readable h (os_algo s) s2 [a, b]"
    using put_raws_readable [of h s "[a, b]"] assms(1-3) e by simp
  moreover have "Sum h (os_algo s) a = Inr i" using PutRaw_cases [OF assms(1,4)] by metis
  moreover have "Sum h (os_algo s) b = Inr j" using PutRaw_cases [OF assms(1,5)] p1(3) by metis
  ultimately show "GetRaw h s2 i = Inr a" "GetRaw h s2 j = Inr b" by (simp_all add: TreeFiles.readable_def)
  show "keeps h s s2"
    using PutRaw_keeps [OF assms(1,2,4)] PutRaw_keeps [OF assms(1) p1(1) assms(5)] unfolding keeps_def by blast
qed

section \<open>The chart as a map\<close>

text \<open>The map read from a tree holds each entry under its own name, once.\<close>

definition chart_ok :: "(string \<times> entry) list \<Rightarrow> bool" where
  "chart_ok es \<longleftrightarrow> distinct (map fst es) \<and> (\<forall>(n, e) \<in> set es. ename e = n)"

lemma chart_ok_update: "chart_ok es \<Longrightarrow> ename e = n \<Longrightarrow> chart_ok (AList.update n e es)"
  by (auto simp: chart_ok_def distinct_update dest!: set_update_subset [THEN subsetD])

lemma chart_ok_delete: "chart_ok es \<Longrightarrow> chart_ok (AList.delete n es)"
  by (auto simp: chart_ok_def distinct_delete) (auto simp: AList.delete_eq)

definition chart_of :: "entry list \<Rightarrow> (string \<times> entry) list" where
  "chart_of es = map (\<lambda>e. (ename e, e)) es"

lemma reg_entries_tree:
  assumes "Resolve (r_refs r) PrincipalsRef = Inr t" "Get h (r_objects r) t = Inr o'" "TreeEntries o' = Inr es"
  shows "reg_entries h r = Inr (chart_of es)"
proof -
  have "distinct (map ename es)" using TreeEntries_wf [OF assms(3)] by (rule wf_entries_distinct)
  with assms show ?thesis by (simp add: reg_entries_def fold_entries chart_of_def)
qed

lemma chart_of_ok: "distinct (map ename es) \<Longrightarrow> chart_ok (chart_of es)"
  by (auto simp: chart_ok_def chart_of_def comp_def)

lemma reg_entries_ok: "reg_entries h r = Inr es \<Longrightarrow> chart_ok es"
proof (cases "Resolve (r_refs r) PrincipalsRef")
  case (Inl e)
  then show "reg_entries h r = Inr es \<Longrightarrow> chart_ok es" by (auto simp: reg_entries_def chart_ok_def)
next
  case (Inr t)
  assume e: "reg_entries h r = Inr es"
  with Inr obtain o' l where "Get h (r_objects r) t = Inr o'" "TreeEntries o' = Inr l"
    by (auto simp: reg_entries_def rbind_eq_Inr)
  with Inr have "es = chart_of l" "wf_entries l" using reg_entries_tree e TreeEntries_wf by fastforce+
  then show ?thesis using wf_entries_distinct chart_of_ok by blast
qed

lemma map_of_chart:
  assumes "chart_ok es"
  shows "map_of (chart_of (sort_key ename (map snd es))) = map_of es" "distinct (map ename (map snd es))"
proof -
  have n: "map ename (map snd es) = map fst es" using assms by (auto simp: chart_ok_def)
  then show d: "distinct (map ename (map snd es))" using assms by (simp only: chart_ok_def)
  let ?s = "sort_key ename (map snd es)"
  have "distinct (map ename ?s)" using d by (metis distinct_map distinct_sort set_sort)
  then have k: "distinct (map fst (chart_of ?s))" by (simp add: chart_of_def comp_def)
  have "set (chart_of ?s) = set es"
  proof -
    have "set (chart_of ?s) = (\<lambda>x. (ename (snd x), snd x)) ` set es" by (simp add: chart_of_def image_image)
    also have "\<dots> = (\<lambda>x. x) ` set es" by (rule image_cong) (use assms in \<open>auto simp: chart_ok_def\<close>)
    finally show ?thesis by simp
  qed
  then show "map_of (chart_of ?s) = map_of es"
    using k assms by (intro map_of_eqI) (auto simp: chart_ok_def map_of_inject_set)
qed

text \<open>The rebuilt tree fits the address space.\<close>

definition chart_fits :: "(string \<times> entry) list \<Rightarrow> bool" where
  "chart_fits es \<longleftrightarrow> sum_list (map (entry_weight \<circ> snd) es) \<le> max_alloc"

definition chart_bytes :: "(string \<times> entry) list \<Rightarrow> byte list" where
  "chart_bytes es = Encode (tree_obj (sort_key ename (map snd es)))"

lemma chart_fits_update: "sum_list (map (entry_weight \<circ> snd) (AList.update n e es))
    \<le> sum_list (map (entry_weight \<circ> snd) es) + entry_weight e"
  by (induction es) auto

lemma chart_fits_delete: "chart_fits es \<Longrightarrow> chart_fits (AList.delete n es)"
proof -
  have "sum_list (map (entry_weight \<circ> snd) (AList.delete n es)) \<le> sum_list (map (entry_weight \<circ> snd) es)"
    by (induction es) auto
  then show "chart_fits es \<Longrightarrow> chart_fits (AList.delete n es)" by (simp add: chart_fits_def)
qed

lemma reg_update_done:
  assumes "refs_sound (r_refs r)" "reg_entries h r = Inr es" "chart_ok (mutate es)" "chart_fits (mutate es)"
    and upd: "reg_update h now author msg mutate r = (Inr (), r')"
  obtains t os where "PutRaw h (r_objects r) (chart_bytes (mutate es)) = (Inr t, os)" "r_objects r' = os"
    "refs_sound (r_refs r')"
    "GetRaw h os t = Inr (chart_bytes (mutate es)) \<Longrightarrow> \<exists>m. reg_entries h r' = Inr m \<and> map_of m = map_of (mutate es)"
proof -
  let ?m = "mutate es" and ?es = "sort_key ename (map snd (mutate es))"
  note mc = map_of_chart [OF assms(3)]
  have w: "sum_list (map entry_weight (map snd ?m)) \<le> max_alloc" using assms(4) by (simp add: chart_fits_def)
  note rt = readable_tree [OF mc(2) w]
  let ?old = "case Resolve (r_refs r) PrincipalsRef of Inl _ \<Rightarrow> None | Inr i \<Rightarrow> Some i"
  have nt: "NewTree (map snd ?m) = Inr (tree_obj ?es)" using mc(2) by (simp add: NewTree_eq)
  obtain y os where p: "PutRaw h (r_objects r) (chart_bytes ?m) = (y, os)" by fastforce
  with upd nt assms(2) obtain t where y: "y = Inr t"
    by (cases y) (simp_all add: reg_update_def Put_def chart_bytes_def)
  obtain z rs where c: "CompareAndSwap (r_refs r) now PrincipalsRef ?old (Some t) author msg = (z, rs)" by fastforce
  from upd nt assms(2) p y c have z: "z = Inr ()" and r': "r' = r\<lparr>r_objects := os, r_refs := rs\<rparr>"
    by (simp_all add: reg_update_def Put_def chart_bytes_def Let_def)
  from assms(1) c have rs: "refs_sound rs" and cur: "current rs PrincipalsRef = Some t" and v: "ValidName PrincipalsRef = Inr ()"
    by (cases rule: cas_sound; simp add: z)+
  have res: "Resolve rs PrincipalsRef = Inr t"
    using resolved_is_current [OF v, of rs] cur by (auto simp: P2PServe.resolved_def split: sum.splits)
  show thesis
  proof (rule that)
    show "PutRaw h (r_objects r) (chart_bytes ?m) = (Inr t, os)" using p y by simp
    show "r_objects r' = os" "refs_sound (r_refs r')" using r' rs by simp_all
    show "\<exists>m. reg_entries h r' = Inr m \<and> map_of m = map_of ?m" if g: "GetRaw h os t = Inr (chart_bytes ?m)"
    proof -
      have "Get h os t = Inr (tree_obj ?es)" using g rt(1) by (simp add: Get_def chart_bytes_def)
      from reg_entries_tree [of r' t h "tree_obj ?es" ?es] this res rt(2) r'
      have "reg_entries h r' = Inr (chart_of ?es)" by simp
      with mc(1) show ?thesis by blast
    qed
  qed
qed

lemma reg_decode_keeps: "keeps h (r_objects r) (r_objects r') \<Longrightarrow> reg_decode h r i = Inr p \<Longrightarrow> reg_decode h r' i = Inr p"
  using keeps_Get [of h "r_objects r" "r_objects r'" i] by (auto simp: reg_decode_def rbind_eq_Inr)

lemma reg_decode_stored:
  assumes "GetRaw h (r_objects r) i = Inr (Encode (blob_obj (Encode (principal_obj p))))"
    and "wf_obj (principal_obj p)" "fits64 (Encode (principal_obj p))"
  shows "reg_decode h r i = Inr p"
  using assms by (simp add: reg_decode_def Get_def wf_blob AsPrincipal_principal)

section \<open>The registry refines a map\<close>

text \<open>What the registry says about a fingerprint, when every entry of it can be read.\<close>

definition chart :: "hash_funs \<Rightarrow> repo \<Rightarrow> string \<Rightarrow> principal option" where
  "chart h r n = (case reg_Get h r n of Inr (Some p) \<Rightarrow> Some p | _ \<Rightarrow> None)"

definition reg_inv :: "hash_funs \<Rightarrow> repo \<Rightarrow> bool" where
  "reg_inv h r \<longleftrightarrow> store_ok h (r_objects r) \<and> refs_sound (r_refs r) \<and> (\<forall>n. \<exists>x. reg_Get h r n = Inr x)"

datatype reg_op = AddP principal | RemoveP string

definition reg_run :: "hash_funs \<Rightarrow> i64 \<Rightarrow> string \<Rightarrow> reg_op \<Rightarrow> repo \<Rightarrow> (goerr + unit) \<times> repo" where
  "reg_run h now author op r =
     (case op of AddP p \<Rightarrow> reg_Add h now p author r | RemoveP n \<Rightarrow> reg_Remove h now n author r)"

definition reg_abs :: "hash_funs \<Rightarrow> reg_op \<Rightarrow> (string \<Rightarrow> principal option) \<Rightarrow> string \<Rightarrow> principal option" where
  "reg_abs h op m =
     (case op of AddP p \<Rightarrow> m(principal_fingerprint h p \<mapsto> p) | RemoveP n \<Rightarrow> m(n := None))"

definition principal_entry :: "hash_funs \<Rightarrow> principal \<Rightarrow> multihash \<Rightarrow> entry" where
  "principal_entry h p i = \<lparr>ename = principal_fingerprint h p, emode = modeFile, ekind = TypeBlob, eid = i\<rparr>"

definition principal_bytes :: "principal \<Rightarrow> byte list" where
  "principal_bytes p = Encode (blob_obj (Encode (principal_obj p)))"

text \<open>The objects an operation stores, and that the hash tells them apart from what is there.\<close>

definition reg_writes :: "hash_funs \<Rightarrow> objstore \<Rightarrow> (string \<times> entry) list \<Rightarrow> reg_op \<Rightarrow> byte list set" where
  "reg_writes h s es op =
     (case op of
        AddP p \<Rightarrow> {principal_bytes p, chart_bytes (AList.update (principal_fingerprint h p)
            (principal_entry h p (case Sum h (os_algo s) (principal_bytes p) of Inl _ \<Rightarrow> [] | Inr i \<Rightarrow> i)) es)}
      | RemoveP n \<Rightarrow> {chart_bytes (AList.delete n es)})"

definition op_fits :: "hash_funs \<Rightarrow> repo \<Rightarrow> reg_op \<Rightarrow> bool" where
  "op_fits h r op \<longleftrightarrow>
     (\<forall>es. reg_entries h r = Inr es \<longrightarrow>
        sum_list (map (entry_weight \<circ> snd) es) + 256 \<le> max_alloc \<and>
        inj_on (Sum h (os_algo (r_objects r))) (reg_writes h (r_objects r) es op \<union> snd ` set (os_files (r_objects r)))) \<and>
     (case op of AddP p \<Rightarrow> wf_obj (principal_obj p) \<and> fits64 (Encode (principal_obj p)) | RemoveP n \<Rightarrow> True)"

lemma reg_Get_eq: "reg_entries h r = Inr es \<Longrightarrow>
    reg_Get h r n = (case map_of es n of None \<Rightarrow> Inr None | Some e \<Rightarrow> rbind (reg_decode h r (eid e)) (\<lambda>p. Inr (Some p)))"
  by (simp add: reg_Get_def)

lemma length_fingerprint: "wf_hashes h \<Longrightarrow> length (principal_fingerprint h p) \<le> 135"
  using length_groups [of "map unat (sha256_sum h (Blob \<lparr>pk_key = p_key p, pk_comment = []\<rparr>))" False]
  by (simp add: principal_fingerprint_def Fingerprint_def FingerprintBlob_def RawStdEncode_def wf_hashes_def)

lemma reg_inv_entries: "reg_inv h r \<Longrightarrow> \<exists>es. reg_entries h r = Inr es"
  unfolding reg_inv_def reg_Get_def by (auto simp: rbind_eq_Inr)

text \<open>A readable entry of the old map is the same in a new one that kept it.\<close>

lemma chart_kept:
  assumes "reg_entries h r = Inr es" "reg_entries h r' = Inr m" "map_of m n = map_of es n"
    and "keeps h (r_objects r) (r_objects r')" "reg_Get h r n = Inr x"
  shows "reg_Get h r' n = Inr x"
  using assms reg_decode_keeps [OF assms(4)] by (auto simp: reg_Get_eq rbind_eq_Inr split: option.splits)

lemma reg_Remove_refines:
  assumes "wf_hashes h" "reg_inv h r" "op_fits h r (RemoveP n)" "reg_Remove h now n author r = (Inr (), r')"
  shows "reg_inv h r' \<and> chart h r' = (chart h r)(n := None)"
proof -
  obtain es where es: "reg_entries h r = Inr es" using reg_inv_entries [OF assms(2)] by blast
  have ok: "store_ok h (r_objects r)" "refs_sound (r_refs r)" using assms(2) by (simp_all add: reg_inv_def)
  let ?m = "AList.delete n es"
  have f: "chart_fits es" "inj_on (Sum h (os_algo (r_objects r))) ({chart_bytes ?m} \<union> snd ` set (os_files (r_objects r)))"
    using assms(3) es by (simp_all add: op_fits_def chart_fits_def reg_writes_def)
  from reg_update_done [OF ok(2) es chart_ok_delete [OF reg_entries_ok [OF es]] chart_fits_delete [OF f(1)]
      assms(4) [unfolded reg_Remove_def]]
  obtain t os where p: "PutRaw h (r_objects r) (chart_bytes ?m) = (Inr t, os)" "r_objects r' = os" "refs_sound (r_refs r')"
    and m: "GetRaw h os t = Inr (chart_bytes ?m) \<Longrightarrow> \<exists>m. reg_entries h r' = Inr m \<and> map_of m = map_of ?m" by blast
  have "TreeFiles.readable h (os_algo (r_objects r)) os [chart_bytes ?m]"
    using put_raws_readable [of h "r_objects r" "[chart_bytes ?m]"] assms(1) ok(1) f(2) p(1) by simp
  moreover have "Sum h (os_algo (r_objects r)) (chart_bytes ?m) = Inr t" using PutRaw_cases [OF assms(1) p(1)] by metis
  ultimately obtain m where rm: "reg_entries h r' = Inr m" "map_of m = map_of ?m"
    using m by (auto simp: TreeFiles.readable_def)
  have k: "keeps h (r_objects r) (r_objects r')" using PutRaw_keeps [OF assms(1) ok(1) p(1)] p(2) by (simp add: keeps_def)
  have get: "reg_Get h r' n' = (if n' = n then Inr None else reg_Get h r n')" for n'
  proof (cases "n' = n")
    case True
    with rm show ?thesis by (simp add: reg_Get_eq delete_conv')
  next
    case False
    obtain x where x: "reg_Get h r n' = Inr x" using assms(2) unfolding reg_inv_def by blast
    from chart_kept [OF es rm(1) _ k x] rm(2) False x show ?thesis by (simp add: delete_conv')
  qed
  have "reg_inv h r'"
    using PutRaw_ok(1) [OF assms(1) ok(1) p(1)] p(2,3) get assms(2) unfolding reg_inv_def by simp
  moreover have "chart h r' = (chart h r)(n := None)"
    by (rule ext) (simp add: chart_def get)
  ultimately show ?thesis by blast
qed

lemma reg_Add_refines:
  assumes "wf_hashes h" "reg_inv h r" "op_fits h r (AddP p)" "reg_Add h now p author r = (Inr (), r')"
  shows "reg_inv h r' \<and> chart h r' = (chart h r)(principal_fingerprint h p \<mapsto> p)"
proof -
  obtain es where es: "reg_entries h r = Inr es" using reg_inv_entries [OF assms(2)] by blast
  have ok: "store_ok h (r_objects r)" "refs_sound (r_refs r)" using assms(2) by (simp_all add: reg_inv_def)
  have wp: "wf_obj (principal_obj p)" "fits64 (Encode (principal_obj p))" using assms(3) by (simp_all add: op_fits_def)
  let ?fp = "principal_fingerprint h p" and ?b = "principal_bytes p"
  have nb: "rbind (NewPrincipal p) (\<lambda>o'. NewBlob (Encode o')) = Inr (blob_obj (Encode (principal_obj p)))"
    by (simp add: NewPrincipal_eq NewBlob_eq)
  have "length (p_key p) \<noteq> 0" using assms(4) by (auto simp: reg_Add_def)
  moreover obtain y os1 where p1: "PutRaw h (r_objects r) ?b = (y, os1)" by fastforce
  ultimately obtain i where y: "y = Inr i"
    using assms(4) nb by (cases y) (simp_all add: reg_Add_def Put_def principal_bytes_def)
  note p1 = p1 [unfolded y]
  let ?r1 = "r\<lparr>r_objects := os1\<rparr>" and ?m = "AList.update ?fp (principal_entry h p i) es"
  have upd: "reg_update h now author (''principal add '' @ ?fp) (AList.update ?fp (principal_entry h p i)) ?r1 = (Inr (), r')"
    using assms(4) nb p1 \<open>length (p_key p) \<noteq> 0\<close>
    by (simp add: reg_Add_def Put_def principal_bytes_def principal_entry_def Let_def)
  have si: "Sum h (os_algo (r_objects r)) ?b = Inr i" using PutRaw_cases [OF assms(1) p1] by metis
  have f: "sum_list (map (entry_weight \<circ> snd) es) + 256 \<le> max_alloc"
    "inj_on (Sum h (os_algo (r_objects r))) ({?b, chart_bytes ?m} \<union> snd ` set (os_files (r_objects r)))"
    using assms(3) es si by (simp_all add: op_fits_def reg_writes_def)
  have k1: "keeps h (r_objects r) os1" using PutRaw_keeps [OF assms(1) ok(1) p1] by (simp add: keeps_def)
  have es1: "reg_entries h ?r1 = Inr es"
  proof -
    have "Get h os1 x = Inr o'" if "Get h (r_objects r) x = Inr o'" for x o'
      using k1 that by (auto simp: keeps_def Get_def rbind_eq_Inr)
    with es show ?thesis by (auto simp: reg_entries_def rbind_eq_Inr split: sum.splits)
  qed
  have "entry_weight (principal_entry h p i) \<le> 256"
    using length_fingerprint [OF assms(1), of p] Sum_length [OF assms(1) si] by (simp add: entry_weight_def principal_entry_def)
  then have "chart_fits ?m"
    using chart_fits_update [of ?fp "principal_entry h p i" es] f(1) unfolding chart_fits_def by linarith
  from reg_update_done [OF _ es1 chart_ok_update [OF reg_entries_ok [OF es]] this upd] ok(2)
  obtain t os where p2: "PutRaw h os1 (chart_bytes ?m) = (Inr t, os)" "r_objects r' = os" "refs_sound (r_refs r')"
    and m: "GetRaw h os t = Inr (chart_bytes ?m) \<Longrightarrow> \<exists>m. reg_entries h r' = Inr m \<and> map_of m = map_of ?m"
    by (auto simp: principal_entry_def)
  note two = put_two [OF assms(1) ok(1) f(2) p1 p2(1)]
  obtain m where rm: "reg_entries h r' = Inr m" "map_of m = map_of ?m" using m two(3) by blast
  have mn: "map_of ?m n = (if n = ?fp then Some (principal_entry h p i) else map_of es n)" for n
    by (simp add: update_conv')
  have get: "reg_Get h r' n = (if n = ?fp then Inr (Some p) else reg_Get h r n)" for n
  proof (cases "n = ?fp")
    case True
    have "reg_decode h r' i = Inr p"
      by (rule reg_decode_stored) (use two(2) p2(2) wp in \<open>simp_all add: principal_bytes_def\<close>)
    with rm mn True show ?thesis by (simp add: reg_Get_eq principal_entry_def)
  next
    case False
    obtain x where x: "reg_Get h r n = Inr x" using assms(2) unfolding reg_inv_def by blast
    from chart_kept [OF es rm(1) _ _ x] rm(2) mn [of n] two(4) p2(2) False x show ?thesis by simp
  qed
  have "reg_inv h r'" using two(1) p2(2,3) get assms(2) unfolding reg_inv_def by simp
  moreover have "chart h r' = (chart h r)(?fp \<mapsto> p)" by (rule ext) (simp add: chart_def get)
  ultimately show ?thesis by blast
qed

section \<open>Property\<close>

text \<open>C16. The registry of principals is a map from fingerprints to principals: each operation that
  succeeds changes the map as it says and keeps every entry readable, and an attestation passes the
  check against the registry only if its signer is in the map with the kind the rule is applied to,
  so that a removed principal's attestations stop counting.\<close>

theorem registry_refines:
  assumes "wf_hashes h" and "reg_inv h r" and "op_fits h r op" and "reg_run h now author op r = (Inr (), r')"
  shows "reg_inv h r' \<and> chart h r' = reg_abs h op (chart h r) \<and>
    (\<forall>verify obj fp a. VerifyWithPrincipal h verify obj (reg_KindOf h r') = Inr (fp, a) \<longrightarrow>
       (\<exists>p. reg_abs h op (chart h r) fp = Some p \<and> CheckStrengthKind (a_strength a) (p_kind p) = Inr ()))"
proof -
  have c: "reg_inv h r' \<and> chart h r' = reg_abs h op (chart h r)"
  proof (cases op)
    case (AddP p)
    with assms(4) have "reg_Add h now p author r = (Inr (), r')" by (simp add: reg_run_def)
    from reg_Add_refines [OF assms(1,2) assms(3) [unfolded AddP] this] AddP show ?thesis by (simp add: reg_abs_def)
  next
    case (RemoveP n)
    with assms(4) have "reg_Remove h now n author r = (Inr (), r')" by (simp add: reg_run_def)
    from reg_Remove_refines [OF assms(1,2) assms(3) [unfolded RemoveP] this] RemoveP show ?thesis by (simp add: reg_abs_def)
  qed
  have "\<exists>p. chart h r' fp = Some p \<and> CheckStrengthKind (a_strength a) (p_kind p) = Inr ()"
    if "VerifyWithPrincipal h verify obj (reg_KindOf h r') = Inr (fp, a)" for verify obj fp a
    using that by (auto simp: VerifyWithPrincipal_def reg_KindOf_def chart_def Let_def result_iffs
        split: option.splits sum.splits)
  with c show ?thesis by simp
qed

definition demo_principal :: principal where
  "demo_principal = \<lparr>p_key = [7], p_name = ''dir'', p_kind = KindHuman\<rparr>"

lemma demo_principal_fits: "wf_obj (principal_obj demo_principal)" "fits64 (Encode (principal_obj demo_principal))"
proof -
  have "fits64 ''dir''" "fits64 [7 :: byte]" by (simp_all add: fits64_def)
  then show "wf_obj (principal_obj demo_principal)"
    unfolding principal_obj_def by (intro wf_mkobj) (simp_all add: principal_fields_def demo_principal_def max_alloc_def)
  have "length (Encode (principal_obj demo_principal)) < 100" by code_simp
  then show "fits64 (Encode (principal_obj demo_principal))" by (simp add: fits64_def)
qed

theorem registry_refines_witness:
  "\<exists>h r'. reg_run h 1 ''a'' (AddP demo_principal) demo_empty = (Inr (), r') \<and>
     chart h r' (principal_fingerprint h demo_principal) = Some demo_principal"
proof -
  let ?p = demo_principal and ?r = demo_empty
  let ?b = "principal_bytes ?p"
  let ?h = "two_hash ?b"
  have cur: "current empty_refs n = None" for n
    by (simp add: current_None) (simp add: empty_refs_def)
  have cl: "clear (rs_refs empty_refs) PrincipalsRef" "clear (rs_logs empty_refs) PrincipalsRef"
    by (simp_all add: clear_def empty_refs_def empty_ftree_def is_file_def list_ex_iff)
  have v: "ValidName PrincipalsRef = Inr ()" by (simp add: PrincipalsRef_def ValidName_def has_prefix_def has_suffix_def)
  have res: "Resolve empty_refs PrincipalsRef = Inl (Sentinel RefNotExist [])"
    using v clear_readRef [OF cl(1)] cur by (simp add: Resolve_def)
  have es: "reg_entries ?h ?r = Inr []" by (simp add: reg_entries_def demo_empty_def res)
  have inv: "reg_inv ?h ?r"
    using demo_env_wf(3) by (auto simp: reg_inv_def reg_Get_eq [OF es]) (simp add: demo_empty_def)
  have alg: "os_algo (r_objects ?r) = Default" "snd ` set (os_files (r_objects ?r)) = {}"
    by (simp_all add: demo_empty_def Open_store_def)
  have ne: "chart_bytes es \<noteq> ?b" if "chart_fits es" "chart_ok es" for es
  proof
    assume "chart_bytes es = ?b"
    then have "Decode (chart_bytes es) = Decode ?b" by simp
    moreover have "Decode ?b = Inr (blob_obj (Encode (principal_obj ?p)))"
      using demo_principal_fits by (simp add: principal_bytes_def wf_blob)
    moreover have "wf_obj (tree_obj (sort_key ename (map snd es)))"
      using readable_tree(1) [OF map_of_chart(2) [OF that(2)]] that(1) by (simp add: chart_fits_def)
    ultimately show False by (auto simp: chart_bytes_def type_defs dest: arg_cong [where f = otyp])
  qed
  have nm: "mh_encode Default (replicate 32 (1 :: byte)) \<noteq> mh_encode Default (replicate 32 0)" by (rule mh_encode_32_ne)
  have fits: "op_fits ?h ?r (AddP ?p)"
  proof -
    let ?e = "principal_entry ?h ?p (mh_encode Default (replicate 32 1))"
    have "length (mh_encode Default (replicate 32 (1 :: byte))) \<le> 52"
      using length_appendUvarint [of Default] length_appendUvarint [of "len64 (replicate 32 (1 :: byte))"]
      by (simp add: mh_encode_def appendUvarint_append [of "appendUvarint [] Default"])
    then have "chart_fits [(principal_fingerprint ?h ?p, ?e)]"
      using length_fingerprint [OF wf_two_hash, of ?b ?p] by (simp add: chart_fits_def entry_weight_def principal_entry_def max_alloc_def)
    then have "chart_bytes [(principal_fingerprint ?h ?p, ?e)] \<noteq> ?b"
      by (rule ne) (simp add: chart_ok_def principal_entry_def)
    then show ?thesis using nm
      by (simp add: op_fits_def es reg_writes_def alg Sum_two_hash demo_principal_fits) (simp add: max_alloc_def)
  qed
  have "\<exists>r'. reg_run ?h 1 ''a'' (AddP ?p) ?r = (Inr (), r')"
  proof -
    obtain i os where p1: "PutRaw ?h (r_objects ?r) ?b = (Inr i, os)"
      by (rule PutRaw_total [OF wf_two_hash alg(1)])
    have st: "store_ok ?h (r_objects ?r)" using inv by (simp add: reg_inv_def)
    have os: "os_algo os = Default" using PutRaw_ok(3) [OF wf_two_hash st p1] alg by simp
    let ?e = "principal_entry ?h ?p i"
    let ?t = "tree_obj [?e]"
    obtain t os2 where p2: "PutRaw ?h os (Encode ?t) = (Inr t, os2)"
      by (rule PutRaw_total [OF wf_two_hash os])
    obtain q where "store_path t = Inr q" using PutRaw_cases [OF wf_two_hash p2] by metis
    then have "valid_hash (Some t)" using store_path_valid by (auto simp: valid_hash_def)
    then obtain rs where c: "CompareAndSwap empty_refs 1 PrincipalsRef None (Some t) ''a''
        (''principal add '' @ principal_fingerprint ?h ?p) = (Inr (), rs)"
      using cas_complete [of empty_refs "\<lparr>co_name = PrincipalsRef, co_old = None, co_new = Some t, co_now = 1,
          co_actor = ''a'', co_msg = ''principal add '' @ principal_fingerprint ?h ?p\<rparr>"] v cl cur
      by (auto simp: cas_def)
    have nb: "rbind (NewPrincipal ?p) (\<lambda>o'. NewBlob (Encode o')) = Inr (blob_obj (Encode (principal_obj ?p)))"
      by (simp add: NewPrincipal_eq NewBlob_eq)
    have nt: "NewTree [?e] = Inr ?t" by (simp add: NewTree_eq)
    have k: "length (p_key ?p) \<noteq> 0" by (simp add: demo_principal_def)
    have "reg_entries ?h (?r\<lparr>r_objects := os\<rparr>) = Inr []" by (simp add: reg_entries_def demo_empty_def res)
    with p1 p2 c nb nt k show ?thesis
      by (simp add: reg_run_def reg_Add_def reg_update_def Put_def principal_bytes_def principal_entry_def res demo_empty_def)
  qed
  then obtain r' where run: "reg_run ?h 1 ''a'' (AddP ?p) ?r = (Inr (), r')" ..
  from registry_refines [OF wf_two_hash inv fits run] have "chart ?h r' (principal_fingerprint ?h ?p) = Some ?p"
    by (simp add: reg_abs_def)
  with run show ?thesis by blast
qed

end
