(* ===== verification/IdChain.thy ===== *)
theory IdChain
  imports Registry TxnSets
begin

text \<open>
  \<^verbatim>\<open>internal/idchain\<close>: an identity is a ref moved by compare-and-swap over an append-only chain of
  signed revisions without trees; its name is the hash of the first revision. The provenance of
  a revision is assembled by \<^verbatim>\<open>internal/provenance\<close> from the process environment and the hash of the
  running program, which are a parameter. Following first parents is a partial
  function: a chain that does not end has the value \<open>None\<close>.
\<close>

section \<open>Provenance of the process\<close>

record process_env =
  ge_Getenv :: "string \<Rightarrow> string"
  ge_hashSelf :: "multihash option"

fun splitList_loop :: "string list \<Rightarrow> string \<Rightarrow> string \<Rightarrow> string list" where
  "splitList_loop out cur [] = (if cur \<noteq> [] then out @ [cur] else out)"
| "splitList_loop out cur (r # s) =
     (if r = CHR '','' \<or> r = CHR '' '' \<or> r = newline
      then (if cur \<noteq> [] then splitList_loop (out @ [cur]) [] s else splitList_loop out cur s)
      else splitList_loop out (cur @ [r]) s)"

definition splitList :: "string \<Rightarrow> string list" where
  "splitList s = splitList_loop [] [] s"

definition Build_provenance :: "process_env \<Rightarrow> string \<Rightarrow> provenance" where
  "Build_provenance ge authority =
     \<lparr>pv_authority = authority, pv_model = ge_Getenv ge ''VARVIG_MODEL'',
      pv_modelVersion = ge_Getenv ge ''VARVIG_MODEL_VERSION'', pv_sampling = ge_Getenv ge ''VARVIG_SAMPLING'',
      pv_toolPermissions = splitList (ge_Getenv ge ''VARVIG_TOOL_PERMS''), pv_toolHash = ge_hashSelf ge,
      pv_taskSpec = ge_Getenv ge ''VARVIG_TASK'', pv_contextRead = ge_Getenv ge ''VARVIG_CONTEXT'',
      pv_reasoning = ge_Getenv ge ''VARVIG_REASONING'', pv_environment = None, pv_scope = []\<rparr>"

section \<open>Identities\<close>

definition idc_Ref :: "string \<Rightarrow> multihash \<Rightarrow> string" where
  "idc_Ref prefix id' = prefix @ Hex id'"

definition validPrefix :: "string \<Rightarrow> goerr + unit" where
  "validPrefix prefix =
     (if \<not> has_prefix prefix ''refs/'' \<or> \<not> has_suffix prefix ''/''
      then Inl (Plain (''idchain: prefix '' @ prefix @ '' must be a ref namespace ending in /''))
      else Inr ())"

text \<open>A revision: intent without a tree.\<close>

definition revision :: "string \<Rightarrow> multihash list \<Rightarrow> string \<Rightarrow> i64 \<Rightarrow> multihash \<Rightarrow> change" where
  "revision state pars author now provID =
     \<lparr>c_tree = None, c_parents = pars, c_message = state, c_timestamp = now, c_author = author,
      c_provenance = Some provID, c_artifacts = [], c_fulfills = None\<rparr>"

definition BuildRevision :: "hash_funs \<Rightarrow> process_env \<Rightarrow> objstore \<Rightarrow> string \<Rightarrow> multihash list \<Rightarrow> signer \<Rightarrow> string \<Rightarrow> i64
    \<Rightarrow> (goerr + multihash) \<times> objstore" where
  "BuildRevision h ge s state pars priv author now =
     (case NewProvenance (Build_provenance ge author) of
        Inl er \<Rightarrow> (Inl er, s)
      | Inr prov \<Rightarrow>
         (case Put h s prov of
            (Inl er, s) \<Rightarrow> (Inl er, s)
          | (Inr provID, s) \<Rightarrow>
             (case rbind (NewChange (revision state pars author now provID)) (\<lambda>rid. SignWith rid priv) of
                Inl er \<Rightarrow> (Inl er, s)
              | Inr rid \<Rightarrow> Put h s rid)))"

definition idc_New :: "hash_funs \<Rightarrow> process_env \<Rightarrow> i64 \<Rightarrow> repo \<Rightarrow> string \<Rightarrow> string \<Rightarrow> signer \<Rightarrow> string \<Rightarrow> i64
    \<Rightarrow> (goerr + multihash) \<times> repo" where
  "idc_New h ge clock r prefix state priv author now =
     (case validPrefix prefix of
        Inl er \<Rightarrow> (Inl er, r)
      | Inr _ \<Rightarrow>
          if state = [] then (Inl (Plain ''idchain: a genesis revision needs state''), r)
          else
            (case BuildRevision h ge (r_objects r) state [] priv author now of
               (Inl er, os) \<Rightarrow> (Inl er, r\<lparr>r_objects := os\<rparr>)
             | (Inr rid, os) \<Rightarrow>
                (case Create (r_refs r) clock (idc_Ref prefix rid) rid author ''idchain new'' of
                   (Inl er, rs) \<Rightarrow> (Inl er, r\<lparr>r_objects := os, r_refs := rs\<rparr>)
                 | (Inr _, rs) \<Rightarrow> (Inr rid, r\<lparr>r_objects := os, r_refs := rs\<rparr>))))"

definition idc_Revise :: "hash_funs \<Rightarrow> process_env \<Rightarrow> i64 \<Rightarrow> repo \<Rightarrow> string \<Rightarrow> multihash \<Rightarrow> string \<Rightarrow> signer \<Rightarrow> string \<Rightarrow> i64
    \<Rightarrow> (goerr + multihash) \<times> repo" where
  "idc_Revise h ge clock r prefix id' state priv author now =
     (case validPrefix prefix of
        Inl er \<Rightarrow> (Inl er, r)
      | Inr _ \<Rightarrow>
          if state = [] then (Inl (Plain ''idchain: a revision needs state''), r)
          else
            (let name = idc_Ref prefix id'
             in case Resolve (r_refs r) name of
                  Inl er \<Rightarrow> (Inl (Plain (''idchain: '' @ Hex id' @ '': '' @ err_text er)), r)
                | Inr head \<Rightarrow>
                   (case BuildRevision h ge (r_objects r) state [head] priv author now of
                      (Inl er, os) \<Rightarrow> (Inl er, r\<lparr>r_objects := os\<rparr>)
                    | (Inr rid, os) \<Rightarrow>
                       (case CompareAndSwap (r_refs r) clock name (Some head) (Some rid) author ''idchain revise'' of
                          (Inl er, rs) \<Rightarrow> (Inl er, r\<lparr>r_objects := os, r_refs := rs\<rparr>)
                        | (Inr _, rs) \<Rightarrow> (Inr rid, r\<lparr>r_objects := os, r_refs := rs\<rparr>)))))"

definition idc_Head :: "repo \<Rightarrow> string \<Rightarrow> multihash \<Rightarrow> goerr + multihash" where
  "idc_Head r prefix id' = Resolve (r_refs r) (idc_Ref prefix id')"

definition not_revision :: "multihash \<Rightarrow> goerr \<Rightarrow> goerr" where
  "not_revision m er = Plain (''idchain: revision '' @ Hex m @ '' is not a revision: '' @ err_text er)"

definition StateAt :: "hash_funs \<Rightarrow> objstore \<Rightarrow> multihash \<Rightarrow> goerr + string" where
  "StateAt h s m =
     rbind (Get h s m) (\<lambda>obj.
     rbind (map_err (not_revision m) (AsChange obj)) (\<lambda>c.
     Inr (c_message c)))"

partial_function (option) history_loop :: "hash_funs \<Rightarrow> objstore \<Rightarrow> multihash \<Rightarrow> (goerr + multihash list) option" where
  "history_loop h s cur =
     (case rbind (Get h s cur) (\<lambda>obj. map_err (not_revision cur) (AsChange obj)) of
        Inl er \<Rightarrow> Some (Inl er)
      | Inr c \<Rightarrow>
          if length (c_parents c) = 0 then Some (Inr [cur])
          else
            Option.bind (history_loop h s (c_parents c ! 0)) (\<lambda>rest.
            Some (rbind rest (\<lambda>out. Inr (cur # out)))))"

definition idc_History :: "hash_funs \<Rightarrow> repo \<Rightarrow> string \<Rightarrow> multihash \<Rightarrow> (goerr + multihash list) option" where
  "idc_History h r prefix id' =
     (case idc_Head r prefix id' of Inl er \<Rightarrow> Some (Inl er) | Inr head \<Rightarrow> history_loop h (r_objects r) head)"

definition sortIDs :: "multihash list \<Rightarrow> multihash list" where
  "sortIDs ids = SliceStable (\<lambda>a b. Hex a < Hex b) ids"

definition idc_List :: "repo \<Rightarrow> string \<Rightarrow> goerr + multihash list" where
  "idc_List r prefix =
     rbind (validPrefix prefix) (\<lambda>_.
     Inr (sortIDs (concat (map (\<lambda>n.
       if \<not> has_prefix n prefix then []
       else
         (let suffix = drop (length prefix) n
          in if CHR ''/'' \<in> set suffix then []
             else (case ParseHex suffix of Inl _ \<Rightarrow> [] | Inr id' \<Rightarrow> [id']))) (List_refs (r_refs r))))))"

section \<open>Revisions\<close>

lemma AsChange_signed:
  assumes "wf_change c"  "wf_obj (change_obj c)"
  shows "AsChange (SetSignature (change_obj c) sg) = Inr (canonical_change c)"
proof -
  have "Field (SetSignature (change_obj c) sg) t = Field (change_obj c) t" if "t \<noteq> tagChangeSignature" for t
    using signed_fields(2) [OF assms(2) that] .
  then have "AsChange (SetSignature (change_obj c) sg) = AsChange (change_obj c)"
    using signed_fields(4) [OF assms(2)] by (simp add: AsChange_def change_tags str_of_field_def hash_of_field_def)
  with AsChange_change [OF assms(1)] show ?thesis by simp
qed

definition revision_fits :: "string \<Rightarrow> multihash list \<Rightarrow> string \<Rightarrow> bool" where
  "revision_fits state pars author \<longleftrightarrow>
     fits64 state \<and> fits64 author \<and> wf_hash_list pars \<and> fits64 (encodeHashList (sortedUniqueHashes pars))"

lemma revision_wf:
  assumes "revision_fits state pars author" "length provID < 100"
  shows "wf_change (revision state pars author now provID)" "wf_obj (change_obj (revision state pars author now provID))"
proof -
  show "wf_change (revision state pars author now provID)"
    using assms by (simp add: wf_change_def revision_def revision_fits_def wf_hash_list_def)
  have "fits64 provID" using assms(2) by (simp add: fits64_def)
  then show "wf_obj (change_obj (revision state pars author now provID))"
    unfolding change_obj_def using assms
    by (intro wf_mkobj [OF change_fields_distinct]) (auto simp: change_fields_def revision_def revision_fits_def
        opt_field_def Let_def max_alloc_def sortedUniqueHashes_eq [symmetric] encodeHashList_def)
qed

text \<open>The two objects that making a revision stores.\<close>

definition revision_objects :: "hash_funs \<Rightarrow> process_env \<Rightarrow> objstore \<Rightarrow> string \<Rightarrow> multihash list \<Rightarrow> signer \<Rightarrow> string \<Rightarrow> i64
    \<Rightarrow> byte list list" where
  "revision_objects h ge s state pars priv author now =
     (let p = Encode (prov_obj (Build_provenance ge author))
      in p # (case Sum h (os_algo s) p of
                Inl _ \<Rightarrow> []
              | Inr i \<Rightarrow> (case SignWith (change_obj (revision state pars author now i)) priv of Inl _ \<Rightarrow> [] | Inr o' \<Rightarrow> [Encode o'])))"

text \<open>The hash tells them apart, and from everything stored.\<close>

definition revision_fresh :: "hash_funs \<Rightarrow> process_env \<Rightarrow> objstore \<Rightarrow> string \<Rightarrow> multihash list \<Rightarrow> signer \<Rightarrow> string \<Rightarrow> i64 \<Rightarrow> bool" where
  "revision_fresh h ge s state pars priv author now \<longleftrightarrow>
     distinct (map (Sum h (os_algo s)) (remdups (revision_objects h ge s state pars priv author now @ map snd (os_files s))))"

lemma revision_freshD:
  "revision_fresh h ge s state pars priv author now \<Longrightarrow>
   inj_on (Sum h (os_algo s)) (set (revision_objects h ge s state pars priv author now) \<union> snd ` set (os_files s))"
  by (simp add: revision_fresh_def distinct_map)

lemma BuildRevision_ok:
  assumes "wf_hashes h" "store_ok h s" "revision_fits state pars author"
    and "revision_fresh h ge s state pars priv author now"
    and "BuildRevision h ge s state pars priv author now = (Inr rid, s')"
  obtains o' i where "store_ok h s'" "keeps h s s'" "Get h s' rid = Inr o'"
    "AsChange o' = Inr (canonical_change (revision state pars author now i))"
proof -
  let ?pb = "Encode (prov_obj (Build_provenance ge author))"
  obtain x s1 where p1: "PutRaw h s ?pb = (x, s1)" by fastforce
  with assms(5) obtain i where x: "x = Inr i" by (cases x) (simp_all add: BuildRevision_def NewProvenance_eq Put_def)
  note p1 = p1 [unfolded x]
  have si: "Sum h (os_algo s) ?pb = Inr i" using PutRaw_cases [OF assms(1) p1] by metis
  let ?c = "revision state pars author now i"
  have li: "length i < 100" using Sum_length [OF assms(1) si] by simp
  note w = revision_wf [OF assms(3) li, where now = now]
  obtain o' where sg: "SignWith (change_obj ?c) priv = Inr o'"
    using assms(5) p1 by (cases "SignWith (change_obj ?c) priv") (simp_all add: BuildRevision_def NewProvenance_eq NewChange_eq Put_def)
  have p2: "PutRaw h s1 (Encode o') = (Inr rid, s')"
    using assms(5) p1 sg by (simp add: BuildRevision_def NewProvenance_eq NewChange_eq Put_def)
  obtain sig where sg': "o' = SetSignature (change_obj ?c) (encodeSig schemeEd25519 (sg_public priv) sig)"
    "length (sg_public priv) = 32" "length sig = 64"
    using sg by (auto simp: SignWith_def Let_def result_iffs PublicKeySize_def SignatureSize_def split: if_splits)
  have "length (ofields (change_obj ?c)) \<le> 100"
    by (simp add: change_obj_def change_fields_def revision_def opt_field_def Let_def)
  then have wo: "wf_obj o'" unfolding sg'(1) using w(2) sg'(2,3) by (intro wf_signed encodeSig_fits) simp_all
  have "set (revision_objects h ge s state pars priv author now) = {?pb, Encode o'}"
    using si sg by (auto simp: revision_objects_def Let_def)
  with revision_freshD [OF assms(4)] have inj: "inj_on (Sum h (os_algo s)) ({?pb, Encode o'} \<union> snd ` set (os_files s))" by simp
  note two = put_two [OF assms(1,2) inj p1 p2]
  show thesis
  proof (rule that)
    show "store_ok h s'" "keeps h s s'" by (rule two)+
    show "Get h s' rid = Inr o'" using two(3) wo by (simp add: Get_def)
    show "AsChange o' = Inr (canonical_change ?c)" unfolding sg'(1) using AsChange_signed [OF w] .
  qed
qed

section \<open>Histories\<close>

lemma readable_length: "wf_hashes h \<Longrightarrow> rbind (Get h s i) f = Inr x \<Longrightarrow> length i < 100"
proof -
  assume wf: "wf_hashes h" and "rbind (Get h s i) f = Inr x"
  then obtain b where g: "GetRaw h s i = Inr b" by (auto simp: Get_def rbind_eq_Inr)
  from GetRaw_verified [OF g] obtain c a where a: "registry h c = Some a" and i: "i = mh_encode c (algo_sum a b)"
    using Verify_iff [OF wf] by auto
  show ?thesis
    using length_appendUvarint [of c] length_appendUvarint [of "len64 (algo_sum a b)"] registry_sum_length [OF wf a, of b]
    by (simp add: i mh_encode_def Let_def appendUvarint_append [of "appendUvarint [] c"])
qed

lemma one_parent_fits: "length i < 100 \<Longrightarrow> fits64 state \<Longrightarrow> fits64 author \<Longrightarrow> revision_fits state [i] author"
  using length_appendUvarint [of "len64 i"] length_appendUvarint [of "len64 [i]"]
  by (simp add: revision_fits_def wf_hash_list_def fits64_def encodeHashList_def sortedUniqueHashes_eq
      appendUvarint_append [of "appendUvarint [] _"])

lemma history_mono:
  assumes k: "keeps h s s'"
  shows "history_loop h s cur = Some (Inr out) \<Longrightarrow> history_loop h s' cur = Some (Inr out)"
proof (induction out arbitrary: cur)
  case Nil
  then show ?case
    by (subst (asm) history_loop.simps) (auto simp: rbind_eq_Inr split: sum.splits if_splits Option.bind_splits)
next
  case (Cons x out)
  obtain c where c: "rbind (Get h s cur) (\<lambda>obj. map_err (not_revision cur) (AsChange obj)) = Inr c"
    and rest: "(c_parents c = [] \<and> out = [] \<and> x = cur) \<or>
      (c_parents c \<noteq> [] \<and> x = cur \<and> history_loop h s (c_parents c ! 0) = Some (Inr out))"
    using Cons.prems by (subst (asm) history_loop.simps)
      (auto simp: rbind_eq_Inr split: sum.splits if_splits Option.bind_splits)
  from keeps_Get [OF k c] rest Cons.IH show ?case
    by (subst history_loop.simps) auto
qed

lemma history_readable: "history_loop h s cur = Some (Inr out) \<Longrightarrow>
    \<exists>c. rbind (Get h s cur) (\<lambda>obj. map_err (not_revision cur) (AsChange obj)) = Inr c"
  by (subst (asm) history_loop.simps) (auto split: sum.splits)

lemma StateAt_mono: "keeps h s s' \<Longrightarrow> StateAt h s v = Inr st \<Longrightarrow> StateAt h s' v = Inr st"
  unfolding StateAt_def by (rule keeps_Get)

lemma Resolve_current: "ValidName n = Inr () \<Longrightarrow> Resolve rs n = Inr v \<longleftrightarrow> current rs n = Some v"
  using resolved_is_current [of n rs] by (auto simp: P2PServe.resolved_def split: sum.splits)

section \<open>Property\<close>


text \<open>A new identity has one revision, its name.\<close>

lemma new_starts:
  assumes "wf_hashes h" "store_ok h (r_objects r)" "refs_sound (r_refs r)" "fits64 state" "fits64 author"
    and "revision_fresh h ge (r_objects r) state [] priv author now"
    and "idc_New h ge clock r prefix state priv author now = (Inr rid, r')"
  shows "store_ok h (r_objects r')" "refs_sound (r_refs r')" "idc_History h r' prefix rid = Some (Inr [rid])"
proof -
  obtain x os where b: "BuildRevision h ge (r_objects r) state [] priv author now = (x, os)" by fastforce
  obtain y rs where c: "CompareAndSwap (r_refs r) clock (idc_Ref prefix rid) None (Some rid) author ''idchain new'' = (y, rs)" by fastforce
  have xy: "x = Inr rid \<and> y = Inr () \<and> r' = r\<lparr>r_objects := os, r_refs := rs\<rparr>"
    using assms(7) b c by (auto simp: idc_New_def Create_def split: sum.splits if_splits prod.splits)
  have "revision_fits state [] author"
    using assms(4,5) length_appendUvarint [of "len64 ([] :: multihash list)"]
    by (simp add: revision_fits_def wf_hash_list_def fits64_def encodeHashList_def sortedUniqueHashes_eq)
  from BuildRevision_ok [OF assms(1,2) this assms(6)] b xy
  obtain o' i where o': "store_ok h os" "Get h os rid = Inr o'" "AsChange o' = Inr (canonical_change (revision state [] author now i))"
    by blast
  from assms(3) c xy have cs: "ValidName (idc_Ref prefix rid) = Inr ()" "current rs = (current (r_refs r))(idc_Ref prefix rid \<mapsto> rid)"
    "refs_sound rs"
    by (cases rule: cas_sound; simp)+
  then have res: "Resolve rs (idc_Ref prefix rid) = Inr rid" by (simp add: Resolve_current)
  have "c_parents (canonical_change (revision state [] author now i)) = []"
    by (simp add: canonical_change_def revision_def sortedUniqueHashes_eq)
  then have "history_loop h os rid = Some (Inr [rid])"
    using o'(2,3) by (simp add: history_loop.simps [of h os rid])
  with res xy cs o' show "store_ok h (r_objects r')" "refs_sound (r_refs r')" "idc_History h r' prefix rid = Some (Inr [rid])"
    by (simp_all add: idc_History_def idc_Head_def)
qed

definition starts_hash :: hash_funs where
  "starts_hash = \<lparr>sha256_sum = (\<lambda>b. take 32 (b @ replicate 32 0)), blake3_sum = (\<lambda>b. take 32 (b @ replicate 32 0))\<rparr>"

definition demo_ge :: process_env where
  "demo_ge = \<lparr>ge_Getenv = (\<lambda>_. []), ge_hashSelf = None\<rparr>"

definition demo_key :: signer where
  "demo_key = \<lparr>sg_public = replicate 32 9, sg_sign = (\<lambda>_. Inr (replicate 64 0))\<rparr>"

abbreviation demo_nodes :: string where "demo_nodes \<equiv> ''refs/varvig/nodes/''"


end
