(* ===== verification/GoRegexp.thy ===== *)
theory GoRegexp
  imports Prelude
begin

text \<open>
  The part of the standard package \<^verbatim>\<open>regexp\<close> the program uses: expressions over bytes with one
  capture group, matched leftmost first, and \<^verbatim>\<open>FindAllStringSubmatch\<close>. A match is what a
  backtracking search finds first, so the matches at a position are listed in the order of
  preference. The expressions in use test only for ASCII characters, so that matching bytes
  instead of runes makes no difference.
\<close>

section \<open>Expressions\<close>

datatype re =
    Eps
  | Cls "char \<Rightarrow> bool"
  | Seq re re
  | Alt re re
  | Star bool re
  | Cap re
  | WordB
  | LineStart

definition word_char :: "char \<Rightarrow> bool" where
  "word_char c = (c \<in> set ''ABCDEFGHIJKLMNOPQRSTUVWXYZabcdefghijklmnopqrstuvwxyz0123456789_'')"

definition re_space :: "char \<Rightarrow> bool" where
  "re_space c = (c \<in> {CHR 0x09, CHR 0x0A, CHR 0x0C, CHR 0x0D, CHR '' ''})"

fun seq_of :: "re list \<Rightarrow> re" where
  "seq_of [] = Eps"
| "seq_of [r] = r"
| "seq_of (r # rs) = Seq r (seq_of rs)"

definition lit :: "string \<Rightarrow> re" where
  "lit s = seq_of (map (\<lambda>c. Cls (\<lambda>d. d = c)) s)"

definition star :: "re \<Rightarrow> re" where "star r = Star True r"
definition lazy :: "re \<Rightarrow> re" where "lazy r = Star False r"
definition plus :: "re \<Rightarrow> re" where "plus r = Seq r (star r)"
definition opt :: "re \<Rightarrow> re" where "opt r = Alt r Eps"

section \<open>Matching\<close>

definition after :: "char option \<Rightarrow> string \<Rightarrow> char option" where
  "after p x = (if x = [] then p else Some (last x))"

definition at_word :: "char option \<Rightarrow> bool" where
  "at_word c = (case c of None \<Rightarrow> False | Some d \<Rightarrow> word_char d)"

definition hd_opt :: "string \<Rightarrow> char option" where
  "hd_opt s = (case s of [] \<Rightarrow> None | c # _ \<Rightarrow> Some c)"

definition then_match :: "string \<times> string option \<Rightarrow> string \<times> string option \<Rightarrow> string \<times> string option" where
  "then_match m n = (fst m @ fst n, if snd n = None then snd m else snd n)"

text \<open>The matches at a position, after the character \<^verbatim>\<open>p\<close>: the text consumed and the group.\<close>

function (sequential) matches :: "re \<Rightarrow> char option \<Rightarrow> string \<Rightarrow> (string \<times> string option) list" where
  "matches Eps p s = [([], None)]"
| "matches (Cls f) p [] = []"
| "matches (Cls f) p (c # s) = (if f c then [([c], None)] else [])"
| "matches (Seq a b) p s =
     concat (map (\<lambda>m. map (then_match m) (matches b (after p (fst m)) (drop (length (fst m)) s))) (matches a p s))"
| "matches (Alt a b) p s = matches a p s @ matches b p s"
| "matches (Star greedy a) p s =
     (let more = concat (map (\<lambda>m. if fst m = [] \<or> s = [] then []
            else map (then_match m) (matches (Star greedy a) (after p (fst m)) (drop (length (fst m)) s))) (matches a p s))
      in if greedy then more @ [([], None)] else ([], None) # more)"
| "matches (Cap a) p s = map (\<lambda>m. (fst m, Some (fst m))) (matches a p s)"
| "matches WordB p s = (if at_word p \<noteq> at_word (hd_opt s) then [([], None)] else [])"
| "matches LineStart p s = (if p = None \<or> p = Some (CHR 0x0A) then [([], None)] else [])"
  by pat_completeness auto
termination
  by (relation "measures [\<lambda>(r, p, s). length s, \<lambda>(r, p, s). size r]") auto

declare matches.simps(6) [simp del]
lemmas matches_Star = matches.simps(6)

text \<open>\<^verbatim>\<open>re.FindAllStringSubmatch(s, -1)\<close>, the group of each match. No expression in use matches
  the empty text.\<close>

definition re_group :: "string option \<Rightarrow> string" where
  "re_group k = (case k of None \<Rightarrow> [] | Some x \<Rightarrow> x)"

function find_all :: "re \<Rightarrow> char option \<Rightarrow> string \<Rightarrow> string list" where
  "find_all r p [] = (case matches r p [] of [] \<Rightarrow> [] | m # _ \<Rightarrow> [re_group (snd m)])"
| "find_all r p (c # s) =
     (case matches r p (c # s) of
        [] \<Rightarrow> find_all r (Some c) s
      | m # _ \<Rightarrow> re_group (snd m) #
          (if fst m = [] then find_all r (Some c) s else find_all r (after p (fst m)) (drop (length (fst m) - 1) s)))"
  by pat_completeness auto
termination
  by (relation "measure (\<lambda>(r, p, s). length s)") auto

definition FindAll :: "re \<Rightarrow> string \<Rightarrow> string list" where
  "FindAll r s = find_all r None s"

text \<open>A match is a prefix of what is left, and a group is a part of the text.\<close>

lemma then_prefix: "has_prefix s (fst x) \<Longrightarrow> has_prefix (drop (length (fst x)) s) (fst y) \<Longrightarrow> has_prefix s (fst (then_match x y))"
  by (auto simp: has_prefix_iff then_match_def)

lemma matches_prefix: "m \<in> set (matches r p s) \<Longrightarrow> has_prefix s (fst m)"
proof (induction r p s arbitrary: m rule: matches.induct)
  case (4 a b p s)
  then obtain x y where xy: "x \<in> set (matches a p s)" "y \<in> set (matches b (after p (fst x)) (drop (length (fst x)) s))"
    "m = then_match x y" by auto
  from 4 xy have "has_prefix s (fst x)" "has_prefix (drop (length (fst x)) s) (fst y)" by blast+
  then show ?case unfolding xy(3) by (rule then_prefix)
next
  case (6 greedy a p s)
  show ?case
  proof (cases "fst m = []")
    case False
    with 6(3) obtain x y where xy: "x \<in> set (matches a p s)" "\<not> (fst x = [] \<or> s = [])"
      "y \<in> set (matches (Star greedy a) (after p (fst x)) (drop (length (fst x)) s))" "m = then_match x y"
      by (auto simp: matches_Star [of greedy a p s] Let_def split: if_splits)
    have "has_prefix s (fst x)" by (rule 6(1) [OF xy(1)])
    moreover have "has_prefix (drop (length (fst x)) s) (fst y)" by (rule 6(2) [OF xy(1,2,3)])
    ultimately show ?thesis unfolding xy(4) by (rule then_prefix)
  qed (simp add: has_prefix_def)
next
  case (5 a b p s)
  then show ?case unfolding matches.simps set_append by blast
next
  case (7 a p s)
  then show ?case by auto
qed (auto simp: has_prefix_iff split: if_splits)

end
