(* ===== verification/Imports.thy ===== *)
theory Imports
  imports GoRegexp GoPath Strconv ObjStore
begin

text \<open>
  \<^verbatim>\<open>internal/affected/analyze.go\<close> and \<^verbatim>\<open>wasmanalyze.go\<close>: the references a file makes to others,
  by language, and \<^verbatim>\<open>resolve.go\<close>: the files of the repository a reference means. A wasm analyzer
  is a parameter: the function from its module and the JSON of path and content to its output,
  taken here as a function of path and content. Lower case is that of ASCII letters.
\<close>

section \<open>References\<close>

record specifier =
  sp_Kind :: string
  sp_Value :: string

definition SpecPath :: string where "SpecPath = ''path''"
definition SpecPackage :: string where "SpecPackage = ''package''"

definition tab_char :: char where "tab_char = CHR 0x09"

definition sp_encode :: "specifier \<Rightarrow> string" where
  "sp_encode s = sp_Kind s @ tab_char # sp_Value s"

definition decodeSpecifier :: "string \<Rightarrow> specifier option" where
  "decodeSpecifier s =
     (if tab_char \<in> set s
      then Some \<lparr>sp_Kind = takeWhile (\<lambda>c. c \<noteq> tab_char) s, sp_Value = tl (dropWhile (\<lambda>c. c \<noteq> tab_char) s)\<rparr>
      else None)"

definition path_spec :: "string \<Rightarrow> specifier" where
  "path_spec v = \<lparr>sp_Kind = SpecPath, sp_Value = v\<rparr>"

definition package_spec :: "string \<Rightarrow> specifier" where
  "package_spec v = \<lparr>sp_Kind = SpecPackage, sp_Value = v\<rparr>"

definition lower_char :: "char \<Rightarrow> char" where
  "lower_char c = (let n = of_char c :: nat in if 65 \<le> n \<and> n \<le> 90 then char_of (n + 32) else c)"

definition ToLower :: "string \<Rightarrow> string" where
  "ToLower s = map lower_char s"

definition hasExt :: "string list \<Rightarrow> string \<Rightarrow> bool" where
  "hasExt exts p = (ToLower (path_Ext p) \<in> set exts)"

section \<open>The expressions\<close>

definition ws :: re where "ws = Cls re_space"
definition quote :: re where "quote = Cls (\<lambda>c. c = CHR 0x22 \<or> c = CHR 0x27)"
definition dquote :: re where "dquote = Cls (\<lambda>c. c = CHR 0x22)"
definition unquoted :: re where "unquoted = Cap (plus (Cls (\<lambda>c. c \<noteq> CHR 0x22 \<and> c \<noteq> CHR 0x27)))"
definition not_dquoted :: re where "not_dquoted = Cap (plus (Cls (\<lambda>c. c \<noteq> CHR 0x22)))"
definition word_dot :: "char \<Rightarrow> bool" where "word_dot c = (word_char c \<or> c = CHR ''.'')"

definition reFrom :: re where
  "reFrom = seq_of [Alt (lit ''import'') (lit ''export''), WordB, lazy (Cls (\<lambda>c. c \<noteq> CHR '';'' \<and> c \<noteq> CHR 0x0A)),
     WordB, lit ''from'', star ws, quote, unquoted, quote]"

definition reBare :: re where
  "reBare = seq_of [WordB, lit ''import'', star ws, quote, unquoted, quote]"

definition reRequire :: re where
  "reRequire = seq_of [WordB, lit ''require('', star ws, quote, unquoted, quote, star ws, lit '')'']"

definition reDynamic :: re where
  "reDynamic = seq_of [WordB, lit ''import('', star ws, quote, unquoted, quote, star ws, lit '')'']"

definition reInclude :: re where
  "reInclude = seq_of [LineStart, star ws, lit ''#'', star ws, lit ''include'', star ws, dquote, not_dquoted, dquote]"

definition rePyFrom :: re where
  "rePyFrom = seq_of [LineStart, star ws, lit ''from'', plus ws,
     Cap (Seq (plus (lit ''.'')) (star (Cls word_dot))), plus ws, lit ''import'', WordB]"

definition reGoSingle :: re where
  "reGoSingle = seq_of [LineStart, star ws, lit ''import'', plus ws,
     opt (Alt (Seq (plus (Cls word_dot)) (plus ws)) (Alt (Seq (lit ''_'') (plus ws)) (Seq (lit ''.'') (plus ws)))),
     dquote, not_dquoted, dquote]"

definition reGoBlock :: re where
  "reGoBlock = seq_of [lit ''import'', star ws, lit ''('', Cap (star (Cls (\<lambda>c. c \<noteq> CHR '')''))), lit '')'']"

definition reGoQuoted :: re where
  "reGoQuoted = seq_of [dquote, not_dquoted, dquote]"

section \<open>Analyzers\<close>

text \<open>\<^verbatim>\<open>strings.Repeat\<close> panics on a negative count.\<close>

definition pyRelativeToPath :: "string \<Rightarrow> goerr + string" where
  "pyRelativeToPath spec =
     (let n = length (takeWhile (\<lambda>c. c = CHR ''.'') spec);
          rest = replace_char (CHR ''.'') (CHR ''/'') (drop n spec)
      in if n = 0 then Inl (Panic ''strings: negative Repeat count'')
         else
           (let up = concat (replicate (n - 1) ''../'') in
            Inr ((if up = [] then ''./'' else up) @ rest)))"

definition add_import :: "specifier list \<Rightarrow> string \<Rightarrow> specifier list" where
  "add_import out p = (if p \<noteq> [] \<and> package_spec p \<notin> set out then out @ [package_spec p] else out)"

definition goImports :: "string \<Rightarrow> specifier list" where
  "goImports s =
     (let out = foldl add_import [] (FindAll reGoSingle s) in
      foldl (\<lambda>out blk. foldl add_import out (FindAll reGoQuoted blk)) out (FindAll reGoBlock s))"

definition js_extract :: "string \<Rightarrow> goerr + specifier list" where
  "js_extract s = Inr (concat (map (\<lambda>re. map path_spec (FindAll re s)) [reFrom, reBare, reRequire, reDynamic]))"

definition c_extract :: "string \<Rightarrow> goerr + specifier list" where
  "c_extract s = Inr (map path_spec (FindAll reInclude s))"

fun py_specs :: "string list \<Rightarrow> goerr + specifier list" where
  "py_specs [] = Inr []"
| "py_specs (m # ms) = rbind (pyRelativeToPath m) (\<lambda>v. rbind (py_specs ms) (\<lambda>vs. Inr (path_spec v # vs)))"

definition py_extract :: "string \<Rightarrow> goerr + specifier list" where
  "py_extract s = py_specs (FindAll rePyFrom s)"

definition go_extract :: "string \<Rightarrow> goerr + specifier list" where
  "go_extract s = Inr (goImports s)"

definition analyzers :: "((string \<Rightarrow> bool) \<times> (string \<Rightarrow> goerr + specifier list)) list" where
  "analyzers =
     [(hasExt [''.js'', ''.jsx'', ''.ts'', ''.tsx'', ''.mjs'', ''.cjs''], js_extract),
      (hasExt [''.c'', ''.h'', ''.cc'', ''.cpp'', ''.hpp'', ''.cxx'', ''.hxx''], c_extract),
      (hasExt [''.py''], py_extract),
      (hasExt [''.go''], go_extract)]"

definition BuiltinCovers :: "string \<Rightarrow> bool" where
  "BuiltinCovers p = list_ex (\<lambda>a. fst a p) analyzers"

definition extractBuiltin :: "string \<Rightarrow> byte list \<Rightarrow> goerr + specifier list" where
  "extractBuiltin p content =
     (case find (\<lambda>a. fst a p) analyzers of None \<Rightarrow> Inr [] | Some a \<Rightarrow> snd a (string_of content))"

section \<open>Wasm analyzers\<close>

record wasm_analyzer =
  wa_Ext :: string
  wa_Module :: "byte list"
  wa_ID :: multihash
  wa_Run :: "byte list \<Rightarrow> string \<Rightarrow> byte list \<Rightarrow> goerr + byte list"

definition parse_wasm_line :: "string \<Rightarrow> specifier list" where
  "parse_wasm_line line =
     (let line = trim_space line in
      if line = [] then []
      else if has_prefix line ''package '' then [package_spec (trim_space (drop 8 line))]
      else [path_spec line])"

definition parseWasmSpecs :: "byte list \<Rightarrow> specifier list" where
  "parseWasmSpecs out = concat (map parse_wasm_line (split_on newline (string_of out)))"

definition blob_content :: "obj \<Rightarrow> byte list" where
  "blob_content obj = bytes_or_nil (BlobContent obj)"

definition runWasmAnalyzer :: "hash_funs \<Rightarrow> objstore \<Rightarrow> string \<Rightarrow> multihash \<Rightarrow> wasm_analyzer \<Rightarrow> goerr + specifier list" where
  "runWasmAnalyzer h s p blobID wa =
     rbind (Get h s blobID) (\<lambda>obj.
     rbind (wa_Run wa (wa_Module wa) p (blob_content obj)) (\<lambda>out.
     Inr (parseWasmSpecs out)))"

section \<open>Resolution\<close>

record repo_context =
  rc_Paths :: "string list"
  rc_GoModule :: string

definition candidateExts :: "string list" where
  "candidateExts = ['''', ''.ts'', ''.tsx'', ''.js'', ''.jsx'', ''.mjs'', ''.cjs'',
     ''.py'', ''.rb'', ''.h'', ''.hpp'', ''.hxx'', ''.c'', ''.cc'', ''.cpp'', ''.cxx'']"

definition resolve_base :: "string \<Rightarrow> string \<Rightarrow> string" where
  "resolve_base importer spec =
     path_Clean
       (if has_prefix spec ''./'' \<or> has_prefix spec ''../'' then path_Join (path_Dir importer) spec
        else if has_prefix spec ''/'' then drop 1 spec
        else spec)"

definition resolvePath :: "string \<Rightarrow> string \<Rightarrow> string list \<Rightarrow> string option" where
  "resolvePath importer spec pathset =
     (let base = resolve_base importer spec in
      case find (\<lambda>cand. cand \<in> set pathset) (map (\<lambda>ext. base @ ext) candidateExts) of
        Some cand \<Rightarrow> Some cand
      | None \<Rightarrow> find (\<lambda>cand. cand \<in> set pathset) (map (\<lambda>ext. path_Clean (base @ ''/index'' @ ext)) (tl candidateExts)))"

definition pkgDir :: "string \<Rightarrow> string" where
  "pkgDir p = (if CHR ''/'' \<in> set p then butlast (dir_part p) else [])"

definition resolvePackage :: "string \<Rightarrow> repo_context \<Rightarrow> string list" where
  "resolvePackage importPath ctx =
     (if rc_GoModule ctx = [] then []
      else
        (let dir = (if importPath = rc_GoModule ctx then Some []
                    else if has_prefix importPath (rc_GoModule ctx @ ''/'')
                    then Some (drop (length (rc_GoModule ctx) + 1) importPath)
                    else None)
         in case dir of
              None \<Rightarrow> []
            | Some dir \<Rightarrow> filter (\<lambda>p. has_suffix p ''.go'' \<and> pkgDir p = dir) (rc_Paths ctx)))"

definition resolveSpecifier :: "string \<Rightarrow> specifier \<Rightarrow> repo_context \<Rightarrow> string list" where
  "resolveSpecifier importer spec ctx =
     (if sp_Kind spec = SpecPackage then resolvePackage (sp_Value spec) ctx
      else (case resolvePath importer (sp_Value spec) (rc_Paths ctx) of Some p \<Rightarrow> [p] | None \<Rightarrow> []))"

section \<open>Facts\<close>

text \<open>The extractor of Python never repeats a negative number of times: the group of its
  expression starts with a dot.\<close>

fun no_group :: "re \<Rightarrow> bool" where
  "no_group (Seq a b) = (no_group a \<and> no_group b)"
| "no_group (Alt a b) = (no_group a \<and> no_group b)"
| "no_group (Star g a) = no_group a"
| "no_group (Cap a) = False"
| "no_group _ = True"

lemma no_group_None: "no_group r \<Longrightarrow> m \<in> set (matches r p s) \<Longrightarrow> snd m = None"
proof (induction r p s arbitrary: m rule: matches.induct)
  case (4 a b p s)
  then show ?case by (fastforce simp: then_match_def)
next
  case (5 a b p s)
  then show ?case by fastforce
next
  case (6 greedy a p s)
  show ?case
  proof (cases "m = ([], None)")
    case False
    with 6(4) obtain x y where xy: "x \<in> set (matches a p s)" "\<not> (fst x = [] \<or> s = [])"
      "y \<in> set (matches (Star greedy a) (after p (fst x)) (drop (length (fst x)) s))" "m = then_match x y"
      by (auto simp: matches_Star [of greedy a p s] Let_def split: if_splits)
    have "snd x = None" by (rule 6(1)) (use 6(3) xy in simp_all)
    moreover have "snd y = None" by (rule 6(2) [OF xy(1,2) 6(3) xy(3)])
    ultimately show ?thesis unfolding xy(4) then_match_def by simp
  qed simp
qed (auto split: if_splits)

lemma FindAll_groups: "g \<in> set (find_all r p s) \<Longrightarrow> \<exists>p s m. m \<in> set (matches r p s) \<and> g = re_group (snd m)"
proof (induction r p s rule: find_all.induct)
  case (1 r p)
  then show ?case by (cases "matches r p []") (auto, metis list.set_intros(1) snd_conv)
next
  case (2 r p c s)
  show ?case
  proof (cases "matches r p (c # s)")
    case (Cons m ms)
    then have m: "m \<in> set (matches r p (c # s))" by simp
    consider "g = re_group (snd m)" | "fst m = []" "g \<in> set (find_all r (Some c) s)"
      | "fst m \<noteq> []" "g \<in> set (find_all r (after p (fst m)) (drop (length (fst m) - 1) s))"
      using 2(4) Cons by (auto split: if_splits)
    then show ?thesis
    proof cases
      case 1
      with m show ?thesis by blast
    next
      case a: 2
      from 2(2) [OF Cons a] show ?thesis .
    next
      case a: 3
      from 2(3) [OF Cons a] show ?thesis .
    qed
  qed (use 2 in auto)
qed

lemma py_group:
  assumes "m \<in> set (matches rePyFrom p s)"
  shows "\<exists>t. re_group (snd m) = CHR ''.'' # t"
proof -
  have seq: "\<exists>x y p' s'. x \<in> set (matches a p s) \<and> y \<in> set (matches b p' s') \<and> m = then_match x y"
    if "m \<in> set (matches (Seq a b) p s)" for a b p s m
  proof -
    from that obtain x y where "x \<in> set (matches a p s)" "m = then_match x y"
      "y \<in> set (matches b (after p (fst x)) (drop (length (fst x)) s))" by auto
    then show ?thesis by blast
  qed
  have skip: "\<exists>p' s' y. y \<in> set (matches b p' s') \<and> snd m = snd y" if "m \<in> set (matches (Seq a b) p s)" "no_group a" for a b p s m
    using seq [OF that(1)] no_group_None [OF that(2)] by (fastforce simp: then_match_def)
  have ng: "no_group LineStart" "no_group (star ws)" "no_group (lit ''from'')" "no_group (plus ws)"
    by (simp_all add: star_def ws_def lit_def plus_def)
  let ?cap = "Cap (Seq (plus (lit ''.'')) (star (Cls word_dot)))"
  have "\<exists>p' s' y. y \<in> set (matches (Seq ?cap (seq_of [plus ws, lit ''import'', WordB])) p' s') \<and> snd m = snd y"
    using assms unfolding rePyFrom_def seq_of.simps by (metis skip ng)
  then obtain y p' s' where y: "y \<in> set (matches (Seq ?cap (seq_of [plus ws, lit ''import'', WordB])) p' s')" "snd m = snd y"
    by blast
  from seq [OF y(1)] obtain u v p2 s2 where uv: "u \<in> set (matches ?cap p' s')"
    "v \<in> set (matches (seq_of [plus ws, lit ''import'', WordB]) p2 s2)" "y = then_match u v" by blast
  have "snd v = None" using no_group_None [OF _ uv(2)] by (simp add: ng lit_def)
  with y(2) uv have "snd m = Some (fst u)" by (auto simp: then_match_def)
  moreover have "\<exists>t. fst u = CHR ''.'' # t"
    using uv(1) by (cases s') (auto simp: plus_def lit_def then_match_def split: if_splits)
  ultimately show ?thesis by (auto simp: re_group_def)
qed

lemma extractBuiltin_total: "\<exists>specs. extractBuiltin p content = Inr specs"
proof -
  have "\<exists>v. pyRelativeToPath g = Inr v" if g: "g \<in> set (FindAll rePyFrom s)" for g s
  proof -
    obtain p' s' m where m: "m \<in> set (matches rePyFrom p' s')" "g = re_group (snd m)"
      using FindAll_groups [OF g [unfolded FindAll_def]] by blast
    with py_group [OF m(1)] obtain t where "g = CHR ''.'' # t" by auto
    then show ?thesis by (simp add: pyRelativeToPath_def)
  qed
  then have "\<forall>g \<in> set gs. \<exists>v. pyRelativeToPath g = Inr v \<Longrightarrow> \<exists>vs. py_specs gs = Inr vs" for gs
    by (induction gs) auto
  with \<open>\<And>g s. g \<in> set (FindAll rePyFrom s) \<Longrightarrow> \<exists>v. pyRelativeToPath g = Inr v\<close>
  have "\<exists>vs. py_extract s = Inr vs" for s unfolding py_extract_def by blast
  then show ?thesis
    by (auto simp: extractBuiltin_def analyzers_def js_extract_def c_extract_def go_extract_def)
qed

text \<open>The built-in references are of the two kinds, which contain no tab.\<close>

definition spec_ok :: "specifier \<Rightarrow> bool" where
  "spec_ok s \<longleftrightarrow> sp_Kind s = SpecPath \<or> sp_Kind s = SpecPackage"

lemma spec_decode_encode: "spec_ok s \<Longrightarrow> decodeSpecifier (sp_encode s) = Some s"
  by (cases s) (auto simp: spec_ok_def decodeSpecifier_def sp_encode_def SpecPath_def SpecPackage_def tab_char_def)

lemma resolvePath_in: "resolvePath importer v paths = Some q \<Longrightarrow> q \<in> set paths"
  by (auto simp: resolvePath_def Let_def find_Some_iff split: option.splits)

lemma resolve_in_paths: "q \<in> set (resolveSpecifier p spec ctx) \<Longrightarrow> q \<in> set (rc_Paths ctx)"
  by (auto simp: resolveSpecifier_def resolvePackage_def Let_def dest: resolvePath_in [OF sym]
      split: if_splits option.splits)

end
