(* ===== verification/DepGraph.thy ===== *)
theory DepGraph
  imports DiffTree Imports
begin

text \<open>
  \<^verbatim>\<open>internal/affected/graph.go\<close> and \<^verbatim>\<open>cache.go\<close>: the file-dependency graph of a tree, built from what each
  file refers to, and what a change affects. The caches are threaded through; writing a cache
  file may fail (\<^verbatim>\<open>writable\<close>). The bytes of the running executable are a parameter.
\<close>

section \<open>Caches of references\<close>

datatype spec_cache =
    NoCache
  | MemCache "(string \<times> string list) list"
  | DiskCache "string \<Rightarrow> bool" "(string \<times> string) list"

definition dc_path :: "multihash \<Rightarrow> string" where
  "dc_path k = take 2 (Hex k) @ ''/'' @ drop 2 (Hex k)"

definition dc_max_token :: nat where
  "dc_max_token = 64 * 1024"

text \<open>A \<^verbatim>\<open>bufio.Scanner\<close> whose error nobody asks for: lines until one is too long.\<close>

fun scan_specs :: "string list \<Rightarrow> string list" where
  "scan_specs [] = []"
| "scan_specs (l # ls) =
     (if length l \<ge> dc_max_token then []
      else if drop_cr l = [] then scan_specs ls else drop_cr l # scan_specs ls)"

definition cache_Get :: "spec_cache \<Rightarrow> multihash \<Rightarrow> string list option" where
  "cache_Get c k =
     (case c of
        NoCache \<Rightarrow> None
      | MemCache m \<Rightarrow> map_of m (Hex k)
      | DiskCache writable files \<Rightarrow> map_option (\<lambda>content. scan_specs (raw_lines content)) (map_of files (dc_path k)))"

definition cache_Put :: "spec_cache \<Rightarrow> multihash \<Rightarrow> string list \<Rightarrow> spec_cache" where
  "cache_Put c k specs =
     (case c of
        NoCache \<Rightarrow> NoCache
      | MemCache m \<Rightarrow> MemCache (AList.update (Hex k) specs m)
      | DiskCache writable files \<Rightarrow>
          if writable (dc_path k) then DiskCache writable (AList.update (dc_path k) (join_with [newline] specs) files)
          else DiskCache writable files)"

definition encodeSpecs :: "specifier list \<Rightarrow> string list" where
  "encodeSpecs specs = map sp_encode specs"

definition decodeSpecs :: "string list \<Rightarrow> specifier list" where
  "decodeSpecs enc = List.map_filter decodeSpecifier enc"

section \<open>The references of a file\<close>

definition combinedKey :: "hash_funs \<Rightarrow> multihash list \<Rightarrow> multihash" where
  "combinedKey h parts = (case Sum h BLAKE3 (concat parts) of Inl _ \<Rightarrow> [] | Inr k \<Rightarrow> k)"

definition unknownExtractor :: "hash_funs \<Rightarrow> multihash" where
  "unknownExtractor h =
     (case Sum h BLAKE3 (bytes_of ''varvig:extractor:unidentified'') of Inl _ \<Rightarrow> [] | Inr i \<Rightarrow> i)"

definition extractorID :: "hash_funs \<Rightarrow> byte list option \<Rightarrow> multihash" where
  "extractorID h exe =
     (case exe of
        None \<Rightarrow> unknownExtractor h
      | Some data \<Rightarrow> (case Sum h BLAKE3 data of Inl _ \<Rightarrow> unknownExtractor h | Inr i \<Rightarrow> i))"

definition pathExt :: "string \<Rightarrow> string" where
  "pathExt p =
     (case from_last_dot p of
        None \<Rightarrow> []
      | Some e \<Rightarrow> if CHR ''/'' \<in> set e then [] else e)"

definition analyzer_for :: "(string \<times> wasm_analyzer) list \<Rightarrow> string \<Rightarrow> wasm_analyzer option" where
  "analyzer_for wasmByExt p = map_of wasmByExt (ToLower (pathExt p))"

definition spec_key :: "hash_funs \<Rightarrow> byte list option \<Rightarrow> (string \<times> wasm_analyzer) list \<Rightarrow> string \<Rightarrow> multihash \<Rightarrow> multihash" where
  "spec_key h exe wasmByExt p blobID =
     (case analyzer_for wasmByExt p of
        None \<Rightarrow> combinedKey h [blobID, extractorID h exe]
      | Some wa \<Rightarrow> combinedKey h [blobID, wa_ID wa, extractorID h exe])"

definition analyze_file :: "hash_funs \<Rightarrow> objstore \<Rightarrow> (string \<times> wasm_analyzer) list \<Rightarrow> string \<Rightarrow> multihash
    \<Rightarrow> goerr + specifier list" where
  "analyze_file h s wasmByExt p blobID =
     (case analyzer_for wasmByExt p of
        Some wa \<Rightarrow> runWasmAnalyzer h s p blobID wa
      | None \<Rightarrow> rbind (Get h s blobID) (\<lambda>obj. extractBuiltin p (blob_content obj)))"

definition specifiersFor :: "hash_funs \<Rightarrow> byte list option \<Rightarrow> objstore \<Rightarrow> (string \<times> wasm_analyzer) list \<Rightarrow> string \<Rightarrow> multihash
    \<Rightarrow> spec_cache \<Rightarrow> (goerr + specifier list) \<times> spec_cache" where
  "specifiersFor h exe s wasmByExt p blobID cache =
     (let key = spec_key h exe wasmByExt p blobID in
      case cache_Get cache key of
        Some enc \<Rightarrow> (Inr (decodeSpecs enc), cache)
      | None \<Rightarrow>
          (case analyze_file h s wasmByExt p blobID of
             Inl e \<Rightarrow> (Inl e, cache)
           | Inr specs \<Rightarrow> (Inr specs, cache_Put cache key (encodeSpecs specs))))"

section \<open>The graph\<close>

record dep_graph =
  g_Files :: id_files
  g_deps :: "(string \<times> string list) list"
  g_dependents :: "(string \<times> string list) list"

record graph_options =
  go_Cache :: spec_cache
  go_GoModule :: string
  go_Wasm :: "wasm_analyzer list"

definition listed :: "(string \<times> string list) list \<Rightarrow> string \<Rightarrow> string list" where
  "listed m k = (case map_of m k of None \<Rightarrow> [] | Some l \<Rightarrow> l)"

definition append_at :: "string \<Rightarrow> string \<Rightarrow> (string \<times> string list) list \<Rightarrow> (string \<times> string list) list" where
  "append_at k v m = AList.update k (listed m k @ [v]) m"

definition add_edge :: "string \<Rightarrow> string list \<times> dep_graph \<Rightarrow> string \<Rightarrow> string list \<times> dep_graph" where
  "add_edge p st target =
     (let (seen, g) = st in
      if target = p \<or> target \<in> set seen then (seen, g)
      else (target # seen, g\<lparr>g_deps := append_at p target (g_deps g), g_dependents := append_at target p (g_dependents g)\<rparr>))"

definition add_edges :: "repo_context \<Rightarrow> string \<Rightarrow> specifier list \<Rightarrow> dep_graph \<Rightarrow> dep_graph" where
  "add_edges ctx p specs g =
     snd (foldl (\<lambda>st spec. foldl (add_edge p) st (resolveSpecifier p spec ctx)) ([], g) specs)"

fun graph_loop :: "hash_funs \<Rightarrow> byte list option \<Rightarrow> objstore \<Rightarrow> (string \<times> wasm_analyzer) list \<Rightarrow> repo_context \<Rightarrow> id_files
    \<Rightarrow> dep_graph \<Rightarrow> spec_cache \<Rightarrow> (goerr + dep_graph) \<times> spec_cache" where
  "graph_loop h exe s wasmByExt ctx [] g cache = (Inr g, cache)"
| "graph_loop h exe s wasmByExt ctx ((p, blobID) # files) g cache =
     (case specifiersFor h exe s wasmByExt p blobID cache of
        (Inl e, cache) \<Rightarrow> (Inl e, cache)
      | (Inr specs, cache) \<Rightarrow> graph_loop h exe s wasmByExt ctx files (add_edges ctx p specs g) cache)"

definition module_line :: "string \<Rightarrow> string option" where
  "module_line line =
     (let line = trim_space line in
      if has_prefix line ''module '' then Some (trim_space (drop 7 line)) else None)"

definition detectGoModule :: "hash_funs \<Rightarrow> objstore \<Rightarrow> id_files \<Rightarrow> string" where
  "detectGoModule h s files =
     (case map_of files ''go.mod'' of
        None \<Rightarrow> []
      | Some i \<Rightarrow>
          (case Get h s i of
             Inl _ \<Rightarrow> []
           | Inr obj \<Rightarrow>
               (case List.map_filter module_line (split_on newline (string_of (blob_content obj))) of
                  [] \<Rightarrow> []
                | m # _ \<Rightarrow> m)))"

definition wasm_by_ext :: "wasm_analyzer list \<Rightarrow> (string \<times> wasm_analyzer) list" where
  "wasm_by_ext was = foldl (\<lambda>m wa. AList.update (ToLower (wa_Ext wa)) wa m) [] was"

definition graph_context :: "hash_funs \<Rightarrow> objstore \<Rightarrow> graph_options \<Rightarrow> id_files \<Rightarrow> repo_context" where
  "graph_context h s opts files =
     \<lparr>rc_Paths = map fst files,
      rc_GoModule = (if go_GoModule opts = [] then detectGoModule h s files else go_GoModule opts)\<rparr>"

definition BuildGraph :: "nat \<Rightarrow> hash_funs \<Rightarrow> byte list option \<Rightarrow> objstore \<Rightarrow> multihash option \<Rightarrow> graph_options
    \<Rightarrow> (goerr + dep_graph) \<times> spec_cache" where
  "BuildGraph stk h exe s treeID opts =
     (case FlattenTree stk h s treeID of
        Inl e \<Rightarrow> (Inl e, go_Cache opts)
      | Inr files \<Rightarrow>
          (case graph_loop h exe s (wasm_by_ext (go_Wasm opts)) (graph_context h s opts files) files
                  \<lparr>g_Files = files, g_deps = [], g_dependents = []\<rparr> (go_Cache opts) of
             (Inl e, cache) \<Rightarrow> (Inl e, cache)
           | (Inr g, cache) \<Rightarrow>
               (Inr (g\<lparr>g_deps := map (\<lambda>(k, v). (k, sort v)) (g_deps g),
                       g_dependents := map (\<lambda>(k, v). (k, sort v)) (g_dependents g)\<rparr>), cache)))"

definition Dependents :: "dep_graph \<Rightarrow> string \<Rightarrow> string list" where
  "Dependents g p = listed (g_dependents g) p"

definition g_Deps :: "dep_graph \<Rightarrow> string \<Rightarrow> string list" where
  "g_Deps g p = listed (g_deps g) p"

section \<open>What a change affects\<close>

definition visit :: "string list \<times> string list \<Rightarrow> string \<Rightarrow> string list \<times> string list" where
  "visit st c = (if c \<in> set (fst st) then st else (c # fst st, snd st @ [c]))"

definition dependents_of :: "dep_graph \<Rightarrow> string set" where
  "dependents_of g = (\<Union>l \<in> snd ` set (g_dependents g). set l)"

lemma Dependents_in: "set (Dependents g p) \<subseteq> dependents_of g"
proof (cases "map_of (g_dependents g) p")
  case (Some l)
  then have "(p, l) \<in> set (g_dependents g)" by (rule map_of_SomeD)
  with Some show ?thesis by (force simp: Dependents_def listed_def dependents_of_def)
qed (simp add: Dependents_def listed_def)

lemma finite_dependents [simp]: "finite (dependents_of g)"
  by (simp add: dependents_of_def)

lemma visit_weight:
  "finite U \<Longrightarrow> set xs \<subseteq> U \<Longrightarrow> (case foldl visit st xs of (seen, queue) \<Rightarrow> 2 * card (U - set seen) + length queue)
    \<le> 2 * card (U - set (fst st)) + length (snd st)"
proof (induction xs arbitrary: st)
  case Nil
  then show ?case by (cases st) simp
next
  case (Cons x xs)
  have "2 * card (U - set (fst (visit st x))) + length (snd (visit st x)) \<le> 2 * card (U - set (fst st)) + length (snd st)"
  proof (cases "x \<in> set (fst st)")
    case False
    then have "U - set (fst (visit st x)) = (U - set (fst st)) - {x}" by (auto simp: visit_def)
    moreover have "x \<in> U - set (fst st)" using False Cons.prems(2) by simp
    then have "card (U - set (fst st)) = Suc (card ((U - set (fst st)) - {x}))"
      using Cons.prems(1) by (metis card_Suc_Diff1 finite_Diff)
    ultimately show ?thesis using False by (simp add: visit_def)
  qed (simp add: visit_def)
  moreover have "(case foldl visit (visit st x) xs of (seen, queue) \<Rightarrow> 2 * card (U - set seen) + length queue)
      \<le> 2 * card (U - set (fst (visit st x))) + length (snd (visit st x))"
    by (rule Cons.IH) (use Cons.prems in auto)
  ultimately show ?case unfolding foldl.simps by (rule order_trans [rotated])
qed

function affected_loop :: "dep_graph \<Rightarrow> string list \<Rightarrow> string list \<Rightarrow> string list" where
  "affected_loop g seen queue =
     (if queue = [] then seen
      else (case foldl visit (seen, butlast queue) (Dependents g (last queue)) of
              (seen, queue) \<Rightarrow> affected_loop g seen queue))"
  by pat_completeness auto
termination
proof (relation "measure (\<lambda>(g, seen, queue). 2 * card (dependents_of g - set seen) + length queue)", goal_cases)
  case (2 g seen queue st seen')
  have "(case foldl visit (seen, butlast queue) (Dependents g (last queue)) of
      (seen, queue) \<Rightarrow> 2 * card (dependents_of g - set seen) + length queue)
    \<le> 2 * card (dependents_of g - set seen) + length (butlast queue)"
    using visit_weight [OF finite_dependents Dependents_in, where st = "(seen, butlast queue)"] by simp
  with 2 show ?case by (cases queue) auto
qed simp

declare affected_loop.simps [simp del]

definition Affected :: "dep_graph \<Rightarrow> string list \<Rightarrow> string list" where
  "Affected g changed =
     (case foldl visit ([], []) changed of (seen, queue) \<Rightarrow> sort (affected_loop g seen queue))"

section \<open>Closure\<close>

definition dep_rel :: "dep_graph \<Rightarrow> (string \<times> string) set" where
  "dep_rel g = {(q, p). p \<in> set (Dependents g q)}"

lemma visit_cases:
  "c \<in> set seen \<Longrightarrow> visit (seen, queue) c = (seen, queue)"
  "c \<notin> set seen \<Longrightarrow> visit (seen, queue) c = (c # seen, queue @ [c])"
  by (simp_all add: visit_def)

lemma visit_all:
  "foldl visit (seen, queue) xs = (seen', queue') \<Longrightarrow> distinct seen \<Longrightarrow>
   set seen' = set seen \<union> set xs \<and> set queue' = set queue \<union> (set xs - set seen) \<and> distinct seen'"
proof (induction xs arbitrary: seen queue)
  case (Cons x xs)
  show ?case
  proof (cases "x \<in> set seen")
    case True
    with Cons.prems have "foldl visit (seen, queue) xs = (seen', queue')" by (simp add: visit_cases)
    with Cons.IH Cons.prems(2) True show ?thesis by (simp add: insert_absorb insert_Diff_if)
  next
    case False
    with Cons.prems have "foldl visit (x # seen, queue @ [x]) xs = (seen', queue')" by (simp add: visit_cases)
    from Cons.IH [OF this] Cons.prems(2) False show ?thesis by auto
  qed
qed simp

lemma affected_loop_closure:
  "set queue \<subseteq> set seen \<Longrightarrow> distinct seen \<Longrightarrow>
   (\<And>x. x \<in> set seen \<Longrightarrow> x \<notin> set queue \<Longrightarrow> set (Dependents g x) \<subseteq> set seen) \<Longrightarrow>
   set (affected_loop g seen queue) = (dep_rel g)\<^sup>* `` set seen \<and> distinct (affected_loop g seen queue)"
proof (induction g seen queue rule: affected_loop.induct)
  case (1 g seen queue)
  show ?case
  proof (cases "queue = []")
    case True
    with 1(4) have "dep_rel g `` set seen \<subseteq> set seen" by (auto simp: dep_rel_def)
    then have "(dep_rel g)\<^sup>* `` set seen = set seen" by (metis Image_closed_trancl)
    with True 1(3) show ?thesis by (simp add: affected_loop.simps)
  next
    case False
    let ?x = "last queue"
    obtain seen' queue' where v: "foldl visit (seen, butlast queue) (Dependents g ?x) = (seen', queue')" by fastforce
    from visit_all [OF v 1(3)] have s': "set seen' = set seen \<union> set (Dependents g ?x)"
      and q': "set queue' = set (butlast queue) \<union> (set (Dependents g ?x) - set seen)" and d: "distinct seen'" by simp_all
    have x: "?x \<in> set seen" using False 1(2) by auto
    have queue: "set queue = insert ?x (set (butlast queue))" using False by (metis append_butlast_last_id list.simps(15) rotate1.simps(2) set_rotate1)
    have "set (affected_loop g seen' queue') = (dep_rel g)\<^sup>* `` set seen' \<and> distinct (affected_loop g seen' queue')"
    proof (rule 1(1) [OF False v [symmetric] _ d])
      show "set queue' \<subseteq> set seen'" using q' s' queue 1(2) by auto
      fix y assume y: "y \<in> set seen'" "y \<notin> set queue'"
      then have "y \<in> set seen" using s' q' by auto
      with y 1(4) [of y] queue q' s' show "set (Dependents g y) \<subseteq> set seen'" by auto
    qed
    moreover have "(dep_rel g)\<^sup>* `` set seen' = (dep_rel g)\<^sup>* `` set seen"
    proof -
      have "set (Dependents g ?x) \<subseteq> (dep_rel g)\<^sup>* `` set seen" using x by (auto simp: dep_rel_def)
      then have "set seen' \<subseteq> (dep_rel g)\<^sup>* `` set seen" unfolding s' by auto
      then have "(dep_rel g)\<^sup>* `` set seen' \<subseteq> (dep_rel g)\<^sup>* `` ((dep_rel g)\<^sup>* `` set seen)" by (rule Image_mono [OF subset_refl])
      then have "(dep_rel g)\<^sup>* `` set seen' \<subseteq> (dep_rel g)\<^sup>* `` set seen"
        by (simp add: relcomp_Image [symmetric])
      moreover have "(dep_rel g)\<^sup>* `` set seen \<subseteq> (dep_rel g)\<^sup>* `` set seen'" unfolding s' by auto
      ultimately show ?thesis by (rule subset_antisym)
    qed
    ultimately show ?thesis using v False by (simp add: affected_loop.simps [of g seen queue])
  qed
qed

lemma Affected_closure: "Affected g changed = sorted_list_of_set ((dep_rel g)\<^sup>* `` set changed)"
proof -
  obtain seen queue where v: "foldl visit ([], []) changed = (seen, queue)" by fastforce
  from visit_all [OF v] have s: "set seen = set changed" "set queue = set changed" "distinct seen" by simp_all
  from affected_loop_closure [of queue seen g] s
  have "set (affected_loop g seen queue) = (dep_rel g)\<^sup>* `` set changed" "distinct (affected_loop g seen queue)" by simp_all
  then show ?thesis
    using v by (simp add: Affected_def sorted_list_of_set_sort_remdups flip: sorted_list_of_set_sort_remdups)
      (metis sorted_list_of_set_sort_remdups distinct_remdups_id)
qed

section \<open>The caches answer what was put\<close>

locale memo =
  fixes get :: "'c \<Rightarrow> 'k \<Rightarrow> 'v option" and put :: "'c \<Rightarrow> 'k \<Rightarrow> 'v \<Rightarrow> 'c" and kept :: "'c \<Rightarrow> 'v \<Rightarrow> bool"
  assumes get_put: "kept c v \<Longrightarrow> get (put c k v) k' = Some w \<Longrightarrow> get c k' = Some w \<or> (k' = k \<and> w = v)"
    and kept_put: "kept (put c k v) w = kept c w"
begin

definition answers :: "('k \<Rightarrow> 'v \<Rightarrow> bool) \<Rightarrow> 'c \<Rightarrow> bool" where
  "answers ok c \<longleftrightarrow> (\<forall>k v. get c k = Some v \<longrightarrow> ok k v)"

lemma answers_put: "answers ok c \<Longrightarrow> kept c v \<Longrightarrow> ok k v \<Longrightarrow> answers ok (put c k v)"
  using get_put unfolding answers_def by blast

end

definition plain_line :: "string \<Rightarrow> bool" where
  "plain_line l \<longleftrightarrow> l \<noteq> [] \<and> newline \<notin> set l \<and> last l \<noteq> CHR 0x0D \<and> length l < dc_max_token"

definition cache_kept :: "spec_cache \<Rightarrow> string list \<Rightarrow> bool" where
  "cache_kept c enc \<longleftrightarrow> (case c of DiskCache _ _ \<Rightarrow> list_all plain_line enc | _ \<Rightarrow> True)"

lemma scan_plain: "list_all plain_line enc \<Longrightarrow> scan_specs enc = enc"
  by (induction enc) (simp_all add: plain_line_def drop_cr_def)

lemma disk_lines: "list_all plain_line enc \<Longrightarrow> scan_specs (raw_lines (join_with [newline] enc)) = enc"
proof (cases "enc = []")
  case False
  assume pl: "list_all plain_line enc"
  with False have "split_on newline (join_with [newline] enc) = enc"
    by (intro split_join) (auto simp: list_all_iff plain_line_def)
  moreover have "last enc \<noteq> []" using pl False by (auto simp: list_all_iff plain_line_def)
  ultimately show ?thesis using pl by (simp add: raw_lines_def Let_def scan_plain)
qed simp

lemma dc_path_inj: "dc_path k = dc_path k' \<longleftrightarrow> k = k'"
proof
  assume e: "dc_path k = dc_path k'"
  then have "length (Hex k) = length (Hex k')" by (auto simp: dc_path_def dest: arg_cong [where f = length])
  with e have "take 2 (Hex k) = take 2 (Hex k')" "drop 2 (Hex k) = drop 2 (Hex k')" by (simp_all add: dc_path_def)
  then have "Hex k = Hex k'" by (metis append_take_drop_id)
  then show "k = k'" by simp
qed simp

interpretation specs: memo cache_Get cache_Put cache_kept
proof
  fix c v k k' w
  assume "cache_kept c v" "cache_Get (cache_Put c k v) k' = Some w"
  then show "cache_Get c k' = Some w \<or> k' = k \<and> w = v"
    by (cases c) (auto simp: cache_Get_def cache_Put_def cache_kept_def update_conv' dc_path_inj disk_lines split: if_splits)
qed (auto simp: cache_kept_def cache_Put_def split: spec_cache.splits)

section \<open>The edges of the graph\<close>

lemma listed_append: "listed (append_at k v m) x = (if x = k then listed m k @ [v] else listed m x)"
  by (simp add: listed_def append_at_def update_conv')

lemma listed_sorted: "listed (map (\<lambda>(k, v). (k, sort v)) m) k = sort (listed m k)"
  by (simp add: listed_def map_of_map split: option.split)

definition edges :: "dep_graph \<Rightarrow> (string \<times> string) set" where
  "edges g = {(p, q). q \<in> set (g_Deps g p)}"

text \<open>Both indexes list the same edges, each once.\<close>

definition indexed :: "dep_graph \<Rightarrow> bool" where
  "indexed g \<longleftrightarrow> dep_rel g = (edges g)\<inverse> \<and> (\<forall>p. distinct (g_Deps g p)) \<and> (\<forall>q. distinct (Dependents g q))"

lemma add_edge_step:
  assumes "indexed g" "set seen = set (g_Deps g p)" "add_edge p (seen, g) q = (seen', g')"
  shows "indexed g'" "set seen' = set (g_Deps g' p)" "edges g' = edges g \<union> ({(p, q)} - Id)" "g_Files g' = g_Files g"
proof -
  let ?add = "\<lparr>g_Files = g_Files g, g_deps = append_at p q (g_deps g), g_dependents = append_at q p (g_dependents g)\<rparr>"
  have new: "g' = ?add \<and> seen' = q # seen" if "q \<noteq> p" "q \<notin> set seen"
    using assms(3) that by (cases g) (auto simp: add_edge_def)
  have deps: "g_Deps ?add x = (if x = p then g_Deps g p @ [q] else g_Deps g x)"
    and dept: "Dependents ?add x = (if x = q then Dependents g q @ [p] else Dependents g x)" for x
    by (simp_all add: g_Deps_def Dependents_def listed_append)
  have inv: "p' \<in> set (Dependents g q') \<longleftrightarrow> q' \<in> set (g_Deps g p')" for p' q'
    using assms(1) by (auto simp: indexed_def dep_rel_def edges_def set_eq_iff)
  consider "q = p \<or> q \<in> set seen" | "q \<noteq> p" "q \<notin> set seen" by blast
  then have "indexed g' \<and> set seen' = set (g_Deps g' p) \<and> edges g' = edges g \<union> ({(p, q)} - Id) \<and> g_Files g' = g_Files g"
  proof cases
    case 1
    then have "g' = g" "seen' = seen" using assms(3) by (auto simp: add_edge_def)
    moreover have "edges g = edges g \<union> ({(p, q)} - Id)" using 1 assms(2) by (auto simp: edges_def)
    ultimately show ?thesis using assms(1,2) by simp
  next
    case 2
    note g' = new [OF 2]
    have q: "q \<notin> set (g_Deps g p)" using 2(2) assms(2) by simp
    have "edges ?add = edges g \<union> ({(p, q)} - Id)"
      unfolding edges_def deps using 2(1) by (auto split: if_splits)
    moreover have "dep_rel ?add = (edges ?add)\<inverse>"
      unfolding dep_rel_def edges_def deps dept by (auto simp: inv split: if_splits)
    moreover have "distinct (g_Deps ?add x)" "distinct (Dependents ?add x)" for x
      unfolding deps dept using assms(1) q inv [of p q] by (auto simp: indexed_def)
    ultimately show ?thesis using g' deps [of p] assms(2) by (simp add: indexed_def)
  qed
  then show "indexed g'" "set seen' = set (g_Deps g' p)" "edges g' = edges g \<union> ({(p, q)} - Id)" "g_Files g' = g_Files g"
    by simp_all
qed

lemma fold_edges:
  "indexed g \<Longrightarrow> set seen = set (g_Deps g p) \<Longrightarrow> foldl (add_edge p) (seen, g) qs = (seen', g') \<Longrightarrow>
   indexed g' \<and> set seen' = set (g_Deps g' p) \<and> edges g' = edges g \<union> ({p} \<times> set qs - Id) \<and> g_Files g' = g_Files g"
proof (induction qs arbitrary: seen g)
  case (Cons q qs)
  obtain s1 g1 where 1: "add_edge p (seen, g) q = (s1, g1)" by fastforce
  note st = add_edge_step [OF Cons.prems(1,2) 1]
  from Cons.IH [OF st(1,2)] Cons.prems(3) 1 st show ?case by auto
qed simp

lemma foldl_concat_map: "foldl (\<lambda>st x. foldl f st (F x)) st xs = foldl f st (concat (map F xs))"
  by (induction xs arbitrary: st) simp_all

definition targets :: "repo_context \<Rightarrow> string \<Rightarrow> specifier list \<Rightarrow> string set" where
  "targets ctx p specs = {q. q \<noteq> p \<and> (\<exists>spec \<in> set specs. q \<in> set (resolveSpecifier p spec ctx))}"

lemma add_edges_step:
  assumes "indexed g" "g_Deps g p = []"
  shows "indexed (add_edges ctx p specs g)" "edges (add_edges ctx p specs g) = edges g \<union> {p} \<times> targets ctx p specs"
    "g_Files (add_edges ctx p specs g) = g_Files g"
proof -
  let ?qs = "concat (map (\<lambda>spec. resolveSpecifier p spec ctx) specs)"
  obtain seen' g' where f: "foldl (add_edge p) ([], g) ?qs = (seen', g')" by fastforce
  then have "add_edges ctx p specs g = g'" by (simp add: add_edges_def foldl_concat_map)
  moreover have "{p} \<times> set ?qs - Id = {p} \<times> targets ctx p specs" by (auto simp: targets_def)
  ultimately show "indexed (add_edges ctx p specs g)" "edges (add_edges ctx p specs g) = edges g \<union> {p} \<times> targets ctx p specs"
    "g_Files (add_edges ctx p specs g) = g_Files g"
    using fold_edges [OF assms(1) _ f] assms(2) by simp_all
qed

text \<open>The references of the files, whatever the cache holds.\<close>

definition cache_sound :: "hash_funs \<Rightarrow> byte list option \<Rightarrow> objstore \<Rightarrow> (string \<times> wasm_analyzer) list \<Rightarrow> id_files \<Rightarrow> spec_cache \<Rightarrow> bool" where
  "cache_sound h exe s wm files c \<longleftrightarrow>
     (\<forall>(p, i) \<in> set files. \<forall>enc. cache_Get c (spec_key h exe wm p i) = Some enc \<longrightarrow> analyze_file h s wm p i = Inr (decodeSpecs enc))"

definition cacheable :: "hash_funs \<Rightarrow> byte list option \<Rightarrow> objstore \<Rightarrow> (string \<times> wasm_analyzer) list \<Rightarrow> id_files \<Rightarrow> spec_cache \<Rightarrow> bool" where
  "cacheable h exe s wm files c \<longleftrightarrow>
     (\<forall>(p, i) \<in> set files. \<forall>specs. analyze_file h s wm p i = Inr specs \<longrightarrow> cache_kept c (encodeSpecs specs)) \<and>
     (\<forall>(p, i) \<in> set files. \<forall>(p', i') \<in> set files. spec_key h exe wm p i = spec_key h exe wm p' i' \<longrightarrow>
        analyze_file h s wm p i = analyze_file h s wm p' i')"

lemma specs_roundtrip: "list_all spec_ok specs \<Longrightarrow> decodeSpecs (encodeSpecs specs) = specs"
  by (induction specs) (simp_all add: decodeSpecs_def encodeSpecs_def spec_decode_encode)

lemma py_specs_ok: "py_specs ms = Inr vs \<Longrightarrow> list_all spec_ok vs"
  by (induction ms arbitrary: vs) (auto simp: rbind_eq_Inr path_spec_def spec_ok_def)

lemma goImports_ok: "list_all spec_ok (goImports x)"
proof -
  have "list_all spec_ok out \<Longrightarrow> list_all spec_ok (foldl add_import out ps)" for out ps
    by (induction ps arbitrary: out) (auto simp: add_import_def package_spec_def spec_ok_def)
  note a = this
  have "list_all spec_ok out \<Longrightarrow> list_all spec_ok (foldl (\<lambda>out blk. foldl add_import out (FindAll reGoQuoted blk)) out bs)" for out bs
    by (induction bs arbitrary: out) (simp_all add: a)
  with a show ?thesis by (simp add: goImports_def Let_def)
qed

lemma js_c_ok: "js_extract x = Inr specs \<Longrightarrow> list_all spec_ok specs" "c_extract x = Inr specs \<Longrightarrow> list_all spec_ok specs"
  by (auto simp: js_extract_def c_extract_def list_all_iff path_spec_def spec_ok_def)

lemma extractBuiltin_ok: "extractBuiltin p c = Inr specs \<Longrightarrow> list_all spec_ok specs"
  by (auto simp: extractBuiltin_def analyzers_def py_extract_def go_extract_def goImports_ok
      dest: py_specs_ok js_c_ok split: if_splits)

lemma parseWasm_ok: "list_all spec_ok (parseWasmSpecs out)"
  by (auto simp: parseWasmSpecs_def parse_wasm_line_def Let_def list_all_iff path_spec_def package_spec_def spec_ok_def)

lemma analyze_ok: "analyze_file h s wm p i = Inr specs \<Longrightarrow> list_all spec_ok specs"
  by (auto simp: analyze_file_def runWasmAnalyzer_def rbind_eq_Inr parseWasm_ok dest: extractBuiltin_ok split: option.splits)

definition truly :: "hash_funs \<Rightarrow> byte list option \<Rightarrow> objstore \<Rightarrow> (string \<times> wasm_analyzer) list \<Rightarrow> id_files \<Rightarrow> multihash \<Rightarrow> string list \<Rightarrow> bool" where
  "truly h exe s wm files k enc \<longleftrightarrow>
     (\<forall>(p, i) \<in> set files. spec_key h exe wm p i = k \<longrightarrow> analyze_file h s wm p i = Inr (decodeSpecs enc))"

lemma cache_sound_answers: "cache_sound h exe s wm files c \<longleftrightarrow> specs.answers (truly h exe s wm files) c"
  unfolding cache_sound_def specs.answers_def truly_def by fastforce

lemma specifiersFor_sound:
  assumes "cache_sound h exe s wm files c" "cacheable h exe s wm files c" "(p, i) \<in> set files"
  shows "fst (specifiersFor h exe s wm p i c) = analyze_file h s wm p i"
    "cache_sound h exe s wm files (snd (specifiersFor h exe s wm p i c))"
    "cacheable h exe s wm files (snd (specifiersFor h exe s wm p i c))"
proof -
  let ?k = "spec_key h exe wm p i"
  have "fst (specifiersFor h exe s wm p i c) = analyze_file h s wm p i \<and>
    cache_sound h exe s wm files (snd (specifiersFor h exe s wm p i c)) \<and>
    cacheable h exe s wm files (snd (specifiersFor h exe s wm p i c))"
  proof (cases "cache_Get c ?k")
    case (Some enc)
    with assms show ?thesis by (auto simp: specifiersFor_def cache_sound_def)
  next
    case None
    show ?thesis
    proof (cases "analyze_file h s wm p i")
      case (Inl e)
      with None assms(1,2) show ?thesis by (simp add: specifiersFor_def)
    next
      case (Inr specs)
      then have kept: "cache_kept c (encodeSpecs specs)" using assms(2,3) by (auto simp: cacheable_def)
      have "truly h exe s wm files ?k (encodeSpecs specs)"
        unfolding truly_def specs_roundtrip [OF analyze_ok [OF Inr]]
      proof (intro ballI, clarify)
        fix p' i' assume "(p', i') \<in> set files" "spec_key h exe wm p' i' = ?k"
        with assms(2,3) have "analyze_file h s wm p' i' = analyze_file h s wm p i" unfolding cacheable_def by blast
        with Inr show "analyze_file h s wm p' i' = Inr specs" by simp
      qed
      then have "cache_sound h exe s wm files (cache_Put c ?k (encodeSpecs specs))"
        using assms(1) kept unfolding cache_sound_answers by (intro specs.answers_put)
      moreover have "cacheable h exe s wm files (cache_Put c ?k (encodeSpecs specs))"
        using assms(2) by (simp add: cacheable_def specs.kept_put)
      ultimately show ?thesis using None Inr by (simp add: specifiersFor_def)
    qed
  qed
  then show "fst (specifiersFor h exe s wm p i c) = analyze_file h s wm p i"
    "cache_sound h exe s wm files (snd (specifiersFor h exe s wm p i c))"
    "cacheable h exe s wm files (snd (specifiersFor h exe s wm p i c))" by simp_all
qed

lemma uncached [simp]: "specifiersFor h exe s wm p i NoCache = (analyze_file h s wm p i, NoCache)"
  by (simp add: specifiersFor_def cache_Get_def cache_Put_def split: sum.split)

lemma loop_sound:
  "cache_sound h exe s wm files c \<Longrightarrow> cacheable h exe s wm files c \<Longrightarrow> set fs \<subseteq> set files \<Longrightarrow>
   fst (graph_loop h exe s wm ctx fs g c) = fst (graph_loop h exe s wm ctx fs g NoCache) \<and>
   cache_sound h exe s wm files (snd (graph_loop h exe s wm ctx fs g c))"
proof (induction fs arbitrary: g c)
  case (Cons f fs)
  obtain p i where f: "f = (p, i)" by (cases f)
  with Cons.prems have m: "(p, i) \<in> set files" by simp
  obtain r c' where r: "specifiersFor h exe s wm p i c = (r, c')" by fastforce
  from specifiersFor_sound [OF Cons.prems(1,2) m] r
  have s: "r = analyze_file h s wm p i" "cache_sound h exe s wm files c'" "cacheable h exe s wm files c'" by simp_all
  show ?case
  proof (cases r)
    case (Inr specs)
    then have "analyze_file h s wm p i = Inr specs" using s(1) by simp
    with Cons.IH [OF s(2,3), of "add_edges ctx p specs g"] Cons.prems(3) f r Inr show ?thesis by simp
  qed (use f r s in simp)
qed simp

definition file_edges :: "hash_funs \<Rightarrow> objstore \<Rightarrow> (string \<times> wasm_analyzer) list \<Rightarrow> repo_context \<Rightarrow> id_files \<Rightarrow> (string \<times> string) set" where
  "file_edges h s wm ctx files =
     {(p, q). \<exists>i specs. (p, i) \<in> set files \<and> analyze_file h s wm p i = Inr specs \<and> q \<in> targets ctx p specs}"

lemma loop_edges:
  "distinct (map fst fs) \<Longrightarrow> indexed g \<Longrightarrow> \<forall>p \<in> fst ` set fs. g_Deps g p = [] \<Longrightarrow>
   graph_loop h exe s wm ctx fs g NoCache = (Inr g', c) \<Longrightarrow>
   indexed g' \<and> edges g' = edges g \<union> file_edges h s wm ctx fs \<and> g_Files g' = g_Files g"
proof (induction fs arbitrary: g)
  case Nil
  then show ?case by (simp add: file_edges_def)
next
  case (Cons f fs)
  obtain p i where f: "f = (p, i)" by (cases f)
  with Cons.prems(4) obtain specs where a: "analyze_file h s wm p i = Inr specs"
    and l: "graph_loop h exe s wm ctx fs (add_edges ctx p specs g) NoCache = (Inr g', c)" by (auto split: sum.splits)
  have "g_Deps g p = []" using Cons.prems(3) f by simp
  note st = add_edges_step [OF Cons.prems(2) this, of ctx specs]
  have "\<forall>q \<in> fst ` set fs. g_Deps (add_edges ctx p specs g) q = []"
  proof
    fix q assume q: "q \<in> fst ` set fs"
    then have "q \<noteq> p" "g_Deps g q = []" using Cons.prems(1,3) f by auto
    with st(2) have "(q, x) \<notin> edges (add_edges ctx p specs g)" for x by (simp add: edges_def)
    then show "g_Deps (add_edges ctx p specs g) q = []" by (cases "g_Deps (add_edges ctx p specs g) q") (auto simp: edges_def)
  qed
  from Cons.IH [OF _ st(1) this l] Cons.prems(1)
  have "indexed g'" "edges g' = edges (add_edges ctx p specs g) \<union> file_edges h s wm ctx fs" "g_Files g' = g_Files (add_edges ctx p specs g)"
    by simp_all
  moreover have "file_edges h s wm ctx (f # fs) = {p} \<times> targets ctx p specs \<union> file_edges h s wm ctx fs"
    using a f by (auto simp: file_edges_def)
  ultimately show ?case using st by auto
qed

lemma walk_distinct: "tree_walk n h s t pre out = Inr out' \<Longrightarrow> distinct (map fst out) \<Longrightarrow> distinct (map fst out')"
proof (induction n arbitrary: t pre out out')
  case (Suc n)
  have "foldl (\<lambda>r e. rbind r (\<lambda>out. let p = entry_path pre (ename e) in
         if ekind e = TypeTree then tree_walk n h s (eid e) p out else Inr (AList.update p (eid e) out))) (Inr out) es = Inr out' \<Longrightarrow>
      distinct (map fst out')" for es out'
  proof (induction es arbitrary: out' rule: rev_induct)
    case (snoc e es)
    then show ?case
      by (auto simp: rbind_eq_Inr Let_def distinct_update intro: Suc.IH split: if_splits)
  qed (use Suc.prems in simp)
  with Suc.prems(1) show ?case by (auto simp: rbind_eq_Inr)
qed simp

lemma FlattenTree_distinct: "FlattenTree n h s t = Inr out \<Longrightarrow> distinct (map fst out)"
  using walk_distinct by (auto simp: FlattenTree_def split: option.splits)

lemma build_graph:
  assumes "FlattenTree stk h s t = Inr files"
    and "BuildGraph stk h exe s t (opts\<lparr>go_Cache := NoCache\<rparr>) = (Inr g, c)"
  shows "g_Files g = files" "indexed g" "edges g = file_edges h s (wasm_by_ext (go_Wasm opts)) (graph_context h s opts files) files"
    "sorted (Dependents g q)" "sorted (g_Deps g q)"
proof -
  let ?g0 = "\<lparr>g_Files = files, g_deps = [], g_dependents = []\<rparr>"
  let ?sorted = "\<lambda>g :: dep_graph. g\<lparr>g_deps := map (\<lambda>(k, v). (k, sort v)) (g_deps g),
                       g_dependents := map (\<lambda>(k, v). (k, sort v)) (g_dependents g)\<rparr>"
  have ctx: "graph_context h s (opts\<lparr>go_Cache := NoCache\<rparr>) files = graph_context h s opts files"
    by (simp add: graph_context_def)
  obtain g1 where l: "graph_loop h exe s (wasm_by_ext (go_Wasm opts)) (graph_context h s opts files) files ?g0 NoCache = (Inr g1, c)"
    and g: "g = ?sorted g1"
    using assms ctx by (auto simp: BuildGraph_def split: prod.splits sum.splits)
  have "indexed ?g0" "edges ?g0 = {}"
    by (auto simp: indexed_def dep_rel_def edges_def g_Deps_def Dependents_def listed_def)
  moreover have "\<forall>p \<in> fst ` set files. g_Deps ?g0 p = []" by (simp add: g_Deps_def listed_def)
  ultimately have 1: "indexed g1" "edges g1 = file_edges h s (wasm_by_ext (go_Wasm opts)) (graph_context h s opts files) files"
    "g_Files g1 = files"
    using loop_edges [OF FlattenTree_distinct [OF assms(1)] _ _ l] by simp_all
  have d: "g_Deps g p = sort (g_Deps g1 p)" "Dependents g p = sort (Dependents g1 p)" for p
    by (simp_all add: g g_Deps_def Dependents_def listed_sorted)
  then have e: "edges g = edges g1" "dep_rel g = dep_rel g1" by (simp_all add: edges_def dep_rel_def)
  show "g_Files g = files" using 1(3) by (simp add: g)
  show "indexed g" using 1(1) by (simp add: indexed_def e d)
  show "edges g = file_edges h s (wasm_by_ext (go_Wasm opts)) (graph_context h s opts files) files" using 1(2) e by simp
  show "sorted (Dependents g q)" "sorted (g_Deps g q)" by (simp_all add: d)
qed

lemma build_cached:
  assumes "FlattenTree stk h s t = Inr files" "cache_sound h exe s (wasm_by_ext (go_Wasm opts)) files (go_Cache opts)"
    "cacheable h exe s (wasm_by_ext (go_Wasm opts)) files (go_Cache opts)"
  shows "fst (BuildGraph stk h exe s t opts) = fst (BuildGraph stk h exe s t (opts\<lparr>go_Cache := NoCache\<rparr>))"
    "cache_sound h exe s (wasm_by_ext (go_Wasm opts)) files (snd (BuildGraph stk h exe s t opts))"
proof -
  have ctx: "graph_context h s (opts\<lparr>go_Cache := NoCache\<rparr>) files = graph_context h s opts files"
    by (simp add: graph_context_def)
  note l = loop_sound [OF assms(2,3) subset_refl, of "graph_context h s opts files" "\<lparr>g_Files = files, g_deps = [], g_dependents = []\<rparr>"]
  show "fst (BuildGraph stk h exe s t opts) = fst (BuildGraph stk h exe s t (opts\<lparr>go_Cache := NoCache\<rparr>))"
    "cache_sound h exe s (wasm_by_ext (go_Wasm opts)) files (snd (BuildGraph stk h exe s t opts))"
    using l assms(1) ctx by (auto simp: BuildGraph_def split: prod.splits sum.splits)
qed

subsection \<open>A small repository\<close>

text \<open>A header and a file that includes it.\<close>

definition front_hash :: hash_funs where
  "front_hash = \<lparr>sha256_sum = (\<lambda>b. take 32 (b @ replicate 32 0)), blake3_sum = (\<lambda>b. take 32 (b @ replicate 32 0))\<rparr>"

definition demo_c :: "byte list" where
  "demo_c = bytes_of (''#include '' @ [CHR 0x22] @ ''a.h'' @ [CHR 0x22])"

definition demo_raw :: "byte list \<Rightarrow> multihash" where
  "demo_raw b = (case Sum front_hash Default b of Inl _ \<Rightarrow> [] | Inr i \<Rightarrow> i)"

definition demo_blob :: "string \<Rightarrow> byte list \<Rightarrow> entry" where
  "demo_blob nm c = \<lparr>ename = nm, emode = modeFile, ekind = TypeBlob, eid = demo_raw (Encode (blob_obj c))\<rparr>"

definition demo_sources :: "entry list" where
  "demo_sources = [demo_blob ''a.h'' [0x78], demo_blob ''b.c'' demo_c]"

definition demo_repo :: objstore where
  "demo_repo = put_raws front_hash Open_store
     [Encode (blob_obj [0x78]), Encode (blob_obj demo_c), Encode (tree_obj demo_sources)]"

definition demo_root :: multihash where
  "demo_root = demo_raw (Encode (tree_obj demo_sources))"

lemma demo_read:
  "Get front_hash demo_repo (demo_raw (Encode (blob_obj [0x78]))) = Inr (blob_obj [0x78])"
  "Get front_hash demo_repo (demo_raw (Encode (blob_obj demo_c))) = Inr (blob_obj demo_c)"
  "rbind (Get front_hash demo_repo demo_root) TreeEntries = Inr demo_sources"
proof -
  have "GetRaw front_hash demo_repo (demo_raw (Encode (blob_obj [0x78]))) = Inr (Encode (blob_obj [0x78])) \<and>
    GetRaw front_hash demo_repo (demo_raw (Encode (blob_obj demo_c))) = Inr (Encode (blob_obj demo_c)) \<and>
    GetRaw front_hash demo_repo demo_root = Inr (Encode (tree_obj demo_sources)) \<and> length demo_c < 40 \<and>
    list_all (\<lambda>e. length (eid e) < 40) demo_sources"
    by code_simp
  then have g: "GetRaw front_hash demo_repo (demo_raw (Encode (blob_obj [0x78]))) = Inr (Encode (blob_obj [0x78]))"
    "GetRaw front_hash demo_repo (demo_raw (Encode (blob_obj demo_c))) = Inr (Encode (blob_obj demo_c))"
    "GetRaw front_hash demo_repo demo_root = Inr (Encode (tree_obj demo_sources))" "length demo_c < 40"
    "list_all (\<lambda>e. length (eid e) < 40) demo_sources" by simp_all
  have w: "wf_obj (blob_obj [0x78])" "wf_obj (blob_obj demo_c)" using g(4) by (simp_all add: wf_blob fits64_def)
  have "distinct (map ename demo_sources) \<and> sum_list (map entry_weight demo_sources) \<le> max_alloc \<and> sort_key ename demo_sources = demo_sources"
    using g(5) by (auto simp: demo_sources_def demo_blob_def entry_weight_def max_alloc_def less_eq_list_code)
  then have t: "wf_obj (tree_obj demo_sources)" "TreeEntries (tree_obj demo_sources) = Inr demo_sources"
    using readable_tree [of demo_sources] by simp_all
  show "Get front_hash demo_repo (demo_raw (Encode (blob_obj [0x78]))) = Inr (blob_obj [0x78])"
    "Get front_hash demo_repo (demo_raw (Encode (blob_obj demo_c))) = Inr (blob_obj demo_c)"
    "rbind (Get front_hash demo_repo demo_root) TreeEntries = Inr demo_sources"
    using g w t by (simp_all add: Get_def)
qed

lemma demo_extract:
  "extractBuiltin ''a.h'' [0x78] = Inr []" "extractBuiltin ''b.c'' demo_c = Inr [path_spec ''a.h'']"
  "extractBuiltin ''n.txt'' demo_c = Inr []"
  by code_simp+

definition demo_list :: id_files where
  "demo_list = [(''a.h'', demo_raw (Encode (blob_obj [0x78]))), (''b.c'', demo_raw (Encode (blob_obj demo_c)))]"

definition demo_opts :: graph_options where
  "demo_opts = \<lparr>go_Cache = MemCache [], go_GoModule = [], go_Wasm = []\<rparr>"

definition demo_graph :: dep_graph where
  "demo_graph = \<lparr>g_Files = demo_list, g_deps = [(''b.c'', [''a.h''])], g_dependents = [(''a.h'', [''b.c''])]\<rparr>"

lemma demo_flat: "FlattenTree 2 front_hash demo_repo (Some demo_root) = Inr demo_list"
proof -
  obtain obj where "Get front_hash demo_repo demo_root = Inr obj" "TreeEntries obj = Inr demo_sources"
    using demo_read(3) by (auto simp: rbind_eq_Inr)
  moreover have "TypeBlob \<noteq> TypeTree" by (simp add: TypeBlob_def TypeTree_def)
  ultimately show ?thesis
    by (simp add: FlattenTree_def eval_nat_numeral demo_sources_def demo_blob_def demo_list_def entry_path_def Let_def)
qed

lemma demo_analyze:
  "analyze_file front_hash demo_repo [] ''a.h'' (demo_raw (Encode (blob_obj [0x78]))) = Inr []"
  "analyze_file front_hash demo_repo [] ''b.c'' (demo_raw (Encode (blob_obj demo_c))) = Inr [path_spec ''a.h'']"
  by (simp_all add: analyze_file_def analyzer_for_def demo_read demo_extract blob_content_def)

lemma demo_caches:
  "cache_sound front_hash None demo_repo (wasm_by_ext (go_Wasm demo_opts)) demo_list (go_Cache demo_opts)"
  "cacheable front_hash None demo_repo (wasm_by_ext (go_Wasm demo_opts)) demo_list (go_Cache demo_opts)"
proof -
  show "cache_sound front_hash None demo_repo (wasm_by_ext (go_Wasm demo_opts)) demo_list (go_Cache demo_opts)"
    by (simp add: cache_sound_def demo_opts_def cache_Get_def)
  have "spec_key front_hash None [] ''a.h'' (demo_raw (Encode (blob_obj [0x78])))
      \<noteq> spec_key front_hash None [] ''b.c'' (demo_raw (Encode (blob_obj demo_c)))"
    by code_simp
  then show "cacheable front_hash None demo_repo (wasm_by_ext (go_Wasm demo_opts)) demo_list (go_Cache demo_opts)"
    by (auto simp: cacheable_def demo_opts_def demo_list_def cache_kept_def wasm_by_ext_def)
qed

lemma demo_build: "fst (BuildGraph 2 front_hash None demo_repo (Some demo_root) demo_opts) = Inr demo_graph"
proof -
  let ?ctx = "\<lparr>rc_Paths = [''a.h'', ''b.c''], rc_GoModule = []\<rparr>"
  have ctx: "graph_context front_hash demo_repo (demo_opts\<lparr>go_Cache := NoCache\<rparr>) demo_list = ?ctx"
    by (simp add: graph_context_def demo_opts_def demo_list_def detectGoModule_def)
  have r: "resolveSpecifier ''b.c'' (path_spec ''a.h'') ?ctx = [''a.h'']" by code_simp
  have e: "add_edges ?ctx ''b.c'' [path_spec ''a.h''] (add_edges ?ctx ''a.h'' [] \<lparr>g_Files = demo_list, g_deps = [], g_dependents = []\<rparr>)
      = demo_graph"
    by (simp add: add_edges_def r add_edge_def append_at_def listed_def demo_graph_def)
  have "fst (BuildGraph 2 front_hash None demo_repo (Some demo_root) (demo_opts\<lparr>go_Cache := NoCache\<rparr>)) = Inr demo_graph"
    unfolding BuildGraph_def demo_flat sum.case ctx
    by (simp add: demo_opts_def wasm_by_ext_def demo_list_def demo_analyze e [unfolded demo_list_def])
      (simp add: demo_graph_def demo_list_def)
  then show ?thesis using build_cached(1) [OF demo_flat demo_caches] by simp
qed

section \<open>Properties\<close>





text \<open>The key of a cache entry leaves out the name of the file, although the name chooses the
  analyzer: once one file has been analyzed, every file with the same content and no wasm
  analyzer is given its references, whatever its own language says.\<close>

theorem cache_forgets_extension:
  assumes "cache_Get (MemCache m) (spec_key h exe wm p i) = None" "analyzer_for wm p = None" "analyzer_for wm p' = None"
    and "Get h s i = Inr obj" "extractBuiltin p (blob_content obj) = Inr specs"
  shows "fst (specifiersFor h exe s wm p' i (snd (specifiersFor h exe s wm p i (MemCache m)))) = Inr specs"
proof -
  have k: "spec_key h exe wm p' i = spec_key h exe wm p i" using assms(2,3) by (simp add: spec_key_def)
  have a: "analyze_file h s wm p i = Inr specs" using assms by (simp add: analyze_file_def)
  show ?thesis
    using assms(1) a specs_roundtrip [OF analyze_ok [OF a]]
    by (simp add: specifiersFor_def k cache_Get_def cache_Put_def Let_def update_conv')
qed

theorem cache_forgets_extension_witness:
  "fst (specifiersFor front_hash None demo_repo [] ''b.c'' (demo_raw (Encode (blob_obj demo_c)))
     (snd (specifiersFor front_hash None demo_repo [] ''n.txt'' (demo_raw (Encode (blob_obj demo_c))) (MemCache [])))) = Inr [] \<and>
   analyze_file front_hash demo_repo [] ''b.c'' (demo_raw (Encode (blob_obj demo_c))) = Inr [path_spec ''a.h'']"
proof -
  have "cache_Get (MemCache []) (spec_key front_hash None [] ''n.txt'' (demo_raw (Encode (blob_obj demo_c)))) = None"
    by (simp add: cache_Get_def)
  from cache_forgets_extension [OF this _ _ demo_read(2), of "''b.c''" "[]"] demo_extract(3) demo_analyze(2)
  show ?thesis by (simp add: analyzer_for_def blob_content_def)
qed

text \<open>A cache file holds one reference per line, and a reference in a script may contain a line
  break: what is read back is cut at it.\<close>

theorem disk_cache_cuts:
  assumes "writable (dc_path k)" "plain_line (sp_encode (path_spec a))" "plain_line b" "tab_char \<notin> set b"
  shows "decodeSpecs (the (cache_Get (cache_Put (DiskCache writable m) k (encodeSpecs [path_spec (a @ newline # b)])) k))
    = [path_spec a]"
proof -
  have "sp_encode (path_spec (a @ newline # b)) = join_with [newline] [sp_encode (path_spec a), b]"
    by (simp add: sp_encode_def path_spec_def)
  with assms disk_lines [of "[sp_encode (path_spec a), b]"]
  have "cache_Get (cache_Put (DiskCache writable m) k (encodeSpecs [path_spec (a @ newline # b)])) k
      = Some [sp_encode (path_spec a), b]"
    by (simp add: cache_Get_def cache_Put_def encodeSpecs_def update_conv')
  moreover have "decodeSpecifier (sp_encode (path_spec a)) = Some (path_spec a)"
    by (rule spec_decode_encode) (simp add: spec_ok_def path_spec_def)
  moreover have "decodeSpecifier b = None" using assms(4) by (simp add: decodeSpecifier_def)
  ultimately show ?thesis by (simp add: decodeSpecs_def)
qed

theorem disk_cache_cuts_witness:
  "decodeSpecs (the (cache_Get (cache_Put (DiskCache (\<lambda>_. True) []) [1] (encodeSpecs [path_spec (''x'' @ newline # ''y'')])) [1]))
    = [path_spec ''x'']"
  using disk_cache_cuts [of "\<lambda>_. True" "[1]" "''x''" "''y''" "[]"]
  by (simp add: plain_line_def sp_encode_def path_spec_def SpecPath_def tab_char_def dc_max_token_def)

end
