(* ===== verification/TextDiff.thy ===== *)
theory TextDiff
  imports Diff3 Strconv
begin

text \<open>
  \<^verbatim>\<open>internal/textdiff/textdiff.go\<close>: the unified diff of two texts. The edit script is read off the
  alignment of \<^verbatim>\<open>Diff3\<close> (the code has a copy of it), grouped into hunks and printed. An index out
  of range is a panic.
\<close>

section \<open>Lines\<close>

definition DefaultContext :: nat where "DefaultContext = 3"

definition IsBinary :: "byte list \<Rightarrow> bool" where
  "IsBinary b = (0 \<in> set (take 8000 b))"

definition td_splitLines :: "byte list \<Rightarrow> string list \<times> bool" where
  "td_splitLines b =
     (if b = [] then ([], True)
      else
        (let s = string_of b; endsNL = has_suffix s [newline];
             s = (if endsNL then butlast s else s)
         in (split_on newline s, endsNL)))"

section \<open>The edit script\<close>

text \<open>A field that is not set is zero.\<close>

record edit_op =
  o_kind :: char
  o_ai :: nat
  o_bi :: nat

definition keep_op :: "nat \<Rightarrow> nat \<Rightarrow> edit_op" where
  "keep_op i j = \<lparr>o_kind = CHR '' '', o_ai = i, o_bi = j\<rparr>"

definition del_op :: "nat \<Rightarrow> edit_op" where
  "del_op i = \<lparr>o_kind = CHR ''-'', o_ai = i, o_bi = 0\<rparr>"

definition ins_op :: "nat \<Rightarrow> edit_op" where
  "ins_op j = \<lparr>o_kind = CHR ''+'', o_ai = 0, o_bi = j\<rparr>"

definition td_lcs :: "string list \<Rightarrow> string list \<Rightarrow> (nat \<times> nat) list" where
  "td_lcs a b = lcsPairs a b"

fun ops_loop :: "nat \<Rightarrow> nat \<Rightarrow> (nat \<times> nat) list \<Rightarrow> nat \<Rightarrow> nat \<Rightarrow> edit_op list" where
  "ops_loop n m [] i j = map del_op [i..<n] @ map ins_op [j..<m]"
| "ops_loop n m ((x, y) # ps) i j =
     (let dels = map del_op [i..<x]; i = max i x;
          adds = map ins_op [j..<y]; j = max j y
      in dels @ adds @ keep_op i j # ops_loop n m ps (i + 1) (j + 1))"

definition diffOps :: "string list \<Rightarrow> string list \<Rightarrow> edit_op list" where
  "diffOps a b = ops_loop (length a) (length b) (td_lcs a b) 0 0"

definition anyChanged :: "edit_op list \<Rightarrow> bool" where
  "anyChanged ops = list_ex (\<lambda>o'. o_kind o' \<noteq> CHR '' '') ops"

definition Stat :: "byte list \<Rightarrow> byte list \<Rightarrow> nat \<times> nat" where
  "Stat a b =
     (let ops = diffOps (fst (td_splitLines a)) (fst (td_splitLines b)) in
      (length (filter (\<lambda>o'. o_kind o' = CHR ''+'') ops), length (filter (\<lambda>o'. o_kind o' = CHR ''-'') ops)))"

section \<open>Hunks\<close>

record hunk =
  h_ops :: "edit_op list"
  h_aStart :: nat
  h_aLen :: nat
  h_bStart :: nat
  h_bLen :: nat

fun group_loop :: "nat \<Rightarrow> nat \<Rightarrow> nat \<Rightarrow> nat \<Rightarrow> nat list \<Rightarrow> (nat \<times> nat) list" where
  "group_loop n context lo hi [] = [(lo, hi)]"
| "group_loop n context lo hi (c # cs) =
     (let nlo = c - context in
      if nlo \<le> hi then group_loop n context lo (min n (c + context + 1)) cs
      else (lo, hi) # group_loop n context nlo (min n (c + context + 1)) cs)"

definition in_a :: "edit_op \<Rightarrow> bool" where
  "in_a o' = (o_kind o' = CHR '' '' \<or> o_kind o' = CHR ''-'')"

definition in_b :: "edit_op \<Rightarrow> bool" where
  "in_b o' = (o_kind o' = CHR '' '' \<or> o_kind o' = CHR ''+'')"

definition first_of :: "(edit_op \<Rightarrow> nat) \<Rightarrow> edit_op list \<Rightarrow> nat" where
  "first_of f ops = (case ops of [] \<Rightarrow> 0 | o' # _ \<Rightarrow> f o')"

definition hunk_of :: "edit_op list \<Rightarrow> hunk" where
  "hunk_of seg =
     \<lparr>h_ops = seg, h_aStart = first_of o_ai (filter in_a seg), h_aLen = length (filter in_a seg),
      h_bStart = first_of o_bi (filter in_b seg), h_bLen = length (filter in_b seg)\<rparr>"

definition changed_at :: "edit_op list \<Rightarrow> nat list" where
  "changed_at ops = filter (\<lambda>i. o_kind (ops ! i) \<noteq> CHR '' '') [0..<length ops]"

definition groups_of :: "edit_op list \<Rightarrow> nat \<Rightarrow> (nat \<times> nat) list" where
  "groups_of ops context =
     (case changed_at ops of
        [] \<Rightarrow> []
      | c # cs \<Rightarrow> group_loop (length ops) context (c - context) (min (length ops) (c + context + 1)) cs)"

definition hunks :: "edit_op list \<Rightarrow> nat \<Rightarrow> hunk list" where
  "hunks ops context = map (\<lambda>(lo, hi). hunk_of (slice ops lo hi)) (groups_of ops context)"

section \<open>Printing\<close>

definition no_newline :: string where
  "no_newline = CHR 0x5C # '' No newline at end of file'' @ [newline]"

definition writeLine :: "char \<Rightarrow> string \<Rightarrow> bool \<Rightarrow> string" where
  "writeLine sign line noNewline = sign # line @ newline # (if noNewline then no_newline else [])"

definition rangeStr :: "nat \<Rightarrow> nat \<Rightarrow> string" where
  "rangeStr start len =
     (if len = 0 then FormatInt 10 (int start) @ '',0''
      else FormatInt 10 (int start + 1) @ '','' @ FormatInt 10 (int len))"

definition line_at :: "string list \<Rightarrow> nat \<Rightarrow> goerr + string" where
  "line_at xs i = (if i < length xs then Inr (xs ! i) else Inl (Panic ''index out of range''))"

definition writeOp :: "string list \<Rightarrow> string list \<Rightarrow> bool \<Rightarrow> bool \<Rightarrow> edit_op \<Rightarrow> goerr + string" where
  "writeOp a b aNL bNL o' =
     (if o_kind o' = CHR '' '' \<or> o_kind o' = CHR ''-'' then
        rbind (line_at a (o_ai o')) (\<lambda>l. Inr (writeLine (o_kind o') l (o_ai o' = length a - 1 \<and> \<not> aNL)))
      else if o_kind o' = CHR ''+'' then
        rbind (line_at b (o_bi o')) (\<lambda>l. Inr (writeLine (o_kind o') l (o_bi o' = length b - 1 \<and> \<not> bNL)))
      else Inr [])"

fun write_all :: "('a \<Rightarrow> goerr + string) \<Rightarrow> 'a list \<Rightarrow> goerr + string" where
  "write_all f [] = Inr []"
| "write_all f (x # xs) = rbind (f x) (\<lambda>s. rbind (write_all f xs) (\<lambda>t. Inr (s @ t)))"

definition writeHunk :: "string list \<Rightarrow> string list \<Rightarrow> bool \<Rightarrow> bool \<Rightarrow> hunk \<Rightarrow> goerr + string" where
  "writeHunk a b aNL bNL h =
     rbind (write_all (writeOp a b aNL bNL) (h_ops h)) (\<lambda>body.
     Inr (''@@ -'' @ rangeStr (h_aStart h) (h_aLen h) @ '' +'' @ rangeStr (h_bStart h) (h_bLen h) @ '' @@'' @ newline # body))"

text \<open>The script whose hunks are printed: a difference in the last newline alone is shown as a
  change of the last line.\<close>

definition unified_ops :: "byte list \<Rightarrow> byte list \<Rightarrow> edit_op list" where
  "unified_ops a b =
     (let (al, aNL) = td_splitLines a; (bl, bNL) = td_splitLines b; ops = diffOps al bl in
      if aNL \<noteq> bNL \<and> \<not> anyChanged ops \<and> ops \<noteq> []
      then butlast ops @ [del_op (o_ai (last ops)), ins_op (o_bi (last ops))]
      else ops)"

definition Unified :: "byte list \<Rightarrow> byte list \<Rightarrow> string \<Rightarrow> string \<Rightarrow> int \<Rightarrow> goerr + string \<times> bool" where
  "Unified a b labelA labelB context =
     (if a = b then Inr ([], True)
      else
        (let context = (if context < 0 then DefaultContext else nat context);
             (al, aNL) = td_splitLines a; (bl, bNL) = td_splitLines b
         in rbind (write_all (writeHunk al bl aNL bNL) (hunks (unified_ops a b) context)) (\<lambda>body.
            Inr (''--- '' @ labelA @ newline # ''+++ '' @ labelB @ newline # body, False))))"

section \<open>Scripts\<close>

text \<open>A script from positions in both texts: each entry has the positions reached so far.\<close>

fun script :: "string list \<Rightarrow> string list \<Rightarrow> nat \<Rightarrow> nat \<Rightarrow> edit_op list \<Rightarrow> bool" where
  "script a b i j [] = (i = length a \<and> j = length b)"
| "script a b i j (o' # ops) =
     ((o' = keep_op i j \<and> i < length a \<and> j < length b \<and> a ! i = b ! j \<and> script a b (i + 1) (j + 1) ops) \<or>
      (o' = del_op i \<and> i < length a \<and> script a b (i + 1) j ops) \<or>
      (o' = ins_op j \<and> j < length b \<and> script a b i (j + 1) ops))"

lemma kinds [simp]:
  "o_kind (keep_op i j) = CHR '' ''" "o_kind (del_op i) = CHR ''-''" "o_kind (ins_op j) = CHR ''+''"
  "o_ai (keep_op i j) = i" "o_bi (keep_op i j) = j" "o_ai (del_op i) = i" "o_bi (ins_op j) = j"
  "in_a (keep_op i j)" "in_a (del_op i)" "\<not> in_a (ins_op j)" "in_b (keep_op i j)" "in_b (ins_op j)" "\<not> in_b (del_op i)"
  "keep_op i j \<noteq> del_op k" "keep_op i j \<noteq> ins_op k" "del_op i \<noteq> ins_op k" "del_op k \<noteq> keep_op i j" "ins_op k \<noteq> keep_op i j" "ins_op k \<noteq> del_op i"
  "keep_op i j = keep_op i' j' \<longleftrightarrow> i = i' \<and> j = j'" "del_op i = del_op i' \<longleftrightarrow> i = i'" "ins_op i = ins_op i' \<longleftrightarrow> i = i'"
  by (auto simp: keep_op_def del_op_def ins_op_def in_a_def in_b_def)

lemma script_dels: "i \<le> x \<Longrightarrow> x \<le> length a \<Longrightarrow> script a b i j (map del_op [i..<x] @ ops) \<longleftrightarrow> script a b x j ops"
proof (induction "x - i" arbitrary: i)
  case (Suc d)
  then have "[i..<x] = i # [i + 1..<x]" "i < length a" by (simp_all add: upt_conv_Cons)
  with Suc show ?case by simp
qed simp

lemma script_inss: "j \<le> y \<Longrightarrow> y \<le> length b \<Longrightarrow> script a b i j (map ins_op [j..<y] @ ops) \<longleftrightarrow> script a b i y ops"
proof (induction "y - j" arbitrary: j)
  case (Suc d)
  then have "[j..<y] = j # [j + 1..<y]" "j < length b" by (simp_all add: upt_conv_Cons)
  with Suc show ?case by simp
qed simp

lemma ops_loop_script: "aligned a b i j ps \<Longrightarrow> i \<le> length a \<Longrightarrow> j \<le> length b \<Longrightarrow> script a b i j (ops_loop (length a) (length b) ps i j)"
proof (induction a b i j ps rule: aligned.induct)
  case (1 a b i j)
  then show ?case using script_dels [of i "length a" a b j] script_inss [of j "length b" b a "length a" "[]"] by simp
next
  case (2 a b i j x y ps)
  then show ?case by (simp add: Let_def script_dels script_inss max_absorb2)
qed

lemma diffOps_script: "script a b 0 0 (diffOps a b)"
  using ops_loop_script [OF walk_aligned [of a b 0 0 "dp_table a b"]]
  by (simp add: diffOps_def td_lcs_def lcsPairs_def)

lemma script_cases [consumes 1, case_names keep del ins]:
  assumes "script a b i j (o' # ops)"
  obtains "o' = keep_op i j" "i < length a" "j < length b" "a ! i = b ! j" "script a b (i + 1) (j + 1) ops"
  | "o' = del_op i" "i < length a" "script a b (i + 1) j ops"
  | "o' = ins_op j" "j < length b" "script a b i (j + 1) ops"
  using assms by auto

lemma script_append:
  "script a b i j (xs @ ys) \<Longrightarrow> script a b (i + length (filter in_a xs)) (j + length (filter in_b xs)) ys"
proof (induction xs arbitrary: i j)
  case (Cons x xs)
  then have "script a b i j (x # (xs @ ys))" by simp
  then show ?case
  proof (cases rule: script_cases)
    case keep
    then show ?thesis using Cons.IH [of "i + 1" "j + 1"] by simp
  next
    case del
    then show ?thesis using Cons.IH [of "i + 1" j] by simp
  next
    case ins
    then show ?thesis using Cons.IH [of i "j + 1"] by simp
  qed
qed simp

text \<open>Where a script is after its first \<^verbatim>\<open>k\<close> entries.\<close>

definition a_at :: "edit_op list \<Rightarrow> nat \<Rightarrow> nat" where
  "a_at ops k = length (filter in_a (take k ops))"

definition b_at :: "edit_op list \<Rightarrow> nat \<Rightarrow> nat" where
  "b_at ops k = length (filter in_b (take k ops))"

lemma script_drop: "script a b 0 0 ops \<Longrightarrow> script a b (a_at ops k) (b_at ops k) (drop k ops)"
  using script_append [of a b 0 0 "take k ops" "drop k ops"] by (simp add: a_at_def b_at_def)

lemma script_bound: "script a b i j ops \<Longrightarrow> i + length (filter in_a ops) = length a \<and> j + length (filter in_b ops) = length b"
  using script_append [of a b i j ops "[]"] by simp

text \<open>The lines of each side in a part of a script are consecutive lines of the text.\<close>

definition a_lines :: "string list \<Rightarrow> edit_op list \<Rightarrow> string list" where
  "a_lines a seg = map (\<lambda>o'. a ! o_ai o') (filter in_a seg)"

definition b_lines :: "string list \<Rightarrow> edit_op list \<Rightarrow> string list" where
  "b_lines b seg = map (\<lambda>o'. b ! o_bi o') (filter in_b seg)"

lemma script_lines:
  "script a b i j (xs @ ys) \<Longrightarrow> a_lines a xs = take (length (filter in_a xs)) (drop i a) \<and>
     b_lines b xs = take (length (filter in_b xs)) (drop j b) \<and>
     first_of o_ai (filter in_a xs) = (if filter in_a xs = [] then 0 else i) \<and>
     first_of o_bi (filter in_b xs) = (if filter in_b xs = [] then 0 else j)"
proof (induction xs arbitrary: i j)
  case (Cons x xs)
  then have "script a b i j (x # (xs @ ys))" by simp
  then show ?case
  proof (cases rule: script_cases)
    case keep
    then show ?thesis using Cons.IH [of "i + 1" "j + 1"]
      by (simp add: a_lines_def b_lines_def first_of_def flip: Cons_nth_drop_Suc)
  next
    case del
    then show ?thesis using Cons.IH [of "i + 1" j]
      by (simp add: a_lines_def b_lines_def first_of_def flip: Cons_nth_drop_Suc)
  next
    case ins
    then show ?thesis using Cons.IH [of i "j + 1"]
      by (simp add: a_lines_def b_lines_def first_of_def flip: Cons_nth_drop_Suc)
  qed
qed (simp add: a_lines_def b_lines_def first_of_def)

text \<open>A stretch without changes is the same text on both sides.\<close>

lemma script_keeps:
  "script a b i j (xs @ ys) \<Longrightarrow> \<forall>o' \<in> set xs. o_kind o' = CHR '' '' \<Longrightarrow>
   length (filter in_a xs) = length xs \<and> length (filter in_b xs) = length xs \<and> take (length xs) (drop i a) = take (length xs) (drop j b)"
proof (induction xs arbitrary: i j)
  case (Cons x xs)
  then have "script a b i j (x # (xs @ ys))" by simp
  then show ?case
  proof (cases rule: script_cases)
    case keep
    then show ?thesis using Cons.IH [of "i + 1" "j + 1"] Cons.prems(2) by (simp flip: Cons_nth_drop_Suc)
  qed (use Cons.prems(2) in auto)
qed simp

section \<open>The hunks cover the changes\<close>

definition kept_at :: "edit_op list \<Rightarrow> nat \<Rightarrow> bool" where
  "kept_at ops k \<longleftrightarrow> o_kind (ops ! k) = CHR '' ''"

fun covers :: "edit_op list \<Rightarrow> nat \<Rightarrow> (nat \<times> nat) list \<Rightarrow> bool" where
  "covers ops p [] = (\<forall>k. p \<le> k \<longrightarrow> k < length ops \<longrightarrow> kept_at ops k)"
| "covers ops p ((lo, hi) # gs) =
     (p \<le> lo \<and> lo \<le> hi \<and> hi \<le> length ops \<and> (\<forall>k. p \<le> k \<longrightarrow> k < lo \<longrightarrow> kept_at ops k) \<and>
      (lo = 0 \<or> (lo < hi \<and> kept_at ops lo)) \<and> covers ops hi gs)"

lemma group_loop_covers:
  assumes "1 \<le> context"
  shows "sorted_wrt (<) cs \<Longrightarrow> \<forall>c \<in> set cs. c < length ops \<and> hi \<le> c + context + 1 \<Longrightarrow>
    \<forall>k. hi \<le> k \<longrightarrow> k < length ops \<longrightarrow> \<not> kept_at ops k \<longrightarrow> k \<in> set cs \<Longrightarrow>
    p \<le> lo \<Longrightarrow> lo \<le> hi \<Longrightarrow> hi \<le> length ops \<Longrightarrow> \<forall>k. p \<le> k \<longrightarrow> k < lo \<longrightarrow> kept_at ops k \<Longrightarrow>
    lo = 0 \<or> (lo < hi \<and> kept_at ops lo) \<Longrightarrow>
    covers ops p (group_loop (length ops) context lo hi cs)"
proof (induction cs arbitrary: p lo hi)
  case Nil
  then show ?case by auto
next
  case (Cons c cs)
  let ?hi = "min (length ops) (c + context + 1)"
  have c: "c < length ops" "c < ?hi" "hi \<le> ?hi" using Cons.prems(2,6) assms by auto
  have rest1: "sorted_wrt (<) cs" using Cons.prems(1) by simp
  have rest2: "\<forall>d \<in> set cs. d < length ops \<and> ?hi \<le> d + context + 1" using Cons.prems(1,2) by auto
  have rest3: "\<forall>k. ?hi \<le> k \<longrightarrow> k < length ops \<longrightarrow> \<not> kept_at ops k \<longrightarrow> k \<in> set cs"
  proof (intro allI impI)
    fix k assume k: "?hi \<le> k" "k < length ops" "\<not> kept_at ops k"
    then have "hi \<le> k" "k \<noteq> c" using c(2,3) by auto
    with Cons.prems(3) k show "k \<in> set cs" by auto
  qed
  note rest = rest1 rest2 rest3
  have lh: "p \<le> lo" "lo \<le> hi" "hi \<le> length ops" "\<forall>k. p \<le> k \<longrightarrow> k < lo \<longrightarrow> kept_at ops k"
    "lo = 0 \<or> (lo < hi \<and> kept_at ops lo)" using Cons.prems(4-8) by auto
  show ?case
  proof (cases "c - context \<le> hi")
    case True
    then have "covers ops p (group_loop (length ops) context lo ?hi cs)"
      using lh c by (intro Cons.IH [OF rest]) auto
    with True show ?thesis by simp
  next
    case False
    have keep: "kept_at ops k" if "hi \<le> k" "k < c" for k
    proof (rule ccontr)
      assume "\<not> kept_at ops k"
      with Cons.prems(3) that c(1) have "k \<in> set (c # cs)" by auto
      with Cons.prems(1) that(2) show False by auto
    qed
    have "covers ops hi (group_loop (length ops) context (c - context) ?hi cs)"
    proof (rule Cons.IH [OF rest])
      show "c - context = 0 \<or> (c - context < ?hi \<and> kept_at ops (c - context))"
        using False assms c keep [of "c - context"] by auto
    qed (use False c keep in auto)
    with False lh show ?thesis by simp
  qed
qed

lemma groups_cover: "1 \<le> context \<Longrightarrow> covers ops 0 (groups_of ops context)"
proof -
  assume ctx: "1 \<le> context"
  have mem: "k \<in> set (changed_at ops) \<longleftrightarrow> k < length ops \<and> \<not> kept_at ops k" for k
    by (auto simp: changed_at_def kept_at_def)
  have sorted: "sorted_wrt (<) (changed_at ops)" unfolding changed_at_def by (intro sorted_wrt_filter sorted_wrt_upt)
  show ?thesis
  proof (cases "changed_at ops")
    case Nil
    then show ?thesis using mem by (auto simp: groups_of_def)
  next
    case (Cons c cs)
    let ?hi = "min (length ops) (c + context + 1)"
    have c: "c < length ops" using mem [of c] Cons by simp
    have keep: "kept_at ops k" if "k < c" for k
    proof (rule ccontr)
      assume "\<not> kept_at ops k"
      with mem [of k] that c have "k \<in> set (c # cs)" using Cons by simp
      with sorted that Cons show False by auto
    qed
    have s1: "sorted_wrt (<) cs" using sorted Cons by simp
    have s2: "\<forall>d \<in> set cs. d < length ops \<and> ?hi \<le> d + context + 1"
    proof
      fix d assume d: "d \<in> set cs"
      then have "c < d" using sorted Cons by simp
      with d mem [of d] Cons show "d < length ops \<and> ?hi \<le> d + context + 1" by auto
    qed
    have s3: "\<forall>k. ?hi \<le> k \<longrightarrow> k < length ops \<longrightarrow> \<not> kept_at ops k \<longrightarrow> k \<in> set cs"
    proof (intro allI impI)
      fix k assume k: "?hi \<le> k" "k < length ops" "\<not> kept_at ops k"
      then have "k \<noteq> c" using c by auto
      with mem [of k] k Cons show "k \<in> set cs" by auto
    qed
    have "covers ops 0 (group_loop (length ops) context (c - context) ?hi cs)"
    proof (rule group_loop_covers [OF ctx s1 s2 s3])
      show "c - context = 0 \<or> (c - context < ?hi \<and> kept_at ops (c - context))"
        using keep [of "c - context"] c ctx by (cases "c \<le> context") auto
    qed (use keep c in auto)
    with Cons show ?thesis by (simp add: groups_of_def)
  qed
qed

section \<open>Applying a diff\<close>

text \<open>What a reader of the diff does with it: a hunk replaces its old lines, found at the printed
  place, by its new ones, which end up at the printed place.\<close>

fun patch :: "nat \<Rightarrow> nat \<Rightarrow> string list \<Rightarrow> (nat \<times> string list \<times> nat \<times> string list) list \<Rightarrow> string list option" where
  "patch i j rest [] = Some rest"
| "patch i j rest ((sa, old, sb, new) # hs) =
     (if i \<le> sa \<and> j \<le> sb \<and> sa - i = sb - j \<and> sa - i \<le> length rest \<and> take (length old) (drop (sa - i) rest) = old
      then map_option (\<lambda>t. take (sa - i) rest @ new @ t)
        (patch (sa + length old) (sb + length new) (drop (sa - i + length old) rest) hs)
      else None)"

definition hunk_edit :: "string list \<Rightarrow> string list \<Rightarrow> hunk \<Rightarrow> nat \<times> string list \<times> nat \<times> string list" where
  "hunk_edit a b h = (h_aStart h, a_lines a (h_ops h), h_bStart h, b_lines b (h_ops h))"

lemma at_append: "a_at ops hi = a_at ops lo + length (filter in_a (slice ops lo hi))"
  "b_at ops hi = b_at ops lo + length (filter in_b (slice ops lo hi))" if "lo \<le> hi"
proof -
  have "take hi ops = take lo ops @ slice ops lo hi" using that by (simp add: slice_def flip: take_add)
  then show "a_at ops hi = a_at ops lo + length (filter in_a (slice ops lo hi))"
    "b_at ops hi = b_at ops lo + length (filter in_b (slice ops lo hi))" by (simp_all add: a_at_def b_at_def)
qed

lemma drop_slice: "lo \<le> hi \<Longrightarrow> drop lo ops = slice ops lo hi @ drop hi ops"
  by (simp add: slice_def) (metis append_take_drop_id drop_drop le_add_diff_inverse2)

lemma slice_kept: "\<forall>k. lo \<le> k \<longrightarrow> k < hi \<longrightarrow> kept_at ops k \<Longrightarrow> hi \<le> length ops \<Longrightarrow> \<forall>o' \<in> set (slice ops lo hi). o_kind o' = CHR '' ''"
  by (auto simp: slice_def kept_at_def in_set_conv_nth)

lemma patch_script:
  assumes "script a b 0 0 ops"
  shows "covers ops p gs \<Longrightarrow> p \<le> length ops \<Longrightarrow>
    patch (a_at ops p) (b_at ops p) (drop (a_at ops p) a) (map (\<lambda>(lo, hi). hunk_edit a b (hunk_of (slice ops lo hi))) gs)
      = Some (drop (b_at ops p) b)"
proof (induction gs arbitrary: p)
  case Nil
  have s: "script a b (a_at ops p) (b_at ops p) (drop p ops @ [])" using script_drop [OF assms, of p] by simp
  have "\<forall>o' \<in> set (drop p ops). o_kind o' = CHR '' ''"
    using slice_kept [of p "length ops" ops] Nil.prems(1) by (simp add: slice_def)
  from script_keeps [OF s this] have "take (length ops - p) (drop (a_at ops p) a) = take (length ops - p) (drop (b_at ops p) b)"
    "length (filter in_a (drop p ops)) = length ops - p" "length (filter in_b (drop p ops)) = length ops - p" by simp_all
  moreover from this(2,3) script_bound [OF s] have "a_at ops p + (length ops - p) = length a" "b_at ops p + (length ops - p) = length b"
    by simp_all
  then have "length (drop (a_at ops p) a) = length ops - p" "length (drop (b_at ops p) b) = length ops - p"
    unfolding length_drop by (metis diff_add_inverse)+
  ultimately have "drop (a_at ops p) a = drop (b_at ops p) b" by (metis order_refl take_all)
  then show ?case by simp
next
  case (Cons g gs)
  obtain lo hi where g: "g = (lo, hi)" by (cases g)
  from Cons.prems(1) have c: "p \<le> lo" "lo \<le> hi" "hi \<le> length ops" "\<forall>k. p \<le> k \<longrightarrow> k < lo \<longrightarrow> kept_at ops k"
    "lo = 0 \<or> (lo < hi \<and> kept_at ops lo)" "covers ops hi gs" by (simp_all add: g)
  let ?seg = "slice ops lo hi"
  have s1: "script a b (a_at ops p) (b_at ops p) (slice ops p lo @ drop lo ops)"
    using script_drop [OF assms, of p] unfolding drop_slice [OF c(1), of ops] .
  have len: "length (slice ops p lo) = lo - p" using c by (simp add: slice_def)
  note k = script_keeps [OF s1 slice_kept [OF c(4)]]
  have A: "a_at ops lo = a_at ops p + (lo - p)" and B: "b_at ops lo = b_at ops p + (lo - p)"
    and same: "take (lo - p) (drop (a_at ops p) a) = take (lo - p) (drop (b_at ops p) b)"
    using k c at_append [OF c(1), of ops] len by simp_all
  have s2: "script a b (a_at ops lo) (b_at ops lo) (?seg @ drop hi ops)"
    using script_drop [OF assms, of lo] unfolding drop_slice [OF c(2), of ops] .
  note l = script_lines [OF s2]
  have start: "first_of o_ai (filter in_a ?seg) = a_at ops lo" "first_of o_bi (filter in_b ?seg) = b_at ops lo"
  proof -
    have "lo = 0 \<or> (filter in_a ?seg \<noteq> [] \<and> filter in_b ?seg \<noteq> [])"
    proof (rule disjE [OF c(5)])
      assume "lo < hi \<and> kept_at ops lo"
      moreover from this have "ops ! lo \<in> set ?seg"
        using c(3) by (auto simp: slice_def in_set_conv_nth intro!: exI [of _ 0])
      ultimately have "ops ! lo \<in> set (filter in_a ?seg)" "ops ! lo \<in> set (filter in_b ?seg)"
        by (simp_all add: kept_at_def in_a_def in_b_def)
      then show ?thesis by (metis empty_iff list.set(1))
    qed simp
    then show "first_of o_ai (filter in_a ?seg) = a_at ops lo" "first_of o_bi (filter in_b ?seg) = b_at ops lo"
      using l by (auto simp: a_at_def b_at_def)
  qed
  have next': "a_at ops hi = a_at ops lo + length (a_lines a ?seg)" "b_at ops hi = b_at ops lo + length (b_lines b ?seg)"
    using at_append [OF c(2), of ops] by (simp_all add: a_lines_def b_lines_def)
  have old: "a_lines a ?seg = take (length (a_lines a ?seg)) (drop (a_at ops lo) a)"
    and new: "b_lines b ?seg = take (length (b_lines b ?seg)) (drop (b_at ops lo) b)"
  proof -
    have "length (a_lines a ?seg) = length (filter in_a ?seg)" "length (b_lines b ?seg) = length (filter in_b ?seg)"
      by (simp_all add: a_lines_def b_lines_def)
    with l show "a_lines a ?seg = take (length (a_lines a ?seg)) (drop (a_at ops lo) a)"
      "b_lines b ?seg = take (length (b_lines b ?seg)) (drop (b_at ops lo) b)" by metis+
  qed
  have bound: "a_at ops lo \<le> length a" using script_bound [OF s2] by simp
  have e: "hunk_edit a b (hunk_of ?seg) = (a_at ops lo, a_lines a ?seg, b_at ops lo, b_lines b ?seg)"
    by (simp add: hunk_edit_def hunk_of_def start)
  have IH: "patch (a_at ops hi) (b_at ops hi) (drop (a_at ops hi) a) (map (\<lambda>(lo, hi). hunk_edit a b (hunk_of (slice ops lo hi))) gs)
      = Some (drop (b_at ops hi) b)"
    by (rule Cons.IH [OF c(6,3)])
  have "drop (a_at ops lo - a_at ops p + length (a_lines a ?seg)) (drop (a_at ops p) a) = drop (a_at ops hi) a"
    using A next' by (simp add: ac_simps)
  moreover have "drop (b_at ops p) b = take (lo - p) (drop (b_at ops p) b) @ b_lines b ?seg @ drop (b_at ops hi) b"
    using new next'(2) B by (metis append_take_drop_id drop_drop add.commute)
  ultimately show ?case
    using IH A B same old bound by (simp add: g e next' add.commute)
qed

section \<open>The whole diff\<close>

lemma script_retouch: "script a b i j (xs @ [keep_op x y]) \<Longrightarrow> script a b i j (xs @ [del_op x, ins_op y])"
proof (induction xs arbitrary: i j)
  case (Cons o' xs)
  then have "script a b i j (o' # (xs @ [keep_op x y]))" by simp
  then show ?case by (cases rule: script_cases) (simp_all add: Cons.IH)
qed simp

lemma script_mem: "script a b i j ops \<Longrightarrow> o' \<in> set ops \<Longrightarrow>
    (in_a o' \<longrightarrow> o_ai o' < length a) \<and> (in_b o' \<longrightarrow> o_bi o' < length b) \<and>
    (o_kind o' = CHR '' '' \<longrightarrow> o' = keep_op (o_ai o') (o_bi o'))"
proof (induction ops arbitrary: i j)
  case (Cons x xs)
  from Cons.prems(1) show ?case by (cases rule: script_cases) (use Cons.prems(2) Cons.IH in auto)
qed simp

lemma unified_script: "script (fst (td_splitLines a)) (fst (td_splitLines b)) 0 0 (unified_ops a b)"
proof -
  obtain al aNL where a: "td_splitLines a = (al, aNL)" by fastforce
  obtain bl bNL where b: "td_splitLines b = (bl, bNL)" by fastforce
  let ?ops = "diffOps al bl"
  show ?thesis
  proof (cases "aNL \<noteq> bNL \<and> \<not> anyChanged ?ops \<and> ?ops \<noteq> []")
    case True
    then have "last ?ops \<in> set ?ops" by simp
    with True have "o_kind (last ?ops) = CHR '' ''" by (auto simp: anyChanged_def list_ex_iff)
    with script_mem [OF diffOps_script \<open>last ?ops \<in> set ?ops\<close>] have "last ?ops = keep_op (o_ai (last ?ops)) (o_bi (last ?ops))" by blast
    then have "?ops = butlast ?ops @ [keep_op (o_ai (last ?ops)) (o_bi (last ?ops))]" using True by (metis append_butlast_last_id)
    with diffOps_script [of al bl] have "script al bl 0 0 (butlast ?ops @ [keep_op (o_ai (last ?ops)) (o_bi (last ?ops))])" by metis
    from script_retouch [OF this] True show ?thesis by (simp add: unified_ops_def a b Let_def)
  next
    case False
    then show ?thesis using diffOps_script [of al bl] by (auto simp: unified_ops_def a b Let_def)
  qed
qed

lemma write_all_total: "(\<And>x. x \<in> set xs \<Longrightarrow> \<exists>s. f x = Inr s) \<Longrightarrow> \<exists>s. write_all f xs = Inr s"
proof (induction xs)
  case (Cons x xs)
  then obtain s t where "f x = Inr s" "write_all f xs = Inr t" by (meson list.set_intros)
  then show ?case by simp
qed simp

lemma writeOp_total: "script a b i j ops \<Longrightarrow> o' \<in> set ops \<Longrightarrow> \<exists>s. writeOp a b aNL bNL o' = Inr s"
  using script_mem [of a b i j ops o'] by (auto simp: writeOp_def line_at_def in_a_def in_b_def)

lemma hunk_ops: "h \<in> set (hunks ops context) \<Longrightarrow> set (h_ops h) \<subseteq> set ops \<and>
    h_aLen h = length (a_lines a (h_ops h)) \<and> h_bLen h = length (b_lines b (h_ops h))"
proof -
  assume "h \<in> set (hunks ops context)"
  then obtain lo hi where h: "h = hunk_of (slice ops lo hi)" by (auto simp: hunks_def)
  have "set (slice ops lo hi) \<subseteq> set ops" unfolding slice_def by (meson order_trans set_drop_subset set_take_subset)
  with h show ?thesis by (simp add: hunk_of_def a_lines_def b_lines_def)
qed

lemma hunks_written: "script al bl 0 0 ops \<Longrightarrow> \<exists>s. write_all (writeHunk al bl aNL bNL) (hunks ops context) = Inr s"
proof (rule write_all_total)
  fix h assume s: "script al bl 0 0 ops" and h: "h \<in> set (hunks ops context)"
  have "\<exists>t. write_all (writeOp al bl aNL bNL) (h_ops h) = Inr t"
    using hunk_ops [OF h] by (intro write_all_total writeOp_total [OF s]) auto
  then show "\<exists>t. writeHunk al bl aNL bNL h = Inr t" by (auto simp: writeHunk_def)
qed

text \<open>The entries that keep a line align the texts.\<close>

definition kept_pairs :: "edit_op list \<Rightarrow> (nat \<times> nat) list" where
  "kept_pairs ops = map (\<lambda>o'. (o_ai o', o_bi o')) (filter (\<lambda>o'. o_kind o' = CHR '' '') ops)"

lemma kept_aligned: "script a b i j ops \<Longrightarrow> aligned a b i j (kept_pairs ops)"
proof (induction ops arbitrary: i j)
  case (Cons o' ops)
  from Cons.prems show ?case
    by (cases rule: script_cases)
      (use Cons.IH aligned_mono [of a b "i + 1" j "kept_pairs ops" i j] aligned_mono [of a b i "j + 1" "kept_pairs ops" i j]
        in \<open>auto simp: kept_pairs_def\<close>)
qed (simp add: kept_pairs_def)

lemma loop_kept: "length (kept_pairs (ops_loop n m ps i j)) = length ps"
proof (induction n m ps i j rule: ops_loop.induct)
  case (1 n m i j)
  then show ?case by (simp add: kept_pairs_def filter_empty_conv)
next
  case (2 n m x y ps i j)
  have "filter (\<lambda>o'. o_kind o' = CHR '' '') (map del_op xs) = []" "filter (\<lambda>o'. o_kind o' = CHR '' '') (map ins_op xs) = []" for xs
    by (simp_all add: filter_empty_conv)
  with 2 show ?case by (simp add: kept_pairs_def Let_def del: filter_map)
qed

definition count_kind :: "char \<Rightarrow> edit_op list \<Rightarrow> nat" where
  "count_kind c ops = length (filter (\<lambda>o'. o_kind o' = c) ops)"

lemma script_counts: "script a b i j ops \<Longrightarrow>
    i + length (kept_pairs ops) + count_kind (CHR ''-'') ops = length a \<and> j + length (kept_pairs ops) + count_kind (CHR ''+'') ops = length b"
proof (induction ops arbitrary: i j)
  case (Cons o' ops)
  from Cons.prems show ?case
    by (cases rule: script_cases) (use Cons.IH in \<open>fastforce simp: kept_pairs_def count_kind_def\<close>)+
qed (simp add: kept_pairs_def count_kind_def)

lemma diffOps_kept: "length (kept_pairs (diffOps a b)) = lcs_len a b"
  using walk_length [of a b 0 0] by (simp add: diffOps_def loop_kept td_lcs_def lcsPairs_def)

section \<open>Properties\<close>


definition demo_old :: "byte list" where
  "demo_old = bytes_of (''one'' @ newline # ''two'' @ [newline])"

definition demo_new :: "byte list" where
  "demo_new = bytes_of (''one'' @ newline # ''2'' @ newline # ''three'' @ [newline])"




lemma split_newline:
  assumes "b \<noteq> []" "last b \<noteq> 10"
  shows "td_splitLines b = (split_on newline (string_of b), False)"
    "td_splitLines (b @ [10]) = (split_on newline (string_of b), True)"
proof -
  have nl: "char_of_byte 10 = newline" by code_simp
  have "char_of_byte x \<noteq> newline" if "x \<noteq> 10" for x using that nl byte_char_inverse by metis
  moreover obtain us z where "b = us @ [z]" using assms(1) by (cases b rule: rev_cases) auto
  ultimately have "\<not> has_suffix (string_of b) [newline]"
    using assms(2) by (simp add: has_suffix_iff string_of_def)
  then show "td_splitLines b = (split_on newline (string_of b), False)" using assms(1) by (simp add: td_splitLines_def Let_def)
  have "string_of (b @ [10]) = string_of b @ [newline]" using nl by (simp add: string_of_def)
  then show "td_splitLines (b @ [10]) = (split_on newline (string_of b), True)"
    by (simp add: td_splitLines_def Let_def has_suffix_iff)
qed

lemma last_kept:
  "script a b i j (xs @ [keep_op x y]) \<Longrightarrow> o' \<in> set (xs @ [keep_op x y]) \<Longrightarrow> o_kind o' = CHR ''+'' \<Longrightarrow> o_bi o' \<noteq> length b - 1"
proof (induction xs arbitrary: i j)
  case (Cons z xs)
  then have s: "script a b i j (z # (xs @ [keep_op x y]))" by simp
  then show ?case
  proof (cases rule: script_cases)
    case ins
    have "j + 1 < length b" using script_bound [OF ins(3)] by simp
    with ins Cons.IH [of i "j + 1"] Cons.prems(2,3) show ?thesis by auto
  qed (use Cons.prems Cons.IH in auto)
qed simp

text \<open>A change of the last newline is lost when the last line is kept and another line changed: the
  diff to a text without a final newline and the diff to the same text with one are the same
  text, so applying it cannot give back both.\<close>

theorem newline_change_lost:
  assumes "b \<noteq> []" "last b \<noteq> 10" "a \<noteq> b" "a \<noteq> b @ [10]"
    and "anyChanged (diffOps (fst (td_splitLines a)) (fst (td_splitLines b)))"
    and "o_kind (last (diffOps (fst (td_splitLines a)) (fst (td_splitLines b)))) = CHR '' ''"
  shows "Unified a b labelA labelB context = Unified a (b @ [10]) labelA labelB context"
proof -
  obtain al aNL where a: "td_splitLines a = (al, aNL)" by fastforce
  define bl where "bl = split_on newline (string_of b)"
  have b: "td_splitLines b = (bl, False)" "td_splitLines (b @ [10]) = (bl, True)"
    using split_newline [OF assms(1,2)] by (simp_all add: bl_def)
  let ?ops = "diffOps al bl"
  have ops: "unified_ops a b = ?ops" "unified_ops a (b @ [10]) = ?ops"
    using assms(5) by (simp_all add: unified_ops_def a b Let_def)
  have "?ops \<noteq> []" using assms(5) by (auto simp: a b anyChanged_def)
  have "last ?ops = keep_op (o_ai (last ?ops)) (o_bi (last ?ops))"
    using script_mem [OF diffOps_script [of al bl] last_in_set [OF \<open>?ops \<noteq> []\<close>]] assms(6) unfolding a b fst_conv by blast
  with \<open>?ops \<noteq> []\<close> have "?ops = butlast ?ops @ [keep_op (o_ai (last ?ops)) (o_bi (last ?ops))]"
    by (metis append_butlast_last_id)
  with last_kept [of al bl 0 0 "butlast ?ops"] diffOps_script [of al bl]
  have "o' \<in> set ?ops \<Longrightarrow> o_kind o' = CHR ''+'' \<Longrightarrow> o_bi o' \<noteq> length bl - 1" for o' by metis
  then have "o' \<in> set ?ops \<Longrightarrow> writeOp al bl aNL False o' = writeOp al bl aNL True o'" for o'
    by (auto simp: writeOp_def)
  moreover have wcong: "(\<And>x. x \<in> set xs \<Longrightarrow> f x = g x) \<Longrightarrow> write_all f xs = write_all g xs" for f g and xs :: "'x list"
    by (induction xs) simp_all
  ultimately have "h \<in> set (hunks ?ops c) \<Longrightarrow> writeHunk al bl aNL False h = writeHunk al bl aNL True h" for h c
    using hunk_ops [of h ?ops c] wcong [of "h_ops h" "writeOp al bl aNL False" "writeOp al bl aNL True"]
    by (simp add: writeHunk_def subset_iff)
  then have "write_all (writeHunk al bl aNL False) (hunks ?ops c) = write_all (writeHunk al bl aNL True) (hunks ?ops c)" for c
    by (rule wcong)
  then show ?thesis using assms(3,4) by (simp add: Unified_def a b ops)
qed

theorem newline_change_lost_witness:
  "Unified (bytes_of (''x'' @ newline # ''y'' @ [newline])) (bytes_of (''z'' @ newline # ''y'')) la lb 3
    = Unified (bytes_of (''x'' @ newline # ''y'' @ [newline])) (bytes_of (''z'' @ newline # ''y'') @ [10]) la lb 3"
proof (rule newline_change_lost)
  let ?a = "bytes_of (''x'' @ newline # ''y'' @ [newline])" and ?b = "bytes_of (''z'' @ newline # ''y'')"
  show "?b \<noteq> []" "last ?b \<noteq> 10" "?a \<noteq> ?b" "?a \<noteq> ?b @ [10]"
    "anyChanged (diffOps (fst (td_splitLines ?a)) (fst (td_splitLines ?b)))"
    "o_kind (last (diffOps (fst (td_splitLines ?a)) (fst (td_splitLines ?b)))) = CHR '' ''"
    by code_simp+
qed

end
