(* ===== verification/Worktree.thy ===== *)
theory Worktree
  imports TreeFiles Strconv
begin

text \<open>
  \<^verbatim>\<open>internal/worktree\<close>: a working tree as objects, the scan with its index of unchanged files, the
  comparison of two states and the selection of what a proposal contains. A directory is a snapshot:
  its entries in the order \<^verbatim>\<open>os.ReadDir\<close> gives them, each with what the system calls on it answer.
\<close>

section \<open>A directory\<close>

record fstat =
  st_size :: int
  st_mtimeNs :: int
  st_inode :: u64
  st_exec :: bool

datatype node =
    Regular fstat "goerr + byte list"     \<comment> \<open>what \<^verbatim>\<open>os.ReadFile\<close> answers\<close>
  | Link "goerr + string"                 \<comment> \<open>what \<^verbatim>\<open>os.Readlink\<close> answers\<close>
  | Directory "goerr option" "(string \<times> node) list"
  | Special                               \<comment> \<open>a socket, a device\<close>
  | NoInfo goerr                          \<comment> \<open>\<^verbatim>\<open>de.Info\<close> fails\<close>

definition modeExec :: u32 where "modeExec = 33261"
definition modeSymlink :: u32 where "modeSymlink = 40960"

definition skipped :: "string \<Rightarrow> bool" where
  "skipped name = (name = ''.varvig'' \<or> name = ''.git'')"

definition put_blob :: "hash_funs \<Rightarrow> objstore \<Rightarrow> byte list \<Rightarrow> (goerr + multihash) \<times> objstore" where
  "put_blob h s b = (case NewBlob b of Inl e \<Rightarrow> (Inl e, s) | Inr obj \<Rightarrow> Put h s obj)"

definition blob_entry :: "string \<Rightarrow> u32 \<Rightarrow> multihash \<Rightarrow> entry" where
  "blob_entry name mode i = \<lparr>ename = name, emode = mode, ekind = TypeBlob, eid = i\<rparr>"

definition file_mode :: "fstat \<Rightarrow> u32" where
  "file_mode st = (if st_exec st then modeExec else modeFile)"

section \<open>A directory as a tree\<close>

fun WriteTree :: "hash_funs \<Rightarrow> objstore \<Rightarrow> node \<Rightarrow> (goerr + multihash) \<times> objstore"
  and write_entries :: "hash_funs \<Rightarrow> objstore \<Rightarrow> (string \<times> node) list \<Rightarrow> (goerr + entry list) \<times> objstore"
  and write_entry :: "hash_funs \<Rightarrow> objstore \<Rightarrow> string \<Rightarrow> node \<Rightarrow> (goerr + entry) \<times> objstore" where
  "WriteTree h s (Directory err ents) =
     (case err of
        Some e \<Rightarrow> (Inl e, s)
      | None \<Rightarrow>
          (case write_entries h s ents of
             (Inl e, s) \<Rightarrow> (Inl e, s)
           | (Inr entries, s) \<Rightarrow>
               (case NewTree entries of Inl e \<Rightarrow> (Inl e, s) | Inr obj \<Rightarrow> Put h s obj)))"
| "WriteTree h s _ = (Inl (Plain ''not a directory''), s)"
| "write_entries h s [] = (Inr [], s)"
| "write_entries h s ((name, nd) # rest) =
     (if skipped name then write_entries h s rest
      else
        (case write_entry h s name nd of
           (Inl e, s) \<Rightarrow> (Inl e, s)
         | (Inr en, s) \<Rightarrow>
             (case write_entries h s rest of
                (Inl e, s) \<Rightarrow> (Inl e, s)
              | (Inr es, s) \<Rightarrow> (Inr (en # es), s))))"
| "write_entry h s name (NoInfo e) = (Inl e, s)"
| "write_entry h s name (Link target) =
     (case target of
        Inl e \<Rightarrow> (Inl e, s)
      | Inr t \<Rightarrow>
          (case put_blob h s (bytes_of t) of
             (Inl e, s) \<Rightarrow> (Inl e, s)
           | (Inr i, s) \<Rightarrow> (Inr (blob_entry name modeSymlink i), s)))"
| "write_entry h s name (Directory err ents) =
     (case WriteTree h s (Directory err ents) of
        (Inl e, s) \<Rightarrow> (Inl e, s)
      | (Inr i, s) \<Rightarrow> (Inr (dir_entry name i), s))"
| "write_entry h s name (Regular st content) =
     (case content of
        Inl e \<Rightarrow> (Inl e, s)
      | Inr b \<Rightarrow>
          (case put_blob h s b of
             (Inl e, s) \<Rightarrow> (Inl e, s)
           | (Inr i, s) \<Rightarrow> (Inr (blob_entry name (file_mode st) i), s)))"
| "write_entry h s name Special = (Inl (Plain ''worktree: unsupported file type''), s)"

section \<open>The index of unchanged files\<close>

record index_entry =
  ie_size :: int
  ie_mtimeNs :: int
  ie_inode :: u64
  ie_mode :: u32
  ie_hash :: string

record windex =
  ix_written :: int
  ix_entries :: "(string \<times> index_entry) list"

text \<open>The division of Go rounds towards zero.\<close>

definition go_div :: "int \<Rightarrow> int \<Rightarrow> int" where
  "go_div a b = sgn a * sgn b * (\<bar>a\<bar> div \<bar>b\<bar>)"

definition ix_clean :: "windex \<Rightarrow> string \<Rightarrow> fstat \<Rightarrow> u32 \<Rightarrow> multihash option" where
  "ix_clean ix rel st mode =
     (case map_of (ix_entries ix) rel of
        None \<Rightarrow> None
      | Some e \<Rightarrow>
          if ie_size e \<noteq> st_size st \<or> ie_mtimeNs e \<noteq> st_mtimeNs st \<or> ie_inode e \<noteq> st_inode st \<or> ie_mode e \<noteq> mode
          then None
          else if ix_written ix \<noteq> 0 \<and> go_div (st_mtimeNs st) 1000000000 \<ge> go_div (ix_written ix) 1000000000 then None
          else (case ParseHex (ie_hash e) of Inl _ \<Rightarrow> None | Inr hash \<Rightarrow> Some hash))"

definition ix_put :: "string \<Rightarrow> fstat \<Rightarrow> u32 \<Rightarrow> multihash \<Rightarrow> windex \<Rightarrow> windex" where
  "ix_put rel st mode hash ix =
     ix\<lparr>ix_entries := AList.update rel
          \<lparr>ie_size = st_size st, ie_mtimeNs = st_mtimeNs st, ie_inode = st_inode st, ie_mode = mode, ie_hash = Hex hash\<rparr>
          (ix_entries ix)\<rparr>"

definition ix_stamp :: "int \<Rightarrow> windex \<Rightarrow> windex" where
  "ix_stamp now ix = ix\<lparr>ix_written := now\<rparr>"

section \<open>Scanning\<close>

record scan_state =
  sc_store :: objstore
  sc_index :: windex
  sc_out :: files

definition sc_set :: "string \<Rightarrow> multihash \<Rightarrow> u32 \<Rightarrow> scan_state \<Rightarrow> scan_state" where
  "sc_set rel hash mode c = c\<lparr>sc_out := AList.update rel \<lparr>fe_id = hash, fe_mode = mode\<rparr> (sc_out c)\<rparr>"

fun scanDir :: "hash_funs \<Rightarrow> node \<Rightarrow> string \<Rightarrow> scan_state \<Rightarrow> (goerr + unit) \<times> scan_state"
  and scan_entries :: "hash_funs \<Rightarrow> (string \<times> node) list \<Rightarrow> string \<Rightarrow> scan_state \<Rightarrow> (goerr + unit) \<times> scan_state"
  and scan_entry :: "hash_funs \<Rightarrow> node \<Rightarrow> string \<Rightarrow> scan_state \<Rightarrow> (goerr + unit) \<times> scan_state" where
  "scanDir h (Directory err ents) prefix c =
     (case err of Some e \<Rightarrow> (Inl e, c) | None \<Rightarrow> scan_entries h ents prefix c)"
| "scanDir h _ prefix c = (Inl (Plain ''not a directory''), c)"
| "scan_entries h [] prefix c = (Inr (), c)"
| "scan_entries h ((name, nd) # rest) prefix c =
     (if skipped name then scan_entries h rest prefix c
      else
        (case scan_entry h nd (entry_path prefix name) c of
           (Inl e, c) \<Rightarrow> (Inl e, c)
         | (Inr _, c) \<Rightarrow> scan_entries h rest prefix c))"
| "scan_entry h (NoInfo e) rel c = (Inl e, c)"
| "scan_entry h (Link target) rel c =
     (case target of
        Inl e \<Rightarrow> (Inl e, c)
      | Inr t \<Rightarrow>
          (case put_blob h (sc_store c) (bytes_of t) of
             (Inl e, s) \<Rightarrow> (Inl e, c\<lparr>sc_store := s\<rparr>)
           | (Inr i, s) \<Rightarrow> (Inr (), sc_set rel i modeSymlink (c\<lparr>sc_store := s\<rparr>))))"
| "scan_entry h (Directory err ents) rel c = scanDir h (Directory err ents) rel c"
| "scan_entry h (Regular st content) rel c =
     (let mode = file_mode st in
      case ix_clean (sc_index c) rel st mode of
        Some hash \<Rightarrow> (Inr (), sc_set rel hash mode c)
      | None \<Rightarrow>
          (case content of
             Inl e \<Rightarrow> (Inl e, c)
           | Inr b \<Rightarrow>
               (case put_blob h (sc_store c) b of
                  (Inl e, s) \<Rightarrow> (Inl e, c\<lparr>sc_store := s\<rparr>)
                | (Inr i, s) \<Rightarrow>
                    (Inr (), sc_set rel i mode (c\<lparr>sc_store := s, sc_index := ix_put rel st mode i (sc_index c)\<rparr>)))))"
| "scan_entry h Special rel c = (Inr (), c)"

text \<open>The scan, the store and the index after it.\<close>

definition Scan :: "hash_funs \<Rightarrow> objstore \<Rightarrow> node \<Rightarrow> windex \<Rightarrow> (goerr + files) \<times> objstore \<times> windex" where
  "Scan h s dir ix =
     (case scanDir h dir [] \<lparr>sc_store = s, sc_index = ix, sc_out = []\<rparr> of
        (Inl e, c) \<Rightarrow> (Inl e, sc_store c, sc_index c)
      | (Inr _, c) \<Rightarrow>
          (Inr (sc_out c), sc_store c,
           (sc_index c)\<lparr>ix_entries := filter (\<lambda>(rel, e). map_of (sc_out c) rel \<noteq> None) (ix_entries (sc_index c))\<rparr>))"

text \<open>\<^verbatim>\<open>FlattenStates\<close> and \<^verbatim>\<open>BuildTree\<close> are, statement by statement, the \<^verbatim>\<open>flatten\<close> and \<^verbatim>\<open>buildTree\<close> of
  package \<^verbatim>\<open>merge\<close>.\<close>

definition FlattenStates :: "nat \<Rightarrow> hash_funs \<Rightarrow> objstore \<Rightarrow> multihash option \<Rightarrow> goerr + files" where
  "FlattenStates stk h s treeID = flatten stk h s treeID"

definition BuildTree :: "hash_funs \<Rightarrow> objstore \<Rightarrow> files \<Rightarrow> (goerr + multihash) \<times> objstore" where
  "BuildTree h s files = buildTree h s files"

section \<open>Comparing\<close>

record rename =
  rn_From :: string
  rn_To :: string

record wt_diff =
  wd_Added :: "string list"
  wd_Modified :: "string list"
  wd_Removed :: "string list"
  wd_ModeChanged :: "string list"
  wd_Renamed :: "rename list"

definition wd_Empty :: "wt_diff \<Rightarrow> bool" where
  "wd_Empty d = (length (wd_Added d) + length (wd_Modified d) + length (wd_Removed d) + length (wd_ModeChanged d)
     + length (wd_Renamed d) = 0)"

definition hash_key :: "files \<Rightarrow> string \<Rightarrow> string" where
  "hash_key m p = (case map_of m p of Some fe \<Rightarrow> Hex (fe_id fe) | None \<Rightarrow> Hex [])"

text \<open>The loop over the removed paths: the renames, the paths removed, the added paths used.\<close>

fun find_renames :: "files \<Rightarrow> (string \<times> string) list \<Rightarrow> string list \<Rightarrow> string list \<Rightarrow>
    rename list \<times> string list \<times> string list" where
  "find_renames base byHash used [] = ([], [], used)"
| "find_renames base byHash used (r # rs) =
     (case map_of byHash (hash_key base r) of
        Some to \<Rightarrow>
          if to \<notin> set used
          then (case find_renames base byHash (to # used) rs of (rns, rms, used) \<Rightarrow> (\<lparr>rn_From = r, rn_To = to\<rparr> # rns, rms, used))
          else (case find_renames base byHash used rs of (rns, rms, used) \<Rightarrow> (rns, r # rms, used))
      | None \<Rightarrow> (case find_renames base byHash used rs of (rns, rms, used) \<Rightarrow> (rns, r # rms, used)))"

definition Compare :: "files \<Rightarrow> files \<Rightarrow> wt_diff" where
  "Compare base work =
     (let added = filter (\<lambda>p. map_of base p = None) (map fst work);
          modified = map fst (filter (\<lambda>(p, ws). case map_of base p of None \<Rightarrow> False | Some bs \<Rightarrow> \<not> Equal (fe_id bs) (fe_id ws)) work);
          chmoded = map fst (filter (\<lambda>(p, ws). case map_of base p of None \<Rightarrow> False
             | Some bs \<Rightarrow> Equal (fe_id bs) (fe_id ws) \<and> fe_mode bs \<noteq> fe_mode ws) work);
          removed = filter (\<lambda>p. map_of work p = None) (map fst base);
          byHash = foldl (\<lambda>m a. AList.update (hash_key work a) a m) [] added
      in case find_renames base byHash [] removed of
           (rns, rms, used) \<Rightarrow>
             \<lparr>wd_Added = sort (filter (\<lambda>a. a \<notin> set used) added), wd_Modified = sort modified, wd_Removed = sort rms,
              wd_ModeChanged = sort chmoded, wd_Renamed = sort_key rn_To rns\<rparr>)"

section \<open>Selecting\<close>

record edit =
  ed_Path :: string
  ed_Del :: bool

definition edits_of :: "wt_diff \<Rightarrow> edit list" where
  "edits_of d =
     (let add = (\<lambda>ps del. map (\<lambda>p. \<lparr>ed_Path = p, ed_Del = del\<rparr>) ps) in
      add (wd_Added d) False @ add (wd_Modified d) False @ add (wd_ModeChanged d) False @ add (wd_Removed d) True @
      concat (map (\<lambda>rn. [\<lparr>ed_Path = rn_From rn, ed_Del = True\<rparr>, \<lparr>ed_Path = rn_To rn, ed_Del = False\<rparr>]) (wd_Renamed d)))"

definition SelectEdits :: "wt_diff \<Rightarrow> (string \<Rightarrow> bool) \<Rightarrow> string \<Rightarrow> string list \<Rightarrow> goerr + edit list" where
  "SelectEdits d covers scopeLabel paths =
     (let edits = edits_of d; outside = map ed_Path (filter (\<lambda>e. \<not> covers (ed_Path e)) edits) in
      if outside \<noteq> [] then
        Inl (Plain (FormatInt 10 (int (length outside)) @ '' path(s) changed outside the declared scope '' @ scopeLabel @
          '': '' @ join_with '', '' (sort outside)))
      else
        (case find (\<lambda>p. p \<notin> ed_Path ` set edits) paths of
           Some p \<Rightarrow> Inl (Plain (''was named but is not among the changed paths: '' @ p))
         | None \<Rightarrow>
             (let edits = (if paths \<noteq> [] then filter (\<lambda>e. ed_Path e \<in> set paths) edits else edits) in
              if edits = [] then
                Inl (Plain (''nothing to propose - the working tree matches the base within scope '' @ scopeLabel))
              else Inr edits)))"

definition no_file :: file_ent where
  "no_file = \<lparr>fe_id = [], fe_mode = 0\<rparr>"

definition Overlay :: "files \<Rightarrow> files \<Rightarrow> edit list \<Rightarrow> files" where
  "Overlay base work edits =
     foldl (\<lambda>out e. if ed_Del e then AList.delete (ed_Path e) out
                     else AList.update (ed_Path e) (case map_of work (ed_Path e) of Some fe \<Rightarrow> fe | None \<Rightarrow> no_file) out)
       base edits"

section \<open>What a comparison says\<close>

lemma hash_key_iff: "hash_key m p = hash_key m' q \<longleftrightarrow>
    (case map_of m p of Some fe \<Rightarrow> fe_id fe | None \<Rightarrow> []) = (case map_of m' q of Some fe \<Rightarrow> fe_id fe | None \<Rightarrow> [])"
  by (simp add: hash_key_def Hex_inj split: option.splits)

lemma by_hash:
  "map_of (foldl (\<lambda>m a. AList.update (f a) a m) m0 xs) k = Some a \<Longrightarrow> map_of m0 k = Some a \<or> (a \<in> set xs \<and> f a = k)"
proof (induction xs arbitrary: m0)
  case (Cons x xs)
  then show ?case using Cons.IH [of "AList.update (f x) x m0"] by (auto simp: update_conv' split: if_splits)
qed simp

lemma find_renames_spec:
  "find_renames base byHash used rs = (rns, rms, used') \<Longrightarrow>
   set rs = rn_From ` set rns \<union> set rms \<and> set used' = set used \<union> rn_To ` set rns \<and>
   (distinct rs \<longrightarrow> distinct (map rn_From rns @ rms)) \<and>
   distinct (map rn_To rns) \<and> rn_To ` set rns \<inter> set used = {} \<and>
   (\<forall>rn \<in> set rns. map_of byHash (hash_key base (rn_From rn)) = Some (rn_To rn))"
proof (induction base byHash used rs arbitrary: rns rms used' rule: find_renames.induct)
  case (2 base byHash used r rs)
  show ?case
  proof (cases "\<exists>to. map_of byHash (hash_key base r) = Some to \<and> to \<notin> set used")
    case False
    then obtain rms0 where f: "find_renames base byHash used rs = (rns, rms0, used')" "rms = r # rms0"
      using 2(4) by (auto split: option.splits if_splits prod.splits)
    have "set rs = rn_From ` set rns \<union> set rms0 \<and> set used' = set used \<union> rn_To ` set rns \<and>
      (distinct rs \<longrightarrow> distinct (map rn_From rns @ rms0)) \<and> distinct (map rn_To rns) \<and> rn_To ` set rns \<inter> set used = {} \<and>
      (\<forall>rn \<in> set rns. map_of byHash (hash_key base (rn_From rn)) = Some (rn_To rn))"
    proof (cases "map_of byHash (hash_key base r)")
      case None
      show ?thesis by (rule 2(1) [OF None f(1)])
    next
      case (Some to)
      with False have "\<not> to \<notin> set used" by simp
      from 2(3) [OF Some this f(1)] show ?thesis .
    qed
    then show ?thesis using f(2) by auto
  next
    case True
    then obtain to rns0 where t: "map_of byHash (hash_key base r) = Some to" "to \<notin> set used"
      "find_renames base byHash (to # used) rs = (rns0, rms, used')" "rns = \<lparr>rn_From = r, rn_To = to\<rparr> # rns0"
      using 2(4) by (auto split: prod.splits)
    note ih = 2(2) [OF t(1,2,3)]
    have "rn_To ` set rns0 \<inter> set (to # used) = {}" using ih by blast
    then have "distinct (map rn_To rns)" "rn_To ` set rns \<inter> set used = {}" using ih t(2,4) by auto
    moreover have "distinct (r # rs) \<longrightarrow> distinct (map rn_From rns @ rms)" using ih t(4) by auto
    ultimately show ?thesis using ih t(1,4) by simp
  qed
qed simp

definition changed_paths :: "files \<Rightarrow> files \<Rightarrow> string set" where
  "changed_paths base work = {p. map_of base p \<noteq> map_of work p}"

lemma find_renames_set: "rn_From ` set (fst (find_renames b m u rs)) \<union> set (fst (snd (find_renames b m u rs))) = set rs"
  using find_renames_spec [of b m u rs] by (metis prod.collapse)

lemma file_ent_eq: "(fe :: file_ent) = fe' \<longleftrightarrow> fe_id fe = fe_id fe' \<and> fe_mode fe = fe_mode fe'"
  by (metis file_ent.surjective file_ent.cases file_ent.select_convs old.unit.exhaust)


text \<open>What a comparison consists of, without the order.\<close>

definition compare_exact :: "files \<Rightarrow> files \<Rightarrow> wt_diff \<Rightarrow> bool" where
  "compare_exact base work d \<longleftrightarrow>
     set (wd_Added d) \<union> rn_To ` set (wd_Renamed d) = dom (map_of work) - dom (map_of base) \<and>
     set (wd_Removed d) \<union> rn_From ` set (wd_Renamed d) = dom (map_of base) - dom (map_of work) \<and>
     set (wd_Modified d) = {p. \<exists>b w. map_of base p = Some b \<and> map_of work p = Some w \<and> fe_id b \<noteq> fe_id w} \<and>
     set (wd_ModeChanged d) = {p. \<exists>b w. map_of base p = Some b \<and> map_of work p = Some w \<and> fe_id b = fe_id w \<and> fe_mode b \<noteq> fe_mode w} \<and>
     distinct (wd_Added d @ map rn_To (wd_Renamed d)) \<and> distinct (wd_Removed d @ map rn_From (wd_Renamed d)) \<and>
     distinct (wd_Modified d) \<and> distinct (wd_ModeChanged d) \<and>
     (\<forall>rn \<in> set (wd_Renamed d). \<exists>b w. map_of base (rn_From rn) = Some b \<and> map_of work (rn_To rn) = Some w \<and> fe_id b = fe_id w)"

lemma sort_key_perm: "mset (map f (sort_key g xs)) = mset (map f xs)" "distinct (map f (sort_key g xs)) = distinct (map f xs)"
proof -
  show "mset (map f (sort_key g xs)) = mset (map f xs)" by simp
  then show "distinct (map f (sort_key g xs)) = distinct (map f xs)" by (rule mset_eq_imp_distinct_iff)
qed

lemma filtered_keys:
  "distinct (map fst m) \<Longrightarrow> set (map fst (filter (\<lambda>(p, w). P p w) m)) = {p. \<exists>w. map_of m p = Some w \<and> P p w}"
proof -
  assume d: "distinct (map fst m)"
  have "p \<in> set (map fst (filter (\<lambda>(p, w). P p w) m)) \<longleftrightarrow> (\<exists>w. (p, w) \<in> set m \<and> P p w)" for p
    by (induction m) auto
  then show ?thesis using d by (simp add: set_eq_iff)
qed

lemma Compare_exact:
  assumes "distinct (map fst base)" "distinct (map fst work)"
  shows "compare_exact base work (Compare base work)"
proof -
  let ?added = "filter (\<lambda>p. map_of base p = None) (map fst work)"
  let ?removed = "filter (\<lambda>p. map_of work p = None) (map fst base)"
  let ?h = "foldl (\<lambda>m a. AList.update (hash_key work a) a m) [] ?added"
  obtain rns rms used where f: "find_renames base ?h [] ?removed = (rns, rms, used)"
    by (rule prod_cases3)
  note sp = find_renames_spec [OF f]
  let ?d = "Compare base work"
  have d: "wd_Added ?d = sort (filter (\<lambda>a. a \<notin> set used) ?added)" "wd_Removed ?d = sort rms" "wd_Renamed ?d = sort_key rn_To rns"
    "wd_Modified ?d = sort (map fst (filter (\<lambda>(p, ws). case map_of base p of None \<Rightarrow> False | Some bs \<Rightarrow> \<not> Equal (fe_id bs) (fe_id ws)) work))"
    "wd_ModeChanged ?d = sort (map fst (filter (\<lambda>(p, ws). case map_of base p of None \<Rightarrow> False
       | Some bs \<Rightarrow> Equal (fe_id bs) (fe_id ws) \<and> fe_mode bs \<noteq> fe_mode ws) work))"
    unfolding Compare_def Let_def f by simp_all
  have to: "rn_To rn \<in> set ?added \<and> hash_key work (rn_To rn) = hash_key base (rn_From rn)" if "rn \<in> set rns" for rn
    using sp that by_hash [of "hash_key work" "[]" ?added "hash_key base (rn_From rn)" "rn_To rn"] by auto
  have added: "set ?added = dom (map_of work) - dom (map_of base)"
    and removed: "set ?removed = dom (map_of base) - dom (map_of work)"
    by (auto simp: map_of_eq_None_iff dom_map_of_conv_image_fst)
  have used: "set used = rn_To ` set rns" using sp by simp
  have ren: "\<exists>b w. map_of base (rn_From rn) = Some b \<and> map_of work (rn_To rn) = Some w \<and> fe_id b = fe_id w"
    if "rn \<in> set rns" for rn
  proof -
    have "rn_From rn \<in> set ?removed" using sp that by auto
    with to [OF that] show ?thesis unfolding added removed hash_key_iff by auto
  qed
  have a1: "set (wd_Added ?d) \<union> rn_To ` set (wd_Renamed ?d) = dom (map_of work) - dom (map_of base)"
    unfolding d added [symmetric] using to used by auto
  have a2: "set (wd_Removed ?d) \<union> rn_From ` set (wd_Renamed ?d) = dom (map_of base) - dom (map_of work)"
    unfolding d removed [symmetric] using sp by auto
  have a3: "set (wd_Modified ?d) = {p. \<exists>b w. map_of base p = Some b \<and> map_of work p = Some w \<and> fe_id b \<noteq> fe_id w}"
    unfolding d set_sort filtered_keys [OF assms(2)] Equal_iff by (auto split: option.splits)
  have a4: "set (wd_ModeChanged ?d) = {p. \<exists>b w. map_of base p = Some b \<and> map_of work p = Some w \<and> fe_id b = fe_id w \<and> fe_mode b \<noteq> fe_mode w}"
    unfolding d set_sort filtered_keys [OF assms(2)] Equal_iff by (auto split: option.splits)
  have a5: "distinct (wd_Added ?d @ map rn_To (wd_Renamed ?d))"
    unfolding d distinct_append sort_key_perm(2) using sp assms(2) used by auto
  have a6: "distinct (wd_Removed ?d @ map rn_From (wd_Renamed ?d))"
  proof -
    have "distinct (map rn_From rns @ rms)" using sp assms(1) by simp
    then show ?thesis unfolding d distinct_append sort_key_perm(2) by auto
  qed
  have a7: "distinct (wd_Modified ?d)" "distinct (wd_ModeChanged ?d)"
    unfolding d distinct_sort using assms(2) by (rule distinct_map_filter)+
  show ?thesis unfolding compare_exact_def using a1 a2 a3 a4 a5 a6 a7 ren by (simp add: d)
qed


section \<open>What is proposed\<close>

lemma set_edits_of:
  "set (edits_of d) = (\<lambda>p. \<lparr>ed_Path = p, ed_Del = False\<rparr>) ` (set (wd_Added d) \<union> set (wd_Modified d) \<union> set (wd_ModeChanged d) \<union> rn_To ` set (wd_Renamed d)) \<union>
    (\<lambda>p. \<lparr>ed_Path = p, ed_Del = True\<rparr>) ` (set (wd_Removed d) \<union> rn_From ` set (wd_Renamed d))"
  by (auto simp: edits_of_def)

lemma exact_paths:
  assumes "compare_exact base work d"
  shows "set (wd_Added d) \<union> set (wd_Modified d) \<union> set (wd_ModeChanged d) \<union> rn_To ` set (wd_Renamed d) =
      changed_paths base work \<inter> dom (map_of work)"
    and "set (wd_Removed d) \<union> rn_From ` set (wd_Renamed d) = changed_paths base work - dom (map_of work)"
proof -
  note e = assms [unfolded compare_exact_def]
  have "set (wd_Modified d) \<union> set (wd_ModeChanged d) = changed_paths base work \<inter> dom (map_of work) \<inter> dom (map_of base)"
    using e by (auto simp: changed_paths_def file_ent_eq)
  moreover have "set (wd_Added d) \<union> rn_To ` set (wd_Renamed d) = changed_paths base work \<inter> dom (map_of work) - dom (map_of base)"
    using e by (auto simp: changed_paths_def)
  ultimately show "set (wd_Added d) \<union> set (wd_Modified d) \<union> set (wd_ModeChanged d) \<union> rn_To ` set (wd_Renamed d) =
      changed_paths base work \<inter> dom (map_of work)" by blast
  show "set (wd_Removed d) \<union> rn_From ` set (wd_Renamed d) = changed_paths base work - dom (map_of work)"
    using e by (auto simp: changed_paths_def)
qed

lemma edits_exact:
  assumes "compare_exact base work d"
  shows "ed_Path ` set (edits_of d) = changed_paths base work"
    and "e \<in> set (edits_of d) \<Longrightarrow> ed_Del e \<longleftrightarrow> map_of work (ed_Path e) = None"
proof -
  have "ed_Path ` set (edits_of d) = (changed_paths base work \<inter> dom (map_of work)) \<union> (changed_paths base work - dom (map_of work))"
    unfolding set_edits_of exact_paths [OF assms] image_Un image_image by simp
  then show "ed_Path ` set (edits_of d) = changed_paths base work" by blast
  show "e \<in> set (edits_of d) \<Longrightarrow> ed_Del e \<longleftrightarrow> map_of work (ed_Path e) = None"
    unfolding set_edits_of exact_paths [OF assms] by auto
qed

lemma Overlay_edits:
  "\<forall>e \<in> set edits. ed_Del e \<longleftrightarrow> map_of work (ed_Path e) = None \<Longrightarrow>
   map_of (Overlay base work edits) p = (if p \<in> ed_Path ` set edits then map_of work p else map_of base p)"
proof (induction edits arbitrary: base)
  case (Cons e edits)
  then show ?case by (auto simp: Overlay_def update_conv' delete_conv')
qed (simp add: Overlay_def)

lemma select_iff:
  assumes "\<And>e. e \<in> set (edits_of d) \<Longrightarrow> ed_Path e \<in> C" "C = ed_Path ` set (edits_of d)"
  shows "SelectEdits d covers l paths = Inr edits \<longleftrightarrow>
    (\<forall>p \<in> C. covers p) \<and> set paths \<subseteq> C \<and> C \<noteq> {} \<and>
    edits = (if paths = [] then edits_of d else filter (\<lambda>e. ed_Path e \<in> set paths) (edits_of d))"
proof -
  have o: "map ed_Path (filter (\<lambda>e. \<not> covers (ed_Path e)) (edits_of d)) = [] \<longleftrightarrow> (\<forall>p \<in> C. covers p)"
    by (auto simp: assms(2) filter_empty_conv)
  have f: "find (\<lambda>p. p \<notin> ed_Path ` set (edits_of d)) paths = None \<longleftrightarrow> set paths \<subseteq> C"
    by (auto simp: find_None_iff assms(2))
  have n: "(if paths \<noteq> [] then filter (\<lambda>e. ed_Path e \<in> set paths) (edits_of d) else edits_of d) = [] \<longleftrightarrow> C = {}"
    if "set paths \<subseteq> C"
    using that by (cases paths) (auto simp: assms(2) filter_empty_conv)
  show ?thesis
    unfolding SelectEdits_def Let_def using o f n
    by (auto split: option.splits simp del: map_is_Nil_conv)
qed

text \<open>C23. A proposal is exactly the change it was asked for: the edits selected from the comparison of a
  base with a working tree exist exactly when something changed, every changed path is covered by
  the scope and every named path did change; and laid over the base they give, at the named paths
  (at all paths when none is named), the working tree and elsewhere the base.\<close>

theorem proposal_exact:
  assumes "distinct (map fst base)" "distinct (map fst work)"
  shows "((\<exists>edits. SelectEdits (Compare base work) covers l paths = Inr edits) \<longleftrightarrow>
      changed_paths base work \<noteq> {} \<and> (\<forall>p \<in> changed_paths base work. covers p) \<and> set paths \<subseteq> changed_paths base work) \<and>
    (\<forall>edits. SelectEdits (Compare base work) covers l paths = Inr edits \<longrightarrow>
      map_of (Overlay base work edits) = (\<lambda>p. if paths = [] \<or> p \<in> set paths then map_of work p else map_of base p))"
proof -
  note e = edits_exact [OF Compare_exact [OF assms]]
  have iff: "SelectEdits (Compare base work) covers l paths = Inr edits \<longleftrightarrow>
    (\<forall>p \<in> changed_paths base work. covers p) \<and> set paths \<subseteq> changed_paths base work \<and> changed_paths base work \<noteq> {} \<and>
    edits = (if paths = [] then edits_of (Compare base work)
             else filter (\<lambda>e. ed_Path e \<in> set paths) (edits_of (Compare base work)))" for edits
    by (rule select_iff) (use e in auto)
  have "map_of (Overlay base work edits) p = (if paths = [] \<or> p \<in> set paths then map_of work p else map_of base p)"
    if s: "SelectEdits (Compare base work) covers l paths = Inr edits" for edits p
  proof -
    have ed: "edits = (if paths = [] then edits_of (Compare base work)
             else filter (\<lambda>e. ed_Path e \<in> set paths) (edits_of (Compare base work)))"
      and sub: "set paths \<subseteq> changed_paths base work"
      using s iff by simp_all
    have "ed_Path ` set edits = (if paths = [] then changed_paths base work else changed_paths base work \<inter> set paths)"
      unfolding ed e(1) [symmetric] by (cases "paths = []") auto
    moreover have "\<forall>e \<in> set edits. ed_Del e \<longleftrightarrow> map_of work (ed_Path e) = None"
      using e(2) unfolding ed by (cases "paths = []") simp_all
    ultimately show ?thesis using sub Overlay_edits [of edits work base p] by (auto simp: changed_paths_def)
  qed
  then have "map_of (Overlay base work edits) = (\<lambda>p. if paths = [] \<or> p \<in> set paths then map_of work p else map_of base p)"
    if "SelectEdits (Compare base work) covers l paths = Inr edits" for edits
    using that by (intro ext)
  moreover have "(\<exists>edits. SelectEdits (Compare base work) covers l paths = Inr edits) \<longleftrightarrow>
      changed_paths base work \<noteq> {} \<and> (\<forall>p \<in> changed_paths base work. covers p) \<and> set paths \<subseteq> changed_paths base work"
    unfolding iff by auto
  ultimately show ?thesis by blast
qed

definition base_state :: files where
  "base_state = [(''a'', \<lparr>fe_id = [1], fe_mode = modeFile\<rparr>), (''b'', \<lparr>fe_id = [2], fe_mode = modeFile\<rparr>),
     (''c'', \<lparr>fe_id = [3], fe_mode = modeFile\<rparr>)]"

definition work_state :: files where
  "work_state = [(''b'', \<lparr>fe_id = [4], fe_mode = modeFile\<rparr>), (''c'', \<lparr>fe_id = [3], fe_mode = modeExec\<rparr>),
     (''d'', \<lparr>fe_id = [1], fe_mode = modeFile\<rparr>)]"

theorem proposal_exact_witness:
  "Compare base_state work_state =
     \<lparr>wd_Added = [], wd_Modified = [''b''], wd_Removed = [], wd_ModeChanged = [''c''],
      wd_Renamed = [\<lparr>rn_From = ''a'', rn_To = ''d''\<rparr>]\<rparr> \<and>
   (\<exists>edits. SelectEdits (Compare base_state work_state) (\<lambda>p. True) ''all'' [''b'', ''d''] = Inr edits \<and>
     map_of (Overlay base_state work_state edits) ''a'' = Some \<lparr>fe_id = [1], fe_mode = modeFile\<rparr> \<and>
     map_of (Overlay base_state work_state edits) ''b'' = Some \<lparr>fe_id = [4], fe_mode = modeFile\<rparr>)"
proof -
  have d: "distinct (map fst base_state)" "distinct (map fst work_state)"
    by (simp_all add: base_state_def work_state_def)
  have "{''b'', ''d''} \<subseteq> changed_paths base_state work_state"
    by (simp add: changed_paths_def base_state_def work_state_def)
  then have "\<exists>edits. SelectEdits (Compare base_state work_state) (\<lambda>p. True) ''all'' [''b'', ''d''] = Inr edits"
    using proposal_exact [OF d, of "\<lambda>p. True" "''all''" "[''b'', ''d'']"] by auto
  moreover have "Compare base_state work_state =
     \<lparr>wd_Added = [], wd_Modified = [''b''], wd_Removed = [], wd_ModeChanged = [''c''],
      wd_Renamed = [\<lparr>rn_From = ''a'', rn_To = ''d''\<rparr>]\<rparr>" by code_simp
  ultimately show ?thesis
    using proposal_exact [OF d, of "\<lambda>p. True" "''all''" "[''b'', ''d'']"]
    by (auto simp: base_state_def work_state_def)
qed

text \<open>Two files removed and two added with the same content: one of the added paths is found as a
  rename, which one depends on the order of the map, and the other pair stays a removal and an addition.\<close>

theorem rename_by_order:
  "let base = [(''a'', \<lparr>fe_id = [1], fe_mode = modeFile\<rparr>), (''b'', \<lparr>fe_id = [1], fe_mode = modeFile\<rparr>)];
       x = (''x'', \<lparr>fe_id = [1], fe_mode = modeFile\<rparr>); y = (''y'', \<lparr>fe_id = [1], fe_mode = modeFile\<rparr>) in
   map_of [x, y] = map_of [y, x] \<and>
   Compare base [x, y] = \<lparr>wd_Added = [''x''], wd_Modified = [], wd_Removed = [''b''], wd_ModeChanged = [],
      wd_Renamed = [\<lparr>rn_From = ''a'', rn_To = ''y''\<rparr>]\<rparr> \<and>
   Compare base [y, x] = \<lparr>wd_Added = [''y''], wd_Modified = [], wd_Removed = [''b''], wd_ModeChanged = [],
      wd_Renamed = [\<lparr>rn_From = ''a'', rn_To = ''x''\<rparr>]\<rparr>"
  unfolding Let_def by (intro conjI) (auto, code_simp+)


section \<open>What a directory contains\<close>

definition blob_id :: "hash_funs \<Rightarrow> code \<Rightarrow> byte list \<Rightarrow> goerr + multihash" where
  "blob_id h c b = rbind (NewBlob b) (\<lambda>obj. Sum h c (Encode obj))"

lemma put_blob_id:
  assumes "wf_hashes h"
  shows "fst (put_blob h s b) = blob_id h (os_algo s) b" and "os_algo (snd (put_blob h s b)) = os_algo s"
  using fst_PutRaw [OF assms] by (auto simp: put_blob_def blob_id_def Put_def split: sum.split)

text \<open>The files and their identities, with no index and no store; the regular files.\<close>

fun node_files :: "hash_funs \<Rightarrow> code \<Rightarrow> node \<Rightarrow> string \<Rightarrow> goerr + files"
  and nodes_files :: "hash_funs \<Rightarrow> code \<Rightarrow> (string \<times> node) list \<Rightarrow> string \<Rightarrow> goerr + files" where
  "node_files h c (Regular st content) rel =
     rbind content (\<lambda>b. rbind (blob_id h c b) (\<lambda>i. Inr [(rel, \<lparr>fe_id = i, fe_mode = file_mode st\<rparr>)]))"
| "node_files h c (Link target) rel =
     rbind target (\<lambda>t. rbind (blob_id h c (bytes_of t)) (\<lambda>i. Inr [(rel, \<lparr>fe_id = i, fe_mode = modeSymlink\<rparr>)]))"
| "node_files h c (Directory err ents) rel = (case err of Some e \<Rightarrow> Inl e | None \<Rightarrow> nodes_files h c ents rel)"
| "node_files h c Special rel = Inr []"
| "node_files h c (NoInfo e) rel = Inl e"
| "nodes_files h c [] rel = Inr []"
| "nodes_files h c ((name, nd) # rest) rel =
     (if skipped name then nodes_files h c rest rel
      else rbind (node_files h c nd (entry_path rel name)) (\<lambda>a. rbind (nodes_files h c rest rel) (\<lambda>b. Inr (a @ b))))"

fun regulars :: "node \<Rightarrow> string \<Rightarrow> (string \<times> fstat \<times> (goerr + byte list)) list"
  and regulars_in :: "(string \<times> node) list \<Rightarrow> string \<Rightarrow> (string \<times> fstat \<times> (goerr + byte list)) list" where
  "regulars (Regular st content) rel = [(rel, st, content)]"
| "regulars (Directory err ents) rel = regulars_in ents rel"
| "regulars (Link target) rel = []"
| "regulars Special rel = []"
| "regulars (NoInfo e) rel = []"
| "regulars_in [] rel = []"
| "regulars_in ((name, nd) # rest) rel =
     (if skipped name then [] else regulars nd (entry_path rel name)) @ regulars_in rest rel"

text \<open>An index says nothing false about the files: what it takes for clean has the hash it gives.\<close>

definition truthful :: "hash_funs \<Rightarrow> code \<Rightarrow> (string \<times> fstat \<times> (goerr + byte list)) list \<Rightarrow> windex \<Rightarrow> bool" where
  "truthful h c F ix \<longleftrightarrow>
     (\<forall>rel st content hash. (rel, st, content) \<in> set F \<longrightarrow> ix_clean ix rel st (file_mode st) = Some hash \<longrightarrow>
        (\<exists>b. content = Inr b \<and> blob_id h c b = Inr hash))"

lemma ParseHex_Hex_eq: "ParseHex (Hex m) = Inr x \<Longrightarrow> x = m"
  by (auto simp: ParseHex_def Hex_def split: sum.splits)

lemma ix_clean_put:
  "rel' \<noteq> rel \<Longrightarrow> ix_clean (ix_put rel st mode hash ix) rel' st' mode' = ix_clean ix rel' st' mode'"
  "ix_clean (ix_put rel st mode hash ix) rel st' mode' = Some hash' \<Longrightarrow> hash' = hash"
  by (simp_all add: ix_clean_def ix_put_def update_conv' cong: if_cong option.case_cong)
    (auto split: if_splits sum.splits dest: ParseHex_Hex_eq)

lemma truthful_put:
  assumes "truthful h c F ix" "distinct (map fst F)" "(rel, st, Inr b) \<in> set F" "blob_id h c b = Inr i"
  shows "truthful h c F (ix_put rel st mode i ix)"
  unfolding truthful_def
proof (intro allI impI)
  fix rel' st' content hash
  assume f: "(rel', st', content) \<in> set F" "ix_clean (ix_put rel st mode i ix) rel' st' (file_mode st') = Some hash"
  show "\<exists>b. content = Inr b \<and> blob_id h c b = Inr hash"
  proof (cases "rel' = rel")
    case True
    with f(1) assms(2,3) have "content = Inr b" by (metis eq_key_imp_eq_value prod.inject)
    with True assms(4) f(2) show ?thesis by (auto dest: ix_clean_put(2))
  next
    case False
    with f assms(1) show ?thesis by (simp add: ix_clean_put(1) truthful_def)
  qed
qed

lemma truthful_clean: "truthful h c F ix \<Longrightarrow> (rel, st, content) \<in> set F \<Longrightarrow> ix_clean ix rel st (file_mode st) = Some hash \<Longrightarrow>
    \<exists>b. content = Inr b \<and> blob_id h c b = Inr hash"
  by (simp add: truthful_def)

section \<open>The scan reads the directory\<close>

definition sc_good :: "hash_funs \<Rightarrow> code \<Rightarrow> (string \<times> fstat \<times> (goerr + byte list)) list \<Rightarrow> scan_state \<Rightarrow> bool" where
  "sc_good h c F st \<longleftrightarrow> os_algo (sc_store st) = c \<and> truthful h c F (sc_index st)"

definition set_all :: "files \<Rightarrow> files \<Rightarrow> files" where
  "set_all fs out = foldl (\<lambda>out (p, fe). AList.update p fe out) out fs"

lemma set_all_append [simp]: "set_all (a @ b) out = set_all b (set_all a out)"
  by (simp add: set_all_def)

lemma set_all_Nil [simp]: "set_all [] out = out"
  by (simp add: set_all_def)

text \<open>What one step of the scan does: it answers as the pure reading does and sets its files.\<close>

definition sc_reads :: "hash_funs \<Rightarrow> code \<Rightarrow> (string \<times> fstat \<times> (goerr + byte list)) list \<Rightarrow> goerr + files \<Rightarrow>
    scan_state \<Rightarrow> (goerr + unit) \<times> scan_state \<Rightarrow> bool" where
  "sc_reads h c F r st res \<longleftrightarrow> sc_good h c F (snd res) \<and>
     (case r of Inl e \<Rightarrow> fst res = Inl e
      | Inr fs \<Rightarrow> fst res = Inr () \<and> sc_out (snd res) = set_all fs (sc_out st))"

lemma scan_reads:
  assumes "wf_hashes h" "distinct (map fst F)"
  shows "set (regulars nd rel) \<subseteq> set F \<Longrightarrow> sc_good h c F st \<Longrightarrow> sc_reads h c F (node_files h c nd rel) st (scan_entry h nd rel st)"
    and "set (regulars_in ents rel) \<subseteq> set F \<Longrightarrow> sc_good h c F st \<Longrightarrow> sc_reads h c F (nodes_files h c ents rel) st (scan_entries h ents rel st)"
proof (induction nd rel and ents rel arbitrary: st and st rule: regulars_regulars_in.induct)
  case (1 s content rel)
  then have f: "(rel, s, content) \<in> set F" and g: "os_algo (sc_store st) = c" "truthful h c F (sc_index st)"
    by (simp_all add: sc_good_def)
  show ?case
  proof (cases "ix_clean (sc_index st) rel s (file_mode s)")
    case (Some hash)
    with truthful_clean [OF g(2) f] obtain b where "content = Inr b" "blob_id h c b = Inr hash" by blast
    with Some 1(2) show ?thesis by (simp add: sc_reads_def sc_good_def sc_set_def set_all_def)
  next
    case None
    show ?thesis
    proof (cases content)
      case (Inl e)
      with None 1(2) show ?thesis by (simp add: sc_reads_def)
    next
      case (Inr b)
      obtain r s' where p: "put_blob h (sc_store st) b = (r, s')" by fastforce
      then have r: "blob_id h c b = r" "os_algo s' = c"
        using put_blob_id [OF assms(1), of "sc_store st" b] g(1) by simp_all
      show ?thesis
      proof (cases r)
        case (Inl e)
        with None p r g \<open>content = Inr b\<close> show ?thesis by (simp add: sc_reads_def sc_good_def)
      next
        case i: (Inr i)
        with truthful_put [OF g(2) assms(2), of rel s b i "file_mode s"] f Inr r None p show ?thesis
          by (simp add: sc_reads_def sc_good_def sc_set_def set_all_def Let_def)
      qed
    qed
  qed
next
  case (2 err ents rel)
  then show ?case by (cases err) (simp_all add: sc_reads_def)
next
  case (3 target rel)
  show ?case
  proof (cases target)
    case (Inl e)
    with 3 show ?thesis by (simp add: sc_reads_def)
  next
    case (Inr t)
    obtain r s' where p: "put_blob h (sc_store st) (bytes_of t) = (r, s')" by fastforce
    then have "blob_id h c (bytes_of t) = r" "os_algo s' = c"
      using put_blob_id [OF assms(1), of "sc_store st" "bytes_of t"] 3(2) by (simp_all add: sc_good_def)
    with 3(2) Inr p show ?thesis
      by (cases r) (simp_all add: sc_reads_def sc_good_def sc_set_def set_all_def)
  qed
next
  case (7 name nd rest rel)
  show ?case
  proof (cases "skipped name")
    case True
    with 7 show ?thesis by simp
  next
    case False
    let ?r = "node_files h c nd (entry_path rel name)"
    obtain x st' where x: "scan_entry h nd (entry_path rel name) st = (x, st')" by fastforce
    have n: "sc_reads h c F ?r st (x, st')" using 7(1) [of st] 7(3,4) False x by simp
    show ?thesis
    proof (cases ?r)
      case (Inl e)
      with n x False show ?thesis by (simp add: sc_reads_def)
    next
      case (Inr fs)
      with n have "x = Inr ()" "sc_good h c F st'" "sc_out st' = set_all fs (sc_out st)" by (simp_all add: sc_reads_def)
      moreover from this have "sc_reads h c F (nodes_files h c rest rel) st' (scan_entries h rest rel st')"
        using 7(2) [of st'] 7(3) False by simp
      ultimately show ?thesis using Inr x False
        by (cases "nodes_files h c rest rel") (simp_all add: sc_reads_def)
    qed
  qed
qed (simp_all add: sc_reads_def)

text \<open>The names a file system gives.\<close>

definition no_index :: windex where
  "no_index = \<lparr>ix_written = 0, ix_entries = []\<rparr>"

lemma truthful_no_index: "truthful h c F no_index"
  by (auto simp: truthful_def no_index_def ix_clean_def)

lemma truthful_sub: "truthful h c F ix \<Longrightarrow> truthful h c F (ix\<lparr>ix_entries := filter (\<lambda>(rel, e). P rel) (ix_entries ix)\<rparr>)"
proof -
  have "map_of (filter (\<lambda>(rel, e). P rel) m) r = (if P r then map_of m r else None)" for m :: "(string \<times> index_entry) list" and r
    by (induction m) auto
  then have "ix_clean (ix\<lparr>ix_entries := filter (\<lambda>(rel, e). P rel) (ix_entries ix)\<rparr>) r s m =
      (if P r then ix_clean ix r s m else None)" for r s m
    by (simp add: ix_clean_def cong: if_cong option.case_cong)
  then show "truthful h c F ix \<Longrightarrow> truthful h c F (ix\<lparr>ix_entries := filter (\<lambda>(rel, e). P rel) (ix_entries ix)\<rparr>)"
    unfolding truthful_def by (simp split: if_split)
qed

lemma Scan_reads:
  assumes "wf_hashes h" "distinct (map fst (regulars (Directory err ents) []))" "truthful h (os_algo s) (regulars (Directory err ents) []) ix"
  shows "fst (Scan h s (Directory err ents) ix) =
      rbind (node_files h (os_algo s) (Directory err ents) []) (\<lambda>fs. Inr (set_all fs []))"
    and "truthful h (os_algo s) (regulars (Directory err ents) []) (snd (snd (Scan h s (Directory err ents) ix)))"
proof -
  let ?st = "\<lparr>sc_store = s, sc_index = ix, sc_out = []\<rparr>"
  have "sc_good h (os_algo s) (regulars (Directory err ents) []) ?st" using assms(3) by (simp add: sc_good_def)
  from scan_reads(1) [OF assms(1,2) subset_refl this]
  have "sc_reads h (os_algo s) (regulars (Directory err ents) []) (node_files h (os_algo s) (Directory err ents) []) ?st
      (scanDir h (Directory err ents) [] ?st)" by simp
  then show "fst (Scan h s (Directory err ents) ix) =
      rbind (node_files h (os_algo s) (Directory err ents) []) (\<lambda>fs. Inr (set_all fs []))"
    and "truthful h (os_algo s) (regulars (Directory err ents) []) (snd (snd (Scan h s (Directory err ents) ix)))"
    unfolding Scan_def
    by (auto simp: sc_reads_def sc_good_def truthful_sub simp del: scanDir.simps regulars.simps split: prod.splits sum.splits)
qed


section \<open>The tree of a directory\<close>

text \<open>How deep a directory goes; names as a file system has them, in directories that fit memory.\<close>

fun height :: "node \<Rightarrow> nat" and heights :: "(string \<times> node) list \<Rightarrow> nat" where
  "height (Regular st content) = 0"
| "height (Link target) = 0"
| "height (Directory err ents) = Suc (heights ents)"
| "height Special = 0"
| "height (NoInfo e) = 0"
| "heights [] = 0"
| "heights ((name, nd) # rest) = max (height nd) (heights rest)"

fun dir_ok :: "node \<Rightarrow> bool" and dirs_ok :: "(string \<times> node) list \<Rightarrow> bool" where
  "dir_ok (Directory err ents) =
     (dirs_ok ents \<and> distinct (map fst ents) \<and> sum_list (map (\<lambda>(name, nd). length name + 108) ents) \<le> max_alloc)"
| "dir_ok nd = True"
| "dirs_ok [] = True"
| "dirs_ok ((name, nd) # rest) = (name \<noteq> [] \<and> CHR ''/'' \<notin> set name \<and> dir_ok nd \<and> dirs_ok rest)"

text \<open>As \<^verbatim>\<open>WriteTree\<close>, without the store: the entry and the encodings of the objects under it.\<close>

fun node_tree :: "hash_funs \<Rightarrow> code \<Rightarrow> string \<Rightarrow> node \<Rightarrow> goerr + entry \<times> byte list list"
  and nodes_tree :: "hash_funs \<Rightarrow> code \<Rightarrow> (string \<times> node) list \<Rightarrow> goerr + entry list \<times> byte list list" where
  "node_tree h c name (Regular st content) =
     rbind content (\<lambda>b. rbind (blob_id h c b) (\<lambda>i. Inr (blob_entry name (file_mode st) i, [Encode (blob_obj b)])))"
| "node_tree h c name (Link target) =
     rbind target (\<lambda>t. rbind (blob_id h c (bytes_of t)) (\<lambda>i.
       Inr (blob_entry name modeSymlink i, [Encode (blob_obj (bytes_of t))])))"
| "node_tree h c name (Directory err ents) =
     (case err of Some e \<Rightarrow> Inl e
      | None \<Rightarrow> rbind (nodes_tree h c ents) (\<lambda>(es, bs). rbind (NewTree es) (\<lambda>obj. rbind (Sum h c (Encode obj)) (\<lambda>i.
          Inr (dir_entry name i, bs @ [Encode obj])))))"
| "node_tree h c name Special = Inl (Plain ''worktree: unsupported file type'')"
| "node_tree h c name (NoInfo e) = Inl e"
| "nodes_tree h c [] = Inr ([], [])"
| "nodes_tree h c ((name, nd) # rest) =
     (if skipped name then nodes_tree h c rest
      else rbind (node_tree h c name nd) (\<lambda>(en, b). rbind (nodes_tree h c rest) (\<lambda>(es, bs). Inr (en # es, b @ bs))))"

definition writes :: "hash_funs \<Rightarrow> objstore \<Rightarrow> goerr + 'a \<times> byte list list \<Rightarrow> (goerr + 'a) \<times> objstore \<Rightarrow> bool" where
  "writes h s r res \<longleftrightarrow> (case r of Inl e \<Rightarrow> fst res = Inl e | Inr (x, bs) \<Rightarrow> res = (Inr x, put_raws h s bs))"

lemma writes_put:
  assumes "wf_hashes h"
  shows "writes h s (rbind (Sum h (os_algo s) (Encode obj)) (\<lambda>i. Inr (i, [Encode obj]))) (Put h s obj)"
  using fst_PutRaw [OF assms, of s "Encode obj"]
  by (cases "PutRaw h s (Encode obj)") (auto simp: Put_def writes_def rbind_def split: sum.splits)

lemma writes_map:
  "writes h s r res \<Longrightarrow> writes h s (rbind r (\<lambda>(x, bs). Inr (f x, bs)))
     (case res of (Inl e, s) \<Rightarrow> (Inl e, s) | (Inr x, s) \<Rightarrow> (Inr (f x), s))"
  by (auto simp: writes_def rbind_def split: sum.splits prod.splits)

lemma writes_bind:
  assumes "writes h s r res" "\<And>x s. os_algo s = c \<Longrightarrow> writes h s (g x) (k x s)" "os_algo s = c"
  shows "writes h s (rbind r (\<lambda>(x, bs). rbind (g x) (\<lambda>(y, bs'). Inr (y, bs @ bs'))))
     (case res of (Inl e, s) \<Rightarrow> (Inl e, s) | (Inr x, s) \<Rightarrow> k x s)"
proof (cases r)
  case (Inl e)
  with assms(1) show ?thesis by (auto simp: writes_def split: prod.splits sum.splits)
next
  case (Inr xb)
  obtain x bs where "xb = (x, bs)" by (cases xb)
  with Inr assms(1) assms(2) [of "put_raws h s bs" x] assms(3) show ?thesis
    by (auto simp: writes_def put_raws_append rbind_def split: sum.splits)
qed

lemma put_blob_eq: "put_blob h s b = Put h s (blob_obj b)" and blob_id_eq: "blob_id h c b = Sum h c (Encode (blob_obj b))"
  by (simp_all add: put_blob_def blob_id_def NewBlob_eq)

lemma write_tree_of:
  assumes "wf_hashes h"
  shows "os_algo s = c \<Longrightarrow> writes h s (node_tree h c name nd) (write_entry h s name nd)"
    and "os_algo s = c \<Longrightarrow> writes h s (nodes_tree h c ents) (write_entries h s ents)"
proof (induction nd and ents arbitrary: name s and s rule: height_heights.induct)
  case (1 st content)
  then show ?case using writes_map [OF writes_put [OF assms], of s _ "blob_entry name (file_mode st)"]
    by (cases content) (auto simp: writes_def put_blob_eq blob_id_eq rbind_assoc)
next
  case (2 target)
  then show ?case using writes_map [OF writes_put [OF assms], of s _ "blob_entry name modeSymlink"]
    by (cases target) (auto simp: writes_def put_blob_eq blob_id_eq rbind_assoc)
next
  case (3 err ents)
  show ?case
  proof (cases err)
    case None
    let ?k = "\<lambda>es s. case NewTree es of Inl e \<Rightarrow> (Inl e, s) | Inr obj \<Rightarrow> Put h s obj"
    let ?g = "\<lambda>es. rbind (NewTree es) (\<lambda>obj. rbind (Sum h c (Encode obj)) (\<lambda>i. Inr (i, [Encode obj])))"
    have "writes h s (?g es) (?k es s)" if "os_algo s = c" for es s
      using writes_put [OF assms, of s] that by (cases "NewTree es") (auto simp: writes_def)
    from writes_bind [OF 3(1) [OF 3(2)] this 3(2)]
    have "writes h s (rbind (nodes_tree h c ents) (\<lambda>(es, bs). rbind (?g es) (\<lambda>(i, bs'). Inr (i, bs @ bs'))))
      (case write_entries h s ents of (Inl e, s) \<Rightarrow> (Inl e, s) | (Inr es, s) \<Rightarrow> ?k es s)" .
    from writes_map [OF this, where f = "dir_entry name"] None show ?thesis
      by (simp add: rbind_assoc case_prod_unfold split: prod.splits sum.splits)
  qed (simp add: writes_def)
next
  case (7 n nd rest)
  show ?case
  proof (cases "skipped n")
    case False
    let ?k = "\<lambda>en s. case write_entries h s rest of (Inl e, s) \<Rightarrow> (Inl e, s) | (Inr es, s) \<Rightarrow> (Inr (en # es), s)"
    let ?g = "\<lambda>en. rbind (nodes_tree h c rest) (\<lambda>(es, bs). Inr (en # es, bs))"
    have "writes h s (?g en) (?k en s)" if "os_algo s = c" for en s
      using writes_map [OF 7(2) [OF that], of "\<lambda>es. en # es"] .
    from writes_bind [OF 7(1) [OF 7(3)] this 7(3)] False show ?thesis
      by (simp add: rbind_assoc case_prod_unfold)
  qed (use 7 in simp)
qed (simp_all add: writes_def)


section \<open>Reading a written directory back\<close>

text \<open>The entry of a node stands for the node's files: what \<^verbatim>\<open>flattenInto\<close> does at it sets them.\<close>

definition entry_step :: "nat \<Rightarrow> hash_funs \<Rightarrow> objstore \<Rightarrow> string \<Rightarrow> entry \<Rightarrow> files \<Rightarrow> goerr + files" where
  "entry_step stk h s rel e out =
     (if ekind e = TypeTree then flattenInto stk h s (eid e) rel out
      else Inr (AList.update rel \<lparr>fe_id = eid e, fe_mode = emode e\<rparr> out))"

definition stands_for :: "nat \<Rightarrow> hash_funs \<Rightarrow> objstore \<Rightarrow> string \<Rightarrow> entry \<Rightarrow> files \<Rightarrow> bool" where
  "stands_for stk h s rel e fs \<longleftrightarrow> (\<forall>out. \<exists>out'. entry_step stk h s rel e out = Inr out' \<and> extends out (set fs) out')"

definition entry_for :: "nat \<Rightarrow> hash_funs \<Rightarrow> code \<Rightarrow> objstore \<Rightarrow> string \<Rightarrow> string \<times> node \<Rightarrow> entry \<Rightarrow> bool" where
  "entry_for stk h c s prefix x e \<longleftrightarrow> ename e = fst x \<and> entry_weight e \<le> length (fst x) + 108 \<and>
     (\<exists>fs. node_files h c (snd x) (entry_path prefix (fst x)) = Inr fs \<and>
        stands_for stk h s (entry_path prefix (fst x)) e fs)"

definition kept_ents :: "(string \<times> node) list \<Rightarrow> (string \<times> node) list" where
  "kept_ents ents = filter (\<lambda>(name, nd). \<not> skipped name) ents"

lemma node_files_under:
  "node_files h c nd rel = Inr fs \<Longrightarrow> rel \<noteq> [] \<Longrightarrow> dir_ok nd \<Longrightarrow> (p, fe) \<in> set fs \<Longrightarrow> p = rel \<or> (\<exists>t. p = rel @ CHR ''/'' # t)"
  "nodes_files h c ents rel = Inr fs \<Longrightarrow> rel \<noteq> [] \<Longrightarrow> dirs_ok ents \<Longrightarrow> (p, fe) \<in> set fs \<Longrightarrow> \<exists>t. p = rel @ CHR ''/'' # t"
proof (induction nd and ents arbitrary: rel fs and rel fs rule: height_heights.induct)
  case (1 st content)
  then show ?case by (auto simp: result_iffs)
next
  case (2 target)
  then show ?case by (auto simp: result_iffs)
next
  case (3 err ents)
  then show ?case by (auto split: option.splits)
next
  case (7 n nd rest)
  show ?case
  proof (cases "skipped n")
    case False
    with 7(3) obtain a b where ab: "node_files h c nd (rel @ ''/'' @ n) = Inr a" "nodes_files h c rest rel = Inr b" "fs = a @ b"
      using 7(4) by (auto simp: result_iffs entry_path_def)
    show ?thesis
    proof (cases "(p, fe) \<in> set a")
      case True
      with 7(1) [OF ab(1)] 7(5) show ?thesis by auto
    next
      case False
      with 7(2) [OF ab(2) 7(4)] 7(5,6) ab(3) show ?thesis by auto
    qed
  qed (use 7 in simp)
qed auto

lemma files_apart:
  assumes "node_files h c nd (entry_path prefix n) = Inr fs" "node_files h c nd' (entry_path prefix n') = Inr fs'"
    "n \<noteq> n'" "n \<noteq> []" "n' \<noteq> []" "CHR ''/'' \<notin> set n" "CHR ''/'' \<notin> set n'" "dir_ok nd" "dir_ok nd'"
  shows "fst ` set fs \<inter> fst ` set fs' = {}"
proof -
  have k: "\<exists>t. p = entry_path prefix (m @ t) \<and> seg_of (m @ t) = m"
    if "node_files h c d (entry_path prefix m) = Inr gs" "(p, fe) \<in> set gs" "m \<noteq> []" "CHR ''/'' \<notin> set m" "dir_ok d" for d m gs p fe
  proof -
    have "entry_path prefix m \<noteq> []" using that(3) by (simp add: entry_path_def)
    from node_files_under(1) [OF that(1) this that(5,2)] obtain t where t: "p = entry_path prefix m @ t" "t = [] \<or> hd t = CHR ''/''"
      by auto
    have "p = entry_path prefix (m @ t)" using t(1) by (simp add: entry_path_def)
    moreover have "seg_of (m @ t) = m"
      using t(2) that(4) by (cases t) (auto simp: seg_of_def takeWhile_tail takeWhile_eq_all_conv)
    ultimately show ?thesis by blast
  qed
  show ?thesis
  proof (rule ccontr)
    assume "\<not> ?thesis"
    then obtain p fe fe' where "(p, fe) \<in> set fs" "(p, fe') \<in> set fs'" by auto
    obtain t where t: "p = entry_path prefix (n @ t)" "seg_of (n @ t) = n"
      using k [OF assms(1) \<open>(p, fe) \<in> set fs\<close> assms(4,6,8)] by blast
    obtain t' where "p = entry_path prefix (n' @ t')" "seg_of (n' @ t') = n'"
      using k [OF assms(2) \<open>(p, fe') \<in> set fs'\<close> assms(5,7,9)] by blast
    with t assms(3) show False by (metis entry_path_inj)
  qed
qed

lemma dirs_ok_mem: "dirs_ok ents \<Longrightarrow> (n, nd) \<in> set ents \<Longrightarrow> n \<noteq> [] \<and> CHR ''/'' \<notin> set n \<and> dir_ok nd"
  by (induction ents) auto

definition files_at :: "hash_funs \<Rightarrow> code \<Rightarrow> string \<Rightarrow> node \<Rightarrow> string \<Rightarrow> (string \<times> file_ent) set" where
  "files_at h c prefix nd n = (case node_files h c nd (entry_path prefix n) of Inl _ \<Rightarrow> {} | Inr fs \<Rightarrow> set fs)"

lemma nodes_files_set:
  "\<forall>(n, nd) \<in> set (kept_ents ents). \<exists>fs. node_files h c nd (entry_path prefix n) = Inr fs \<Longrightarrow>
   \<exists>fs. nodes_files h c ents prefix = Inr fs \<and> set fs = (\<Union>(n, nd) \<in> set (kept_ents ents). files_at h c prefix nd n)"
proof (induction ents)
  case (Cons x ents)
  obtain n nd where x: "x = (n, nd)" by (cases x)
  have "\<forall>(n, nd) \<in> set (kept_ents ents). \<exists>fs. node_files h c nd (entry_path prefix n) = Inr fs"
    using Cons.prems by (auto simp: kept_ents_def)
  from Cons.IH [OF this] obtain fs where fs: "nodes_files h c ents prefix = Inr fs"
    "set fs = (\<Union>(n, nd) \<in> set (kept_ents ents). files_at h c prefix nd n)" by blast
  show ?case
  proof (cases "skipped n")
    case True
    with fs show ?thesis by (simp add: x kept_ents_def)
  next
    case False
    then obtain a where a: "node_files h c nd (entry_path prefix n) = Inr a" using Cons.prems x by (auto simp: kept_ents_def)
    then have "files_at h c prefix nd n = set a" by (simp add: files_at_def)
    with a fs False show ?thesis by (simp add: x kept_ents_def)
  qed
qed (simp add: kept_ents_def)

lemma dir_stands:
  assumes e: "list_all2 (entry_for stk h c s prefix) (kept_ents ents) es"
    and ok: "dirs_ok ents" "distinct (map fst ents)" "sum_list (map (\<lambda>(name, nd). length name + 108) ents) \<le> max_alloc"
    and g: "GetRaw h s i = Inr (Encode (tree_obj (sort_key ename es)))"
  shows "\<exists>fs. nodes_files h c ents prefix = Inr fs \<and>
    (\<forall>out. \<exists>out'. flattenInto (Suc stk) h s i prefix out = Inr out' \<and> extends out (set fs) out')"
proof -
  have names: "map ename es = map fst (kept_ents ents) \<and>
      sum_list (map entry_weight es) \<le> sum_list (map (\<lambda>x. length (fst x) + 108) (kept_ents ents))"
    using e by (induction rule: list_all2_induct) (auto simp: entry_for_def)
  have "distinct (map fst (kept_ents ents))" unfolding kept_ents_def using ok(2) by (rule distinct_map_filter)
  then have d: "distinct (map ename es)" using names by simp
  have "sum_list (map (\<lambda>x. length (fst x) + 108) (kept_ents ents)) \<le> sum_list (map (\<lambda>(name, nd). length name + 108) ents)"
    by (induction ents) (auto simp: kept_ents_def)
  then have w: "sum_list (map entry_weight es) \<le> max_alloc" using names ok(3) by simp
  note r = readable_tree [OF d w]
  have get: "Get h s i = Inr (tree_obj (sort_key ename es))" using g r(1) by (simp add: Get_def)
  have sub: "set (kept_ents ents) \<subseteq> set ents" by (auto simp: kept_ents_def)
  let ?nd = "\<lambda>e. the (map_of ents (ename e))"
  let ?K = "\<lambda>e. files_at h c prefix (?nd e) (ename e)"
  have node: "\<exists>fs. (ename e, ?nd e) \<in> set (kept_ents ents) \<and> node_files h c (?nd e) (entry_path prefix (ename e)) = Inr fs \<and>
      stands_for stk h s (entry_path prefix (ename e)) e fs" if mem: "e \<in> set es" for e
  proof -
    obtain x where x: "x \<in> set (kept_ents ents)" "entry_for stk h c s prefix x e"
      using list_all2_right [OF e mem] by blast
    then have "map_of ents (fst x) = Some (snd x)" using ok(2) sub by auto
    with x show ?thesis by (auto simp: entry_for_def)
  qed
  have step: "\<exists>out'. entry_step stk h s (entry_path prefix (ename e)) e out = Inr out' \<and> extends out (?K e) out'"
    if "e \<in> set (sort_key ename es)" for e out
    using node [of e] that by (auto simp: stands_for_def files_at_def)
  have apart: "fst ` ?K a \<inter> fst ` ?K b = {}"
    if ab: "a \<in> set (sort_key ename es)" "b \<in> set (sort_key ename es)" "ename a \<noteq> ename b" for a b
  proof -
    obtain fa fb where f: "(ename a, ?nd a) \<in> set ents" "node_files h c (?nd a) (entry_path prefix (ename a)) = Inr fa"
      "(ename b, ?nd b) \<in> set ents" "node_files h c (?nd b) (entry_path prefix (ename b)) = Inr fb"
      using node [of a] node [of b] ab(1,2) sub unfolding set_sort by blast
    from files_apart [OF f(2,4) ab(3)] dirs_ok_mem [OF ok(1) f(1)] dirs_ok_mem [OF ok(1) f(3)] show ?thesis
      by (simp add: files_at_def f(2,4))
  qed
  have "distinct (map ename (sort_key ename es))" using d by (simp only: sort_key_perm)
  note fold = fold_extends [OF step apart this]
  have un: "(\<Union>e \<in> set (sort_key ename es). ?K e) = (\<Union>(n, nd) \<in> set (kept_ents ents). files_at h c prefix nd n)"
  proof (rule equalityI; rule subsetI)
    fix x assume "x \<in> (\<Union>e \<in> set (sort_key ename es). ?K e)"
    then obtain e where e: "e \<in> set es" "x \<in> ?K e" by auto
    then have "(ename e, ?nd e) \<in> set (kept_ents ents)" using node by blast
    with e(2) show "x \<in> (\<Union>(n, nd) \<in> set (kept_ents ents). files_at h c prefix nd n)" by (intro UN_I) auto
  next
    fix x assume "x \<in> (\<Union>(n, nd) \<in> set (kept_ents ents). files_at h c prefix nd n)"
    then obtain n nd where n: "(n, nd) \<in> set (kept_ents ents)" "x \<in> files_at h c prefix nd n" by auto
    then have "n \<in> set (map ename es)" using names by force
    then obtain e where "e \<in> set es" "ename e = n" by auto
    moreover have "map_of ents n = Some nd" using n(1) sub ok(2) by auto
    ultimately have "x \<in> ?K e" "e \<in> set (sort_key ename es)" using n(2) by auto
    then show "x \<in> (\<Union>e \<in> set (sort_key ename es). ?K e)" by blast
  qed
  have "\<forall>(n, nd) \<in> set (kept_ents ents). \<exists>fs. node_files h c nd (entry_path prefix n) = Inr fs"
  proof clarify
    fix n nd assume n: "(n, nd) \<in> set (kept_ents ents)"
    then have "n \<in> set (map ename es)" using names by force
    then obtain e where "e \<in> set es" "ename e = n" by auto
    moreover have "map_of ents n = Some nd" using n(1) sub ok(2) by auto
    ultimately show "\<exists>fs. node_files h c nd (entry_path prefix n) = Inr fs" using node [of e] by auto
  qed
  from nodes_files_set [OF this] obtain fs where fs: "nodes_files h c ents prefix = Inr fs"
    "set fs = (\<Union>e \<in> set (sort_key ename es). ?K e)" unfolding un by blast
  then show ?thesis using fold get r(2) by (simp add: entry_step_def Let_def)
qed


lemma stands_for_blob:
  assumes "wf_hashes h" "blob_id h c b = Inr i" "node_files h c nd (entry_path prefix name) = Inr [(entry_path prefix name, \<lparr>fe_id = i, fe_mode = m\<rparr>)]"
  shows "entry_for stk h c s prefix (name, nd) (blob_entry name m i)"
  using assms Sum_length [OF assms(1), of c _ i] extends_one
  by (auto simp: entry_for_def blob_entry_def stands_for_def entry_step_def entry_weight_def TypeBlob_def TypeTree_def blob_id_eq)

lemma tree_stands:
  assumes "wf_hashes h"
  shows "node_tree h c name nd = Inr (en, bs) \<Longrightarrow> readable h c s bs \<Longrightarrow> dir_ok nd \<Longrightarrow> height nd \<le> stk \<Longrightarrow>
      entry_for stk h c s prefix (name, nd) en"
    and "nodes_tree h c ents = Inr (es, bs) \<Longrightarrow> readable h c s bs \<Longrightarrow> dirs_ok ents \<Longrightarrow> heights ents \<le> stk \<Longrightarrow>
      list_all2 (entry_for stk h c s prefix) (kept_ents ents) es"
proof (induction nd and ents arbitrary: name en bs stk prefix and es bs stk prefix rule: height_heights.induct)
  case (1 st content)
  then show ?case by (auto simp: result_iffs intro!: stands_for_blob [OF assms])
next
  case (2 target)
  then show ?case by (auto simp: result_iffs intro!: stands_for_blob [OF assms])
next
  case (3 err ents)
  obtain stk' where stk: "stk = Suc stk'" using 3(5) by (cases stk) simp_all
  from 3(2) obtain es bs' i where t: "err = None" "nodes_tree h c ents = Inr (es, bs')" "NewTree es = Inr (tree_obj (sort_key ename es))"
    "Sum h c (Encode (tree_obj (sort_key ename es))) = Inr i" "en = dir_entry name i"
    "bs = bs' @ [Encode (tree_obj (sort_key ename es))]"
    by (auto simp: result_iffs NewTree_eq split: option.splits if_splits)
  have "list_all2 (entry_for stk' h c s (entry_path prefix name)) (kept_ents ents) es"
    using 3(3-5) t stk by (intro 3(1) [OF t(2)]) (auto simp: readable_def)
  moreover have "GetRaw h s i = Inr (Encode (tree_obj (sort_key ename es)))"
    using 3(3) t by (simp add: readable_def)
  ultimately obtain fs where "nodes_files h c ents (entry_path prefix name) = Inr fs"
    "\<forall>out. \<exists>out'. flattenInto (Suc stk') h s i (entry_path prefix name) out = Inr out' \<and> extends out (set fs) out'"
    using dir_stands [of stk' h c s "entry_path prefix name" ents es i] 3(4) by auto
  with t(1,5) Sum_length [OF assms t(4)] stk show ?case
    by (auto simp: entry_for_def dir_entry_def stands_for_def entry_step_def entry_weight_def)
next
  case (7 n nd rest)
  show ?case
  proof (cases "skipped n")
    case True
    with 7 show ?thesis by (simp add: kept_ents_def)
  next
    case False
    from 7(3) False obtain en b es' bs' where t: "node_tree h c n nd = Inr (en, b)" "nodes_tree h c rest = Inr (es', bs')"
      "es = en # es'" "bs = b @ bs'" by (auto simp: result_iffs)
    have "entry_for stk h c s prefix (n, nd) en"
      using 7(4-6) t(4) by (intro 7(1) [OF t(1)]) (auto simp: readable_def)
    moreover have "list_all2 (entry_for stk h c s prefix) (kept_ents rest) es'"
      using 7(4-6) t(4) by (intro 7(2) [OF t(2)]) (auto simp: readable_def)
    ultimately show ?thesis using False t(3) by (simp add: kept_ents_def)
  qed
qed (simp_all add: kept_ents_def)

lemma set_all_get: "map_of (set_all fs out) q = Some fe \<Longrightarrow> (q, fe) \<in> set fs \<or> map_of out q = Some fe"
proof (induction fs arbitrary: out)
  case (Cons x fs)
  obtain p g where x: "x = (p, g)" by (cases x)
  with Cons.IH [of "AList.update p g out"] Cons.prems show ?case by (auto simp: set_all_def update_conv' split: if_splits)
qed simp

lemma set_all_has: "q \<in> fst ` set fs \<or> map_of out q \<noteq> None \<Longrightarrow> map_of (set_all fs out) q \<noteq> None"
proof (induction fs arbitrary: out)
  case (Cons x fs)
  obtain p g where x: "x = (p, g)" by (cases x)
  with Cons.IH [of "AList.update p g out"] Cons.prems show ?case by (auto simp: set_all_def update_conv')
qed simp

lemma same_files:
  assumes "extends [] (set fs) out"
  shows "map_of out = map_of (set_all fs [])"
proof
  fix q
  have e: "map_of out q = Some fe \<longleftrightarrow> (q, fe) \<in> set fs" for fe using assms by (simp add: extends_def)
  show "map_of out q = map_of (set_all fs []) q"
  proof (cases "map_of (set_all fs []) q")
    case (Some fe)
    with set_all_get [OF Some] e [of fe] show ?thesis by simp
  next
    case None
    then have "q \<notin> fst ` set fs" using set_all_has [of q fs "[]"] by auto
    then have "map_of out q \<noteq> Some fe" for fe using e by force
    with None show ?thesis by (cases "map_of out q") auto
  qed
qed

text \<open>A regular file is at one path.\<close>

definition lies_in :: "string \<Rightarrow> string \<Rightarrow> string \<Rightarrow> bool" where
  "lies_in prefix n p \<longleftrightarrow> (\<exists>t. p = entry_path prefix (n @ t) \<and> (t = [] \<or> hd t = CHR ''/''))"

lemma lies_in_one: "lies_in prefix n p \<Longrightarrow> lies_in prefix m p \<Longrightarrow> CHR ''/'' \<notin> set n \<Longrightarrow> CHR ''/'' \<notin> set m \<Longrightarrow> n = m"
proof -
  have k: "CHR ''/'' \<notin> set x \<Longrightarrow> t = [] \<or> hd t = CHR ''/'' \<Longrightarrow> seg_of (x @ t) = x" for x t
    by (cases t) (auto simp: seg_of_def takeWhile_tail takeWhile_eq_all_conv)
  assume "lies_in prefix n p" "lies_in prefix m p" "CHR ''/'' \<notin> set n" "CHR ''/'' \<notin> set m"
  then obtain t u where "entry_path prefix (n @ t) = entry_path prefix (m @ u)" "t = [] \<or> hd t = CHR ''/''" "u = [] \<or> hd u = CHR ''/''"
    unfolding lies_in_def by metis
  with k \<open>CHR ''/'' \<notin> set n\<close> \<open>CHR ''/'' \<notin> set m\<close> show "n = m" by (metis entry_path_inj)
qed

lemma regulars_paths:
  "dir_ok nd \<Longrightarrow> name \<noteq> [] \<Longrightarrow>
    distinct (map fst (regulars nd (entry_path prefix name))) \<and> (\<forall>p \<in> fst ` set (regulars nd (entry_path prefix name)). lies_in prefix name p)"
  "dirs_ok ents \<Longrightarrow> distinct (map fst ents) \<Longrightarrow>
    distinct (map fst (regulars_in ents prefix)) \<and> (\<forall>p \<in> fst ` set (regulars_in ents prefix). \<exists>n \<in> fst ` set ents. lies_in prefix n p)"
proof (induction nd and ents arbitrary: name prefix and prefix rule: height_heights.induct)
  case (1 st content)
  then show ?case by (auto simp: lies_in_def intro: exI [of _ "[]"])
next
  case (3 err ents)
  have "lies_in prefix name p" if "lies_in (entry_path prefix name) n p" for n p
  proof -
    from that obtain t where "p = entry_path (entry_path prefix name) (n @ t)" unfolding lies_in_def by blast
    with 3(3) have "p = entry_path prefix (name @ CHR ''/'' # n @ t)" by (simp add: entry_path_def)
    then show ?thesis unfolding lies_in_def by (intro exI [of _ "CHR ''/'' # n @ t"]) simp
  qed
  moreover have "distinct (map fst (regulars_in ents (entry_path prefix name))) \<and>
      (\<forall>p \<in> fst ` set (regulars_in ents (entry_path prefix name)). \<exists>n \<in> fst ` set ents. lies_in (entry_path prefix name) n p)"
    using 3(2) by (intro 3(1)) simp_all
  ultimately show ?case by (metis regulars.simps(2))
next
  case (7 n nd rest)
  have a: "distinct (map fst (regulars nd (entry_path prefix n))) \<and> (\<forall>p \<in> fst ` set (regulars nd (entry_path prefix n)). lies_in prefix n p)"
    using 7(3) by (intro 7(1)) auto
  have b: "distinct (map fst (regulars_in rest prefix)) \<and> (\<forall>p \<in> fst ` set (regulars_in rest prefix). \<exists>n \<in> fst ` set rest. lies_in prefix n p)"
    using 7(3,4) by (intro 7(2)) auto
  have "fst ` set (regulars nd (entry_path prefix n)) \<inter> fst ` set (regulars_in rest prefix) = {}"
  proof (intro equalityI subsetI)
    fix p assume "p \<in> fst ` set (regulars nd (entry_path prefix n)) \<inter> fst ` set (regulars_in rest prefix)"
    then have p: "p \<in> fst ` set (regulars nd (entry_path prefix n))" "p \<in> fst ` set (regulars_in rest prefix)" by blast+
    with b obtain x where "x \<in> set rest" "lies_in prefix (fst x) p" by blast
    moreover have "lies_in prefix n p" using a p(1) by blast
    ultimately obtain m md where m: "lies_in prefix n p" "(m, md) \<in> set rest" "lies_in prefix m p" by (metis prod.collapse)
    have "CHR ''/'' \<notin> set n" using 7(3) by simp
    moreover have "CHR ''/'' \<notin> set m" using dirs_ok_mem [OF _ m(2)] 7(3) by simp
    ultimately have "n = m" by (rule lies_in_one [OF m(1,3)])
    with m(2) 7(4) show "p \<in> {}" by (simp add: image_iff) (metis fst_conv)
  qed simp
  then have "distinct (map fst (regulars nd (entry_path prefix n) @ regulars_in rest prefix))"
    using a b by simp
  moreover have "\<forall>p \<in> fst ` set (regulars nd (entry_path prefix n) @ regulars_in rest prefix). \<exists>m \<in> fst ` set ((n, nd) # rest). lies_in prefix m p"
    using a b by (simp add: ball_Un image_Un)
  ultimately show ?case using b by (cases "skipped n") simp_all
qed (auto simp: lies_in_def)


lemma distinct_set_all: "distinct (map fst out) \<Longrightarrow> distinct (map fst (set_all fs out))"
  by (induction fs arbitrary: out) (auto simp: set_all_def distinct_update)

lemma Compare_same:
  assumes "map_of base = map_of work" "distinct (map fst work)"
  shows "wd_Empty (Compare base work)"
proof -
  have a: "filter (\<lambda>p. map_of base p = None) (map fst work) = []"
    unfolding assms(1) by (auto simp: filter_empty_conv map_of_eq_None_iff)
  have r: "filter (\<lambda>p. map_of work p = None) (map fst base) = []"
    unfolding assms(1) [symmetric] by (auto simp: filter_empty_conv map_of_eq_None_iff)
  have "map_of base p = Some ws" if "(p, ws) \<in> set work" for p ws
    using assms that by simp
  then have "filter (\<lambda>(p, ws). case map_of base p of None \<Rightarrow> False | Some bs \<Rightarrow> \<not> Equal (fe_id bs) (fe_id ws)) work = []"
    "filter (\<lambda>(p, ws). case map_of base p of None \<Rightarrow> False | Some bs \<Rightarrow> Equal (fe_id bs) (fe_id ws) \<and> fe_mode bs \<noteq> fe_mode ws) work = []"
    by (auto simp: filter_empty_conv)
  then show ?thesis unfolding Compare_def Let_def a r by (simp add: wd_Empty_def)
qed


definition demo_stat :: fstat where
  "demo_stat = \<lparr>st_size = 2, st_mtimeNs = 5000000000, st_inode = 7, st_exec = False\<rparr>"

definition demo_dir :: node where
  "demo_dir = Directory None [(''.varvig'', Special), (''a'', Directory None [(''b'', Regular demo_stat (Inr [104, 105]))]),
     (''c'', Link (Inr ''a''))]"

definition demo_index :: windex where
  "demo_index = \<lparr>ix_written = 9000000000, ix_entries =
     [(''a/b'', \<lparr>ie_size = 2, ie_mtimeNs = 5000000000, ie_inode = 7, ie_mode = modeFile,
        ie_hash = Hex (case blob_id ends_hash Default [104, 105] of Inr i \<Rightarrow> i | Inl _ \<Rightarrow> [])\<rparr>)]\<rparr>"

lemma demo_truthful: "truthful ends_hash (os_algo Open_store) (regulars demo_dir []) demo_index"
proof -
  have "case ix_clean demo_index ''a/b'' demo_stat modeFile of Some hash \<Rightarrow> blob_id ends_hash Default [104, 105] = Inr hash | None \<Rightarrow> False"
    by code_simp
  moreover have "set (regulars demo_dir []) = {(''a/b'', demo_stat, Inr [104, 105])}"
    by (simp add: demo_dir_def skipped_def entry_path_def)
  ultimately show ?thesis
    by (auto simp: truthful_def file_mode_def demo_stat_def Open_store_def split: option.splits)
qed

lemma demo_dir_ok: "dir_ok demo_dir"
  by (simp add: demo_dir_def max_alloc_def)


text \<open>C27. A directory written as a tree compares as unchanged: the tree \<^verbatim>\<open>WriteTree\<close> stores reads back as
  the files a scan of the directory finds (with or without a truthful index, from any store with
  the same hash), so the comparison of the two is empty.\<close>

theorem clean_after_write:
  assumes "wf_hashes h" "store_ok h s" "dir_ok (Directory err ents)" "height (Directory err ents) \<le> stk"
    and "node_tree h (os_algo s) [] (Directory err ents) = Inr (en, bs)"
    and "inj_on (Sum h (os_algo s)) (set bs \<union> snd ` set (os_files s))"
    and "os_algo t = os_algo s" "truthful h (os_algo s) (regulars (Directory err ents) []) ix"
  shows "\<exists>s' base work. WriteTree h s (Directory err ents) = (Inr (eid en), s') \<and>
    FlattenStates stk h s' (Some (eid en)) = Inr base \<and> fst (Scan h t (Directory err ents) ix) = Inr work \<and>
    map_of base = map_of work \<and> wd_Empty (Compare base work)"
proof -
  let ?s = "put_raws h s bs"
  obtain stk' where stk: "stk = Suc stk'" using assms(4) by (cases stk) simp_all
  from assms(5) obtain es bs' i where t: "err = None" "nodes_tree h (os_algo s) ents = Inr (es, bs')"
    "NewTree es = Inr (tree_obj (sort_key ename es))" "Sum h (os_algo s) (Encode (tree_obj (sort_key ename es))) = Inr i"
    "en = dir_entry [] i" "bs = bs' @ [Encode (tree_obj (sort_key ename es))]"
    by (auto simp: result_iffs NewTree_eq split: option.splits if_splits)
  have "write_entry h s [] (Directory err ents) = (Inr en, ?s)"
    using write_tree_of(1) [OF assms(1) refl, of s "[]" "Directory err ents"] assms(5) by (simp add: writes_def)
  then have w: "WriteTree h s (Directory err ents) = (Inr (eid en), ?s)"
    by (auto simp: dir_entry_def split: prod.splits sum.splits simp del: WriteTree.simps)
  have r: "readable h (os_algo s) ?s bs" by (rule put_raws_readable [OF assms(1,2,6)])
  have "list_all2 (entry_for stk' h (os_algo s) ?s []) (kept_ents ents) es"
    using r t(6) assms(3,4) stk by (intro tree_stands(2) [OF assms(1) t(2)]) (auto simp: readable_def)
  moreover have "GetRaw h ?s i = Inr (Encode (tree_obj (sort_key ename es)))" using r t(4,6) by (simp add: readable_def)
  moreover have "dirs_ok ents" "distinct (map fst ents)" "sum_list (map (\<lambda>(name, nd). length name + 108) ents) \<le> max_alloc"
    using assms(3) by simp_all
  ultimately obtain fs where fs: "nodes_files h (os_algo s) ents [] = Inr fs"
    "\<forall>out. \<exists>out'. flattenInto (Suc stk') h ?s i [] out = Inr out' \<and> extends out (set fs) out'"
    using dir_stands by blast
  from fs(2) obtain base where "flattenInto (Suc stk') h ?s i [] [] = Inr base" "extends [] (set fs) base" by blast
  note f = fs(1) this
  have d: "distinct (map fst (regulars (Directory err ents) []))"
    using regulars_paths(2) [of ents "[]"] assms(3) by simp
  have work: "fst (Scan h t (Directory err ents) ix) = Inr (set_all fs [])"
    using Scan_reads(1) [OF assms(1) d, of t ix] assms(7,8) f(1) t(1) by simp
  have same: "map_of base = map_of (set_all fs [])" by (rule same_files [OF f(3)])
  have "wd_Empty (Compare base (set_all fs []))" by (rule Compare_same [OF same distinct_set_all]) simp
  with w f(2) work same t(5) stk show ?thesis
    by (auto simp: FlattenStates_def flatten_def dir_entry_def)
qed

theorem clean_after_write_witness:
  "\<exists>i s' base work. WriteTree ends_hash Open_store demo_dir = (Inr i, s') \<and>
    FlattenStates 2 ends_hash s' (Some i) = Inr base \<and> fst (Scan ends_hash Open_store demo_dir demo_index) = Inr work \<and>
    map_of base = map_of work"
proof -
  have "case node_tree ends_hash Default [] demo_dir of Inl _ \<Rightarrow> False
      | Inr (en, bs) \<Rightarrow> distinct (map (Sum ends_hash Default) bs)" by code_simp
  then obtain en bs where t: "node_tree ends_hash (os_algo Open_store) [] demo_dir = Inr (en, bs)" "distinct (map (Sum ends_hash Default) bs)"
    by (auto simp: Open_store_def split: sum.splits)
  moreover have "height demo_dir \<le> 2" by (simp add: demo_dir_def)
  moreover have "inj_on (Sum ends_hash (os_algo Open_store)) (set bs \<union> snd ` set (os_files Open_store))"
    using t(2) by (simp add: Open_store_def distinct_map)
  ultimately show ?thesis
    using clean_after_write [OF ends_hash_ok store_ok_empty, of _ _ 2 en bs Open_store demo_index] demo_dir_ok demo_truthful
    unfolding demo_dir_def by blast
qed

text \<open>A clean entry spares the scan not only the reading but also the storing: with the index of an
  earlier scan and a store that no longer has the blob (it is unreachable until the change is
  proposed, so a collection deletes it), the tree a proposal writes refers to an object that is
  not there.\<close>

theorem clean_entry_not_stored:
  "\<exists>dir ix files i s. dir_ok dir \<and> truthful ends_hash (os_algo Open_store) (regulars dir []) ix \<and>
     Scan ends_hash Open_store dir ix = (Inr files, Open_store, ix) \<and> BuildTree ends_hash Open_store files = (Inr i, s) \<and>
     (\<exists>fe \<in> snd ` set files. GetRaw ends_hash s (fe_id fe) = Inl (Sentinel StoreNotFound []))"
proof -
  let ?dir = "Directory None [(''b'', Regular demo_stat (Inr [104, 105]))]"
  let ?i = "case blob_id ends_hash Default [104, 105] of Inr i \<Rightarrow> i | Inl _ \<Rightarrow> []"
  let ?ix = "\<lparr>ix_written = 9000000000, ix_entries =
     [(''b'', \<lparr>ie_size = 2, ie_mtimeNs = 5000000000, ie_inode = 7, ie_mode = modeFile, ie_hash = Hex ?i\<rparr>)]\<rparr>"
  have c: "case ix_clean ?ix ''b'' demo_stat modeFile of Some hash \<Rightarrow> blob_id ends_hash Default [104, 105] = Inr hash | None \<Rightarrow> False"
    by code_simp
  have "set (regulars ?dir []) = {(''b'', demo_stat, Inr [104, 105])}"
    by (simp add: skipped_def entry_path_def)
  then have "truthful ends_hash (os_algo Open_store) (regulars ?dir []) ?ix"
    using c by (auto simp: truthful_def file_mode_def demo_stat_def Open_store_def split: option.splits)
  moreover have "dir_ok ?dir" by (simp add: max_alloc_def)
  moreover have "Scan ends_hash Open_store ?dir ?ix = (Inr [(''b'', \<lparr>fe_id = ?i, fe_mode = modeFile\<rparr>)], Open_store, ?ix)"
    by code_simp
  moreover have "case BuildTree ends_hash Open_store [(''b'', \<lparr>fe_id = ?i, fe_mode = modeFile\<rparr>)] of
      (Inl _, _) \<Rightarrow> False | (Inr _, s) \<Rightarrow> GetRaw ends_hash s ?i = Inl (Sentinel StoreNotFound [])" by code_simp
  then obtain i s where "BuildTree ends_hash Open_store [(''b'', \<lparr>fe_id = ?i, fe_mode = modeFile\<rparr>)] = (Inr i, s)"
    "GetRaw ends_hash s ?i = Inl (Sentinel StoreNotFound [])" by (auto split: prod.splits sum.splits)
  ultimately show ?thesis by (intro exI conjI) (auto intro: bexI)
qed

end
