(* ===== verification/GitObj.thy ===== *)
theory GitObj
  imports Strconv Multihash "HOL-Library.AList" "HOL-Library.Multiset"
begin

text \<open>
  \<^verbatim>\<open>internal/gitobj/gitobj.go\<close>: the objects of Git, their identities, and the loose part of an object
  store. SHA-1 and zlib are parameters; a store is a map from the two parts of an object's path to
  the bytes of the file.
\<close>

record git_env =
  ge_sha1 :: "byte list \<Rightarrow> byte list"
  ge_deflate :: "byte list \<Rightarrow> byte list"
  ge_inflate :: "byte list \<Rightarrow> goerr + (byte list \<times> nat)"   \<comment> \<open>one stream and the bytes it took\<close>

text \<open>What the code relies on: the length of a SHA-1, and that a written stream reads back.\<close>

definition wf_git :: "git_env \<Rightarrow> bool" where
  "wf_git g \<longleftrightarrow> (\<forall>b. length (ge_sha1 g b) = 20) \<and>
     (\<forall>b rest. ge_inflate g (ge_deflate g b @ rest) = Inr (b, length (ge_deflate g b))) \<and>
     (\<forall>b out n. ge_inflate g b = Inr (out, n) \<longrightarrow> n \<le> length b)"

definition KindBlob :: string where "KindBlob = ''blob''"
definition KindTree :: string where "KindTree = ''tree''"
definition KindCommit :: string where "KindCommit = ''commit''"

definition GitModeFile :: string where "GitModeFile = ''100644''"
definition GitModeExec :: string where "GitModeExec = ''100755''"
definition GitModeSymlink :: string where "GitModeSymlink = ''120000''"
definition GitModeTree :: string where "GitModeTree = ''40000''"

section \<open>Identities\<close>

type_synonym oid = "byte list"

definition no_oid :: oid where "no_oid = replicate 20 0"

definition OID_Hex :: "oid \<Rightarrow> string" where
  "OID_Hex o' = hex_encode o'"

definition ParseOID :: "string \<Rightarrow> goerr + oid" where
  "ParseOID s =
     (case hex_decode s of
        Inl _ \<Rightarrow> Inl (Plain ''gitobj: invalid oid'')
      | Inr b \<Rightarrow> if length b \<noteq> 20 then Inl (Plain ''gitobj: invalid oid'') else Inr b)"

definition obj_header :: "string \<Rightarrow> nat \<Rightarrow> byte list" where
  "obj_header kind len = bytes_of (kind @ '' '' @ FormatInt 10 (int len)) @ [0]"

definition HashObject :: "git_env \<Rightarrow> string \<Rightarrow> byte list \<Rightarrow> oid" where
  "HashObject g kind body = ge_sha1 g (obj_header kind (length body) @ body)"

section \<open>Trees\<close>

record git_entry =
  gt_Mode :: string
  gt_Name :: string
  gt_OID :: oid

definition virtualByte :: "string \<Rightarrow> nat \<Rightarrow> bool \<Rightarrow> nat" where
  "virtualByte name at dir =
     (if at < length name then of_char (name ! at) else if dir then of_char (CHR ''/'') else 0)"

definition treeLess :: "string \<Rightarrow> bool \<Rightarrow> string \<Rightarrow> bool \<Rightarrow> bool" where
  "treeLess n1 dir1 n2 dir2 =
     (let l = min (length n1) (length n2) in
      if take l n1 \<noteq> take l n2 then take l n1 < take l n2
      else virtualByte n1 l dir1 < virtualByte n2 l dir2)"

definition entry_less :: "git_entry \<Rightarrow> git_entry \<Rightarrow> bool" where
  "entry_less a b = treeLess (gt_Name a) (gt_Mode a = GitModeTree) (gt_Name b) (gt_Mode b = GitModeTree)"

text \<open>\<^verbatim>\<open>sort.Slice\<close>: the order is determined as far as \<^verbatim>\<open>less\<close> determines it; equal entries keep theirs here.\<close>

fun insert_by :: "('a \<Rightarrow> 'a \<Rightarrow> bool) \<Rightarrow> 'a \<Rightarrow> 'a list \<Rightarrow> 'a list" where
  "insert_by less' x [] = [x]"
| "insert_by less' x (y # ys) = (if less' y x then y # insert_by less' x ys else x # y # ys)"

definition sort_slice :: "('a \<Rightarrow> 'a \<Rightarrow> bool) \<Rightarrow> 'a list \<Rightarrow> 'a list" where
  "sort_slice less' xs = foldr (insert_by less') xs []"

definition enc_git_entry :: "git_entry \<Rightarrow> byte list" where
  "enc_git_entry e = bytes_of (gt_Mode e) @ [32] @ bytes_of (gt_Name e) @ [0] @ gt_OID e"

definition EncodeTree :: "git_entry list \<Rightarrow> byte list" where
  "EncodeTree entries = concat (map enc_git_entry (sort_slice entry_less entries))"

text \<open>Up to a byte and after it, as \<^verbatim>\<open>bytes.IndexByte\<close> and the two slices give them.\<close>

definition cut_at :: "byte \<Rightarrow> byte list \<Rightarrow> (byte list \<times> byte list) option" where
  "cut_at c b = (if c \<in> set b then Some (takeWhile (\<lambda>x. x \<noteq> c) b, tl (dropWhile (\<lambda>x. x \<noteq> c) b)) else None)"

lemma cut_at_first: "c \<notin> set x \<Longrightarrow> cut_at c (x @ c # y) = Some (x, y)"
  by (induction x) (auto simp: cut_at_def)

lemma cut_at_Some: "cut_at c b = Some (x, y) \<longleftrightarrow> c \<notin> set x \<and> b = x @ c # y"
proof
  assume a: "cut_at c b = Some (x, y)"
  then have "c \<in> set b" by (auto simp: cut_at_def split: if_splits)
  then obtain p q where "b = p @ c # q" "c \<notin> set p" by (meson split_list_first)
  with a show "c \<notin> set x \<and> b = x @ c # y" by (simp add: cut_at_first)
qed (auto simp: cut_at_first)

function DecodeTree :: "byte list \<Rightarrow> goerr + git_entry list" where
  "DecodeTree body =
     (if body = [] then Inr []
      else
        (case cut_at 32 body of
           None \<Rightarrow> Inl (Plain ''gitobj: tree entry missing mode separator'')
         | Some (mode, body1) \<Rightarrow>
             (case cut_at 0 body1 of
                None \<Rightarrow> Inl (Plain ''gitobj: tree entry missing name terminator'')
              | Some (name, body2) \<Rightarrow>
                  if length body2 < 20 then Inl (Plain ''gitobj: tree entry truncated oid'')
                  else
                    rbind (DecodeTree (drop 20 body2)) (\<lambda>entries.
                    Inr (\<lparr>gt_Mode = string_of mode, gt_Name = string_of name, gt_OID = take 20 body2\<rparr> # entries)))))"
  by pat_completeness auto
termination
  by (relation "measure length") (auto simp: cut_at_Some)

declare DecodeTree.simps [simp del]

section \<open>Commits\<close>

record git_commit =
  gc_Tree :: oid
  gc_Parents :: "oid list"
  gc_Author :: string
  gc_AuthorTS :: int
  gc_Message :: string
  gc_RawBody :: "byte list"

text \<open>\<^verbatim>\<open>bytes.Index(body, "\n\n")\<close>, as the text before it and the text after it.\<close>

fun cut_blank :: "string \<Rightarrow> (string \<times> string) option" where
  "cut_blank (x # y # s) =
     (if x = newline \<and> y = newline then Some ([], s)
      else (case cut_blank (y # s) of None \<Rightarrow> None | Some (a, b) \<Rightarrow> Some (x # a, b)))"
| "cut_blank _ = None"

definition parseIdent :: "string \<Rightarrow> string \<times> int" where
  "parseIdent s =
     (if CHR ''>'' \<notin> set s then (s, 0)
      else
        (let rest = rev (takeWhile (\<lambda>c. c \<noteq> CHR ''>'') (rev s)); ident = take (length s - length rest) s in
         (ident, case fields_of rest of [] \<Rightarrow> 0 | f # _ \<Rightarrow> (case ParseInt 10 f of Some v \<Rightarrow> v | None \<Rightarrow> 0))))"

definition commit_line :: "string \<Rightarrow> git_commit \<Rightarrow> goerr + git_commit" where
  "commit_line line c =
     (if has_prefix line ''tree '' then
        rbind (ParseOID (drop 5 line)) (\<lambda>o'. Inr (c\<lparr>gc_Tree := o'\<rparr>))
      else if has_prefix line ''parent '' then
        rbind (ParseOID (drop 7 line)) (\<lambda>o'. Inr (c\<lparr>gc_Parents := gc_Parents c @ [o']\<rparr>))
      else if has_prefix line ''author '' then
        (case parseIdent (drop 7 line) of (ident, ts) \<Rightarrow> Inr (c\<lparr>gc_Author := ident, gc_AuthorTS := ts\<rparr>))
      else Inr c)"

fun commit_lines :: "string list \<Rightarrow> git_commit \<Rightarrow> goerr + git_commit" where
  "commit_lines [] c = Inr c"
| "commit_lines (l # ls) c = rbind (commit_line l c) (commit_lines ls)"

definition DecodeCommit :: "byte list \<Rightarrow> goerr + git_commit" where
  "DecodeCommit body =
     (case cut_blank (string_of body) of
        None \<Rightarrow> Inl (Plain ''gitobj: commit missing header/message separator'')
      | Some (header, message) \<Rightarrow>
          commit_lines (split_on newline header)
            \<lparr>gc_Tree = no_oid, gc_Parents = [], gc_Author = [], gc_AuthorTS = 0, gc_Message = message, gc_RawBody = body\<rparr>)"

definition EncodeCommit :: "oid \<Rightarrow> oid list \<Rightarrow> string \<Rightarrow> int \<Rightarrow> string \<Rightarrow> byte list" where
  "EncodeCommit tree parents ident ts message =
     bytes_of (''tree '' @ OID_Hex tree @ [newline] @
       concat (map (\<lambda>p. ''parent '' @ OID_Hex p @ [newline]) parents) @
       ''author '' @ ident @ '' '' @ FormatInt 10 ts @ '' +0000'' @ [newline] @
       ''committer '' @ ident @ '' '' @ FormatInt 10 ts @ '' +0000'' @ [newline] @
       [newline] @ message)"

section \<open>Loose objects\<close>

record git_store =
  gs_loose :: "((string \<times> string) \<times> byte list) list"
  gs_packs :: "(string \<times> (goerr + byte list)) list"    \<comment> \<open>the pack files in the order of \<^verbatim>\<open>filepath.Glob\<close>\<close>
  gs_loaded :: "(goerr + (string \<times> (string \<times> byte list)) list) option"   \<comment> \<open>\<^verbatim>\<open>once\<close>, \<^verbatim>\<open>packed\<close>, \<^verbatim>\<open>packErr\<close>\<close>

definition objectPath :: "oid \<Rightarrow> string \<times> string" where
  "objectPath o' = (let h = OID_Hex o' in (take 2 h, drop 2 h))"

definition git_Write :: "git_env \<Rightarrow> git_store \<Rightarrow> string \<Rightarrow> byte list \<Rightarrow> oid \<times> git_store" where
  "git_Write g s kind body =
     (let oid = HashObject g kind body; path = objectPath oid in
      if map_of (gs_loose s) path \<noteq> None then (oid, s)
      else (oid, s\<lparr>gs_loose := AList.update path (ge_deflate g (obj_header kind (length body) @ body)) (gs_loose s)\<rparr>))"

text \<open>A missing file is an outcome of its own (\<^verbatim>\<open>os.IsNotExist\<close>).\<close>

datatype 'a lookup = Missing | Failed goerr | Found 'a

text \<open>\<^verbatim>\<open>fmt.Sscanf(s, "%s %d", ...)\<close>: blanks, a word, at least one blank, blanks, an integer; what
  follows is ignored. (The word is read as bytes; Go reads runes, which differs for a kind that is
  not UTF-8.)\<close>

definition is_blank :: "char \<Rightarrow> bool" where
  "is_blank c = (is_space c \<and> c \<noteq> newline)"

definition scan_int :: "string \<Rightarrow> int option" where
  "scan_int s =
     (let (sign, ds) = (case s of c # t \<Rightarrow> if c = CHR ''+'' \<or> c = CHR ''-'' then ([c], t) else ([], s) | [] \<Rightarrow> ([], []));
          ds = takeWhile (\<lambda>c. c \<in> set ''0123456789'') ds
      in if ds = [] then None else ParseInt 10 (sign @ ds))"

definition scan_header :: "string \<Rightarrow> (string \<times> int) option" where
  "scan_header s =
     (let s = dropWhile is_blank s; kind = takeWhile (\<lambda>c. \<not> is_space c) s; s = dropWhile (\<lambda>c. \<not> is_space c) s in
      if kind = [] then None
      else if s = [] \<or> hd s = newline then None
      else map_option (\<lambda>n. (kind, n)) (scan_int (dropWhile is_blank s)))"

definition readLoose :: "git_env \<Rightarrow> git_store \<Rightarrow> oid \<Rightarrow> (string \<times> byte list) lookup" where
  "readLoose g s o' =
     (case map_of (gs_loose s) (objectPath o') of
        None \<Rightarrow> Missing
      | Some f \<Rightarrow>
          (case ge_inflate g f of
             Inl e \<Rightarrow> Failed e
           | Inr (raw, _) \<Rightarrow>
               (case cut_at 0 raw of
                  None \<Rightarrow> Failed (Plain ''gitobj: object missing header terminator'')
                | Some (header, body) \<Rightarrow>
                    (case scan_header (string_of header) of
                       None \<Rightarrow> Failed (Plain ''gitobj: bad object header'')
                     | Some (kind, size') \<Rightarrow>
                         if int (length body) \<noteq> size' then Failed (Plain ''gitobj: object size mismatch'')
                         else if HashObject g kind body \<noteq> o' then Failed (Plain ''gitobj: object failed integrity check'')
                         else Found (kind, body)))))"


section \<open>Trees are exact\<close>

definition wf_git_entry :: "git_entry \<Rightarrow> bool" where
  "wf_git_entry e \<longleftrightarrow> CHR '' '' \<notin> set (gt_Mode e) \<and> CHR 0x00 \<notin> set (gt_Name e) \<and> length (gt_OID e) = 20"

lemma byte_in_bytes: "c \<in> set b \<longleftrightarrow> char_of_byte c \<in> set (string_of b)"
  unfolding string_of_def set_map by (metis byte_char_inverse image_iff)

lemma enc_git_entry_cut:
  assumes "wf_git_entry e"
  shows "cut_at 32 (enc_git_entry e @ b) = Some (bytes_of (gt_Mode e), bytes_of (gt_Name e) @ [0] @ gt_OID e @ b)"
    and "cut_at 0 (bytes_of (gt_Name e) @ [0] @ gt_OID e @ b) = Some (bytes_of (gt_Name e), gt_OID e @ b)"
proof -
  have "char_of_byte 32 = CHR '' ''" "char_of_byte 0 = CHR 0x00" by code_simp+
  then have "32 \<notin> set (bytes_of (gt_Mode e))" "0 \<notin> set (bytes_of (gt_Name e))"
    using assms by (simp_all add: byte_in_bytes wf_git_entry_def)
  then show "cut_at 32 (enc_git_entry e @ b) = Some (bytes_of (gt_Mode e), bytes_of (gt_Name e) @ [0] @ gt_OID e @ b)"
    "cut_at 0 (bytes_of (gt_Name e) @ [0] @ gt_OID e @ b) = Some (bytes_of (gt_Name e), gt_OID e @ b)"
    unfolding cut_at_Some enc_git_entry_def by simp_all
qed

lemma DecodeTree_enc: "wf_git_entry e \<Longrightarrow> DecodeTree (enc_git_entry e @ b) = rbind (DecodeTree b) (\<lambda>es. Inr (e # es))"
  using enc_git_entry_cut [of e b]
  by (cases e) (subst DecodeTree.simps, simp add: wf_git_entry_def, simp add: enc_git_entry_def)

lemma DecodeTree_encs: "list_all wf_git_entry es \<Longrightarrow> DecodeTree (concat (map enc_git_entry es)) = Inr es"
  by (induction es) (simp_all add: DecodeTree.simps [of "[]"] DecodeTree_enc)

lemma DecodeTree_sound: "DecodeTree body = Inr es \<Longrightarrow> list_all wf_git_entry es \<and> body = concat (map enc_git_entry es)"
proof (induction body arbitrary: es rule: DecodeTree.induct)
  case (1 body)
  show ?case
  proof (cases "body = []")
    case True
    with 1(2) show ?thesis by (simp add: DecodeTree.simps)
  next
    case False
    with 1(2) obtain mode b1 name b2 es' where c: "cut_at 32 body = Some (mode, b1)" "cut_at 0 b1 = Some (name, b2)" "20 \<le> length b2"
      "DecodeTree (drop 20 b2) = Inr es'" "es = \<lparr>gt_Mode = string_of mode, gt_Name = string_of name, gt_OID = take 20 b2\<rparr> # es'"
      by (subst (asm) DecodeTree.simps) (auto simp: result_iffs split: option.splits prod.splits if_splits)
    have m: "32 \<notin> set mode" "0 \<notin> set name" "body = mode @ 32 # name @ 0 # take 20 b2 @ drop 20 b2"
      using c(1,2) by (auto simp: cut_at_Some)
    have "char_of_byte 32 = CHR '' ''" "char_of_byte 0 = CHR 0x00" by code_simp+
    then have wf: "wf_git_entry \<lparr>gt_Mode = string_of mode, gt_Name = string_of name, gt_OID = take 20 b2\<rparr>"
      using m(1,2) c(3) by (simp add: wf_git_entry_def byte_in_bytes)
    have "list_all wf_git_entry es' \<and> drop 20 b2 = concat (map enc_git_entry es')"
      using 1(1) [OF False c(1) refl c(2) refl _ c(4)] c(3) by simp
    with wf m(3) show ?thesis unfolding c(5) by (simp add: enc_git_entry_def [of "\<lparr>gt_Mode = _, gt_Name = _, gt_OID = _\<rparr>"])
  qed
qed

text \<open>The order of names: a directory counts with a slash after its name.\<close>

definition git_key :: "git_entry \<Rightarrow> string" where
  "git_key e = (if gt_Mode e = GitModeTree then gt_Name e @ ''/'' else gt_Name e)"

definition plain_name :: "string \<Rightarrow> bool" where
  "plain_name n \<longleftrightarrow> CHR ''/'' \<notin> set n \<and> CHR 0x00 \<notin> set n"

lemma treeLess_Cons: "treeLess (x # m) d (y # n) e \<longleftrightarrow> (if x = y then treeLess m d n e else x < y)"
proof -
  have "virtualByte (x # m) (Suc l) d = virtualByte m l d" for x :: char and m l d by (simp add: virtualByte_def)
  then show ?thesis by (auto simp: treeLess_def Let_def)
qed

lemma of_char_less: "(of_char x < (of_char y :: nat)) \<longleftrightarrow> x < y"
  by (simp add: less_char_def)

lemma treeLess_key:
  assumes "plain_name m" "plain_name n"
  shows "treeLess m d n e \<longleftrightarrow> (if d then m @ ''/'' else m) < (if e then n @ ''/'' else n)"
  using assms
proof (induction m arbitrary: n)
  case Nil
  show ?case
  proof (cases n)
    case Nil
    then show ?thesis by (auto simp: treeLess_def virtualByte_def)
  next
    case (Cons y n')
    with Nil(2) have y: "y \<noteq> CHR ''/''" "y \<noteq> CHR 0x00" by (auto simp: plain_name_def)
    have "(47 < (of_char y :: nat)) \<longleftrightarrow> CHR ''/'' < y" using of_char_less [of "CHR ''/''" y] by simp
    moreover have "(of_char y :: nat) \<noteq> 0"
    proof -
      have "char_of (0 :: nat) = CHR 0x00" by code_simp
      with y(2) show ?thesis by (metis char_of_char)
    qed
    ultimately show ?thesis using y Cons by (auto simp: treeLess_def virtualByte_def)
  qed
next
  case (Cons x m')
  show ?case
  proof (cases n)
    case Nil
    with Cons(2) have x: "x \<noteq> CHR ''/''" by (auto simp: plain_name_def)
    moreover have "((of_char x :: nat) < 47) \<longleftrightarrow> x < CHR ''/''" using of_char_less [of x "CHR ''/''"] by simp
    ultimately show ?thesis using Nil by (auto simp: treeLess_def virtualByte_def)
  next
    case n: (Cons y n')
    have "plain_name m'" "plain_name n'" using Cons(2,3) n by (auto simp: plain_name_def)
    from Cons(1) [OF this] show ?thesis by (auto simp: n treeLess_Cons)
  qed
qed


lemma insert_by_insort: "(\<And>y. y \<in> set ys \<Longrightarrow> less' y x \<longleftrightarrow> f y < (f x :: 'b::linorder)) \<Longrightarrow> insert_by less' x ys = insort_key f x ys"
  by (induction ys) (auto simp: not_le)

lemma sort_slice_key: "(\<And>x y. x \<in> set xs \<Longrightarrow> y \<in> set xs \<Longrightarrow> less' y x \<longleftrightarrow> f y < (f x :: 'b::linorder)) \<Longrightarrow> sort_slice less' xs = sort_key f xs"
proof (induction xs)
  case (Cons x xs)
  have "sort_slice less' xs = sort_key f xs" by (rule Cons.IH) (simp add: Cons.prems)
  moreover have "insert_by less' x (sort_key f xs) = insort_key f x (sort_key f xs)"
    by (rule insert_by_insort) (simp add: Cons.prems)
  ultimately show ?case by (simp add: sort_slice_def sort_key_def)
qed (simp add: sort_slice_def)

lemma sort_slice_entries:
  "\<forall>e \<in> set es. plain_name (gt_Name e) \<Longrightarrow> sort_slice entry_less es = sort_key git_key es"
  by (rule sort_slice_key) (simp add: entry_less_def treeLess_key git_key_def)

lemma EncodeTree_perm:
  assumes "\<forall>e \<in> set fs. plain_name (gt_Name e)" "distinct (map git_key fs)" "mset gs = mset fs"
  shows "EncodeTree gs = EncodeTree fs"
proof -
  have m: "set gs = set fs" using assms(3) by (metis set_mset_mset)
  have "distinct (map git_key gs)" using assms(2,3) by (metis mset_eq_imp_distinct_iff mset_map)
  then have "sort_key git_key gs = sort_key git_key fs"
    using assms(2) m by (intro map_sorted_distinct_set_unique [of git_key]) (simp_all add: distinct_map)
  with assms(1) m show ?thesis by (simp add: EncodeTree_def sort_slice_entries)
qed

lemma git_key_distinct:
  "\<forall>e \<in> set es. plain_name (gt_Name e) \<Longrightarrow> distinct (map gt_Name es) \<Longrightarrow> distinct (map git_key es)"
proof (induction es)
  case (Cons e es)
  have "git_key e \<noteq> git_key f" if "f \<in> set es" for f
  proof
    assume "git_key e = git_key f"
    moreover have "gt_Name e \<noteq> gt_Name f" using Cons.prems(2) that by auto
    moreover have "plain_name (gt_Name e)" "plain_name (gt_Name f)" using Cons.prems(1) that by auto
    ultimately show False by (auto simp: git_key_def plain_name_def split: if_splits) (metis in_set_conv_decomp)
  qed
  with Cons show ?case by auto
qed simp

text \<open>Git trees: the parser accepts exactly the byte strings made of well-formed entries (and returns
  those entries), and for entries with plain and distinct names what is written reads back as the
  entries in Git's order, the order of the names with a slash after those of directories; so the
  written tree does not depend on the order they were given in.\<close>

theorem git_tree_exact:
  "(DecodeTree body = Inr es \<longleftrightarrow> list_all wf_git_entry es \<and> body = concat (map enc_git_entry es)) \<and>
   (list_all wf_git_entry fs \<and> (\<forall>e \<in> set fs. plain_name (gt_Name e)) \<longrightarrow>
     DecodeTree (EncodeTree fs) = Inr (sort_key git_key fs) \<and>
     (\<forall>gs. distinct (map git_key fs) \<and> mset gs = mset fs \<longrightarrow> EncodeTree gs = EncodeTree fs))"
proof (intro conjI impI allI)
  show "DecodeTree body = Inr es \<longleftrightarrow> list_all wf_git_entry es \<and> body = concat (map enc_git_entry es)"
    using DecodeTree_sound DecodeTree_encs by blast
next
  assume fs: "list_all wf_git_entry fs \<and> (\<forall>e \<in> set fs. plain_name (gt_Name e))"
  then have "list_all wf_git_entry (sort_key git_key fs)" by (simp add: list_all_iff)
  with fs show "DecodeTree (EncodeTree fs) = Inr (sort_key git_key fs)"
    by (simp add: EncodeTree_def sort_slice_entries DecodeTree_encs)
next
  fix gs assume "list_all wf_git_entry fs \<and> (\<forall>e \<in> set fs. plain_name (gt_Name e))" "distinct (map git_key fs) \<and> mset gs = mset fs"
  then show "EncodeTree gs = EncodeTree fs" by (intro EncodeTree_perm) auto
qed

theorem git_tree_exact_witness:
  "let f = \<lparr>gt_Mode = GitModeFile, gt_Name = ''a.c'', gt_OID = no_oid\<rparr>; d = \<lparr>gt_Mode = GitModeTree, gt_Name = ''a'', gt_OID = no_oid\<rparr> in
   DecodeTree (EncodeTree [d, f]) = Inr [f, d] \<and> EncodeTree [f, d] = EncodeTree [d, f] \<and>
   DecodeTree [100] \<noteq> Inr []"
proof -
  let ?f = "\<lparr>gt_Mode = GitModeFile, gt_Name = ''a.c'', gt_OID = no_oid\<rparr>"
  let ?d = "\<lparr>gt_Mode = GitModeTree, gt_Name = ''a'', gt_OID = no_oid\<rparr>"
  have k: "sort_key git_key [?d, ?f] = [?f, ?d]" by code_simp
  have d: "distinct (map git_key [?d, ?f])" by code_simp
  have w: "list_all wf_git_entry [?d, ?f] \<and> (\<forall>e \<in> set [?d, ?f]. plain_name (gt_Name e))"
    by (simp add: wf_git_entry_def plain_name_def GitModeTree_def GitModeFile_def no_oid_def)
  have m: "mset [?f, ?d] = mset [?d, ?f]" by (simp add: add_mset_commute)
  note t = git_tree_exact [of "[100]" "[]" "[?d, ?f]"]
  have "DecodeTree (EncodeTree [?d, ?f]) = Inr [?f, ?d]" using conjunct2 [OF t] w unfolding k by blast
  moreover have "EncodeTree [?f, ?d] = EncodeTree [?d, ?f]" using conjunct2 [OF t] w d m by blast
  moreover have "DecodeTree [100] \<noteq> Inr []" using conjunct1 [OF t] by simp
  ultimately show ?thesis unfolding Let_def by blast
qed

section \<open>Commits\<close>

lemma cut_blank_first: "newline \<notin> set l \<Longrightarrow> l \<noteq> [] \<Longrightarrow> cut_blank (l @ newline # newline # s) = Some (l, s)"
proof (induction l)
  case (Cons x l)
  then show ?case by (cases l) auto
qed simp

lemma cut_blank_line:
  "newline \<notin> set l \<Longrightarrow> l \<noteq> [] \<Longrightarrow> t \<noteq> [] \<Longrightarrow> hd t \<noteq> newline \<Longrightarrow> cut_blank t = Some (a, b) \<Longrightarrow>
   cut_blank (l @ newline # t) = Some (l @ newline # a, b)"
proof (induction l)
  case (Cons x l)
  then show ?case by (cases l; cases t) auto
qed simp

lemma cut_blank_lines:
  "ls \<noteq> [] \<Longrightarrow> \<forall>l \<in> set ls. newline \<notin> set l \<and> l \<noteq> [] \<Longrightarrow>
   cut_blank (join_with [newline] ls @ newline # newline # s) = Some (join_with [newline] ls, s)"
proof (induction "[newline]" ls rule: join_with.induct)
  case (3 x y zs)
  have "cut_blank (join_with [newline] (y # zs) @ newline # newline # s) = Some (join_with [newline] (y # zs), s)"
    using 3 by simp
  moreover have "hd (join_with [newline] (y # zs) @ newline # newline # s) \<noteq> newline"
    using 3(3) by (cases y; cases zs) auto
  ultimately show ?case using 3(3) cut_blank_line [of x "join_with [newline] (y # zs) @ newline # newline # s"] by simp
qed (simp_all add: cut_blank_first)

lemma parseIdent_stamp:
  assumes "ident \<noteq> []" "last ident = CHR ''>''" "int64 ts"
  shows "parseIdent (ident @ '' '' @ FormatInt 10 ts @ '' +0000'') = (ident, ts)"
proof -
  let ?r = "'' '' @ FormatInt 10 ts @ '' +0000''"
  obtain i where i: "ident = i @ ''>''" using assms(1,2) by (metis append_butlast_last_id)
  have c: "c \<in> set (FormatInt 10 ts) \<Longrightarrow> c \<in> set ''-0123456789abcdef''" for c
    using FormatInt_chars [of 10 c ts] by auto
  have "CHR ''>'' \<notin> set ?r" using c [of "CHR ''>''"] by auto
  moreover have e: "rev (ident @ ?r) = rev ?r @ CHR ''>'' # rev i" using i by simp
  ultimately have "takeWhile (\<lambda>c. c \<noteq> CHR ''>'') (rev (ident @ ?r)) = rev ?r"
    unfolding e by (subst takeWhile_tail) (simp_all add: takeWhile_eq_all_conv del: rev_append append_Cons, fastforce)
  then have r: "rev (takeWhile (\<lambda>c. c \<noteq> CHR ''>'') (rev (ident @ ?r))) = ?r" by (simp only: rev_rev_ident)
  have "\<not> is_space d" if "d \<in> set ''-0123456789abcdef''" for d
    using that by (auto simp: is_space_def)
  with c have "\<forall>d \<in> set (FormatInt 10 ts). \<not> is_space d" by blast
  moreover have "FormatInt 10 ts \<noteq> []" by (simp add: FormatInt_def)
  ultimately have w: "word_ok (FormatInt 10 ts)" by (simp add: word_ok_def)
  have "fields_of ?r = FormatInt 10 ts # fields_of ''+0000''"
    using fields_word(2) [OF w, of "''+0000''"] by (simp add: is_space_def)
  then show ?thesis
    unfolding parseIdent_def r Let_def using assms(3) by (simp add: i)
qed


lemma OID_Hex_no: "c \<notin> set ''0123456789abcdef'' \<Longrightarrow> c \<notin> set (OID_Hex o')"
  using Hex_not_in [of c o'] by (simp add: OID_Hex_def Hex_def)

lemma ParseOID_Hex [simp]: "length o' = 20 \<Longrightarrow> ParseOID (OID_Hex o') = Inr o'"
  by (simp add: ParseOID_def OID_Hex_def)

definition commit_header :: "oid \<Rightarrow> oid list \<Rightarrow> string \<Rightarrow> int \<Rightarrow> string list" where
  "commit_header tree parents ident ts =
     (''tree '' @ OID_Hex tree) # map (\<lambda>p. ''parent '' @ OID_Hex p) parents @
     [''author '' @ ident @ '' '' @ FormatInt 10 ts @ '' +0000'', ''committer '' @ ident @ '' '' @ FormatInt 10 ts @ '' +0000'']"

lemma join_cons: "ls \<noteq> [] \<Longrightarrow> join_with sep (l # ls) = l @ sep @ join_with sep ls"
  by (cases ls) simp_all

lemma EncodeCommit_lines:
  "EncodeCommit tree parents ident ts message =
     bytes_of (join_with [newline] (commit_header tree parents ident ts) @ newline # newline # message)"
proof -
  have "join_with [newline] (map f ps @ [a, b]) = concat (map (\<lambda>p. f p @ [newline]) ps) @ a @ newline # b"
    for f :: "oid \<Rightarrow> string" and ps a b
    by (induction ps) (simp_all add: join_cons)
  then show ?thesis
    by (simp add: EncodeCommit_def commit_header_def join_cons del: bytes_of_append)
qed

lemma parents_lines:
  "\<forall>p \<in> set ps. length p = 20 \<Longrightarrow>
   commit_lines (map (\<lambda>p. ''parent '' @ OID_Hex p) ps @ ls) c = commit_lines ls (c\<lparr>gc_Parents := gc_Parents c @ ps\<rparr>)"
proof (induction ps arbitrary: c)
  case (Cons p ps)
  then have "commit_line (''parent '' @ OID_Hex p) c = Inr (c\<lparr>gc_Parents := gc_Parents c @ [p]\<rparr>)"
    by (simp add: commit_line_def has_prefix_def)
  with Cons show ?case by simp
qed simp

text \<open>A commit written by \<^verbatim>\<open>EncodeCommit\<close> reads back as it was given, whatever the message, for an
  identity that ends in \<^verbatim>\<open>>\<close> and has no line break.\<close>

theorem git_commit_roundtrip:
  assumes "length tree = 20" "\<forall>p \<in> set parents. length p = 20"
    and "ident \<noteq> []" "last ident = CHR ''>''" "newline \<notin> set ident" "int64 ts"
  shows "DecodeCommit (EncodeCommit tree parents ident ts message) =
    Inr \<lparr>gc_Tree = tree, gc_Parents = parents, gc_Author = ident, gc_AuthorTS = ts, gc_Message = message,
      gc_RawBody = EncodeCommit tree parents ident ts message\<rparr>"
proof -
  let ?H = "commit_header tree parents ident ts"
  have n: "newline \<notin> set (OID_Hex o')" for o' by (rule OID_Hex_no) simp
  have "newline \<notin> set (FormatInt 10 ts)" by (rule FormatInt_chars) simp_all
  then have l: "\<forall>l \<in> set ?H. newline \<notin> set l \<and> l \<noteq> []"
    using assms(5) n by (auto simp: commit_header_def)
  have ne: "?H \<noteq> []" by (simp add: commit_header_def)
  have sp: "split_on newline (join_with [newline] ?H) = ?H" using split_join [OF ne] l by blast
  have cut: "cut_blank (string_of (EncodeCommit tree parents ident ts message)) = Some (join_with [newline] ?H, message)"
    unfolding EncodeCommit_lines using cut_blank_lines [OF ne l] by (simp del: bytes_of_append)
  have a: "commit_line (''author '' @ ident @ '' '' @ FormatInt 10 ts @ '' +0000'') c = Inr (c\<lparr>gc_Author := ident, gc_AuthorTS := ts\<rparr>)" for c
    using parseIdent_stamp [OF assms(3,4,6)] by (simp add: commit_line_def has_prefix_def)
  have c: "commit_line (''committer '' @ ident @ '' '' @ FormatInt 10 ts @ '' +0000'') c = Inr c" for c
    by (simp add: commit_line_def has_prefix_def)
  have t: "commit_line (''tree '' @ OID_Hex tree) c = Inr (c\<lparr>gc_Tree := tree\<rparr>)" for c
    using assms(1) by (simp add: commit_line_def has_prefix_def)
  have lines: "commit_lines ?H c = Inr (c\<lparr>gc_Tree := tree, gc_Parents := gc_Parents c @ parents, gc_Author := ident, gc_AuthorTS := ts\<rparr>)" for c
    unfolding commit_header_def commit_lines.simps t rbind_simps parents_lines [OF assms(2)] a c by simp
  show ?thesis unfolding DecodeCommit_def cut by (simp add: sp lines)
qed

theorem git_commit_roundtrip_witness:
  "gc_Author (case DecodeCommit (EncodeCommit no_oid [no_oid] ''A <a>'' (- 7) ''m'') of Inr c \<Rightarrow> c | Inl _ \<Rightarrow> undefined) = ''A <a>''"
  using git_commit_roundtrip [of no_oid "[no_oid]" "''A <a>''" "- 7" "''m''"]
  by (simp add: no_oid_def int64_def)


section \<open>Loose objects read back\<close>

lemma decimal_digits: "c \<in> set (digits_of 10 n) \<Longrightarrow> c \<in> set ''0123456789''"
proof (induction "10 :: nat" n rule: digits_of.induct)
  case (1 n)
  have d: "hex_digit m \<in> set ''0123456789''" if "m < 10" for m
  proof -
    have "list_all (\<lambda>m. hex_digit m \<in> set ''0123456789'') [0..<10]" by code_simp
    with that show ?thesis by (simp only: list_all_iff set_upt) simp
  qed
  show ?case
  proof (cases "n < 10")
    case True
    with 1(2) d [of n] show ?thesis by (subst (asm) digits_of.simps) simp
  next
    case False
    with 1(2) have "c \<in> set (digits_of 10 (n div 10)) \<or> c = hex_digit (n mod 10)"
      by (subst (asm) digits_of.simps) auto
    with 1(1) False d [of "n mod 10"] show ?thesis by auto
  qed
qed

lemma scan_int_nat: "int64 (int n) \<Longrightarrow> scan_int (FormatInt 10 (int n)) = Some (int n)"
proof -
  assume n: "int64 (int n)"
  let ?d = "digits_of 10 n"
  have f: "FormatInt 10 (int n) = ?d" by (simp add: FormatInt_def)
  have t: "takeWhile (\<lambda>c. c \<in> set ''0123456789'') ?d = ?d"
    using decimal_digits by (simp add: takeWhile_eq_all_conv)
  obtain x xs where x: "?d = x # xs" using digits_of_ne [of 10 n] by (cases ?d) auto
  then have "x \<noteq> CHR ''+''" "x \<noteq> CHR ''-''" using decimal_digits [of x n] by auto
  then show ?thesis unfolding f using t x ParseInt_FormatInt [of 10 "int n"] n
    by (simp add: scan_int_def f)
qed

lemma scan_header_written:
  assumes "word_ok kind" "int64 (int n)"
  shows "scan_header (kind @ '' '' @ FormatInt 10 (int n)) = Some (kind, int n)"
proof -
  let ?d = "FormatInt 10 (int n)"
  obtain x xs where x: "kind = x # xs" "\<not> is_space x" using assms(1) by (cases kind) (auto simp: word_ok_def)
  have s: "\<forall>c \<in> set kind. \<not> is_space c" using assms(1) by (simp add: word_ok_def)
  have sp: "is_space (CHR '' '')" "is_blank (CHR '' '')" by (simp_all add: is_space_def is_blank_def)
  have a: "dropWhile is_blank (kind @ '' '' @ ?d) = kind @ '' '' @ ?d" using x by (simp add: is_blank_def)
  have b: "takeWhile (\<lambda>c. \<not> is_space c) (kind @ '' '' @ ?d) = kind" "dropWhile (\<lambda>c. \<not> is_space c) (kind @ '' '' @ ?d) = '' '' @ ?d"
    using s sp by (simp_all add: takeWhile_append dropWhile_append)
  obtain y ys where y: "?d = y # ys" by (cases ?d) (simp_all add: FormatInt_def)
  then have "y \<in> set ''0123456789''" using decimal_digits [of y n] by (simp add: FormatInt_def)
  then have "\<not> is_blank y" by (auto simp: is_blank_def is_space_def)
  with y sp have c: "dropWhile is_blank ('' '' @ ?d) = ?d" by simp
  show ?thesis unfolding scan_header_def a Let_def b using x scan_int_nat [OF assms(2)] c by simp
qed

lemma objectPath_inj: "objectPath a = objectPath b \<Longrightarrow> a = b"
proof -
  assume p: "objectPath a = objectPath b"
  then have "OID_Hex a = OID_Hex b" by (auto simp: objectPath_def Let_def) (metis append_take_drop_id)
  then show "a = b" using Hex_inj [of a b] by (simp add: OID_Hex_def Hex_def)
qed

definition stream_of :: "git_env \<Rightarrow> byte list \<Rightarrow> string \<Rightarrow> byte list \<Rightarrow> bool" where
  "stream_of g f kind body \<longleftrightarrow> word_ok kind \<and> CHR 0x00 \<notin> set kind \<and> int64 (int (length body)) \<and>
     (\<exists>n. ge_inflate g f = Inr (obj_header kind (length body) @ body, n))"

definition loose_ok :: "git_env \<Rightarrow> git_store \<Rightarrow> bool" where
  "loose_ok g s \<longleftrightarrow> (\<forall>(p, f) \<in> set (gs_loose s). \<exists>kind body. stream_of g f kind body \<and> p = objectPath (HashObject g kind body))"

lemma readLoose_stream:
  assumes "stream_of g f kind body" "map_of (gs_loose s) (objectPath (HashObject g kind body)) = Some f"
  shows "readLoose g s (HashObject g kind body) = Found (kind, body)"
proof -
  from assms(1) obtain n where i: "ge_inflate g f = Inr (obj_header kind (length body) @ body, n)"
    "word_ok kind" "CHR 0x00 \<notin> set kind" "int64 (int (length body))"
    by (auto simp: stream_of_def)
  let ?h = "kind @ '' '' @ FormatInt 10 (int (length body))"
  have "CHR 0x00 \<notin> set (FormatInt 10 (int (length body)))" by (rule FormatInt_chars) simp_all
  moreover have "char_of_byte 0 = CHR 0x00" by code_simp
  ultimately have "0 \<notin> set (bytes_of ?h)" using i(3) by (simp add: byte_in_bytes del: bytes_of_append)
  then have c: "cut_at 0 (obj_header kind (length body) @ body) = Some (bytes_of ?h, body)"
    unfolding obj_header_def by (simp add: cut_at_Some del: bytes_of_append)
  show ?thesis
    unfolding readLoose_def assms(2) option.case i(1) sum.case prod.case c string_of_bytes_of scan_header_written [OF i(2,4)] by simp
qed

lemma readLoose_sound: "readLoose g s o' = Found (kind, body) \<Longrightarrow> HashObject g kind body = o'"
  by (auto simp: readLoose_def split: option.splits sum.splits prod.splits if_splits)

lemma git_Write_ok:
  assumes "wf_git g" "loose_ok g s" "word_ok kind" "CHR 0x00 \<notin> set kind" "int64 (int (length body))"
  shows "loose_ok g (snd (git_Write g s kind body))"
    and "map_of (gs_loose s) p = Some f \<Longrightarrow> map_of (gs_loose (snd (git_Write g s kind body))) p = Some f"
    and "\<exists>f. map_of (gs_loose (snd (git_Write g s kind body))) (objectPath (HashObject g kind body)) = Some f"
proof -
  have i: "ge_inflate g (ge_deflate g b) = Inr (b, length (ge_deflate g b))" for b
    using assms(1) unfolding wf_git_def by (metis append_Nil2)
  have st: "stream_of g (ge_deflate g (obj_header kind (length body) @ body)) kind body"
    using assms(3-5) i by (simp add: stream_of_def)
  have "set (AList.update k v al) \<subseteq> insert (k, v) (set al)" for k :: "string \<times> string" and v :: "byte list" and al
    by (induction al) auto
  then have "set (gs_loose (snd (git_Write g s kind body))) \<subseteq>
      insert (objectPath (HashObject g kind body), ge_deflate g (obj_header kind (length body) @ body)) (set (gs_loose s))"
    by (auto simp: git_Write_def Let_def)
  with assms(2) st show "loose_ok g (snd (git_Write g s kind body))"
    unfolding loose_ok_def by blast
qed (auto simp: git_Write_def Let_def update_conv')


lemma git_Write_reads:
  assumes "wf_git g" "loose_ok g s" "word_ok kind" "CHR 0x00 \<notin> set kind" "int64 (int (length body))"
  shows "\<exists>k b. readLoose g (snd (git_Write g s kind body)) (HashObject g kind body) = Found (k, b) \<and>
      HashObject g k b = HashObject g kind body"
    and "readLoose g s o' = Found r \<Longrightarrow> readLoose g (snd (git_Write g s kind body)) o' = Found r"
proof -
  let ?s = "snd (git_Write g s kind body)"
  obtain f where f: "map_of (gs_loose ?s) (objectPath (HashObject g kind body)) = Some f"
    using git_Write_ok(3) [OF assms] by blast
  then obtain k b where k: "stream_of g f k b" "objectPath (HashObject g kind body) = objectPath (HashObject g k b)"
    using git_Write_ok(1) [OF assms] by (auto simp: loose_ok_def dest!: map_of_SomeD)
  then have h: "HashObject g kind body = HashObject g k b" by (intro objectPath_inj)
  with f have "map_of (gs_loose ?s) (objectPath (HashObject g k b)) = Some f" by simp
  from readLoose_stream [OF k(1) this] h
  show "\<exists>k b. readLoose g ?s (HashObject g kind body) = Found (k, b) \<and> HashObject g k b = HashObject g kind body" by auto
  assume r: "readLoose g s o' = Found r"
  then obtain f where "map_of (gs_loose s) (objectPath o') = Some f" by (auto simp: readLoose_def split: option.splits)
  with git_Write_ok(2) [OF assms this] r show "readLoose g ?s o' = Found r" by (simp add: readLoose_def)
qed

end
