(* ===== verification/GitPack.thy ===== *)
theory GitPack
  imports GitObj Sshkey Varint
begin

unbundle bit_operations_syntax

text \<open>
  \<^verbatim>\<open>internal/gitobj/pack.go\<close>: pack files. Offsets and sizes are \<^verbatim>\<open>int64\<close> and wrap; a slice or a \<^verbatim>\<open>make\<close>
  out of range is a panic. A position in the data is the rest of it.
\<close>

section \<open>Deltas\<close>

text \<open>\<^verbatim>\<open>readSize\<close>: seven bits a byte, low ones first, shifted out of the word when there are too many.\<close>

fun readSize :: "i64 \<Rightarrow> nat \<Rightarrow> byte list \<Rightarrow> (i64 \<times> byte list) option" where
  "readSize size' shift [] = None"
| "readSize size' shift (c # delta) =
     (let size' = size' OR push_bit shift (ucast (c AND 0x7f)); shift = shift + 7 in
      if c AND 0x80 = 0 then Some (size', delta) else readSize size' shift delta)"

text \<open>The bytes of a copy's offset or size: bit \<^verbatim>\<open>k + b\<close> of the code says that byte \<^verbatim>\<open>b\<close> follows.\<close>

fun copy_arg :: "byte \<Rightarrow> nat \<Rightarrow> nat list \<Rightarrow> i64 \<Rightarrow> byte list \<Rightarrow> goerr + (i64 \<times> byte list)" where
  "copy_arg op k [] v delta = Inr (v, delta)"
| "copy_arg op k (b # bs) v delta =
     (if bit op (k + b) then
        (case delta of
           [] \<Rightarrow> Inl (Panic ''index out of range'')
         | c # delta \<Rightarrow> copy_arg op k bs (v OR push_bit (8 * b) (ucast c)) delta)
      else copy_arg op k bs v delta)"

lemma copy_arg_length: "copy_arg op k bs v delta = Inr (v', delta') \<Longrightarrow> length delta' \<le> length delta"
  by (induction op k bs v delta rule: copy_arg.induct) (fastforce split: if_splits list.splits)+

function delta_loop :: "byte list \<Rightarrow> byte list \<Rightarrow> byte list \<Rightarrow> goerr + byte list" where
  "delta_loop base out [] = Inr out"
| "delta_loop base out (op # delta) =
     (if bit op 7 then
        rbind (copy_arg op 0 [0..<4] 0 delta) (\<lambda>(off, delta).
        rbind (copy_arg op 4 [0..<3] 0 delta) (\<lambda>(size', delta).
          let size' = (if size' = 0 then 0x10000 else size') in
          if sint (off + size') > int (length base) then Inl (Plain ''gitobj: delta copy out of range'')
          else delta_loop base (out @ take (unat size') (drop (unat off) base)) delta))
      else if op \<noteq> 0 then
        if unat op > length delta then Inl (Plain ''gitobj: delta insert out of range'')
        else delta_loop base (out @ take (unat op) delta) (drop (unat op) delta)
      else Inl (Plain ''gitobj: reserved delta opcode 0''))"
  by pat_completeness auto
termination
  by (relation "measure (\<lambda>(base, out, delta). length delta)") (auto dest!: copy_arg_length)

definition applyDelta :: "byte list \<Rightarrow> byte list \<Rightarrow> goerr + byte list" where
  "applyDelta base delta =
     (case readSize 0 0 delta of
        None \<Rightarrow> Inl (Plain ''gitobj: delta base size mismatch'')
      | Some (baseSize, delta) \<Rightarrow>
          if baseSize \<noteq> word_of_nat (length base) then Inl (Plain ''gitobj: delta base size mismatch'')
          else
            (case readSize 0 0 delta of
               None \<Rightarrow> Inl (Plain ''gitobj: delta truncated result size'')
             | Some (resultSize, delta) \<Rightarrow>
                 if sint resultSize < 0 \<or> sint resultSize > int max_alloc then Inl (Panic ''makeslice: cap out of range'')
                 else
                   rbind (delta_loop base [] delta) (\<lambda>out.
                   if word_of_nat (length out) \<noteq> resultSize then Inl (Plain ''gitobj: delta result size mismatch'')
                   else Inr out)))"

section \<open>Reading a pack\<close>

definition pkOfsDelta :: byte where "pkOfsDelta = 6"
definition pkRefDelta :: byte where "pkRefDelta = 7"

definition pkKind :: "byte \<Rightarrow> string option" where
  "pkKind t = (if t = 1 then Some KindCommit else if t = 2 then Some KindTree else if t = 3 then Some KindBlob
     else if t = 4 then Some ''tag'' else None)"

record raw_entry =
  re_offset :: i64
  re_typ :: byte
  re_inflated :: "byte list"
  re_baseOffset :: i64
  re_baseOID :: oid

fun header_loop :: "byte \<Rightarrow> i64 \<Rightarrow> nat \<Rightarrow> nat \<Rightarrow> byte list \<Rightarrow> (i64 \<times> nat) option" where
  "header_loop c size' shift i b =
     (if c AND 0x80 = 0 then Some (size', i)
      else (case b of [] \<Rightarrow> None
            | c # b \<Rightarrow> header_loop c (size' OR push_bit shift (ucast (c AND 0x7f))) (shift + 7) (i + 1) b))"

declare header_loop.simps [simp del]

text \<open>The count 0 stands for a truncated header.\<close>

definition parseObjHeader :: "byte list \<Rightarrow> byte \<times> i64 \<times> nat" where
  "parseObjHeader b =
     (case b of
        [] \<Rightarrow> (0, 0, 0)
      | c # rest \<Rightarrow>
          (case header_loop c (ucast (c AND 0x0f)) 4 1 rest of
             None \<Rightarrow> (0, 0, 0)
           | Some (size', n) \<Rightarrow> (drop_bit 4 c AND 7, size', n)))"

fun ofs_loop :: "byte \<Rightarrow> i64 \<Rightarrow> nat \<Rightarrow> byte list \<Rightarrow> (i64 \<times> nat) option" where
  "ofs_loop c off i b =
     (if c AND 0x80 = 0 then Some (off, i)
      else (case b of [] \<Rightarrow> None
            | c # b \<Rightarrow> ofs_loop c (push_bit 7 (off + 1) OR ucast (c AND 0x7f)) (i + 1) b))"

declare ofs_loop.simps [simp del]

definition parseOfsOffset :: "byte list \<Rightarrow> i64 \<times> nat" where
  "parseOfsOffset b =
     (case b of
        [] \<Rightarrow> (0, 0)
      | c # rest \<Rightarrow> (case ofs_loop c (ucast (c AND 0x7f)) 1 rest of None \<Rightarrow> (0, 0) | Some r \<Rightarrow> r))"

text \<open>One entry at a position: the entry and the position after it.\<close>

definition pack_entry :: "git_env \<Rightarrow> byte list \<Rightarrow> nat \<Rightarrow> goerr + (raw_entry \<times> nat)" where
  "pack_entry g data start =
     (case parseObjHeader (drop start data) of
        (typ, _, n) \<Rightarrow>
          if n = 0 then Inl (Plain ''truncated object header'')
          else
            let pos = start + n;
                e = \<lparr>re_offset = word_of_nat start, re_typ = typ, re_inflated = [], re_baseOffset = 0, re_baseOID = no_oid\<rparr>;
                body = (\<lambda>e pos. rbind (ge_inflate g (drop pos data)) (\<lambda>(out, consumed).
                  Inr (e\<lparr>re_inflated := out\<rparr>, pos + consumed)))
            in if typ = pkOfsDelta then
                 (case parseOfsOffset (drop pos data) of
                    (neg, m) \<Rightarrow>
                      if m = 0 then Inl (Plain ''truncated ofs-delta offset'')
                      else body (e\<lparr>re_baseOffset := word_of_nat start - neg\<rparr>) (pos + m))
               else if typ = pkRefDelta then
                 if pos + 20 > length data then Inl (Plain ''truncated ref-delta base'')
                 else body (e\<lparr>re_baseOID := take 20 (drop pos data)\<rparr>) (pos + 20)
               else body e pos)"

fun pack_entries :: "git_env \<Rightarrow> byte list \<Rightarrow> nat \<Rightarrow> nat \<Rightarrow> goerr + raw_entry list" where
  "pack_entries g data 0 pos = Inr []"
| "pack_entries g data (Suc cnt) pos =
     rbind (pack_entry g data pos) (\<lambda>(e, pos).
     rbind (pack_entries g data cnt pos) (\<lambda>es.
     Inr (e # es)))"

definition parsePack :: "git_env \<Rightarrow> byte list \<Rightarrow> goerr + raw_entry list" where
  "parsePack g data =
     (if length data < 12 \<or> string_of (take 4 data) \<noteq> ''PACK'' then Inl (Plain ''bad pack magic'')
      else if BigEndian_Get (take 4 (drop 4 data)) \<noteq> 2 then Inl (Plain ''unsupported pack version'')
      else pack_entries g data (unat (BigEndian_Get (take 4 (drop 8 data)))) 12)"

section \<open>Resolving deltas\<close>

type_synonym packed = "string \<times> byte list"

record pack_state =
  ps_at :: "((nat \<times> i64) \<times> packed) list"     \<comment> \<open>\<^verbatim>\<open>resolvedAt\<close>\<close>
  ps_out :: "(string \<times> packed) list"

definition record_obj :: "git_env \<Rightarrow> nat \<Rightarrow> i64 \<Rightarrow> string \<Rightarrow> byte list \<Rightarrow> pack_state \<Rightarrow> pack_state" where
  "record_obj g pack off kind body s =
     s\<lparr>ps_at := AList.update (pack, off) (kind, body) (ps_at s),
       ps_out := AList.update (OID_Hex (HashObject g kind body)) (kind, body) (ps_out s)\<rparr>"

text \<open>What one pending entry does: it is resolved, or it has to wait.\<close>

definition resolve_delta :: "git_env \<Rightarrow> nat \<times> raw_entry \<Rightarrow> packed option \<Rightarrow> pack_state \<Rightarrow> goerr + (bool \<times> pack_state)" where
  "resolve_delta g p base s =
     (case base of
        None \<Rightarrow> Inr (False, s)
      | Some (kind, b) \<Rightarrow>
          rbind (applyDelta b (re_inflated (snd p))) (\<lambda>body.
          Inr (True, record_obj g (fst p) (re_offset (snd p)) kind body s)))"

definition resolve_entry :: "git_env \<Rightarrow> (oid \<Rightarrow> packed option) \<Rightarrow> nat \<times> raw_entry \<Rightarrow> pack_state \<Rightarrow> goerr + (bool \<times> pack_state)" where
  "resolve_entry g looseLookup p s =
     (let (pack, e) = p in
      if re_typ e \<noteq> pkOfsDelta \<and> re_typ e \<noteq> pkRefDelta then
        (case pkKind (re_typ e) of
           None \<Rightarrow> Inl (Plain ''gitobj: unknown pack object type'')
         | Some kind \<Rightarrow> Inr (True, record_obj g pack (re_offset e) kind (re_inflated e) s))
      else if re_typ e = pkOfsDelta then
        resolve_delta g p (map_of (ps_at s) (pack, re_baseOffset e)) s
      else
        resolve_delta g p
          (case map_of (ps_out s) (OID_Hex (re_baseOID e)) of Some b \<Rightarrow> Some b | None \<Rightarrow> looseLookup (re_baseOID e)) s)"

text \<open>One pass over the pending entries: those still waiting and whether there was progress.\<close>

fun resolve_pass :: "git_env \<Rightarrow> (oid \<Rightarrow> packed option) \<Rightarrow> (nat \<times> raw_entry) list \<Rightarrow> pack_state \<Rightarrow>
    goerr + ((nat \<times> raw_entry) list \<times> bool \<times> pack_state)" where
  "resolve_pass g ll [] s = Inr ([], False, s)"
| "resolve_pass g ll (p # ps) s =
     rbind (resolve_entry g ll p s) (\<lambda>(now, s).
     rbind (resolve_pass g ll ps s) (\<lambda>(still, progress, s).
     Inr (if now then still else p # still, now \<or> progress, s)))"

lemma resolve_pass_length:
  "resolve_pass g ll ps s = Inr (still, progress, s') \<Longrightarrow>
   length still \<le> length ps \<and> (progress \<longrightarrow> length still < length ps) \<and> set still \<subseteq> set ps"
  by (induction ps arbitrary: s still progress) (fastforce simp: result_iffs split: if_splits)+

function resolve_loop :: "git_env \<Rightarrow> (oid \<Rightarrow> packed option) \<Rightarrow> (nat \<times> raw_entry) list \<Rightarrow> pack_state \<Rightarrow> goerr + pack_state" where
  "resolve_loop g ll pending s =
     (case resolve_pass g ll pending s of
        Inl e \<Rightarrow> Inl e
      | Inr (still, progress, s) \<Rightarrow>
          if still = [] then Inr s
          else if \<not> progress then Inl (Plain ''gitobj: pack delta(s) with unresolvable bases'')
          else resolve_loop g ll still s)"
  by pat_completeness auto
termination
  by (relation "measure (\<lambda>(g, ll, pending, s). length pending)") (auto dest!: resolve_pass_length)

declare resolve_loop.simps [simp del]

fun read_packs :: "git_env \<Rightarrow> nat \<Rightarrow> (string \<times> (goerr + byte list)) list \<Rightarrow> goerr + (nat \<times> raw_entry) list" where
  "read_packs g pi [] = Inr []"
| "read_packs g pi ((name, file') # packs) =
     rbind file' (\<lambda>data.
     rbind (parsePack g data) (\<lambda>entries.
     rbind (read_packs g (pi + 1) packs) (\<lambda>pending.
     Inr (map (Pair pi) entries @ pending))))"

definition loadPacks :: "git_env \<Rightarrow> (string \<times> (goerr + byte list)) list \<Rightarrow> (oid \<Rightarrow> packed option) \<Rightarrow> goerr + (string \<times> packed) list" where
  "loadPacks g packs looseLookup =
     (if packs = [] then Inr []
      else
        rbind (read_packs g 0 packs) (\<lambda>pending.
        rbind (resolve_loop g looseLookup pending \<lparr>ps_at = [], ps_out = []\<rparr>) (\<lambda>s.
        Inr (ps_out s))))"

section \<open>The store\<close>

definition looseLookup :: "git_env \<Rightarrow> git_store \<Rightarrow> oid \<Rightarrow> packed option" where
  "looseLookup g s o' = (case readLoose g s o' of Found r \<Rightarrow> Some r | _ \<Rightarrow> None)"

definition ensurePacks :: "git_env \<Rightarrow> git_store \<Rightarrow> (goerr + (string \<times> packed) list) \<times> git_store" where
  "ensurePacks g s =
     (case gs_loaded s of
        Some r \<Rightarrow> (r, s)
      | None \<Rightarrow> (let r = loadPacks g (gs_packs s) (looseLookup g s) in (r, s\<lparr>gs_loaded := Some r\<rparr>)))"

definition git_Read :: "git_env \<Rightarrow> git_store \<Rightarrow> oid \<Rightarrow> packed lookup \<times> git_store" where
  "git_Read g s o' =
     (case readLoose g s o' of
        Found r \<Rightarrow> (Found r, s)
      | Failed e \<Rightarrow> (Failed e, s)
      | Missing \<Rightarrow>
          (case ensurePacks g s of
             (Inl e, s) \<Rightarrow> (Failed e, s)
           | (Inr packed, s) \<Rightarrow> (case map_of packed (OID_Hex o') of Some po \<Rightarrow> (Found po, s) | None \<Rightarrow> (Missing, s))))"


section \<open>Deltas do what they say\<close>

lemma and_128: "((c :: byte) AND 0x80 = 0) \<longleftrightarrow> c < 0x80"
proof -
  have "c AND 0x80 = (if bit c 7 then 0x80 else 0)" by (rule bit_eqI) (auto simp: varint_bits)
  then show ?thesis by (auto simp: high_bit_iff not_less)
qed

lemma and_127: "(c :: byte) < 0x80 \<Longrightarrow> c AND 0x7f = c"
proof (rule bit_eqI)
  fix n assume "c < 0x80"
  then have "\<not> bit c 7" by (simp add: high_bit_iff not_le)
  moreover have "bit c n \<Longrightarrow> n < 8" using bit_imp_le_length [of c n] by simp
  moreover have "n < 8 \<Longrightarrow> n = 7 \<or> n < 7" by arith
  ultimately show "bit (c AND 0x7f) n = bit c n" by (auto simp: varint_bits)
qed

lemma readSize_append: "readSize x s (appendUvarint [] v @ rest) = Some (x OR push_bit s v, rest)"
proof (induction "unat v" arbitrary: x s v rule: less_induct)
  case less
  show ?case
  proof (cases "v < 0x80")
    case True
    show ?thesis
      using low_byte_small [OF True] and_127 [OF low_byte_small(1) [OF True]] by (simp add: appendUvarint_small True and_128 Let_def)
  next
    case False
    then have v: "v \<ge> 0x80" by simp
    have "ucast (ucast v AND 0x7f :: byte) = (ucast (ucast v AND 0x7f :: byte) :: i64)" ..
    with less [OF drop7_less [OF v]] assemble [of x s v] cont_byte_high [of v] cont_byte_low [of v] show ?thesis
      by (simp add: appendUvarint_Cons [OF v] and_128 Let_def)
  qed
qed

datatype dinstr = DCopy nat nat | DInsert "byte list"

fun dmeaning :: "byte list \<Rightarrow> dinstr \<Rightarrow> byte list" where
  "dmeaning base (DCopy off n) = take n (drop off base)"
| "dmeaning base (DInsert b) = b"

fun wf_dinstr :: "byte list \<Rightarrow> dinstr \<Rightarrow> bool" where
  "wf_dinstr base (DCopy off n) = (off < 2 ^ 32 \<and> 0 < n \<and> n < 2 ^ 24 \<and> off + n \<le> length base)"
| "wf_dinstr base (DInsert b) = (0 < length b \<and> length b < 128)"

text \<open>The encoding leaves out zero bytes, and the length 65536 altogether.\<close>

definition nth_byte :: "i64 \<Rightarrow> nat \<Rightarrow> byte" where
  "nth_byte v b = ucast (drop_bit (8 * b) v)"

definition arg_bytes :: "nat list \<Rightarrow> i64 \<Rightarrow> byte list" where
  "arg_bytes bs v = filter (\<lambda>c. c \<noteq> 0) (map (nth_byte v) bs)"

fun arg_flags :: "nat \<Rightarrow> nat list \<Rightarrow> i64 \<Rightarrow> byte" where
  "arg_flags k [] v = 0"
| "arg_flags k (b # bs) v = (if nth_byte v b \<noteq> 0 then push_bit (k + b) 1 else 0) OR arg_flags k bs v"

fun enc_dinstr :: "dinstr \<Rightarrow> byte list" where
  "enc_dinstr (DCopy off n) =
     (let o' = word_of_nat off; n' = (if n = 0x10000 then 0 else word_of_nat n) in
      (0x80 OR arg_flags 0 [0..<4] o' OR arg_flags 4 [0..<3] n') # arg_bytes [0..<4] o' @ arg_bytes [0..<3] n')"
| "enc_dinstr (DInsert b) = word_of_nat (length b) # b"

definition enc_delta :: "byte list \<Rightarrow> dinstr list \<Rightarrow> byte list" where
  "enc_delta base is =
     appendUvarint [] (word_of_nat (length base)) @
     appendUvarint [] (word_of_nat (length (concat (map (dmeaning base) is)))) @ concat (map enc_dinstr is)"

lemma bit_arg_flags: "\<forall>b \<in> set bs. k + b < 8 \<Longrightarrow> bit (arg_flags k bs v) m \<longleftrightarrow> (\<exists>b \<in> set bs. m = k + b \<and> nth_byte v b \<noteq> 0)"
  by (induction bs) (auto simp: bit_simps)

lemma copy_arg_bytes:
  "\<forall>b \<in> set bs. bit op (k + b) \<longleftrightarrow> nth_byte v b \<noteq> 0 \<Longrightarrow>
   copy_arg op k bs acc (arg_bytes bs v @ rest) = Inr (foldl (\<lambda>a b. a OR push_bit (8 * b) (ucast (nth_byte v b))) acc bs, rest)"
  by (induction bs arbitrary: acc) (simp_all add: arg_bytes_def)

lemma bit_byte_up: "bit (push_bit k (ucast (x::byte)) :: i64) m \<longleftrightarrow> k \<le> m \<and> m < 64 \<and> m - k < 8 \<and> bit x (m - k)"
  using bit_imp_le_length [of x "m - k"] by (auto simp: bit_push_bit_iff bit_ucast_iff)

lemma bit_byte_down: "bit (ucast (drop_bit k (v::i64)) :: byte) j \<longleftrightarrow> j < 8 \<and> bit v (k + j)"
  by (simp add: bit_ucast_iff bit_drop_bit_eq)

lemma bit_large: "bit (v :: i64) m \<Longrightarrow> 2 ^ m \<le> unat v"
proof (rule ccontr)
  assume b: "bit v m" "\<not> 2 ^ m \<le> unat v"
  have "bit (unat v) m" using b(1) bit_imp_le_length [of v m] by (simp add: bit_unsigned_iff)
  then have "odd (unat v div 2 ^ m)" by (simp add: bit_iff_odd)
  with b(2) show False by simp
qed

lemma bit_fold_bytes:
  "bit (foldl (\<lambda>a b. a OR push_bit (8 * b) (ucast (nth_byte v b) :: i64)) acc bs) m \<longleftrightarrow>
     bit acc m \<or> (m < 64 \<and> (\<exists>b \<in> set bs. 8 * b \<le> m \<and> m < 8 * b + 8 \<and> bit v m))"
proof (induction bs arbitrary: acc)
  case (Cons b bs)
  have "bit (push_bit (8 * b) (ucast (nth_byte v b) :: i64)) m \<longleftrightarrow> m < 64 \<and> 8 * b \<le> m \<and> m < 8 * b + 8 \<and> bit v m"
  proof -
    have "8 * b \<le> m \<Longrightarrow> (m - 8 * b < 8) = (m < 8 * b + 8) \<and> 8 * b + (m - 8 * b) = m" by arith
    then show ?thesis unfolding bit_byte_up nth_byte_def bit_byte_down by auto
  qed
  with Cons show ?case by (auto simp: bit_or_iff)
qed simp

lemma fold_bytes:
  assumes "unat v < 2 ^ (8 * n)"
  shows "foldl (\<lambda>a b. a OR push_bit (8 * b) (ucast (nth_byte v b) :: i64)) 0 [0..<n] = v"
proof (rule bit_word_eqI)
  fix m assume m: "m < LENGTH(64)"
  have "bit v m \<Longrightarrow> m < 8 * n"
  proof (rule ccontr)
    assume "bit v m" "\<not> m < 8 * n"
    then have "(2::nat) ^ (8 * n) \<le> 2 ^ m" by simp
    moreover have "2 ^ m \<le> unat v"
      using \<open>bit v m\<close> by (rule bit_large)
    ultimately show False using assms by linarith
  qed
  moreover have "m < 8 * n \<Longrightarrow> \<exists>b < n. 8 * b \<le> m \<and> m < 8 * b + 8"
    by (intro exI [of _ "m div 8"]) auto
  ultimately show "bit (foldl (\<lambda>a b. a OR push_bit (8 * b) (ucast (nth_byte v b) :: i64)) 0 [0..<n]) m = bit v m"
    unfolding bit_fold_bytes using m by (auto simp: Bex_def)
qed


lemma bit_op:
  "bit (0x80 OR arg_flags 0 [0..<4] o' OR arg_flags 4 [0..<3] n' :: byte) m \<longleftrightarrow>
     m = 7 \<or> (m < 4 \<and> nth_byte o' m \<noteq> 0) \<or> (4 \<le> m \<and> m < 7 \<and> nth_byte n' (m - 4) \<noteq> 0)"
proof -
  have "bit (0x80 :: byte) m \<longleftrightarrow> m = 7" by (auto simp: varint_bits)
  moreover have "bit (arg_flags 0 [0..<4] o') m \<longleftrightarrow> m < 4 \<and> nth_byte o' m \<noteq> 0"
    by (subst bit_arg_flags) auto
  moreover have "bit (arg_flags 4 [0..<3] n') m \<longleftrightarrow> 4 \<le> m \<and> m < 7 \<and> nth_byte n' (m - 4) \<noteq> 0"
  proof (subst bit_arg_flags)
    show "(\<exists>b \<in> set [0..<3]. m = 4 + b \<and> nth_byte n' b \<noteq> 0) \<longleftrightarrow> 4 \<le> m \<and> m < 7 \<and> nth_byte n' (m - 4) \<noteq> 0"
      by (auto intro!: bexI [of _ "m - 4"])
  qed simp
  ultimately show ?thesis by (simp add: bit_or_iff)
qed

lemma sint_small: "unat (w :: i64) < 2 ^ 63 \<Longrightarrow> sint w = int (unat w)"
proof -
  assume "unat w < 2 ^ 63"
  then have "int (unat w) < int (2 ^ 63)" by (simp only: of_nat_less_iff)
  then have u: "int (unat w) < 2 ^ 63" by simp
  have "sint w = signed_take_bit 63 (int (unat w))" by (simp add: sint_uint)
  also have "\<dots> = int (unat w)" using u order_trans [OF _ uint_ge_0 [of w]] by (subst signed_take_bit_int_eq_self_iff) simp
  finally show ?thesis .
qed

lemma delta_loop_instr:
  assumes "wf_dinstr base i" "length base < 2 ^ 62"
  shows "delta_loop base out (enc_dinstr i @ rest) = delta_loop base (out @ dmeaning base i) rest"
proof (cases i)
  case (DInsert b)
  with assms(1) have l: "unat (word_of_nat (length b) :: byte) = length b" "0 < length b" "length b < 128"
    by (simp_all add: unat_of_nat)
  then have "\<not> bit (word_of_nat (length b) :: byte) 7" by (simp add: high_bit_iff word_le_nat_alt)
  moreover have "(word_of_nat (length b) :: byte) \<noteq> 0" using l by (metis unat_0 less_numeral_extra(3))
  ultimately show ?thesis using l DInsert by simp
next
  case (DCopy off n)
  let ?o = "word_of_nat off :: i64" and ?n = "if n = 0x10000 then 0 else word_of_nat n :: i64"
  have w: "off < 2 ^ 32" "0 < n" "n < 2 ^ 24" "off + n \<le> length base" using assms(1) DCopy by simp_all
  have o: "unat ?o = off" using w(1) by (simp add: unat_of_nat)
  have n: "unat (word_of_nat n :: i64) = n" using w(3) by (simp add: unat_of_nat)
  let ?op = "0x80 OR arg_flags 0 [0..<4] ?o OR arg_flags 4 [0..<3] ?n :: byte"
  have "copy_arg ?op 0 [0..<4] 0 (arg_bytes [0..<4] ?o @ r) =
      Inr (foldl (\<lambda>a b. a OR push_bit (8 * b) (ucast (nth_byte ?o b))) 0 [0..<4], r)" for r
    by (rule copy_arg_bytes) (unfold bit_op, simp)
  moreover have "unat ?o < 2 ^ (8 * 4)" using o w(1) by simp
  ultimately have fo: "copy_arg ?op 0 [0..<4] 0 (arg_bytes [0..<4] ?o @ r) = Inr (?o, r)" for r
    by (simp only: fold_bytes)
  have "copy_arg ?op 4 [0..<3] 0 (arg_bytes [0..<3] ?n @ r) =
      Inr (foldl (\<lambda>a b. a OR push_bit (8 * b) (ucast (nth_byte ?n b))) 0 [0..<3], r)" for r
    by (rule copy_arg_bytes) (unfold bit_op, auto)
  moreover have "unat ?n < 2 ^ (8 * 3)" using n w(3) by simp
  ultimately have fn: "copy_arg ?op 4 [0..<3] 0 (arg_bytes [0..<3] ?n @ r) = Inr (?n, r)" for r
    by (simp only: fold_bytes)
  have z: "(if ?n = 0 then 0x10000 else ?n) = word_of_nat n"
    using n w(2) by (auto simp: word_unat_eq_iff)
  have "unat (?o + word_of_nat n) = off + n" using o n w(1,3) by (simp add: unat_word_ariths(1))
  then have sum: "sint (?o + word_of_nat n) = int (off + n)"
    using w(1,3) by (simp add: sint_small)
  have "bit ?op 7" by (subst bit_op) simp
  then have "delta_loop base out (?op # arg_bytes [0..<4] ?o @ arg_bytes [0..<3] ?n @ rest) =
      delta_loop base (out @ take n (drop off base)) rest"
    unfolding delta_loop.simps fo rbind_simps prod.case fn z Let_def sum using w(4) o n by simp
  then show ?thesis unfolding DCopy enc_dinstr.simps Let_def dmeaning.simps by simp
qed


lemma delta_loop_instrs:
  "list_all (wf_dinstr base) is \<Longrightarrow> length base < 2 ^ 62 \<Longrightarrow>
   delta_loop base out (concat (map enc_dinstr is)) = Inr (out @ concat (map (dmeaning base) is))"
  by (induction "is" arbitrary: out) (simp_all add: delta_loop_instr)

text \<open>What any delta stream gives is made of parts of the base and literals.\<close>

lemma copy_arg_bound:
  "copy_arg op k bs v delta = Inr (v', delta') \<Longrightarrow> \<forall>b \<in> set bs. b < n \<Longrightarrow> n \<le> 4 \<Longrightarrow>
   (\<And>m. bit v m \<Longrightarrow> m < 8 * n) \<Longrightarrow> bit v' m \<Longrightarrow> m < 8 * n"
proof (induction op k bs v delta rule: copy_arg.induct)
  case (2 op k b bs v delta)
  show ?case
  proof (cases "bit op (k + b)")
    case True
    with 2(3) obtain c d where d: "delta = c # d" "copy_arg op k bs (v OR push_bit (8 * b) (ucast c)) d = Inr (v', delta')"
      by (auto split: list.splits)
    have "m < 8 * n" if "bit (v OR push_bit (8 * b) (ucast c)) m" for m
    proof -
      have "b < n" using 2(4) by simp
      with that 2(6) [of m] show ?thesis unfolding bit_or_iff bit_byte_up by auto
    qed
    from 2(1) [OF True d(1) d(2) _ 2(5) this 2(7)] 2(4) show ?thesis by simp
  next
    case False
    with 2(2) [OF False _ _ 2(5,6,7)] 2(3,4) show ?thesis by simp
  qed
qed simp

lemma word_bound:
  assumes "\<And>m. bit v m \<Longrightarrow> m < 8 * n" "n \<le> 4"
  shows "unat (v :: i64) < 2 ^ (8 * n)"
proof -
  have "take_bit (8 * n) v = v" using assms by (intro bit_eqI) (auto simp: bit_take_bit_iff)
  then have "unat v = take_bit (8 * n) (unat v)" by (metis unsigned_take_bit_eq)
  then show ?thesis by (metis take_bit_nat_less_exp)
qed


fun inside :: "byte list \<Rightarrow> dinstr \<Rightarrow> bool" where
  "inside base (DCopy off n) = (off + n \<le> length base)"
| "inside base (DInsert b) = True"

lemma delta_loop_sound:
  "delta_loop base out delta = Inr r \<Longrightarrow> \<exists>is. list_all (inside base) is \<and> r = out @ concat (map (dmeaning base) is)"
proof (induction base out delta arbitrary: r rule: delta_loop.induct)
  case (1 base out)
  then show ?case by (intro exI [of _ "[]"]) simp
next
  case (2 base out op delta)
  show ?case
  proof (cases "bit op 7")
    case True
    from 2(3) True obtain off d1 n d2 where c: "copy_arg op 0 [0..<4] 0 delta = Inr (off, d1)" "copy_arg op 4 [0..<3] 0 d1 = Inr (n, d2)"
      by (auto simp: result_iffs)
    define n' where "n' = (if n = 0 then 0x10000 else n)"
    have r: "\<not> int (length base) < sint (off + n')" "delta_loop base (out @ take (unat n') (drop (unat off) base)) d2 = Inr r"
      using 2(3) True c by (auto simp: n'_def Let_def split: if_splits)
    have o: "unat off < 2 ^ (8 * 4)"
      by (rule word_bound) (use copy_arg_bound [OF c(1), of 4] in auto)
    have n0: "unat n < 2 ^ (8 * 3)"
      by (rule word_bound) (use copy_arg_bound [OF c(2), of 3] in auto)
    then have n: "unat n' < 2 ^ 24" by (simp add: n'_def)
    have u: "unat (off + n') = unat off + unat n'" using o n by (simp add: unat_word_ariths(1))
    with o n have "sint (off + n') = int (unat off + unat n')" by (simp add: sint_small del: of_nat_add)
    from r(1) [unfolded this] have "\<not> int (length base) < int (unat off + unat n')" .
    then have "unat off + unat n' \<le> length base" by (metis of_nat_less_iff not_less)
    then have i: "inside base (DCopy (unat off) (unat n'))" by simp
    from 2(1) [OF True c(1) refl c(2) refl n'_def r] obtain "is" where
      "list_all (inside base) is" "r = (out @ take (unat n') (drop (unat off) base)) @ concat (map (dmeaning base) is)" by blast
    with i show ?thesis by (intro exI [of _ "DCopy (unat off) (unat n') # is"]) simp
  next
    case False
    with 2(3) have op: "op \<noteq> 0" "\<not> length delta < unat op" "delta_loop base (out @ take (unat op) delta) (drop (unat op) delta) = Inr r"
      by (auto split: if_splits)
    from 2(2) [OF False op] obtain "is" where
      "list_all (inside base) is" "r = (out @ take (unat op) delta) @ concat (map (dmeaning base) is)" by blast
    then show ?thesis by (intro exI [of _ "DInsert (take (unat op) delta) # is"]) simp
  qed
qed



text \<open>A delta stream from a damaged or hostile pack can stop the process: an offset or length byte
  that the code of a copy announces is read without a check, and a declared size that is negative
  as an \<^verbatim>\<open>int64\<close> is given to \<^verbatim>\<open>make\<close>.\<close>

theorem delta_panics:
  "applyDelta base (appendUvarint [] (word_of_nat (length base)) @ appendUvarint [] 1 @ [0x81]) = Inl (Panic ''index out of range'') \<and>
   applyDelta base (appendUvarint [] (word_of_nat (length base)) @ appendUvarint [] (2 ^ 63)) = Inl (Panic ''makeslice: cap out of range'')"
proof
  have "copy_arg 0x81 0 [0..<4] 0 [] = Inl (Panic ''index out of range'')" "bit (0x81 :: byte) 7" by code_simp+
  moreover have "sint (1 :: i64) = 1" "\<not> int max_alloc < 1" by (simp_all add: max_alloc_def)
  ultimately show "applyDelta base (appendUvarint [] (word_of_nat (length base)) @ appendUvarint [] 1 @ [0x81]) = Inl (Panic ''index out of range'')"
    by (simp add: applyDelta_def readSize_append)
  have "sint (2 ^ 63 :: i64) < 0" by code_simp
  then show "applyDelta base (appendUvarint [] (word_of_nat (length base)) @ appendUvarint [] (2 ^ 63)) = Inl (Panic ''makeslice: cap out of range'')"
    using readSize_append [of 0 0 "2 ^ 63" "[]"] by (simp add: applyDelta_def readSize_append)
qed


section \<open>What is read has the identity asked for\<close>

definition named_ok :: "git_env \<Rightarrow> (string \<times> packed) list \<Rightarrow> bool" where
  "named_ok g m \<longleftrightarrow> (\<forall>(hex, kind, body) \<in> set m. hex = OID_Hex (HashObject g kind body))"

lemma update_subset_gen: "set (AList.update k v al) \<subseteq> insert (k, v) (set al)"
  by (induction al) auto

lemmas update_subset = update_subset_gen [where 'a = string]

lemma record_named: "named_ok g (ps_out s) \<Longrightarrow> named_ok g (ps_out (record_obj g pack off kind body s))"
  using update_subset [of "OID_Hex (HashObject g kind body)" "(kind, body)" "ps_out s"]
  by (auto simp: named_ok_def record_obj_def)

lemma resolve_entry_named: "resolve_entry g ll p s = Inr (now, s') \<Longrightarrow> named_ok g (ps_out s) \<Longrightarrow> named_ok g (ps_out s')"
  by (auto simp: resolve_entry_def resolve_delta_def result_iffs record_named split: prod.splits if_splits option.splits)

lemma resolve_pass_named: "resolve_pass g ll ps s = Inr (still, progress, s') \<Longrightarrow> named_ok g (ps_out s) \<Longrightarrow> named_ok g (ps_out s')"
proof (induction ps arbitrary: s still progress)
  case (Cons p ps)
  then show ?case by (auto simp: result_iffs dest: resolve_entry_named)
qed simp

lemma resolve_loop_named: "resolve_loop g ll ps s = Inr s' \<Longrightarrow> named_ok g (ps_out s) \<Longrightarrow> named_ok g (ps_out s')"
proof (induction g ll ps s rule: resolve_loop.induct)
  case (1 g ll ps s)
  from 1(2) show ?case
    by (subst (asm) resolve_loop.simps) (use 1 in \<open>auto split: sum.splits prod.splits if_splits dest: resolve_pass_named\<close>)
qed

lemma named_ok_Nil: "named_ok g []"
  by (simp add: named_ok_def)

lemma loadPacks_named: "loadPacks g packs ll = Inr m \<Longrightarrow> named_ok g m"
  by (auto simp: loadPacks_def result_iffs named_ok_Nil split: if_splits dest: resolve_loop_named)

definition loaded_ok :: "git_env \<Rightarrow> git_store \<Rightarrow> bool" where
  "loaded_ok g s \<longleftrightarrow> (\<forall>m. gs_loaded s = Some (Inr m) \<longrightarrow> named_ok g m)"

lemma git_Read_sound:
  assumes "loaded_ok g s" "git_Read g s o' = (r, s')"
  shows "loaded_ok g s' \<and> gs_loose s' = gs_loose s \<and> (gs_loaded s \<noteq> None \<longrightarrow> s' = s) \<and>
    (\<forall>kind body. r = Found (kind, body) \<longrightarrow> HashObject g kind body = o')"
proof (cases "readLoose g s o'")
  case Missing
  obtain l s1 where e: "ensurePacks g s = (l, s1)" by fastforce
  then have s1: "loaded_ok g s1 \<and> gs_loose s1 = gs_loose s \<and> (gs_loaded s \<noteq> None \<longrightarrow> s1 = s) \<and> (\<forall>m. l = Inr m \<longrightarrow> named_ok g m)"
    using assms(1) loadPacks_named [of g "gs_packs s" "looseLookup g s"]
    by (auto simp: ensurePacks_def loaded_ok_def Let_def split: option.splits)
  have "HashObject g kind body = o'" if "named_ok g m" "map_of m (OID_Hex o') = Some (kind, body)" for m kind body
  proof -
    have "OID_Hex o' = OID_Hex (HashObject g kind body)" using that by (auto simp: named_ok_def dest!: map_of_SomeD)
    then show ?thesis using Hex_inj [of o' "HashObject g kind body"] by (simp add: OID_Hex_def Hex_def)
  qed
  with s1 e Missing assms(2) show ?thesis
    by (cases l) (auto simp: git_Read_def split: option.splits)
next
  case (Found x)
  with assms readLoose_sound [of g s o'] show ?thesis by (cases x) (auto simp: git_Read_def)
qed (use assms in \<open>auto simp: git_Read_def\<close>)

text \<open>C24. Whatever the files of a Git directory hold, an object \<^verbatim>\<open>Read\<close> returns hashes to the identity it
  was asked for, loose or packed, plain or rebuilt from deltas; the packs are read at most once.\<close>

theorem git_read_verified:
  assumes "loaded_ok g s" "git_Read g s o' = (r, s')"
  shows "loaded_ok g s' \<and> gs_loose s' = gs_loose s \<and> (gs_loaded s \<noteq> None \<longrightarrow> s' = s) \<and>
    (\<forall>kind body. r = Found (kind, body) \<longrightarrow> HashObject g kind body = o')"
  using git_Read_sound [OF assms] .

text \<open>A Git environment to compute with: nothing is compressed, an object's length comes first.\<close>

definition plain_git :: git_env where
  "plain_git = \<lparr>ge_sha1 = (\<lambda>b. take 20 (rev b @ replicate 20 0)),
     ge_deflate = (\<lambda>b. appendUvarint [] (word_of_nat (length b)) @ b),
     ge_inflate = (\<lambda>b. case readSize 0 0 b of None \<Rightarrow> Inl (Plain ''zlib'')
       | Some (n, r) \<Rightarrow> if unat n \<le> length r then Inr (take (unat n) r, length b - length r + unat n) else Inl (Plain ''zlib''))\<rparr>"

definition demo_pack :: "byte list" where
  "demo_pack = bytes_of ''PACK'' @ [0, 0, 0, 2, 0, 0, 0, 2] @
     [0x33] @ ge_deflate plain_git [1, 2, 3] @
     [0x12] @ ge_deflate plain_git [5, 6]"

definition demo_store :: git_store where
  "demo_store = \<lparr>gs_loose = [], gs_packs = [(''a.pack'', Inr demo_pack)], gs_loaded = None\<rparr>"

theorem git_read_verified_witness:
  "\<exists>s'. git_Read plain_git demo_store (HashObject plain_git ''blob'' [1, 2, 3]) = (Found (''blob'', [1, 2, 3]), s') \<and> loaded_ok plain_git s'"
proof -
  have "loaded_ok plain_git demo_store" by (simp add: loaded_ok_def demo_store_def)
  moreover have "fst (git_Read plain_git demo_store (HashObject plain_git ''blob'' [1, 2, 3])) = Found (''blob'', [1, 2, 3])" by code_simp
  then obtain s' where "git_Read plain_git demo_store (HashObject plain_git ''blob'' [1, 2, 3]) = (Found (''blob'', [1, 2, 3]), s')"
    by (metis prod.collapse)
  ultimately show ?thesis using git_read_verified by blast
qed


section \<open>Every entry is resolved\<close>

text \<open>What an entry stands for: an object, or a delta of what another entry or a loose object stands for.\<close>

inductive resolves :: "git_env \<Rightarrow> (oid \<Rightarrow> packed option) \<Rightarrow> (nat \<times> raw_entry) set \<Rightarrow> nat \<Rightarrow> i64 \<Rightarrow> packed \<Rightarrow> bool"
  for g ll P where
  plain_entry: "(n, e) \<in> P \<Longrightarrow> re_typ e \<noteq> pkOfsDelta \<Longrightarrow> re_typ e \<noteq> pkRefDelta \<Longrightarrow> pkKind (re_typ e) = Some kind \<Longrightarrow>
     resolves g ll P n (re_offset e) (kind, re_inflated e)"
| ofs_entry: "(n, e) \<in> P \<Longrightarrow> re_typ e = pkOfsDelta \<Longrightarrow> resolves g ll P n (re_baseOffset e) b \<Longrightarrow>
     applyDelta (snd b) (re_inflated e) = Inr body \<Longrightarrow> resolves g ll P n (re_offset e) (fst b, body)"
| ref_entry: "(n, e) \<in> P \<Longrightarrow> re_typ e = pkRefDelta \<Longrightarrow> resolves g ll P m off b \<Longrightarrow>
     OID_Hex (re_baseOID e) = OID_Hex (HashObject g (fst b) (snd b)) \<Longrightarrow>
     applyDelta (snd b) (re_inflated e) = Inr body \<Longrightarrow> resolves g ll P n (re_offset e) (fst b, body)"
| loose_entry: "(n, e) \<in> P \<Longrightarrow> re_typ e = pkRefDelta \<Longrightarrow> ll (re_baseOID e) = Some b \<Longrightarrow>
     applyDelta (snd b) (re_inflated e) = Inr body \<Longrightarrow> resolves g ll P n (re_offset e) (fst b, body)"

definition resolved_state :: "git_env \<Rightarrow> (oid \<Rightarrow> packed option) \<Rightarrow> (nat \<times> raw_entry) set \<Rightarrow> pack_state \<Rightarrow> bool" where
  "resolved_state g ll P s \<longleftrightarrow>
     (\<forall>((n, off), obj) \<in> set (ps_at s). resolves g ll P n off obj) \<and>
     (\<forall>(hex, obj) \<in> set (ps_out s). \<exists>n off. resolves g ll P n off obj \<and> hex = OID_Hex (HashObject g (fst obj) (snd obj)))"

definition accounted :: "git_env \<Rightarrow> (oid \<Rightarrow> packed option) \<Rightarrow> (nat \<times> raw_entry) set \<Rightarrow> pack_state \<Rightarrow> nat \<times> raw_entry \<Rightarrow> bool" where
  "accounted g ll P s p \<longleftrightarrow> (\<exists>obj. resolves g ll P (fst p) (re_offset (snd p)) obj \<and>
     OID_Hex (HashObject g (fst obj) (snd obj)) \<in> fst ` set (ps_out s))"

lemma keys_update: "fst ` set (AList.update k v al) = insert k (fst ` set al)"
  by (induction al) auto

lemma record_resolved:
  assumes "resolved_state g ll P s" "resolves g ll P n off (kind, body)"
  shows "resolved_state g ll P (record_obj g n off kind body s)"
    and "OID_Hex (HashObject g kind body) \<in> fst ` set (ps_out (record_obj g n off kind body s))"
    and "fst ` set (ps_out s) \<subseteq> fst ` set (ps_out (record_obj g n off kind body s))"
proof -
  have "set (AList.update (n, off) (kind, body) (ps_at s)) \<subseteq> insert ((n, off), kind, body) (set (ps_at s))"
    by (rule update_subset_gen)
  then have "\<forall>((n, off), obj) \<in> set (ps_at (record_obj g n off kind body s)). resolves g ll P n off obj"
    using assms unfolding resolved_state_def record_obj_def by auto
  moreover have "\<forall>(hex, obj) \<in> set (ps_out (record_obj g n off kind body s)).
      \<exists>n off. resolves g ll P n off obj \<and> hex = OID_Hex (HashObject g (fst obj) (snd obj))"
  proof clarify
    fix hex k b assume "(hex, k, b) \<in> set (ps_out (record_obj g n off kind body s))"
    then have "(hex, k, b) = (OID_Hex (HashObject g kind body), kind, body) \<or> (hex, k, b) \<in> set (ps_out s)"
      using update_subset [of "OID_Hex (HashObject g kind body)" "(kind, body)" "ps_out s"] by (auto simp: record_obj_def)
    then show "\<exists>n off. resolves g ll P n off (k, b) \<and> hex = OID_Hex (HashObject g (fst (k, b)) (snd (k, b)))"
    proof
      assume "(hex, k, b) \<in> set (ps_out s)"
      with assms(1) show ?thesis unfolding resolved_state_def by blast
    qed (use assms(2) in auto)
  qed
  ultimately show "resolved_state g ll P (record_obj g n off kind body s)" unfolding resolved_state_def by blast
qed (auto simp: record_obj_def keys_update)

lemma resolve_entry_step:
  assumes "resolve_entry g ll p s = Inr (now, s')" "resolved_state g ll P s" "p \<in> P"
  shows "resolved_state g ll P s' \<and> fst ` set (ps_out s) \<subseteq> fst ` set (ps_out s') \<and> (now \<longrightarrow> accounted g ll P s' p)"
proof -
  obtain n e where p: "p = (n, e)" by (cases p)
  have rec: "resolved_state g ll P s1 \<and> fst ` set (ps_out s) \<subseteq> fst ` set (ps_out s1) \<and> accounted g ll P s1 p"
    if "s1 = record_obj g n (re_offset e) kind body s" "resolves g ll P n (re_offset e) (kind, body)" for s1 kind body
    using record_resolved [OF assms(2) that(2)] that unfolding accounted_def p by auto
  have delta: ?thesis
    if "resolve_delta g p base s = Inr (now, s')" and
      "\<And>b body. base = Some b \<Longrightarrow> applyDelta (snd b) (re_inflated e) = Inr body \<Longrightarrow> resolves g ll P n (re_offset e) (fst b, body)" for base
  proof (cases base)
    case None
    with that(1) assms(2) show ?thesis by (simp add: resolve_delta_def)
  next
    case (Some b)
    with that(1) obtain body where "applyDelta (snd b) (re_inflated e) = Inr body" "now"
      "s' = record_obj g n (re_offset e) (fst b) body s"
      by (auto simp: resolve_delta_def p result_iffs split: prod.splits)
    with rec that(2) [OF Some] show ?thesis by blast
  qed
  have mem: "(n, e) \<in> P" using assms(3) p by simp
  consider (plain) "re_typ e \<noteq> pkOfsDelta" "re_typ e \<noteq> pkRefDelta" | (ofs) "re_typ e = pkOfsDelta" | (ref) "re_typ e = pkRefDelta" "re_typ e \<noteq> pkOfsDelta"
    by blast
  then show ?thesis
  proof cases
    case plain
    with assms(1) obtain kind where k: "pkKind (re_typ e) = Some kind" "now" "s' = record_obj g n (re_offset e) kind (re_inflated e) s"
      by (auto simp: resolve_entry_def p split: option.splits)
    from plain_entry [OF mem plain k(1)] rec k(3) show ?thesis by blast
  next
    case ofs
    show ?thesis
    proof (rule delta)
      show "resolve_delta g p (map_of (ps_at s) (n, re_baseOffset e)) s = Inr (now, s')"
        using assms(1) ofs by (simp add: resolve_entry_def p)
      fix b body assume b: "map_of (ps_at s) (n, re_baseOffset e) = Some b" "applyDelta (snd b) (re_inflated e) = Inr body"
      have "resolves g ll P n (re_baseOffset e) b"
        using assms(2) map_of_SomeD [OF b(1)] unfolding resolved_state_def by blast
      then show "resolves g ll P n (re_offset e) (fst b, body)" using ofs_entry [OF mem ofs _ b(2)] by blast
    qed
  next
    case ref
    show ?thesis
    proof (rule delta)
      show "resolve_delta g p (case map_of (ps_out s) (OID_Hex (re_baseOID e)) of Some b \<Rightarrow> Some b | None \<Rightarrow> ll (re_baseOID e)) s = Inr (now, s')"
        using assms(1) ref by (simp add: resolve_entry_def p)
      fix b body assume b: "(case map_of (ps_out s) (OID_Hex (re_baseOID e)) of Some b \<Rightarrow> Some b | None \<Rightarrow> ll (re_baseOID e)) = Some b"
        "applyDelta (snd b) (re_inflated e) = Inr body"
      show "resolves g ll P n (re_offset e) (fst b, body)"
      proof (cases "map_of (ps_out s) (OID_Hex (re_baseOID e))")
        case None
        with b(1) have "ll (re_baseOID e) = Some b" by simp
        then show ?thesis using b(2) by (rule loose_entry [OF mem ref(1)])
      next
        case (Some x)
        with b(1) have "(OID_Hex (re_baseOID e), b) \<in> set (ps_out s)" by (auto dest: map_of_SomeD)
        with assms(2) obtain m off where "resolves g ll P m off b" "OID_Hex (re_baseOID e) = OID_Hex (HashObject g (fst b) (snd b))"
          unfolding resolved_state_def by blast
        from ref_entry [OF mem ref(1) this b(2)] show ?thesis .
      qed
    qed
  qed
qed


lemma accounted_mono: "accounted g ll P s p \<Longrightarrow> fst ` set (ps_out s) \<subseteq> fst ` set (ps_out s') \<Longrightarrow> accounted g ll P s' p"
  unfolding accounted_def by blast

lemma resolve_pass_step:
  "resolve_pass g ll ps s = Inr (still, progress, s') \<Longrightarrow> resolved_state g ll P s \<Longrightarrow> set ps \<subseteq> P \<Longrightarrow>
   resolved_state g ll P s' \<and> fst ` set (ps_out s) \<subseteq> fst ` set (ps_out s') \<and> (\<forall>p \<in> set ps. p \<in> set still \<or> accounted g ll P s' p)"
proof (induction ps arbitrary: s still progress)
  case (Cons p ps)
  from Cons.prems(1) obtain now s1 still1 progress1 where
    c: "resolve_entry g ll p s = Inr (now, s1)" "resolve_pass g ll ps s1 = Inr (still1, progress1, s')"
      "still = (if now then still1 else p # still1)"
    by (auto simp: result_iffs)
  have a: "resolved_state g ll P s1 \<and> fst ` set (ps_out s) \<subseteq> fst ` set (ps_out s1) \<and> (now \<longrightarrow> accounted g ll P s1 p)"
    using resolve_entry_step [OF c(1) Cons.prems(2)] Cons.prems(3) by simp
  have b: "resolved_state g ll P s' \<and> fst ` set (ps_out s1) \<subseteq> fst ` set (ps_out s') \<and> (\<forall>p \<in> set ps. p \<in> set still1 \<or> accounted g ll P s' p)"
    using Cons.IH [OF c(2)] a Cons.prems(3) by simp
  have "p \<in> set still \<or> accounted g ll P s' p"
    using a b c(3) accounted_mono [of g ll P s1 p s'] by (cases now) auto
  then show ?case using a b c(3) by (cases now) auto
qed simp

lemma resolve_loop_step:
  "resolve_loop g ll ps s = Inr s' \<Longrightarrow> resolved_state g ll P s \<Longrightarrow> set ps \<subseteq> P \<Longrightarrow>
   resolved_state g ll P s' \<and> fst ` set (ps_out s) \<subseteq> fst ` set (ps_out s') \<and> (\<forall>p \<in> set ps. accounted g ll P s' p)"
proof (induction g ll ps s rule: resolve_loop.induct)
  case (1 g ll ps s)
  from 1(2) obtain still progress s1 where p: "resolve_pass g ll ps s = Inr (still, progress, s1)"
    by (subst (asm) resolve_loop.simps) (auto split: sum.splits)
  note a = resolve_pass_step [OF p 1(3,4)]
  show ?case
  proof (cases "still = []")
    case True
    with 1(2) p have "s' = s1" by (subst (asm) resolve_loop.simps) simp
    with a True show ?thesis by simp
  next
    case False
    with 1(2) p have l: "progress" "resolve_loop g ll still s1 = Inr s'"
      by (subst (asm) resolve_loop.simps, simp split: if_splits)+
    have "set still \<subseteq> P" using resolve_pass_length [OF p] 1(4) by blast
    then have b: "resolved_state g ll P s' \<and> fst ` set (ps_out s1) \<subseteq> fst ` set (ps_out s') \<and> (\<forall>p \<in> set still. accounted g ll P s' p)"
      using 1(1) [OF p refl refl False _ l(2)] l(1) a by simp
    then show ?thesis using a accounted_mono [of g ll P s1 _ s'] by blast
  qed
qed

text \<open>C25. When packs load, every entry of every pack is resolved to what it stands for, through any chain
  of deltas over entries of any pack and loose objects, and is found under its identity; and nothing
  else is in the result. (The loop over the pending deltas ends: each pass resolves one or stops.)\<close>

theorem packs_resolved:
  assumes "loadPacks g packs ll = Inr m" "read_packs g 0 packs = Inr pending"
  shows "(\<forall>p \<in> set pending. \<exists>obj. resolves g ll (set pending) (fst p) (re_offset (snd p)) obj \<and>
      OID_Hex (HashObject g (fst obj) (snd obj)) \<in> fst ` set m) \<and>
    (\<forall>(hex, obj) \<in> set m. \<exists>n off. resolves g ll (set pending) n off obj \<and> hex = OID_Hex (HashObject g (fst obj) (snd obj)))"
proof (cases "packs = []")
  case True
  with assms show ?thesis by (simp add: loadPacks_def)
next
  case False
  with assms obtain s where l: "resolve_loop g ll pending \<lparr>ps_at = [], ps_out = []\<rparr> = Inr s" "m = ps_out s"
    by (auto simp: loadPacks_def result_iffs)
  have "resolved_state g ll (set pending) \<lparr>ps_at = [], ps_out = []\<rparr>" by (simp add: resolved_state_def)
  note r = resolve_loop_step [OF l(1) this subset_refl]
  have "\<forall>x \<in> set pending. accounted g ll (set pending) s x" using r by blast
  then have "\<forall>p \<in> set pending. \<exists>obj. resolves g ll (set pending) (fst p) (re_offset (snd p)) obj \<and>
      OID_Hex (HashObject g (fst obj) (snd obj)) \<in> fst ` set m"
    unfolding accounted_def l(2) .
  moreover have "resolved_state g ll (set pending) s" using r by blast
  ultimately show ?thesis unfolding resolved_state_def l(2) by blast
qed

theorem packs_resolved_witness:
  "\<exists>m pending. loadPacks plain_git [(''a.pack'', Inr demo_pack)] (\<lambda>_. None) = Inr m \<and>
     read_packs plain_git 0 [(''a.pack'', Inr demo_pack)] = Inr pending \<and> length pending = 2 \<and>
     (\<forall>p \<in> set pending. \<exists>obj. OID_Hex (HashObject plain_git (fst obj) (snd obj)) \<in> fst ` set m)"
proof -
  have "case loadPacks plain_git [(''a.pack'', Inr demo_pack)] (\<lambda>_. None) of Inl _ \<Rightarrow> False | Inr _ \<Rightarrow> True"
    "case read_packs plain_git 0 [(''a.pack'', Inr demo_pack)] of Inl _ \<Rightarrow> False | Inr pending \<Rightarrow> length pending = 2" by code_simp+
  then obtain m pending where "loadPacks plain_git [(''a.pack'', Inr demo_pack)] (\<lambda>_. None) = Inr m"
    "read_packs plain_git 0 [(''a.pack'', Inr demo_pack)] = Inr pending" "length pending = 2"
    by (auto split: sum.splits)
  moreover from this have "\<forall>p \<in> set pending. \<exists>obj. OID_Hex (HashObject plain_git (fst obj) (snd obj)) \<in> fst ` set m"
    using packs_resolved [of plain_git "[(''a.pack'', Inr demo_pack)]" "\<lambda>_. None" m pending]
    by blast
  ultimately show ?thesis by (intro exI [of _ m] exI [of _ pending] conjI)
qed

end
