(* ===== verification/Gitport.thy ===== *)
theory Gitport
  imports GitPack TreeFiles Refs
begin

text \<open>
  \<^verbatim>\<open>internal/gitport/gitport.go\<close>: a repository exported to a Git directory and imported from one. The
  recursion over objects is bounded by the stack, whose depth is the parameter \<^verbatim>\<open>stk\<close>. Of a Git
  directory the object store is as in \<^verbatim>\<open>GitObj\<close>, the other files are a file tree.
\<close>

definition GitCommitBody :: u64 where "GitCommitBody = 0xF0000001"

text \<open>Sequencing of steps that carry a state and may fail, and a loop of such steps.\<close>

definition sbind :: "('e + 'a) \<times> 's \<Rightarrow> ('a \<Rightarrow> 's \<Rightarrow> ('e + 'b) \<times> 's) \<Rightarrow> ('e + 'b) \<times> 's" where
  "sbind r k = (case r of (Inl e, s) \<Rightarrow> (Inl e, s) | (Inr x, s) \<Rightarrow> k x s)"

lemma sbind_simps [simp]: "sbind (Inl e, s) k = (Inl e, s)" "sbind (Inr x, s) k = k x s"
  by (simp_all add: sbind_def)

fun each :: "('a \<Rightarrow> 's \<Rightarrow> ('e + 'b) \<times> 's) \<Rightarrow> 'a list \<Rightarrow> 's \<Rightarrow> ('e + 'b list) \<times> 's" where
  "each f [] s = (Inr [], s)"
| "each f (x # xs) s = sbind (f x s) (\<lambda>y s. sbind (each f xs s) (\<lambda>ys s. (Inr (y # ys), s)))"

section \<open>Modes, identities, trailers\<close>

definition gitMode :: "entry \<Rightarrow> string" where
  "gitMode e =
     (if ekind e = TypeTree then GitModeTree
      else if emode e = 33261 then GitModeExec
      else if emode e = 40960 then GitModeSymlink
      else GitModeFile)"

fun octal_loop :: "u32 \<Rightarrow> string \<Rightarrow> u32" where
  "octal_loop v [] = v"
| "octal_loop v (c # s) =
     (if c < CHR ''0'' \<or> c > CHR ''7'' then v
      else octal_loop (v * 8 + word_of_nat (of_char c - of_char (CHR ''0''))) s)"

definition parseOctal :: "string \<Rightarrow> u32" where
  "parseOctal mode = octal_loop 0 mode"

definition normalizeIdent :: "string \<Rightarrow> string" where
  "normalizeIdent author =
     (let author = (if author = [] then ''varvig'' else author) in
      if CHR ''<'' \<in> set author \<and> has_suffix (trim_space author) ''>'' then author else author @ '' <>'')"

definition trim_newlines :: "string \<Rightarrow> string" where
  "trim_newlines s = rev (dropWhile (\<lambda>c. c = newline) (rev s))"

definition fulfillsTrailerKey :: string where
  "fulfillsTrailerKey = ''Varvig-Fulfills''"

definition withFulfillsTrailer :: "string \<Rightarrow> multihash option \<Rightarrow> string" where
  "withFulfillsTrailer msg f =
     (case f of
        None \<Rightarrow> msg
      | Some f \<Rightarrow> trim_newlines msg @ [newline, newline] @ fulfillsTrailerKey @ '': '' @ Hex f)"

definition splitFulfillsTrailer :: "string \<Rightarrow> string \<times> multihash option" where
  "splitFulfillsTrailer msg =
     (case dropWhile (\<lambda>l. trim_space l = []) (rev (split_on newline msg)) of
        [] \<Rightarrow> (msg, None)
      | l # before \<Rightarrow>
          let prefix = fulfillsTrailerKey @ '': ''; line = trim_space l in
          if \<not> has_prefix line prefix then (msg, None)
          else (case ParseHex (trim_space (drop (length prefix) line)) of
                  Inl _ \<Rightarrow> (msg, None)
                | Inr h \<Rightarrow> (trim_newlines (join_with [newline] (rev before)), Some h)))"

section \<open>Export\<close>

record export_state =
  ex_git :: git_store
  ex_seen :: "(string \<times> oid) list"

type_synonym exporter = "multihash \<Rightarrow> export_state \<Rightarrow> (goerr + oid) \<times> export_state"

definition ex_write :: "git_env \<Rightarrow> string \<Rightarrow> byte list \<Rightarrow> export_state \<Rightarrow> (goerr + oid) \<times> export_state" where
  "ex_write g kind body st = (case git_Write g (ex_git st) kind body of (oid, gs) \<Rightarrow> (Inr oid, st\<lparr>ex_git := gs\<rparr>))"

definition ex_entry :: "exporter \<Rightarrow> entry \<Rightarrow> export_state \<Rightarrow> (goerr + git_entry) \<times> export_state" where
  "ex_entry rec en st =
     sbind (rec (eid en) st) (\<lambda>childGit st. (Inr \<lparr>gt_Mode = gitMode en, gt_Name = ename en, gt_OID = childGit\<rparr>, st))"

definition ex_tree :: "exporter \<Rightarrow> git_env \<Rightarrow> obj \<Rightarrow> export_state \<Rightarrow> (goerr + oid) \<times> export_state" where
  "ex_tree rec g o' st =
     sbind (TreeEntries o', st) (\<lambda>entries st.
     sbind (each (ex_entry rec) entries st) (\<lambda>ges st.
     ex_write g KindTree (EncodeTree ges) st))"

definition ex_change :: "exporter \<Rightarrow> git_env \<Rightarrow> obj \<Rightarrow> export_state \<Rightarrow> (goerr + oid) \<times> export_state" where
  "ex_change rec g o' st =
     sbind (AsChange o', st) (\<lambda>ch st.
     sbind (rec (bytes_or_nil (c_tree ch)) st) (\<lambda>treeGit st.
     sbind (each rec (c_parents ch) st) (\<lambda>_ st.
     case Field o' GitCommitBody of
       Some body \<Rightarrow>
         sbind (DecodeCommit body, st) (\<lambda>parsed st.
         if gc_Tree parsed \<noteq> treeGit then (Inl (Plain ''gitport: reconstructed tree != recorded (lossy)''), st)
         else ex_write g KindCommit body st)
     | None \<Rightarrow>
         sbind (each rec (c_parents ch) st) (\<lambda>parents st.
         ex_write g KindCommit
           (EncodeCommit treeGit parents (normalizeIdent (c_author ch)) (sint (c_timestamp ch))
             (withFulfillsTrailer (c_message ch) (c_fulfills ch))) st))))"

primrec ex_object :: "nat \<Rightarrow> hash_funs \<Rightarrow> git_env \<Rightarrow> objstore \<Rightarrow> exporter" where
  "ex_object 0 h g s id' st = (Inl (Panic ''stack overflow''), st)"
| "ex_object (Suc stk) h g s id' st =
     (case map_of (ex_seen st) (Hex id') of
        Some oid \<Rightarrow> (Inr oid, st)
      | None \<Rightarrow>
          sbind (Get h s id', st) (\<lambda>o' st.
          sbind (if otyp o' = TypeBlob then ex_write g KindBlob (bytes_or_nil (BlobContent o')) st
                 else if otyp o' = TypeTree then ex_tree (ex_object stk h g s) g o' st
                 else if otyp o' = TypeChange then ex_change (ex_object stk h g s) g o' st
                 else (Inl (Plain ''gitport: cannot export object type''), st)) (\<lambda>oid st.
          (Inr oid, st\<lparr>ex_seen := AList.update (Hex id') oid (ex_seen st)\<rparr>))))"

section \<open>Import\<close>

record import_state =
  im_objs :: objstore
  im_git :: git_store
  im_seen :: "(string \<times> multihash) list"

type_synonym importer = "oid \<Rightarrow> import_state \<Rightarrow> (goerr + multihash) \<times> import_state"

definition im_put :: "hash_funs \<Rightarrow> goerr + obj \<Rightarrow> import_state \<Rightarrow> (goerr + multihash) \<times> import_state" where
  "im_put h obj st =
     sbind (obj, st) (\<lambda>obj st. case Put h (im_objs st) obj of (r, s) \<Rightarrow> (r, st\<lparr>im_objs := s\<rparr>))"

definition im_entry_of :: "git_entry \<Rightarrow> multihash \<Rightarrow> entry" where
  "im_entry_of ge childID =
     \<lparr>ename = gt_Name ge, emode = parseOctal (gt_Mode ge),
      ekind = (if gt_Mode ge = GitModeTree then TypeTree else TypeBlob), eid = childID\<rparr>"

definition im_tree :: "importer \<Rightarrow> hash_funs \<Rightarrow> byte list \<Rightarrow> import_state \<Rightarrow> (goerr + multihash) \<times> import_state" where
  "im_tree rec h body st =
     sbind (DecodeTree body, st) (\<lambda>ges st.
     sbind (each (\<lambda>ge st. sbind (rec (gt_OID ge) st) (\<lambda>childID st. (Inr (im_entry_of ge childID), st))) ges st) (\<lambda>entries st.
     im_put h (NewTree entries) st))"

definition im_change_of :: "git_commit \<Rightarrow> multihash \<Rightarrow> multihash list \<Rightarrow> change" where
  "im_change_of c treeID parents =
     (case splitFulfillsTrailer (gc_Message c) of
        (msg, fulfills) \<Rightarrow>
          \<lparr>c_tree = Some treeID, c_parents = parents, c_message = msg, c_timestamp = word_of_int (gc_AuthorTS c),
           c_author = gc_Author c, c_provenance = None, c_artifacts = [], c_fulfills = fulfills\<rparr>)"

definition im_commit :: "importer \<Rightarrow> hash_funs \<Rightarrow> byte list \<Rightarrow> import_state \<Rightarrow> (goerr + multihash) \<times> import_state" where
  "im_commit rec h body st =
     sbind (DecodeCommit body, st) (\<lambda>c st.
     sbind (rec (gc_Tree c) st) (\<lambda>treeID st.
     sbind (each rec (gc_Parents c) st) (\<lambda>parents st.
     im_put h (rbind (NewChange (im_change_of c treeID parents)) (\<lambda>obj. Inr (SetField obj GitCommitBody (gc_RawBody c)))) st)))"

definition im_read :: "git_env \<Rightarrow> oid \<Rightarrow> import_state \<Rightarrow> (goerr + packed) \<times> import_state" where
  "im_read g oid st =
     (case git_Read g (im_git st) oid of
        (Found r, gs) \<Rightarrow> (Inr r, st\<lparr>im_git := gs\<rparr>)
      | (Failed e, gs) \<Rightarrow> (Inl e, st\<lparr>im_git := gs\<rparr>)
      | (Missing, gs) \<Rightarrow> (Inl (Plain ''file does not exist''), st\<lparr>im_git := gs\<rparr>))"

primrec im_object :: "nat \<Rightarrow> hash_funs \<Rightarrow> git_env \<Rightarrow> importer" where
  "im_object 0 h g oid st = (Inl (Panic ''stack overflow''), st)"
| "im_object (Suc stk) h g oid st =
     (case map_of (im_seen st) (OID_Hex oid) of
        Some id' \<Rightarrow> (Inr id', st)
      | None \<Rightarrow>
          sbind (im_read g oid st) (\<lambda>(kind, body) st.
          sbind (if kind = KindBlob then im_put h (NewBlob body) st
                 else if kind = KindTree then im_tree (im_object stk h g) h body st
                 else if kind = KindCommit then im_commit (im_object stk h g) h body st
                 else (Inl (Plain ''gitport: unknown git object kind''), st)) (\<lambda>id' st.
          (Inr id', st\<lparr>im_seen := AList.update (OID_Hex oid) id' (im_seen st)\<rparr>))))"

section \<open>The Git directory\<close>

record gitdir =
  gd_store :: git_store
  gd_files :: ftree

definition os_err :: "string \<Rightarrow> oserr + 'a \<Rightarrow> goerr + 'a" where
  "os_err what r = map_err (\<lambda>_. Plain what) r"

definition head_file :: "string \<Rightarrow> string" where
  "head_file branch = ''ref: refs/heads/'' @ branch @ [newline]"

definition fs_mkdir :: "ftree \<Rightarrow> string \<Rightarrow> oserr + ftree" where
  "fs_mkdir t p =
     (if list_ex (is_file t) (path_parents p @ [p]) then Inl ENOTDIR
      else Inr (t\<lparr>ft_dirs := ft_dirs t \<union> set (path_parents p @ [p])\<rparr>))"

definition initGitDir :: "gitdir \<Rightarrow> goerr + gitdir" where
  "initGitDir d =
     rbind (os_err ''mkdir objects'' (fs_mkdir (gd_files d) ''objects'')) (\<lambda>t.
     rbind (os_err ''mkdir refs/heads'' (fs_mkdir t ''refs/heads'')) (\<lambda>t.
     rbind (os_err ''write config'' (fs_write t ''config''
       (''[core]'' @ [newline] @ [CHR 0x09] @ ''repositoryformatversion = 0'' @ [newline] @ [CHR 0x09] @ ''filemode = true'' @
        [newline] @ [CHR 0x09] @ ''bare = false'' @ [newline]))) (\<lambda>t.
     rbind (os_err ''write HEAD'' (fs_write t ''HEAD'' (head_file ''main''))) (\<lambda>t.
     Inr (d\<lparr>gd_files := t\<rparr>)))))"

definition writeGitRef :: "gitdir \<Rightarrow> string \<Rightarrow> oid \<Rightarrow> goerr + gitdir" where
  "writeGitRef d branch oid =
     rbind (os_err ''write ref'' (fs_write (gd_files d) (''refs/heads/'' @ branch) (OID_Hex oid @ [newline]))) (\<lambda>t.
     rbind (os_err ''write HEAD'' (fs_write t ''HEAD'' (head_file branch))) (\<lambda>t.
     Inr (d\<lparr>gd_files := t\<rparr>)))"

fun packed_lines :: "string \<Rightarrow> string list \<Rightarrow> goerr + oid option" where
  "packed_lines fullName [] = Inr None"
| "packed_lines fullName (line # ls) =
     (let line = trim_space line in
      if line = [] \<or> has_prefix line ''#'' \<or> has_prefix line ''^'' then packed_lines fullName ls
      else (case cut CHR '' '' line of
              None \<Rightarrow> packed_lines fullName ls
            | Some (sha, name) \<Rightarrow>
                if name \<noteq> fullName then packed_lines fullName ls
                else rbind (ParseOID sha) (\<lambda>oid. Inr (Some oid))))"

definition readPackedRef :: "gitdir \<Rightarrow> string \<Rightarrow> goerr + oid option" where
  "readPackedRef d fullName =
     (case fs_read (gd_files d) ''packed-refs'' of
        Inl ENOENT \<Rightarrow> Inr None
      | Inl _ \<Rightarrow> Inl (Plain ''read packed-refs'')
      | Inr b \<Rightarrow> packed_lines fullName (split_on newline b))"

definition readGitRef :: "gitdir \<Rightarrow> string \<Rightarrow> goerr + oid" where
  "readGitRef d branch =
     (case fs_read (gd_files d) (''refs/heads/'' @ branch) of
        Inr b \<Rightarrow> ParseOID (trim_space b)
      | Inl ENOENT \<Rightarrow>
          rbind (readPackedRef d (''refs/heads/'' @ branch)) (\<lambda>r.
          case r of Some oid \<Rightarrow> Inr oid | None \<Rightarrow> Inl (Plain (''gitport: no ref refs/heads/'' @ branch)))
      | Inl _ \<Rightarrow> Inl (Plain ''read ref''))"

definition git_Export :: "nat \<Rightarrow> hash_funs \<Rightarrow> git_env \<Rightarrow> objstore \<Rightarrow> gitdir \<Rightarrow> string \<Rightarrow> multihash \<Rightarrow> (goerr + oid) \<times> gitdir" where
  "git_Export stk h g s d branch varvigHead =
     (case initGitDir d of
        Inl e \<Rightarrow> (Inl e, d)
      | Inr d \<Rightarrow>
          (case ex_object stk h g s varvigHead \<lparr>ex_git = gd_store d, ex_seen = []\<rparr> of
             (Inl e, st) \<Rightarrow> (Inl e, d\<lparr>gd_store := ex_git st\<rparr>)
           | (Inr commit, st) \<Rightarrow>
               (let d = d\<lparr>gd_store := ex_git st\<rparr> in
                case writeGitRef d branch commit of
                  Inl e \<Rightarrow> (Inl e, d)
                | Inr d \<Rightarrow> (Inr commit, d))))"

definition git_Import :: "nat \<Rightarrow> hash_funs \<Rightarrow> git_env \<Rightarrow> i64 \<Rightarrow> objstore \<Rightarrow> refstate \<Rightarrow> gitdir \<Rightarrow> string \<Rightarrow>
    (goerr + multihash) \<times> objstore \<times> refstate" where
  "git_Import stk h g now s refs d branch =
     (case readGitRef d branch of
        Inl e \<Rightarrow> (Inl e, s, refs)
      | Inr head \<Rightarrow>
          (case im_object stk h g head \<lparr>im_objs = s, im_git = gd_store d, im_seen = []\<rparr> of
             (Inl e, st) \<Rightarrow> (Inl e, im_objs st, refs)
           | (Inr varvigID, st) \<Rightarrow>
               (let name = ''refs/heads/'' @ branch;
                    cur = (case Resolve refs name of Inl _ \<Rightarrow> None | Inr v \<Rightarrow> Some v) in
                case CompareAndSwap refs now name cur (Some varvigID) ''git-import'' ''import from git'' of
                  (Inl e, refs) \<Rightarrow> (Inl e, im_objs st, refs)
                | (Inr _, refs) \<Rightarrow> (Inr varvigID, im_objs st, refs))))"


section \<open>What an exported object is\<close>

text \<open>The stored object \<^verbatim>\<open>id\<close> is the Git object \<^verbatim>\<open>oid\<close>, looking at most \<^verbatim>\<open>n\<close> objects deep.\<close>

primrec mirrors :: "nat \<Rightarrow> hash_funs \<Rightarrow> git_env \<Rightarrow> objstore \<Rightarrow> oid \<Rightarrow> multihash \<Rightarrow> bool" where
  "mirrors 0 h g s oid id' = False"
| "mirrors (Suc n) h g s oid id' =
     (\<exists>obj. Get h s id' = Inr obj \<and>
       (otyp obj = TypeBlob \<and> HashObject g KindBlob (bytes_or_nil (BlobContent obj)) = oid \<or>
        otyp obj = TypeTree \<and>
          (\<exists>es ges. TreeEntries obj = Inr es \<and>
             list_all2 (\<lambda>e ge. gt_Mode ge = gitMode e \<and> gt_Name ge = ename e \<and> mirrors n h g s (gt_OID ge) (eid e)) es ges \<and>
             HashObject g KindTree (EncodeTree ges) = oid) \<or>
        otyp obj = TypeChange \<and>
          (\<exists>ch body cm t. AsChange obj = Inr ch \<and> c_tree ch = Some t \<and> Field obj GitCommitBody = Some body \<and>
             DecodeCommit body = Inr cm \<and> mirrors n h g s (gc_Tree cm) t \<and>
             (\<forall>p \<in> set (c_parents ch). \<exists>po. mirrors n h g s po p) \<and> HashObject g KindCommit body = oid)))"

lemma types_differ: "TypeBlob \<noteq> TypeTree" "TypeBlob \<noteq> TypeChange" "TypeTree \<noteq> TypeChange"
  "TypeTree \<noteq> TypeBlob" "TypeChange \<noteq> TypeBlob" "TypeChange \<noteq> TypeTree"
  by (simp_all add: TypeBlob_def TypeTree_def TypeChange_def)

lemma list_all2_unique:
  "list_all2 P xs ys \<Longrightarrow> list_all2 Q xs zs \<Longrightarrow> (\<And>x y z. P x y \<Longrightarrow> Q x z \<Longrightarrow> y = z) \<Longrightarrow> ys = zs"
  by (induction arbitrary: zs rule: list_all2_induct) (auto simp: list_all2_Cons1)

lemma mirrors_unique: "mirrors n h g s o1 i \<Longrightarrow> mirrors m h g s o2 i \<Longrightarrow> o1 = o2"
proof (induction n arbitrary: m o1 o2 i)
  case (Suc n)
  obtain m' where m: "m = Suc m'" using Suc.prems(2) by (cases m) auto
  from Suc.prems(1) obtain obj where obj: "Get h s i = Inr obj" by auto
  consider (blob) "otyp obj = TypeBlob" | (tree) "otyp obj = TypeTree" | (change) "otyp obj = TypeChange"
    using Suc.prems(1) obj by auto
  then show ?case
  proof cases
    case blob
    with Suc.prems m obj show ?thesis by (auto simp: types_differ)
  next
    case tree
    from Suc.prems(1) tree obj obtain es gs1 where a: "TreeEntries obj = Inr es"
      "list_all2 (\<lambda>e ge. gt_Mode ge = gitMode e \<and> gt_Name ge = ename e \<and> mirrors n h g s (gt_OID ge) (eid e)) es gs1"
      "HashObject g KindTree (EncodeTree gs1) = o1" by (auto simp: types_differ)
    from Suc.prems(2) tree obj m a(1) obtain gs2 where b:
      "list_all2 (\<lambda>e ge. gt_Mode ge = gitMode e \<and> gt_Name ge = ename e \<and> mirrors m' h g s (gt_OID ge) (eid e)) es gs2"
      "HashObject g KindTree (EncodeTree gs2) = o2" by (auto simp: types_differ)
    have "gs1 = gs2"
      by (rule list_all2_unique [OF a(2) b(1)]) (use Suc.IH in \<open>auto intro!: git_entry.equality\<close>)
    with a(3) b(2) show ?thesis by simp
  next
    case change
    with Suc.prems m obj show ?thesis by (auto simp: types_differ)
  qed
qed simp

definition ex_seen_ok :: "hash_funs \<Rightarrow> git_env \<Rightarrow> objstore \<Rightarrow> export_state \<Rightarrow> bool" where
  "ex_seen_ok h g s st \<longleftrightarrow> (\<forall>(hex, oid) \<in> set (ex_seen st). \<exists>id' n. hex = Hex id' \<and> mirrors n h g s oid id')"

lemma each_ok:
  assumes "list_all2 R xs ys" "I st"
    and "\<And>x y st. R x y \<Longrightarrow> I st \<Longrightarrow> \<exists>st'. f x st = (Inr y, st') \<and> I st'"
  shows "\<exists>st'. each f xs st = (Inr ys, st') \<and> I st'"
  using assms(1,2)
proof (induction arbitrary: st rule: list_all2_induct)
  case (Cons x xs y ys)
  obtain st1 where 1: "f x st = (Inr y, st1)" "I st1" using assms(3) [OF Cons.hyps(1) Cons.prems] by blast
  obtain st2 where "each f xs st1 = (Inr ys, st2)" "I st2" using Cons.IH [OF 1(2)] by blast
  with 1 show ?case by simp
qed simp

lemma ex_write_ok: "ex_seen_ok h g s st \<Longrightarrow> HashObject g kind body = oid \<Longrightarrow>
    \<exists>st'. ex_write g kind body st = (Inr oid, st') \<and> ex_seen_ok h g s st'"
  by (auto simp: ex_write_def git_Write_def Let_def ex_seen_ok_def)

lemma export_mirror:
  "mirrors n h g s oid i \<Longrightarrow> n \<le> stk \<Longrightarrow> ex_seen_ok h g s st \<Longrightarrow>
   \<exists>st'. ex_object stk h g s i st = (Inr oid, st') \<and> ex_seen_ok h g s st'"
proof (induction n arbitrary: stk oid i st)
  case (Suc n)
  obtain stk' where stk: "stk = Suc stk'" "n \<le> stk'" using Suc.prems(2) by (cases stk) auto
  show ?case
  proof (cases "map_of (ex_seen st) (Hex i)")
    case (Some o2)
    then obtain i2 m where "Hex i = Hex i2" "mirrors m h g s o2 i2"
      using Suc.prems(3) by (auto simp: ex_seen_ok_def dest!: map_of_SomeD)
    with mirrors_unique [OF Suc.prems(1)] have "o2 = oid" by simp
    with Some stk Suc.prems(3) show ?thesis by simp
  next
    case None
    let ?rec = "ex_object stk' h g s"
    let ?body = "\<lambda>o' st. if otyp o' = TypeBlob then ex_write g KindBlob (bytes_or_nil (BlobContent o')) st
                 else if otyp o' = TypeTree then ex_tree ?rec g o' st
                 else if otyp o' = TypeChange then ex_change ?rec g o' st
                 else (Inl (Plain ''gitport: cannot export object type''), st)"
    from Suc.prems(1) obtain obj where obj: "Get h s i = Inr obj" by auto
    consider (blob) "otyp obj = TypeBlob" | (tree) "otyp obj = TypeTree" | (change) "otyp obj = TypeChange"
      using Suc.prems(1) obj by auto
    then have "\<exists>st'. ?body obj st = (Inr oid, st') \<and> ex_seen_ok h g s st'"
    proof cases
      case blob
      with Suc.prems(1) obj have "HashObject g KindBlob (bytes_or_nil (BlobContent obj)) = oid" by (auto simp: types_differ)
      from ex_write_ok [OF Suc.prems(3) this] blob show ?thesis by simp
    next
      case tree
      from Suc.prems(1) tree obj obtain es ges where a: "TreeEntries obj = Inr es"
        "list_all2 (\<lambda>e ge. gt_Mode ge = gitMode e \<and> gt_Name ge = ename e \<and> mirrors n h g s (gt_OID ge) (eid e)) es ges"
        "HashObject g KindTree (EncodeTree ges) = oid" by (auto simp: types_differ)
      have "\<exists>st1. ex_entry ?rec e st = (Inr ge, st1) \<and> ex_seen_ok h g s st1"
        if r: "gt_Mode ge = gitMode e \<and> gt_Name ge = ename e \<and> mirrors n h g s (gt_OID ge) (eid e)" and k: "ex_seen_ok h g s st" for e ge st
      proof -
        obtain st1 where "?rec (eid e) st = (Inr (gt_OID ge), st1)" "ex_seen_ok h g s st1"
          using Suc.IH [OF _ stk(2) k] r by blast
        with r show ?thesis by (cases ge) (simp add: ex_entry_def)
      qed
      from each_ok [where I = "ex_seen_ok h g s" and f = "ex_entry ?rec", OF a(2) Suc.prems(3) this] obtain st1 where
        "each (ex_entry ?rec) es st = (Inr ges, st1)" "ex_seen_ok h g s st1" by blast
      with ex_write_ok [OF this(2) a(3)] a(1) tree show ?thesis by (simp add: ex_tree_def types_differ)
    next
      case change
      from Suc.prems(1) change obj obtain ch body cm t where a: "AsChange obj = Inr ch" "c_tree ch = Some t"
        "Field obj GitCommitBody = Some body" "DecodeCommit body = Inr cm" "mirrors n h g s (gc_Tree cm) t"
        "\<forall>p \<in> set (c_parents ch). \<exists>po. mirrors n h g s po p" "HashObject g KindCommit body = oid"
        by (auto simp: types_differ)
      obtain st1 where 1: "?rec t st = (Inr (gc_Tree cm), st1)" "ex_seen_ok h g s st1"
        using Suc.IH [OF a(5) stk(2) Suc.prems(3)] by blast
      have "\<exists>pos. list_all2 (\<lambda>p po. mirrors n h g s po p) ps pos" if "\<forall>p \<in> set ps. \<exists>po. mirrors n h g s po p" for ps
        using that by (induction ps) (auto simp: list_all2_Cons1)
      with a(6) obtain pos where pos: "list_all2 (\<lambda>p po. mirrors n h g s po p) (c_parents ch) pos" by blast
      obtain st2 where 2: "each ?rec (c_parents ch) st1 = (Inr pos, st2)" "ex_seen_ok h g s st2"
        using each_ok [where I = "ex_seen_ok h g s" and f = ?rec, OF pos 1(2)] Suc.IH [OF _ stk(2)] by blast
      from ex_write_ok [OF 2(2) a(7)] 1 2 a(1-4) change show ?thesis by (simp add: ex_change_def types_differ)
    qed
    then obtain st1 where b: "?body obj st = (Inr oid, st1)" "ex_seen_ok h g s st1" by blast
    have "ex_object stk h g s i st = (Inr oid, st1\<lparr>ex_seen := AList.update (Hex i) oid (ex_seen st1)\<rparr>)"
      unfolding stk(1) ex_object.simps None option.case obj sbind_simps b(1) ..
    moreover have "ex_seen_ok h g s (st1\<lparr>ex_seen := AList.update (Hex i) oid (ex_seen st1)\<rparr>)"
      unfolding ex_seen_ok_def
    proof (intro ballI)
      fix p assume "p \<in> set (ex_seen (st1\<lparr>ex_seen := AList.update (Hex i) oid (ex_seen st1)\<rparr>))"
      then consider "p = (Hex i, oid)" | "p \<in> set (ex_seen st1)"
        using set_update_subset [of "Hex i" oid "ex_seen st1"] by auto
      then show "case p of (hex, oid) \<Rightarrow> \<exists>id' n. hex = Hex id' \<and> mirrors n h g s oid id'"
      proof cases
        case 1
        with Suc.prems(1) show ?thesis by blast
      next
        case 2
        with b(2) show ?thesis unfolding ex_seen_ok_def by blast
      qed
    qed
    ultimately show ?thesis by blast
  qed
qed simp

end
