(* ===== verification/Spec2Isabelle.thy ===== *)
theory Spec2Isabelle
  imports Verify Governance Txn Deps Wire Hook P2PSync IdChain DepGraph TextDiff Worktree Gitport
begin

text \<open>
  A verification library for varvig (\<^verbatim>\<open>src/varvig\<close>), a content-addressed version control system
  for software agents, written in Go. Paths below are relative to \<^verbatim>\<open>src/varvig/internal\<close>.

  \<^bold>\<open>The program.\<close> Every datum is an object: a type tag and tagged fields in one canonical
  binary form (VVG1), named by a self-describing hash of that form and kept in a
  content-addressed store. Trees name blobs and trees, changes name a tree and parent changes.
  Refs are the only mutable state: names in a file tree, moved by compare-and-swap, each move
  recorded in a log beside the refs. Notes are chains of objects behind reserved refs; they
  carry attestations and pins. On top of this, a peer accepts a signed request to move a
  ref (trust file, replay guard, verification pipeline), changes are merged three ways
  with a textual merge inside and the history for a base, parallel work is
  scheduled by declared read and write sets, reviews gate the promotion
  of changes, a collector deletes what no root reaches, and two repositories
  exchange objects, refs, notes and pins over a framed protocol.

  \<^bold>\<open>Conventions.\<close> A function that returns an error is a function into \<^verbatim>\<open>goerr + 'a\<close>
  (\<^verbatim>\<open>Prelude\<close>); a run-time panic is an error value of its own, so theorems can say that it does
  or does not happen. Machine integers keep their width. State is passed explicitly:
  \<^verbatim>\<open>objstore\<close> for the object directory, \<^verbatim>\<open>refstate\<close> for the refs and log directories. Code outside
  the repository is a parameter: the two hash functions (\<^verbatim>\<open>hash_funs\<close>, with
  \<^verbatim>\<open>wf_hashes\<close> saying that a digest has its length), Ed25519, the wasm run time, the regenerator
  of the merge, the clock. Go maps are association lists whose order stands for
  the order of \<^verbatim>\<open>range\<close>. Recursion that Go bounds only by its stack takes a depth
  (\<^verbatim>\<open>stk\<close>), and running out of it is a panic value: results about it say which depth is enough.
  Loops that may run forever are \<^verbatim>\<open>partial_function\<close>s whose not returning is \<^verbatim>\<open>None\<close>
  (the merge of a cyclic history, the reading of a cyclic note chain); that they return is a
  theorem of its own (\<^verbatim>\<open>merge_returns\<close>, \<^verbatim>\<open>promotion_check_returns\<close>).

  \<^bold>\<open>The theories\<close>, in the order the code builds on itself.

  \<^item> \<^verbatim>\<open>Prelude\<close>: results, bytes and strings, the parts of package \<^verbatim>\<open>strings\<close> in use, allocation.
  \<^item> \<^verbatim>\<open>Varint\<close>, \<^verbatim>\<open>ObjectCore\<close>, \<^verbatim>\<open>ObjTree\<close>, \<^verbatim>\<open>ObjRecords\<close>: \<^verbatim>\<open>object\<close>. Variable-length integers,
    the strict decoder, signable bytes, then the typed records. The locales
    \<^verbatim>\<open>item_format\<close>, \<^verbatim>\<open>checked_format\<close> and \<^verbatim>\<open>canonical_format\<close> hold
    the proofs about counted lists once, for tree entries, string lists, string maps and hooks.
    Lemmas: the decoder accepts exactly the encodings (\<^verbatim>\<open>vvg1_exact\<close>), every record is read back.
  \<^item> \<^verbatim>\<open>Multihash\<close>, \<^verbatim>\<open>Strconv\<close>: \<^verbatim>\<open>multihash\<close> and the integer parsing and printing it and the logs use.
  \<^item> \<^verbatim>\<open>FileTree\<close>, \<^verbatim>\<open>Refs\<close>, \<^verbatim>\<open>Names\<close>: \<^verbatim>\<open>refs\<close>, \<^verbatim>\<open>reserved\<close>, \<^verbatim>\<open>pin\<close>, \<^verbatim>\<open>denylist\<close>. Refs live in a model of a directory
    tree, so that a name cannot be both a file and a directory. \<^verbatim>\<open>logged_register\<close> is the
    contract of compare-and-swap with a log; its facts give \<^verbatim>\<open>reflog_is_history\<close>.
  \<^item> \<^verbatim>\<open>ObjStore\<close>, \<^verbatim>\<open>Gc\<close>, \<^verbatim>\<open>Notes\<close>: \<^verbatim>\<open>store\<close>, \<^verbatim>\<open>gc\<close>, \<^verbatim>\<open>notes\<close>. \<^verbatim>\<open>content_store\<close> is the store's contract;
    collection is proved exact with respect to reachability.
  \<^item> \<^verbatim>\<open>Trust\<close>, \<^verbatim>\<open>Sshkey\<close>, \<^verbatim>\<open>RefUpdate\<close>, \<^verbatim>\<open>Replay\<close>, \<^verbatim>\<open>Verify\<close>: \<^verbatim>\<open>trust\<close>, \<^verbatim>\<open>sshkey\<close>, \<^verbatim>\<open>refupdate\<close>. Grants and revocations, key
    formats, the signed request, the replay guards and the pipeline that accepts it.
  \<^item> \<^verbatim>\<open>Diff3\<close>, \<^verbatim>\<open>MergeBase\<close>, \<^verbatim>\<open>TreeFiles\<close>, \<^verbatim>\<open>MergeTree\<close>: \<^verbatim>\<open>merge\<close>. The dynamic-programming alignment, the
    three-way text merge, merge bases over a possibly incomplete history, trees as flat maps, the driver.
  \<^item> \<^verbatim>\<open>Attest\<close>, \<^verbatim>\<open>Governance\<close>: \<^verbatim>\<open>provenance\<close>, \<^verbatim>\<open>attest\<close>. Signed changes and decisions, the status of a
    change, vetoes in its history, the gates and the policy module.

  \<^item> \<^verbatim>\<open>TxnSets\<close>, \<^verbatim>\<open>TxnRun\<close>, \<^verbatim>\<open>Txn\<close>, \<^verbatim>\<open>Deps\<close>: \<^verbatim>\<open>txn\<close>, \<^verbatim>\<open>deps\<close>. Declared sets and their conflicts, the scheduler's
    goroutines as a step relation (exclusion, progress), the workspace and the attempts of one
    transaction, the blocking graph of tickets.
  \<^item> \<^verbatim>\<open>Wire\<close>, \<^verbatim>\<open>Hook\<close>, \<^verbatim>\<open>Closure\<close>, \<^verbatim>\<open>P2PServe\<close>, \<^verbatim>\<open>P2PClient\<close>, \<^verbatim>\<open>P2PSync\<close>: \<^verbatim>\<open>wire\<close>, \<^verbatim>\<open>hook\<close>, \<^verbatim>\<open>p2p\<close>. A connection is
    what the peer will still send and what was written to it. The locale \<^verbatim>\<open>wire_item\<close> proves counted
    lists once for every payload type. \<^verbatim>\<open>complete\<close> says that a closure is stored; the loops over
    closures are proved against it, then the server against a peer that sends anything, the
    client likewise, the two against each other, and replication over both.
  \<^item> \<^verbatim>\<open>GoPath\<close>, \<^verbatim>\<open>DiffTree\<close>, \<^verbatim>\<open>Registry\<close>, \<^verbatim>\<open>IdChain\<close>: the package \<^verbatim>\<open>path\<close> as far as it is used, \<^verbatim>\<open>affected\<close> (trees),
    \<^verbatim>\<open>principal\<close>, \<^verbatim>\<open>idchain\<close>. The difference of two trees against that of their flat maps, the registry
    as a map of keyholders, chains of revisions.
  \<^item> \<^verbatim>\<open>GoRegexp\<close>, \<^verbatim>\<open>Imports\<close>, \<^verbatim>\<open>DepGraph\<close>: the regular expressions in use as a backtracking matcher, the references
    of a file, the dependency graph of a tree and what a change affects (\<^verbatim>\<open>affected\<close>). The locale \<^verbatim>\<open>memo\<close>
    is the contract of a cache, by which the graph with a cache is the graph without one.
  \<^item> \<^verbatim>\<open>TextDiff\<close>: \<^verbatim>\<open>textdiff\<close>. The unified diff; an edit script is a list of operations with the predicate
    \<^verbatim>\<open>script\<close>, and the printed hunks are shown to be a patch.
  \<^item> \<^verbatim>\<open>Worktree\<close>: \<^verbatim>\<open>worktree\<close>. A directory is a snapshot of what the system calls answer; writing it as a
    tree, scanning it with the index of unchanged files, comparing two states and selecting what to propose.
  \<^item> \<^verbatim>\<open>GitObj\<close>, \<^verbatim>\<open>GitPack\<close>, \<^verbatim>\<open>Gitport\<close>: \<^verbatim>\<open>gitobj\<close> and \<^verbatim>\<open>gitport\<close>. Git's objects, loose and packed, with SHA-1 and zlib
    as parameters; \<^verbatim>\<open>mirrors\<close> says which Git object a stored object is, and export writes exactly that.

  \<^bold>\<open>Not modelled.\<close> What only performs input and output or wires packages together: the
  command line (\<^verbatim>\<open>cmd/varvig\<close>), the daemon and MCP front ends, sockets and their deadlines, the lock file's spinning (every operation on the refs is one atomic step, as the
  lock makes it), identity seed files and environment variables, the wasm run time. A real
  memory shortage is outside the model; requests beyond the address space are panics.
\<close>

end
